(* ===== verification/Prelude.thy ===== *)
theory Prelude
  imports "HOL-Library.Word" "HOL-Library.Monad_Syntax"
begin

text \<open>
  Shared vocabulary of the development: the machine types of the LP64 platform the library
  is compiled for (\<open>size_t\<close> and pointers are 64-bit words, \<open>int\<close> is 32 bits wide and is
  modelled by the mathematical integer it denotes, with explicit range checks where C leaves
  signed overflow undefined), the conversions between them, and the generic lemmas on words,
  lists and options that the component theories share.

  Undefined behaviour of C (a dereference of a null or dangling pointer, an access outside an
  object, signed overflow, a double free) and non-termination are the value \<open>None\<close> of the
  option monad; the results that the C functions return on purpose (a null pointer, an error
  code) are ordinary values.
\<close>

unbundle bit_operations_syntax

named_theorems c_arith \<open>arithmetic of size_t and int under the bounds that exclude wrap-around\<close>
named_theorems heap_simps \<open>what an operation of the memory model does to each part of the heap\<close>

type_synonym addr = "64 word"
type_synonym size_t = "64 word"
type_synonym u_char = "8 word"

abbreviation NULL :: addr where
  "NULL \<equiv> 0"

subsection \<open>The C type int\<close>

definition INT_MAX :: int where
  "INT_MAX = 2147483647"

definition INT_MIN :: int where
  "INT_MIN = - 2147483648"

definition int_ok :: "int \<Rightarrow> bool" where
  "int_ok i \<longleftrightarrow> INT_MIN \<le> i \<and> i \<le> INT_MAX"

text \<open>The result of a signed operation: undefined when it does not fit.\<close>

definition int_chk :: "int \<Rightarrow> int option" where
  "int_chk i = (if int_ok i then Some i else None)"

text \<open>
  Conversions: \<open>int\<close> to \<open>size_t\<close> is modulo \<open>2 ^ 64\<close>; \<open>size_t\<close> to \<open>int\<close> keeps the low
  32 bits (implementation-defined in C, this is what every LP64 compiler documents).
\<close>

definition size_of_int :: "int \<Rightarrow> size_t" where
  "size_of_int i = word_of_int i"

definition int_of_size :: "size_t \<Rightarrow> int" where
  "int_of_size n = sint (ucast n :: 32 word)"

text \<open>A condition without which the behaviour is undefined.\<close>

definition require :: "bool \<Rightarrow> unit option" where
  "require b = (if b then Some () else None)"

lemma require_simps [simp]:
  "require True = Some ()"
  "require False = None"
  by (simp_all add: require_def)

lemma require_eq_Some [simp]: "require b = Some u \<longleftrightarrow> b"
  by (simp add: require_def)

lemma require_eq_None [simp]: "require b = None \<longleftrightarrow> \<not> b"
  by (simp add: require_def)

lemma int_chk_ok: "INT_MIN \<le> i \<Longrightarrow> i \<le> INT_MAX \<Longrightarrow> int_chk i = Some i"
  by (simp add: int_chk_def int_ok_def)

lemma int_chk_eq_Some: "int_chk i = Some j \<longleftrightarrow> int_ok i \<and> j = i"
  by (auto simp: int_chk_def)

lemma int_chk_eq_None: "int_chk i = None \<longleftrightarrow> \<not> int_ok i"
  by (simp add: int_chk_def)

lemmas int_limits = int_ok_def INT_MAX_def INT_MIN_def

subsection \<open>Words without wrap-around\<close>

lemma unat_bound64: "unat (x :: 64 word) < 18446744073709551616"
  using unsigned_less [of x, where 'a = nat] by simp

lemma unat_add_ok [c_arith]:
  "unat x + unat y < 18446744073709551616 \<Longrightarrow> unat (x + y :: 64 word) = unat x + unat y"
  by (simp add: unat_word_ariths)

lemma unat_mult_ok [c_arith]:
  "unat x * unat y < 18446744073709551616 \<Longrightarrow> unat (x * y :: 64 word) = unat x * unat y"
  by (simp add: unat_word_ariths)

lemma unat_sub_ok [c_arith]:
  "unat y \<le> unat x \<Longrightarrow> unat (x - y :: 64 word) = unat x - unat y"
  by (simp add: unat_sub word_le_nat_alt)

lemma unat_of_nat_ok [c_arith]:
  "k < 18446744073709551616 \<Longrightarrow> unat (of_nat k :: 64 word) = k"
  by (simp add: unsigned_of_nat take_bit_nat_eq_self)

lemma unat_size_of_int [c_arith]:
  "0 \<le> i \<Longrightarrow> i \<le> INT_MAX \<Longrightarrow> unat (size_of_int i) = nat i"
  by (simp add: size_of_int_def INT_MAX_def unat_eq_nat_uint uint_word_of_int)

lemma int_of_size_ok [c_arith]:
  assumes "unat n < 2147483648"
  shows "int_of_size n = int (unat n)"
proof -
  have "int (unat n) < 2147483648"
    using assms by linarith
  then have b: "0 \<le> uint n" "uint n < 2147483648"
    by simp_all
  then have "uint (ucast n :: 32 word) = uint n"
    by (simp add: unsigned_ucast_eq take_bit_int_eq_self)
  moreover have "signed_take_bit 31 (uint n) = uint n"
    using b order.trans [of "- (2 ^ 31)" 0 "uint n"]
    by (intro signed_take_bit_int_eq_self) simp_all
  ultimately show ?thesis
    by (simp add: int_of_size_def sint_uint)
qed

lemma int_of_size_of_int [c_arith]: "0 \<le> i \<Longrightarrow> i \<le> INT_MAX \<Longrightarrow> int_of_size (size_of_int i) = i"
  by (subst int_of_size_ok) (simp_all add: unat_size_of_int INT_MAX_def)

text \<open>Sums and differences of converted values: the wrap-around of \<open>size_t\<close> cancels out.\<close>

lemma int_of_size_word_of_int:
  assumes "INT_MIN \<le> i" "i \<le> INT_MAX"
  shows "int_of_size (word_of_int i) = i"
proof -
  have "(ucast (word_of_int i :: 64 word) :: 32 word) = word_of_int i"
    by (rule bit_word_eqI) (simp add: bit_unsigned_iff bit_word_of_int_iff)
  moreover have "signed_take_bit 31 i = i"
    using assms by (intro signed_take_bit_int_eq_self) (simp_all add: INT_MIN_def INT_MAX_def)
  ultimately show ?thesis
    by (simp add: int_of_size_def sint_sbintrunc')
qed

lemma int_of_size_int [c_arith]: "INT_MIN \<le> i \<Longrightarrow> i \<le> INT_MAX \<Longrightarrow> int_of_size (size_of_int i) = i"
  by (simp add: size_of_int_def int_of_size_word_of_int)

lemma size_of_int_hom:
  "size_of_int a + size_of_int b = size_of_int (a + b)"
  "size_of_int a - size_of_int b = size_of_int (a - b)"
  "size_of_int 0 = 0" "size_of_int 1 = 1" "(of_nat n :: size_t) = size_of_int (int n)"
  by (simp_all add: size_of_int_def)

end
