(* ===== verification/C_Heap.thy ===== *)
theory C_Heap
  imports Prelude
begin

text \<open>
  The part of the C standard library the sources call for storage: \<open>malloc\<close>, \<open>realloc\<close>,
  \<open>free\<close>, \<open>memset\<close>. The heap records the raw bytes of memory and the live blocks with
  their sizes. Where a block is placed is decided outside the program: the heap carries the
  addresses the system will offer (\<open>offers\<close>), and a request succeeds when the next offered
  address is a legal placement for it, and fails (the null pointer) otherwise, or when nothing
  more is offered. Every behaviour the C standard allows an allocator is the behaviour of some
  list of offers, and no list of offers breaks the standard's contract: a returned block never overlaps a live
  one, is aligned for every type, and does not wrap around the address space.
\<close>

record heap =
  offers :: "addr list"
  live :: "(addr \<times> nat) list"
  bytes :: "addr \<Rightarrow> u_char"

subsection \<open>Blocks\<close>

text \<open>A request for zero bytes still gets an address of its own.\<close>

definition extent :: "nat \<Rightarrow> nat" where
  "extent n = max 1 n"

definition apart :: "addr \<Rightarrow> nat \<Rightarrow> addr \<Rightarrow> nat \<Rightarrow> bool" where
  "apart a n b m \<longleftrightarrow> unat a + extent n \<le> unat b \<or> unat b + extent m \<le> unat a"

definition fits :: "addr \<Rightarrow> nat \<Rightarrow> bool" where
  "fits a n \<longleftrightarrow> a \<noteq> NULL \<and> 16 dvd unat a \<and> unat a + extent n < 2 ^ 64"

definition placement_ok :: "addr \<Rightarrow> nat \<Rightarrow> (addr \<times> nat) list \<Rightarrow> bool" where
  "placement_ok a n bs \<longleftrightarrow> fits a n \<and> list_all (\<lambda>(b, m). apart a n b m) bs"

fun blocks_ok :: "(addr \<times> nat) list \<Rightarrow> bool" where
  "blocks_ok [] = True"
| "blocks_ok ((a, n) # bs) = (placement_ok a n bs \<and> blocks_ok bs)"

definition heap_ok :: "'h heap_scheme \<Rightarrow> bool" where
  "heap_ok h \<longleftrightarrow> blocks_ok (live h)"

definition block_size :: "'h heap_scheme \<Rightarrow> addr \<Rightarrow> nat option" where
  "block_size h a = map_of (live h) a"

text \<open>The \<open>n\<close> bytes from \<open>p\<close> lie inside one live block.\<close>

definition valid_range :: "'h heap_scheme \<Rightarrow> addr \<Rightarrow> nat \<Rightarrow> bool" where
  "valid_range h p n \<longleftrightarrow>
     list_ex (\<lambda>(b, m). unat b \<le> unat p \<and> unat p + n \<le> unat b + m) (live h)"

subsection \<open>The library functions\<close>

definition malloc :: "size_t \<Rightarrow> 'h heap_scheme \<Rightarrow> addr \<times> 'h heap_scheme" where
  "malloc n h =
     (case offers h of
        [] \<Rightarrow> (NULL, h)
      | a # as \<Rightarrow>
          if placement_ok a (unat n) (live h)
          then (a, h\<lparr>offers := as, live := (a, unat n) # live h\<rparr>)
          else (NULL, h\<lparr>offers := as\<rparr>))"

definition drop_block :: "addr \<Rightarrow> 'h heap_scheme \<Rightarrow> 'h heap_scheme" where
  "drop_block p h = h\<lparr>live := filter (\<lambda>(b, m). b \<noteq> p) (live h)\<rparr>"

text \<open>\<open>free\<close> of a pointer that is not the start of a live block is undefined.\<close>

definition free :: "addr \<Rightarrow> 'h heap_scheme \<Rightarrow> 'h heap_scheme option" where
  "free p h =
     (if p = NULL then Some h
      else case block_size h p of None \<Rightarrow> None | Some m \<Rightarrow> Some (drop_block p h))"

definition copy_bytes :: "addr \<Rightarrow> addr \<Rightarrow> nat \<Rightarrow> (addr \<Rightarrow> u_char) \<Rightarrow> addr \<Rightarrow> u_char" where
  "copy_bytes q p n f = (\<lambda>x. if unat (x - q) < n then f (p + (x - q)) else f x)"

text \<open>
  \<open>realloc\<close> of a live block: the new block may be the old one, extended or moved; it keeps the
  first \<open>min\<close> (old size) (new size) bytes, and on failure the old block is untouched. A new size
  of zero has no portable meaning.
\<close>

definition realloc :: "addr \<Rightarrow> size_t \<Rightarrow> 'h heap_scheme \<Rightarrow> (addr \<times> 'h heap_scheme) option" where
  "realloc p n h =
     (if p = NULL then Some (malloc n h)
      else case block_size h p of
        None \<Rightarrow> None
      | Some m \<Rightarrow>
          if n = 0 then None
          else (case malloc n (drop_block p h) of (q, h') \<Rightarrow>
            if q = NULL then Some (NULL, h\<lparr>offers := offers h'\<rparr>)
            else Some (q, h'\<lparr>bytes := copy_bytes q p (min m (unat n)) (bytes h)\<rparr>)))"

definition memset :: "addr \<Rightarrow> u_char \<Rightarrow> size_t \<Rightarrow> 'h heap_scheme \<Rightarrow> 'h heap_scheme option" where
  "memset p v n h = do {
     require (valid_range h p (unat n));
     Some (h\<lparr>bytes := (\<lambda>x. if unat (x - p) < unat n then v else bytes h x)\<rparr>)
   }"

definition read_bytes :: "'h heap_scheme \<Rightarrow> addr \<Rightarrow> nat \<Rightarrow> u_char list" where
  "read_bytes h p n = map (\<lambda>i. bytes h (p + of_nat i)) [0..<n]"

definition write_bytes :: "addr \<Rightarrow> u_char list \<Rightarrow> 'h heap_scheme \<Rightarrow> 'h heap_scheme option" where
  "write_bytes p vs h = do {
     require (valid_range h p (length vs));
     Some (h\<lparr>bytes := (\<lambda>x. if unat (x - p) < length vs then vs ! unat (x - p) else bytes h x)\<rparr>)
   }"

subsection \<open>Blocks of a well-formed heap\<close>

lemma extent_simps [simp]: "extent 0 = 1" "0 < n \<Longrightarrow> extent n = n" "n \<le> extent n" "0 < extent n"
  by (simp_all add: extent_def)

lemma apart_sym: "apart a n b m \<longleftrightarrow> apart b m a n"
  by (auto simp: apart_def)

lemma apart_neq: "apart a n b m \<Longrightarrow> a \<noteq> b"
  by (auto simp: apart_def extent_def)

lemma apart_irrefl [simp]: "\<not> apart a n a m"
  by (simp add: apart_def extent_def)

lemma placement_ok_iff:
  "placement_ok a n bs \<longleftrightarrow> fits a n \<and> (\<forall>b m. (b, m) \<in> set bs \<longrightarrow> apart a n b m)"
  by (auto simp: placement_ok_def list_all_iff)

lemma placement_ok_NULL [simp]: "\<not> placement_ok NULL n bs"
  by (simp add: placement_ok_def fits_def)

lemma blocks_ok_fits: "blocks_ok bs \<Longrightarrow> (a, n) \<in> set bs \<Longrightarrow> fits a n"
  by (induction bs rule: blocks_ok.induct) (auto simp: placement_ok_def)

lemma blocks_ok_apart:
  "blocks_ok bs \<Longrightarrow> (a, n) \<in> set bs \<Longrightarrow> (b, m) \<in> set bs \<Longrightarrow> (a, n) \<noteq> (b, m) \<Longrightarrow> apart a n b m"
proof (induction bs rule: blocks_ok.induct)
  case 1
  then show ?case by simp
next
  case (2 c k bs)
  then have c: "\<And>b m. (b, m) \<in> set bs \<Longrightarrow> apart c k b m"
    by (simp add: placement_ok_iff)
  show ?case
    using 2 c apart_sym [of a n b m] by auto
qed

lemma blocks_ok_distinct: "blocks_ok bs \<Longrightarrow> distinct (map fst bs)"
  by (induction bs rule: blocks_ok.induct) (fastforce simp: placement_ok_iff)+

lemma blocks_ok_map_of: "blocks_ok bs \<Longrightarrow> map_of bs a = Some n \<longleftrightarrow> (a, n) \<in> set bs"
  by (simp add: blocks_ok_distinct)

lemma blocks_ok_filter: "blocks_ok bs \<Longrightarrow> blocks_ok (filter P bs)"
  by (induction bs rule: blocks_ok.induct) (auto simp: placement_ok_iff)

lemma placement_ok_block_size: "placement_ok a n (live h) \<Longrightarrow> block_size h a = None"
  by (fastforce simp: placement_ok_iff block_size_def map_of_eq_None_iff)

lemma block_size_in_live: "block_size h a = Some n \<Longrightarrow> (a, n) \<in> set (live h)"
  by (simp add: block_size_def map_of_SomeD)

lemma block_size_fits: "heap_ok h \<Longrightarrow> block_size h a = Some n \<Longrightarrow> fits a n"
  by (auto simp: heap_ok_def dest: block_size_in_live blocks_ok_fits)

lemma block_size_NULL: "heap_ok h \<Longrightarrow> block_size h NULL = None"
  using block_size_fits [of h NULL] by (cases "block_size h NULL") (auto simp: fits_def)

lemma block_size_apart:
  "heap_ok h \<Longrightarrow> block_size h a = Some n \<Longrightarrow> block_size h b = Some m \<Longrightarrow> a \<noteq> b \<Longrightarrow> apart a n b m"
  by (auto simp: heap_ok_def dest!: block_size_in_live intro: blocks_ok_apart)

lemma valid_range_block:
  "block_size h a = Some m \<Longrightarrow> unat a \<le> unat p \<Longrightarrow> unat p + n \<le> unat a + m \<Longrightarrow> valid_range h p n"
  by (force simp: valid_range_def list_ex_iff dest: block_size_in_live)

lemma block_size_drop [heap_simps]:
  "block_size (drop_block p h) a = (if a = p then None else block_size h a)"
proof -
  have "map_of (filter (\<lambda>(b, m). b \<noteq> p) bs) a = (if a = p then None else map_of bs a)"
    for bs :: "(addr \<times> nat) list"
    by (induction bs) auto
  then show ?thesis
    by (simp add: block_size_def drop_block_def)
qed

lemma block_size_live_cong: "live h = live h' \<Longrightarrow> block_size h = block_size h'"
  by (simp add: block_size_def fun_eq_iff)

lemma heap_ok_drop: "heap_ok h \<Longrightarrow> heap_ok (drop_block p h)"
  by (simp add: heap_ok_def drop_block_def blocks_ok_filter)

lemma drop_block_simps [heap_simps]:
  "offers (drop_block p h) = offers h"
  "bytes (drop_block p h) = bytes h"
  "live (drop_block p h) = filter (\<lambda>(b, m). b \<noteq> p) (live h)"
  by (simp_all add: drop_block_def)

subsection \<open>What the library functions return\<close>

lemma malloc_cases:
  obtains (Fail) as where "malloc n h = (NULL, h\<lparr>offers := as\<rparr>)"
  | (Done) a as where "a \<noteq> NULL" "placement_ok a (unat n) (live h)"
      "malloc n h = (a, h\<lparr>offers := as, live := (a, unat n) # live h\<rparr>)"
proof (cases "offers h")
  case Nil
  then have "h = h\<lparr>offers := []\<rparr>"
    by simp
  with Nil show ?thesis
    using Fail [of "[]"] by (simp add: malloc_def)
next
  case (Cons a as)
  show ?thesis
  proof (cases "placement_ok a (unat n) (live h)")
    case True
    then have "a \<noteq> NULL"
      by auto
    then show ?thesis
      using True Done [of a as] Cons by (simp add: malloc_def)
  next
    case False
    then show ?thesis
      using Fail [of as] Cons by (simp add: malloc_def)
  qed
qed

lemma heap_ok_malloc: "heap_ok h \<Longrightarrow> malloc n h = (a, h') \<Longrightarrow> heap_ok h'"
  by (rule malloc_cases [of n h]) (auto simp: heap_ok_def)

lemma malloc_NULL_live: "malloc n h = (NULL, h') \<Longrightarrow> live h' = live h \<and> bytes h' = bytes h"
  by (rule malloc_cases [of n h]) auto

lemma malloc_live:
  "malloc n h = (a, h') \<Longrightarrow> a \<noteq> NULL \<Longrightarrow>
     live h' = (a, unat n) # live h \<and> bytes h' = bytes h \<and> placement_ok a (unat n) (live h)"
  by (rule malloc_cases [of n h]) auto

lemma free_Some_iff:
  "free p h = Some h' \<longleftrightarrow>
     p = NULL \<and> h' = h \<or> p \<noteq> NULL \<and> block_size h p \<noteq> None \<and> h' = drop_block p h"
  by (auto simp: free_def split: option.splits)

lemma heap_ok_free: "heap_ok h \<Longrightarrow> free p h = Some h' \<Longrightarrow> heap_ok h'"
  by (auto simp: free_Some_iff heap_ok_drop)

text \<open>
  Every effect of \<open>realloc\<close> on the heap in one rule: it fails and only consumes an offer, or it
  returns a block of the new size that holds the old bytes.
\<close>

lemma realloc_cases:
  assumes "heap_ok h" "block_size h p = Some m" "n \<noteq> 0"
  obtains (Fail) as where "realloc p n h = Some (NULL, h\<lparr>offers := as\<rparr>)"
  | (Done) q as where "q \<noteq> NULL" "q = p \<or> block_size h q = None"
      "placement_ok q (unat n) (live (drop_block p h))"
      "realloc p n h = Some (q, h\<lparr>offers := as,
         live := (q, unat n) # live (drop_block p h),
         bytes := copy_bytes q p (min m (unat n)) (bytes h)\<rparr>)"
proof (rule malloc_cases [of n "drop_block p h"])
  have p: "p \<noteq> NULL"
    using block_size_fits [OF assms(1,2)] by (auto simp: fits_def)
  show thesis if "malloc n (drop_block p h) = (NULL, (drop_block p h)\<lparr>offers := as\<rparr>)" for as
    using that assms p Fail [of as] by (simp add: realloc_def)
  show thesis if q: "q \<noteq> NULL" "placement_ok q (unat n) (live (drop_block p h))"
    "malloc n (drop_block p h) = (q, (drop_block p h)
       \<lparr>offers := as, live := (q, unat n) # live (drop_block p h)\<rparr>)" for q as
  proof (rule Done [of q as])
    show "q = p \<or> block_size h q = None"
      using placement_ok_block_size [OF q(2)] by (simp add: heap_simps split: if_splits)
    show "realloc p n h = Some (q, h\<lparr>offers := as, live := (q, unat n) # live (drop_block p h),
         bytes := copy_bytes q p (min m (unat n)) (bytes h)\<rparr>)"
      using q assms p by (simp add: realloc_def heap_simps) (simp add: drop_block_def)
  qed (use q in simp_all)
qed

lemma block_size_live_upd [heap_simps]:
  "block_size (h\<lparr>live := (q, n) # live (drop_block p h)\<rparr>) = (block_size h)(p := None, q \<mapsto> n)"
  using block_size_drop [of p h] by (auto simp: block_size_def fun_eq_iff)

lemma heap_ok_live_upd:
  "heap_ok h \<Longrightarrow> placement_ok q n (live (drop_block p h)) \<Longrightarrow>
     heap_ok (h\<lparr>live := (q, n) # live (drop_block p h)\<rparr>)"
  using heap_ok_drop [of h p] by (simp add: heap_ok_def)

lemma heap_frame [heap_simps]:
  "block_size (h\<lparr>offers := as\<rparr>) = block_size h"
  "block_size (h\<lparr>bytes := f\<rparr>) = block_size h"
  "heap_ok (h\<lparr>offers := as\<rparr>) = heap_ok h"
  "heap_ok (h\<lparr>bytes := f\<rparr>) = heap_ok h"
  "valid_range (h\<lparr>offers := as\<rparr>) = valid_range h"
  "valid_range (h\<lparr>bytes := f\<rparr>) = valid_range h"
  by (simp_all add: block_size_def heap_ok_def valid_range_def fun_eq_iff)

subsection \<open>Reading bytes back\<close>

lemma length_read_bytes [simp]: "length (read_bytes h p n) = n"
  by (simp add: read_bytes_def)

lemma unat_offset:
  assumes "j < 2 ^ 64" "k < 2 ^ 64"
  shows "unat ((base + of_nat j) - (base + of_nat k :: 64 word)) =
    (if k \<le> j then j - k else 2 ^ 64 + j - k)"
proof (cases "k \<le> j")
  case True
  then have eq: "(base + of_nat j) - (base + of_nat k :: 64 word) = of_nat (j - k)"
    by (simp add: of_nat_diff)
  show ?thesis
    unfolding eq by (subst unat_of_nat_ok) (use True assms in auto)
next
  case False
  then have "of_nat j - of_nat k = - (of_nat (k - j) :: 64 word)"
    by (simp add: of_nat_diff)
  moreover have "- (of_nat (k - j) :: 64 word) = of_nat (2 ^ 64 - (k - j))"
    using False assms by (subst of_nat_diff) simp_all
  ultimately have eq: "(base + of_nat j) - (base + of_nat k :: 64 word) = of_nat (2 ^ 64 - (k - j))"
    by simp
  show ?thesis
    unfolding eq by (subst unat_of_nat_ok) (use False assms in auto)
qed

lemma copy_bytes_at:
  "k < n \<Longrightarrow> n < 2 ^ 64 \<Longrightarrow> copy_bytes q p n f (q + of_nat k) = f (p + of_nat k)"
  by (simp add: copy_bytes_def unsigned_of_nat take_bit_nat_eq_self)

lemma read_bytes_copy:
  assumes "k + n \<le> m" "m < 2 ^ 64" "bytes h' = copy_bytes q p m (bytes h)"
  shows "read_bytes h' (q + of_nat k) n = read_bytes h (p + of_nat k) n"
  using assms copy_bytes_at [of "k + i" m q p "bytes h" for i]
  by (simp add: read_bytes_def add.assoc flip: of_nat_add)

lemma write_bytes_Some:
  "valid_range h p (length vs) \<Longrightarrow> \<exists>f. write_bytes p vs h = Some (h\<lparr>bytes := f\<rparr>)"
  by (auto simp: write_bytes_def)

lemma read_write_same:
  assumes "write_bytes p vs h = Some h'" "length vs < 2 ^ 64"
  shows "read_bytes h' p (length vs) = vs"
  using assms
  by (auto simp: write_bytes_def read_bytes_def bind_eq_Some_conv unsigned_of_nat take_bit_nat_eq_self
      intro: nth_equalityI)

lemma read_write_other:
  assumes "write_bytes (base + of_nat k) vs h = Some h'"
    and "j + n \<le> k" "k + length vs < 2 ^ 64"
  shows "read_bytes h' (base + of_nat j) n = read_bytes h (base + of_nat j) n"
proof -
  have "\<not> unat ((base + of_nat (j + i)) - (base + of_nat k)) < length vs" if "i < n" for i
    using assms that by (subst unat_offset) auto
  then show ?thesis
    using assms(1) by (auto simp: write_bytes_def read_bytes_def bind_eq_Some_conv add.assoc)
qed

subsection \<open>Enough memory\<close>

text \<open>
  \<open>roomy k h\<close>: the next \<open>k\<close> requests of at most 4 GiB each cannot fail, because the next \<open>k\<close> addresses
  on offer have 4 GiB to themselves. The totality statements of functions that allocate use it to
  say that memory is all they need.
\<close>

definition slot_size :: nat where "slot_size = 4294967296"

definition roomy :: "nat \<Rightarrow> 'h heap_scheme \<Rightarrow> bool" where
  "roomy k h \<longleftrightarrow> k \<le> length (offers h) \<and>
     list_all (\<lambda>a. fits a slot_size \<and> list_all (\<lambda>(b, m). apart a slot_size b m) (live h)) (take k (offers h)) \<and>
     sorted_wrt (\<lambda>a b. apart a slot_size b slot_size) (take k (offers h))"

lemma extent_mono: "n \<le> m \<Longrightarrow> extent n \<le> extent m"
  by (simp add: extent_def)

lemma apart_mono: "apart a m b k \<Longrightarrow> n \<le> m \<Longrightarrow> apart a n b k"
  using extent_mono [of n m] by (auto simp: apart_def)

lemma fits_mono: "fits a m \<Longrightarrow> n \<le> m \<Longrightarrow> fits a n"
  using extent_mono [of n m] by (auto simp: fits_def)

lemma roomy_Suc: "roomy (Suc k) h \<Longrightarrow> roomy k h"
  by (auto simp: roomy_def list_all_iff take_Suc_conv_app_nth sorted_wrt_append)

lemma roomy_mono: "roomy k h \<Longrightarrow> j \<le> k \<Longrightarrow> roomy j h"
  by (induction k) (auto simp: le_Suc_eq dest: roomy_Suc)

lemma roomy_cong: "offers h' = offers h \<Longrightarrow> live h' = live h \<Longrightarrow> roomy k h' = roomy k h"
  by (simp add: roomy_def)

lemma roomy_drop: "roomy k h \<Longrightarrow> roomy k (drop_block p h)"
  by (auto simp: roomy_def list_all_iff heap_simps)

lemma malloc_roomy:
  assumes "roomy (Suc k) h" "unat n \<le> slot_size"
  shows "fst (malloc n h) \<noteq> NULL" "roomy k (snd (malloc n h))"
proof -
  obtain a as where a: "offers h = a # as"
    using assms(1) by (cases "offers h") (auto simp: roomy_def)
  have r: "fits a slot_size" "\<And>b m. (b, m) \<in> set (live h) \<Longrightarrow> apart a slot_size b m"
    "\<And>b. b \<in> set (take k as) \<Longrightarrow> apart a slot_size b slot_size"
    using assms(1) by (auto simp: roomy_def a list_all_iff)
  then have p: "placement_ok a (unat n) (live h)"
    using apart_mono [OF _ assms(2)] fits_mono [OF r(1) assms(2)] by (simp add: placement_ok_iff)
  then have "a \<noteq> NULL"
    by auto
  with p show "fst (malloc n h) \<noteq> NULL"
    by (simp add: malloc_def a)
  have "apart b slot_size a (unat n)" if "b \<in> set (take k as)" for b
    using r(3) [OF that] apart_mono [OF _ assms(2)] apart_sym by blast
  then show "roomy k (snd (malloc n h))"
    using assms(1) p by (auto simp: malloc_def a roomy_def list_all_iff)
qed

lemma roomy_free: "roomy k h \<Longrightarrow> free p h = Some h' \<Longrightarrow> roomy k h'"
  by (auto simp: free_def roomy_drop split: if_splits option.splits)

lemma realloc_roomy:
  assumes "roomy (Suc k) h" "unat n \<le> slot_size" "realloc p n h = Some (q, h')"
  shows "q \<noteq> NULL" "roomy k h'"
proof -
  have d: "roomy (Suc k) (drop_block p h)"
    using assms(1) by (rule roomy_drop)
  have "q \<noteq> NULL \<and> roomy k h'"
    using assms malloc_roomy [OF assms(1,2)] malloc_roomy [OF d assms(2)]
    by (auto simp: realloc_def roomy_def split: if_splits option.splits prod.splits)
  then show "q \<noteq> NULL" "roomy k h'"
    by simp_all
qed
text \<open>A heap with the room: the addresses on offer lie 8 GiB apart.\<close>

definition spread :: "nat \<Rightarrow> addr list" where
  "spread n = map (\<lambda>i. of_nat (Suc i * 8589934592)) [0..<n]"

lemma roomy_spread:
  assumes "offers h = spread n" "live h = []" "n < 1073741824"
  shows "roomy n h"
proof -
  have u: "unat (of_nat (Suc i * 8589934592) :: addr) = Suc i * 8589934592" if "i < n" for i
    using that assms(3) by (intro unat_of_nat_ok) simp
  have "fits (of_nat (Suc i * 8589934592)) slot_size" if "i < n" for i
  proof -
    have "unat (of_nat (Suc i * 8589934592) :: addr) \<noteq> 0" "16 dvd unat (of_nat (Suc i * 8589934592) :: addr)"
      "unat (of_nat (Suc i * 8589934592) :: addr) + extent slot_size < 2 ^ 64"
      unfolding u [OF that] using that assms(3) by (simp_all add: slot_size_def extent_def)
    then show ?thesis
      by (auto simp: fits_def simp del: of_nat_mult of_nat_Suc)
  qed
  moreover have "apart (of_nat (Suc i * 8589934592)) slot_size (of_nat (Suc j * 8589934592)) slot_size" if "i < j" "j < n" for i j
    unfolding apart_def using u [of i] u [of j] that by (simp add: slot_size_def extent_def del: of_nat_mult of_nat_Suc)
  ultimately show ?thesis
    using assms by (simp add: roomy_def spread_def list_all_iff sorted_wrt_map sorted_wrt_iff_nth_less
        del: of_nat_mult of_nat_Suc)
qed

end
