(* ===== verification/Nc_Macros.thy ===== *)
theory Nc_Macros
  imports C_Heap
begin

text \<open>
  \<open>nc_macros.h\<close> and \<open>nc_macros.c\<close>: the return codes, the alignment macros and the
  allocation wrappers every component goes through. \<open>log_debug\<close> and its kin expand to
  nothing in the header, and \<open>NC_ASSERT\<close> expands to nothing in the build of
  \<open>premake5.lua\<close> (neither \<open>NC_ASSERT_PANIC\<close> nor \<open>NC_ASSERT_LOG\<close> is defined), so the
  wrappers reduce to the library calls; the three builds of \<open>NC_ASSERT\<close> are the datatype
  \<open>assert_build\<close>. \<open>NC_HAVE_POSIX_MEMALIGN\<close> is not defined either, so \<open>nc_memalign\<close> is \<open>nc_alloc\<close>; the
  function of the other build is \<open>nc_memalign_posix\<close>, with the system's \<open>posix_memalign\<close> as an argument.
  The macro \<open>nc_free\<close> also sets its argument to the null pointer; where the argument is a field that
  outlives the call, the component that makes the call models the assignment.

  The interface the components rely on is the locale \<open>block_allocator\<close>, interpreted here on
  \<open>nc_alloc\<close> and \<open>nc_free\<close>.
\<close>

subsection \<open>Constants\<close>

definition NC_OK :: int where "NC_OK = 0"
definition NC_ERROR :: int where "NC_ERROR = - 1"
definition NC_EAGAIN :: int where "NC_EAGAIN = - 2"
definition NC_ENOMEM :: int where "NC_ENOMEM = - 3"

lemmas nc_codes = NC_OK_def NC_ERROR_def NC_EAGAIN_def NC_ENOMEM_def

definition LF :: u_char where "LF = 10"
definition CR :: u_char where "CR = 13"
definition CRLF :: "u_char list" where "CRLF = [0x0d, 0x0a]"

text \<open>The array of the literal has a terminator, which the length leaves out.\<close>

definition CRLF_LEN :: nat where "CRLF_LEN = length (CRLF @ [0]) - 1"

text \<open>Buffer sizes for the decimal digits of an unsigned integer with the terminator.\<close>

definition NC_UINT8_MAXLEN :: nat where "NC_UINT8_MAXLEN = 3 + 1"
definition NC_UINT16_MAXLEN :: nat where "NC_UINT16_MAXLEN = 5 + 1"
definition NC_UINT32_MAXLEN :: nat where "NC_UINT32_MAXLEN = 10 + 1"
definition NC_UINT64_MAXLEN :: nat where "NC_UINT64_MAXLEN = 20 + 1"
definition NC_UINTMAX_MAXLEN :: nat where "NC_UINTMAX_MAXLEN = NC_UINT64_MAXLEN"

definition NC_ALIGNMENT :: size_t where "NC_ALIGNMENT = 8"

definition c_MIN :: "size_t \<Rightarrow> size_t \<Rightarrow> size_t" where
  "c_MIN a b = (if a < b then a else b)"

definition c_MAX :: "size_t \<Rightarrow> size_t \<Rightarrow> size_t" where
  "c_MAX a b = (if a > b then a else b)"

subsection \<open>Assertions\<close>

datatype assert_build = Assert_Panic | Assert_Log | Assert_Off

text \<open>\<open>abort\<close> does not return; a log message changes nothing the program reads.\<close>

definition nc_assert :: "bool \<Rightarrow> 's \<Rightarrow> 's option" where
  "nc_assert panic s = (if panic then None else Some s)"

fun NC_ASSERT :: "assert_build \<Rightarrow> bool \<Rightarrow> 's \<Rightarrow> 's option" where
  "NC_ASSERT Assert_Panic x s = (if \<not> x then nc_assert True s else Some s)"
| "NC_ASSERT Assert_Log x s = (if \<not> x then nc_assert False s else Some s)"
| "NC_ASSERT Assert_Off x s = Some s"

definition NOT_REACHED :: "assert_build \<Rightarrow> 's \<Rightarrow> 's option" where
  "NOT_REACHED m s = NC_ASSERT m False s"

subsection \<open>Alignment\<close>

definition NC_ALIGN :: "size_t \<Rightarrow> size_t \<Rightarrow> size_t" where
  "NC_ALIGN d n = (d + (n - 1)) AND NOT (n - 1)"

definition NC_ALIGN_PTR :: "addr \<Rightarrow> size_t \<Rightarrow> addr" where
  "NC_ALIGN_PTR p n = (p + (n - 1)) AND NOT (n - 1)"

subsection \<open>Allocation\<close>

definition nc_alloc :: "size_t \<Rightarrow> 'h heap_scheme \<Rightarrow> addr \<times> 'h heap_scheme" where
  "nc_alloc sz h = malloc sz h"

definition nc_zalloc :: "size_t \<Rightarrow> 'h heap_scheme \<Rightarrow> (addr \<times> 'h heap_scheme) option" where
  "nc_zalloc sz h =
     (let (p, h1) = nc_alloc sz h in
      if p \<noteq> NULL then do { h2 \<leftarrow> memset p 0 sz h1; Some (p, h2) }
      else Some (p, h1))"

definition nc_calloc :: "size_t \<Rightarrow> size_t \<Rightarrow> 'h heap_scheme \<Rightarrow> (addr \<times> 'h heap_scheme) option" where
  "nc_calloc nmemb sz h = nc_zalloc (nmemb * sz) h"

definition nc_realloc :: "addr \<Rightarrow> size_t \<Rightarrow> 'h heap_scheme \<Rightarrow> (addr \<times> 'h heap_scheme) option" where
  "nc_realloc p sz h = realloc p sz h"

definition nc_free :: "addr \<Rightarrow> 'h heap_scheme \<Rightarrow> 'h heap_scheme option" where
  "nc_free p h = free p h"

definition nc_memalign :: "size_t \<Rightarrow> size_t \<Rightarrow> 'h heap_scheme \<Rightarrow> addr \<times> 'h heap_scheme" where
  "nc_memalign alignment sz h = nc_alloc sz h"

text \<open>The function compiled with \<open>NC_HAVE_POSIX_MEMALIGN\<close>; \<open>posix_memalign\<close> yields its error code and the pointer.\<close>

definition nc_memalign_posix ::
    "(size_t \<Rightarrow> size_t \<Rightarrow> 'h \<Rightarrow> int \<times> addr \<times> 'h) \<Rightarrow> size_t \<Rightarrow> size_t \<Rightarrow> 'h \<Rightarrow> addr \<times> 'h" where
  "nc_memalign_posix posix_memalign alignment sz h =
     (let (err, p, h1) = posix_memalign alignment sz h in
      if err \<noteq> 0 then (NULL, h1) else (p, h1))"

subsection \<open>Lemmas on assertions\<close>

text \<open>
  An assertion never changes the state; it stops the program exactly in the panic build on a false
  condition. So a run of the panic build that ends is a run of every build.
\<close>

lemma NC_ASSERT_cases: "NC_ASSERT m x s = (if m = Assert_Panic \<and> \<not> x then None else Some s)"
  by (cases m) (simp_all add: nc_assert_def)

lemma NC_ASSERT_build: "NC_ASSERT Assert_Panic x s = Some s' \<Longrightarrow> NC_ASSERT m x s = Some s'"
  by (simp add: NC_ASSERT_cases split: if_splits)

subsection \<open>Lemmas on alignment\<close>

lemma and_not_mask: "(x :: 64 word) AND NOT (mask k) = push_bit k (drop_bit k x)"
  by (rule bit_eqI) (auto simp: bit_and_iff bit_not_iff bit_mask_iff bit_push_bit_iff bit_drop_bit_eq)

lemma unat_and_not_mask: "unat ((x :: 64 word) AND NOT (mask k)) = 2 ^ k * (unat x div 2 ^ k)"
proof -
  have "2 ^ k * (unat x div 2 ^ k) < 2 ^ 64"
    using unat_bound64 [of x] order.strict_trans1 [OF times_div_less_eq_dividend]
    by simp
  moreover have "unat (push_bit k (drop_bit k x)) = take_bit LENGTH(64) (push_bit k (drop_bit k (unat x)))"
    by (simp only: unsigned_push_bit_eq unat_drop_bit_eq)
  ultimately show ?thesis
    by (simp add: and_not_mask push_bit_eq_mult drop_bit_eq_div take_bit_nat_eq_self mult.commute
        del: push_bit_of_nat)
qed

lemma unat_NC_ALIGN_PTR:
  assumes "unat p + (2 ^ k - 1) < 2 ^ 64" "k < 64"
  shows "unat (NC_ALIGN_PTR p (2 ^ k)) = 2 ^ k * ((unat p + (2 ^ k - 1)) div 2 ^ k)"
proof -
  have m: "(2 ^ k - 1 :: 64 word) = mask k"
    by (simp add: mask_eq_exp_minus_1)
  have "2 ^ k - Suc 0 < (2 :: nat) ^ 64"
    using power_strict_increasing [OF assms(2), of "2 :: nat"] by linarith
  then have "unat (mask k :: 64 word) = 2 ^ k - 1"
    using unsigned_of_nat [of "mask k :: nat", where 'b = 64, where 'a = nat]
    by (simp add: of_nat_mask_eq mask_eq_exp_minus_1 take_bit_nat_eq_self)
  then have "unat (p + mask k) = unat p + (2 ^ k - 1)"
    using assms(1) by (simp add: unat_add_ok)
  then show ?thesis
    by (simp add: NC_ALIGN_PTR_def m unat_and_not_mask)
qed

subsection \<open>The allocator interface\<close>

locale block_allocator =
  fixes alloc :: "size_t \<Rightarrow> 'h \<Rightarrow> addr \<times> 'h"
    and release :: "addr \<Rightarrow> 'h \<Rightarrow> 'h option"
    and size_at :: "'h \<Rightarrow> addr \<Rightarrow> nat option"
    and wf :: "'h \<Rightarrow> bool"
  assumes alloc_fail: "alloc n h = (NULL, h') \<Longrightarrow> size_at h' = size_at h"
    and alloc_done: "alloc n h = (a, h') \<Longrightarrow> a \<noteq> NULL \<Longrightarrow>
      size_at h a = None \<and> size_at h' = (size_at h)(a \<mapsto> unat n)"
    and wf_alloc: "wf h \<Longrightarrow> alloc n h = (a, h') \<Longrightarrow> wf h'"
    and release_done: "wf h \<Longrightarrow> size_at h a = Some k \<Longrightarrow>
      \<exists>h'. release a h = Some h' \<and> wf h' \<and> size_at h' = (size_at h)(a := None)"
    and release_bad: "a \<noteq> NULL \<Longrightarrow> size_at h a = None \<Longrightarrow> release a h = None"
    and wf_apart: "wf h \<Longrightarrow> size_at h a = Some k \<Longrightarrow> size_at h b = Some m \<Longrightarrow> a \<noteq> b \<Longrightarrow> apart a k b m"
    and wf_fits: "wf h \<Longrightarrow> size_at h a = Some k \<Longrightarrow> fits a k"
begin

lemma not_null: "wf h \<Longrightarrow> size_at h a = Some n \<Longrightarrow> a \<noteq> NULL"
  using wf_fits by (auto simp: fits_def)

text \<open>Allocating and releasing leaves the blocks as they were.\<close>

lemma alloc_release:
  assumes "wf h" "alloc n h = (a, h1)" "a \<noteq> NULL"
  shows "\<exists>h2. release a h1 = Some h2 \<and> wf h2 \<and> size_at h2 = size_at h"
proof -
  have w: "wf h1"
    using assms by (blast intro: wf_alloc)
  have s: "size_at h a = None" "size_at h1 = (size_at h)(a \<mapsto> unat n)"
    using alloc_done [OF assms(2,3)] by simp_all
  then obtain h2 where "release a h1 = Some h2" "wf h2" "size_at h2 = (size_at h1)(a := None)"
    using release_done [OF w, of a "unat n"] by auto
  with s show ?thesis
    by (auto simp: fun_eq_iff)
qed

text \<open>A block is released at most once.\<close>

lemma no_double_release:
  assumes "wf h" "size_at h a = Some n" "release a h = Some h1"
  shows "release a h1 = None"
proof -
  obtain h2 where "release a h = Some h2" "size_at h2 = (size_at h)(a := None)"
    using release_done [OF assms(1,2)] by blast
  with assms show ?thesis
    using release_bad [of a h1] not_null [OF assms(1,2)] by simp
qed

text \<open>Allocation never moves or resizes a live block, and the new block is apart from it.\<close>

lemma alloc_keeps:
  assumes "wf h" "alloc n h = (a, h1)" "size_at h b = Some m"
  shows "size_at h1 b = Some m \<and> (a \<noteq> NULL \<longrightarrow> apart a (unat n) b m)"
proof (cases "a = NULL")
  case True
  then show ?thesis
    using alloc_fail assms by (simp add: fun_eq_iff)
next
  case False
  then have "size_at h a = None" "size_at h1 = (size_at h)(a \<mapsto> unat n)"
    using alloc_done assms by blast+
  then show ?thesis
    using wf_apart [OF wf_alloc [OF assms(1,2)], of a "unat n" b m] assms(3) by auto
qed

end

lemma block_size_alloc:
  "nc_alloc n h = (a, h') \<Longrightarrow> a \<noteq> NULL \<Longrightarrow> block_size h' = (block_size h)(a \<mapsto> unat n)"
  by (drule malloc_live [unfolded nc_alloc_def [symmetric]]) (auto simp: block_size_def fun_eq_iff)

lemma block_size_alloc_NULL: "nc_alloc n h = (NULL, h') \<Longrightarrow> block_size h' = block_size h"
  by (drule malloc_NULL_live [unfolded nc_alloc_def [symmetric]]) (simp add: block_size_def fun_eq_iff)

lemma nc_alloc_fresh: "nc_alloc n h = (a, h') \<Longrightarrow> a \<noteq> NULL \<Longrightarrow> block_size h a = None"
  by (auto dest!: malloc_live [unfolded nc_alloc_def [symmetric]] intro: placement_ok_block_size)

lemma heap_ok_nc_alloc: "heap_ok h \<Longrightarrow> nc_alloc n h = (a, h') \<Longrightarrow> heap_ok h'"
  by (simp add: nc_alloc_def heap_ok_malloc)

lemma heap_ok_nc_free: "heap_ok h \<Longrightarrow> nc_free a h = Some h' \<Longrightarrow> heap_ok h'"
  by (simp add: nc_free_def heap_ok_free)

lemma nc_free_live:
  "heap_ok h \<Longrightarrow> block_size h a = Some n \<Longrightarrow>
     nc_free a h = Some (drop_block a h) \<and> block_size (drop_block a h) = (block_size h)(a := None)"
  by (auto simp: nc_free_def free_def heap_simps fun_eq_iff dest: block_size_fits split: option.splits)
    (auto simp: fits_def dest: block_size_fits)

text \<open>The two outcomes of an allocation, as the heap they leave.\<close>

lemma nc_alloc_cases:
  fixes h h1 :: "'h heap_scheme"
  assumes "nc_alloc n h = (a, h1)"
  obtains (Fail) as where "a = NULL" "h1 = h\<lparr>offers := as\<rparr>"
  | (Done) as where "a \<noteq> NULL" "block_size h a = None"
      "h1 = h\<lparr>offers := as, live := (a, unat n) # live h\<rparr>"
      "block_size h1 = (block_size h)(a \<mapsto> unat n)"
proof (rule malloc_cases [of n h])
  show thesis if "malloc n h = (NULL, h\<lparr>offers := as\<rparr>)" for as
    by (rule Fail [of as]) (use that assms in \<open>simp_all add: nc_alloc_def\<close>)
  show thesis if "b \<noteq> NULL" "malloc n h = (b, h\<lparr>offers := as, live := (b, unat n) # live h\<rparr>)" for b as
  proof (rule Done [of as])
    show "a \<noteq> NULL" "h1 = h\<lparr>offers := as, live := (a, unat n) # live h\<rparr>"
      using that assms by (auto simp: nc_alloc_def)
    then show "block_size h a = None" "block_size h1 = (block_size h)(a \<mapsto> unat n)"
      using nc_alloc_fresh [OF assms] block_size_alloc [OF assms] by simp_all
  qed
qed

interpretation nc: block_allocator nc_alloc nc_free block_size heap_ok
proof unfold_locales
  fix n :: size_t and h h' :: "'h heap_scheme" and a :: addr
  show "nc_alloc n h = (NULL, h') \<Longrightarrow> block_size h' = block_size h"
    by (rule block_size_alloc_NULL)
  show "nc_alloc n h = (a, h') \<Longrightarrow> a \<noteq> NULL \<Longrightarrow>
      block_size h a = None \<and> block_size h' = (block_size h)(a \<mapsto> unat n)"
    by (blast intro: nc_alloc_fresh block_size_alloc)
  show "heap_ok h \<Longrightarrow> nc_alloc n h = (a, h') \<Longrightarrow> heap_ok h'"
    by (rule heap_ok_nc_alloc)
next
  fix h :: "'h heap_scheme" and a b :: addr and n m :: nat
  show "\<exists>h'. nc_free a h = Some h' \<and> heap_ok h' \<and> block_size h' = (block_size h)(a := None)"
    if "heap_ok h" "block_size h a = Some n"
    using nc_free_live [OF that] heap_ok_drop [OF that(1)] by blast
  show "a \<noteq> NULL \<Longrightarrow> block_size h a = None \<Longrightarrow> nc_free a h = None"
    by (simp add: nc_free_def free_def)
  show "heap_ok h \<Longrightarrow> block_size h a = Some n \<Longrightarrow> block_size h b = Some m \<Longrightarrow> a \<noteq> b \<Longrightarrow> apart a n b m"
    by (rule block_size_apart)
  show "heap_ok h \<Longrightarrow> block_size h a = Some n \<Longrightarrow> fits a n"
    by (rule block_size_fits)
qed

end
