(* ===== verification/Buffer_Spec.thy ===== *)
theory Buffer_Spec
  imports Prelude
begin

text \<open>
  The contract of a growable buffer, shared by the array and the string library: appending
  either stores the element at the end of what the buffer shows, or fails for want of memory
  and leaves what it shows unchanged, and it never leaves the invariant or runs into undefined
  behaviour as long as the buffer is below a limit. The extended contract \<open>owned_buffer\<close> adds the
  release of the buffer after a run of appends.
\<close>

text \<open>The client's loop: append until the list is used up or an append fails.\<close>

fun append_all :: "('e \<Rightarrow> 'h \<Rightarrow> (bool \<times> 'h) option) \<Rightarrow> 'e list \<Rightarrow> 'h \<Rightarrow> (nat \<times> 'h) option" where
  "append_all f [] h = Some (0, h)"
| "append_all f (x # xs) h = do {
     (b, h1) \<leftarrow> f x h;
     if b then do { (k, h2) \<leftarrow> append_all f xs h1; Some (Suc k, h2) }
     else Some (0, h1)
   }"

locale append_buffer =
  fixes append :: "'e \<Rightarrow> 'h \<Rightarrow> (bool \<times> 'h) option"
    and view :: "'h \<Rightarrow> 'e list"
    and wf :: "'h \<Rightarrow> bool"
    and elem_ok :: "'e \<Rightarrow> bool"
    and limit :: nat
  assumes append_step: "wf h \<Longrightarrow> elem_ok x \<Longrightarrow> length (view h) < limit \<Longrightarrow>
      \<exists>b h'. append x h = Some (b, h') \<and> wf h' \<and> view h' = (if b then view h @ [x] else view h)"
begin

text \<open>A run of appends stores a prefix of what it was given, and exactly that.\<close>

lemma append_all_prefix:
  assumes "wf h" "\<forall>x \<in> set xs. elem_ok x" "length (view h) + length xs \<le> limit"
  shows "\<exists>k h'. append_all append xs h = Some (k, h') \<and> k \<le> length xs \<and> wf h' \<and>
    view h' = view h @ take k xs"
  using assms
proof (induction xs arbitrary: h)
  case Nil
  then show ?case by simp
next
  case (Cons x xs)
  then obtain b h1 where s: "append x h = Some (b, h1)" "wf h1"
    "view h1 = (if b then view h @ [x] else view h)"
    using append_step [of h x] by auto
  show ?case
  proof (cases b)
    case True
    then obtain k h' where "append_all append xs h1 = Some (k, h')" "k \<le> length xs" "wf h'"
      "view h' = view h1 @ take k xs"
      using Cons.IH [of h1] Cons.prems s by auto
    with s True show ?thesis by simp
  next
    case False
    with s show ?thesis by simp
  qed
qed

end

text \<open>
  A buffer that its client owns: giving it up never faults, and leaves the heap as the client
  found it (\<open>released\<close>). Then so does every run of appends that ends with giving it up.
\<close>

locale owned_buffer = append_buffer +
  fixes destroy :: "'b \<Rightarrow> 'b option"
    and released :: "'b \<Rightarrow> bool"
  assumes destroy_step: "wf h \<Longrightarrow> \<exists>h'. destroy h = Some h' \<and> released h'"
begin

lemma session:
  assumes "wf h" "\<forall>x \<in> set xs. elem_ok x" "length (view h) + length xs \<le> limit"
  shows "\<exists>k h1 h2. append_all append xs h = Some (k, h1) \<and> k \<le> length xs \<and> wf h1 \<and> view h1 = view h @ take k xs \<and>
    destroy h1 = Some h2 \<and> released h2"
proof -
  obtain k h1 where r: "append_all append xs h = Some (k, h1)" "k \<le> length xs" "wf h1" "view h1 = view h @ take k xs"
    using append_all_prefix [OF assms] by blast
  then show ?thesis
    using destroy_step [OF r(3)] by blast
qed

end

end
