(* ===== verification/Nc_Array.thy ===== *)
theory Nc_Array
  imports Nc_Macros Buffer_Spec
begin

text \<open>
  \<open>nc_array.h\<close> and \<open>nc_array.c\<close>: the growable array. A \<open>struct nc_array\<close> lives in the typed
  store \<open>arrays\<close>, its elements are raw bytes of the block \<open>elems\<close>. The operations return the
  address of the new slot, which the caller then fills.

  The abstraction is the list of the elements' byte strings (\<open>contents\<close>); the contract is the
  locale \<open>append_buffer\<close> of \<open>Buffer_Spec\<close>, which the string library shares.
\<close>

subsection \<open>State\<close>

record nc_array =
  elems :: addr
  nelem :: int
  elem_size :: size_t
  nalloc :: int

text \<open>
  \<open>stale_array\<close> is what the memory of a fresh block reads as before it is initialised.
\<close>

record arr_heap = heap +
  arrays :: "addr \<Rightarrow> nc_array option"
  stale_array :: nc_array

definition sizeof_nc_array :: size_t where
  "sizeof_nc_array = 32"

definition put_array :: "addr \<Rightarrow> nc_array \<Rightarrow> arr_heap \<Rightarrow> arr_heap" where
  "put_array a arr h = h\<lparr>arrays := (arrays h)(a \<mapsto> arr)\<rparr>"

definition kill_array :: "addr \<Rightarrow> arr_heap \<Rightarrow> arr_heap" where
  "kill_array a h = h\<lparr>arrays := (arrays h)(a := None)\<rparr>"

subsection \<open>Operations\<close>

definition nc_array_init :: "addr \<Rightarrow> int \<Rightarrow> size_t \<Rightarrow> arr_heap \<Rightarrow> (int \<times> arr_heap) option" where
  "nc_array_init a n sz h = do {
     arr \<leftarrow> arrays h a;
     let (p, h1) = nc_alloc (size_of_int n * sz) h;
     if p = NULL then Some (NC_ENOMEM, put_array a (arr\<lparr>elems := NULL\<rparr>) h1)
     else Some (NC_OK, put_array a \<lparr>elems = p, nelem = 0, elem_size = sz, nalloc = n\<rparr> h1)
   }"

definition nc_array_create :: "int \<Rightarrow> size_t \<Rightarrow> arr_heap \<Rightarrow> (addr \<times> arr_heap) option" where
  "nc_array_create n sz h =
     (let (a, h1) = nc_alloc sizeof_nc_array h in
      if a = NULL then Some (NULL, h1)
      else do {
        (rc, h2) \<leftarrow> nc_array_init a n sz (put_array a (stale_array h1) h1);
        if rc \<noteq> NC_OK then do {
          h3 \<leftarrow> nc_free a h2;
          Some (NULL, kill_array a h3)
        } else Some (a, h2)
      })"

definition nc_array_destroy :: "addr \<Rightarrow> arr_heap \<Rightarrow> arr_heap option" where
  "nc_array_destroy a h = do {
     arr \<leftarrow> arrays h a;
     h1 \<leftarrow> (if elems arr \<noteq> NULL
           then do {
             h' \<leftarrow> nc_free (elems arr) h;
             Some (put_array a (arr\<lparr>elems := NULL\<rparr>) h')
           } else Some h);
     h2 \<leftarrow> nc_free a h1;
     Some (kill_array a h2)
   }"

text \<open>
  The tail the two push functions share: the slot is computed, then the count moves by \<open>n\<close>.
\<close>

definition take_slots :: "addr \<Rightarrow> nc_array \<Rightarrow> int \<Rightarrow> arr_heap \<Rightarrow> (addr \<times> arr_heap) option" where
  "take_slots a arr n h = do {
     let elem = elems arr + elem_size arr * size_of_int (nelem arr);
     k \<leftarrow> int_chk (nelem arr + n);
     Some (elem, put_array a (arr\<lparr>nelem := k\<rparr>) h)
   }"

definition nc_array_push :: "addr \<Rightarrow> arr_heap \<Rightarrow> (addr \<times> arr_heap) option" where
  "nc_array_push a h = do {
     arr \<leftarrow> arrays h a;
     if nelem arr = nalloc arr then do {
       let sz = elem_size arr * size_of_int (nalloc arr);
       (new_elem, h1) \<leftarrow> nc_realloc (elems arr) (2 * sz) h;
       if new_elem = NULL then Some (NULL, h1)
       else do {
         n2 \<leftarrow> int_chk (nalloc arr * 2);
         take_slots a (arr\<lparr>elems := new_elem, nalloc := n2\<rparr>) 1 h1
       }
     } else take_slots a arr 1 h
   }"

definition nc_array_push_n :: "addr \<Rightarrow> int \<Rightarrow> arr_heap \<Rightarrow> (addr \<times> arr_heap) option" where
  "nc_array_push_n a n h = do {
     arr \<leftarrow> arrays h a;
     total \<leftarrow> int_chk (nelem arr + n);
     if total > nalloc arr then do {
       n2 \<leftarrow> int_chk (2 * (if n \<ge> nalloc arr then n else nalloc arr));
       (new_elem, h1) \<leftarrow> nc_realloc (elems arr) (size_of_int n2 * elem_size arr) h;
       if new_elem = NULL then Some (NULL, h1)
       else take_slots a (arr\<lparr>elems := new_elem, nalloc := n2\<rparr>) n h1
     } else take_slots a arr n h
   }"

subsection \<open>Abstraction and invariant\<close>

definition slot :: "nc_array \<Rightarrow> nat \<Rightarrow> addr" where
  "slot arr i = elems arr + of_nat (i * unat (elem_size arr))"

definition items :: "'h heap_scheme \<Rightarrow> nc_array \<Rightarrow> u_char list list" where
  "items h arr = map (\<lambda>i. read_bytes h (slot arr i) (unat (elem_size arr))) [0..<nat (nelem arr)]"

definition contents :: "arr_heap \<Rightarrow> addr \<Rightarrow> u_char list list" where
  "contents h a = (case arrays h a of None \<Rightarrow> [] | Some arr \<Rightarrow> items h arr)"

definition arr_inv :: "'h heap_scheme \<Rightarrow> addr \<Rightarrow> nc_array \<Rightarrow> bool" where
  "arr_inv h a arr \<longleftrightarrow>
     0 \<le> nelem arr \<and> nelem arr \<le> nalloc arr \<and> 0 < nalloc arr \<and> nalloc arr \<le> INT_MAX \<and>
     elem_size arr \<noteq> 0 \<and> nat (nalloc arr) * unat (elem_size arr) < 2 ^ 64 \<and>
     block_size h (elems arr) = Some (nat (nalloc arr) * unat (elem_size arr)) \<and>
     block_size h a = Some 32 \<and> elems arr \<noteq> a"

definition array_ok :: "size_t \<Rightarrow> arr_heap \<Rightarrow> addr \<Rightarrow> bool" where
  "array_ok sz h a \<longleftrightarrow> heap_ok h \<and>
     (case arrays h a of None \<Rightarrow> False | Some arr \<Rightarrow> arr_inv h a arr \<and> elem_size arr = sz)"

subsection \<open>Lemmas\<close>

named_theorems array_simps \<open>the typed store of arrays against the rest of the heap\<close>

lemma put_array_frame [array_simps]:
  "block_size (put_array a arr h) = block_size h"
  "heap_ok (put_array a arr h) = heap_ok h"
  "valid_range (put_array a arr h) = valid_range h"
  "bytes (put_array a arr h) = bytes h"
  "live (put_array a arr h) = live h"
  "arrays (put_array a arr h) = (arrays h)(a \<mapsto> arr)"
  "block_size (kill_array a h) = block_size h"
  "heap_ok (kill_array a h) = heap_ok h"
  "arrays (kill_array a h) = (arrays h)(a := None)"
  "bytes (kill_array a h) = bytes h"
  "arrays (drop_block p h) = arrays h"
  by (simp_all add: put_array_def kill_array_def drop_block_def block_size_def heap_ok_def valid_range_def fun_eq_iff)

lemma read_bytes_put [array_simps]: "read_bytes (put_array a arr h) = read_bytes h"
  by (simp add: read_bytes_def fun_eq_iff put_array_def)

lemma items_put [array_simps]: "items (put_array a arr h) = items h"
  by (simp add: items_def fun_eq_iff array_simps)

lemma arr_inv_put [array_simps]: "arr_inv (put_array a arr h) = arr_inv h"
  by (simp add: arr_inv_def fun_eq_iff array_simps)

lemma arr_inv_nelem:
  "arr_inv h a arr \<Longrightarrow> 0 \<le> k \<Longrightarrow> k \<le> nalloc arr \<Longrightarrow> arr_inv h a (arr\<lparr>nelem := k\<rparr>)"
  by (simp add: arr_inv_def)

lemma nat_mult_le: "0 \<le> i \<Longrightarrow> i \<le> j \<Longrightarrow> nat i * k \<le> nat j * k"
  by (simp add: nat_mono mult_le_mono1)

text \<open>The word expressions of the code, read as numbers.\<close>

lemma unat_count_mult:
  assumes "0 \<le> i" "i \<le> INT_MAX" "nat i * unat sz < 2 ^ 64"
  shows "unat (size_of_int i * sz) = nat i * unat sz" "unat (sz * size_of_int i) = nat i * unat sz"
  using assms by (simp_all add: unat_mult_ok unat_size_of_int mult.commute)

lemma slot_word:
  assumes "0 \<le> i" "i \<le> INT_MAX"
  shows "elems arr + elem_size arr * size_of_int i = slot arr (nat i)"
proof -
  have "size_of_int i = of_nat (nat i)"
    using assms by (simp add: size_of_int_def)
  then show ?thesis
    by (simp add: slot_def mult.commute)
qed

lemma slot_unat:
  assumes "arr_inv h a arr" "heap_ok h" "i \<le> nat (nalloc arr)"
  shows "unat (slot arr i) = unat (elems arr) + i * unat (elem_size arr)"
    and "slot arr i \<noteq> NULL"
proof -
  let ?s = "unat (elem_size arr)"
  have b: "block_size h (elems arr) = Some (nat (nalloc arr) * ?s)"
    using assms(1) by (simp add: arr_inv_def)
  have e: "unat (elems arr) \<noteq> 0" "unat (elems arr) + nat (nalloc arr) * ?s < 2 ^ 64"
    using block_size_fits [OF assms(2) b] extent_simps(3) [of "nat (nalloc arr) * ?s"]
    unfolding fits_def by (simp_all add: unat_eq_zero, linarith)
  have "i * ?s \<le> nat (nalloc arr) * ?s"
    using assms(3) by (rule mult_le_mono1)
  then have "i * ?s < 2 ^ 64" "unat (elems arr) + i * ?s < 2 ^ 64"
    using e by linarith+
  then show u: "unat (slot arr i) = unat (elems arr) + i * ?s"
    unfolding slot_def by (subst unat_add_ok) (simp_all add: unat_of_nat_ok del: of_nat_mult)
  then show "slot arr i \<noteq> NULL"
    using e(1) by auto
qed

lemma slot_inside:
  assumes "arr_inv h a arr" "heap_ok h" "i + n \<le> nat (nalloc arr)"
  shows "valid_range h (slot arr i) (n * unat (elem_size arr))"
proof (rule valid_range_block)
  let ?s = "unat (elem_size arr)"
  show "block_size h (elems arr) = Some (nat (nalloc arr) * ?s)"
    using assms(1) by (simp add: arr_inv_def)
  have le: "i * ?s + n * ?s \<le> nat (nalloc arr) * ?s"
    using mult_le_mono1 [OF assms(3)] by (simp add: add_mult_distrib)
  have u: "unat (slot arr i) = unat (elems arr) + i * ?s"
    using slot_unat(1) [OF assms(1,2)] assms(3) by simp
  then show "unat (elems arr) \<le> unat (slot arr i)"
    by simp
  show "unat (slot arr i) + n * ?s \<le> unat (elems arr) + nat (nalloc arr) * ?s"
    using u le by simp
qed

text \<open>
  Growing the block to \<open>m\<close> slots: either nothing changes but the offers, or the array moves with
  its elements to a block of exactly \<open>m\<close> slots.
\<close>

lemma grow_block:
  assumes ok: "heap_ok h" and inv: "arr_inv h a arr"
    and m: "nalloc arr \<le> m" "m \<le> INT_MAX" "nat m * unat (elem_size arr) < 2 ^ 64"
    and u: "unat n = nat m * unat (elem_size arr)"
  obtains (Fail) as where "nc_realloc (elems arr) n h = Some (NULL, h\<lparr>offers := as\<rparr>)"
  | (Done) q h' where "q \<noteq> NULL" "nc_realloc (elems arr) n h = Some (q, h')" "heap_ok h'"
      "arr_inv h' a (arr\<lparr>elems := q, nalloc := m\<rparr>)"
      "items h' (arr\<lparr>elems := q, nalloc := m\<rparr>) = items h arr"
      "arrays h' = arrays h" "stale_array h' = stale_array h"
proof -
  let ?s = "unat (elem_size arr)" and ?M = "nat (nalloc arr) * unat (elem_size arr)"
  have b: "block_size h (elems arr) = Some ?M" and sz: "0 < ?s" and pos: "0 < nalloc arr"
    using inv by (auto simp: arr_inv_def unat_gt_0)
  have "unat n \<noteq> 0"
    using u m(1) sz pos by simp
  then have n0: "n \<noteq> 0"
    by auto
  have mono: "?M \<le> nat m * ?s"
    using m(1) pos by (simp add: nat_mono mult_le_mono1)
  show thesis
  proof (cases rule: realloc_cases [OF ok b n0])
    case (1 as)
    then show thesis
      using Fail [of as] by (simp add: nc_realloc_def)
  next
    case (2 q as)
    define h' where "h' = h\<lparr>offers := as, live := (q, unat n) # live (drop_block (elems arr) h),
      bytes := copy_bytes q (elems arr) (min ?M (unat n)) (bytes h)\<rparr>"
    have bs: "block_size h' = (block_size h)(elems arr := None, q \<mapsto> unat n)"
      using block_size_live_upd [of q "unat n" "elems arr" h] by (simp add: h'_def block_size_def fun_eq_iff)
    have "heap_ok h'"
      using heap_ok_live_upd [OF ok 2(3)] by (simp add: h'_def heap_ok_def)
    moreover have "q \<noteq> a"
      using 2(2) inv by (auto simp: arr_inv_def)
    then have "arr_inv h' a (arr\<lparr>elems := q, nalloc := m\<rparr>)"
      using inv m u by (auto simp: arr_inv_def bs)
    moreover have "items h' (arr\<lparr>elems := q, nalloc := m\<rparr>) = items h arr"
    proof -
      have "read_bytes h' (q + of_nat (i * ?s)) ?s = read_bytes h (elems arr + of_nat (i * ?s)) ?s"
        if "i < nat (nelem arr)" for i
      proof (rule read_bytes_copy)
        have "Suc i \<le> nat (nalloc arr)"
          using that inv by (auto simp: arr_inv_def)
        then have "Suc i * ?s \<le> ?M"
          by (rule mult_le_mono1)
        then show "i * ?s + ?s \<le> min ?M (unat n)"
          using mono u by simp
        show "min ?M (unat n) < 2 ^ 64"
          using m(3) u by simp
        show "bytes h' = copy_bytes q (elems arr) (min ?M (unat n)) (bytes h)"
          by (simp add: h'_def)
      qed
      then show ?thesis
        by (simp add: items_def slot_def)
    qed
    ultimately show thesis
      using Done [of q h'] 2(1,4) by (simp add: h'_def nc_realloc_def)
  qed
qed

lemma take_slots_ok:
  assumes "arr_inv h a arr" "0 \<le> n" "nelem arr + n \<le> nalloc arr"
  shows "take_slots a arr n h =
    Some (slot arr (nat (nelem arr)), put_array a (arr\<lparr>nelem := nelem arr + n\<rparr>) h)"
proof -
  have "0 \<le> nelem arr" "nalloc arr \<le> INT_MAX"
    using assms(1) by (simp_all add: arr_inv_def)
  then show ?thesis
    using assms(2,3) by (simp add: take_slots_def slot_word int_chk_ok INT_MIN_def)
qed

subsection \<open>The operations on a well-formed array\<close>

text \<open>The bounds of the theorems: elements of at most 4 GiB, fewer than \<open>2 ^ 30\<close> of them.\<close>

lemma bytes_bound:
  assumes "unat sz \<le> 4294967296" "m \<le> 2147483648"
  shows "m * unat sz < 2 ^ 64"
proof -
  have "m * unat sz \<le> 2147483648 * 4294967296"
    using assms by (intro mult_le_mono) simp_all
  then show ?thesis by simp
qed

lemma array_okE:
  assumes "array_ok sz h a"
  obtains arr where "arrays h a = Some arr" "heap_ok h" "arr_inv h a arr" "elem_size arr = sz"
  using assms by (auto simp: array_ok_def split: option.splits)

lemma length_items [simp]: "length (items h arr) = nat (nelem arr)"
  by (simp add: items_def)

lemma contents_Some: "arrays h a = Some arr \<Longrightarrow> contents h a = items h arr"
  by (simp add: contents_def)

lemma array_ok_offers: "array_ok sz (h\<lparr>offers := as\<rparr>) a = array_ok sz h a"
  by (simp add: array_ok_def arr_inv_def heap_simps split: option.split)

lemma contents_offers: "contents (h\<lparr>offers := as\<rparr>) a = contents h a"
  by (simp add: contents_def items_def read_bytes_def split: option.split)

lemma items_more:
  assumes "0 \<le> nelem arr" "0 \<le> n"
  shows "take (nat (nelem arr)) (items h (arr\<lparr>nelem := nelem arr + n\<rparr>)) = items h arr"
proof -
  have "take (nat (nelem arr)) [0..<nat (nelem arr + n)] = [0..<nat (nelem arr)]"
    using assms by (simp add: nat_add_distrib take_upt)
  then show ?thesis
    by (simp add: items_def slot_def take_map)
qed

text \<open>
  What both push functions promise: they fail only when the array has no room for \<open>n\<close> more, and
  then nothing changes but the allocator's offers; success returns the address of \<open>n\<close> fresh slots
  inside the block, past the old contents.
\<close>

definition pushed :: "size_t \<Rightarrow> addr \<Rightarrow> nat \<Rightarrow> arr_heap \<Rightarrow> addr \<Rightarrow> arr_heap \<Rightarrow> bool" where
  "pushed sz a n h p h' \<longleftrightarrow> array_ok sz h' a \<and>
     (if p = NULL
      then (\<exists>as. h' = h\<lparr>offers := as\<rparr>) \<and>
        (\<exists>arr. arrays h a = Some arr \<and> nalloc arr < nelem arr + int n)
      else (\<exists>arr'. arrays h' a = Some arr' \<and> p = slot arr' (length (contents h a))) \<and>
        valid_range h' p (n * unat sz) \<and>
        length (contents h' a) = length (contents h a) + n \<and>
        take (length (contents h a)) (contents h' a) = contents h a)"

lemma take_slots_pushed:
  assumes "heap_ok h" "arr_inv h a arr" "items h arr = contents h0 a" "elem_size arr = sz"
    and "0 \<le> n" "nelem arr + n \<le> nalloc arr"
  shows "\<exists>p h'. take_slots a arr n h = Some (p, h') \<and> p \<noteq> NULL \<and> pushed sz a (nat n) h0 p h'"
proof -
  let ?arr = "arr\<lparr>nelem := nelem arr + n\<rparr>" and ?p = "slot arr (nat (nelem arr))"
  have nn: "0 \<le> nelem arr"
    using assms(2) by (simp add: arr_inv_def)
  have len: "length (contents h0 a) = nat (nelem arr)"
    using arg_cong [OF assms(3), of length] by simp
  have "arr_inv h a ?arr"
    using arr_inv_nelem [OF assms(2)] assms(5,6) nn by simp
  moreover have "valid_range h ?p (nat n * unat sz)"
    using slot_inside [OF assms(2,1), of "nat (nelem arr)" "nat n"] assms(4-6) nn by auto
  moreover have "take (length (contents h0 a)) (items h ?arr) = contents h0 a"
    using items_more [OF nn assms(5), of h] assms(3) len by simp
  moreover have "?p \<noteq> NULL"
    using slot_unat(2) [OF assms(2,1)] assms(5,6) by simp
  ultimately have "?p \<noteq> NULL \<and> pushed sz a (nat n) h0 ?p (put_array a ?arr h)"
    using assms(1,4-6) nn len
    by (simp add: pushed_def array_ok_def array_simps contents_def slot_def nat_add_distrib)
  then show ?thesis
    using take_slots_ok [OF assms(2,5,6)] by simp
qed

lemma pushed_offers:
  "array_ok sz h a \<Longrightarrow> arrays h a = Some arr \<Longrightarrow> nalloc arr < nelem arr + int n \<Longrightarrow>
     pushed sz a n h NULL (h\<lparr>offers := as\<rparr>)"
  by (auto simp: pushed_def array_ok_offers)

lemma pushed_NULL: "pushed sz a n h NULL h' \<Longrightarrow> array_ok sz h' a \<and> contents h' a = contents h a"
  by (auto simp: pushed_def contents_offers)

text \<open>
  The step the two functions have in common: with \<open>m\<close> slots wanted, grow and then take \<open>n\<close> slots.
\<close>

lemma grow_and_take:
  assumes "array_ok sz h a" "arrays h a = Some arr" "unat sz \<le> 4294967296"
    and m: "nalloc arr \<le> m" "m \<le> INT_MAX" "0 \<le> n" "nelem arr + n \<le> m"
    and full: "nalloc arr < nelem arr + n"
    and u: "w = size_of_int m * sz"
  shows "\<exists>p h'. do {
      (q, h1) \<leftarrow> nc_realloc (elems arr) w h;
      if q = NULL then Some (NULL, h1)
      else take_slots a (arr\<lparr>elems := q, nalloc := m\<rparr>) n h1
    } = Some (p, h') \<and> pushed sz a (nat n) h p h'"
proof -
  have inv: "heap_ok h" "arr_inv h a arr" "elem_size arr = sz"
    using assms(1,2) by (auto simp: array_ok_def)
  have m0: "0 \<le> m"
    using inv(2) m(1) by (simp add: arr_inv_def)
  have bd: "nat m * unat (elem_size arr) < 2 ^ 64"
    using bytes_bound [OF assms(3), of "nat m"] m(2) inv(3) by (simp add: INT_MAX_def)
  have w: "unat w = nat m * unat (elem_size arr)"
    unfolding u using unat_count_mult(1) [OF m0 m(2), of sz] bd inv(3) by simp
  show ?thesis
  proof (cases rule: grow_block [OF inv(1,2) m(1,2) bd w])
    case (1 as)
    then show ?thesis
      using pushed_offers [OF assms(1,2), of "nat n" as] full m(3) by simp
  next
    case (2 q h1)
    have "items h1 (arr\<lparr>elems := q, nalloc := m\<rparr>) = contents h a"
      using 2(5) assms(2) by (simp add: contents_Some)
    then obtain p h' where "take_slots a (arr\<lparr>elems := q, nalloc := m\<rparr>) n h1 = Some (p, h')"
      "pushed sz a (nat n) h p h'"
      using take_slots_pushed [OF 2(3,4)] inv(3) m(3,4) by fastforce
    then show ?thesis
      using 2(1,2) by simp
  qed
qed

lemma push_total:
  assumes "array_ok sz h a" "unat sz \<le> 4294967296" "length (contents h a) < 1073741824"
  shows "\<exists>p h'. nc_array_push a h = Some (p, h') \<and> pushed sz a 1 h p h'"
proof -
  obtain arr where arr: "arrays h a = Some arr" and inv: "heap_ok h" "arr_inv h a arr" "elem_size arr = sz"
    by (rule array_okE [OF assms(1)])
  have nn: "0 \<le> nelem arr" "nelem arr \<le> nalloc arr" "0 < nalloc arr" "nelem arr < 1073741824"
    using inv(2) assms(3) arr by (simp_all add: arr_inv_def contents_def)
  show ?thesis
  proof (cases "nelem arr = nalloc arr")
    case True
    have m: "nalloc arr * 2 \<le> INT_MAX" "int_chk (nalloc arr * 2) = Some (nalloc arr * 2)"
      using nn True by (simp_all add: int_chk_def int_limits)
    have w: "2 * (elem_size arr * size_of_int (nalloc arr)) = size_of_int (nalloc arr * 2) * sz"
      by (simp add: size_of_int_def inv(3))
    show ?thesis
      using grow_and_take [OF assms(1) arr assms(2) _ m(1) _ _ _ w, of 1] nn True
      by (simp add: nc_array_push_def arr m(2) Let_def cong: if_cong)
  next
    case False
    then have "nelem arr + 1 \<le> nalloc arr"
      using nn by simp
    then show ?thesis
      using take_slots_pushed [OF inv(1,2) _ inv(3), of h 1] False arr
      by (auto simp: nc_array_push_def contents_Some)
  qed
qed

text \<open>
  (C25) \<open>nc_array_push\<close> on a well-formed array with fewer than \<open>2 ^ 30\<close> elements of at most
  4 GiB has defined behaviour; it either fails, which happens only on a full array and changes
  nothing but the allocator's offers, or returns the address of one fresh slot that lies inside the element block, directly behind the
  old elements, all of which keep their bytes even when the block moved.
\<close>
theorem nc_array_push_spec:
  assumes "array_ok sz h a" "unat sz \<le> 4294967296" "length (contents h a) < 1073741824"
  shows "\<exists>p h'. nc_array_push a h = Some (p, h') \<and> pushed sz a 1 h p h'"
  using assms by (rule push_total)

lemma push_n_total:
  assumes "array_ok sz h a" "unat sz \<le> 4294967296" "0 \<le> n"
    and "int (length (contents h a)) + n < 1073741824"
  shows "\<exists>p h'. nc_array_push_n a n h = Some (p, h') \<and> pushed sz a (nat n) h p h'"
proof -
  obtain arr where arr: "arrays h a = Some arr" and inv: "heap_ok h" "arr_inv h a arr" "elem_size arr = sz"
    by (rule array_okE [OF assms(1)])
  have nn: "0 \<le> nelem arr" "nelem arr \<le> nalloc arr" "0 < nalloc arr" "nelem arr + n < 1073741824"
    using inv(2) assms(4) arr by (simp_all add: arr_inv_def contents_def)
  have total: "int_chk (nelem arr + n) = Some (nelem arr + n)"
    using nn assms(3) by (simp add: int_chk_def int_limits)
  show ?thesis
  proof (cases "nelem arr + n > nalloc arr")
    case True
    define m where "m = 2 * (if n \<ge> nalloc arr then n else nalloc arr)"
    have m: "nalloc arr \<le> m" "m \<le> INT_MAX" "nelem arr + n \<le> m" "int_chk m = Some m"
      using nn True assms(3) by (simp_all add: m_def int_chk_def int_limits)
    show ?thesis
      using grow_and_take [OF assms(1) arr assms(2) m(1,2) assms(3) m(3) True refl] True inv(3) m(4)
      by (simp add: nc_array_push_n_def arr total flip: m_def)
  next
    case False
    then show ?thesis
      using take_slots_pushed [OF inv(1,2) _ inv(3) assms(3), of h] arr
      by (auto simp: nc_array_push_n_def contents_Some total)
  qed
qed

text \<open>
  (C26) \<open>nc_array_push_n\<close> with \<open>0 \<le> n\<close> keeps the same promise for \<open>n\<close> slots: the doubled
  capacity it asks for always has room for all of them.
\<close>
theorem nc_array_push_n_spec:
  assumes "array_ok sz h a" "unat sz \<le> 4294967296" "0 \<le> n"
    and "int (length (contents h a)) + n < 1073741824"
  shows "\<exists>p h'. nc_array_push_n a n h = Some (p, h') \<and> pushed sz a (nat n) h p h'"
  using assms by (rule push_n_total)

subsection \<open>Filling the slot: the refinement to list append\<close>

text \<open>
  The client idiom of \<open>tests/test_array.c\<close>: push, then store the element through the pointer
  that was returned.
\<close>

definition array_append :: "addr \<Rightarrow> u_char list \<Rightarrow> arr_heap \<Rightarrow> (bool \<times> arr_heap) option" where
  "array_append a v h = do {
     (p, h1) \<leftarrow> nc_array_push a h;
     if p = NULL then Some (False, h1)
     else do { h2 \<leftarrow> write_bytes p v h1; Some (True, h2) }
   }"

lemma array_ok_bytes: "array_ok sz (h\<lparr>bytes := f\<rparr>) a = array_ok sz h a"
  by (simp add: array_ok_def arr_inv_def heap_simps split: option.split)

lemma items_Suc:
  "0 \<le> k \<Longrightarrow> nelem arr = k + 1 \<Longrightarrow>
     items h arr = items h (arr\<lparr>nelem := k\<rparr>) @ [read_bytes h (slot arr (nat k)) (unat (elem_size arr))]"
  by (simp add: items_def slot_def nat_add_distrib)

lemma items_write_last:
  assumes "arr_inv h a arr" "heap_ok h" "nelem arr = k + 1" "0 \<le> k"
    and "write_bytes (slot arr (nat k)) v h = Some h'" "length v = unat (elem_size arr)"
  shows "items h' arr = items h (arr\<lparr>nelem := k\<rparr>) @ [v]"
proof -
  let ?s = "unat (elem_size arr)"
  have "Suc (nat k) \<le> nat (nalloc arr)"
    using assms(1,3,4) unfolding arr_inv_def by linarith
  then have le: "Suc (nat k) * ?s \<le> nat (nalloc arr) * ?s"
    by (rule mult_le_mono1)
  have lt: "nat k * ?s + length v < 2 ^ 64"
    using le assms(1,6) by (simp add: arr_inv_def)
  have "read_bytes h' (slot arr i) ?s = read_bytes h (slot arr i) ?s" if "i < nat k" for i
    using read_write_other [OF assms(5) [unfolded slot_def] _ lt, of "i * ?s" ?s]
      mult_le_mono1 [of "Suc i" "nat k" ?s] that by (simp add: slot_def)
  then have "items h' (arr\<lparr>nelem := k\<rparr>) = items h (arr\<lparr>nelem := k\<rparr>)"
    by (simp add: items_def slot_def)
  moreover have "read_bytes h' (slot arr (nat k)) ?s = v"
    using read_write_same [OF assms(5)] assms(6) unat_bound64 [of "elem_size arr"] by simp
  ultimately show ?thesis
    using items_Suc [OF assms(4,3), of h'] by simp
qed

lemma array_append_step:
  assumes "array_ok sz h a" "unat sz \<le> 4294967296" "length (contents h a) < 1073741824"
    and "length v = unat sz"
  shows "\<exists>b h'. array_append a v h = Some (b, h') \<and> array_ok sz h' a \<and>
    contents h' a = (if b then contents h a @ [v] else contents h a)"
proof -
  obtain p h1 where push: "nc_array_push a h = Some (p, h1)" "pushed sz a 1 h p h1"
    using push_total [OF assms(1-3)] by blast
  show ?thesis
  proof (cases "p = NULL")
    case True
    with push show ?thesis
      using pushed_NULL [of sz a 1 h h1] by (auto simp: array_append_def)
  next
    case False
    then have p: "array_ok sz h1 a" "valid_range h1 p (length v)"
      "length (contents h1 a) = Suc (length (contents h a))"
      "take (length (contents h a)) (contents h1 a) = contents h a"
      using push(2) assms(4) by (simp_all add: pushed_def)
    obtain arr where arr: "arrays h1 a = Some arr" "heap_ok h1" "arr_inv h1 a arr" "elem_size arr = sz"
      by (rule array_okE [OF p(1)])
    have slot: "p = slot arr (length (contents h a))"
      using push(2) False arr(1) by (simp add: pushed_def)
    obtain f where w: "write_bytes p v h1 = Some (h1\<lparr>bytes := f\<rparr>)"
      using write_bytes_Some [OF p(2)] by blast
    define k where "k = int (length (contents h a))"
    have k: "0 \<le> k" "nelem arr = k + 1" "nat k = length (contents h a)"
      using p(3) arr(1,3) by (simp_all add: k_def contents_Some arr_inv_def)
    have "items (h1\<lparr>bytes := f\<rparr>) arr = items h1 (arr\<lparr>nelem := k\<rparr>) @ [v]"
      using items_write_last [OF arr(3,2) k(2,1), of v] w slot k(3) assms(4) arr(4) by simp
    moreover have e: "arr\<lparr>nelem := k, nelem := nelem (arr\<lparr>nelem := k\<rparr>) + 1\<rparr> = arr"
      using k(2) by (cases arr) simp
    have "items h1 (arr\<lparr>nelem := k\<rparr>) = contents h a"
      using items_more [of "arr\<lparr>nelem := k\<rparr>" 1 h1, unfolded e] k(1,3) p(4) arr(1)
      by (simp add: contents_Some)
    ultimately show ?thesis
      using push(1) False w p(1) arr(1) by (auto simp: array_append_def array_ok_bytes contents_Some)
  qed
qed

text \<open>Pushing and then storing an element refines appending it to the list of elements.\<close>

interpretation arr: append_buffer "array_append a" "\<lambda>h. contents h a"
  "\<lambda>h. array_ok sz h a \<and> unat sz \<le> 4294967296" "\<lambda>v. length v = unat sz" 1073741824
  for a :: addr and sz :: size_t
proof unfold_locales
  fix h :: arr_heap and v :: "u_char list"
  assume "array_ok sz h a \<and> unat sz \<le> 4294967296" "length v = unat sz"
    "length (contents h a) < 1073741824"
  then show "\<exists>b h'. array_append a v h = Some (b, h') \<and> (array_ok sz h' a \<and> unat sz \<le> 4294967296) \<and>
      contents h' a = (if b then contents h a @ [v] else contents h a)"
    using array_append_step [of sz h a v] by auto
qed

text \<open>
  (C27) A whole run of appends, through any number of reallocations and up to the first one that runs
  out of memory, leaves exactly the old elements followed by the stored prefix.
\<close>
theorem array_append_run:
  assumes "array_ok sz h a" "unat sz \<le> 4294967296" "\<forall>v \<in> set vs. length v = unat sz"
    and "length (contents h a) + length vs \<le> 1073741824"
  shows "\<exists>k h'. append_all (array_append a) vs h = Some (k, h') \<and> k \<le> length vs \<and>
    array_ok sz h' a \<and> contents h' a = contents h a @ take k vs"
  using arr.append_all_prefix [of sz h a vs] assms by auto

subsection \<open>Creation, destruction and the limits of the arithmetic\<close>

lemma nc_alloc_fields:
  "nc_alloc n h = (a, h') \<Longrightarrow> arrays h' = arrays h \<and> stale_array h' = stale_array h \<and> bytes h' = bytes h"
  unfolding nc_alloc_def by (rule malloc_cases [of n h]) auto

lemma destroy_ok:
  assumes "array_ok sz h a" "arrays h a = Some arr"
  shows "\<exists>h'. nc_array_destroy a h = Some h' \<and> heap_ok h' \<and> arrays h' a = None \<and>
    block_size h' = (block_size h)(elems arr := None, a := None) \<and> bytes h' = bytes h \<and>
    (\<forall>b. b \<noteq> a \<longrightarrow> arrays h' b = arrays h b)"
proof -
  have inv: "heap_ok h" "arr_inv h a arr"
    using assms by (auto simp: array_ok_def)
  have b: "block_size h (elems arr) = Some (nat (nalloc arr) * unat (elem_size arr))"
    "block_size h a = Some 32" "elems arr \<noteq> a" "elems arr \<noteq> NULL"
    using inv nc.not_null [OF inv(1)] by (auto simp: arr_inv_def)
  define h1 where "h1 = put_array a (arr\<lparr>elems := NULL\<rparr>) (drop_block (elems arr) h)"
  have f1: "nc_free (elems arr) h = Some (drop_block (elems arr) h)"
    "block_size h1 = (block_size h)(elems arr := None)" "heap_ok h1"
    using nc_free_live [OF inv(1) b(1)] heap_ok_drop [OF inv(1)] by (simp_all add: h1_def array_simps)
  then have f2: "nc_free a h1 = Some (drop_block a h1)"
    "block_size (drop_block a h1) = (block_size h)(elems arr := None, a := None)"
    using nc_free_live [OF f1(3), of a 32] b by simp_all
  then show ?thesis
    using f1 b(4) assms(2) heap_ok_drop [OF f1(3), of a]
    by (simp add: nc_array_destroy_def array_simps flip: h1_def) (simp add: h1_def array_simps heap_simps)
qed

text \<open>What creation returns, for any request: the block it holds has the wrapped product as its size.\<close>

lemma create_result:
  assumes "heap_ok h" "nc_array_create n sz h = Some (a, h')" "a \<noteq> NULL"
  obtains e where "arrays h' a = Some \<lparr>elems = e, nelem = 0, elem_size = sz, nalloc = n\<rparr>"
    "heap_ok h'" "e \<noteq> a" "block_size h a = None" "block_size h e = None"
    "block_size h' = (block_size h)(a \<mapsto> 32, e \<mapsto> unat (size_of_int n * sz))"
    "\<And>b. b \<noteq> a \<Longrightarrow> arrays h' b = arrays h b" "bytes h' = bytes h"
proof -
  obtain a1 h1 where a1: "nc_alloc sizeof_nc_array h = (a1, h1)"
    by fastforce
  obtain e h2 where e: "nc_alloc (size_of_int n * sz) (put_array a1 (stale_array h1) h1) = (e, h2)"
    by fastforce
  have a: "a1 = a" "e \<noteq> NULL" and
    h': "h' = put_array a \<lparr>elems = e, nelem = 0, elem_size = sz, nalloc = n\<rparr> h2"
    using assms(2,3) a1 e
    by (auto simp: nc_array_create_def nc_array_init_def array_simps nc_codes split: if_splits
        simp: bind_eq_Some_conv)
  have ok: "heap_ok h1" "heap_ok h2"
    using heap_ok_nc_alloc [OF assms(1) a1] heap_ok_nc_alloc [OF _ e] by (simp_all add: array_simps)
  have f: "block_size h a = None" "block_size h1 = (block_size h)(a \<mapsto> 32)"
    using nc_alloc_fresh [OF a1] block_size_alloc [OF a1] assms(3) a(1)
    by (simp_all add: sizeof_nc_array_def)
  have g: "block_size h1 e = None" "block_size h2 = (block_size h1)(e \<mapsto> unat (size_of_int n * sz))"
    using nc_alloc_fresh [OF e] block_size_alloc [OF e] a(2) by (simp_all add: array_simps)
  show thesis
    by (rule that [of e])
      (use ok f g h' nc_alloc_fields [OF a1] nc_alloc_fields [OF e] a(1) in \<open>auto simp: array_simps split: if_splits\<close>)
qed

lemma create_total:
  assumes "heap_ok h"
  shows "\<exists>a h'. nc_array_create n sz h = Some (a, h') \<and>
    (a = NULL \<longrightarrow> heap_ok h' \<and> block_size h' = block_size h \<and> bytes h' = bytes h \<and>
      (\<forall>b. block_size h b \<noteq> None \<longrightarrow> arrays h' b = arrays h b))"
proof -
  obtain a h1 where a: "nc_alloc sizeof_nc_array h = (a, h1)"
    by fastforce
  let ?h1 = "put_array a (stale_array h1) h1"
  obtain e h2 where e: "nc_alloc (size_of_int n * sz) ?h1 = (e, h2)"
    by fastforce
  have ok: "heap_ok h1" "heap_ok h2"
    using heap_ok_nc_alloc [OF assms a] heap_ok_nc_alloc [OF _ e] by (simp_all add: array_simps)
  show ?thesis
  proof (cases "a \<noteq> NULL \<and> e = NULL")
    case True
    define h3 where "h3 = put_array a ((stale_array h1)\<lparr>elems := NULL\<rparr>) h2"
    have b: "block_size h1 = (block_size h)(a \<mapsto> 32)" "block_size h2 = block_size h1" "block_size h a = None"
      using block_size_alloc [OF a] block_size_alloc_NULL [of _ ?h1 h2] e nc_alloc_fresh [OF a] True
      by (simp_all add: array_simps sizeof_nc_array_def)
    then have "nc_free a h3 = Some (drop_block a h3)" "block_size (drop_block a h3) = block_size h"
      using nc_free_live [of h3 a 32] ok by (auto simp: h3_def array_simps fun_eq_iff)
    then show ?thesis
      using True a e ok heap_ok_drop [of h3 a] nc_alloc_fields [OF a] nc_alloc_fields [OF e] b(3)
      by (simp add: nc_array_create_def nc_array_init_def array_simps nc_codes flip: h3_def)
        (simp add: h3_def array_simps heap_simps)
  next
    case False
    then show ?thesis
      using a e ok block_size_alloc_NULL [of sizeof_nc_array h h1] nc_alloc_fields [OF a]
      by (auto simp: nc_array_create_def nc_array_init_def array_simps nc_codes)
  qed
qed

text \<open>
  (C29) The size computation of \<open>nc_array_init\<close> is not checked: when \<open>n * size\<close> exceeds the
  address space, a creation that succeeds has a block of the wrapped size, smaller than the
  capacity the array records.
\<close>
theorem nc_array_create_wraps:
  assumes "heap_ok h" "nc_array_create n sz h = Some (a, h')" "a \<noteq> NULL"
    and "0 < n" "n \<le> INT_MAX" "2 ^ 64 \<le> nat n * unat sz"
  shows "\<exists>arr. arrays h' a = Some arr \<and> nat (nalloc arr) * unat (elem_size arr) = nat n * unat sz \<and>
    block_size h' (elems arr) = Some (nat n * unat sz mod 2 ^ 64) \<and>
    nat n * unat sz mod 2 ^ 64 < nat (nalloc arr) * unat (elem_size arr)"
proof -
  obtain e where e: "arrays h' a = Some \<lparr>elems = e, nelem = 0, elem_size = sz, nalloc = n\<rparr>"
    "block_size h' = (block_size h)(a \<mapsto> 32, e \<mapsto> unat (size_of_int n * sz))"
    using create_result [OF assms(1-3)] by blast
  have "unat (size_of_int n * sz) = nat n * unat sz mod 2 ^ 64"
    using assms(4,5) by (simp add: unat_word_ariths unat_size_of_int)
  moreover have "nat n * unat sz mod 2 ^ 64 < 2 ^ 64"
    by (rule mod_less_divisor) simp
  then have "nat n * unat sz mod 2 ^ 64 < nat n * unat sz"
    using assms(6) by (rule order.strict_trans2)
  ultimately show ?thesis
    using e by simp
qed

text \<open>
  The doubling of \<open>nc_array_push\<close> is signed arithmetic: on a full array of \<open>2 ^ 30\<close> slots,
  whenever the reallocation itself succeeds, the push has undefined behaviour.
\<close>
lemma nc_array_push_overflow:
  assumes "arrays h a = Some arr" "nelem arr = 1073741824" "nalloc arr = 1073741824"
    and "nc_realloc (elems arr) (2 * (elem_size arr * size_of_int (nalloc arr))) h = Some (q, h1)" "q \<noteq> NULL"
  shows "nc_array_push a h = None"
  using assms by (simp add: nc_array_push_def int_chk_def int_limits)

subsection \<open>Concrete heaps\<close>

definition arr_start :: "addr list \<Rightarrow> arr_heap" where
  "arr_start as = \<lparr>offers = as, live = [], bytes = (\<lambda>_. 0), arrays = (\<lambda>_. None),
     stale_array = \<lparr>elems = 0, nelem = 0, elem_size = 0, nalloc = 0\<rparr>\<rparr>"

text \<open>One array at address 16 with two slots of four bytes, the first of them taken.\<close>

definition arr_demo :: "addr list \<Rightarrow> arr_heap" where
  "arr_demo as = (arr_start as)\<lparr>live := [(64, 8), (16, 32)],
     arrays := (\<lambda>_. None)(16 \<mapsto> \<lparr>elems = 64, nelem = 1, elem_size = 4, nalloc = 2\<rparr>)\<rparr>"

lemma arr_start_ok: "heap_ok (arr_start as)"
  by (simp add: heap_ok_def arr_start_def)

lemma arr_demo_ok: "array_ok 4 (arr_demo as) 16" "length (contents (arr_demo as) 16) = 1"
  by (simp_all add: array_ok_def heap_ok_def arr_inv_def arr_demo_def placement_ok_def fits_def apart_def
      extent_def block_size_def INT_MAX_def contents_def)

theorem nc_array_push_spec_witness:
  "\<exists>p h'. nc_array_push 16 (arr_demo [128]) = Some (p, h') \<and> pushed 4 16 1 (arr_demo [128]) p h'"
  using nc_array_push_spec [of 4 "arr_demo [128]" 16] arr_demo_ok by simp

theorem nc_array_push_n_spec_witness:
  "\<exists>p h'. nc_array_push_n 16 3 (arr_demo [128]) = Some (p, h') \<and>
     pushed 4 16 (nat 3) (arr_demo [128]) p h'"
  using nc_array_push_n_spec [of 4 "arr_demo [128]" 16 3] arr_demo_ok by simp

theorem array_append_run_witness:
  "\<exists>k h'. append_all (array_append 16) [[1, 2, 3, 4], [5, 6, 7, 8]] (arr_demo [128]) = Some (k, h') \<and>
     k \<le> length [[1, 2, 3, 4], [5, 6, 7, 8 :: u_char]] \<and> array_ok 4 h' 16 \<and>
     contents h' 16 = contents (arr_demo [128]) 16 @ take k [[1, 2, 3, 4], [5, 6, 7, 8]]"
  using array_append_run [of 4 "arr_demo [128]" 16 "[[1, 2, 3, 4], [5, 6, 7, 8]]"] arr_demo_ok
  by simp

definition arr_wrapped :: arr_heap where
  "arr_wrapped = (arr_start [])\<lparr>live := [(64, 0), (16, 32)],
     arrays := (\<lambda>_. None)(16 \<mapsto> \<lparr>elems = 64, nelem = 0, elem_size = 281474976710656, nalloc = 65536\<rparr>)\<rparr>"

lemma arr_wrapped_eq: "nc_array_create 65536 281474976710656 (arr_start [16, 64]) = Some (16, arr_wrapped)"
  by (simp add: nc_array_create_def nc_array_init_def nc_alloc_def malloc_def arr_start_def arr_wrapped_def
      placement_ok_def fits_def apart_def extent_def sizeof_nc_array_def put_array_def size_of_int_def nc_codes)

theorem nc_array_create_wraps_witness:
  "\<exists>arr. arrays arr_wrapped 16 = Some arr \<and>
     nat (nalloc arr) * unat (elem_size arr) = 65536 * 281474976710656 \<and>
     block_size arr_wrapped (elems arr) = Some 0"
  using nc_array_create_wraps [OF arr_start_ok arr_wrapped_eq] by (auto simp: INT_MAX_def)

definition arr_full :: arr_heap where
  "arr_full = (arr_start [4294967296])\<lparr>live := [(64, 1073741824), (16, 32)],
     arrays := (\<lambda>_. None)(16 \<mapsto> \<lparr>elems = 64, nelem = 1073741824, elem_size = 1, nalloc = 1073741824\<rparr>)\<rparr>"

lemma nc_array_push_overflow_witness: "nc_array_push 16 arr_full = None"
proof (rule nc_array_push_overflow)
  show "arrays arr_full 16 =
    Some \<lparr>elems = 64, nelem = 1073741824, elem_size = 1, nalloc = 1073741824\<rparr>"
    by (simp add: arr_full_def)
  show "nc_realloc (elems \<lparr>elems = 64, nelem = 1073741824, elem_size = 1, nalloc = 1073741824\<rparr>)
      (2 * (elem_size \<lparr>elems = 64, nelem = 1073741824, elem_size = 1, nalloc = 1073741824\<rparr> *
        size_of_int (nalloc \<lparr>elems = 64, nelem = 1073741824, elem_size = 1, nalloc = 1073741824\<rparr>))) arr_full =
    Some (4294967296, arr_full\<lparr>offers := [], live := [(4294967296, 2147483648), (16, 32)],
      bytes := copy_bytes 4294967296 64 1073741824 (\<lambda>_. 0)\<rparr>)"
    by (simp add: nc_realloc_def realloc_def malloc_def drop_block_def arr_full_def arr_start_def
        block_size_def placement_ok_def fits_def apart_def extent_def size_of_int_def)
qed simp_all

end
