(* ===== verification/Nc_Array_Session.thy ===== *)
theory Nc_Array_Session
  imports Nc_Array
begin

text \<open>
  An array in a heap that has other blocks and other arrays: what creation, a run of appends and destruction do to
  them. \<open>array_alone\<close> says that the heap has one array more than it had, in two blocks of its own.
\<close>

subsection \<open>Blocks and the bytes outside them\<close>

text \<open>An address inside one block is not inside another, also when offsets wrap around.\<close>

lemma outside_block:
  assumes "heap_ok h" "block_size h b = Some n" "block_size h e = Some m" "b \<noteq> e" "k < n"
  shows "m \<le> unat (b + of_nat k - e)"
proof -
  have f: "unat b + n < 2 ^ 64" "unat e + m < 2 ^ 64"
    using block_size_fits [OF assms(1,2)] block_size_fits [OF assms(1,3)] extent_simps(3) [of n] extent_simps(3) [of m]
    unfolding fits_def by linarith+
  have u: "unat (b + of_nat k) = unat b + k"
    using f(1) assms(5) by (subst unat_add_ok) (simp_all add: unat_of_nat_ok)
  have "unat b + n \<le> unat e \<or> unat e + m \<le> unat b"
    using block_size_apart [OF assms(1,2,3,4)] extent_simps(3) [of n] extent_simps(3) [of m]
    unfolding apart_def by linarith
  then show ?thesis
    using f assms(5) unat_sub_if' [of "b + of_nat k" e] unfolding u by (auto split: if_splits)
qed

definition same_inside :: "arr_heap \<Rightarrow> arr_heap \<Rightarrow> bool" where
  "same_inside h0 h \<longleftrightarrow> (\<forall>b m k. block_size h0 b = Some m \<longrightarrow> k < m \<longrightarrow> bytes h (b + of_nat k) = bytes h0 (b + of_nat k))"

definition arrays_kept :: "arr_heap \<Rightarrow> arr_heap \<Rightarrow> bool" where
  "arrays_kept h0 h \<longleftrightarrow> (\<forall>b sb. array_ok sb h0 b \<longrightarrow> array_ok sb h b \<and> contents h b = contents h0 b)"

lemma arrays_keptI:
  assumes "heap_ok h" "same_inside h0 h"
    and "\<And>b. block_size h0 b \<noteq> None \<Longrightarrow> block_size h b = block_size h0 b \<and> arrays h b = arrays h0 b"
  shows "arrays_kept h0 h"
  unfolding arrays_kept_def
proof (intro allI impI)
  fix b sb
  assume "array_ok sb h0 b"
  then obtain arr where arr: "arrays h0 b = Some arr" "arr_inv h0 b arr" "elem_size arr = sb"
    by (rule array_okE)
  have bs: "block_size h0 (elems arr) = Some (nat (nalloc arr) * unat sb)" "block_size h0 b = Some 32"
    using arr(2,3) by (simp_all add: arr_inv_def)
  then have inv: "arrays h b = Some arr" "arr_inv h b arr"
    using assms(3) [of b] assms(3) [of "elems arr"] arr by (simp_all add: arr_inv_def)
  have "bytes h (slot arr i + of_nat j) = bytes h0 (slot arr i + of_nat j)" if "i < nat (nelem arr)" "j < unat sb" for i j
  proof -
    have "Suc i \<le> nat (nalloc arr)"
      using that(1) arr(2) by (auto simp: arr_inv_def)
    then have "Suc i * unat sb \<le> nat (nalloc arr) * unat sb"
      by (rule mult_le_mono1)
    then have "i * unat sb + j < nat (nalloc arr) * unat sb"
      using that(2) by simp
    then show ?thesis
      using assms(2) bs(1) arr(3) unfolding same_inside_def slot_def by (simp add: add.assoc flip: of_nat_add of_nat_mult)
  qed
  then have "items h arr = items h0 arr"
    using arr(3) by (simp add: items_def read_bytes_def)
  then show "array_ok sb h b \<and> contents h b = contents h0 b"
    using assms(1) inv arr(1,3) by (simp add: array_ok_def contents_def)
qed

subsection \<open>What an append touches\<close>

text \<open>Only the struct of the array and its element block, which may have moved to a place that was free.\<close>

definition touches :: "addr \<Rightarrow> nc_array \<Rightarrow> arr_heap \<Rightarrow> arr_heap \<Rightarrow> bool" where
  "touches a arr h h' \<longleftrightarrow> (\<exists>arr' m. arrays h' = (arrays h)(a \<mapsto> arr') \<and>
     (elems arr' = elems arr \<or> block_size h (elems arr') = None) \<and>
     block_size h' = (block_size h)(elems arr := None, elems arr' \<mapsto> m) \<and>
     (\<forall>x. m \<le> unat (x - elems arr') \<longrightarrow> bytes h' x = bytes h x))"

lemma take_slots_touches:
  assumes "take_slots a arr1 n h1 = Some (p, h')" "arrays h1 = arrays h"
    and "elems arr1 = elems arr \<or> block_size h (elems arr1) = None"
    and "block_size h1 = (block_size h)(elems arr := None, elems arr1 \<mapsto> m)"
    and "\<forall>x. m \<le> unat (x - elems arr1) \<longrightarrow> bytes h1 x = bytes h x"
  shows "touches a arr h h'"
proof -
  obtain k where "h' = put_array a (arr1\<lparr>nelem := k\<rparr>) h1"
    using assms(1) by (auto simp: take_slots_def Let_def bind_eq_Some_conv)
  then show ?thesis
    using assms(2-5) unfolding touches_def
    by (intro exI [of _ "arr1\<lparr>nelem := k\<rparr>"] exI [of _ m]) (simp add: array_simps)
qed

lemma push_touches:
  assumes "array_ok sz h a" "arrays h a = Some arr" "nc_array_push a h = Some (p, h')"
  shows "touches a arr h h'"
proof -
  have inv: "heap_ok h" "arr_inv h a arr"
    using assms(1,2) by (auto simp: array_ok_def)
  define m where "m = nat (nalloc arr) * unat (elem_size arr)"
  have b: "block_size h (elems arr) = Some m"
    using inv(2) by (simp add: arr_inv_def m_def)
  have same: "touches a arr h (h\<lparr>offers := as\<rparr>)" for as
    using b assms(2) unfolding touches_def by (intro exI [of _ arr] exI [of _ m]) (auto simp: heap_simps fun_eq_iff)
  show ?thesis
  proof (cases "nelem arr = nalloc arr")
    case False
    then have "take_slots a arr 1 h = Some (p, h')"
      using assms(2,3) by (simp add: nc_array_push_def)
    then show ?thesis
      by (rule take_slots_touches [of _ _ _ _ _ _ _ _ m]) (use b in auto)
  next
    case True
    define w where "w = 2 * (elem_size arr * size_of_int (nalloc arr))"
    have push: "nc_array_push a h = do {
       (q, h1) \<leftarrow> nc_realloc (elems arr) w h;
       if q = NULL then Some (NULL, h1)
       else do { n2 \<leftarrow> int_chk (nalloc arr * 2); take_slots a (arr\<lparr>elems := q, nalloc := n2\<rparr>) 1 h1 } }"
      using True assms(2) by (simp add: nc_array_push_def w_def Let_def)
    then have "realloc (elems arr) w h \<noteq> None"
      using assms(3) by (cases "realloc (elems arr) w h") (simp_all add: nc_realloc_def)
    then have w: "w \<noteq> 0"
      using b block_size_fits [OF inv(1) b] by (auto simp: realloc_def fits_def)
    show ?thesis
    proof (cases rule: realloc_cases [OF inv(1) b w])
      case (1 as)
      then show ?thesis
        using push assms(3) same by (auto simp: nc_realloc_def)
    next
      case (2 q as)
      define h1 where "h1 = h\<lparr>offers := as, live := (q, unat w) # live (drop_block (elems arr) h),
        bytes := copy_bytes q (elems arr) (min m (unat w)) (bytes h)\<rparr>"
      obtain n2 where "take_slots a (arr\<lparr>elems := q, nalloc := n2\<rparr>) 1 h1 = Some (p, h')"
        using assms(3) [unfolded push] 2(1,4) by (auto simp: nc_realloc_def h1_def bind_eq_Some_conv)
      then show ?thesis
      proof (rule take_slots_touches [of _ _ _ _ _ _ _ _ "unat w"])
        show "block_size h1 = (block_size h)(elems arr := None, elems (arr\<lparr>elems := q, nalloc := n2\<rparr>) \<mapsto> unat w)"
          using block_size_live_upd [of q "unat w" "elems arr" h] by (simp add: h1_def block_size_def fun_eq_iff)
      qed (use 2(2) in \<open>auto simp: h1_def copy_bytes_def\<close>)
    qed
  qed
qed

lemma touches_bytes:
  assumes "touches a arr h h'" "arrays h' a = Some arr'" "block_size h' (elems arr') = Some m"
    and "\<And>x. m \<le> unat (x - elems arr') \<Longrightarrow> f x = bytes h' x"
  shows "touches a arr h (h'\<lparr>bytes := f\<rparr>)"
proof -
  obtain arr1 m1 where "arrays h' = (arrays h)(a \<mapsto> arr1)" "elems arr1 = elems arr \<or> block_size h (elems arr1) = None"
    "block_size h' = (block_size h)(elems arr := None, elems arr1 \<mapsto> m1)"
    "\<forall>x. m1 \<le> unat (x - elems arr1) \<longrightarrow> bytes h' x = bytes h x"
    using assms(1) by (auto simp: touches_def)
  moreover from this have "arr1 = arr'" "m1 = m"
    using assms(2,3) by simp_all
  ultimately show ?thesis
    using assms(4) unfolding touches_def by (intro exI [of _ arr'] exI [of _ m]) (simp add: heap_simps)
qed

text \<open>The store through the pointer that the push returned stays in the block.\<close>

lemma append_touches:
  assumes "array_ok sz h a" "unat sz \<le> 4294967296" "length (contents h a) < 1073741824" "length v = unat sz"
    and "arrays h a = Some arr" "array_append a v h = Some (b, h')"
  shows "touches a arr h h'"
proof -
  obtain p h1 where push: "nc_array_push a h = Some (p, h1)" "pushed sz a 1 h p h1"
    using push_total [OF assms(1-3)] by blast
  note t = push_touches [OF assms(1,5) push(1)]
  show ?thesis
  proof (cases "p = NULL")
    case True
    then show ?thesis
      using assms(6) push(1) t by (simp add: array_append_def)
  next
    case False
    then have p: "array_ok sz h1 a" "length (contents h1 a) = Suc (length (contents h a))"
      using push(2) by (simp_all add: pushed_def)
    obtain arr1 where arr1: "arrays h1 a = Some arr1" "heap_ok h1" "arr_inv h1 a arr1" "elem_size arr1 = sz"
      by (rule array_okE [OF p(1)])
    define i m where "i = length (contents h a)" and "m = nat (nalloc arr1) * unat sz"
    have m: "block_size h1 (elems arr1) = Some m" "m < 2 ^ 64"
      using arr1(3,4) by (simp_all add: arr_inv_def m_def)
    have slot: "p = elems arr1 + of_nat (i * unat sz)"
      using push(2) False arr1(1,4) by (simp add: pushed_def slot_def i_def)
    have "Suc i \<le> nat (nalloc arr1)"
      using p(2) arr1(1,3) by (auto simp: contents_Some arr_inv_def i_def)
    then have "Suc i * unat sz \<le> m"
      unfolding m_def by (rule mult_le_mono1)
    then have le: "i * unat sz + unat sz \<le> m"
      by simp
    have "\<not> unat (x - p) < length v" if "m \<le> unat (x - elems arr1)" for x
    proof
      assume l: "unat (x - p) < length v"
      have "x - elems arr1 = of_nat (i * unat sz + unat (x - p))"
        by (simp add: slot)
      then have "unat (x - elems arr1) = i * unat sz + unat (x - p)"
        using l le m(2) assms(4) by (simp add: unat_of_nat_ok del: of_nat_add of_nat_mult)
      then show False
        using l le assms(4) that by simp
    qed
    moreover obtain f where "h' = h1\<lparr>bytes := f\<rparr>" "f = (\<lambda>x. if unat (x - p) < length v then v ! unat (x - p) else bytes h1 x)"
      using assms(6) push(1) False by (auto simp: array_append_def write_bytes_def bind_eq_Some_conv)
    ultimately show ?thesis
      using touches_bytes [OF t arr1(1) m(1), of f] by simp
  qed
qed

subsection \<open>Sessions\<close>

text \<open>The heap \<open>h\<close> is \<open>h0\<close> with the array \<open>a\<close> in two blocks that \<open>h0\<close> did not have.\<close>

definition array_alone :: "arr_heap \<Rightarrow> addr \<Rightarrow> arr_heap \<Rightarrow> bool" where
  "array_alone h0 a h \<longleftrightarrow> (\<exists>arr m. arrays h a = Some arr \<and> (\<forall>b. b \<noteq> a \<longrightarrow> arrays h b = arrays h0 b) \<and> elems arr \<noteq> a \<and>
     block_size h0 a = None \<and> block_size h0 (elems arr) = None \<and>
     block_size h = (block_size h0)(a \<mapsto> 32, elems arr \<mapsto> m) \<and> same_inside h0 h)"

lemma append_alone:
  assumes "array_alone h0 a h" "array_ok sz h a" "unat sz \<le> 4294967296" "length (contents h a) < 1073741824" "length v = unat sz"
    and "array_append a v h = Some (b, h')" "heap_ok h'"
  shows "array_alone h0 a h'"
proof -
  obtain arr m where arr: "arrays h a = Some arr" "\<forall>b. b \<noteq> a \<longrightarrow> arrays h b = arrays h0 b" "elems arr \<noteq> a"
    "block_size h0 a = None" "block_size h0 (elems arr) = None"
    "block_size h = (block_size h0)(a \<mapsto> 32, elems arr \<mapsto> m)" "same_inside h0 h"
    using assms(1) by (auto simp: array_alone_def)
  obtain arr1 m1 where t: "arrays h' = (arrays h)(a \<mapsto> arr1)" "elems arr1 = elems arr \<or> block_size h (elems arr1) = None"
    "block_size h' = (block_size h)(elems arr := None, elems arr1 \<mapsto> m1)"
    "\<forall>x. m1 \<le> unat (x - elems arr1) \<longrightarrow> bytes h' x = bytes h x"
    using append_touches [OF assms(2-5) arr(1) assms(6)] by (auto simp: touches_def)
  have e: "elems arr1 \<noteq> a" "block_size h0 (elems arr1) = None"
    using t(2) arr(3,5,6) by (auto split: if_splits)
  have bs: "block_size h' = (block_size h0)(a \<mapsto> 32, elems arr1 \<mapsto> m1)"
    using t(3) arr(3,5,6) e by (auto simp: fun_eq_iff)
  have "same_inside h0 h'"
    unfolding same_inside_def
  proof (intro allI impI)
    fix b n k
    assume b: "block_size h0 b = Some n" "k < n"
    then have "b \<noteq> elems arr1" "block_size h' b = Some n"
      using e(2) bs arr(4) by auto
    then have "m1 \<le> unat (b + of_nat k - elems arr1)"
      using outside_block [OF assms(7), of b n "elems arr1" m1 k] bs b(2) by simp
    then show "bytes h' (b + of_nat k) = bytes h0 (b + of_nat k)"
      using t(4) arr(7) b unfolding same_inside_def by simp
  qed
  then show ?thesis
    using t(1) arr(2,4) e bs unfolding array_alone_def by auto
qed

lemma alone_kept: "array_alone h0 a h \<Longrightarrow> heap_ok h \<Longrightarrow> arrays_kept h0 h"
proof (rule arrays_keptI)
  fix b
  assume a: "array_alone h0 a h" "block_size h0 b \<noteq> None"
  then have "b \<noteq> a"
    by (auto simp: array_alone_def)
  then show "block_size h b = block_size h0 b \<and> arrays h b = arrays h0 b"
    using a by (auto simp: array_alone_def)
qed (auto simp: array_alone_def)

lemma create_alone:
  assumes "heap_ok h" "0 < n" "n \<le> INT_MAX" "sz \<noteq> 0" "nat n * unat sz < 2 ^ 64"
  shows "\<exists>a h1. nc_array_create n sz h = Some (a, h1) \<and>
    (if a = NULL then heap_ok h1 \<and> block_size h1 = block_size h \<and> arrays_kept h h1
     else array_ok sz h1 a \<and> contents h1 a = [] \<and> array_alone h a h1)"
proof -
  obtain a h1 where c: "nc_array_create n sz h = Some (a, h1)"
    and null: "a = NULL \<longrightarrow> heap_ok h1 \<and> block_size h1 = block_size h \<and> bytes h1 = bytes h \<and>
      (\<forall>b. block_size h b \<noteq> None \<longrightarrow> arrays h1 b = arrays h b)"
    using create_total [OF assms(1)] by blast
  have "arrays_kept h h1" if "a = NULL"
    by (rule arrays_keptI) (use null that in \<open>auto simp: same_inside_def\<close>)
  moreover have "array_ok sz h1 a \<and> contents h1 a = [] \<and> array_alone h a h1" if "a \<noteq> NULL"
  proof (rule create_result [OF assms(1) c that])
    fix e
    assume e: "arrays h1 a = Some \<lparr>elems = e, nelem = 0, elem_size = sz, nalloc = n\<rparr>" "heap_ok h1" "e \<noteq> a"
      "block_size h a = None" "block_size h e = None" "block_size h1 = (block_size h)(a \<mapsto> 32, e \<mapsto> unat (size_of_int n * sz))"
      "\<And>b. b \<noteq> a \<Longrightarrow> arrays h1 b = arrays h b" "bytes h1 = bytes h"
    then show ?thesis
      using assms unat_count_mult(1) [of n sz]
      by (auto simp: array_ok_def arr_inv_def contents_def items_def array_alone_def same_inside_def)
  qed
  ultimately show ?thesis
    using c null by auto
qed

lemma destroy_alone:
  assumes "array_ok sz h a" "array_alone h0 a h"
  shows "\<exists>h'. nc_array_destroy a h = Some h' \<and> heap_ok h' \<and> block_size h' = block_size h0 \<and> arrays_kept h0 h' \<and>
    nc_array_destroy a h' = None"
proof -
  obtain arr m where arr: "arrays h a = Some arr" "\<forall>b. b \<noteq> a \<longrightarrow> arrays h b = arrays h0 b" "elems arr \<noteq> a"
    "block_size h0 a = None" "block_size h0 (elems arr) = None"
    "block_size h = (block_size h0)(a \<mapsto> 32, elems arr \<mapsto> m)" "same_inside h0 h"
    using assms(2) by (auto simp: array_alone_def)
  obtain h' where d: "nc_array_destroy a h = Some h'" "heap_ok h'" "arrays h' a = None"
    "block_size h' = (block_size h)(elems arr := None, a := None)" "bytes h' = bytes h" "\<forall>b. b \<noteq> a \<longrightarrow> arrays h' b = arrays h b"
    using destroy_ok [OF assms(1) arr(1)] by blast
  have bs: "block_size h' = block_size h0"
    using d(4) arr(4-6) by (auto simp: fun_eq_iff)
  moreover have "arrays_kept h0 h'"
  proof (rule arrays_keptI [OF d(2)])
    show "same_inside h0 h'"
      using arr(7) d(5) by (simp add: same_inside_def)
    show "block_size h' b = block_size h0 b \<and> arrays h' b = arrays h0 b" if "block_size h0 b \<noteq> None" for b
      using that arr(2,4) d(6) bs by (cases "b = a") simp_all
  qed
  ultimately show ?thesis
    using d(1-3) by (simp add: nc_array_destroy_def)
qed

text \<open>The contract of an owned buffer: the frame is part of its invariant.\<close>

definition array_gone :: "arr_heap \<Rightarrow> addr \<Rightarrow> arr_heap \<Rightarrow> bool" where
  "array_gone h0 a h \<longleftrightarrow> heap_ok h \<and> block_size h = block_size h0 \<and> arrays_kept h0 h \<and> nc_array_destroy a h = None"

interpretation alone: owned_buffer "array_append a" "\<lambda>h. contents h a"
  "\<lambda>h. array_ok sz h a \<and> unat sz \<le> 4294967296 \<and> array_alone h0 a h" "\<lambda>v. length v = unat sz" 1073741824
  "nc_array_destroy a" "array_gone h0 a"
  for a :: addr and sz :: size_t and h0 :: arr_heap
proof unfold_locales
  fix h :: arr_heap and v :: "u_char list"
  assume a: "array_ok sz h a \<and> unat sz \<le> 4294967296 \<and> array_alone h0 a h" "length v = unat sz"
    "length (contents h a) < 1073741824"
  then obtain b h' where s: "array_append a v h = Some (b, h')" "array_ok sz h' a"
    "contents h' a = (if b then contents h a @ [v] else contents h a)"
    using array_append_step [of sz h a v] by blast
  moreover have "array_alone h0 a h'"
    using append_alone [OF _ _ _ a(3,2) s(1)] a(1) s(2) by (simp add: array_ok_def)
  ultimately show "\<exists>b h'. array_append a v h = Some (b, h') \<and>
      (array_ok sz h' a \<and> unat sz \<le> 4294967296 \<and> array_alone h0 a h') \<and>
      contents h' a = (if b then contents h a @ [v] else contents h a)"
    using a(1) by blast
next
  fix h :: arr_heap
  assume "array_ok sz h a \<and> unat sz \<le> 4294967296 \<and> array_alone h0 a h"
  then show "\<exists>h'. nc_array_destroy a h = Some h' \<and> array_gone h0 a h'"
    using destroy_alone [of sz h a h0] by (auto simp: array_gone_def)
qed

text \<open>
  Property (C28): the life of an array among others. \<open>nc_array_create\<close> with a request that fits the
  address space never faults: out of memory at either allocation it returns the null pointer and holds no block;
  otherwise it returns an empty array. Any run of appends to it, through any number of reallocations and up to
  the first that fails for want of memory, leaves exactly the stored prefix in it. Destroying it gives back every
  block, and a second destruction has no defined behaviour. All the while every other array of
  the heap stays well formed and keeps its elements, byte for byte.
\<close>

theorem nc_array_session:
  assumes "heap_ok h" "0 < n" "n \<le> INT_MAX" "sz \<noteq> 0" "unat sz \<le> 4294967296" "nat n * unat sz < 2 ^ 64"
    and "\<forall>v \<in> set vs. length v = unat sz" "length vs \<le> 1073741824"
  shows "\<exists>a h1. nc_array_create n sz h = Some (a, h1) \<and>
    (if a = NULL then heap_ok h1 \<and> block_size h1 = block_size h \<and> arrays_kept h h1
     else contents h1 a = [] \<and> arrays_kept h h1 \<and>
       (\<exists>k h2 h3. append_all (array_append a) vs h1 = Some (k, h2) \<and> k \<le> length vs \<and> contents h2 a = take k vs \<and>
         arrays_kept h h2 \<and> nc_array_destroy a h2 = Some h3 \<and> heap_ok h3 \<and> block_size h3 = block_size h \<and>
         arrays_kept h h3 \<and> nc_array_destroy a h3 = None))"
proof -
  obtain a h1 where c: "nc_array_create n sz h = Some (a, h1)"
    "if a = NULL then heap_ok h1 \<and> block_size h1 = block_size h \<and> arrays_kept h h1
     else array_ok sz h1 a \<and> contents h1 a = [] \<and> array_alone h a h1"
    using create_alone [OF assms(1-4,6)] by blast
  show ?thesis
  proof (cases "a = NULL")
    case False
    then have a: "array_ok sz h1 a" "contents h1 a = []" "array_alone h a h1"
      using c(2) by simp_all
    obtain k h2 h3 where r: "append_all (array_append a) vs h1 = Some (k, h2)" "k \<le> length vs" "array_ok sz h2 a"
      "array_alone h a h2" "contents h2 a = take k vs" "nc_array_destroy a h2 = Some h3" "array_gone h a h3"
      using alone.session [of sz h1 a h vs] assms(5,7,8) a by auto
    moreover have "arrays_kept h h1" "arrays_kept h h2"
      using alone_kept [OF a(3)] alone_kept [OF r(4)] a(1) r(3) by (simp_all add: array_ok_def)
    ultimately show ?thesis
      using False c(1) a(2) r by (auto simp: array_gone_def)
  qed (use c in simp)
qed

theorem nc_array_session_witness:
  "\<exists>a h1. nc_array_create 1 4 (arr_demo [128, 256, 512]) = Some (a, h1) \<and>
    (a = NULL \<or> (\<exists>k h2 h3. append_all (array_append a) [[1, 2, 3, 4], [5, 6, 7, 8]] h1 = Some (k, h2) \<and>
      contents h2 a = take k [[1, 2, 3, 4], [5, 6, 7, 8]] \<and> contents h2 16 = contents (arr_demo [128, 256, 512]) 16 \<and>
      nc_array_destroy a h2 = Some h3 \<and> block_size h3 = block_size (arr_demo [128, 256, 512])))"
proof -
  let ?h = "arr_demo [128, 256, 512]" and ?vs = "[[1, 2, 3, 4], [5, 6, 7, 8]] :: u_char list list"
  have "heap_ok ?h"
    using arr_demo_ok(1) by (simp add: array_ok_def)
  moreover have "\<forall>v \<in> set ?vs. length v = unat (4 :: size_t)" "length ?vs \<le> 1073741824"
    by simp_all
  ultimately obtain a h1 where s: "nc_array_create 1 4 ?h = Some (a, h1)"
    "a = NULL \<or> (\<exists>k h2 h3. append_all (array_append a) ?vs h1 = Some (k, h2) \<and> contents h2 a = take k ?vs \<and>
       arrays_kept ?h h2 \<and> nc_array_destroy a h2 = Some h3 \<and> block_size h3 = block_size ?h)"
    using nc_array_session [of ?h 1 4 ?vs] by (simp add: INT_MAX_def del: append_all.simps split: if_splits) blast
  moreover have "contents h2 16 = contents ?h 16" if "arrays_kept ?h h2" for h2
    using that arr_demo_ok(1) by (auto simp: arrays_kept_def)
  ultimately show ?thesis
    by blast
qed

end
