(* ===== verification/Ring.thy ===== *)
theory Ring
  imports Prelude
begin

text \<open>
  Doubly linked lists as the pointer code sees them: two partial functions, the next and the
  previous link. \<open>chain N P x ns y\<close> says that following next links from \<open>x\<close> visits exactly \<open>ns\<close>
  and arrives at \<open>y\<close>, and that the previous links run back along the same path; a ring is a chain
  from the list head to itself without repetitions. The lemmas give the effect of the two pointer
  updates every insertion and every removal consists of, and, for the bucket order of the hash
  table, how segments of equal class survive an insertion in front of their class.
\<close>

type_synonym links = "addr \<Rightarrow> addr option"

definition linked :: "links \<Rightarrow> links \<Rightarrow> addr \<Rightarrow> addr \<Rightarrow> bool" where
  "linked N P x y \<longleftrightarrow> N x = Some y \<and> P y = Some x"

fun chain :: "links \<Rightarrow> links \<Rightarrow> addr \<Rightarrow> addr list \<Rightarrow> addr \<Rightarrow> bool" where
  "chain N P x [] y = linked N P x y"
| "chain N P x (n # ns) y = (linked N P x n \<and> chain N P n ns y)"

definition ring :: "links \<Rightarrow> links \<Rightarrow> addr \<Rightarrow> addr list \<Rightarrow> bool" where
  "ring N P h ns \<longleftrightarrow> chain N P h ns h \<and> distinct (h # ns)"

lemma chain_append [simp]:
  "chain N P x (as @ n # bs) y \<longleftrightarrow> chain N P x as n \<and> chain N P n bs y"
  by (induction as arbitrary: x) auto

lemma chain_cong:
  assumes "\<And>z. z \<in> set (x # ns) \<Longrightarrow> N' z = N z" "\<And>z. z \<in> set (ns @ [y]) \<Longrightarrow> P' z = P z"
  shows "chain N' P' x ns y \<longleftrightarrow> chain N P x ns y"
  using assms by (induction ns arbitrary: x) (auto simp: linked_def)

lemma chain_first: "chain N P x ns y \<Longrightarrow> N x = Some (hd (ns @ [y]))"
  by (cases ns) (auto simp: linked_def)

lemma chain_last: "chain N P x ns y \<Longrightarrow> P y = Some (last (x # ns))"
  by (induction ns arbitrary: x) (auto simp: linked_def)

text \<open>Inserting a node between two neighbours of a ring.\<close>

lemma ring_insert:
  assumes "ring N P h (as @ bs)" "n \<notin> set (h # as @ bs)"
  defines "l \<equiv> hd (bs @ [h])" and "p \<equiv> last (h # as)"
  shows "P l = Some p" "ring (N(n \<mapsto> l, p \<mapsto> n)) (P(n \<mapsto> p, l \<mapsto> n)) h (as @ n # bs)"
proof -
  let ?N = "N(n \<mapsto> l, p \<mapsto> n)" and ?P = "P(n \<mapsto> p, l \<mapsto> n)"
  have d: "distinct (h # as @ bs)"
    using assms(1) by (simp add: ring_def)
  have "p \<in> set (h # as)" "l \<in> set (bs @ [h])"
    unfolding p_def l_def by (rule last_in_set hd_in_set, simp)+
  then have out: "l \<notin> set as" "p \<notin> set bs" "n \<noteq> l" "n \<noteq> p"
    using d assms(2) by auto
  have c: "chain N P h as l"
    using assms(1) by (cases bs) (simp_all add: ring_def l_def)
  then show "P l = Some p"
    unfolding p_def by (rule chain_last)
  have b: "chain ?N ?P n bs h"
  proof (cases bs)
    case Nil
    then show ?thesis
      using out by (simp add: linked_def l_def)
  next
    case (Cons b bs')
    have "chain N P b bs' h"
      using assms(1) Cons by (simp add: ring_def)
    moreover have "?N z = N z" if "z \<in> set (b # bs')" for z
      using that out assms(2) Cons by auto
    moreover have "?P z = P z" if "z \<in> set (bs' @ [h])" for z
      using that out d assms(2) Cons by (auto simp: l_def)
    ultimately have "chain ?N ?P b bs' h"
      using chain_cong [of b bs' ?N N h ?P P] by blast
    then show ?thesis
      using out Cons by (simp add: linked_def l_def)
  qed
  have a: "chain ?N ?P h as n"
  proof (cases as rule: rev_cases)
    case Nil
    then show ?thesis
      using out by (simp add: linked_def p_def)
  next
    case (snoc as' q)
    then have q: "chain N P h as' q" "p = q"
      using c by (simp_all add: p_def)
    moreover have "?N z = N z" if "z \<in> set (h # as')" for z
      using that q d assms(2) snoc by auto
    moreover have "?P z = P z" if "z \<in> set (as' @ [q])" for z
      using that out assms(2) snoc by auto
    ultimately have "chain ?N ?P h as' q"
      using chain_cong [of h as' ?N N q ?P P] by blast
    then show ?thesis
      using snoc q(2) out by (simp add: linked_def)
  qed
  show "ring ?N ?P h (as @ n # bs)"
    using a b d assms(2) by (auto simp: ring_def)
qed

text \<open>Taking a node out of a ring.\<close>

lemma ring_remove:
  assumes "ring N P h (as @ n # bs)"
  defines "l \<equiv> hd (bs @ [h])" and "p \<equiv> last (h # as)"
  shows "N n = Some l" "P n = Some p" "ring (N(p \<mapsto> l)) (P(l \<mapsto> p)) h (as @ bs)"
proof -
  let ?N = "N(p \<mapsto> l)" and ?P = "P(l \<mapsto> p)"
  have d: "distinct (h # as @ n # bs)"
    using assms(1) by (simp add: ring_def)
  have "p \<in> set (h # as)" "l \<in> set (bs @ [h])"
    unfolding p_def l_def by (rule last_in_set hd_in_set, simp)+
  then have out: "l \<notin> set as" "p \<notin> set bs"
    using d by auto
  have c: "chain N P h as n" "chain N P n bs h"
    using assms(1) by (simp_all add: ring_def)
  show "N n = Some l" "P n = Some p"
    using chain_first [OF c(2)] chain_last [OF c(1)] by (simp_all add: l_def p_def)
  have a: "chain ?N ?P h as l"
  proof (cases as rule: rev_cases)
    case Nil
    then show ?thesis by (simp add: linked_def p_def)
  next
    case (snoc as' q)
    then have q: "chain N P h as' q" "p = q"
      using c by (simp_all add: p_def)
    moreover have "?N z = N z" if "z \<in> set (h # as')" for z
      using that q d snoc by auto
    moreover have "?P z = P z" if "z \<in> set (as' @ [q])" for z
      using that out snoc by auto
    ultimately have "chain ?N ?P h as' q"
      using chain_cong [of h as' ?N N q ?P P] by blast
    then show ?thesis
      using snoc q(2) by (simp add: linked_def)
  qed
  have "chain ?N ?P h (as @ bs) h"
  proof (cases bs)
    case Nil
    then show ?thesis
      using a by (simp add: l_def)
  next
    case (Cons b bs')
    then have "chain N P b bs' h"
      using c by simp
    moreover have "?N z = N z" if "z \<in> set (b # bs')" for z
      using that out Cons by auto
    moreover have "?P z = P z" if "z \<in> set (bs' @ [h])" for z
      using that d Cons by (auto simp: l_def)
    ultimately have "chain ?N ?P b bs' h"
      using chain_cong [of b bs' ?N N h ?P P] by blast
    then show ?thesis
      using a Cons by (simp add: l_def)
  qed
  then show "ring ?N ?P h (as @ bs)"
    using d by (auto simp: ring_def)
qed

lemma chain_dom: "chain N P x ns y \<Longrightarrow> z \<in> set (x # ns) \<Longrightarrow> N z \<noteq> None"
  by (induction ns arbitrary: x) (auto simp: linked_def)

lemma chain_dom_prev: "chain N P x ns y \<Longrightarrow> z \<in> set (ns @ [y]) \<Longrightarrow> P z \<noteq> None"
  by (induction ns arbitrary: x) (auto simp: linked_def)

lemma ring_dom: "ring N P h ns \<Longrightarrow> z \<in> set (h # ns) \<Longrightarrow> N z \<noteq> None"
  using chain_dom [of N P h ns h z] by (simp add: ring_def)

lemma ring_dom_prev: "ring N P h ns \<Longrightarrow> z \<in> set (h # ns) \<Longrightarrow> P z \<noteq> None"
  using chain_dom_prev [of N P h ns h z] by (auto simp: ring_def)

lemma ring_empty: "N h = Some h \<Longrightarrow> P h = Some h \<Longrightarrow> ring N P h []"
  by (simp add: ring_def linked_def)

lemma ring_next: "ring N P h (as @ x # y # bs) \<Longrightarrow> N x = Some y"
  and ring_prev: "ring N P h (as @ x # y # bs) \<Longrightarrow> P y = Some x"
  by (simp_all add: ring_def linked_def)

lemma ring_cong:
  "ring N P h ns \<Longrightarrow> (\<And>z. z \<in> set (h # ns) \<Longrightarrow> N' z = N z \<and> P' z = P z) \<Longrightarrow> ring N' P' h ns"
  using chain_cong [of h ns N' N h P' P] by (auto simp: ring_def)

subsection \<open>Segments of one class\<close>

text \<open>The elements that satisfy \<open>Q\<close> stand next to each other.\<close>

fun contig :: "('a \<Rightarrow> bool) \<Rightarrow> 'a list \<Rightarrow> bool" where
  "contig Q [] = True"
| "contig Q (x # xs) = (if Q x then list_all (Not \<circ> Q) (dropWhile Q xs) else contig Q xs)"

text \<open>Insertion in front of the class, or at the end when the class is empty.\<close>

definition insert_class :: "('a \<Rightarrow> bool) \<Rightarrow> 'a \<Rightarrow> 'a list \<Rightarrow> 'a list" where
  "insert_class P n ns = takeWhile (Not \<circ> P) ns @ n # dropWhile (Not \<circ> P) ns"

lemma set_insert_class [simp]: "set (insert_class P n ns) = insert n (set ns)"
  by (simp add: insert_class_def) (metis set_append takeWhile_dropWhile_id Un_commute)

lemma length_insert_class [simp]: "length (insert_class P n ns) = Suc (length ns)"
  by (simp add: insert_class_def) (metis length_append takeWhile_dropWhile_id)

lemma insert_class_Cons:
  "insert_class P n (x # xs) = (if P x then n # x # xs else x # insert_class P n xs)"
  by (simp add: insert_class_def)

lemma insert_class_Nil [simp]: "insert_class P n [] = [n]"
  by (simp add: insert_class_def)

lemma distinct_insert_class: "distinct ns \<Longrightarrow> n \<notin> set ns \<Longrightarrow> distinct (insert_class P n ns)"
  by (induction ns) (auto simp: insert_class_Cons)

lemma filter_insert_same: "P n \<Longrightarrow> filter P (insert_class P n ns) = n # filter P ns"
  by (induction ns) (auto simp: insert_class_Cons)

lemma filter_insert_other: "\<not> Q n \<Longrightarrow> filter Q (insert_class P n ns) = filter Q ns"
  by (induction ns) (auto simp: insert_class_Cons)

lemma contig_insert_same: "P n \<Longrightarrow> contig P ns \<Longrightarrow> contig P (insert_class P n ns)"
  by (induction ns) (auto simp: insert_class_Cons)

lemma contig_insert_other:
  assumes "\<not> Q n" "\<And>x. P x \<Longrightarrow> \<not> Q x"
  shows "contig Q ns \<Longrightarrow> contig Q (insert_class P n ns)"
proof (induction ns)
  case Nil
  then show ?case using assms by simp
next
  case (Cons x xs)
  have all: "list_all (Not \<circ> Q) ys \<Longrightarrow> list_all (Not \<circ> Q) (insert_class P n ys)" for ys
    using assms(1) by (simp add: list_all_iff)
  have "list_all (Not \<circ> Q) (dropWhile Q ys) \<Longrightarrow>
    list_all (Not \<circ> Q) (dropWhile Q (insert_class P n ys))" for ys
    by (induction ys) (use assms all in \<open>auto simp: insert_class_Cons\<close>)
  then show ?case
    using Cons assms by (auto simp: insert_class_Cons)
qed

lemma contig_remove1: "contig Q ns \<Longrightarrow> contig Q (remove1 n ns)"
proof (induction ns)
  case Nil
  then show ?case by simp
next
  case (Cons x xs)
  have all: "list_all (Not \<circ> Q) (remove1 n ys)" "list_all (Not \<circ> Q) (dropWhile Q ys)" "contig Q ys"
    if "list_all (Not \<circ> Q) ys" for ys
    using that by (auto simp: list_all_iff dest: notin_set_remove1 set_dropWhileD) (induction ys, auto)
  have drop: "list_all (Not \<circ> Q) (dropWhile Q ys) \<Longrightarrow>
    list_all (Not \<circ> Q) (dropWhile Q (remove1 n ys))" for ys
    by (induction ys) (simp_all add: all split: if_splits)
  have tail: "list_all (Not \<circ> Q) (dropWhile Q ys) \<Longrightarrow> contig Q ys" for ys
    by (induction ys) (simp_all add: all split: if_splits)
  show ?case
    using Cons drop tail by simp
qed

lemma contig_split: "contig Q ns \<Longrightarrow> \<exists>xs ys. ns = xs @ filter Q ns @ ys"
proof (induction ns)
  case Nil
  then show ?case by simp
next
  case (Cons x xs)
  show ?case
  proof (cases "Q x")
    case True
    then have n: "filter Q (dropWhile Q xs) = []"
      using Cons.prems by (simp add: filter_empty_conv list_all_iff)
    have t: "filter Q (takeWhile Q xs) = takeWhile Q xs"
      by (rule filter_True) (auto dest: set_takeWhileD)
    have "filter Q (takeWhile Q xs @ dropWhile Q xs) = takeWhile Q xs"
      unfolding filter_append n t by simp
    then have "filter Q xs = takeWhile Q xs"
      by simp
    then have "x # xs = [] @ filter Q (x # xs) @ dropWhile Q xs"
      using True by simp
    then show ?thesis by blast
  next
    case False
    then obtain as bs where "xs = as @ filter Q xs @ bs"
      using Cons by auto
    then have "x # xs = (x # as) @ filter Q (x # xs) @ bs"
      using False by simp
    then show ?thesis by blast
  qed
qed

lemma dropWhile_class_Nil: "filter P ns = [] \<Longrightarrow> dropWhile (Not \<circ> P) ns = []"
  by (simp add: filter_empty_conv dropWhile_eq_Nil_conv)

lemma dropWhile_class_Cons:
  "filter P ns \<noteq> [] \<Longrightarrow> dropWhile (Not \<circ> P) ns \<noteq> [] \<and> hd (dropWhile (Not \<circ> P) ns) = hd (filter P ns)"
  by (induction ns) (simp_all split: if_splits)

subsection \<open>Following the next links\<close>

fun npath :: "links \<Rightarrow> addr list \<Rightarrow> bool" where
  "npath N [] = True"
| "npath N [x] = True"
| "npath N (x # y # ys) = (N x = Some y \<and> npath N (y # ys))"

lemma npath_appendD: "npath N (xs @ ys) \<Longrightarrow> npath N xs \<and> npath N ys"
proof (induction xs rule: induct_list012)
  case (2 x)
  then show ?case by (cases ys) simp_all
qed simp_all

lemma chain_npath: "chain N P x ns y \<Longrightarrow> npath N (x # ns @ [y])"
  by (induction ns arbitrary: x) (auto simp: linked_def)

lemma ring_npath: "ring N P h ns \<Longrightarrow> npath N (h # ns @ [h])"
  using chain_npath [of N P h ns h] by (simp add: ring_def)

lemma find_filter: "List.find Q (filter P xs) = List.find (\<lambda>x. P x \<and> Q x) xs"
  by (induction xs) simp_all

end
