(* ===== verification/Nc_Hashtable.thy ===== *)
theory Nc_Hashtable
  imports Nc_Macros Ring
begin

text \<open>
  \<open>nc_hashtable.h\<close> and \<open>nc_hashtable.c\<close>: the chained hash table. All pairs hang in one circular
  doubly linked list headed by \<open>&hashtable->list\<close>; a bucket is the first and the last node of a
  contiguous segment of that list, or the list head twice when it is empty.

  Every struct has a typed store in the heap, keyed by its address; the list node embedded in a
  pair or in the table is at its byte offset (24 in both), so \<open>list_to_pair\<close> is the subtraction of
  \<open>container_of\<close>. The key callbacks are the functions stored in the table; of the optional free
  callbacks only the calls matter, and they are recorded in \<open>calls\<close> in the order they are made.
\<close>

subsection \<open>State\<close>

record list_t =
  prev :: addr
  "next" :: addr

record pair_t =
  key :: addr
  "value" :: addr
  hash :: size_t

record bucket_t =
  b_first :: addr
  b_last :: addr

record nc_hashtable =
  ht_size :: size_t
  buckets :: addr
  num_ix :: size_t
  hash_key :: "addr \<Rightarrow> size_t"
  cmp_keys :: "addr \<Rightarrow> addr \<Rightarrow> bool"
  free_key :: bool
  free_value :: bool

datatype call = FreeKey addr | FreeValue addr

record ht_heap = heap +
  lists :: "addr \<Rightarrow> list_t option"
  pairs :: "addr \<Rightarrow> pair_t option"
  arrs :: "addr \<Rightarrow> bucket_t list option"
  tables :: "addr \<Rightarrow> nc_hashtable option"
  calls :: "call list"
  stale_table :: nc_hashtable
  stale_bucket :: bucket_t

definition list_offset :: addr where "list_offset = 24"

definition list_to_pair :: "addr \<Rightarrow> addr" where
  "list_to_pair l = l - list_offset"

definition pair_list :: "addr \<Rightarrow> addr" where
  "pair_list p = p + list_offset"

text \<open>The address of the list head embedded in the table.\<close>

definition head :: "addr \<Rightarrow> addr" where
  "head t = t + list_offset"

subsection \<open>The list primitives\<close>

definition set_next :: "addr \<Rightarrow> addr \<Rightarrow> ht_heap \<Rightarrow> ht_heap option" where
  "set_next l v h = do {
     n \<leftarrow> lists h l;
     Some (h\<lparr>lists := (lists h)(l \<mapsto> n\<lparr>next := v\<rparr>)\<rparr>)
   }"

definition set_prev :: "addr \<Rightarrow> addr \<Rightarrow> ht_heap \<Rightarrow> ht_heap option" where
  "set_prev l v h = do {
     n \<leftarrow> lists h l;
     Some (h\<lparr>lists := (lists h)(l \<mapsto> n\<lparr>prev := v\<rparr>)\<rparr>)
   }"

definition get_next :: "ht_heap \<Rightarrow> addr \<Rightarrow> addr option" where
  "get_next h l = map_option next (lists h l)"

definition get_prev :: "ht_heap \<Rightarrow> addr \<Rightarrow> addr option" where
  "get_prev h l = map_option prev (lists h l)"

definition list_init :: "addr \<Rightarrow> ht_heap \<Rightarrow> ht_heap" where
  "list_init l h = h\<lparr>lists := (lists h)(l \<mapsto> \<lparr>prev = l, next = l\<rparr>)\<rparr>"

definition list_insert :: "addr \<Rightarrow> addr \<Rightarrow> ht_heap \<Rightarrow> ht_heap option" where
  "list_insert l node h = do {
     h1 \<leftarrow> set_next node l h;
     lp \<leftarrow> get_prev h1 l;
     h2 \<leftarrow> set_prev node lp h1;
     lp2 \<leftarrow> get_prev h2 l;
     h3 \<leftarrow> set_next lp2 node h2;
     set_prev l node h3
   }"

definition list_remove :: "addr \<Rightarrow> ht_heap \<Rightarrow> ht_heap option" where
  "list_remove l h = do {
     lp \<leftarrow> get_prev h l;
     ln \<leftarrow> get_next h l;
     h1 \<leftarrow> set_next lp ln h;
     ln2 \<leftarrow> get_next h1 l;
     lp2 \<leftarrow> get_prev h1 l;
     set_prev ln2 lp2 h1
   }"

subsection \<open>Buckets\<close>

definition primes :: "size_t list" where
  "primes = [5, 13, 23, 53, 97,
     193, 389, 769, 1543, 3079,
     6151, 12289, 24593, 49157, 98317,
     196613, 393241, 786433, 1572869, 3145739,
     6291469, 12582917, 25165843, 50331653, 100663319,
     201326611, 402653189, 805306457, 1610612741]"

text \<open>\<open>primes[hashtable->num_buckets]\<close>: undefined past the end of the array.\<close>

definition num_buckets :: "nc_hashtable \<Rightarrow> size_t option" where
  "num_buckets T =
     (if unat (num_ix T) < length primes then Some (primes ! unat (num_ix T)) else None)"

text \<open>A bucket pointer is an index into the array; indexing from the null pointer is undefined.\<close>

definition get_bucket :: "nc_hashtable \<Rightarrow> size_t \<Rightarrow> ht_heap \<Rightarrow> bucket_t option" where
  "get_bucket T i h = do {
     require (buckets T \<noteq> NULL);
     bs \<leftarrow> arrs h (buckets T);
     if unat i < length bs then Some (bs ! unat i) else None
   }"

definition set_bucket :: "nc_hashtable \<Rightarrow> size_t \<Rightarrow> bucket_t \<Rightarrow> ht_heap \<Rightarrow> ht_heap option" where
  "set_bucket T i b h = do {
     require (buckets T \<noteq> NULL);
     bs \<leftarrow> arrs h (buckets T);
     if unat i < length bs then Some (h\<lparr>arrs := (arrs h)(buckets T \<mapsto> bs[unat i := b])\<rparr>) else None
   }"

definition bucket_is_empty :: "addr \<Rightarrow> bucket_t \<Rightarrow> bool" where
  "bucket_is_empty t b \<longleftrightarrow> b_first b = head t \<and> b_first b = b_last b"

definition insert_to_bucket :: "addr \<Rightarrow> nc_hashtable \<Rightarrow> size_t \<Rightarrow> addr \<Rightarrow> ht_heap \<Rightarrow> ht_heap option" where
  "insert_to_bucket t T i l h = do {
     b \<leftarrow> get_bucket T i h;
     if bucket_is_empty t b then do {
       h1 \<leftarrow> list_insert (head t) l h;
       set_bucket T i \<lparr>b_first = l, b_last = l\<rparr> h1
     } else do {
       h1 \<leftarrow> list_insert (b_first b) l h;
       set_bucket T i (b\<lparr>b_first := l\<rparr>) h1
     }
   }"

text \<open>
  The loop of \<open>hashtable_find_pair\<close>; the null pointer is \<open>NULL\<close>, and a list that never reaches
  the bucket's last node would not return.
\<close>

partial_function (option) find_loop ::
  "nc_hashtable \<Rightarrow> addr \<Rightarrow> addr \<Rightarrow> size_t \<Rightarrow> ht_heap \<Rightarrow> addr \<Rightarrow> addr option" where
  "find_loop T lst k hv h l =
     (case pairs h (list_to_pair l) of
        None \<Rightarrow> None
      | Some p \<Rightarrow>
          if hash p = hv \<and> cmp_keys T (key p) k then Some (list_to_pair l)
          else if l = lst then Some NULL
          else Option.bind (get_next h l) (\<lambda>l'. find_loop T lst k hv h l'))"

definition hashtable_find_pair ::
  "addr \<Rightarrow> nc_hashtable \<Rightarrow> bucket_t \<Rightarrow> addr \<Rightarrow> size_t \<Rightarrow> ht_heap \<Rightarrow> addr option" where
  "hashtable_find_pair t T b k hv h =
     (if bucket_is_empty t b then Some NULL else find_loop T (b_last b) k hv h (b_first b))"

definition sizeof_pair :: size_t where "sizeof_pair = 40"
definition sizeof_bucket :: size_t where "sizeof_bucket = 16"
definition sizeof_table :: size_t where "sizeof_table = 72"

text \<open>Freeing a pair ends its lifetime and that of the list node inside it.\<close>

definition free_pair :: "addr \<Rightarrow> ht_heap \<Rightarrow> ht_heap option" where
  "free_pair p h = do {
     h1 \<leftarrow> nc_free p h;
     Some (h1\<lparr>pairs := (pairs h1)(p := None), lists := (lists h1)(pair_list p := None)\<rparr>)
   }"

definition call_free_key :: "nc_hashtable \<Rightarrow> addr \<Rightarrow> ht_heap \<Rightarrow> ht_heap" where
  "call_free_key T k h = (if free_key T then h\<lparr>calls := calls h @ [FreeKey k]\<rparr> else h)"

definition call_free_value :: "nc_hashtable \<Rightarrow> addr \<Rightarrow> ht_heap \<Rightarrow> ht_heap" where
  "call_free_value T v h = (if free_value T then h\<lparr>calls := calls h @ [FreeValue v]\<rparr> else h)"

definition put_table :: "addr \<Rightarrow> nc_hashtable \<Rightarrow> ht_heap \<Rightarrow> ht_heap" where
  "put_table t T h = h\<lparr>tables := (tables h)(t \<mapsto> T)\<rparr>"

subsection \<open>Removal, clearing and rehashing\<close>

text \<open>\<open>buckets[i].first = buckets[i].last = &hashtable->list\<close> for \<open>i = 0 .. n - 1\<close>.\<close>

primrec fill_buckets :: "addr \<Rightarrow> nc_hashtable \<Rightarrow> nat \<Rightarrow> ht_heap \<Rightarrow> ht_heap option" where
  "fill_buckets t T 0 h = Some h"
| "fill_buckets t T (Suc i) h = do {
     h1 \<leftarrow> fill_buckets t T i h;
     set_bucket T (of_nat i) \<lparr>b_first = head t, b_last = head t\<rparr> h1
   }"

text \<open>What \<open>hashtable_do_del\<close> does to the bucket that holds the pair.\<close>

definition unlink_bucket :: "addr \<Rightarrow> nc_hashtable \<Rightarrow> size_t \<Rightarrow> addr \<Rightarrow> ht_heap \<Rightarrow> ht_heap option" where
  "unlink_bucket t T i l h = do {
     b \<leftarrow> get_bucket T i h;
     if l = b_first b \<and> l = b_last b then set_bucket T i \<lparr>b_first = head t, b_last = head t\<rparr> h
     else if l = b_first b then do {
       nx \<leftarrow> get_next h l;
       set_bucket T i (b\<lparr>b_first := nx\<rparr>) h
     } else if l = b_last b then do {
       pv \<leftarrow> get_prev h l;
       set_bucket T i (b\<lparr>b_last := pv\<rparr>) h
     } else Some h
   }"

definition hashtable_do_del :: "addr \<Rightarrow> addr \<Rightarrow> size_t \<Rightarrow> ht_heap \<Rightarrow> (int \<times> ht_heap) option" where
  "hashtable_do_del t k hv h = do {
     T \<leftarrow> tables h t;
     nb \<leftarrow> num_buckets T;
     let index = hv mod nb;
     b \<leftarrow> get_bucket T index h;
     p \<leftarrow> hashtable_find_pair t T b k hv h;
     if p = NULL then Some (- 1, h)
     else do {
       h1 \<leftarrow> unlink_bucket t T index (pair_list p) h;
       h2 \<leftarrow> list_remove (pair_list p) h1;
       pr \<leftarrow> pairs h2 p;
       let h3 = call_free_value T (value pr) (call_free_key T (key pr) h2);
       h4 \<leftarrow> free_pair p h3;
       Some (0, put_table t (T\<lparr>ht_size := ht_size T - 1\<rparr>) h4)
     }
   }"

partial_function (option) clear_loop :: "addr \<Rightarrow> nc_hashtable \<Rightarrow> ht_heap \<Rightarrow> addr \<Rightarrow> ht_heap option" where
  "clear_loop t T h l =
     (if l = head t then Some h
      else Option.bind (get_next h l) (\<lambda>nx.
        Option.bind (pairs h (list_to_pair l)) (\<lambda>pr.
        Option.bind (free_pair (list_to_pair l) (call_free_value T (value pr) (call_free_key T (key pr) h)))
          (\<lambda>h1. clear_loop t T h1 nx))))"

definition hashtable_do_clear :: "addr \<Rightarrow> ht_heap \<Rightarrow> ht_heap option" where
  "hashtable_do_clear t h = do {
     T \<leftarrow> tables h t;
     l \<leftarrow> get_next h (head t);
     clear_loop t T h l
   }"

partial_function (option) rehash_loop ::
  "addr \<Rightarrow> nc_hashtable \<Rightarrow> size_t \<Rightarrow> ht_heap \<Rightarrow> addr \<Rightarrow> ht_heap option" where
  "rehash_loop t T new_size h l =
     (if l = head t then Some h
      else Option.bind (get_next h l) (\<lambda>nx.
        Option.bind (pairs h (list_to_pair l)) (\<lambda>pr.
        Option.bind (insert_to_bucket t T (hash pr mod new_size) (pair_list (list_to_pair l)) h)
          (\<lambda>h1. rehash_loop t T new_size h1 nx))))"

definition free_buckets :: "addr \<Rightarrow> nc_hashtable \<Rightarrow> ht_heap \<Rightarrow> ht_heap option" where
  "free_buckets t T h = do {
     h1 \<leftarrow> nc_free (buckets T) h;
     Some (put_table t (T\<lparr>buckets := NULL\<rparr>) (h1\<lparr>arrs := (arrs h1)(buckets T := None)\<rparr>))
   }"

definition hashtable_do_rehash :: "addr \<Rightarrow> ht_heap \<Rightarrow> (int \<times> ht_heap) option" where
  "hashtable_do_rehash t h = do {
     T \<leftarrow> tables h t;
     h1 \<leftarrow> free_buckets t T h;
     let T1 = T\<lparr>buckets := NULL, num_ix := num_ix T + 1\<rparr>;
     new_size \<leftarrow> num_buckets T1;
     let (a, h2) = nc_alloc (new_size * sizeof_bucket) h1;
     let T2 = T1\<lparr>buckets := a\<rparr>;
     let h3 = put_table t T2 h2;
     if a = NULL then Some (- 1, h3)
     else do {
       h4 \<leftarrow> fill_buckets t T2 (unat new_size)
         (h3\<lparr>arrs := (arrs h3)(a \<mapsto> replicate (unat new_size) (stale_bucket h3))\<rparr>);
       l \<leftarrow> get_next h4 (head t);
       h5 \<leftarrow> rehash_loop t T2 new_size (list_init (head t) h4) l;
       Some (0, h5)
     }
   }"

subsection \<open>The public functions\<close>

definition nc_hashtable_init ::
  "addr \<Rightarrow> (addr \<Rightarrow> size_t) \<Rightarrow> (addr \<Rightarrow> addr \<Rightarrow> bool) \<Rightarrow> bool \<Rightarrow> bool \<Rightarrow> ht_heap \<Rightarrow> (int \<times> ht_heap) option" where
  "nc_hashtable_init t hk ck fk fv h = do {
     T \<leftarrow> tables h t;
     let T1 = T\<lparr>ht_size := 0, num_ix := 0\<rparr>;
     nb \<leftarrow> num_buckets T1;
     let (a, h1) = nc_alloc (nb * sizeof_bucket) h;
     let T2 = T1\<lparr>buckets := a\<rparr>;
     if a = NULL then Some (- 1, put_table t T2 h1)
     else do {
       let T3 = T2\<lparr>hash_key := hk, cmp_keys := ck, free_key := fk, free_value := fv\<rparr>;
       let h2 = put_table t T3 (list_init (head t) h1);
       h3 \<leftarrow> fill_buckets t T3 (unat nb)
         (h2\<lparr>arrs := (arrs h2)(a \<mapsto> replicate (unat nb) (stale_bucket h2))\<rparr>);
       Some (0, h3)
     }
   }"

text \<open>Freeing the table ends the lifetime of its embedded list head.\<close>

definition free_table :: "addr \<Rightarrow> ht_heap \<Rightarrow> ht_heap option" where
  "free_table t h = do {
     h1 \<leftarrow> nc_free t h;
     Some (h1\<lparr>tables := (tables h1)(t := None), lists := (lists h1)(head t := None)\<rparr>)
   }"

definition nc_hashtable_create ::
  "(addr \<Rightarrow> size_t) \<Rightarrow> (addr \<Rightarrow> addr \<Rightarrow> bool) \<Rightarrow> bool \<Rightarrow> bool \<Rightarrow> ht_heap \<Rightarrow> (addr \<times> ht_heap) option" where
  "nc_hashtable_create hk ck fk fv h =
     (let (t, h1) = nc_alloc sizeof_table h in
      if t = NULL then Some (NULL, h1)
      else do {
        (rc, h2) \<leftarrow> nc_hashtable_init t hk ck fk fv (put_table t (stale_table h1) h1);
        if rc \<noteq> 0 then do { h3 \<leftarrow> free_table t h2; Some (NULL, h3) }
        else Some (t, h2)
      })"

definition nc_hashtable_deinit :: "addr \<Rightarrow> ht_heap \<Rightarrow> ht_heap option" where
  "nc_hashtable_deinit t h = do {
     h1 \<leftarrow> hashtable_do_clear t h;
     T \<leftarrow> tables h1 t;
     free_buckets t T h1
   }"

definition nc_hashtable_destroy :: "addr \<Rightarrow> ht_heap \<Rightarrow> ht_heap option" where
  "nc_hashtable_destroy t h = do {
     h1 \<leftarrow> nc_hashtable_deinit t h;
     free_table t h1
   }"

text \<open>The part of \<open>nc_hashtable_set\<close> that follows the rehash.\<close>

definition set_pair :: "addr \<Rightarrow> addr \<Rightarrow> addr \<Rightarrow> ht_heap \<Rightarrow> (int \<times> ht_heap) option" where
  "set_pair t k v h1 = do {
     T \<leftarrow> tables h1 t;
     let hv = hash_key T k;
     nb \<leftarrow> num_buckets T;
     let index = hv mod nb;
     b \<leftarrow> get_bucket T index h1;
     p \<leftarrow> hashtable_find_pair t T b k hv h1;
     if p \<noteq> NULL then do {
       let h2 = call_free_key T k h1;
       pr \<leftarrow> pairs h2 p;
       let h3 = call_free_value T (value pr) h2;
       Some (0, h3\<lparr>pairs := (pairs h3)(p \<mapsto> pr\<lparr>value := v\<rparr>)\<rparr>)
     } else do {
       let (q, h2) = nc_alloc sizeof_pair h1;
       if q = NULL then Some (- 1, h2)
       else do {
         let h3 = h2\<lparr>pairs := (pairs h2)(q \<mapsto> \<lparr>key = k, value = v, hash = hv\<rparr>)\<rparr>;
         h4 \<leftarrow> insert_to_bucket t T index (pair_list q) (list_init (pair_list q) h3);
         Some (0, put_table t (T\<lparr>ht_size := ht_size T + 1\<rparr>) h4)
       }
     }
   }"

definition nc_hashtable_set :: "addr \<Rightarrow> addr \<Rightarrow> addr \<Rightarrow> ht_heap \<Rightarrow> (int \<times> ht_heap) option" where
  "nc_hashtable_set t k v h = do {
     T0 \<leftarrow> tables h t;
     nb0 \<leftarrow> num_buckets T0;
     (rc, h1) \<leftarrow> (if ht_size T0 \<ge> nb0 then hashtable_do_rehash t h else Some (0, h));
     if rc \<noteq> 0 then Some (- 1, h1) else set_pair t k v h1
   }"

definition lookup_pair :: "addr \<Rightarrow> addr \<Rightarrow> ht_heap \<Rightarrow> addr option" where
  "lookup_pair t k h = do {
     T \<leftarrow> tables h t;
     let hv = hash_key T k;
     nb \<leftarrow> num_buckets T;
     b \<leftarrow> get_bucket T (hv mod nb) h;
     hashtable_find_pair t T b k hv h
   }"

definition nc_hashtable_get :: "addr \<Rightarrow> addr \<Rightarrow> ht_heap \<Rightarrow> addr option" where
  "nc_hashtable_get t k h = do {
     p \<leftarrow> lookup_pair t k h;
     if p = NULL then Some NULL
     else do { pr \<leftarrow> pairs h p; Some (value pr) }
   }"

definition nc_hashtable_del :: "addr \<Rightarrow> addr \<Rightarrow> ht_heap \<Rightarrow> (int \<times> ht_heap) option" where
  "nc_hashtable_del t k h = do {
     T \<leftarrow> tables h t;
     hashtable_do_del t k (hash_key T k) h
   }"

definition nc_hashtable_clear :: "addr \<Rightarrow> ht_heap \<Rightarrow> ht_heap option" where
  "nc_hashtable_clear t h = do {
     h1 \<leftarrow> hashtable_do_clear t h;
     T \<leftarrow> tables h1 t;
     nb \<leftarrow> num_buckets T;
     h2 \<leftarrow> fill_buckets t T (unat nb) h1;
     Some (put_table t (T\<lparr>ht_size := 0\<rparr>) (list_init (head t) h2))
   }"

subsection \<open>Iterators\<close>

definition nc_hashtable_iter_next :: "addr \<Rightarrow> addr \<Rightarrow> ht_heap \<Rightarrow> addr option" where
  "nc_hashtable_iter_next t it h = do {
     nx \<leftarrow> get_next h it;
     if nx = head t then Some NULL else Some nx
   }"

definition nc_hashtable_iter :: "addr \<Rightarrow> ht_heap \<Rightarrow> addr option" where
  "nc_hashtable_iter t h = nc_hashtable_iter_next t (head t) h"

definition nc_hashtable_iter_at :: "addr \<Rightarrow> addr \<Rightarrow> ht_heap \<Rightarrow> addr option" where
  "nc_hashtable_iter_at t k h = do {
     p \<leftarrow> lookup_pair t k h;
     if p = NULL then Some NULL else Some (pair_list p)
   }"

definition nc_hashtable_iter_key :: "addr \<Rightarrow> ht_heap \<Rightarrow> addr option" where
  "nc_hashtable_iter_key it h = do { pr \<leftarrow> pairs h (list_to_pair it); Some (key pr) }"

definition nc_hashtable_iter_value :: "addr \<Rightarrow> ht_heap \<Rightarrow> addr option" where
  "nc_hashtable_iter_value it h = do { pr \<leftarrow> pairs h (list_to_pair it); Some (value pr) }"

definition nc_hashtable_iter_set :: "addr \<Rightarrow> addr \<Rightarrow> addr \<Rightarrow> ht_heap \<Rightarrow> ht_heap option" where
  "nc_hashtable_iter_set t it v h = do {
     T \<leftarrow> tables h t;
     pr \<leftarrow> pairs h (list_to_pair it);
     let h1 = call_free_value T (value pr) h;
     Some (h1\<lparr>pairs := (pairs h1)(list_to_pair it \<mapsto> pr\<lparr>value := v\<rparr>)\<rparr>)
   }"

subsection \<open>The list primitives on a ring\<close>

abbreviation hring :: "ht_heap \<Rightarrow> addr \<Rightarrow> addr list \<Rightarrow> bool" where
  "hring h a ns \<equiv> ring (get_next h) (get_prev h) a ns"

lemma get_next_None: "get_next h l = None \<longleftrightarrow> lists h l = None"
  and get_prev_None: "get_prev h l = None \<longleftrightarrow> lists h l = None"
  by (simp_all add: get_next_def get_prev_def)

lemma get_lists_cong:
  "lists h = lists h' \<Longrightarrow> get_next h = get_next h' \<and> get_prev h = get_prev h'"
  by (simp add: get_next_def get_prev_def fun_eq_iff)

lemma set_next_Some:
  assumes "lists h l \<noteq> None"
  shows "\<exists>L. set_next l v h = Some (h\<lparr>lists := L\<rparr>) \<and> (\<forall>z. L z = None \<longleftrightarrow> lists h z = None) \<and>
    get_next (h\<lparr>lists := L\<rparr>) = (get_next h)(l \<mapsto> v) \<and> get_prev (h\<lparr>lists := L\<rparr>) = get_prev h \<and>
    (\<forall>z. z \<noteq> l \<longrightarrow> L z = lists h z)"
proof -
  obtain n where "lists h l = Some n"
    using assms by blast
  then show ?thesis
    by (intro exI [of _ "(lists h)(l \<mapsto> n\<lparr>next := v\<rparr>)"])
      (auto simp: set_next_def get_next_def get_prev_def)
qed

lemma set_prev_Some:
  assumes "lists h l \<noteq> None"
  shows "\<exists>L. set_prev l v h = Some (h\<lparr>lists := L\<rparr>) \<and> (\<forall>z. L z = None \<longleftrightarrow> lists h z = None) \<and>
    get_prev (h\<lparr>lists := L\<rparr>) = (get_prev h)(l \<mapsto> v) \<and> get_next (h\<lparr>lists := L\<rparr>) = get_next h \<and>
    (\<forall>z. z \<noteq> l \<longrightarrow> L z = lists h z)"
proof -
  obtain n where "lists h l = Some n"
    using assms by blast
  then show ?thesis
    by (intro exI [of _ "(lists h)(l \<mapsto> n\<lparr>prev := v\<rparr>)"])
      (auto simp: set_prev_def get_next_def get_prev_def)
qed

lemma list_insert_ring:
  assumes "hring h hd0 (as @ bs)" "n \<notin> set (hd0 # as @ bs)" "lists h n \<noteq> None"
  obtains L where "list_insert (hd (bs @ [hd0])) n h = Some (h\<lparr>lists := L\<rparr>)"
    "hring (h\<lparr>lists := L\<rparr>) hd0 (as @ n # bs)"
    "\<And>z. z \<notin> set (hd0 # as @ n # bs) \<Longrightarrow> L z = lists h z"
proof -
  define l where "l = hd (bs @ [hd0])"
  define p where "p = last (hd0 # as)"
  note ins = ring_insert [OF assms(1,2), folded l_def p_def]
  have mem: "p \<in> set (hd0 # as)" "l \<in> set (bs @ [hd0])"
    unfolding p_def l_def by (rule last_in_set hd_in_set, simp)+
  then have d: "lists h p \<noteq> None" "lists h l \<noteq> None" "n \<noteq> l" "n \<noteq> p"
    using ring_dom [OF assms(1)] assms(2) by (auto simp: get_next_None)
  obtain L1 where L1: "set_next n l h = Some (h\<lparr>lists := L1\<rparr>)" "\<forall>z. L1 z = None \<longleftrightarrow> lists h z = None"
    "get_next (h\<lparr>lists := L1\<rparr>) = (get_next h)(n \<mapsto> l)" "get_prev (h\<lparr>lists := L1\<rparr>) = get_prev h"
    "\<forall>z. z \<noteq> n \<longrightarrow> L1 z = lists h z"
    using set_next_Some [OF assms(3), of l] by blast
  obtain L2 where L2: "set_prev n p (h\<lparr>lists := L1\<rparr>) = Some (h\<lparr>lists := L2\<rparr>)" "\<forall>z. L2 z = None \<longleftrightarrow> L1 z = None"
    "get_prev (h\<lparr>lists := L2\<rparr>) = (get_prev (h\<lparr>lists := L1\<rparr>))(n \<mapsto> p)"
    "get_next (h\<lparr>lists := L2\<rparr>) = get_next (h\<lparr>lists := L1\<rparr>)" "\<forall>z. z \<noteq> n \<longrightarrow> L2 z = L1 z"
    using set_prev_Some [of "h\<lparr>lists := L1\<rparr>" n p] assms(3) L1(2) by auto
  obtain L3 where L3: "set_next p n (h\<lparr>lists := L2\<rparr>) = Some (h\<lparr>lists := L3\<rparr>)" "\<forall>z. L3 z = None \<longleftrightarrow> L2 z = None"
    "get_next (h\<lparr>lists := L3\<rparr>) = (get_next (h\<lparr>lists := L2\<rparr>))(p \<mapsto> n)"
    "get_prev (h\<lparr>lists := L3\<rparr>) = get_prev (h\<lparr>lists := L2\<rparr>)" "\<forall>z. z \<noteq> p \<longrightarrow> L3 z = L2 z"
    using set_next_Some [of "h\<lparr>lists := L2\<rparr>" p n] d L1(2) L2(2) by auto
  obtain L4 where L4: "set_prev l n (h\<lparr>lists := L3\<rparr>) = Some (h\<lparr>lists := L4\<rparr>)"
    "get_prev (h\<lparr>lists := L4\<rparr>) = (get_prev (h\<lparr>lists := L3\<rparr>))(l \<mapsto> n)"
    "get_next (h\<lparr>lists := L4\<rparr>) = get_next (h\<lparr>lists := L3\<rparr>)" "\<forall>z. z \<noteq> l \<longrightarrow> L4 z = L3 z"
    using set_prev_Some [of "h\<lparr>lists := L3\<rparr>" l n] d L1(2) L2(2) L3(2) by auto
  have "list_insert l n h = Some (h\<lparr>lists := L4\<rparr>)"
    using L1 L2 L3 L4 ins(1) d by (simp add: list_insert_def)
  moreover have "hring (h\<lparr>lists := L4\<rparr>) hd0 (as @ n # bs)"
    using ins(2) by (simp add: L1 L2 L3 L4)
  moreover have "L4 z = lists h z" if "z \<notin> set (hd0 # as @ n # bs)" for z
  proof -
    have "z \<noteq> n" "z \<noteq> p" "z \<noteq> l"
      using that mem by auto
    then show ?thesis
      using L1(5) L2(5) L3(5) L4(4) by simp
  qed
  ultimately show thesis
    unfolding l_def by (rule that)
qed

lemma list_remove_ring:
  assumes "hring h hd0 (as @ n # bs)"
  obtains L where "list_remove n h = Some (h\<lparr>lists := L\<rparr>)" "hring (h\<lparr>lists := L\<rparr>) hd0 (as @ bs)"
    "\<And>z. z \<notin> set (hd0 # as @ bs) \<Longrightarrow> L z = lists h z"
proof -
  define l where "l = hd (bs @ [hd0])"
  define p where "p = last (hd0 # as)"
  note rem = ring_remove [OF assms, folded l_def p_def]
  have mem: "p \<in> set (hd0 # as)" "l \<in> set (bs @ [hd0])"
    unfolding p_def l_def by (rule last_in_set hd_in_set, simp)+
  moreover have "distinct (hd0 # as @ n # bs)"
    using assms by (simp add: ring_def)
  ultimately have d: "lists h p \<noteq> None" "lists h l \<noteq> None" "n \<noteq> l" "n \<noteq> p"
    using ring_dom [OF assms] by (auto simp: get_next_None)
  obtain L1 where L1: "set_next p l h = Some (h\<lparr>lists := L1\<rparr>)" "\<forall>z. L1 z = None \<longleftrightarrow> lists h z = None"
    "get_next (h\<lparr>lists := L1\<rparr>) = (get_next h)(p \<mapsto> l)" "get_prev (h\<lparr>lists := L1\<rparr>) = get_prev h"
    "\<forall>z. z \<noteq> p \<longrightarrow> L1 z = lists h z"
    using set_next_Some [OF d(1), of l] by blast
  obtain L2 where L2: "set_prev l p (h\<lparr>lists := L1\<rparr>) = Some (h\<lparr>lists := L2\<rparr>)"
    "get_prev (h\<lparr>lists := L2\<rparr>) = (get_prev (h\<lparr>lists := L1\<rparr>))(l \<mapsto> p)"
    "get_next (h\<lparr>lists := L2\<rparr>) = get_next (h\<lparr>lists := L1\<rparr>)" "\<forall>z. z \<noteq> l \<longrightarrow> L2 z = L1 z"
    using set_prev_Some [of "h\<lparr>lists := L1\<rparr>" l p] d L1(2) by auto
  have "list_remove n h = Some (h\<lparr>lists := L2\<rparr>)"
    using L1 L2 rem(1,2) d by (simp add: list_remove_def)
  moreover have "hring (h\<lparr>lists := L2\<rparr>) hd0 (as @ bs)"
    using rem(3) by (simp add: L1 L2)
  moreover have "L2 z = lists h z" if "z \<notin> set (hd0 # as @ bs)" for z
  proof -
    have "z \<noteq> p" "z \<noteq> l"
      using that mem by auto
    then show ?thesis
      using L1(5) L2(4) by simp
  qed
  ultimately show thesis
    using that [of L2] by blast
qed

subsection \<open>What a bucket array says about the ring\<close>

definition hash_at :: "ht_heap \<Rightarrow> addr \<Rightarrow> size_t" where
  "hash_at h n = (case pairs h (list_to_pair n) of None \<Rightarrow> 0 | Some p \<Rightarrow> hash p)"

definition in_bucket :: "size_t \<Rightarrow> ht_heap \<Rightarrow> size_t \<Rightarrow> addr \<Rightarrow> bool" where
  "in_bucket nb h i n \<longleftrightarrow> hash_at h n mod nb = i"

definition bucket_ok :: "addr \<Rightarrow> size_t \<Rightarrow> ht_heap \<Rightarrow> addr list \<Rightarrow> size_t \<Rightarrow> bucket_t \<Rightarrow> bool" where
  "bucket_ok t nb h ns i b \<longleftrightarrow> contig (in_bucket nb h i) ns \<and>
     (let S = filter (in_bucket nb h i) ns in
      if S = [] then b = \<lparr>b_first = head t, b_last = head t\<rparr>
      else b_first b = hd S \<and> b_last b = last S)"

definition buckets_ok :: "addr \<Rightarrow> nc_hashtable \<Rightarrow> size_t \<Rightarrow> ht_heap \<Rightarrow> addr list \<Rightarrow> bool" where
  "buckets_ok t T nb h ns \<longleftrightarrow>
     buckets T \<noteq> NULL \<and>
     (\<exists>bs. arrs h (buckets T) = Some bs \<and> length bs = unat nb \<and>
       (\<forall>i < nb. bucket_ok t nb h ns i (bs ! unat i)))"

lemma in_bucket_cong: "pairs h' = pairs h \<Longrightarrow> in_bucket nb h' = in_bucket nb h"
  by (simp add: in_bucket_def hash_at_def fun_eq_iff)

lemma bucket_ok_cong: "pairs h' = pairs h \<Longrightarrow> bucket_ok t nb h' = bucket_ok t nb h"
  using in_bucket_cong [of h' h nb] by (intro ext) (simp only: bucket_ok_def)

lemma bucket_is_empty_iff:
  assumes "bucket_ok t nb h ns i b" "head t \<notin> set ns"
  shows "bucket_is_empty t b \<longleftrightarrow> filter (in_bucket nb h i) ns = []"
proof (cases "filter (in_bucket nb h i) ns = []")
  case True
  then show ?thesis
    using assms(1) by (simp add: bucket_ok_def bucket_is_empty_def)
next
  case False
  then have "b_first b \<in> set ns"
    using assms(1) hd_in_set [OF False] by (simp add: bucket_ok_def Let_def)
  then show ?thesis
    using False assms(2) by (auto simp: bucket_is_empty_def)
qed

lemma get_bucket_ok:
  assumes "buckets_ok t T nb h ns" "i < nb"
  obtains b where "get_bucket T i h = Some b" "bucket_ok t nb h ns i b"
  using assms by (auto simp: buckets_ok_def get_bucket_def word_less_nat_alt)

text \<open>Writing one bucket: the others keep their meaning when their class is not touched.\<close>

lemma set_bucket_ok:
  assumes "buckets_ok t T nb h0 ns" "i < nb" "arrs h = arrs h0" "pairs h = pairs h0"
    and "bucket_ok t nb h0 ns' i b"
    and "\<And>j c. j < nb \<Longrightarrow> j \<noteq> i \<Longrightarrow> bucket_ok t nb h0 ns j c \<Longrightarrow> bucket_ok t nb h0 ns' j c"
  obtains bs where "set_bucket T i b h = Some (h\<lparr>arrs := (arrs h)(buckets T \<mapsto> bs)\<rparr>)"
    "buckets_ok t T nb (h\<lparr>arrs := (arrs h)(buckets T \<mapsto> bs)\<rparr>) ns'"
proof -
  obtain bs where bs: "buckets T \<noteq> NULL" "arrs h0 (buckets T) = Some bs" "length bs = unat nb"
    "\<forall>j < nb. bucket_ok t nb h0 ns j (bs ! unat j)"
    using assms(1) by (auto simp: buckets_ok_def)
  let ?h = "h\<lparr>arrs := (arrs h)(buckets T \<mapsto> bs[unat i := b])\<rparr>"
  have "bucket_ok t nb h0 ns' j (bs[unat i := b] ! unat j)" if "j < nb" for j
  proof (cases "j = i")
    case True
    then show ?thesis
      using assms(2,5) bs(3) by (simp add: word_less_nat_alt)
  next
    case False
    then have "unat j \<noteq> unat i"
      by (simp add: word_unat_eq_iff)
    then show ?thesis
      using assms(6) [OF that False] bs(4) that by simp
  qed
  then have "buckets_ok t T nb ?h ns'"
    using bs assms(4) bucket_ok_cong [of ?h h0 t nb] by (simp add: buckets_ok_def)
  then show thesis
    using that [of "bs[unat i := b]"] bs assms(2,3) by (simp add: set_bucket_def word_less_nat_alt)
qed

lemma in_bucket_disjoint: "i \<noteq> j \<Longrightarrow> in_bucket nb h i n \<Longrightarrow> \<not> in_bucket nb h j n"
  by (simp add: in_bucket_def)

lemma insert_to_bucket_ok:
  assumes ring: "hring h (head t) ns" and bk: "buckets_ok t T nb h ns"
    and n: "n \<notin> set (head t # ns)" "lists h n \<noteq> None"
    and i: "i = hash_at h n mod nb" "i < nb"
  defines "ns' \<equiv> insert_class (in_bucket nb h i) n ns"
  obtains L bs where "insert_to_bucket t T i n h =
      Some (h\<lparr>lists := L, arrs := (arrs h)(buckets T \<mapsto> bs)\<rparr>)"
    "hring (h\<lparr>lists := L, arrs := (arrs h)(buckets T \<mapsto> bs)\<rparr>) (head t) ns'"
    "buckets_ok t T nb (h\<lparr>lists := L, arrs := (arrs h)(buckets T \<mapsto> bs)\<rparr>) ns'"
    "\<And>z. z \<notin> set (head t # ns') \<Longrightarrow> L z = lists h z"
proof -
  let ?P = "in_bucket nb h i"
  define as where "as = takeWhile (Not \<circ> ?P) ns"
  define bs0 where "bs0 = dropWhile (Not \<circ> ?P) ns"
  have ns: "ns = as @ bs0" "ns' = as @ n # bs0"
    by (simp_all add: as_def bs0_def ns'_def insert_class_def)
  have Pn: "?P n"
    using i(1) by (simp add: in_bucket_def)
  have hd0: "head t \<notin> set ns"
    using ring by (simp add: ring_def)
  obtain b where b: "get_bucket T i h = Some b" "bucket_ok t nb h ns i b"
    using get_bucket_ok [OF bk i(2)] by blast
  have "filter ?P ns' = n # filter ?P ns" "contig ?P ns'"
    using b(2) Pn by (simp_all add: ns'_def filter_insert_same contig_insert_same bucket_ok_def)
  then have own: "bucket_ok t nb h ns' i c"
    if "b_first c = n" "b_last c = (if filter ?P ns = [] then n else b_last b)" for c
    using that b(2) by (auto simp: bucket_ok_def Let_def split: if_splits)
  have other: "bucket_ok t nb h ns' j c" if "j \<noteq> i" "bucket_ok t nb h ns j c" for j c
  proof -
    have d: "\<not> in_bucket nb h j n" "\<And>x. ?P x \<Longrightarrow> \<not> in_bucket nb h j x"
      using Pn that(1) by (auto simp: in_bucket_def)
    then show ?thesis
      using that(2) contig_insert_other [of "in_bucket nb h j" n ?P ns, OF d]
      by (simp add: bucket_ok_def ns'_def filter_insert_other)
  qed
  obtain L where L: "list_insert (hd (bs0 @ [head t])) n h = Some (h\<lparr>lists := L\<rparr>)"
    "hring (h\<lparr>lists := L\<rparr>) (head t) ns'"
    "\<And>z. z \<notin> set (head t # ns') \<Longrightarrow> L z = lists h z"
    using list_insert_ring [of h "head t" as bs0 n] ring n unfolding ns by blast
  define c where "c = (if bucket_is_empty t b then \<lparr>b_first = n, b_last = n\<rparr> else b\<lparr>b_first := n\<rparr>)"
  have "bucket_ok t nb h ns' i c"
    using bucket_is_empty_iff [OF b(2) hd0] by (intro own) (simp_all add: c_def)
  then obtain bs where bs: "set_bucket T i c (h\<lparr>lists := L\<rparr>) =
      Some (h\<lparr>lists := L, arrs := (arrs h)(buckets T \<mapsto> bs)\<rparr>)"
    "buckets_ok t T nb (h\<lparr>lists := L, arrs := (arrs h)(buckets T \<mapsto> bs)\<rparr>) ns'"
    using set_bucket_ok [OF bk i(2), of "h\<lparr>lists := L\<rparr>" ns' c] other by auto
  have "hd (bs0 @ [head t]) = (if bucket_is_empty t b then head t else b_first b)"
  proof (cases "filter ?P ns = []")
    case True
    then show ?thesis
      unfolding bs0_def dropWhile_class_Nil [OF True]
      using bucket_is_empty_iff [OF b(2) hd0] by simp
  next
    case False
    then show ?thesis
      using bucket_is_empty_iff [OF b(2) hd0] dropWhile_class_Cons [OF False] b(2)
      by (simp add: bs0_def bucket_ok_def Let_def)
  qed
  then have "insert_to_bucket t T i n h = Some (h\<lparr>lists := L, arrs := (arrs h)(buckets T \<mapsto> bs)\<rparr>)"
    using b(1) L(1) bs(1) by (simp add: insert_to_bucket_def c_def split: if_splits)
  moreover have "hring (h\<lparr>lists := L, arrs := (arrs h)(buckets T \<mapsto> bs)\<rparr>) (head t) ns'"
    using L(2) get_lists_cong [of "h\<lparr>lists := L\<rparr>" "h\<lparr>lists := L, arrs := (arrs h)(buckets T \<mapsto> bs)\<rparr>"]
    by simp
  ultimately show thesis
    using that bs(2) L(3) by blast
qed

subsection \<open>The invariant and the abstract map\<close>

definition entry :: "ht_heap \<Rightarrow> addr \<Rightarrow> addr \<times> addr" where
  "entry h n = (case pairs h (list_to_pair n) of None \<Rightarrow> (NULL, NULL) | Some p \<Rightarrow> (key p, value p))"

definition node_ok :: "nc_hashtable \<Rightarrow> ht_heap \<Rightarrow> addr \<Rightarrow> bool" where
  "node_ok T h n \<longleftrightarrow> block_size h (list_to_pair n) = Some 40 \<and>
     (case pairs h (list_to_pair n) of None \<Rightarrow> False | Some p \<Rightarrow> hash p = hash_key T (key p))"

definition keys_apart :: "nc_hashtable \<Rightarrow> ht_heap \<Rightarrow> addr list \<Rightarrow> bool" where
  "keys_apart T h ns \<longleftrightarrow>
     (\<forall>n \<in> set ns. \<forall>m \<in> set ns. n \<noteq> m \<longrightarrow> \<not> cmp_keys T (fst (entry h n)) (fst (entry h m)))"

text \<open>The nodes are well formed and carry pairwise different keys.\<close>

definition nodes_ok :: "nc_hashtable \<Rightarrow> ht_heap \<Rightarrow> addr list \<Rightarrow> bool" where
  "nodes_ok T h ns \<longleftrightarrow> (\<forall>n \<in> set ns. node_ok T h n) \<and> keys_apart T h ns"

definition ht_inv :: "addr \<Rightarrow> nc_hashtable \<Rightarrow> addr list \<Rightarrow> ht_heap \<Rightarrow> bool" where
  "ht_inv t T ns h \<longleftrightarrow> heap_ok h \<and> tables h t = Some T \<and> block_size h t = Some 72 \<and>
     hring h (head t) ns \<and> nodes_ok T h ns \<and> ht_size T = of_nat (length ns) \<and>
     (\<exists>nb. num_buckets T = Some nb \<and> buckets_ok t T nb h ns \<and>
        block_size h (buckets T) = Some (16 * unat nb) \<and> length ns \<le> unat nb)"

text \<open>
  What the documentation asks of the callbacks: \<open>cmp_keys\<close> decides an equivalence, and equal keys
  have equal hashes.
\<close>

definition callbacks_ok :: "nc_hashtable \<Rightarrow> bool" where
  "callbacks_ok T \<longleftrightarrow> equivp (cmp_keys T) \<and> (\<forall>a b. cmp_keys T a b \<longrightarrow> hash_key T a = hash_key T b)"

text \<open>The table as a map: the value of the node whose key equals the one looked up.\<close>

definition table_map :: "nc_hashtable \<Rightarrow> addr list \<Rightarrow> ht_heap \<Rightarrow> addr \<Rightarrow> addr option" where
  "table_map T ns h k =
     map_option (\<lambda>n. snd (entry h n)) (List.find (\<lambda>n. cmp_keys T (fst (entry h n)) k) ns)"

lemma num_buckets_bounds: "num_buckets T = Some nb \<Longrightarrow> 5 \<le> nb \<and> nb \<le> 1610612741"
proof -
  assume "num_buckets T = Some nb"
  then have "nb \<in> set primes"
    by (auto simp: num_buckets_def split: if_splits)
  then show ?thesis
    by (auto simp: primes_def)
qed

lemma mod_nb_less: "num_buckets T = Some nb \<Longrightarrow> hv mod nb < nb"
proof -
  assume "num_buckets T = Some nb"
  then have "nb \<noteq> 0"
    using num_buckets_bounds [of T nb] by auto
  then show ?thesis
    by (simp add: word_less_nat_alt unat_mod unat_gt_0)
qed

lemma pair_list_inverse [simp]: "list_to_pair (pair_list p) = p" "pair_list (list_to_pair l) = l"
  by (simp_all add: list_to_pair_def pair_list_def)

lemma list_to_pair_eq [simp]: "list_to_pair l = list_to_pair l' \<longleftrightarrow> l = l'"
  by (simp add: list_to_pair_def)

lemma head_pair: "head t = pair_list t"
  by (simp add: head_def pair_list_def)

text \<open>The search loop along a segment.\<close>

definition matches :: "nc_hashtable \<Rightarrow> addr \<Rightarrow> size_t \<Rightarrow> ht_heap \<Rightarrow> addr \<Rightarrow> bool" where
  "matches T k hv h n \<longleftrightarrow>
     (case pairs h (list_to_pair n) of None \<Rightarrow> False | Some p \<Rightarrow> hash p = hv \<and> cmp_keys T (key p) k)"

lemma find_loop_segment:
  assumes "S \<noteq> []" "distinct S" "npath (get_next h) S" "\<forall>n \<in> set S. pairs h (list_to_pair n) \<noteq> None"
  shows "find_loop T (last S) k hv h (hd S) =
    Some (case List.find (matches T k hv h) S of None \<Rightarrow> NULL | Some n \<Rightarrow> list_to_pair n)"
  using assms
proof (induction S rule: induct_list012)
  case (2 x)
  then show ?case
    by (subst find_loop.simps) (auto simp: matches_def)
next
  case (3 x y ys)
  then have "last (x # y # ys) \<noteq> x"
    using last_in_set [of "y # ys"] by auto
  moreover have "find_loop T (last (x # y # ys)) k hv h y =
      Some (case List.find (matches T k hv h) (y # ys) of None \<Rightarrow> NULL | Some n \<Rightarrow> list_to_pair n)"
    using 3 by simp
  ultimately show ?case
    using 3(3-) by (subst find_loop.simps) (auto simp: matches_def)
qed simp

lemma matches_key:
  assumes "callbacks_ok T" "node_ok T h n"
  shows "in_bucket nb h (hash_key T k mod nb) n \<and> matches T k (hash_key T k) h n \<longleftrightarrow>
    cmp_keys T (fst (entry h n)) k"
  using assms
  by (auto simp: in_bucket_def matches_def node_ok_def entry_def hash_at_def callbacks_ok_def split: option.splits)

lemma find_pair_ok:
  assumes "hring h (head t) ns" "buckets_ok t T nb h ns" "nodes_ok T h ns" "callbacks_ok T"
    and "hash_key T k mod nb < nb"
  obtains b where "get_bucket T (hash_key T k mod nb) h = Some b"
    "hashtable_find_pair t T b k (hash_key T k) h =
      Some (case List.find (\<lambda>n. cmp_keys T (fst (entry h n)) k) ns of
              None \<Rightarrow> NULL | Some n \<Rightarrow> list_to_pair n)"
proof -
  let ?i = "hash_key T k mod nb"
  define S where "S = filter (in_bucket nb h ?i) ns"
  obtain b where b: "get_bucket T ?i h = Some b" "bucket_ok t nb h ns ?i b"
    using get_bucket_ok [OF assms(2,5)] by blast
  obtain xs ys where ns: "ns = xs @ S @ ys"
    using b(2) contig_split [of "in_bucket nb h ?i" ns] by (auto simp: bucket_ok_def S_def)
  have dist: "distinct (head t # ns)"
    using assms(1) by (simp add: ring_def)
  have "npath (get_next h) ((head t # xs) @ (S @ ys @ [head t]))"
    using ring_npath [OF assms(1)] by (simp add: ns)
  then have "npath (get_next h) (S @ ys @ [head t])"
    by (rule npath_appendD [THEN conjunct2])
  then have path: "npath (get_next h) S"
    by (rule npath_appendD [THEN conjunct1])
  have S: "distinct S" "head t \<notin> set ns"
    using dist by (simp_all add: S_def)
  have find: "List.find (matches T k (hash_key T k) h) S =
      List.find (\<lambda>n. cmp_keys T (fst (entry h n)) k) ns"
    unfolding find_filter S_def
    by (rule find_cong) (use matches_key [OF assms(4)] assms(3) in \<open>auto simp: nodes_ok_def\<close>)
  have "hashtable_find_pair t T b k (hash_key T k) h =
      Some (case List.find (matches T k (hash_key T k) h) S of None \<Rightarrow> NULL | Some n \<Rightarrow> list_to_pair n)"
  proof (cases "S = []")
    case True
    then show ?thesis
      using bucket_is_empty_iff [OF b(2) S(2)] by (simp add: hashtable_find_pair_def S_def)
  next
    case False
    moreover have "\<forall>n \<in> set S. pairs h (list_to_pair n) \<noteq> None"
      using assms(3) by (auto simp: nodes_ok_def node_ok_def S_def split: option.splits)
    ultimately show ?thesis
      using bucket_is_empty_iff [OF b(2) S(2)] b(2) find_loop_segment [OF False S(1) path]
      by (simp add: hashtable_find_pair_def bucket_ok_def Let_def flip: S_def)
  qed
  then show thesis
    using b(1) that unfolding find by blast
qed

end
