(* ===== verification/Keyed_Map_Spec.thy ===== *)
theory Keyed_Map_Spec
  imports Prelude "HOL-Library.Multiset"
begin

text \<open>
  The contract of a keyed container with an equivalence on the keys: storing may fail, and a
  failure says nothing about the map; everything else acts on the map the container stands for. The
  extended contract \<open>owned_map\<close> adds what the container owes for what it was given, which survives a
  failure, and the destruction that pays it.
\<close>

text \<open>What storing and deleting mean on the map.\<close>

definition map_put :: "('k \<Rightarrow> 'k \<Rightarrow> bool) \<Rightarrow> 'k \<Rightarrow> 'v \<Rightarrow> ('k \<Rightarrow> 'v option) \<Rightarrow> 'k \<Rightarrow> 'v option" where
  "map_put eq k v m = (\<lambda>x. if eq k x then Some v else m x)"

definition map_del :: "('k \<Rightarrow> 'k \<Rightarrow> bool) \<Rightarrow> 'k \<Rightarrow> ('k \<Rightarrow> 'v option) \<Rightarrow> 'k \<Rightarrow> 'v option" where
  "map_del eq k m = (\<lambda>x. if eq k x then None else m x)"

datatype ('k, 'v) map_op = Put 'k 'v | Del 'k

fun run_ops ::
  "('k \<Rightarrow> 'v \<Rightarrow> 'h \<Rightarrow> (bool \<times> 'h) option) \<Rightarrow> ('k \<Rightarrow> 'h \<Rightarrow> (bool \<times> 'h) option) \<Rightarrow>
     ('k, 'v) map_op list \<Rightarrow> 'h \<Rightarrow> (bool \<times> 'h) option" where
  "run_ops put del [] h = Some (True, h)"
| "run_ops put del (Put k v # os) h = do {
     (b, h1) \<leftarrow> put k v h;
     if b then run_ops put del os h1 else Some (False, h1)
   }"
| "run_ops put del (Del k # os) h = do {
     (b, h1) \<leftarrow> del k h;
     run_ops put del os h1
   }"

fun spec_ops :: "('k \<Rightarrow> 'k \<Rightarrow> bool) \<Rightarrow> ('k, 'v) map_op list \<Rightarrow> ('k \<Rightarrow> 'v option) \<Rightarrow> 'k \<Rightarrow> 'v option" where
  "spec_ops eq [] m = m"
| "spec_ops eq (Put k v # os) m = spec_ops eq os (map_put eq k v m)"
| "spec_ops eq (Del k # os) m = spec_ops eq os (map_del eq k m)"

locale keyed_map =
  fixes eq :: "'k \<Rightarrow> 'k \<Rightarrow> bool"
    and put :: "'k \<Rightarrow> 'v \<Rightarrow> 'h \<Rightarrow> (bool \<times> 'h) option"
    and del :: "'k \<Rightarrow> 'h \<Rightarrow> (bool \<times> 'h) option"
    and view :: "'h \<Rightarrow> 'k \<Rightarrow> 'v option"
    and card_of :: "'h \<Rightarrow> nat"
    and wf :: "'h \<Rightarrow> bool"
    and limit :: nat
  assumes put_step: "wf h \<Longrightarrow> card_of h < limit \<Longrightarrow> \<exists>b h'. put k v h = Some (b, h') \<and>
      (b \<longrightarrow> wf h' \<and> view h' = map_put eq k v (view h) \<and> card_of h' \<le> Suc (card_of h))"
    and del_step: "wf h \<Longrightarrow> \<exists>b h'. del k h = Some (b, h') \<and> (b \<longleftrightarrow> view h k \<noteq> None) \<and>
      wf h' \<and> view h' = map_del eq k (view h) \<and> card_of h' \<le> card_of h"
begin

text \<open>A run of operations is defined, and one that succeeds has the effect of the map operations.\<close>

lemma run_ops_spec:
  assumes "wf h" "card_of h + length os \<le> limit"
  shows "\<exists>b h'. run_ops put del os h = Some (b, h') \<and>
    (b \<longrightarrow> wf h' \<and> view h' = spec_ops eq os (view h))"
  using assms
proof (induction os arbitrary: h)
  case Nil
  then show ?case by auto
next
  case (Cons p os)
  show ?case
  proof (cases p)
    case (Put k v)
    obtain b h1 where s: "put k v h = Some (b, h1)"
      "b \<longrightarrow> wf h1 \<and> view h1 = map_put eq k v (view h) \<and> card_of h1 \<le> Suc (card_of h)"
      using put_step [of h k v] Cons.prems by auto
    then show ?thesis
      using Cons.IH [of h1] Cons.prems Put by (cases b) auto
  next
    case (Del k)
    obtain b h1 where s: "del k h = Some (b, h1)" "wf h1" "view h1 = map_del eq k (view h)"
      "card_of h1 \<le> card_of h"
      using del_step [of h k] Cons.prems by auto
    then show ?thesis
      using Cons.IH [of h1] Cons.prems Del by auto
  qed
qed

end

text \<open>A run that does not succeed stops at a store that fails.\<close>

lemma run_ops_append:
  "run_ops put del (ps @ os) h = do {
     (b, h1) \<leftarrow> run_ops put del ps h;
     if b then run_ops put del os h1 else Some (False, h1)
   }"
proof (induction ps arbitrary: h)
  case (Cons p ps)
  then show ?case
    by (cases p) (auto split: bind_split)
qed simp

lemma run_ops_stop:
  assumes "run_ops put del os h = Some (False, h')"
  obtains ps k v rest h1 where "os = ps @ Put k v # rest" "run_ops put del ps h = Some (True, h1)"
    "put k v h1 = Some (False, h')"
  using assms
proof (induction os arbitrary: h thesis)
  case (Cons p os)
  show ?case
  proof (cases p)
    case (Put k v)
    then obtain b h2 where p: "put k v h = Some (b, h2)" "if b then run_ops put del os h2 = Some (False, h') else h2 = h'"
      using Cons.prems(2) by (auto simp: bind_eq_Some_conv split: if_splits)
    show ?thesis
    proof (cases b)
      case True
      with p have "run_ops put del os h2 = Some (False, h')"
        by simp
      then obtain ps k' v' rest h1 where "os = ps @ Put k' v' # rest" "run_ops put del ps h2 = Some (True, h1)"
        "put k' v' h1 = Some (False, h')"
        by (rule Cons.IH [rotated])
      then show ?thesis
        using Cons.prems(1) [of "p # ps" k' v' rest h1] p(1) True Put by simp
    next
      case False
      then show ?thesis
        using Cons.prems(1) [of "[]" k v os h] p Put by simp
    qed
  next
    case (Del k)
    then obtain b h2 where p: "del k h = Some (b, h2)" "run_ops put del os h2 = Some (False, h')"
      using Cons.prems(2) by (auto simp: bind_eq_Some_conv)
    then obtain ps k' v' rest h1 where "os = ps @ Put k' v' # rest" "run_ops put del ps h2 = Some (True, h1)"
      "put k' v' h1 = Some (False, h')"
      using Cons.IH by metis
    then show ?thesis
      using Cons.prems(1) [of "p # ps" k' v' rest h1] p(1) Del by simp
  qed
qed simp

text \<open>What a run hands over: one entry for each store.\<close>

fun dues :: "('k \<Rightarrow> 'v \<Rightarrow> 'c multiset) \<Rightarrow> ('k, 'v) map_op list \<Rightarrow> 'c multiset" where
  "dues f [] = {#}"
| "dues f (Put k v # os) = f k v + dues f os"
| "dues f (Del k # os) = dues f os"

locale owned_map = keyed_map +
  fixes due :: "'a \<Rightarrow> 'b \<Rightarrow> 'd multiset"
    and owes :: "'c \<Rightarrow> 'd multiset \<Rightarrow> bool"
    and destroy :: "'c \<Rightarrow> 'c option"
    and settled :: "'c \<Rightarrow> 'd multiset \<Rightarrow> bool"
  assumes put_owes: "wf h \<Longrightarrow> owes h c \<Longrightarrow> card_of h < limit \<Longrightarrow> put k v h = Some (b, h') \<Longrightarrow>
      owes h' (if b then c + due k v else c)"
    and del_owes: "wf h \<Longrightarrow> owes h c \<Longrightarrow> del k h = Some (b, h') \<Longrightarrow> owes h' c"
    and destroy_step: "owes h c \<Longrightarrow> \<exists>h'. destroy h = Some h' \<and> settled h' c"
begin

lemma run_owes:
  assumes "wf h" "owes h c" "card_of h + length os \<le> limit" "run_ops put del os h = Some (True, h')"
  shows "wf h' \<and> view h' = spec_ops eq os (view h) \<and> card_of h' \<le> card_of h + length os \<and> owes h' (c + dues due os)"
  using assms
proof (induction os arbitrary: h c)
  case (Cons p os)
  show ?case
  proof (cases p)
    case (Put k v)
    then obtain h1 where p: "put k v h = Some (True, h1)" "run_ops put del os h1 = Some (True, h')"
      using Cons.prems(4) by (auto simp: bind_eq_Some_conv split: if_splits)
    have "wf h1 \<and> view h1 = map_put eq k v (view h) \<and> card_of h1 \<le> Suc (card_of h)" "owes h1 (c + due k v)"
      using put_step [of h k v] put_owes [OF Cons.prems(1,2) _ p(1)] p(1) Cons.prems(1,3) by auto
    then show ?thesis
      using Cons.IH [of h1 "c + due k v"] p(2) Cons.prems(3) Put by (simp add: add.assoc)
  next
    case (Del k)
    then obtain b h1 where p: "del k h = Some (b, h1)" "run_ops put del os h1 = Some (True, h')"
      using Cons.prems(4) by (auto simp: bind_eq_Some_conv)
    have "wf h1 \<and> view h1 = map_del eq k (view h) \<and> card_of h1 \<le> card_of h" "owes h1 c"
      using del_step [OF Cons.prems(1), of k] del_owes [OF Cons.prems(1,2) p(1)] p(1) by auto
    then show ?thesis
      using Cons.IH [of h1 c] p(2) Cons.prems(3) Del by simp
  qed
qed simp

text \<open>
  The whole life: the operations before the first store that fails have their effect on the map, and
  destruction settles what those were given, whether or not a store has failed.
\<close>

lemma life:
  assumes "wf h" "owes h c" "card_of h + length os \<le> limit"
  shows "\<exists>b h1 h2 ps. run_ops put del os h = Some (b, h1) \<and>
    (if b then ps = os \<and> view h1 = spec_ops eq os (view h)
     else \<exists>k v rest h0. os = ps @ Put k v # rest \<and> run_ops put del ps h = Some (True, h0) \<and>
       view h0 = spec_ops eq ps (view h) \<and> put k v h0 = Some (False, h1)) \<and>
    destroy h1 = Some h2 \<and> settled h2 (c + dues due ps)"
proof -
  obtain b h1 where r: "run_ops put del os h = Some (b, h1)"
    using run_ops_spec [OF assms(1,3)] by blast
  show ?thesis
  proof (cases b)
    case True
    then show ?thesis
      using run_owes [OF assms] destroy_step r by metis
  next
    case False
    then obtain ps k v rest h0 where p: "os = ps @ Put k v # rest" "run_ops put del ps h = Some (True, h0)"
      "put k v h0 = Some (False, h1)"
      using r run_ops_stop by metis
    have o: "wf h0" "view h0 = spec_ops eq ps (view h)" "card_of h0 < limit" "owes h0 (c + dues due ps)"
      using run_owes [OF assms(1,2) _ p(2)] assms(3) p(1) by auto
    have "owes h1 (c + dues due ps)"
      using put_owes [OF o(1,4,3) p(3)] by simp
    then obtain h2 where "destroy h1 = Some h2" "settled h2 (c + dues due ps)"
      using destroy_step by blast
    then show ?thesis
      using r False p o(2) by (intro exI [of _ False] exI [of _ h1] exI [of _ h2] exI [of _ ps]) auto
  qed
qed

end

end
