(* ===== verification/Nc_Hashtable_Correct.thy ===== *)
theory Nc_Hashtable_Correct
  imports Nc_Hashtable Keyed_Map_Spec "HOL-Library.Multiset"
begin

text \<open>
  The operations of the hash table against the map it stands for: under the invariant \<open>ht_inv\<close>
  every public function is defined, keeps the invariant, and does to \<open>table_map\<close> what its
  documentation says, except that a failed rehash leaves the table without its bucket array.
\<close>

subsection \<open>What the invariant depends on\<close>

definition same_pairs :: "ht_heap \<Rightarrow> ht_heap \<Rightarrow> addr list \<Rightarrow> bool" where
  "same_pairs h h' ns \<longleftrightarrow> (\<forall>n \<in> set ns. pairs h' (list_to_pair n) = pairs h (list_to_pair n))"

definition same_sizes :: "ht_heap \<Rightarrow> ht_heap \<Rightarrow> addr list \<Rightarrow> bool" where
  "same_sizes h h' ns \<longleftrightarrow>
     (\<forall>n \<in> set ns. block_size h' (list_to_pair n) = block_size h (list_to_pair n))"

definition same_callbacks :: "nc_hashtable \<Rightarrow> nc_hashtable \<Rightarrow> bool" where
  "same_callbacks T T' \<longleftrightarrow> hash_key T' = hash_key T \<and> cmp_keys T' = cmp_keys T \<and>
     free_key T' = free_key T \<and> free_value T' = free_value T"

lemma same_pairs_eq [simp]: "pairs h' = pairs h \<Longrightarrow> same_pairs h h' ns"
  by (simp add: same_pairs_def)

lemma same_sizes_eq [simp]: "block_size h' = block_size h \<Longrightarrow> same_sizes h h' ns"
  by (simp add: same_sizes_def)

lemma entry_same: "same_pairs h h' ns \<Longrightarrow> n \<in> set ns \<Longrightarrow> entry h' n = entry h n"
  by (simp add: same_pairs_def entry_def)

lemma nodes_ok_same:
  assumes "same_pairs h h' ns" "same_sizes h h' ns" "same_callbacks T T'" "nodes_ok T h ns"
  shows "nodes_ok T' h' ns"
proof -
  have "node_ok T' h' n" if "n \<in> set ns" for n
    using assms that
    by (auto simp: nodes_ok_def node_ok_def same_pairs_def same_sizes_def same_callbacks_def
        split: option.splits)
  then show ?thesis
    using assms(3,4) entry_same [OF assms(1)]
    by (simp add: nodes_ok_def keys_apart_def same_callbacks_def)
qed

lemma nodes_ok_set: "set ns' \<subseteq> set ns \<Longrightarrow> nodes_ok T h ns \<Longrightarrow> nodes_ok T h ns'"
  by (auto simp: nodes_ok_def keys_apart_def)

lemma callbacks_ok_same: "same_callbacks T T' \<Longrightarrow> callbacks_ok T' \<longleftrightarrow> callbacks_ok T"
  by (simp add: callbacks_ok_def same_callbacks_def)

lemma same_callbacks_upd [simp]:
  "same_callbacks T T" "same_callbacks T (T\<lparr>ht_size := s\<rparr>)" "same_callbacks T (T\<lparr>buckets := b\<rparr>)"
  "same_callbacks T (T\<lparr>num_ix := i\<rparr>)"
  by (simp_all add: same_callbacks_def)

lemma num_buckets_upd [simp]:
  "num_buckets (T\<lparr>ht_size := s\<rparr>) = num_buckets T" "num_buckets (T\<lparr>buckets := b\<rparr>) = num_buckets T"
  by (simp_all add: num_buckets_def)

lemma contig_cong: "(\<And>x. x \<in> set xs \<Longrightarrow> P x = Q x) \<Longrightarrow> contig P xs = contig Q xs"
proof (induction xs)
  case (Cons x xs)
  then have "dropWhile P xs = dropWhile Q xs"
    by (intro dropWhile_cong) auto
  moreover have "list_all (Not \<circ> P) (dropWhile Q xs) = list_all (Not \<circ> Q) (dropWhile Q xs)"
    using Cons.prems by (auto simp: list_all_iff dest: set_dropWhileD)
  ultimately show ?case
    using Cons by simp
qed simp

lemma bucket_ok_same:
  assumes "same_pairs h h' ns"
  shows "bucket_ok t nb h' ns i b = bucket_ok t nb h ns i b"
proof -
  have p: "in_bucket nb h' i n = in_bucket nb h i n" if "n \<in> set ns" for n
    using assms that by (simp add: in_bucket_def hash_at_def same_pairs_def)
  then have "filter (in_bucket nb h' i) ns = filter (in_bucket nb h i) ns"
    by (rule filter_cong [OF refl])
  moreover have "contig (in_bucket nb h' i) ns = contig (in_bucket nb h i) ns"
    by (rule contig_cong) (rule p)
  ultimately show ?thesis
    by (simp only: bucket_ok_def)
qed

lemma buckets_ok_same:
  assumes "same_pairs h h' ns" "buckets T' = buckets T \<and> arrs h' (buckets T') = arrs h (buckets T)"
    "buckets_ok t T nb h ns"
  shows "buckets_ok t T' nb h' ns"
proof -
  have "buckets T' = buckets T" "arrs h' (buckets T) = arrs h (buckets T)"
    using assms(2) by metis+
  then show ?thesis
    using assms(3) bucket_ok_same [OF assms(1)] by (simp add: buckets_ok_def)
qed

lemma hring_same: "lists h' = lists h \<Longrightarrow> hring h' a ns = hring h a ns"
  using get_lists_cong [of h' h] by simp

subsection \<open>The map\<close>

lemma find_SomeD: "List.find P xs = Some x \<Longrightarrow> x \<in> set xs \<and> P x"
  by (auto simp: find_Some_iff)

lemma table_map_Some:
  assumes "keys_apart T h ns" "callbacks_ok T"
  shows "table_map T ns h k = Some v \<longleftrightarrow>
    (\<exists>n \<in> set ns. cmp_keys T (fst (entry h n)) k \<and> v = snd (entry h n))"
proof -
  have eq: "n = m" if "n \<in> set ns" "m \<in> set ns" "cmp_keys T (fst (entry h n)) k"
    "cmp_keys T (fst (entry h m)) k" for n m
  proof -
    have "cmp_keys T (fst (entry h n)) (fst (entry h m))"
      using assms(2) that(3,4) by (meson callbacks_ok_def equivp_symp equivp_transp)
    then show ?thesis
      using assms(1) that(1,2) by (auto simp: keys_apart_def)
  qed
  show ?thesis
  proof (cases "List.find (\<lambda>n. cmp_keys T (fst (entry h n)) k) ns")
    case None
    then have "\<forall>n \<in> set ns. \<not> cmp_keys T (fst (entry h n)) k"
      by (simp add: find_None_iff)
    then show ?thesis
      using None by (simp add: table_map_def)
  next
    case (Some n)
    then have "n \<in> set ns" "cmp_keys T (fst (entry h n)) k"
      by (auto dest: find_SomeD)
    then show ?thesis
      using Some eq by (auto simp: table_map_def)
  qed
qed

lemma table_map_None:
  "table_map T ns h k = None \<longleftrightarrow> (\<forall>n \<in> set ns. \<not> cmp_keys T (fst (entry h n)) k)"
  by (auto simp: table_map_def find_None_iff)

lemma option_eqI: "(\<And>v. x = Some v \<longleftrightarrow> y = Some v) \<Longrightarrow> x = y"
  by (metis not_Some_eq)

text \<open>The map depends only on the set of nodes and on their pairs.\<close>

lemma table_map_same:
  assumes "keys_apart T h ns" "callbacks_ok T" "same_callbacks T T'" "same_pairs h h' ns"
    and "set ns' = set ns"
  shows "table_map T' ns' h' = table_map T ns h"
proof
  fix k
  have "keys_apart T' h' ns'" "callbacks_ok T'"
    using assms entry_same [OF assms(4)]
    by (simp_all add: keys_apart_def same_callbacks_def callbacks_ok_def)
  then show "table_map T' ns' h' k = table_map T ns h k"
    using assms entry_same [OF assms(4)]
    by (intro option_eqI) (simp add: table_map_Some same_callbacks_def)
qed

subsection \<open>Lookup\<close>

lemma ht_invD:
  assumes "ht_inv t T ns h"
  obtains nb where "num_buckets T = Some nb" "buckets_ok t T nb h ns" "tables h t = Some T"
    "hring h (head t) ns" "nodes_ok T h ns" "ht_size T = of_nat (length ns)"
    "block_size h (buckets T) = Some (16 * unat nb)" "length ns \<le> unat nb" "heap_ok h"
    "block_size h t = Some 72"
  using assms by (auto simp: ht_inv_def)

lemma node_pair:
  assumes "nodes_ok T h ns" "n \<in> set ns"
  obtains p where "pairs h (list_to_pair n) = Some p" "entry h n = (key p, value p)"
    "hash p = hash_key T (key p)" "block_size h (list_to_pair n) = Some 40"
  using assms by (auto simp: nodes_ok_def node_ok_def entry_def split: option.splits)

lemma node_not_NULL:
  assumes "heap_ok h" "nodes_ok T h ns" "n \<in> set ns"
  shows "list_to_pair n \<noteq> NULL"
proof -
  have "block_size h (list_to_pair n) = Some 40"
    using assms by (auto elim: node_pair)
  then show ?thesis
    using block_size_fits [OF assms(1)] by (auto simp: fits_def)
qed

lemma lookup_pair_ok:
  assumes "ht_inv t T ns h" "callbacks_ok T"
  shows "lookup_pair t k h = Some (case List.find (\<lambda>n. cmp_keys T (fst (entry h n)) k) ns of
    None \<Rightarrow> NULL | Some n \<Rightarrow> list_to_pair n)"
proof -
  obtain nb where i: "num_buckets T = Some nb" "buckets_ok t T nb h ns" "tables h t = Some T"
    "hring h (head t) ns" "nodes_ok T h ns"
    using assms(1) by (rule ht_invD)
  obtain b where "get_bucket T (hash_key T k mod nb) h = Some b"
    "hashtable_find_pair t T b k (hash_key T k) h =
      Some (case List.find (\<lambda>n. cmp_keys T (fst (entry h n)) k) ns of
              None \<Rightarrow> NULL | Some n \<Rightarrow> list_to_pair n)"
    using i(4,2,5) assms(2) mod_nb_less [OF i(1)] by (rule find_pair_ok)
  then show ?thesis
    using i(1,3) by (simp add: lookup_pair_def)
qed

lemma get_ok:
  assumes "ht_inv t T ns h" "callbacks_ok T"
  shows "nc_hashtable_get t k h = Some (case table_map T ns h k of None \<Rightarrow> NULL | Some v \<Rightarrow> v)"
proof (cases "List.find (\<lambda>n. cmp_keys T (fst (entry h n)) k) ns")
  case None
  then show ?thesis
    using lookup_pair_ok [OF assms] by (simp add: nc_hashtable_get_def table_map_def)
next
  case (Some n)
  then have n: "n \<in> set ns"
    by (auto dest: find_SomeD)
  have i: "nodes_ok T h ns" "heap_ok h"
    using assms(1) by (auto elim: ht_invD)
  obtain p where "pairs h (list_to_pair n) = Some p" "entry h n = (key p, value p)"
    using i(1) n by (rule node_pair)
  then show ?thesis
    using lookup_pair_ok [OF assms] node_not_NULL [OF i(2,1) n] Some
    by (simp add: nc_hashtable_get_def table_map_def)
qed

subsection \<open>Filling the buckets\<close>

lemma set_bucket_at:
  assumes "arrs h (buckets T) = Some bs" "k < length bs" "length bs < 2 ^ 64" "buckets T \<noteq> NULL"
  shows "set_bucket T (of_nat k) b h = Some (h\<lparr>arrs := (arrs h)(buckets T \<mapsto> bs[k := b])\<rparr>)"
  using assms by (simp add: set_bucket_def unat_of_nat_ok)

lemma fill_buckets_run:
  assumes "arrs h (buckets T) = Some bs" "k \<le> length bs" "length bs < 2 ^ 64" "buckets T \<noteq> NULL"
  shows "fill_buckets t T k h = Some (h\<lparr>arrs := (arrs h)(buckets T \<mapsto>
    replicate k \<lparr>b_first = head t, b_last = head t\<rparr> @ drop k bs)\<rparr>)"
  using assms(2)
proof (induction k)
  case 0
  then show ?case
    using assms(1) by (simp add: fun_upd_idem)
next
  case (Suc k)
  define e where "e = \<lparr>b_first = head t, b_last = head t\<rparr>"
  define cs where "cs = replicate k e @ drop k bs"
  let ?h = "h\<lparr>arrs := (arrs h)(buckets T \<mapsto> cs)\<rparr>"
  have "cs[k := e] = replicate (Suc k) e @ drop (Suc k) bs"
    using Suc.prems
    by (simp add: cs_def list_update_append Cons_nth_drop_Suc [symmetric] replicate_append_same [symmetric])
  moreover have "fill_buckets t T k h = Some ?h"
    unfolding cs_def e_def by (rule Suc.IH) (use Suc.prems in simp)
  moreover have "set_bucket T (of_nat k) e ?h = Some (?h\<lparr>arrs := (arrs ?h)(buckets T \<mapsto> cs[k := e])\<rparr>)"
    by (rule set_bucket_at) (use Suc.prems assms(3,4) in \<open>simp_all add: cs_def\<close>)
  ultimately have "fill_buckets t T (Suc k) h =
      Some (h\<lparr>arrs := (arrs h)(buckets T \<mapsto> replicate (Suc k) e @ drop (Suc k) bs)\<rparr>)"
    by (simp flip: e_def)
  then show ?case
    unfolding e_def .
qed

lemma fill_buckets_ok:
  assumes "arrs h (buckets T) = Some bs" "length bs = unat nb" "buckets T \<noteq> NULL"
  obtains A where "fill_buckets t T (unat nb) h = Some (h\<lparr>arrs := A\<rparr>)"
    "buckets_ok t T nb (h\<lparr>arrs := A\<rparr>) []" "A = (arrs h)(buckets T := A (buckets T))"
proof -
  let ?A = "(arrs h)(buckets T \<mapsto> replicate (unat nb) \<lparr>b_first = head t, b_last = head t\<rparr>)"
  have "fill_buckets t T (unat nb) h = Some (h\<lparr>arrs := ?A\<rparr>)"
    using fill_buckets_run [OF assms(1), of "unat nb" t] assms(2,3) unat_bound64 [of nb] by simp
  moreover have "buckets_ok t T nb (h\<lparr>arrs := ?A\<rparr>) []"
    using assms(3) by (simp add: buckets_ok_def bucket_ok_def word_less_nat_alt)
  ultimately show thesis
    using that [of ?A] by simp
qed

subsection \<open>Rehashing\<close>

text \<open>
  The loop moves the nodes of the old ring one by one to the new one; the next links of the nodes
  still to come are as before.
\<close>

lemma rehash_loop_ok:
  assumes "hring h (head t) ms" "buckets_ok t T nb h ms" "nb \<noteq> 0"
    and "npath (get_next h) (rs @ [head t])" "distinct (head t # ms @ rs)"
    and "\<forall>r \<in> set rs. pairs h (list_to_pair r) \<noteq> None"
  shows "\<exists>L bs ms'. rehash_loop t T nb h (hd (rs @ [head t])) =
      Some (h\<lparr>lists := L, arrs := (arrs h)(buckets T \<mapsto> bs)\<rparr>) \<and>
    hring (h\<lparr>lists := L, arrs := (arrs h)(buckets T \<mapsto> bs)\<rparr>) (head t) ms' \<and>
    buckets_ok t T nb (h\<lparr>lists := L, arrs := (arrs h)(buckets T \<mapsto> bs)\<rparr>) ms' \<and>
    set ms' = set ms \<union> set rs \<and> length ms' = length ms + length rs"
  using assms
proof (induction rs arbitrary: h ms)
  case Nil
  obtain bs where "arrs h (buckets T) = Some bs"
    using Nil.prems(2) by (auto simp: buckets_ok_def)
  then have eq: "h\<lparr>lists := lists h, arrs := (arrs h)(buckets T \<mapsto> bs)\<rparr> = h"
    by (simp add: fun_upd_idem)
  have "rehash_loop t T nb h (head t) = Some h"
    by (subst rehash_loop.simps) simp
  then show ?case
    using Nil.prems(1,2) by (intro exI [of _ "lists h"] exI [of _ bs] exI [of _ ms])
      (unfold eq, simp)
next
  case (Cons r rs)
  define nx where "nx = hd (rs @ [head t])"
  obtain ys where ys: "rs @ [head t] = nx # ys"
    unfolding nx_def by (cases rs) auto
  have next_r: "get_next h r = Some nx" and path: "npath (get_next h) (rs @ [head t])"
    using Cons.prems(4) by (simp_all add: ys)
  obtain p where p: "pairs h (list_to_pair r) = Some p"
    using Cons.prems(6) by auto
  have hp: "hash_at h r = hash p"
    using p by (simp add: hash_at_def)
  have lt: "hash p mod nb < nb"
    using Cons.prems(3) by (simp add: word_less_nat_alt unat_mod unat_gt_0)
  have r: "r \<notin> set (head t # ms)" "lists h r \<noteq> None"
    using Cons.prems(5) next_r by (auto simp: get_next_def)
  let ?ms = "insert_class (in_bucket nb h (hash p mod nb)) r ms"
  obtain L bs where i: "insert_to_bucket t T (hash p mod nb) r h =
      Some (h\<lparr>lists := L, arrs := (arrs h)(buckets T \<mapsto> bs)\<rparr>)"
    "hring (h\<lparr>lists := L, arrs := (arrs h)(buckets T \<mapsto> bs)\<rparr>) (head t) ?ms"
    "buckets_ok t T nb (h\<lparr>lists := L, arrs := (arrs h)(buckets T \<mapsto> bs)\<rparr>) ?ms"
    "\<And>z. z \<notin> set (head t # ?ms) \<Longrightarrow> L z = lists h z"
    using insert_to_bucket_ok [OF Cons.prems(1,2) r, of "hash p mod nb"] hp lt by metis
  define h1 where "h1 = h\<lparr>lists := L, arrs := (arrs h)(buckets T \<mapsto> bs)\<rparr>"
  have step: "rehash_loop t T nb h r = rehash_loop t T nb h1 nx"
    using next_r p i(1) r(1) by (subst rehash_loop.simps) (auto simp: h1_def)
  have same: "get_next h1 z = get_next h z" if "z \<in> set rs" for z
  proof -
    have "z \<notin> set (head t # ?ms)"
      using that Cons.prems(5) by auto
    then show ?thesis
      using i(4) by (simp add: get_next_def h1_def)
  qed
  have "npath (get_next h1) (rs @ [head t])"
    using path same by (induction rs rule: induct_list012) (auto split: list.splits)
  moreover have "distinct (head t # ?ms @ rs)"
    using Cons.prems(5) by (auto intro: distinct_insert_class)
  moreover have "\<forall>r \<in> set rs. pairs h1 (list_to_pair r) \<noteq> None"
    using Cons.prems(6) by (simp add: h1_def)
  ultimately obtain L' bs' ms' where rest: "rehash_loop t T nb h1 nx =
      Some (h1\<lparr>lists := L', arrs := (arrs h1)(buckets T \<mapsto> bs')\<rparr>)"
    "hring (h1\<lparr>lists := L', arrs := (arrs h1)(buckets T \<mapsto> bs')\<rparr>) (head t) ms'"
    "buckets_ok t T nb (h1\<lparr>lists := L', arrs := (arrs h1)(buckets T \<mapsto> bs')\<rparr>) ms'"
    "set ms' = set ?ms \<union> set rs" "length ms' = length ?ms + length rs"
    using Cons.IH [OF i(2,3)[folded h1_def] Cons.prems(3)] unfolding nx_def by blast
  moreover have "h1\<lparr>lists := L', arrs := (arrs h1)(buckets T \<mapsto> bs')\<rparr> =
      h\<lparr>lists := L', arrs := (arrs h)(buckets T \<mapsto> bs')\<rparr>"
    by (simp add: h1_def)
  ultimately have "rehash_loop t T nb h (hd ((r # rs) @ [head t])) =
      Some (h\<lparr>lists := L', arrs := (arrs h)(buckets T \<mapsto> bs')\<rparr>) \<and>
    hring (h\<lparr>lists := L', arrs := (arrs h)(buckets T \<mapsto> bs')\<rparr>) (head t) ms' \<and>
    buckets_ok t T nb (h\<lparr>lists := L', arrs := (arrs h)(buckets T \<mapsto> bs')\<rparr>) ms' \<and>
    set ms' = set ms \<union> set (r # rs) \<and> length ms' = length ms + length (r # rs)"
    using step by simp
  then show ?case
    by (intro exI)
qed

lemma drop_block_ht [heap_simps]:
  "lists (drop_block p h) = lists h" "pairs (drop_block p h) = pairs h"
  "arrs (drop_block p h) = arrs h" "tables (drop_block p h) = tables h"
  "calls (drop_block p h) = calls h"
  by (simp_all add: drop_block_def)

lemma block_size_ht [heap_simps]:
  "block_size (h\<lparr>lists := L\<rparr>) = block_size h" "block_size (h\<lparr>pairs := P\<rparr>) = block_size h"
  "block_size (h\<lparr>arrs := A\<rparr>) = block_size h" "block_size (h\<lparr>tables := TT\<rparr>) = block_size h"
  "block_size (h\<lparr>calls := C\<rparr>) = block_size h"
  "heap_ok (h\<lparr>lists := L\<rparr>) = heap_ok h" "heap_ok (h\<lparr>pairs := P\<rparr>) = heap_ok h"
  "heap_ok (h\<lparr>arrs := A\<rparr>) = heap_ok h" "heap_ok (h\<lparr>tables := TT\<rparr>) = heap_ok h"
  "heap_ok (h\<lparr>calls := C\<rparr>) = heap_ok h"
  by (simp_all add: block_size_def heap_ok_def fun_eq_iff)

lemma unat_bucket_bytes:
  assumes "num_buckets T = Some nb"
  shows "unat (nb * sizeof_bucket) = 16 * unat nb"
proof -
  have "unat nb \<le> 1610612741"
    using num_buckets_bounds [OF assms] by (simp add: word_le_nat_alt)
  then show ?thesis
    by (subst unat_mult_ok) (simp_all add: sizeof_bucket_def)
qed

lemma primes_increasing: "i < j \<Longrightarrow> j < length primes \<Longrightarrow> primes ! i < primes ! j"
proof -
  have "sorted_wrt (<) primes"
    by (simp add: primes_def)
  then show "i < j \<Longrightarrow> j < length primes \<Longrightarrow> primes ! i < primes ! j"
    by (simp add: sorted_wrt_nth_less)
qed

lemma num_buckets_grows:
  assumes "num_buckets T = Some nb" "nb < 1610612741"
  obtains nb' where "num_buckets (T\<lparr>num_ix := num_ix T + 1\<rparr>) = Some nb'" "nb < nb'"
proof -
  have len: "length primes = 29"
    by (simp add: primes_def)
  have lt: "unat (num_ix T) < 29" and nb: "nb = primes ! unat (num_ix T)"
    using assms(1) by (simp_all add: num_buckets_def len split: if_splits)
  have "unat (num_ix T) \<noteq> 28"
    using assms(2) nb by (auto simp: primes_def)
  then have u: "unat (num_ix T + 1) = Suc (unat (num_ix T))" "unat (num_ix T) < 28"
    using lt by (simp_all add: unat_add_ok)
  then show thesis
    using that [of "primes ! Suc (unat (num_ix T))"] primes_increasing [of "unat (num_ix T)"] nb len
    by (simp add: num_buckets_def)
qed

lemma num_buckets_ix: "num_buckets (T\<lparr>buckets := b, num_ix := i\<rparr>) = num_buckets (T\<lparr>num_ix := i\<rparr>)"
  by (simp add: num_buckets_def)

text \<open>The bucket array never coincides with the table or a pair: their blocks differ in size.\<close>

lemma buckets_apart:
  assumes "ht_inv t T ns h"
  shows "buckets T \<noteq> t" "n \<in> set ns \<Longrightarrow> buckets T \<noteq> list_to_pair n"
proof -
  have b: "\<exists>nb :: size_t. block_size h (buckets T) = Some (16 * unat nb)" "block_size h t = Some 72"
    "nodes_ok T h ns"
    using assms by (auto simp: ht_inv_def)
  have d: "16 * k \<noteq> 72" "16 * k \<noteq> 40" for k :: nat
    by presburger+
  show "buckets T \<noteq> t"
    using b d by auto
  show "buckets T \<noteq> list_to_pair n" if "n \<in> set ns"
    using b(1) d(2) node_pair [OF b(3) that] by force
qed

lemma table_apart:
  assumes "ht_inv t T ns h" "n \<in> set ns"
  shows "list_to_pair n \<noteq> t"
proof -
  have "block_size h t = Some 72" "nodes_ok T h ns"
    using assms(1) by (auto elim: ht_invD)
  then show ?thesis
    using node_pair [OF _ assms(2)] by fastforce
qed

text \<open>
  The blocks a table is responsible for, and the blocks of everybody else: \<open>owns\<close> says that the
  heap is \<open>base\<close> with the table's own blocks added.
\<close>

definition table_blocks :: "addr \<Rightarrow> nc_hashtable \<Rightarrow> addr list \<Rightarrow> addr set" where
  "table_blocks t T ns = insert t (insert (buckets T) (list_to_pair ` set ns))"

definition owns :: "addr \<Rightarrow> nc_hashtable \<Rightarrow> addr list \<Rightarrow> (addr \<Rightarrow> nat option) \<Rightarrow> ht_heap \<Rightarrow> bool" where
  "owns t T ns base h \<longleftrightarrow>
     (\<forall>x \<in> table_blocks t T ns. base x = None) \<and>
     (\<forall>x. x \<notin> table_blocks t T ns \<longrightarrow> block_size h x = base x)"

lemma table_blocks_live:
  assumes "ht_inv t T ns h" "x \<in> table_blocks t T ns"
  shows "block_size h x \<noteq> None"
proof -
  have *: "block_size h t \<noteq> None" "block_size h (buckets T) \<noteq> None" "nodes_ok T h ns"
    using assms(1) by (auto simp: ht_inv_def)
  have "block_size h (list_to_pair n) \<noteq> None" if "n \<in> set ns" for n
    using that by (rule node_pair [OF *(3)]) simp
  then show ?thesis
    using assms(2) *(1,2) by (auto simp only: table_blocks_def)
qed

lemma owns_same:
  "owns t T ns base h \<Longrightarrow> block_size h' = block_size h \<Longrightarrow> buckets T' = buckets T \<Longrightarrow> set ns' = set ns \<Longrightarrow>
     owns t T' ns' base h'"
  by (simp add: owns_def table_blocks_def)

lemma owns_new_node:
  assumes "ht_inv t T ns h" "owns t T ns base h" "block_size h q = None"
    and "block_size h' = (block_size h)(q \<mapsto> k)" "buckets T' = buckets T" "set ns' = insert (pair_list q) (set ns)"
  shows "owns t T' ns' base h'"
proof -
  have "q \<notin> table_blocks t T ns"
    using table_blocks_live [OF assms(1)] assms(3) by blast
  moreover have "table_blocks t T' ns' = insert q (table_blocks t T ns)"
    using assms(5,6) by (auto simp: table_blocks_def)
  ultimately show ?thesis
    using assms(2-4) by (auto simp: owns_def)
qed

lemma owns_new_buckets:
  assumes "ht_inv t T ns h" "owns t T ns base h" "((block_size h)(buckets T := None)) (buckets T') = None"
    and "block_size h' = (block_size h)(buckets T := None, buckets T' := k)" "set ns' = set ns"
  shows "owns t T' ns' base h'"
proof -
  have live: "block_size h x \<noteq> None" if "x \<in> table_blocks t T ns" for x
    using table_blocks_live [OF assms(1) that] .
  have b: "base (buckets T) = None"
    using assms(2) by (simp add: owns_def table_blocks_def)
  have "base (buckets T') = None"
  proof (cases "buckets T' = buckets T")
    case False
    then have "block_size h (buckets T') = None"
      using assms(3) by simp
    then have "buckets T' \<notin> table_blocks t T ns"
      using live by blast
    then have "block_size h (buckets T') = base (buckets T')"
      using assms(2) by (simp add: owns_def)
    then show ?thesis
      using \<open>block_size h (buckets T') = None\<close> by simp
  qed (simp add: b)
  then show ?thesis
    using assms(2,4,5) b by (simp add: owns_def table_blocks_def)
qed

lemma owns_drop_node:
  assumes "ht_inv t T ns h" "owns t T ns base h" "n \<in> set ns"
    and "block_size h' = (block_size h)(list_to_pair n := None)" "buckets T' = buckets T" "set ns' = set ns - {n}"
  shows "owns t T' ns' base h'"
proof -
  have "inj list_to_pair"
    by (simp add: inj_on_def)
  then have "list_to_pair ` (set ns - {n}) = list_to_pair ` set ns - {list_to_pair n}"
    by (simp add: image_set_diff)
  then have "table_blocks t T' ns' = table_blocks t T ns - {list_to_pair n}"
    unfolding table_blocks_def assms(5,6)
    using table_apart [OF assms(1,3)] buckets_apart(2) [OF assms(1,3)] by (simp add: insert_Diff_if)
  moreover have "list_to_pair n \<in> table_blocks t T ns"
    using assms(3) by (simp add: table_blocks_def)
  ultimately show ?thesis
    using assms(2,4) by (auto simp: owns_def)
qed

text \<open>
  Growing the bucket array: on success the same pairs hang in a ring of the new order; on failure
  the table is left without buckets.
\<close>

text \<open>The table between the two phases of a rehash: new empty buckets, an empty ring, the old pairs.\<close>

definition emptied :: "addr \<Rightarrow> nc_hashtable \<Rightarrow> nc_hashtable \<Rightarrow> size_t \<Rightarrow> ht_heap \<Rightarrow> ht_heap \<Rightarrow> bool" where
  "emptied t T T' nb' h g \<longleftrightarrow> num_buckets T' = Some nb' \<and> same_callbacks T T' \<and> ht_size T' = ht_size T \<and>
     ((block_size h)(buckets T := None)) (buckets T') = None \<and> heap_ok g \<and>
     block_size g = (block_size h)(buckets T := None, buckets T' \<mapsto> 16 * unat nb') \<and>
     lists g = (lists h)(head t \<mapsto> \<lparr>prev = head t, next = head t\<rparr>) \<and> pairs g = pairs h \<and>
     tables g t = Some T' \<and> calls g = calls h \<and> buckets_ok t T' nb' g [] \<and> hring g (head t) []"

text \<open>What a failed rehash leaves of the heap: the bucket array is gone and the rest is as it was.\<close>

definition lost_buckets :: "nc_hashtable \<Rightarrow> ht_heap \<Rightarrow> ht_heap \<Rightarrow> bool" where
  "lost_buckets T h h' \<longleftrightarrow> heap_ok h' \<and> block_size h' = (block_size h)(buckets T := None) \<and>
     lists h' = lists h \<and> pairs h' = pairs h \<and> calls h' = calls h"

lemma rehash_prepare:
  assumes "heap_ok h" "tables h t = Some T" "block_size h (buckets T) = Some k" "get_next h (head t) = Some l"
    and "num_buckets (T\<lparr>num_ix := num_ix T + 1\<rparr>) = Some nb'"
  obtains (Fail) h' where "hashtable_do_rehash t h = Some (- 1, h')"
      "tables h' t = Some (T\<lparr>buckets := NULL, num_ix := num_ix T + 1\<rparr>)" "arrs h' = (arrs h)(buckets T := None)"
      "lost_buckets T h h'"
  | (Ready) T' g where "hashtable_do_rehash t h = do { h' \<leftarrow> rehash_loop t T' nb' g l; Some (0, h') }"
      "emptied t T T' nb' h g"
proof -
  define T1 where "T1 = T\<lparr>buckets := NULL, num_ix := num_ix T + 1\<rparr>"
  have nb1: "num_buckets T1 = Some nb'"
    using assms(5) by (simp add: T1_def num_buckets_ix)
  define g where "g = drop_block (buckets T) h"
  define h1 where "h1 = put_table t (T\<lparr>buckets := NULL\<rparr>) (g\<lparr>arrs := (arrs g)(buckets T := None)\<rparr>)"
  have free1: "free_buckets t T h = Some h1"
    using nc_free_live [OF assms(1,3)] by (simp add: free_buckets_def h1_def g_def)
  have h1: "heap_ok h1" "block_size h1 = (block_size h)(buckets T := None)" "lists h1 = lists h"
    "pairs h1 = pairs h" "arrs h1 = (arrs h)(buckets T := None)" "calls h1 = calls h"
    using nc_free_live [OF assms(1,3)] heap_ok_drop [OF assms(1)]
    by (simp_all add: h1_def g_def put_table_def heap_simps)
  obtain a h2 where al: "nc_alloc (nb' * sizeof_bucket) h1 = (a, h2)"
    by fastforce
  define T2 where "T2 = T1\<lparr>buckets := a\<rparr>"
  define h3 where "h3 = put_table t T2 h2"
  show thesis
  proof (cases "a = NULL")
    case True
    then have h2: "\<exists>as. h2 = h1\<lparr>offers := as\<rparr>"
      using nc_alloc_cases [OF al] by blast
    have "hashtable_do_rehash t h = Some (- 1, h3)"
      using assms(2) free1 nb1 al True by (simp add: hashtable_do_rehash_def Let_def h3_def T2_def flip: T1_def)
    then show thesis
      by (rule Fail) (use True h1 h2 in
          \<open>auto simp: h3_def put_table_def T2_def T1_def lost_buckets_def heap_simps\<close>)
  next
    case False
    then obtain as where h2: "block_size h1 a = None"
      "h2 = h1\<lparr>offers := as, live := (a, unat (nb' * sizeof_bucket)) # live h1\<rparr>"
      "block_size h2 = (block_size h1)(a \<mapsto> unat (nb' * sizeof_bucket))"
      using nc_alloc_cases [OF al] by blast
    define h4 where "h4 = h3\<lparr>arrs := (arrs h3)(a \<mapsto> replicate (unat nb') (stale_bucket h3))\<rparr>"
    have bT2: "buckets T2 = a"
      by (simp add: T2_def)
    obtain A where A: "fill_buckets t T2 (unat nb') h4 = Some (h4\<lparr>arrs := A\<rparr>)"
      "buckets_ok t T2 nb' (h4\<lparr>arrs := A\<rparr>) []"
      by (rule fill_buckets_ok [of h4 T2 "replicate (unat nb') (stale_bucket h3)" nb' t])
        (simp_all add: h4_def bT2 False)
    define h5 where "h5 = list_init (head t) (h4\<lparr>arrs := A\<rparr>)"
    have h5: "heap_ok h5" "block_size h5 = (block_size h)(buckets T := None, a \<mapsto> 16 * unat nb')"
      "lists h5 = (lists h)(head t \<mapsto> \<lparr>prev = head t, next = head t\<rparr>)" "pairs h5 = pairs h"
      "tables h5 t = Some T2" "calls h5 = calls h"
      using h1 h2 unat_bucket_bytes [OF nb1] heap_ok_nc_alloc [OF h1(1) al]
      by (simp_all add: h5_def list_init_def h4_def h3_def put_table_def heap_simps)
    have first: "get_next (h4\<lparr>arrs := A\<rparr>) (head t) = Some l"
      using assms(4) h1(3) h2(2) by (simp add: get_next_def h4_def h3_def put_table_def)
    have "hring h5 (head t) []"
      by (rule ring_empty) (simp_all add: get_next_def get_prev_def h5(3))
    moreover have "buckets_ok t T2 nb' h5 []"
      by (rule buckets_ok_same [OF _ _ A(2)]) (simp_all add: h5_def list_init_def same_pairs_def)
    moreover have "num_buckets T2 = Some nb'"
      using nb1 by (simp add: T2_def num_buckets_ix)
    ultimately have "emptied t T T2 nb' h h5"
      using h5 h2(1) h1(2) by (simp add: emptied_def) (simp add: T2_def T1_def same_callbacks_def split: if_splits)
    moreover have "hashtable_do_rehash t h = do { h' \<leftarrow> rehash_loop t T2 nb' h5 l; Some (0, h') }"
      using assms(2) free1 nb1 al False A(1) first
      by (simp add: hashtable_do_rehash_def Let_def T2_def h3_def h4_def h5_def flip: T1_def)
    ultimately show thesis
      by (rule Ready [rotated])
  qed
qed

text \<open>The second phase hangs the pairs into the new buckets.\<close>

lemma emptied_loop:
  assumes e: "emptied t T T' nb' h g" and r: "hring h (head t) ns" "nodes_ok T h ns"
  obtains L bs ns' where "rehash_loop t T' nb' g (hd (ns @ [head t])) = Some (g\<lparr>lists := L, arrs := (arrs g)(buckets T' \<mapsto> bs)\<rparr>)"
    "hring (g\<lparr>lists := L, arrs := (arrs g)(buckets T' \<mapsto> bs)\<rparr>) (head t) ns'"
    "buckets_ok t T' nb' (g\<lparr>lists := L, arrs := (arrs g)(buckets T' \<mapsto> bs)\<rparr>) ns'"
    "set ns' = set ns" "length ns' = length ns"
proof -
  have dist: "distinct (head t # ns)"
    using r(1) by (simp add: ring_def)
  have nodes: "\<forall>r \<in> set ns. pairs g (list_to_pair r) \<noteq> None"
    using r(2) e by (auto simp: emptied_def elim: node_pair)
  have "npath (get_next h) (ns @ [head t])"
    using npath_appendD [of "get_next h" "[head t]" "ns @ [head t]"] ring_npath [OF r(1)] by simp
  moreover have "get_next g z = get_next h z" if "z \<in> set ns" for z
    using that dist e by (auto simp: get_next_def emptied_def)
  ultimately have path: "npath (get_next g) (ns @ [head t])"
    by (induction ns rule: induct_list012) auto
  have "hring g (head t) []" "buckets_ok t T' nb' g []" "nb' \<noteq> 0"
    using e num_buckets_bounds [of T' nb'] by (auto simp: emptied_def)
  from rehash_loop_ok [OF this path] dist nodes show thesis
    using that by auto
qed

lemma emptied_inv:
  assumes inv: "ht_inv t T ns h" and e: "emptied t T T' nb' h g" and h': "h' = g\<lparr>lists := L, arrs := A\<rparr>"
    and r: "hring h' (head t) ns'" "buckets_ok t T' nb' h' ns'" "set ns' = set ns" "length ns' = length ns"
    and len: "length ns \<le> unat nb'"
  shows "ht_inv t T' ns' h'"
proof -
  obtain nb where i: "nodes_ok T h ns" "ht_size T = of_nat (length ns)" "block_size h t = Some 72"
    using inv by (rule ht_invD)
  have g: "num_buckets T' = Some nb'" "same_callbacks T T'" "ht_size T' = ht_size T" "heap_ok h'" "pairs h' = pairs h"
    "tables h' t = Some T'" "((block_size h)(buckets T := None)) (buckets T') = None"
    "block_size h' = (block_size h)(buckets T := None, buckets T' \<mapsto> 16 * unat nb')"
    using e by (simp_all add: emptied_def h' heap_simps)
  have "block_size h' (list_to_pair n) = block_size h (list_to_pair n)" if "n \<in> set ns" for n
  proof -
    have "block_size h (list_to_pair n) = Some 40" "buckets T \<noteq> list_to_pair n"
      using node_pair [OF i(1) that] buckets_apart(2) [OF inv that] by auto
    then show ?thesis
      using g(7,8) by (auto split: if_splits)
  qed
  then have "nodes_ok T' h' ns"
    using nodes_ok_same [OF _ _ g(2) i(1)] g(5) by (simp add: same_sizes_def)
  then have "nodes_ok T' h' ns'"
    using nodes_ok_set [of ns' ns] r(3) by simp
  moreover have "block_size h' t = Some 72"
    using g(7,8) i(3) buckets_apart(1) [OF inv] by (auto split: if_splits)
  ultimately show ?thesis
    using g r(1,2,4) i(2) len by (simp add: ht_inv_def)
qed

lemma rehash_ok:
  assumes "ht_inv t T ns h" "length ns < 1610612741" "ht_size T \<ge> nb0" "num_buckets T = Some nb0"
  obtains (Fail) h' where "hashtable_do_rehash t h = Some (- 1, h')"
      "tables h' t = Some (T\<lparr>buckets := NULL, num_ix := num_ix T + 1\<rparr>)"
      "arrs h' = (arrs h)(buckets T := None)" "lost_buckets T h h'"
  | (Done) T' ns' h' where "hashtable_do_rehash t h = Some (0, h')" "ht_inv t T' ns' h'"
      "set ns' = set ns" "length ns' = length ns" "pairs h' = pairs h" "same_callbacks T T'"
      "calls h' = calls h" "num_buckets T' \<noteq> num_buckets T"
      "\<And>nb'. num_buckets T' = Some nb' \<Longrightarrow> length ns' < unat nb'"
      "\<And>base. owns t T ns base h \<Longrightarrow> owns t T' ns' base h'"
proof -
  obtain nb where i: "num_buckets T = Some nb" "tables h t = Some T"
    "hring h (head t) ns" "nodes_ok T h ns" "ht_size T = of_nat (length ns)"
    "block_size h (buckets T) = Some (16 * unat nb)" "length ns \<le> unat nb" "heap_ok h"
    using assms(1) by (rule ht_invD)
  have "unat (ht_size T) = length ns"
    using i(5) assms(2) by (simp add: unat_of_nat_ok)
  then have full: "length ns = unat nb"
    using assms(3,4) i(1,7) by (simp add: word_le_nat_alt)
  then have "nb < 1610612741"
    using assms(2) by (simp add: word_less_nat_alt)
  then obtain nb' where nb': "num_buckets (T\<lparr>num_ix := num_ix T + 1\<rparr>) = Some nb'" "nb < nb'"
    by (rule num_buckets_grows [OF i(1)])
  have first: "get_next h (head t) = Some (hd (ns @ [head t]))"
    using chain_first [of "get_next h" "get_prev h" "head t" ns "head t"] i(3) by (simp add: ring_def)
  show thesis
  proof (rule rehash_prepare [OF i(8,2,6) first nb'(1)])
    fix T' g
    assume run: "hashtable_do_rehash t h = do { h' \<leftarrow> rehash_loop t T' nb' g (hd (ns @ [head t])); Some (0, h') }"
      and e: "emptied t T T' nb' h g"
    obtain L bs ns' where r: "rehash_loop t T' nb' g (hd (ns @ [head t])) = Some (g\<lparr>lists := L, arrs := (arrs g)(buckets T' \<mapsto> bs)\<rparr>)"
      "hring (g\<lparr>lists := L, arrs := (arrs g)(buckets T' \<mapsto> bs)\<rparr>) (head t) ns'"
      "buckets_ok t T' nb' (g\<lparr>lists := L, arrs := (arrs g)(buckets T' \<mapsto> bs)\<rparr>) ns'"
      "set ns' = set ns" "length ns' = length ns"
      using emptied_loop [OF e i(3,4)] by metis
    define h' where "h' = g\<lparr>lists := L, arrs := (arrs g)(buckets T' \<mapsto> bs)\<rparr>"
    have len: "length ns < unat nb'"
      using full nb'(2) by (simp add: word_less_nat_alt)
    have ow: "owns t T' ns' base h'" if "owns t T ns base h" for base
      using owns_new_buckets [OF assms(1) that, of T' h' _ ns'] e r(4) by (simp add: emptied_def h'_def heap_simps)
    show thesis
    proof (rule Done)
      show "hashtable_do_rehash t h = Some (0, h')"
        using run r(1) by (simp add: h'_def)
      show "ht_inv t T' ns' h'"
        using emptied_inv [OF assms(1) e h'_def] r(2-5) len by (simp add: h'_def)
    qed (use r(4,5) e i(1) nb'(2) len ow in \<open>auto simp: emptied_def h'_def\<close>)
  qed (rule Fail)
qed

subsection \<open>Storing a pair\<close>

definition key_call :: "nc_hashtable \<Rightarrow> addr \<Rightarrow> call list" where
  "key_call T k = (if free_key T then [FreeKey k] else [])"

definition value_call :: "nc_hashtable \<Rightarrow> addr \<Rightarrow> call list" where
  "value_call T v = (if free_value T then [FreeValue v] else [])"

lemma call_free_simps [simp]:
  "call_free_key T k h = h\<lparr>calls := calls h @ key_call T k\<rparr>"
  "call_free_value T v h = h\<lparr>calls := calls h @ value_call T v\<rparr>"
  by (simp_all add: call_free_key_def call_free_value_def key_call_def value_call_def)

definition pair_calls :: "nc_hashtable \<Rightarrow> ht_heap \<Rightarrow> addr \<Rightarrow> call list" where
  "pair_calls T h n = key_call T (fst (entry h n)) @ value_call T (snd (entry h n))"

text \<open>
  The ledger of a table: the callbacks it has made, and those it still owes for the pairs it
  holds. What a caller hands over is entered once, and nothing ever leaves.
\<close>

definition ledger :: "nc_hashtable \<Rightarrow> addr list \<Rightarrow> ht_heap \<Rightarrow> call multiset" where
  "ledger T ns h = mset (calls h) + (\<Sum>n \<in> set ns. mset (pair_calls T h n))"

lemma ledger_cong:
  assumes "same_callbacks T T'" "set ns' = set ns" "\<And>n. n \<in> set ns \<Longrightarrow> entry h' n = entry h n" "calls h' = calls h"
  shows "ledger T' ns' h' = ledger T ns h"
proof -
  have "pair_calls T' h' n = pair_calls T h n" if "n \<in> set ns" for n
    using assms(1,3) that by (simp add: pair_calls_def key_call_def value_call_def same_callbacks_def)
  then show ?thesis
    using assms(2,4) by (simp add: ledger_def)
qed

lemma ledger_put_old:
  assumes "n \<in> set ns" "\<And>m. m \<in> set ns \<Longrightarrow> entry h' m = (if m = n then (fst (entry h n), v) else entry h m)"
    and "calls h' = calls h @ key_call T k @ value_call T (snd (entry h n))"
  shows "ledger T ns h' = ledger T ns h + mset (key_call T k @ value_call T v)"
proof -
  have "(\<Sum>m \<in> set ns - {n}. mset (pair_calls T h' m)) = (\<Sum>m \<in> set ns - {n}. mset (pair_calls T h m))"
    using assms(2) by (intro sum.cong) (simp_all add: pair_calls_def)
  then show ?thesis
    using assms by (simp add: ledger_def sum.remove [OF _ assms(1)] pair_calls_def ac_simps)
qed

lemma ledger_put_new:
  assumes "q \<notin> set ns" "set ns' = insert q (set ns)" "\<And>n. n \<in> set ns \<Longrightarrow> entry h' n = entry h n"
    and "entry h' q = (k, v)" "calls h' = calls h" "same_callbacks T T'"
  shows "ledger T' ns' h' = ledger T ns h + mset (key_call T k @ value_call T v)"
proof -
  have "(\<Sum>m \<in> set ns. mset (pair_calls T' h' m)) = (\<Sum>m \<in> set ns. mset (pair_calls T h m))"
    using assms(3,6) by (intro sum.cong) (simp_all add: pair_calls_def key_call_def value_call_def same_callbacks_def)
  moreover have "pair_calls T' h' q = key_call T k @ value_call T v"
    using assms(4,6) by (simp add: pair_calls_def key_call_def value_call_def same_callbacks_def)
  ultimately show ?thesis
    using assms(1,2,5) by (simp add: ledger_def ac_simps)
qed

lemma ledger_remove:
  assumes "n \<in> set ns" "set ns' = set ns - {n}" "\<And>m. m \<in> set ns' \<Longrightarrow> entry h' m = entry h m"
    and "calls h' = calls h @ pair_calls T h n" "same_callbacks T T'"
  shows "ledger T' ns' h' = ledger T ns h"
proof -
  have "(\<Sum>m \<in> set ns - {n}. mset (pair_calls T' h' m)) = (\<Sum>m \<in> set ns - {n}. mset (pair_calls T h m))"
    using assms(2,3,5) by (intro sum.cong) (simp_all add: pair_calls_def key_call_def value_call_def same_callbacks_def)
  then show ?thesis
    using assms(2,4) by (simp add: ledger_def sum.remove [OF _ assms(1)] ac_simps)
qed

lemma callbacks_okD:
  assumes "callbacks_ok T"
  shows "cmp_keys T a a" "cmp_keys T a b \<Longrightarrow> cmp_keys T b a"
    "cmp_keys T a b \<Longrightarrow> cmp_keys T b c \<Longrightarrow> cmp_keys T a c"
  using assms by (auto simp: callbacks_ok_def intro: equivp_reflp equivp_symp equivp_transp)

lemma table_map_put_new:
  assumes "callbacks_ok T" "keys_apart T h ns" "keys_apart T h' ns'" "set ns' = insert q (set ns)"
    and "\<And>n. n \<in> set ns \<Longrightarrow> entry h' n = entry h n" "entry h' q = (k, v)" "table_map T ns h k = None"
  shows "table_map T ns' h' = map_put (cmp_keys T) k v (table_map T ns h)"
proof
  fix x
  have no: "\<not> cmp_keys T (fst (entry h n)) x" if "n \<in> set ns" "cmp_keys T k x" for n
    using assms(7) that callbacks_okD [OF assms(1)] unfolding table_map_None by blast
  show "table_map T ns' h' x = map_put (cmp_keys T) k v (table_map T ns h) x"
  proof (rule option_eqI)
    fix w
    show "table_map T ns' h' x = Some w \<longleftrightarrow> map_put (cmp_keys T) k v (table_map T ns h) x = Some w"
      using no assms(4-6) by (auto simp: table_map_Some [OF assms(3,1)] map_put_def table_map_Some [OF assms(2,1)])
  qed
qed

lemma table_map_put_old:
  assumes "callbacks_ok T" "keys_apart T h ns" "n \<in> set ns" "cmp_keys T (fst (entry h n)) k"
    and "\<And>m. m \<in> set ns \<Longrightarrow> entry h' m = (if m = n then (fst (entry h n), v) else entry h m)"
  shows "table_map T ns h' = map_put (cmp_keys T) k v (table_map T ns h)"
proof
  fix x
  have ka: "keys_apart T h' ns"
    using assms(2,5) by (auto simp: keys_apart_def)
  have x: "cmp_keys T (fst (entry h n)) x \<longleftrightarrow> cmp_keys T k x"
    using assms(4) callbacks_okD [OF assms(1)] by blast
  have other: "\<not> cmp_keys T (fst (entry h m)) x" if "m \<in> set ns" "m \<noteq> n" "cmp_keys T k x" for m
  proof
    assume "cmp_keys T (fst (entry h m)) x"
    then have "cmp_keys T (fst (entry h m)) (fst (entry h n))"
      using x that callbacks_okD [OF assms(1)] by blast
    then show False
      using assms(2,3) that by (auto simp: keys_apart_def)
  qed
  show "table_map T ns h' x = map_put (cmp_keys T) k v (table_map T ns h) x"
  proof (rule option_eqI)
    fix w
    show "table_map T ns h' x = Some w \<longleftrightarrow> map_put (cmp_keys T) k v (table_map T ns h) x = Some w"
    proof (cases "cmp_keys T k x")
      case True
      then have "table_map T ns h' x = Some w \<longleftrightarrow> w = v"
        using other x assms(3,5) unfolding table_map_Some [OF ka assms(1)] by fastforce
      then show ?thesis
        using True by (auto simp: map_put_def)
    next
      case False
      then show ?thesis
        using x assms(5) unfolding table_map_Some [OF ka assms(1)]
        by (fastforce simp: map_put_def table_map_Some [OF assms(2,1)])
    qed
  qed
qed

lemma table_map_remove:
  assumes "callbacks_ok T" "keys_apart T h ns" "n \<in> set ns" "cmp_keys T (fst (entry h n)) k"
    and "set ns' = set ns - {n}" "keys_apart T h' ns'" "\<And>m. m \<in> set ns' \<Longrightarrow> entry h' m = entry h m"
  shows "table_map T ns' h' = map_del (cmp_keys T) k (table_map T ns h)"
proof
  fix x
  have x: "cmp_keys T (fst (entry h n)) x \<longleftrightarrow> cmp_keys T k x"
    using assms(4) callbacks_okD [OF assms(1)] by blast
  have other: "\<not> cmp_keys T (fst (entry h m)) x" if "m \<in> set ns" "m \<noteq> n" "cmp_keys T k x" for m
  proof
    assume "cmp_keys T (fst (entry h m)) x"
    then have "cmp_keys T (fst (entry h m)) (fst (entry h n))"
      using x that callbacks_okD [OF assms(1)] by blast
    then show False
      using assms(2,3) that by (auto simp: keys_apart_def)
  qed
  show "table_map T ns' h' x = map_del (cmp_keys T) k (table_map T ns h) x"
  proof (rule option_eqI)
    fix w
    show "table_map T ns' h' x = Some w \<longleftrightarrow> map_del (cmp_keys T) k (table_map T ns h) x = Some w"
      using x other assms(5,7)
      by (auto simp: map_del_def table_map_Some [OF assms(2,1)] table_map_Some [OF assms(6,1)])
  qed
qed

text \<open>What changes when the pair of one node is rewritten.\<close>

lemma entry_pair: "pairs h (list_to_pair n) = Some p \<Longrightarrow> entry h n = (key p, value p)"
  by (simp add: entry_def)

lemma set_value_ok:
  fixes C :: "call list" and v :: addr
  assumes "ht_inv t T ns h" "n \<in> set ns" "pairs h (list_to_pair n) = Some p"
  defines "h' \<equiv> h\<lparr>calls := C, pairs := (pairs h)(list_to_pair n \<mapsto> p\<lparr>value := v\<rparr>)\<rparr>"
  shows "ht_inv t T ns h'"
    "\<And>m. m \<in> set ns \<Longrightarrow> entry h' m = (if m = n then (fst (entry h n), v) else entry h m)"
proof -
  show e: "entry h' m = (if m = n then (fst (entry h n), v) else entry h m)" if "m \<in> set ns" for m
    using assms(3) by (simp add: h'_def entry_def)
  obtain nb where i: "num_buckets T = Some nb" "buckets_ok t T nb h ns" "tables h t = Some T"
    "hring h (head t) ns" "nodes_ok T h ns" "ht_size T = of_nat (length ns)"
    "block_size h (buckets T) = Some (16 * unat nb)" "length ns \<le> unat nb" "heap_ok h"
    "block_size h t = Some 72"
    using assms(1) by (rule ht_invD)
  have ib: "in_bucket nb h' = in_bucket nb h"
    using assms(3) by (simp add: fun_eq_iff in_bucket_def hash_at_def h'_def)
  have "bucket_ok t nb h' = bucket_ok t nb h"
    by (intro ext) (simp only: bucket_ok_def ib)
  moreover have "arrs h' = arrs h"
    by (simp add: h'_def)
  ultimately have bk: "buckets_ok t T nb h' ns"
    using i(2) by (simp only: buckets_ok_def simp_thms)
  have "node_ok T h' m" if "m \<in> set ns" for m
  proof (cases "m = n")
    case True
    have "hash p = hash_key T (key p)" "block_size h (list_to_pair n) = Some 40"
      using node_pair [OF i(5) assms(2)] assms(3) by auto
    then show ?thesis
      using True by (simp add: node_ok_def h'_def heap_simps)
  next
    case False
    then show ?thesis
      using i(5) that by (simp add: nodes_ok_def node_ok_def h'_def heap_simps)
  qed
  then have nd: "nodes_ok T h' ns"
    using i(5) e by (simp add: nodes_ok_def keys_apart_def)
  show "ht_inv t T ns h'"
    using i bk nd hring_same [of h' h] by (simp add: ht_inv_def h'_def heap_simps)
qed

lemma set_pair_found:
  assumes "ht_inv t T ns h" "callbacks_ok T"
    and "List.find (\<lambda>n. cmp_keys T (fst (entry h n)) k) ns = Some n"
  shows "\<exists>h'. set_pair t k v h = Some (0, h') \<and> ht_inv t T ns h' \<and>
    table_map T ns h' = map_put (cmp_keys T) k v (table_map T ns h) \<and>
    calls h' = calls h @ key_call T k @ value_call T (snd (entry h n)) \<and> block_size h' = block_size h \<and>
    ledger T ns h' = ledger T ns h + mset (key_call T k @ value_call T v)"
proof -
  obtain nb where i: "num_buckets T = Some nb" "buckets_ok t T nb h ns" "tables h t = Some T"
    "hring h (head t) ns" "nodes_ok T h ns" "ht_size T = of_nat (length ns)"
    "block_size h (buckets T) = Some (16 * unat nb)" "length ns \<le> unat nb" "heap_ok h"
    "block_size h t = Some 72"
    using assms(1) by (rule ht_invD)
  have n: "n \<in> set ns" "cmp_keys T (fst (entry h n)) k"
    using assms(3) by (auto dest: find_SomeD)
  obtain p where p: "pairs h (list_to_pair n) = Some p" "entry h n = (key p, value p)"
    using node_pair [OF i(5) n(1)] by blast
  obtain b where b: "get_bucket T (hash_key T k mod nb) h = Some b"
    "hashtable_find_pair t T b k (hash_key T k) h =
      Some (case List.find (\<lambda>n. cmp_keys T (fst (entry h n)) k) ns of
              None \<Rightarrow> NULL | Some n \<Rightarrow> list_to_pair n)"
    using i(4,2,5) assms(2) mod_nb_less [OF i(1)] by (rule find_pair_ok)
  define h' where "h' = h\<lparr>calls := calls h @ key_call T k @ value_call T (value p),
    pairs := (pairs h)(list_to_pair n \<mapsto> p\<lparr>value := v\<rparr>)\<rparr>"
  have "set_pair t k v h = Some (0, h')"
    using i(1,3) b p node_not_NULL [OF i(9,5) n(1)] assms(3)
    by (simp add: set_pair_def Let_def h'_def)
  moreover have e: "ht_inv t T ns h'"
    "\<And>m. m \<in> set ns \<Longrightarrow> entry h' m = (if m = n then (fst (entry h n), v) else entry h m)"
    unfolding h'_def using set_value_ok [OF assms(1) n(1) p(1)] by blast+
  moreover have "table_map T ns h' = map_put (cmp_keys T) k v (table_map T ns h)"
    using i(5) by (intro table_map_put_old [OF assms(2) _ n e(2)]) (simp_all add: nodes_ok_def)
  moreover have "calls h' = calls h @ key_call T k @ value_call T (snd (entry h n))"
    using p(2) by (simp add: h'_def)
  moreover have "ledger T ns h' = ledger T ns h + mset (key_call T k @ value_call T v)"
    by (rule ledger_put_old [OF n(1) e(2)]) (use p(2) in \<open>simp_all add: h'_def\<close>)
  moreover have "block_size h' = block_size h"
    by (simp add: h'_def heap_simps)
  ultimately show ?thesis
    by blast
qed

text \<open>A new node: the pair is allocated, initialised and linked in front of its class.\<close>

lemma list_init_apart:
  assumes "hring h a ns" "l \<notin> set (a # ns)"
  shows "hring (list_init l h) a ns"
  using assms(2) by (intro ring_cong [OF assms(1)]) (auto simp: list_init_def get_next_def get_prev_def)

lemma keys_apart_insert:
  assumes "keys_apart T h ns" "table_map T ns h k = None" "callbacks_ok T"
    and "\<And>n. n \<in> set ns \<Longrightarrow> entry h' n = entry h n" "entry h' q = (k, v)" "set ns' = insert q (set ns)"
  shows "keys_apart T h' ns'"
proof -
  have "\<not> cmp_keys T (fst (entry h n)) k \<and> \<not> cmp_keys T k (fst (entry h n))" if "n \<in> set ns" for n
    using assms(2) that callbacks_okD(2) [OF assms(3)] unfolding table_map_None by blast
  then show ?thesis
    using assms(1,4-6) by (simp add: keys_apart_def)
qed

lemma new_node_fresh:
  assumes "ht_inv t T ns h" "block_size h q = None"
  shows "pair_list q \<notin> set (head t # ns)"
proof
  assume "pair_list q \<in> set (head t # ns)"
  then consider "q = t" | "pair_list q \<in> set ns"
    by (auto simp: head_def pair_list_def)
  then have "block_size h q \<noteq> None"
  proof cases
    case 2
    have "nodes_ok T h ns"
      using assms(1) by (rule ht_invD)
    then show ?thesis
      by (rule node_pair [OF _ 2]) simp
  qed (use assms(1) in \<open>simp add: ht_inv_def\<close>)
  then show False
    using assms(2) by simp
qed

text \<open>The pairs after a new one has been stored at \<open>q\<close>.\<close>

lemma nodes_ok_new:
  fixes v :: addr
  assumes n: "nodes_ok T h ns" "callbacks_ok T" "table_map T ns h k = None" "pair_list q \<notin> set ns"
    and h': "pairs h' = (pairs h)(q \<mapsto> \<lparr>key = k, value = v, hash = hash_key T k\<rparr>)" "block_size h' = (block_size h)(q \<mapsto> 40)"
    and s: "same_callbacks T T'" "set ns' = insert (pair_list q) (set ns)"
  shows "nodes_ok T' h' ns'" "entry h' (pair_list q) = (k, v)" "\<And>n. n \<in> set ns \<Longrightarrow> entry h' n = entry h n"
proof -
  have ne: "list_to_pair n \<noteq> q" if "n \<in> set ns" for n
    using n(4) that by auto
  show e: "entry h' (pair_list q) = (k, v)" "\<And>n. n \<in> set ns \<Longrightarrow> entry h' n = entry h n"
    using h'(1) ne by (simp_all add: entry_def)
  have "node_ok T' h' m" if "m \<in> set ns'" for m
  proof (cases "m = pair_list q")
    case True
    then show ?thesis
      using h' s(1) by (simp add: node_ok_def same_callbacks_def)
  next
    case False
    then have m: "m \<in> set ns"
      using that s(2) by simp
    obtain p where "pairs h (list_to_pair m) = Some p" "hash p = hash_key T (key p)" "block_size h (list_to_pair m) = Some 40"
      using node_pair [OF n(1) m] by metis
    then show ?thesis
      using ne [OF m] h' s(1) by (simp add: node_ok_def same_callbacks_def)
  qed
  moreover have "keys_apart T h' ns'"
    using keys_apart_insert [OF _ n(3,2) e(2,1) s(2)] n(1) by (simp add: nodes_ok_def)
  ultimately show "nodes_ok T' h' ns'"
    using s(1) by (simp add: nodes_ok_def keys_apart_def same_callbacks_def)
qed

lemma insert_new_ok:
  fixes v :: addr
  assumes inv: "ht_inv t T ns h" and room: "num_buckets T = Some nb" "length ns < unat nb"
    and cb: "callbacks_ok T" and none: "table_map T ns h k = None"
    and q: "q \<noteq> NULL" "block_size h q = None"
    and h2: "block_size h2 = (block_size h)(q \<mapsto> 40)" "heap_ok h2" "lists h2 = lists h"
      "pairs h2 = pairs h" "arrs h2 = arrs h" "tables h2 = tables h"
  defines "T' \<equiv> T\<lparr>ht_size := ht_size T + 1\<rparr>"
  defines "h3 \<equiv> h2\<lparr>pairs := (pairs h2)(q \<mapsto> \<lparr>key = k, value = v, hash = hash_key T k\<rparr>)\<rparr>"
  shows "\<exists>h4 ns'. insert_to_bucket t T (hash_key T k mod nb) (pair_list q)
      (list_init (pair_list q) h3) = Some h4 \<and> ht_inv t T' ns' (put_table t T' h4) \<and>
    table_map T' ns' (put_table t T' h4) = map_put (cmp_keys T) k v (table_map T ns h) \<and>
    set ns' = insert (pair_list q) (set ns) \<and> length ns' = Suc (length ns) \<and>
    calls h4 = calls h2 \<and> block_size (put_table t T' h4) = block_size h2 \<and>
    offers (put_table t T' h4) = offers h2 \<and> live (put_table t T' h4) = live h2 \<and>
    (calls h2 = calls h \<longrightarrow>
       ledger T' ns' (put_table t T' h4) = ledger T ns h + mset (key_call T k @ value_call T v))"
proof -
  obtain nb' where i: "num_buckets T = Some nb'" "buckets_ok t T nb' h ns" "tables h t = Some T"
    "hring h (head t) ns" "nodes_ok T h ns" "ht_size T = of_nat (length ns)"
    "block_size h (buckets T) = Some (16 * unat nb')" "length ns \<le> unat nb'" "heap_ok h"
    "block_size h t = Some 72"
    using inv by (rule ht_invD)
  have nb': "nb' = nb"
    using i(1) room(1) by simp
  define g where "g = list_init (pair_list q) h3"
  have new: "pair_list q \<notin> set (head t # ns)"
    using new_node_fresh [OF inv q(2)] .
  have sp: "same_pairs h g ns"
    using new h2(4) by (auto simp: same_pairs_def g_def list_init_def h3_def)
  have gb: "block_size g = (block_size h)(q \<mapsto> 40)" "heap_ok g" "arrs g = arrs h" "tables g = tables h"
    using h2 by (simp_all add: g_def list_init_def h3_def heap_simps)
  have ring: "hring g (head t) ns"
  proof -
    have "hring h3 (head t) ns"
      using i(4) h2(3) hring_same [of h3 h] by (simp add: h3_def)
    then show ?thesis
      unfolding g_def using new by (rule list_init_apart)
  qed
  have bk: "buckets_ok t T nb g ns"
    using buckets_ok_same [OF sp _ i(2)] gb(3) nb' by simp
  have hash_q: "hash_key T k mod nb = hash_at g (pair_list q) mod nb"
    by (simp add: hash_at_def g_def list_init_def h3_def)
  have lq: "lists g (pair_list q) \<noteq> None"
    by (simp add: g_def list_init_def)
  let ?ns = "insert_class (in_bucket nb g (hash_key T k mod nb)) (pair_list q) ns"
  obtain L bs where r: "insert_to_bucket t T (hash_key T k mod nb) (pair_list q) g =
      Some (g\<lparr>lists := L, arrs := (arrs g)(buckets T \<mapsto> bs)\<rparr>)"
    "hring (g\<lparr>lists := L, arrs := (arrs g)(buckets T \<mapsto> bs)\<rparr>) (head t) ?ns"
    "buckets_ok t T nb (g\<lparr>lists := L, arrs := (arrs g)(buckets T \<mapsto> bs)\<rparr>) ?ns"
    using insert_to_bucket_ok [OF ring bk new lq hash_q mod_nb_less [OF room(1)]] by metis
  define h4 where "h4 = g\<lparr>lists := L, arrs := (arrs g)(buckets T \<mapsto> bs)\<rparr>"
  define h5 where "h5 = put_table t T' h4"
  have h5: "pairs h5 = pairs g" "block_size h5 = block_size g" "heap_ok h5" "tables h5 t = Some T'"
    "lists h5 = lists h4" "arrs h5 = arrs h4"
    using gb by (simp_all add: h5_def h4_def put_table_def heap_simps)
  have sc: "same_callbacks T T'"
    by (simp add: T'_def)
  have gp: "pairs h5 = (pairs h)(q \<mapsto> \<lparr>key = k, value = v, hash = hash_key T k\<rparr>)" "block_size h5 = (block_size h)(q \<mapsto> 40)"
    using h5(1,2) gb(1) h2(4) by (simp_all add: g_def list_init_def h3_def)
  have "pair_list q \<notin> set ns" "set ?ns = insert (pair_list q) (set ns)"
    using new by simp_all
  note nd = nodes_ok_new(1) [OF i(5) cb none this(1) gp sc this(2)] and e = nodes_ok_new(2,3) [OF i(5) cb none this(1) gp sc this(2)]
  have bt: "block_size h5 t = Some 72" "block_size h5 (buckets T') = Some (16 * unat nb)"
    using i(7,10) q(2) h5(2) gb(1) nb' by (auto simp: T'_def)
  have "buckets_ok t T' nb h5 ?ns"
    by (rule buckets_ok_same [OF _ _ r(3)]) (simp_all add: h5_def h4_def put_table_def T'_def)
  moreover have "hring h5 (head t) ?ns"
    using r(2) hring_same [of h5 h4] h5(5) by (simp add: h4_def)
  ultimately have inv': "ht_inv t T' ?ns h5"
    using h5(3,4) bt nd i(6) room by (simp add: ht_inv_def T'_def)
  have "table_map T' ?ns h5 = map_put (cmp_keys T) k v (table_map T ns h)"
  proof -
    have "table_map T ?ns h5 = map_put (cmp_keys T) k v (table_map T ns h)"
      using nd i(5) by (intro table_map_put_new [OF cb _ _ _ e(2) e(1) none])
        (simp_all add: nodes_ok_def keys_apart_def T'_def)
    then show ?thesis
      by (simp add: table_map_def T'_def fun_eq_iff)
  qed
  moreover have "block_size h5 = block_size h2"
    using h5(2) by (simp add: g_def list_init_def h3_def heap_simps)
  moreover have "calls h4 = calls h2" "offers h5 = offers h2" "live h5 = live h2"
    by (simp_all add: h5_def put_table_def h4_def g_def list_init_def h3_def)
  moreover have "ledger T' ?ns h5 = ledger T ns h + mset (key_call T k @ value_call T v)" if "calls h2 = calls h"
    using that new by (intro ledger_put_new [OF _ _ e(2,1) _ sc])
      (simp_all add: h5_def put_table_def h4_def g_def list_init_def h3_def)
  ultimately show ?thesis
    using inv' r(1) unfolding h5_def h4_def g_def
    by (intro exI [of _ h4] exI [of _ ?ns]) (simp add: h4_def g_def)
qed

text \<open>
  The effect of a store on the map, the number of pairs and the callbacks made: the old value and
  the new key go to the callbacks when the key was present; a failure changes nothing.
\<close>

type_synonym table_view = "(addr \<Rightarrow> addr option) \<times> nat \<times> call list \<times> call multiset"

definition store_effect :: "nc_hashtable \<Rightarrow> addr \<Rightarrow> addr \<Rightarrow> int \<Rightarrow> table_view \<Rightarrow> table_view \<Rightarrow> bool" where
  "store_effect T k v rc s s' = (case (s, s') of ((m, l, c, g), (m', l', c', g')) \<Rightarrow>
     rc = 0 \<and> m' = map_put (cmp_keys T) k v m \<and> l' = (if m k = None then Suc l else l) \<and>
       c' = c @ (case m k of None \<Rightarrow> [] | Some w \<Rightarrow> key_call T k @ value_call T w) \<and>
       g' = g + mset (key_call T k @ value_call T v) \<or>
     rc = - 1 \<and> m' = m \<and> l' = l \<and> m k = None \<and> c' = c \<and> g' = g)"

lemma store_effect_same:
  assumes "same_callbacks T T'"
  shows "store_effect T' = store_effect T"
proof -
  have eq: "key_call T' = key_call T" "value_call T' = value_call T" "cmp_keys T' = cmp_keys T"
    using assms by (simp_all add: same_callbacks_def key_call_def value_call_def fun_eq_iff)
  show ?thesis
    unfolding fun_eq_iff store_effect_def eq by simp
qed

text \<open>What the caller of the table sees.\<close>

definition table_state :: "nc_hashtable \<Rightarrow> addr list \<Rightarrow> ht_heap \<Rightarrow> table_view" where
  "table_state T ns h = (table_map T ns h, length ns, calls h, ledger T ns h)"

text \<open>Storing into a table with a free slot.\<close>

lemma set_pair_ok:
  assumes "ht_inv t T ns h" "callbacks_ok T" "num_buckets T = Some nb" "length ns < unat nb"
  shows "\<exists>rc T' ns' h'. set_pair t k v h = Some (rc, h') \<and> ht_inv t T' ns' h' \<and> same_callbacks T T' \<and>
    store_effect T k v rc (table_state T ns h) (table_state T' ns' h') \<and>
    (\<forall>base. owns t T ns base h \<longrightarrow> owns t T' ns' base h')"
proof (cases "List.find (\<lambda>n. cmp_keys T (fst (entry h n)) k) ns")
  case (Some n)
  then obtain h' where h': "set_pair t k v h = Some (0, h')" "ht_inv t T ns h'"
    "table_map T ns h' = map_put (cmp_keys T) k v (table_map T ns h)"
    "calls h' = calls h @ key_call T k @ value_call T (snd (entry h n))" "block_size h' = block_size h"
    "ledger T ns h' = ledger T ns h + mset (key_call T k @ value_call T v)"
    using set_pair_found [OF assms(1,2)] by blast
  moreover have "owns t T ns base h'" if "owns t T ns base h" for base
    using owns_same [OF that] h'(5) by blast
  ultimately show ?thesis
    using Some by (intro exI [of _ 0] exI [of _ T] exI [of _ ns] exI [of _ h'])
      (simp add: store_effect_def table_state_def, simp add: table_map_def)
next
  case None
  have none: "table_map T ns h k = None"
    using None by (simp add: table_map_def)
  have i: "tables h t = Some T" "hring h (head t) ns" "buckets_ok t T nb h ns" "nodes_ok T h ns" "heap_ok h"
    using assms(1,3) by (auto simp: ht_inv_def)
  obtain b where b: "get_bucket T (hash_key T k mod nb) h = Some b"
    "hashtable_find_pair t T b k (hash_key T k) h =
      Some (case List.find (\<lambda>n. cmp_keys T (fst (entry h n)) k) ns of
              None \<Rightarrow> NULL | Some n \<Rightarrow> list_to_pair n)"
    using i(2-4) assms(2) mod_nb_less [OF assms(3)] by (rule find_pair_ok)
  obtain q h2 where al: "nc_alloc sizeof_pair h = (q, h2)"
    by fastforce
  show ?thesis
  proof (cases "q = NULL")
    case True
    then obtain as where h2: "h2 = h\<lparr>offers := as\<rparr>"
      using nc_alloc_cases [OF al] by blast
    have "set_pair t k v h = Some (- 1, h2)"
      using i(1) assms(3) b None al True by (simp add: set_pair_def Let_def)
    moreover have inv: "ht_inv t T ns h2"
    proof -
      have "nodes_ok T h2 ns" "buckets_ok t T nb h2 ns" "hring h2 (head t) ns"
        using nodes_ok_same [OF _ _ _ i(4), of h2 T] buckets_ok_same [OF _ _ i(3), of h2 T] i(2)
          hring_same [of h2 h] h2 by (simp_all add: heap_simps)
      then show ?thesis
        using assms(1,3) h2 by (simp add: ht_inv_def heap_simps)
    qed
    moreover have "table_map T ns h2 = table_map T ns h"
      using h2 by (simp add: table_map_def entry_def fun_eq_iff)
    moreover have "ledger T ns h2 = ledger T ns h"
      using h2 by (intro ledger_cong) (simp_all add: entry_def)
    moreover have "owns t T ns base h2" if "owns t T ns base h" for base
      using owns_same [OF that, of h2 T ns] h2 by (simp add: heap_simps)
    ultimately show ?thesis
      using none h2 by (intro exI [of _ "- 1"] exI [of _ T] exI [of _ ns] exI [of _ h2])
        (simp add: store_effect_def table_state_def)
  next
    case False
    then obtain as where h2: "block_size h q = None"
      "h2 = h\<lparr>offers := as, live := (q, unat sizeof_pair) # live h\<rparr>"
      "block_size h2 = (block_size h)(q \<mapsto> unat sizeof_pair)"
      using nc_alloc_cases [OF al] by blast
    define T' where "T' = T\<lparr>ht_size := ht_size T + 1\<rparr>"
    have "block_size h2 = (block_size h)(q \<mapsto> 40)"
      using h2(3) by (simp add: sizeof_pair_def)
    then obtain h4 ns' where r: "insert_to_bucket t T (hash_key T k mod nb) (pair_list q)
        (list_init (pair_list q) (h2\<lparr>pairs := (pairs h2)(q \<mapsto> \<lparr>key = k, value = v, hash = hash_key T k\<rparr>)\<rparr>)) = Some h4"
      "ht_inv t T' ns' (put_table t T' h4)"
      "table_map T' ns' (put_table t T' h4) = map_put (cmp_keys T) k v (table_map T ns h)"
      "length ns' = Suc (length ns)" "calls h4 = calls h2" "set ns' = insert (pair_list q) (set ns)"
      "block_size (put_table t T' h4) = block_size h2"
      "ledger T' ns' (put_table t T' h4) = ledger T ns h + mset (key_call T k @ value_call T v)"
      unfolding T'_def
      using insert_new_ok [OF assms(1,3,4,2) none False h2(1), of h2 v] h2(2)
        heap_ok_nc_alloc [OF i(5) al] by auto
    have "set_pair t k v h = Some (0, put_table t T' h4)"
      using i(1) assms(3) b None al False r(1) by (simp add: set_pair_def Let_def T'_def)
    moreover have "owns t T' ns' base (put_table t T' h4)" if "owns t T ns base h" for base
      using owns_new_node [OF assms(1) that h2(1), of "put_table t T' h4" _ T' ns'] h2(3) r(6,7)
      by (simp add: T'_def)
    ultimately show ?thesis
      using r(2-5,8) none h2(2) by (intro exI [of _ 0] exI [of _ T'] exI [of _ ns'] exI [of _ "put_table t T' h4"])
        (simp add: store_effect_def table_state_def, simp add: T'_def put_table_def)
  qed
qed

text \<open>
  The whole of \<open>nc_hashtable_set\<close>. The third outcome is a failed rehash: the bucket array has been
  released and nothing has replaced it.
\<close>

text \<open>
  What a table keeps even then, and all that clearing and destroying it need: the struct, the ring
  of its pairs, and either a bucket array or a null pointer in its place.
\<close>

definition table_shell :: "addr \<Rightarrow> nc_hashtable \<Rightarrow> addr list \<Rightarrow> ht_heap \<Rightarrow> bool" where
  "table_shell t T ns h \<longleftrightarrow> heap_ok h \<and> tables h t = Some T \<and> block_size h t = Some 72 \<and>
     hring h (head t) ns \<and> nodes_ok T h ns \<and>
     (buckets T = NULL \<or> (\<exists>nb :: size_t. block_size h (buckets T) = Some (16 * unat nb)))"

text \<open>A table that has lost its buckets and nothing else: it owns the same pairs and owes the same callbacks.\<close>

definition bucketless :: "addr \<Rightarrow> nc_hashtable \<Rightarrow> addr list \<Rightarrow> ht_heap \<Rightarrow> ht_heap \<Rightarrow> bool" where
  "bucketless t T ns h h' \<longleftrightarrow> (\<exists>T'. table_shell t T' ns h' \<and> buckets T' = NULL \<and> same_callbacks T T' \<and>
     calls h' = calls h \<and> ledger T' ns h' = ledger T ns h \<and> (\<forall>base. owns t T ns base h \<longrightarrow> owns t T' ns base h'))"

lemma ht_inv_shell: "ht_inv t T ns h \<Longrightarrow> table_shell t T ns h"
  by (auto simp: ht_inv_def table_shell_def)

lemma shell_apart:
  assumes "table_shell t T ns h"
  shows "buckets T \<noteq> t" "t \<notin> list_to_pair ` set ns" "buckets T \<notin> list_to_pair ` set ns"
proof -
  have d: "16 * k \<noteq> 72" "16 * k \<noteq> 40" for k :: nat
    by presburger+
  have i: "block_size h t = Some 72" "nodes_ok T h ns" "heap_ok h" "block_size h NULL = None"
    using assms by (auto simp: table_shell_def block_size_NULL)
  have n: "block_size h (list_to_pair n) = Some 40" if "n \<in> set ns" for n
    using node_pair [OF i(2) that] by auto
  show "t \<notin> list_to_pair ` set ns"
    using n i(1) by fastforce
  show "buckets T \<noteq> t" "buckets T \<notin> list_to_pair ` set ns"
    using assms n i(1,4) d by (fastforce simp: table_shell_def)+
qed

lemma lost_bucketless:
  assumes "ht_inv t T ns h" "lost_buckets T h h'" "tables h' t = Some (T\<lparr>buckets := NULL, num_ix := num_ix T + 1\<rparr>)"
  shows "bucketless t T ns h h'"
proof -
  define T' where "T' = T\<lparr>buckets := NULL, num_ix := num_ix T + 1\<rparr>"
  have i: "heap_ok h" "block_size h t = Some 72" "hring h (head t) ns" "nodes_ok T h ns"
    using assms(1) by (auto simp: ht_inv_def)
  have l: "heap_ok h'" "block_size h' = (block_size h)(buckets T := None)" "lists h' = lists h" "pairs h' = pairs h"
    "calls h' = calls h"
    using assms(2) by (simp_all add: lost_buckets_def)
  have sc: "same_callbacks T T'"
    by (simp add: T'_def same_callbacks_def)
  have "same_sizes h h' ns"
    using buckets_apart(2) [OF assms(1)] by (simp add: same_sizes_def l(2)) metis
  then have "nodes_ok T' h' ns"
    using nodes_ok_same [OF _ _ sc i(4)] l(4) by (simp add: same_pairs_def)
  moreover have "hring h' (head t) ns"
    using i(3) hring_same [of h' h] l(3) by simp
  ultimately have "table_shell t T' ns h'"
    using l(1,2) i(2) buckets_apart(1) [OF assms(1)] assms(3) by (auto simp: table_shell_def T'_def)
  moreover have "ledger T' ns h' = ledger T ns h"
    by (rule ledger_cong [OF sc refl _ l(5)]) (simp add: entry_def l(4))
  moreover have "owns t T' ns base h'" if "owns t T ns base h" for base
  proof -
    have "base NULL = None"
      using that block_size_NULL [OF i(1)] by (cases "NULL \<in> table_blocks t T ns") (auto simp: owns_def)
    then show ?thesis
      using that l(2) by (auto simp: owns_def table_blocks_def T'_def)
  qed
  ultimately show ?thesis
    using sc l(5) unfolding bucketless_def by (intro exI [of _ T']) (simp add: T'_def)
qed

definition no_buckets :: "addr \<Rightarrow> ht_heap \<Rightarrow> bool" where
  "no_buckets t h \<longleftrightarrow> (\<exists>T. tables h t = Some T \<and> buckets T = NULL)"

definition set_result :: "addr \<Rightarrow> nc_hashtable \<Rightarrow> addr list \<Rightarrow> ht_heap \<Rightarrow> addr \<Rightarrow> addr \<Rightarrow> int \<Rightarrow> ht_heap \<Rightarrow> bool" where
  "set_result t T ns h k v rc h' \<longleftrightarrow>
    (\<exists>T' ns'. ht_inv t T' ns' h' \<and> same_callbacks T T' \<and>
      store_effect T k v rc (table_state T ns h) (table_state T' ns' h') \<and>
      (\<forall>base. owns t T ns base h \<longrightarrow> owns t T' ns' base h')) \<or>
    rc = - 1 \<and> no_buckets t h' \<and> bucketless t T ns h h' \<and> (\<exists>nb. num_buckets T = Some nb \<and> length ns = unat nb)"

lemma set_ok:
  assumes "ht_inv t T ns h" "callbacks_ok T" "length ns < 1610612741"
  shows "\<exists>rc h'. nc_hashtable_set t k v h = Some (rc, h') \<and> set_result t T ns h k v rc h'"
proof -
  obtain nb where i: "num_buckets T = Some nb" "tables h t = Some T" "ht_size T = of_nat (length ns)"
    "length ns \<le> unat nb" "nodes_ok T h ns"
    using assms(1) by (auto simp: ht_inv_def)
  have sz: "unat (ht_size T) = length ns"
    using i(3) assms(3) by (simp add: unat_of_nat_ok)
  show ?thesis
  proof (cases "ht_size T \<ge> nb")
    case False
    then have "length ns < unat nb"
      using sz by (simp add: word_le_nat_alt)
    from set_pair_ok [OF assms(1,2) i(1) this, of k v]
    obtain rc T' ns' h' where "set_pair t k v h = Some (rc, h')" "ht_inv t T' ns' h'" "same_callbacks T T'"
      "store_effect T k v rc (table_state T ns h) (table_state T' ns' h')"
      "\<forall>base. owns t T ns base h \<longrightarrow> owns t T' ns' base h'"
      by blast
    then show ?thesis
      using i(1,2) False unfolding set_result_def nc_hashtable_set_def by auto
  next
    case True
    then have full: "length ns = unat nb"
      using sz i(4) by (simp add: word_le_nat_alt)
    show ?thesis
    proof (rule rehash_ok [OF assms(1,3) True i(1)])
      fix h'
      assume f: "hashtable_do_rehash t h = Some (- 1, h')"
        "tables h' t = Some (T\<lparr>buckets := NULL, num_ix := num_ix T + 1\<rparr>)" "lost_buckets T h h'"
      have "no_buckets t h'" "bucketless t T ns h h'"
        using f(2) lost_bucketless [OF assms(1) f(3,2)] by (simp_all add: no_buckets_def)
      then show ?thesis
        using i(1,2) True f(1) full
        by (intro exI [of _ "- 1"] exI [of _ h']) (simp add: nc_hashtable_set_def set_result_def)
    next
      fix T1 ns1 h1
      assume r: "hashtable_do_rehash t h = Some (0, h1)" "ht_inv t T1 ns1 h1" "set ns1 = set ns"
        "length ns1 = length ns" "pairs h1 = pairs h" "same_callbacks T T1" "calls h1 = calls h"
        "\<And>nb'. num_buckets T1 = Some nb' \<Longrightarrow> length ns1 < unat nb'"
        "\<And>base. owns t T ns base h \<Longrightarrow> owns t T1 ns1 base h1"
      obtain nb1 where nb1: "num_buckets T1 = Some nb1"
        using r(2) by (auto simp: ht_inv_def)
      have cb1: "callbacks_ok T1"
        using callbacks_ok_same [OF r(6)] assms(2) by simp
      have m1: "table_map T1 ns1 h1 = table_map T ns h"
        using i(5) r(3,5,6) assms(2) by (intro table_map_same) (simp_all add: nodes_ok_def)
      have sc: "store_effect T1 = store_effect T" "same_callbacks T1 T' \<Longrightarrow> same_callbacks T T'" for T'
        using store_effect_same [OF r(6)] r(6) by (auto simp: same_callbacks_def)
      have st: "table_state T1 ns1 h1 = table_state T ns h"
        using m1 r(4,7) ledger_cong [OF r(6,3) _ r(7)] r(5) by (simp add: table_state_def entry_def)
      obtain rc T' ns' h' where s: "set_pair t k v h1 = Some (rc, h')" "ht_inv t T' ns' h'"
        "same_callbacks T T'" "store_effect T k v rc (table_state T ns h) (table_state T' ns' h')"
        "\<forall>base. owns t T ns base h \<longrightarrow> owns t T' ns' base h'"
        using set_pair_ok [OF r(2) cb1 nb1 r(8) [OF nb1], of k v] sc st r(9) by auto
      then have "set_result t T ns h k v rc h'"
        unfolding set_result_def by blast
      moreover have "nc_hashtable_set t k v h = Some (rc, h')"
        using i(1,2) True r(1) s(1) by (simp add: nc_hashtable_set_def)
      ultimately show ?thesis
        by blast
    qed
  qed
qed

subsection \<open>Deleting a pair\<close>

lemma ring_pair_next: "hring h a (xs @ x # y # ys) \<Longrightarrow> get_next h x = Some y"
  and ring_pair_prev: "hring h a (xs @ x # y # ys) \<Longrightarrow> get_prev h y = Some x"
  by (blast intro: ring_next ring_prev)+

text \<open>The bucket that \<open>hashtable_do_del\<close> leaves, for each place of the node in its class.\<close>

lemma unlink_bucket_ok:
  assumes ring: "hring h (head t) ns" and bk: "buckets_ok t T nb h ns" and n: "n \<in> set ns"
    and i: "i = hash_at h n mod nb" "i < nb"
  obtains bs where "unlink_bucket t T i n h = Some (h\<lparr>arrs := (arrs h)(buckets T \<mapsto> bs)\<rparr>)"
    "buckets_ok t T nb (h\<lparr>arrs := (arrs h)(buckets T \<mapsto> bs)\<rparr>) (remove1 n ns)"
proof -
  let ?P = "in_bucket nb h i"
  define S where "S = filter ?P ns"
  obtain b where b: "get_bucket T i h = Some b" "bucket_ok t nb h ns i b"
    using get_bucket_ok [OF bk i(2)] by blast
  have nS: "n \<in> set S"
    using n i(1) by (simp add: S_def in_bucket_def)
  then have fl: "b_first b = hd S" "b_last b = last S"
    using b(2) by (auto simp: bucket_ok_def Let_def simp flip: S_def split: if_splits)
  have dS: "distinct S"
    using ring by (simp add: S_def ring_def)
  obtain xs ys where ns: "ns = xs @ S @ ys"
    using b(2) contig_split [of ?P ns] by (auto simp: bucket_ok_def S_def)
  have fr: "filter ?P (remove1 n ns) = remove1 n S"
    by (simp add: S_def filter_remove1)
  have cr: "contig ?P (remove1 n ns)"
    using b(2) by (simp add: bucket_ok_def contig_remove1)
  have other: "bucket_ok t nb h (remove1 n ns) j c" if "j \<noteq> i" "bucket_ok t nb h ns j c" for j c
  proof -
    have "\<not> in_bucket nb h j n"
      using that(1) i(1) by (simp add: in_bucket_def)
    then have "filter (in_bucket nb h j) (remove1 n ns) = filter (in_bucket nb h j) ns"
      by (simp add: filter_remove1 remove1_idem)
    then show ?thesis
      using that(2) by (simp add: bucket_ok_def contig_remove1)
  qed
  have own: "bucket_ok t nb h (remove1 n ns) i c"
    if "if remove1 n S = [] then c = \<lparr>b_first = head t, b_last = head t\<rparr>
        else b_first c = hd (remove1 n S) \<and> b_last c = last (remove1 n S)" for c
    using that cr by (simp add: bucket_ok_def Let_def fr)
  have set: thesis if "bucket_ok t nb h (remove1 n ns) i c" "unlink_bucket t T i n h = set_bucket T i c h" for c
    using set_bucket_ok [OF bk i(2) refl refl that(1)] other that(2)
      \<open>\<And>bs. unlink_bucket t T i n h = Some (h\<lparr>arrs := (arrs h)(buckets T \<mapsto> bs)\<rparr>) \<Longrightarrow>
        buckets_ok t T nb (h\<lparr>arrs := (arrs h)(buckets T \<mapsto> bs)\<rparr>) (remove1 n ns) \<Longrightarrow> thesis\<close>
    by metis
  consider (one) "S = [n]" | (first) y zs where "S = n # y # zs" | (last) y zs where "S = zs @ [y, n]"
    | (mid) x as bs y where "S = (x # as) @ n # bs @ [y]"
  proof -
    obtain as bs where S: "S = as @ n # bs"
      using nS by (meson split_list)
    consider "as = []" "bs = []" | y zs where "as = []" "bs = y # zs" | y zs where "as = zs @ [y]" "bs = []"
      | x as' bs' y where "as = x # as'" "bs = bs' @ [y]"
      by (metis list.exhaust rev_exhaust)
    then show thesis
      by cases (use S that in simp_all)
  qed
  then show thesis
  proof cases
    case one
    then show thesis
      using b(1) fl by (intro set [of "\<lparr>b_first = head t, b_last = head t\<rparr>"] own)
        (simp_all add: unlink_bucket_def)
  next
    case first
    have "get_next h n = Some y"
      using ring first ns ring_pair_next [of h "head t" xs n y "zs @ ys"] by simp
    moreover have "last S \<noteq> n"
      using first dS by auto
    ultimately show thesis
      using b(1) fl first dS by (intro set [of "b\<lparr>b_first := y\<rparr>"] own) (auto simp: unlink_bucket_def)
  next
    case last
    have "get_prev h n = Some y"
      using ring last ns ring_pair_prev [of h "head t" "xs @ zs" y n ys] by simp
    moreover have "hd S \<noteq> n" "remove1 n S = zs @ [y]" "hd S = hd (zs @ [y])"
      using last dS by (cases zs; auto simp: remove1_append)+
    ultimately show thesis
      using b(1) fl last by (intro set [of "b\<lparr>b_last := y\<rparr>"] own) (auto simp: unlink_bucket_def)
  next
    case mid
    have "hd S \<noteq> n" "last S \<noteq> n" "remove1 n S = (x # as) @ bs @ [y]" "hd S = x" "last S = y"
      using mid dS by (auto simp: remove1_append)
    moreover obtain cs where "arrs h (buckets T) = Some cs" "unat i < length cs" "b = cs ! unat i"
      "buckets T \<noteq> NULL"
      using b(1) by (auto simp: get_bucket_def bind_eq_Some_conv split: if_splits)
    ultimately show thesis
      using b(1) fl by (intro set [of b] own) (simp_all add: unlink_bucket_def set_bucket_def fun_upd_idem)
  qed
qed

lemma find_pair_node:
  assumes "List.find P ns = Some n" "ns = as @ n # bs" "distinct ns"
  shows "remove1 n ns = as @ bs" "set (remove1 n ns) = set ns - {n}"
  using assms(2,3) by (auto simp: remove1_append)

text \<open>Releasing the pair of a node that has been unlinked.\<close>

lemma free_pair_ok:
  assumes "heap_ok h" "block_size h (list_to_pair n) = Some 40"
  shows "\<exists>h'. free_pair (list_to_pair n) h = Some h' \<and> heap_ok h' \<and>
    block_size h' = (block_size h)(list_to_pair n := None) \<and>
    pairs h' = (pairs h)(list_to_pair n := None) \<and> lists h' = (lists h)(n := None) \<and>
    arrs h' = arrs h \<and> tables h' = tables h \<and> calls h' = calls h"
  using nc_free_live [OF assms] heap_ok_drop [OF assms(1)] by (simp add: free_pair_def heap_simps)

text \<open>The call that finds the node of its key: what it unlinks, releases, reports and stores back.\<close>

lemma del_run:
  assumes "ht_inv t T ns h" "callbacks_ok T" "num_buckets T = Some nb"
    and "List.find (\<lambda>n. cmp_keys T (fst (entry h n)) k) ns = Some n"
  obtains h' where "nc_hashtable_del t k h = Some (0, h')" "heap_ok h'"
    "tables h' t = Some (T\<lparr>ht_size := ht_size T - 1\<rparr>)"
    "block_size h' = (block_size h)(list_to_pair n := None)" "pairs h' = (pairs h)(list_to_pair n := None)"
    "hring h' (head t) (remove1 n ns)" "buckets_ok t (T\<lparr>ht_size := ht_size T - 1\<rparr>) nb h' (remove1 n ns)"
    "calls h' = calls h @ key_call T (fst (entry h n)) @ value_call T (snd (entry h n))"
proof -
  obtain i: "buckets_ok t T nb h ns" "tables h t = Some T" "hring h (head t) ns" "nodes_ok T h ns" "heap_ok h"
    using assms(1,3) by (auto elim: ht_invD)
  have n: "n \<in> set ns" "cmp_keys T (fst (entry h n)) k"
    using assms(4) by (auto dest: find_SomeD)
  obtain p where p: "pairs h (list_to_pair n) = Some p" "entry h n = (key p, value p)"
    "hash p = hash_key T (key p)" "block_size h (list_to_pair n) = Some 40"
    using node_pair [OF i(4) n(1)] by blast
  obtain as bs where ns: "ns = as @ n # bs"
    using n(1) by (meson split_list)
  have dist: "distinct (head t # ns)"
    using i(3) by (simp add: ring_def)
  then have ns': "remove1 n ns = as @ bs" "set (remove1 n ns) = set ns - {n}"
    using find_pair_node [OF assms(4) ns] by simp_all
  obtain b where b: "get_bucket T (hash_key T k mod nb) h = Some b"
    "hashtable_find_pair t T b k (hash_key T k) h =
      Some (case List.find (\<lambda>n. cmp_keys T (fst (entry h n)) k) ns of
              None \<Rightarrow> NULL | Some n \<Rightarrow> list_to_pair n)"
    using i(3,1,4) assms(2) mod_nb_less [OF assms(3)] by (rule find_pair_ok)
  have ix: "hash_key T k mod nb = hash_at h n mod nb"
    using n(2) p assms(2) by (simp add: callbacks_ok_def hash_at_def)
  obtain cs where u: "unlink_bucket t T (hash_key T k mod nb) n h =
      Some (h\<lparr>arrs := (arrs h)(buckets T \<mapsto> cs)\<rparr>)"
    "buckets_ok t T nb (h\<lparr>arrs := (arrs h)(buckets T \<mapsto> cs)\<rparr>) (remove1 n ns)"
    using unlink_bucket_ok [OF i(3,1) n(1) ix mod_nb_less [OF assms(3)]] by metis
  define h1 where "h1 = h\<lparr>arrs := (arrs h)(buckets T \<mapsto> cs)\<rparr>"
  have "hring h1 (head t) (as @ n # bs)"
    using i(3) hring_same [of h1 h] by (simp add: ns h1_def)
  then obtain L where L: "list_remove n h1 = Some (h1\<lparr>lists := L\<rparr>)"
    "hring (h1\<lparr>lists := L\<rparr>) (head t) (as @ bs)"
    using list_remove_ring [of h1 "head t" as n bs] by metis
  define h3 where "h3 = h1\<lparr>lists := L, calls := calls h @ key_call T (key p) @ value_call T (value p)\<rparr>"
  have "heap_ok h3" "block_size h3 (list_to_pair n) = Some 40"
    using i(5) p(4) by (simp_all add: h3_def h1_def heap_simps)
  from free_pair_ok [OF this] obtain h4 where f: "free_pair (list_to_pair n) h3 = Some h4" "heap_ok h4"
    "block_size h4 = (block_size h)(list_to_pair n := None)"
    "pairs h4 = (pairs h)(list_to_pair n := None)" "lists h4 = L(n := None)"
    "arrs h4 = arrs h1" "tables h4 = tables h" "calls h4 = calls h3"
    by (auto simp: h3_def h1_def heap_simps)
  define T' where "T' = T\<lparr>ht_size := ht_size T - 1\<rparr>"
  define h5 where "h5 = put_table t T' h4"
  have h5: "heap_ok h5" "block_size h5 = block_size h4" "pairs h5 = pairs h4" "lists h5 = lists h4"
    "arrs h5 = arrs h4" "tables h5 t = Some T'" "calls h5 = calls h4"
    using f(2) by (simp_all add: h5_def put_table_def heap_simps)
  have run: "nc_hashtable_del t k h = Some (0, h5)"
    using assms(3,4) i(2) b node_not_NULL [OF i(5,4) n(1)] u(1) L(1) p(1) f(1)
    by (simp add: nc_hashtable_del_def hashtable_do_del_def Let_def h5_def T'_def h1_def h3_def)
  have "n \<notin> set (head t # as @ bs)"
    using dist by (simp add: ns) blast
  then have ring: "hring h5 (head t) (remove1 n ns)"
    using f(5) h5(4) by (simp only: ns'(1)) (rule ring_cong [OF L(2)], auto simp: get_next_def get_prev_def)
  have "same_pairs h1 h5 (remove1 n ns)"
    using ns'(2) h5(3) f(4) by (auto simp: h1_def same_pairs_def)
  then have bk: "buckets_ok t T' nb h5 (remove1 n ns)"
    using buckets_ok_same [OF _ _ u(2)[folded h1_def], of h5 T'] f(6) h5(5) by (simp add: T'_def)
  show thesis
    using that [OF run h5(1)] h5 f(3,4,8) ring bk p(2) by (simp add: T'_def h3_def)
qed

lemma del_found:
  assumes "ht_inv t T ns h" "callbacks_ok T"
    and "List.find (\<lambda>n. cmp_keys T (fst (entry h n)) k) ns = Some n"
  shows "\<exists>h' T'. nc_hashtable_del t k h = Some (0, h') \<and> same_callbacks T T' \<and>
    ht_inv t T' (remove1 n ns) h' \<and>
    table_map T' (remove1 n ns) h' = map_del (cmp_keys T) k (table_map T ns h) \<and>
    calls h' = calls h @ key_call T (fst (entry h n)) @ value_call T (snd (entry h n)) \<and>
    (\<forall>base. owns t T ns base h \<longrightarrow> owns t T' (remove1 n ns) base h') \<and>
    ledger T' (remove1 n ns) h' = ledger T ns h"
proof -
  obtain nb where i: "num_buckets T = Some nb" "hring h (head t) ns" "nodes_ok T h ns"
    "ht_size T = of_nat (length ns)" "block_size h (buckets T) = Some (16 * unat nb)" "length ns \<le> unat nb"
    "block_size h t = Some 72"
    using assms(1) by (rule ht_invD)
  have n: "n \<in> set ns" "cmp_keys T (fst (entry h n)) k"
    using assms(3) by (auto dest: find_SomeD)
  have "distinct ns" "ns \<noteq> []"
    using i(2) n(1) by (auto simp: ring_def)
  then have ns': "set (remove1 n ns) = set ns - {n}" "Suc (length (remove1 n ns)) = length ns"
    using n(1) by (simp_all add: length_remove1)
  define T' where "T' = T\<lparr>ht_size := ht_size T - 1\<rparr>"
  obtain h' where run: "nc_hashtable_del t k h = Some (0, h')" "heap_ok h'" "tables h' t = Some T'"
    "block_size h' = (block_size h)(list_to_pair n := None)" "pairs h' = (pairs h)(list_to_pair n := None)"
    "hring h' (head t) (remove1 n ns)" "buckets_ok t T' nb h' (remove1 n ns)"
    "calls h' = calls h @ key_call T (fst (entry h n)) @ value_call T (snd (entry h n))"
    unfolding T'_def by (rule del_run [OF assms(1,2) i(1) assms(3)])
  have sc: "same_callbacks T T'"
    by (simp add: T'_def)
  have sp: "same_pairs h h' (remove1 n ns)" "same_sizes h h' (remove1 n ns)"
    using ns'(1) run(4,5) by (auto simp: same_pairs_def same_sizes_def)
  have nd: "nodes_ok T' h' (remove1 n ns)"
    using nodes_ok_same [OF sp sc] nodes_ok_set [OF _ i(3), of "remove1 n ns"] ns'(1) by simp
  have "ht_size T' = of_nat (length (remove1 n ns))"
    using i(4) by (simp add: T'_def flip: ns'(2))
  moreover have "block_size h' t = Some 72" "block_size h' (buckets T') = Some (16 * unat nb)"
    using i(5,7) run(4) table_apart [OF assms(1) n(1)] buckets_apart(2) [OF assms(1) n(1)] by (auto simp: T'_def)
  ultimately have inv: "ht_inv t T' (remove1 n ns) h'"
    using i(1,6) run nd ns'(2) by (simp add: ht_inv_def T'_def)
  have "table_map T (remove1 n ns) h' = map_del (cmp_keys T) k (table_map T ns h)"
    using nd i(3) entry_same [OF sp(1)] ns'(1)
    by (intro table_map_remove [OF assms(2) _ n]) (simp_all add: nodes_ok_def T'_def keys_apart_def)
  then have "table_map T' (remove1 n ns) h' = map_del (cmp_keys T) k (table_map T ns h)"
    by (simp add: table_map_def T'_def fun_eq_iff)
  moreover have "owns t T' (remove1 n ns) base h'" if "owns t T ns base h" for base
    using owns_drop_node [OF assms(1) that n(1), of h' T' "remove1 n ns"] run(4) ns'(1)
    by (simp add: T'_def)
  moreover have "ledger T' (remove1 n ns) h' = ledger T ns h"
    using run(8) entry_same [OF sp(1)]
    by (intro ledger_remove [OF n(1) ns'(1) _ _ sc]) (simp_all add: pair_calls_def)
  ultimately show ?thesis
    using run(1,8) inv sc by blast
qed

lemma del_ok:
  assumes "ht_inv t T ns h" "callbacks_ok T"
  shows "\<exists>rc h' T' ns'. nc_hashtable_del t k h = Some (rc, h') \<and> ht_inv t T' ns' h' \<and> same_callbacks T T' \<and>
    table_map T' ns' h' = map_del (cmp_keys T) k (table_map T ns h) \<and>
    (\<forall>base. owns t T ns base h \<longrightarrow> owns t T' ns' base h') \<and> ledger T' ns' h' = ledger T ns h \<and>
    (if table_map T ns h k = None then rc = - 1 \<and> h' = h \<and> ns' = ns
     else rc = 0 \<and> Suc (length ns') = length ns \<and>
       (\<exists>k0. cmp_keys T k0 k \<and> calls h' = calls h @ key_call T k0 @ value_call T (the (table_map T ns h k))))"
proof (cases "List.find (\<lambda>n. cmp_keys T (fst (entry h n)) k) ns")
  case (Some n)
  have n: "n \<in> set ns" "cmp_keys T (fst (entry h n)) k"
    using Some by (auto dest: find_SomeD)
  then have "Suc (length (remove1 n ns)) = length ns"
    by (simp add: length_remove1) (metis length_pos_if_in_set Suc_pred)
  moreover obtain h' T' where "nc_hashtable_del t k h = Some (0, h')" "same_callbacks T T'"
    "ht_inv t T' (remove1 n ns) h'"
    "table_map T' (remove1 n ns) h' = map_del (cmp_keys T) k (table_map T ns h)"
    "calls h' = calls h @ key_call T (fst (entry h n)) @ value_call T (snd (entry h n))"
    "\<forall>base. owns t T ns base h \<longrightarrow> owns t T' (remove1 n ns) base h'" "ledger T' (remove1 n ns) h' = ledger T ns h"
    using del_found [OF assms Some] by blast
  moreover have "table_map T ns h k = Some (snd (entry h n))"
    using Some by (simp add: table_map_def)
  ultimately show ?thesis
    using n(2) by (intro exI [of _ 0] exI [of _ h'] exI [of _ T'] exI [of _ "remove1 n ns"]) auto
next
  case None
  then have none: "table_map T ns h k = None"
    by (simp add: table_map_def)
  obtain nb where i: "num_buckets T = Some nb" "buckets_ok t T nb h ns" "tables h t = Some T"
    "hring h (head t) ns" "nodes_ok T h ns"
    using assms(1) by (auto simp: ht_inv_def)
  obtain b where b: "get_bucket T (hash_key T k mod nb) h = Some b"
    "hashtable_find_pair t T b k (hash_key T k) h =
      Some (case List.find (\<lambda>n. cmp_keys T (fst (entry h n)) k) ns of
              None \<Rightarrow> NULL | Some n \<Rightarrow> list_to_pair n)"
    using i(4,2,5) assms(2) mod_nb_less [OF i(1)] by (rule find_pair_ok)
  have "nc_hashtable_del t k h = Some (- 1, h)"
    using i(1,3) b None by (simp add: nc_hashtable_del_def hashtable_do_del_def Let_def)
  moreover have "table_map T ns h = map_del (cmp_keys T) k (table_map T ns h)"
  proof -
    have "table_map T ns h x = None" if "cmp_keys T k x" for x
      using none that callbacks_okD [OF assms(2)] unfolding table_map_None by blast
    then show ?thesis
      by (auto simp: map_del_def fun_eq_iff)
  qed
  ultimately show ?thesis
    using none assms(1) by (intro exI [of _ "- 1"] exI [of _ h] exI [of _ T] exI [of _ ns]) simp
qed

subsection \<open>Clearing and destroying\<close>

definition without :: "addr set \<Rightarrow> (addr \<Rightarrow> 'v option) \<Rightarrow> addr \<Rightarrow> 'v option" where
  "without X m = (\<lambda>x. if x \<in> X then None else m x)"

lemma without_simps [simp]:
  "without {} m = m" "(without X m)(x := None) = without (insert x X) m"
  "without X (m(x := None)) = without (insert x X) m" "without X (without Y m) = without (X \<union> Y) m"
  by (auto simp: without_def fun_eq_iff)

lemma npath_cong:
  "(\<And>x. x \<in> set (butlast xs) \<Longrightarrow> N' x = N x) \<Longrightarrow> npath N xs \<Longrightarrow> npath N' xs"
  by (induction xs rule: induct_list012) auto

lemma clear_loop_ok:
  assumes "heap_ok h" "npath (get_next h) (rs @ [head t])" "distinct (head t # rs)"
    and "\<And>r. r \<in> set rs \<Longrightarrow> pairs h (list_to_pair r) \<noteq> None \<and> block_size h (list_to_pair r) = Some 40"
  shows "\<exists>h'. clear_loop t T h (hd (rs @ [head t])) = Some h' \<and> heap_ok h' \<and>
    block_size h' = without (list_to_pair ` set rs) (block_size h) \<and> lists h' = without (set rs) (lists h) \<and>
    arrs h' = arrs h \<and> tables h' = tables h \<and> calls h' = calls h @ concat (map (pair_calls T h) rs)"
  using assms
proof (induction rs arbitrary: h)
  case Nil
  have "clear_loop t T h (head t) = Some h"
    by (subst clear_loop.simps) simp
  then show ?case
    using Nil by simp
next
  case (Cons r rs)
  define nx where "nx = hd (rs @ [head t])"
  obtain ys where ys: "rs @ [head t] = nx # ys"
    unfolding nx_def by (cases rs) auto
  have next_r: "get_next h r = Some nx" and path: "npath (get_next h) (rs @ [head t])"
    using Cons.prems(2) by (simp_all add: ys)
  obtain p where p: "pairs h (list_to_pair r) = Some p" "block_size h (list_to_pair r) = Some 40"
    using Cons.prems(4) [of r] by auto
  define h0 where "h0 = h\<lparr>calls := calls h @ pair_calls T h r\<rparr>"
  have "heap_ok h0" "block_size h0 (list_to_pair r) = Some 40"
    using Cons.prems(1) p(2) by (simp_all add: h0_def heap_simps)
  from free_pair_ok [OF this] obtain h1 where f: "free_pair (list_to_pair r) h0 = Some h1" "heap_ok h1"
    "block_size h1 = (block_size h)(list_to_pair r := None)"
    "pairs h1 = (pairs h)(list_to_pair r := None)" "lists h1 = (lists h)(r := None)"
    "arrs h1 = arrs h" "tables h1 = tables h" "calls h1 = calls h @ pair_calls T h r"
    by (auto simp: h0_def heap_simps)
  have step: "clear_loop t T h r = clear_loop t T h1 nx"
    using next_r p(1) f(1) Cons.prems(3) entry_pair [OF p(1)]
    by (subst clear_loop.simps) (auto simp: h0_def pair_calls_def)
  have "npath (get_next h1) (rs @ [head t])"
    using Cons.prems(3) by (intro npath_cong [OF _ path]) (auto simp: get_next_def f(5))
  moreover have "pairs h1 (list_to_pair q) \<noteq> None \<and> block_size h1 (list_to_pair q) = Some 40" if "q \<in> set rs" for q
    using Cons.prems(3,4) that f(3,4) by auto
  ultimately obtain h' where h': "clear_loop t T h1 nx = Some h'" "heap_ok h'"
    "block_size h' = without (list_to_pair ` set rs) (block_size h1)" "lists h' = without (set rs) (lists h1)"
    "arrs h' = arrs h1" "tables h' = tables h1" "calls h' = calls h1 @ concat (map (pair_calls T h1) rs)"
    using Cons.IH [OF f(2)] Cons.prems(3) unfolding nx_def by fastforce
  have "pair_calls T h1 q = pair_calls T h q" if "q \<in> set rs" for q
    using that Cons.prems(3) by (auto simp: pair_calls_def entry_def f(4))
  then have "map (pair_calls T h1) rs = map (pair_calls T h) rs"
    by (intro map_cong) simp_all
  then show ?case
    using step h' f by (simp del: map_eq_conv)
qed

lemma do_clear_ok:
  assumes "table_shell t T ns h"
  shows "\<exists>h'. hashtable_do_clear t h = Some h' \<and> heap_ok h' \<and>
    block_size h' = without (list_to_pair ` set ns) (block_size h) \<and> lists h' = without (set ns) (lists h) \<and>
    arrs h' = arrs h \<and> tables h' = tables h \<and> calls h' = calls h @ concat (map (pair_calls T h) ns)"
proof -
  have i: "tables h t = Some T" "hring h (head t) ns" "nodes_ok T h ns" "heap_ok h"
    using assms by (auto simp: table_shell_def)
  have first: "get_next h (head t) = Some (hd (ns @ [head t]))"
    using chain_first [of "get_next h" "get_prev h" "head t" ns "head t"] i(2) by (simp add: ring_def)
  have path: "npath (get_next h) (ns @ [head t])"
    using npath_appendD [of "get_next h" "[head t]" "ns @ [head t]"] ring_npath [OF i(2)] by simp
  have nodes: "pairs h (list_to_pair r) \<noteq> None \<and> block_size h (list_to_pair r) = Some 40" if "r \<in> set ns" for r
    using node_pair [OF i(3) that] by auto
  show ?thesis
    using clear_loop_ok [OF i(4) path _ nodes, of T] i(1,2) first
    by (auto simp: hashtable_do_clear_def ring_def)
qed

lemma clear_ok:
  assumes "ht_inv t T ns h"
  shows "\<exists>h'. nc_hashtable_clear t h = Some h' \<and> ht_inv t (T\<lparr>ht_size := 0\<rparr>) [] h' \<and>
    calls h' = calls h @ concat (map (pair_calls T h) ns) \<and>
    (\<forall>base. owns t T ns base h \<longrightarrow> owns t (T\<lparr>ht_size := 0\<rparr>) [] base h')"
proof -
  obtain nb where i: "num_buckets T = Some nb" "buckets_ok t T nb h ns" "tables h t = Some T"
    "hring h (head t) ns" "nodes_ok T h ns" "ht_size T = of_nat (length ns)"
    "block_size h (buckets T) = Some (16 * unat nb)" "length ns \<le> unat nb" "heap_ok h"
    "block_size h t = Some 72"
    using assms by (rule ht_invD)
  obtain h1 where h1: "hashtable_do_clear t h = Some h1" "heap_ok h1"
    "block_size h1 = without (list_to_pair ` set ns) (block_size h)" "arrs h1 = arrs h" "tables h1 = tables h"
    "calls h1 = calls h @ concat (map (pair_calls T h) ns)"
    using do_clear_ok [OF ht_inv_shell [OF assms]] by blast
  obtain bs where bs: "arrs h1 (buckets T) = Some bs" "length bs = unat nb" "buckets T \<noteq> NULL"
    using i(2) h1(4) by (auto simp: buckets_ok_def)
  obtain A where A: "fill_buckets t T (unat nb) h1 = Some (h1\<lparr>arrs := A\<rparr>)"
    "buckets_ok t T nb (h1\<lparr>arrs := A\<rparr>) []"
    using fill_buckets_ok [OF bs] by blast
  define T' where "T' = T\<lparr>ht_size := 0\<rparr>"
  define h' where "h' = put_table t T' (list_init (head t) (h1\<lparr>arrs := A\<rparr>))"
  have run: "nc_hashtable_clear t h = Some h'"
    using h1(1,5) i(1,3) A(1) by (simp add: nc_hashtable_clear_def h'_def T'_def)
  have h': "heap_ok h'" "block_size h' = block_size h1" "tables h' t = Some T'" "calls h' = calls h1"
    using h1(2) by (simp_all add: h'_def put_table_def list_init_def heap_simps)
  have "hring h' (head t) []"
    by (rule ring_empty) (simp_all add: h'_def put_table_def list_init_def get_next_def get_prev_def)
  moreover have "buckets_ok t T' nb h' []"
    by (rule buckets_ok_same [OF _ _ A(2)])
      (simp_all add: h'_def put_table_def list_init_def same_pairs_def T'_def)
  moreover have "t \<notin> list_to_pair ` set ns" "buckets T \<notin> list_to_pair ` set ns"
    using table_apart [OF assms] buckets_apart(2) [OF assms] by blast+
  then have "block_size h' t = Some 72" "block_size h' (buckets T) = Some (16 * unat nb)"
    using h'(2) h1(3) i(7,10) by (simp_all add: without_def)
  ultimately have inv: "ht_inv t T' [] h'"
    using h'(1,3) i(1) by (simp add: ht_inv_def T'_def nodes_ok_def keys_apart_def)
  have "owns t T' [] base h'" if "owns t T ns base h" for base
    using that h'(2) h1(3) by (auto simp: owns_def table_blocks_def without_def T'_def)
  then show ?thesis
    using run inv h'(4) h1(6) unfolding T'_def by auto
qed

text \<open>Destroying the table releases its blocks and nothing else, whatever the table holds.\<close>

text \<open>\<open>free\<close> ignores a null pointer, so a table without buckets is released like any other.\<close>

lemma free_buckets_ok:
  assumes "heap_ok h" "buckets T = NULL \<or> block_size h (buckets T) \<noteq> None"
  shows "\<exists>h'. free_buckets t T h = Some h' \<and> heap_ok h' \<and> block_size h' = (block_size h)(buckets T := None) \<and>
    calls h' = calls h"
proof (cases "buckets T = NULL")
  case True
  then show ?thesis
    using assms(1) block_size_NULL [OF assms(1)]
    by (simp add: free_buckets_def nc_free_def free_def put_table_def heap_simps fun_upd_idem)
next
  case False
  then obtain k where k: "block_size h (buckets T) = Some k"
    using assms(2) by auto
  show ?thesis
    using nc_free_live [OF assms(1) k] heap_ok_drop [OF assms(1)]
    by (simp add: free_buckets_def put_table_def heap_simps)
qed

lemma shell_destroy_ok:
  assumes "table_shell t T ns h"
  shows "\<exists>h'. nc_hashtable_destroy t h = Some h' \<and> heap_ok h' \<and> tables h' t = None \<and>
    block_size h' = without (table_blocks t T ns) (block_size h) \<and>
    calls h' = calls h @ concat (map (pair_calls T h) ns) \<and> mset (calls h') = ledger T ns h"
proof -
  have i: "tables h t = Some T" "block_size h t = Some 72"
    "buckets T = NULL \<or> (\<exists>nb :: size_t. block_size h (buckets T) = Some (16 * unat nb))" "distinct ns"
    using assms by (auto simp: table_shell_def ring_def)
  obtain h1 where h1: "hashtable_do_clear t h = Some h1" "heap_ok h1"
    "block_size h1 = without (list_to_pair ` set ns) (block_size h)" "arrs h1 = arrs h" "tables h1 = tables h"
    "calls h1 = calls h @ concat (map (pair_calls T h) ns)"
    using do_clear_ok [OF assms] by blast
  note ap = shell_apart [OF assms]
  then have bt: "buckets T = NULL \<or> block_size h1 (buckets T) \<noteq> None" "block_size h1 t = Some 72"
    using h1(3) i(2,3) by (auto simp: without_def)
  obtain h2 where h2: "free_buckets t T h1 = Some h2" "heap_ok h2" "block_size h2 = (block_size h1)(buckets T := None)"
    "calls h2 = calls h1"
    using free_buckets_ok [OF h1(2) bt(1)] by blast
  then have bt2: "block_size h2 t = Some 72"
    using bt(2) ap(1) by simp
  define h3 where "h3 = drop_block t h2"
  define h' where "h' = h3\<lparr>tables := (tables h3)(t := None), lists := (lists h3)(head t := None)\<rparr>"
  have "nc_hashtable_destroy t h = Some h'"
    using h1(1,5) i(1) h2(1) nc_free_live [OF h2(2) bt2]
    by (simp add: nc_hashtable_destroy_def nc_hashtable_deinit_def free_table_def h'_def h3_def)
  moreover have "heap_ok h'" "tables h' t = None" "calls h' = calls h1"
    "block_size h' = (block_size h1)(buckets T := None, t := None)"
    using nc_free_live [OF h2(2) bt2] heap_ok_drop [OF h2(2)] h2
    by (simp_all add: h'_def h3_def heap_simps)
  moreover have "mset (concat (map (pair_calls T h) ns)) = (\<Sum>n \<in> set ns. mset (pair_calls T h n))"
    using i(4) by (simp add: mset_concat sum_mset_sum_list sum_list_distinct_conv_sum_set comp_def)
  ultimately show ?thesis
    using h1(3,6) by (simp add: table_blocks_def ledger_def)
qed

lemmas table_destroy_ok = shell_destroy_ok [OF ht_inv_shell]

text \<open>Creation either fails and leaves every block as it was, or gives an empty table.\<close>

lemma init_ok:
  assumes "heap_ok h" "tables h t = Some T" "block_size h t = Some 72"
  shows "\<exists>rc h'. nc_hashtable_init t hk ck fk fv h = Some (rc, h') \<and> heap_ok h' \<and> calls h' = calls h \<and>
    tables h' t \<noteq> None \<and>
    (rc = - 1 \<and> block_size h' = block_size h \<or>
     rc = 0 \<and> (\<exists>T' a. ht_inv t T' [] h' \<and> hash_key T' = hk \<and> cmp_keys T' = ck \<and> free_key T' = fk \<and>
       free_value T' = fv \<and> buckets T' = a \<and> block_size h a = None \<and> block_size h' = (block_size h)(a \<mapsto> 80)))"
proof -
  define T1 where "T1 = T\<lparr>ht_size := 0, num_ix := 0\<rparr>"
  have nb: "num_buckets T1 = Some 5"
    by (simp add: num_buckets_def T1_def primes_def)
  obtain a h1 where al: "nc_alloc (5 * sizeof_bucket) h = (a, h1)"
    by fastforce
  define T2 where "T2 = T1\<lparr>buckets := a\<rparr>"
  show ?thesis
  proof (cases "a = NULL")
    case True
    then obtain as where h1: "h1 = h\<lparr>offers := as\<rparr>"
      using nc_alloc_cases [OF al] by blast
    have "nc_hashtable_init t hk ck fk fv h = Some (- 1, put_table t T2 h1)"
      using assms(2) nb al True by (simp add: nc_hashtable_init_def Let_def T2_def flip: T1_def)
    then show ?thesis
      using assms(1) h1 by (simp add: put_table_def heap_simps)
  next
    case False
    then obtain as where h1: "block_size h a = None"
      "h1 = h\<lparr>offers := as, live := (a, unat (5 * sizeof_bucket)) # live h\<rparr>"
      "block_size h1 = (block_size h)(a \<mapsto> unat (5 * sizeof_bucket))"
      using nc_alloc_cases [OF al] by blast
    define T3 where "T3 = T2\<lparr>hash_key := hk, cmp_keys := ck, free_key := fk, free_value := fv\<rparr>"
    define h2 where "h2 = put_table t T3 (list_init (head t) h1)"
    define g where "g = h2\<lparr>arrs := (arrs h2)(a \<mapsto> replicate 5 (stale_bucket h2))\<rparr>"
    have b: "buckets T3 = a" "num_buckets T3 = Some 5"
      by (simp_all add: T3_def T2_def T1_def num_buckets_def primes_def)
    obtain A where A: "fill_buckets t T3 (unat (5 :: size_t)) g = Some (g\<lparr>arrs := A\<rparr>)"
      "buckets_ok t T3 5 (g\<lparr>arrs := A\<rparr>) []"
      by (rule fill_buckets_ok [of g T3 "replicate 5 (stale_bucket h2)" 5 t]) (simp_all add: g_def b False)
    define h' where "h' = g\<lparr>arrs := A\<rparr>"
    have run: "nc_hashtable_init t hk ck fk fv h = Some (0, h')"
      using assms(2) nb al False A(1)
      by (simp add: nc_hashtable_init_def Let_def h'_def g_def h2_def T3_def T2_def flip: T1_def)
    have h': "heap_ok h'" "block_size h' = (block_size h)(a \<mapsto> 80)" "tables h' t = Some T3" "calls h' = calls h"
      using heap_ok_nc_alloc [OF assms(1) al] h1
      by (simp_all add: h'_def g_def h2_def put_table_def list_init_def heap_simps sizeof_bucket_def)
    have "hring h' (head t) []"
      by (rule ring_empty)
        (simp_all add: h'_def g_def h2_def put_table_def list_init_def get_next_def get_prev_def)
    moreover have "a \<noteq> t"
      using assms(3) h1(1) by auto
    ultimately have "ht_inv t T3 [] h'"
      using h'(1-3) b A(2) assms(3)
      by (simp add: ht_inv_def nodes_ok_def keys_apart_def h'_def, simp add: T3_def T2_def T1_def)
    then show ?thesis
      using run h' b(1) h1(1) by (intro exI [of _ 0] exI [of _ h']) (auto simp: T3_def)
  qed
qed

lemma create_ok:
  assumes "heap_ok h"
  shows "\<exists>t h'. nc_hashtable_create hk ck fk fv h = Some (t, h') \<and> heap_ok h' \<and> calls h' = calls h \<and>
    (if t = NULL then block_size h' = block_size h
     else \<exists>T. ht_inv t T [] h' \<and> hash_key T = hk \<and> cmp_keys T = ck \<and> free_key T = fk \<and> free_value T = fv \<and>
       owns t T [] (block_size h) h')"
proof -
  obtain t h1 where al: "nc_alloc sizeof_table h = (t, h1)"
    by fastforce
  show ?thesis
  proof (cases "t = NULL")
    case True
    then obtain as where "h1 = h\<lparr>offers := as\<rparr>"
      using nc_alloc_cases [OF al] by blast
    then show ?thesis
      using al True assms by (simp add: nc_hashtable_create_def heap_simps)
  next
    case False
    then obtain as where h1: "block_size h t = None"
      "h1 = h\<lparr>offers := as, live := (t, unat sizeof_table) # live h\<rparr>"
      "block_size h1 = (block_size h)(t \<mapsto> unat sizeof_table)"
      using nc_alloc_cases [OF al] by blast
    define g where "g = put_table t (stale_table h1) h1"
    have g: "heap_ok g" "tables g t = Some (stale_table h1)" "block_size g = (block_size h)(t \<mapsto> 72)"
      "calls g = calls h"
      using heap_ok_nc_alloc [OF assms al] h1
      by (simp_all add: g_def put_table_def heap_simps sizeof_table_def)
    obtain rc h2 where r: "nc_hashtable_init t hk ck fk fv g = Some (rc, h2)" "heap_ok h2" "calls h2 = calls g"
      "tables h2 t \<noteq> None" "rc = - 1 \<and> block_size h2 = block_size g \<or>
       rc = 0 \<and> (\<exists>T' a. ht_inv t T' [] h2 \<and> hash_key T' = hk \<and> cmp_keys T' = ck \<and> free_key T' = fk \<and>
         free_value T' = fv \<and> buckets T' = a \<and> block_size g a = None \<and> block_size h2 = (block_size g)(a \<mapsto> 80))"
      using init_ok [OF g(1,2), of hk ck fk fv] g(3) by auto
    from r(5) show ?thesis
    proof (elim disjE conjE exE)
      assume f: "rc = - 1" "block_size h2 = block_size g"
      then have "block_size h2 t = Some 72"
        using g(3) by simp
      then have "free_table t h2 = Some ((drop_block t h2)\<lparr>tables := (tables h2)(t := None),
          lists := (lists h2)(head t := None)\<rparr>)" "block_size (drop_block t h2) = block_size h"
        using nc_free_live [OF r(2)] f(2) g(3) h1(1)
        by (simp_all add: free_table_def heap_simps fun_upd_idem)
      then show ?thesis
        using al False r(1,3) f(1) g(4) heap_ok_drop [OF r(2)]
        by (simp add: nc_hashtable_create_def heap_simps flip: g_def)
    next
      fix T a
      assume f: "rc = 0" "ht_inv t T [] h2" "hash_key T = hk" "cmp_keys T = ck" "free_key T = fk"
        "free_value T = fv" "buckets T = a" "block_size g a = None" "block_size h2 = (block_size g)(a \<mapsto> 80)"
      have "owns t T [] (block_size h) h2"
        using f(7-9) g(3) h1(1) by (auto simp: owns_def table_blocks_def split: if_splits)
      then show ?thesis
        using al False r(1-3) f(1-6) g(4)
        by (intro exI [of _ t] exI [of _ h2]) (auto simp: nc_hashtable_create_def simp flip: g_def)
    qed
  qed
qed

subsection \<open>Iteration\<close>

lemma iter_next_ok:
  assumes "hring h (head t) (as @ n # bs)"
  shows "nc_hashtable_iter_next t n h = Some (case bs of [] \<Rightarrow> NULL | m # _ \<Rightarrow> m)"
proof (cases bs)
  case Nil
  then have "get_next h n = Some (head t)"
    using assms by (auto simp: ring_def linked_def)
  then show ?thesis
    using Nil by (simp add: nc_hashtable_iter_next_def)
next
  case (Cons m cs)
  then have "get_next h n = Some m" "m \<noteq> head t"
    using assms ring_next [of "get_next h" "get_prev h" "head t" as n m cs] by (auto simp: ring_def)
  then show ?thesis
    using Cons by (simp add: nc_hashtable_iter_next_def)
qed

lemma iter_first_ok:
  assumes "hring h (head t) ns"
  shows "nc_hashtable_iter t h = Some (case ns of [] \<Rightarrow> NULL | m # _ \<Rightarrow> m)"
proof -
  have "get_next h (head t) = Some (hd (ns @ [head t]))"
    using chain_first [of "get_next h" "get_prev h" "head t" ns "head t"] assms by (simp add: ring_def)
  then show ?thesis
    using assms by (auto simp: nc_hashtable_iter_def nc_hashtable_iter_next_def ring_def split: list.split)
qed

text \<open>
  The documented loop over a table: from \<open>nc_hashtable_iter\<close>, by \<open>nc_hashtable_iter_next\<close>, until the
  null pointer; at each stop the key and the value are read.
\<close>

fun iter_walk :: "nat \<Rightarrow> addr \<Rightarrow> ht_heap \<Rightarrow> addr \<Rightarrow> (addr \<times> addr) list option" where
  "iter_walk 0 t h it = None"
| "iter_walk (Suc f) t h it =
     (if it = NULL then Some []
      else do {
        k \<leftarrow> nc_hashtable_iter_key it h;
        v \<leftarrow> nc_hashtable_iter_value it h;
        nx \<leftarrow> nc_hashtable_iter_next t it h;
        xs \<leftarrow> iter_walk f t h nx;
        Some ((k, v) # xs)
      })"

lemma iter_walk_ok:
  assumes "hring h (head t) (as @ bs)" "nodes_ok T h (as @ bs)" "NULL \<notin> set bs" "length bs < f"
  shows "iter_walk f t h (case bs of [] \<Rightarrow> NULL | m # _ \<Rightarrow> m) = Some (map (entry h) bs)"
  using assms
proof (induction bs arbitrary: as f)
  case Nil
  then show ?case
    by (cases f) simp_all
next
  case (Cons b bs)
  obtain f' where f: "f = Suc f'" "length bs < f'"
    using Cons.prems(4) by (cases f) auto
  obtain p where "pairs h (list_to_pair b) = Some p" "entry h b = (key p, value p)"
    using node_pair [OF Cons.prems(2), of b] by auto
  moreover have "nc_hashtable_iter_next t b h = Some (case bs of [] \<Rightarrow> NULL | m # _ \<Rightarrow> m)"
    using Cons.prems(1) by (rule iter_next_ok)
  moreover have "iter_walk f' t h (case bs of [] \<Rightarrow> NULL | m # _ \<Rightarrow> m) = Some (map (entry h) bs)"
    using Cons.IH [of "as @ [b]" f'] Cons.prems f by simp
  ultimately show ?case
    using Cons.prems(3) f(1) by (simp add: nc_hashtable_iter_key_def nc_hashtable_iter_value_def)
qed

text \<open>A list node is at offset 24 of its pair, so it is never the null pointer.\<close>

lemma node_address:
  assumes "heap_ok h" "nodes_ok T h ns"
  shows "NULL \<notin> set ns"
proof
  assume "NULL \<in> set ns"
  then have "block_size h (list_to_pair NULL) = Some 40"
    by (rule node_pair [OF assms(2)])
  then have "fits (list_to_pair NULL) 40"
    by (rule block_size_fits [OF assms(1)])
  then show False
    by (simp add: fits_def list_to_pair_def list_offset_def)
qed

subsection \<open>The table as a keyed map\<close>

definition ht_view :: "addr \<Rightarrow> ht_heap \<Rightarrow> addr \<Rightarrow> addr option" where
  "ht_view t h k =
     (case lookup_pair t k h of
        None \<Rightarrow> None
      | Some p \<Rightarrow> if p = NULL then None else map_option value (pairs h p))"

definition ht_card :: "addr \<Rightarrow> ht_heap \<Rightarrow> nat" where
  "ht_card t h = (case tables h t of None \<Rightarrow> 0 | Some T \<Rightarrow> unat (ht_size T))"

definition ht_wf :: "addr \<Rightarrow> (addr \<Rightarrow> addr \<Rightarrow> bool) \<Rightarrow> (addr \<Rightarrow> nat option) \<Rightarrow> ht_heap \<Rightarrow> bool" where
  "ht_wf t ck base h \<longleftrightarrow> (\<exists>T ns. ht_inv t T ns h \<and> callbacks_ok T \<and> cmp_keys T = ck \<and>
     owns t T ns base h \<and> length ns \<le> 1610612741)"

text \<open>\<open>nc_hashtable_set\<close> and \<open>nc_hashtable_del\<close> with their return code read as success or failure.\<close>

definition ht_put :: "addr \<Rightarrow> addr \<Rightarrow> addr \<Rightarrow> ht_heap \<Rightarrow> (bool \<times> ht_heap) option" where
  "ht_put t k v h = map_option (map_prod (\<lambda>rc. rc = 0) id) (nc_hashtable_set t k v h)"

definition ht_del :: "addr \<Rightarrow> addr \<Rightarrow> ht_heap \<Rightarrow> (bool \<times> ht_heap) option" where
  "ht_del t k h = map_option (map_prod (\<lambda>rc. rc = 0) id) (nc_hashtable_del t k h)"

lemma ht_view_inv:
  assumes "ht_inv t T ns h" "callbacks_ok T"
  shows "ht_view t h = table_map T ns h"
proof
  fix k
  show "ht_view t h k = table_map T ns h k"
  proof (cases "List.find (\<lambda>n. cmp_keys T (fst (entry h n)) k) ns")
    case None
    then show ?thesis
      using lookup_pair_ok [OF assms, of k] by (simp add: ht_view_def table_map_def)
  next
    case (Some n)
    then have n: "n \<in> set ns"
      by (auto dest: find_SomeD)
    have i: "nodes_ok T h ns" "heap_ok h"
      using assms(1) by (auto simp: ht_inv_def)
    obtain p where "pairs h (list_to_pair n) = Some p" "entry h n = (key p, value p)"
      using i(1) n by (rule node_pair)
    then show ?thesis
      using lookup_pair_ok [OF assms, of k] node_not_NULL [OF i(2,1) n] Some
      by (simp add: ht_view_def table_map_def)
  qed
qed

lemma ht_card_inv: "ht_inv t T ns h \<Longrightarrow> length ns \<le> 1610612741 \<Longrightarrow> ht_card t h = length ns"
  by (simp add: ht_inv_def ht_card_def unat_of_nat_ok)

lemma ht_wfE:
  assumes "ht_wf t ck base h"
  obtains T ns where "ht_inv t T ns h" "callbacks_ok T" "cmp_keys T = ck" "owns t T ns base h"
    "length ns \<le> 1610612741" "ht_view t h = table_map T ns h" "ht_card t h = length ns"
  using assms ht_view_inv ht_card_inv unfolding ht_wf_def by metis

lemma ht_wf_intro:
  assumes "ht_inv t T ns h" "same_callbacks T0 T" "callbacks_ok T0" "owns t T ns base h"
    "length ns \<le> 1610612741"
  shows "ht_wf t (cmp_keys T0) base h" "ht_view t h = table_map T ns h" "ht_card t h = length ns"
proof -
  have "callbacks_ok T" "cmp_keys T = cmp_keys T0"
    using callbacks_ok_same [OF assms(2)] assms(2,3) by (simp_all add: same_callbacks_def)
  then show "ht_wf t (cmp_keys T0) base h" "ht_view t h = table_map T ns h" "ht_card t h = length ns"
    using assms(1,4,5) ht_view_inv ht_card_inv unfolding ht_wf_def by blast+
qed

lemma ht_put_step:
  assumes "ht_wf t ck base h" "ht_card t h < 1610612741"
  shows "\<exists>b h'. ht_put t k v h = Some (b, h') \<and>
    (b \<longrightarrow> ht_wf t ck base h' \<and> ht_view t h' = map_put ck k v (ht_view t h) \<and> ht_card t h' \<le> Suc (ht_card t h))"
  using assms(1)
proof (rule ht_wfE)
  fix T ns
  assume w: "ht_inv t T ns h" "callbacks_ok T" "cmp_keys T = ck" "owns t T ns base h"
    "ht_view t h = table_map T ns h" "ht_card t h = length ns"
  have len: "length ns < 1610612741"
    using assms(2) w(6) by simp
  obtain rc h' where s: "nc_hashtable_set t k v h = Some (rc, h')" "set_result t T ns h k v rc h'"
    using set_ok [OF w(1,2) len] by blast
  have "ht_wf t ck base h' \<and> ht_view t h' = map_put ck k v (ht_view t h) \<and> ht_card t h' \<le> Suc (ht_card t h)"
    if rc: "rc = 0"
  proof -
    obtain T' ns' where r: "ht_inv t T' ns' h'" "same_callbacks T T'"
      "store_effect T k v 0 (table_state T ns h) (table_state T' ns' h')" "owns t T' ns' base h'"
      using s(2) w(4) rc by (auto simp: set_result_def)
    then have e: "table_map T' ns' h' = map_put ck k v (table_map T ns h)" "length ns' \<le> Suc (length ns)"
      using w(3) by (auto simp: store_effect_def table_state_def)
    show ?thesis
      using ht_wf_intro [OF r(1,2) w(2) r(4)] e w len by simp
  qed
  then show ?thesis
    using s(1) by (auto simp: ht_put_def)
qed

lemma ht_del_step:
  assumes "ht_wf t ck base h"
  shows "\<exists>b h'. ht_del t k h = Some (b, h') \<and> (b \<longleftrightarrow> ht_view t h k \<noteq> None) \<and>
    ht_wf t ck base h' \<and> ht_view t h' = map_del ck k (ht_view t h) \<and> ht_card t h' \<le> ht_card t h"
  using assms
proof (rule ht_wfE)
  fix T ns
  assume w: "ht_inv t T ns h" "callbacks_ok T" "cmp_keys T = ck" "owns t T ns base h"
    "length ns \<le> 1610612741" "ht_view t h = table_map T ns h" "ht_card t h = length ns"
  obtain rc h' T' ns' where d: "nc_hashtable_del t k h = Some (rc, h')" "ht_inv t T' ns' h'"
    "same_callbacks T T'" "table_map T' ns' h' = map_del (cmp_keys T) k (table_map T ns h)"
    "owns t T' ns' base h'" "if table_map T ns h k = None then rc = - 1 \<and> ns' = ns
       else rc = 0 \<and> Suc (length ns') = length ns"
    using del_ok [OF w(1,2), of k] w(4) by (metis (no_types, lifting))
  have "length ns' \<le> length ns" "rc = 0 \<longleftrightarrow> table_map T ns h k \<noteq> None"
    using d(6) by (auto split: if_splits)
  then show ?thesis
    using d(1,4) ht_wf_intro [OF d(2,3) w(2) d(5)] w
    by (intro exI [of _ "rc = 0"] exI [of _ h']) (simp add: ht_del_def)
qed

text \<open>
  What the table owes: the blocks it holds beside \<open>base\<close>, and the callbacks, made and to be made, for
  the keys and values it was given. A table that has lost its buckets owes the same.
\<close>

definition ht_owes :: "addr \<Rightarrow> bool \<Rightarrow> bool \<Rightarrow> (addr \<Rightarrow> nat option) \<Rightarrow> ht_heap \<Rightarrow> call multiset \<Rightarrow> bool" where
  "ht_owes t fk fv base h c \<longleftrightarrow> (\<exists>T ns. table_shell t T ns h \<and> (buckets T \<noteq> NULL \<longrightarrow> ht_inv t T ns h) \<and>
     free_key T = fk \<and> free_value T = fv \<and> owns t T ns base h \<and> ledger T ns h = c)"

definition ht_due :: "bool \<Rightarrow> bool \<Rightarrow> addr \<Rightarrow> addr \<Rightarrow> call multiset" where
  "ht_due fk fv k v = mset ((if fk then [FreeKey k] else []) @ (if fv then [FreeValue v] else []))"

definition ht_settled :: "(addr \<Rightarrow> nat option) \<Rightarrow> ht_heap \<Rightarrow> call multiset \<Rightarrow> bool" where
  "ht_settled base h c \<longleftrightarrow> heap_ok h \<and> block_size h = base \<and> mset (calls h) = c"

lemma ht_due_calls: "ht_due (free_key T) (free_value T) k v = mset (key_call T k @ value_call T v)"
  by (simp add: ht_due_def key_call_def value_call_def)

lemma ht_owes_intro:
  assumes "ht_inv t T ns h" "owns t T ns base h"
  shows "ht_owes t (free_key T) (free_value T) base h (ledger T ns h)"
  unfolding ht_owes_def using assms ht_inv_shell by blast

lemma ht_owesE:
  assumes "ht_wf t ck base0 h" "ht_owes t fk fv base h c"
  obtains T ns where "ht_inv t T ns h" "callbacks_ok T" "free_key T = fk" "free_value T = fv" "owns t T ns base h"
    "ledger T ns h = c" "ht_card t h = length ns"
proof -
  obtain T ns where o: "table_shell t T ns h" "buckets T \<noteq> NULL \<longrightarrow> ht_inv t T ns h" "free_key T = fk" "free_value T = fv"
    "owns t T ns base h" "ledger T ns h = c"
    using assms(2) by (auto simp: ht_owes_def)
  obtain T' ns' where w: "ht_inv t T' ns' h" "callbacks_ok T'"
    using assms(1) by (auto simp: ht_wf_def)
  have "T' = T" "buckets T' \<noteq> NULL"
    using w(1) o(1) by (auto simp: ht_inv_def table_shell_def buckets_ok_def)
  then have inv: "ht_inv t T ns h"
    using o(2) by simp
  obtain nb where "num_buckets T = Some nb" "length ns \<le> unat nb"
    using inv by (rule ht_invD)
  then have "length ns \<le> 1610612741"
    using num_buckets_bounds [of T nb] by (simp add: word_le_nat_alt)
  then show thesis
    using that inv w(2) o(3-6) ht_card_inv [OF inv] \<open>T' = T\<close> by simp
qed

lemma ht_put_owes:
  assumes "ht_wf t ck base0 h" "ht_owes t fk fv base h c" "ht_card t h < 1610612741" "ht_put t k v h = Some (b, h')"
  shows "ht_owes t fk fv base h' (if b then c + ht_due fk fv k v else c)"
  using assms(1,2)
proof (rule ht_owesE)
  fix T ns
  assume o: "ht_inv t T ns h" "callbacks_ok T" "free_key T = fk" "free_value T = fv" "owns t T ns base h"
    "ledger T ns h = c" "ht_card t h = length ns"
  obtain rc where s: "nc_hashtable_set t k v h = Some (rc, h')" "set_result t T ns h k v rc h'" "b \<longleftrightarrow> rc = 0"
    using set_ok [OF o(1,2), of k v] assms(3,4) o(7) by (auto simp: ht_put_def)
  from s(2) consider T' ns' where "ht_inv t T' ns' h'" "same_callbacks T T'" "owns t T' ns' base h'"
      "store_effect T k v rc (table_state T ns h) (table_state T' ns' h')"
    | "rc = - 1" "bucketless t T ns h h'"
    using o(5) by (auto simp: set_result_def)
  then show ?thesis
  proof cases
    case 1
    then have "ledger T' ns' h' = (if b then c + ht_due fk fv k v else c)"
      using s(3) o(3,4,6) ht_due_calls [of T k v] by (auto simp: store_effect_def table_state_def)
    then show ?thesis
      using ht_owes_intro [OF 1(1,3)] 1(2) o(3,4) by (simp add: same_callbacks_def)
  next
    case 2
    then show ?thesis
      using s(3) o(3-6) by (auto simp: bucketless_def ht_owes_def same_callbacks_def)
  qed
qed

lemma ht_del_owes:
  assumes "ht_wf t ck base0 h" "ht_owes t fk fv base h c" "ht_del t k h = Some (b, h')"
  shows "ht_owes t fk fv base h' c"
  using assms(1,2)
proof (rule ht_owesE)
  fix T ns
  assume o: "ht_inv t T ns h" "callbacks_ok T" "free_key T = fk" "free_value T = fv" "owns t T ns base h"
    "ledger T ns h = c"
  obtain rc h1 T' ns' where d: "nc_hashtable_del t k h = Some (rc, h1)" "ht_inv t T' ns' h1" "same_callbacks T T'"
    "owns t T' ns' base h1" "ledger T' ns' h1 = ledger T ns h"
    using del_ok [OF o(1,2), of k] o(5) by metis
  then show ?thesis
    using ht_owes_intro [OF d(2,4)] o(3,4,6) assms(3) by (auto simp: ht_del_def same_callbacks_def)
qed

lemma ht_destroy_owes:
  assumes "ht_owes t fk fv base h c"
  shows "\<exists>h'. nc_hashtable_destroy t h = Some h' \<and> ht_settled base h' c"
proof -
  obtain T ns where o: "table_shell t T ns h" "owns t T ns base h" "ledger T ns h = c"
    using assms by (auto simp: ht_owes_def)
  obtain h' where h': "nc_hashtable_destroy t h = Some h'" "heap_ok h'" "mset (calls h') = ledger T ns h"
    "block_size h' = without (table_blocks t T ns) (block_size h)"
    using shell_destroy_ok [OF o(1)] by blast
  have "block_size h' = base"
    using o(2) h'(4) by (auto simp: owns_def without_def fun_eq_iff)
  then show ?thesis
    using h' o(3) by (simp add: ht_settled_def)
qed

interpretation ht: owned_map ck "ht_put t" "ht_del t" "ht_view t" "ht_card t" "ht_wf t ck base" 1610612741
    "ht_due fk fv" "ht_owes t fk fv base" "nc_hashtable_destroy t" "ht_settled base"
  for ck t base fk fv
  by unfold_locales (fact ht_put_step ht_del_step ht_put_owes ht_del_owes ht_destroy_owes)+

end
