(* ===== verification/Nc_Hashtable_Claims.thy ===== *)
theory Nc_Hashtable_Claims
  imports Nc_Hashtable_Correct
begin

text \<open>
  The properties of the hash table, stated on the public functions, with their witnesses on
  concrete tables: keys are addresses, compared by equality and hashed by themselves.
\<close>

subsection \<open>Concrete tables\<close>

definition ht_start :: ht_heap where
  "ht_start = \<lparr>offers = map of_nat [4096, 8192, 12288, 16384, 20480, 24576, 28672], live = [],
     bytes = (\<lambda>_. 0), lists = (\<lambda>_. None), pairs = (\<lambda>_. None), arrs = (\<lambda>_. None), tables = (\<lambda>_. None),
     calls = [], stale_table = \<lparr>ht_size = 99, buckets = 17, num_ix = 3, hash_key = (\<lambda>_. 0),
       cmp_keys = (\<lambda>_ _. False), free_key = False, free_value = False\<rparr>,
     stale_bucket = \<lparr>b_first = 1, b_last = 2\<rparr>\<rparr>"

definition ht_made :: ht_heap where
  "ht_made = snd (the (nc_hashtable_create id (=) True True ht_start))"

definition ht_table :: nc_hashtable where
  "ht_table = the (tables ht_made 4096)"

lemma ht_made_eq: "nc_hashtable_create id (=) True True ht_start = Some (4096, ht_made)"
proof -
  have "map_option fst (nc_hashtable_create id (=) True True ht_start) = Some 4096"
    by (simp add: nc_hashtable_create_def ht_start_def nc_alloc_def malloc_def placement_ok_def fits_def
        nc_hashtable_init_def num_buckets_def primes_def apart_def sizeof_table_def sizeof_bucket_def
        put_table_def list_init_def fill_buckets_run)
  then show ?thesis
    by (auto simp: ht_made_def)
qed

lemma ht_start_ok: "heap_ok ht_start"
  by (simp add: heap_ok_def ht_start_def)

lemma ht_made_inv:
  "ht_inv 4096 ht_table [] ht_made" "hash_key ht_table = id" "cmp_keys ht_table = (=)"
  "free_key ht_table" "free_value ht_table" "owns 4096 ht_table [] (\<lambda>_. None) ht_made"
proof -
  obtain T where T: "ht_inv 4096 T [] ht_made" "hash_key T = id" "cmp_keys T = (=)" "free_key T" "free_value T"
    "owns 4096 T [] (block_size ht_start) ht_made"
    using create_ok [OF ht_start_ok, of id "(=)" True True] ht_made_eq by auto
  then have "ht_table = T"
    by (simp add: ht_inv_def ht_table_def)
  moreover have "block_size ht_start = (\<lambda>_. None)"
    by (simp add: block_size_def ht_start_def fun_eq_iff)
  ultimately show "ht_inv 4096 ht_table [] ht_made" "hash_key ht_table = id" "cmp_keys ht_table = (=)"
    "free_key ht_table" "free_value ht_table" "owns 4096 ht_table [] (\<lambda>_. None) ht_made"
    using T by simp_all
qed

lemma callbacks_ok_eq: "cmp_keys T = (=) \<Longrightarrow> callbacks_ok T"
  by (simp add: callbacks_ok_def identity_equivp)

lemma ht_made_rest:
  "offers ht_made = map of_nat [12288, 16384, 20480, 24576, 28672]"
  "live ht_made = [(8192, 80), (4096, 72)]" "num_buckets ht_table = Some 5" "table_map ht_table [] ht_made k = None"
proof -
  have "map_option (\<lambda>(t, h). (offers h, live h)) (nc_hashtable_create id (=) True True ht_start) =
      Some (map of_nat [12288, 16384, 20480, 24576, 28672], [(8192, 80), (4096, 72)])"
    and "map_option (\<lambda>(t, h). map_option num_buckets (tables h t)) (nc_hashtable_create id (=) True True ht_start) =
      Some (Some (Some 5))"
    by (simp_all add: nc_hashtable_create_def ht_start_def nc_alloc_def malloc_def placement_ok_def fits_def
        nc_hashtable_init_def num_buckets_def primes_def apart_def sizeof_table_def sizeof_bucket_def
        put_table_def list_init_def fill_buckets_run)
  then show "offers ht_made = map of_nat [12288, 16384, 20480, 24576, 28672]"
    "live ht_made = [(8192, 80), (4096, 72)]" "num_buckets ht_table = Some 5"
    by (auto simp: ht_made_eq ht_table_def)
  show "table_map ht_table [] ht_made k = None"
    by (simp add: table_map_def)
qed

text \<open>A run of stores of new keys, while there is room and the offered addresses can be used.\<close>

fun places :: "addr list \<Rightarrow> (addr \<times> nat) list \<Rightarrow> bool" where
  "places [] bs = True"
| "places (a # as) bs = (placement_ok a 40 bs \<and> places as ((a, 40) # bs))"

lemma set_fresh:
  assumes "ht_inv t T ns h" "callbacks_ok T" "num_buckets T = Some nb" "length ns < unat nb"
    and "table_map T ns h k = None" "offers h = a # as" "placement_ok a 40 (live h)"
  shows "\<exists>h' T' ns'. nc_hashtable_set t k v h = Some (0, h') \<and> ht_inv t T' ns' h' \<and>
    T' = T\<lparr>ht_size := ht_size T + 1\<rparr> \<and> length ns' = Suc (length ns) \<and> offers h' = as \<and>
    live h' = (a, 40) # live h \<and> table_map T' ns' h' = map_put (cmp_keys T) k v (table_map T ns h) \<and>
    (\<forall>base. owns t T ns base h \<longrightarrow> owns t T' ns' base h')"
proof -
  have i: "tables h t = Some T" "hring h (head t) ns" "buckets_ok t T nb h ns" "nodes_ok T h ns" "heap_ok h"
    "ht_size T = of_nat (length ns)"
    using assms(1,3) by (auto simp: ht_inv_def)
  have none: "List.find (\<lambda>n. cmp_keys T (fst (entry h n)) k) ns = None"
    using assms(5) by (simp add: table_map_def)
  obtain b where b: "get_bucket T (hash_key T k mod nb) h = Some b"
    "hashtable_find_pair t T b k (hash_key T k) h =
      Some (case List.find (\<lambda>n. cmp_keys T (fst (entry h n)) k) ns of
              None \<Rightarrow> NULL | Some n \<Rightarrow> list_to_pair n)"
    using i(2-4) assms(2) mod_nb_less [OF assms(3)] by (rule find_pair_ok)
  define h2 where "h2 = h\<lparr>offers := as, live := (a, 40) # live h\<rparr>"
  have al: "nc_alloc sizeof_pair h = (a, h2)"
    using assms(6,7) by (simp add: nc_alloc_def malloc_def h2_def sizeof_pair_def)
  have a: "a \<noteq> NULL" "block_size h a = None"
    using assms(7) placement_ok_block_size [OF assms(7)] by auto
  have bs: "block_size h2 = (block_size h)(a \<mapsto> 40)"
    using block_size_alloc [OF al a(1)] by (simp add: sizeof_pair_def)
  define T' where "T' = T\<lparr>ht_size := ht_size T + 1\<rparr>"
  obtain h4 ns' where r: "insert_to_bucket t T (hash_key T k mod nb) (pair_list a)
      (list_init (pair_list a) (h2\<lparr>pairs := (pairs h2)(a \<mapsto> \<lparr>key = k, value = v, hash = hash_key T k\<rparr>)\<rparr>)) = Some h4"
    "ht_inv t T' ns' (put_table t T' h4)"
    "table_map T' ns' (put_table t T' h4) = map_put (cmp_keys T) k v (table_map T ns h)"
    "length ns' = Suc (length ns)" "set ns' = insert (pair_list a) (set ns)"
    "offers (put_table t T' h4) = offers h2" "live (put_table t T' h4) = live h2"
    "block_size (put_table t T' h4) = block_size h2"
    unfolding T'_def
    using insert_new_ok [OF assms(1,3,4,2,5) a bs heap_ok_nc_alloc [OF i(5) al], of v] by (auto simp: h2_def)
  have "set_pair t k v h = Some (0, put_table t T' h4)"
    using i(1) assms(3) b none al a(1) r(1) by (simp add: set_pair_def Let_def T'_def)
  moreover have "\<not> nb \<le> ht_size T"
  proof -
    have "unat (ht_size T) = length ns"
      using i(6) assms(4) unat_bound64 [of nb] by (simp add: unat_of_nat_ok)
    then show ?thesis
      using assms(4) by (simp add: word_le_nat_alt)
  qed
  ultimately have "nc_hashtable_set t k v h = Some (0, put_table t T' h4)"
    using i(1) assms(3) by (simp add: nc_hashtable_set_def)
  moreover have "owns t T' ns' base (put_table t T' h4)" if "owns t T ns base h" for base
    using owns_new_node [OF assms(1) that a(2), of "put_table t T' h4" 40 T' ns'] bs r(5,8)
    by (simp add: T'_def)
  ultimately show ?thesis
    using r(2-4,6,7) unfolding h2_def T'_def by (intro exI conjI) (assumption | simp)+
qed

lemma fresh_run:
  assumes "ht_inv t T ns h" "callbacks_ok T" "cmp_keys T = (=)" "num_buckets T = Some nb"
    and "length ns + length kvs \<le> unat nb" "distinct (map fst kvs)"
    and "\<forall>(k, v) \<in> set kvs. table_map T ns h k = None"
    and "offers h = as" "length as = length kvs" "places as (live h)"
  shows "\<exists>h' T' ns'. run_ops (ht_put t) (ht_del t) (map (\<lambda>(k, v). Put k v) kvs) h = Some (True, h') \<and>
    ht_inv t T' ns' h' \<and> same_callbacks T T' \<and> num_buckets T' = Some nb \<and>
    length ns' = length ns + length kvs \<and> offers h' = [] \<and>
    (\<forall>base. owns t T ns base h \<longrightarrow> owns t T' ns' base h')"
  using assms
proof (induction kvs arbitrary: T ns h as)
  case Nil
  then show ?case
    by (intro exI [of _ h] exI [of _ T] exI [of _ ns]) simp
next
  case (Cons kv kvs)
  obtain k v where kv: "kv = (k, v)"
    by fastforce
  obtain a as' where as: "as = a # as'"
    using Cons.prems(9) by (cases as) auto
  have "length ns < unat nb" "table_map T ns h k = None" "offers h = a # as'" "placement_ok a 40 (live h)"
    using Cons.prems(5,7,8,10) by (simp_all add: kv as)
  from set_fresh [OF Cons.prems(1,2,4) this, of v]
  obtain h' T' ns' where s: "nc_hashtable_set t k v h = Some (0, h')" "ht_inv t T' ns' h'"
    "T' = T\<lparr>ht_size := ht_size T + 1\<rparr>" "length ns' = Suc (length ns)" "offers h' = as'"
    "live h' = (a, 40) # live h" "table_map T' ns' h' = map_put (cmp_keys T) k v (table_map T ns h)"
    "\<forall>base. owns t T ns base h \<longrightarrow> owns t T' ns' base h'"
    by blast
  have sc: "same_callbacks T T'" "callbacks_ok T'" "cmp_keys T' = (=)" "num_buckets T' = Some nb"
    using Cons.prems(2-4) s(3) callbacks_ok_eq by simp_all
  have "\<forall>(k', v') \<in> set kvs. table_map T' ns' h' k' = None"
    using Cons.prems(3,6,7) by (force simp: s(7) map_put_def kv)
  then obtain h'' T'' ns'' where "run_ops (ht_put t) (ht_del t) (map (\<lambda>(k, v). Put k v) kvs) h' = Some (True, h'')"
    "ht_inv t T'' ns'' h''" "same_callbacks T' T''" "num_buckets T'' = Some nb"
    "length ns'' = length ns' + length kvs" "offers h'' = []"
    "\<forall>base. owns t T' ns' base h' \<longrightarrow> owns t T'' ns'' base h''"
    using Cons.IH [OF s(2) sc(2-4), of as'] Cons.prems(5,6,9,10) s(4-6) by (auto simp: as kv)
  moreover have "same_callbacks T T''"
    using sc(1) \<open>same_callbacks T' T''\<close> by (simp add: same_callbacks_def)
  moreover have "ht_put t k v h = Some (True, h')"
    using s(1) by (simp add: ht_put_def)
  ultimately show ?case
    using s(4,8) by (intro exI [of _ h''] exI [of _ T''] exI [of _ ns'']) (simp add: kv)
qed

text \<open>A table filled to its capacity, with no memory left.\<close>

definition ht_kvs :: "(addr \<times> addr) list" where
  "ht_kvs = [(1, 11), (6, 16), (2, 12), (11, 21), (3, 13)]"

definition ht_full :: ht_heap where
  "ht_full = snd (the (run_ops (ht_put 4096) (ht_del 4096) (map (\<lambda>(k, v). Put k v) ht_kvs) ht_made))"

definition ht_puts :: "(addr, addr) map_op list" where
  "ht_puts = map (\<lambda>(k, v). Put k v) ht_kvs"

lemma ht_full_facts:
  "run_ops (ht_put 4096) (ht_del 4096) ht_puts ht_made = Some (True, ht_full) \<and>
   (\<exists>T ns. ht_inv 4096 T ns ht_full \<and> callbacks_ok T \<and> cmp_keys T = (=) \<and> num_buckets T = Some 5 \<and>
    length ns = 5 \<and> offers ht_full = [] \<and> free_key T \<and> free_value T \<and> owns 4096 T ns (\<lambda>_. None) ht_full)"
proof -
  have "places (map of_nat [12288, 16384, 20480, 24576, 28672]) [(8192, 80), (4096, 72)]"
    by (simp add: placement_ok_def fits_def apart_def)
  then obtain h' T ns where r: "run_ops (ht_put 4096) (ht_del 4096) (map (\<lambda>(k, v). Put k v) ht_kvs) ht_made = Some (True, h')"
    "ht_inv 4096 T ns h'" "same_callbacks ht_table T" "num_buckets T = Some 5" "length ns = 5" "offers h' = []"
    "owns 4096 T ns (\<lambda>_. None) h'"
    using fresh_run [OF ht_made_inv(1) callbacks_ok_eq [OF ht_made_inv(3)] ht_made_inv(3) ht_made_rest(3),
        of ht_kvs, OF _ _ _ ht_made_rest(1)] ht_made_rest(2,4) ht_made_inv(6)
    by (auto simp: ht_kvs_def)
  have "ht_full = h'"
    by (simp only: ht_full_def r(1) option.sel snd_conv)
  then show ?thesis
    using r ht_made_inv(3-5) callbacks_ok_eq [of T] unfolding same_callbacks_def ht_puts_def by metis
qed

lemmas ht_full_run = conjunct1 [OF ht_full_facts] and ht_full_inv = conjunct2 [OF ht_full_facts]

lemma ht_full_get: "\<exists>T ns. ht_inv 4096 T ns ht_full \<and> callbacks_ok T \<and> length ns = 5"
  using ht_full_inv by blast

subsection \<open>Properties\<close>

text \<open>
  Property (C24): \<open>nc_hashtable_create\<close> either returns null and leaves every
  block of the heap as it was, the half-built table released, or returns an empty table that
  satisfies the invariant, carries the callbacks it was given and owns two new blocks.
\<close>

theorem nc_hashtable_create_spec:
  assumes "heap_ok h"
  shows "\<exists>t h'. nc_hashtable_create hk ck fk fv h = Some (t, h') \<and> heap_ok h' \<and> calls h' = calls h \<and>
    (if t = NULL then block_size h' = block_size h
     else \<exists>T. ht_inv t T [] h' \<and> hash_key T = hk \<and> cmp_keys T = ck \<and> free_key T = fk \<and> free_value T = fv \<and>
       owns t T [] (block_size h) h')"
  using assms by (rule create_ok)

theorem nc_hashtable_create_spec_witness:
  "\<exists>t h'. nc_hashtable_create id (=) True True ht_start = Some (t, h') \<and> heap_ok h'"
  using nc_hashtable_create_spec [OF ht_start_ok, of id "(=)" True True] by blast

text \<open>
  Property (C2): on a well-formed table \<open>nc_hashtable_get\<close> is total and
  returns the value of the key in the map the table stands for, or null when the key is absent:
  searching the one bucket of the key is as good as searching the whole table.
\<close>

theorem nc_hashtable_get_spec:
  assumes "ht_inv t T ns h" "callbacks_ok T"
  shows "nc_hashtable_get t k h = Some (case table_map T ns h k of None \<Rightarrow> NULL | Some v \<Rightarrow> v)"
  using assms by (rule get_ok)

theorem nc_hashtable_get_spec_witness:
  "\<exists>T ns. nc_hashtable_get 4096 6 ht_full =
    Some (case table_map T ns ht_full 6 of None \<Rightarrow> NULL | Some v \<Rightarrow> v)"
proof -
  obtain T ns where "ht_inv 4096 T ns ht_full" "callbacks_ok T"
    using ht_full_get by blast
  then show ?thesis
    using nc_hashtable_get_spec [of 4096 T ns ht_full 6] by blast
qed

text \<open>
  Property (C1): \<open>nc_hashtable_set\<close> below the last bucket count is defined and
  has one of three outcomes: success, when the table keeps its invariant, its map is updated at
  the key's class, and a replaced value and the superfluous key go to the callbacks; failure of
  the pair's allocation, when nothing the caller sees has changed; or failure of the rehash, only
  in a full table, which leaves the table without buckets but with the same pairs, the same other blocks
  and the same callbacks to make (\<open>bucketless\<close>). Other blocks of the heap are untouched.
\<close>

theorem nc_hashtable_set_spec:
  assumes "ht_inv t T ns h" "callbacks_ok T" "length ns < 1610612741"
  shows "\<exists>rc h'. nc_hashtable_set t k v h = Some (rc, h') \<and> set_result t T ns h k v rc h'"
  using assms by (rule set_ok)

theorem nc_hashtable_set_spec_witness:
  "\<exists>rc h'. nc_hashtable_set 4096 1 11 ht_made = Some (rc, h') \<and> set_result 4096 ht_table [] ht_made 1 11 rc h'"
  by (rule nc_hashtable_set_spec [OF ht_made_inv(1) callbacks_ok_eq [OF ht_made_inv(3)]]) simp

text \<open>
  Property (C3): \<open>nc_hashtable_del\<close> is total on a well-formed table; it returns
  -1 and changes nothing when the key is absent, and otherwise returns 0, removes exactly the
  key's class from the map, unlinks and releases the pair, and hands the stored key and value to
  the callbacks, so that the ledger of callbacks made and owed balances.
\<close>

theorem nc_hashtable_del_spec:
  assumes "ht_inv t T ns h" "callbacks_ok T"
  shows "\<exists>rc h' T' ns'. nc_hashtable_del t k h = Some (rc, h') \<and> ht_inv t T' ns' h' \<and> same_callbacks T T' \<and>
    table_map T' ns' h' = map_del (cmp_keys T) k (table_map T ns h) \<and>
    (\<forall>base. owns t T ns base h \<longrightarrow> owns t T' ns' base h') \<and> ledger T' ns' h' = ledger T ns h \<and>
    (if table_map T ns h k = None then rc = - 1 \<and> h' = h \<and> ns' = ns
     else rc = 0 \<and> Suc (length ns') = length ns \<and>
       (\<exists>k0. cmp_keys T k0 k \<and> calls h' = calls h @ key_call T k0 @ value_call T (the (table_map T ns h k))))"
  using assms by (rule del_ok)

theorem nc_hashtable_del_spec_witness:
  "\<exists>rc h' T' ns'. nc_hashtable_del 4096 6 ht_full = Some (rc, h') \<and> ht_inv 4096 T' ns' h'"
proof -
  obtain T ns where "ht_inv 4096 T ns ht_full" "callbacks_ok T"
    using ht_full_get by blast
  then show ?thesis
    using nc_hashtable_del_spec [of 4096 T ns ht_full 6] by blast
qed

text \<open>
  Property (C23): \<open>nc_hashtable_clear\<close> hands every pair to the callbacks in the
  order of the list, releases the pairs and leaves a well-formed empty table that can be used
  again with the bucket array it had.
\<close>

theorem nc_hashtable_clear_spec:
  assumes "ht_inv t T ns h"
  shows "\<exists>h'. nc_hashtable_clear t h = Some h' \<and> ht_inv t (T\<lparr>ht_size := 0\<rparr>) [] h' \<and>
    calls h' = calls h @ concat (map (pair_calls T h) ns) \<and>
    (\<forall>base. owns t T ns base h \<longrightarrow> owns t (T\<lparr>ht_size := 0\<rparr>) [] base h')"
  using assms by (rule clear_ok)

theorem nc_hashtable_clear_spec_witness:
  "\<exists>T h'. nc_hashtable_clear 4096 ht_full = Some h' \<and> ht_inv 4096 (T\<lparr>ht_size := 0\<rparr>) [] h'"
proof -
  obtain T ns where "ht_inv 4096 T ns ht_full"
    using ht_full_get by blast
  then show ?thesis
    using nc_hashtable_clear_spec [of 4096 T ns ht_full] by blast
qed

text \<open>
  Property (C11): \<open>nc_hashtable_destroy\<close> never frees a block twice and never
  reads a freed node; it releases exactly the blocks of the table (the struct, the bucket array and
  every pair) and leaves all others alone, and after it every key and value the table was given has
  been handed to its callback exactly once.
\<close>

theorem nc_hashtable_destroy_spec:
  assumes "ht_inv t T ns h"
  shows "\<exists>h'. nc_hashtable_destroy t h = Some h' \<and> heap_ok h' \<and> tables h' t = None \<and>
    block_size h' = without (table_blocks t T ns) (block_size h) \<and>
    calls h' = calls h @ concat (map (pair_calls T h) ns) \<and> mset (calls h') = ledger T ns h"
  using assms by (rule table_destroy_ok)

theorem nc_hashtable_destroy_spec_witness:
  "\<exists>h'. nc_hashtable_destroy 4096 ht_full = Some h' \<and> tables h' 4096 = None"
proof -
  obtain T ns where "ht_inv 4096 T ns ht_full"
    using ht_full_get by blast
  then show ?thesis
    using nc_hashtable_destroy_spec [of 4096 T ns ht_full] by blast
qed

text \<open>
  Property (C10): a rehash of a full table either succeeds, and then the same
  nodes hang in the table, the map is unchanged, the bucket count has grown and the load is below
  one; or it fails and the table has lost its bucket array, and nothing else.
\<close>

theorem hashtable_do_rehash_spec:
  assumes "ht_inv t T ns h" "callbacks_ok T" "num_buckets T = Some nb" "length ns = unat nb" "nb < 1610612741"
  shows "\<exists>rc h'. hashtable_do_rehash t h = Some (rc, h') \<and>
    (rc = 0 \<and> (\<exists>T' ns' nb'. ht_inv t T' ns' h' \<and> num_buckets T' = Some nb' \<and> nb' \<noteq> nb \<and> length ns' < unat nb' \<and>
       set ns' = set ns \<and> length ns' = length ns \<and> table_map T' ns' h' = table_map T ns h \<and> calls h' = calls h) \<or>
     rc = - 1 \<and> no_buckets t h' \<and> bucketless t T ns h h')"
proof -
  have len: "length ns < 1610612741"
    using assms(4,5) by (simp add: word_less_nat_alt)
  have i: "nodes_ok T h ns" "ht_size T = of_nat (length ns)"
    using assms(1) by (simp_all add: ht_inv_def)
  then have sz: "nb \<le> ht_size T"
    using assms(4) len by (simp add: word_le_nat_alt unat_of_nat_ok)
  show ?thesis
  proof (rule rehash_ok [OF assms(1) len sz assms(3)])
    fix h'
    assume "hashtable_do_rehash t h = Some (- 1, h')"
      "tables h' t = Some (T\<lparr>buckets := NULL, num_ix := num_ix T + 1\<rparr>)" "lost_buckets T h h'"
    then show ?thesis
      using lost_bucketless [OF assms(1)] by (intro exI [of _ "- 1"] exI [of _ h']) (simp add: no_buckets_def)
  next
    fix T' ns' h'
    assume r: "hashtable_do_rehash t h = Some (0, h')" "ht_inv t T' ns' h'" "set ns' = set ns"
      "length ns' = length ns" "pairs h' = pairs h" "same_callbacks T T'" "calls h' = calls h"
      "num_buckets T' \<noteq> num_buckets T" "\<And>nb'. num_buckets T' = Some nb' \<Longrightarrow> length ns' < unat nb'"
    obtain nb' where "num_buckets T' = Some nb'"
      using r(2) by (auto simp: ht_inv_def)
    moreover have "table_map T' ns' h' = table_map T ns h"
      using i(1) r(3,5,6) assms(2) by (intro table_map_same) (simp_all add: nodes_ok_def)
    ultimately have "\<exists>T' ns' nb'. ht_inv t T' ns' h' \<and> num_buckets T' = Some nb' \<and> nb' \<noteq> nb \<and>
        length ns' < unat nb' \<and> set ns' = set ns \<and> length ns' = length ns \<and>
        table_map T' ns' h' = table_map T ns h \<and> calls h' = calls h"
      using r assms(3) by (intro exI [of _ T'] exI [of _ ns'] exI [of _ nb']) auto
    then show ?thesis
      using r(1) by blast
  qed
qed

theorem hashtable_do_rehash_spec_witness:
  "\<exists>rc h'. hashtable_do_rehash 4096 ht_full = Some (rc, h')"
proof -
  obtain T ns where "ht_inv 4096 T ns ht_full" "callbacks_ok T" "num_buckets T = Some 5" "length ns = 5"
    using ht_full_inv by blast
  then show ?thesis
    using hashtable_do_rehash_spec [of 4096 T ns ht_full 5] by auto
qed

text \<open>A full table whose rehash gets no memory.\<close>

lemma set_starved:
  assumes "ht_inv t T ns h" "num_buckets T = Some nb" "length ns = unat nb"
    and "nb < 1610612741" "offers h = []"
  obtains h' T1 nb' where "nc_hashtable_set t k v h = Some (- 1, h')" "tables h' t = Some T1"
    "num_buckets T1 = Some nb'" "buckets T1 = NULL"
proof -
  have len: "length ns < 1610612741"
    using assms(3,4) by (simp add: word_less_nat_alt)
  have i: "ht_size T = of_nat (length ns)" "tables h t = Some T" "heap_ok h"
    "block_size h (buckets T) = Some (16 * unat nb)"
    using assms(1,2) by (auto simp: ht_inv_def)
  then have sz: "nb \<le> ht_size T"
    using assms(3) len by (simp add: word_le_nat_alt unat_of_nat_ok)
  obtain nb' where nb': "num_buckets (T\<lparr>num_ix := num_ix T + 1\<rparr>) = Some nb'"
    using num_buckets_grows [OF assms(2,4)] by blast
  define T1 where "T1 = T\<lparr>buckets := NULL, num_ix := num_ix T + 1\<rparr>"
  obtain h1 where h1: "free_buckets t T h = Some h1" "offers h1 = []"
    using nc_free_live [OF i(3,4)] assms(5) by (simp add: free_buckets_def put_table_def heap_simps)
  define h' where "h' = put_table t T1 h1"
  have nb1: "num_buckets T1 = Some nb'"
    using nb' by (simp add: T1_def num_buckets_ix)
  have T1b: "T1\<lparr>buckets := NULL\<rparr> = T1" "buckets T1 = NULL"
    by (simp_all add: T1_def)
  have "nc_alloc (nb' * sizeof_bucket) h1 = (NULL, h1)"
    using h1(2) by (simp add: nc_alloc_def malloc_def)
  then have "hashtable_do_rehash t h = Some (- 1, h')"
    using i(2) h1(1) nb1 T1b(1) by (simp add: hashtable_do_rehash_def Let_def h'_def flip: T1_def)
  then have "nc_hashtable_set t k v h = Some (- 1, h')"
    using i(2) assms(2) sz by (simp add: nc_hashtable_set_def)
  moreover have "tables h' t = Some T1"
    by (simp add: h'_def put_table_def)
  ultimately show thesis
    using that nb1 T1b(2) by blast
qed

text \<open>
  Property (C22): when the allocation of the new bucket array fails,
  \<open>nc_hashtable_set\<close> reports the failure, but it has already released the old array and stored a null
  pointer: before the call every lookup was defined, after it every lookup, for any key,
  dereferences the null pointer, and so does every deletion.
\<close>

theorem nc_hashtable_failed_rehash:
  assumes "ht_inv t T ns h" "callbacks_ok T" "num_buckets T = Some nb" "length ns = unat nb"
    and "nb < 1610612741" "offers h = []"
  shows "\<exists>h'. nc_hashtable_set t k v h = Some (- 1, h') \<and>
    (\<forall>x. nc_hashtable_get t x h \<noteq> None \<and> nc_hashtable_get t x h' = None \<and> nc_hashtable_del t x h' = None)"
proof -
  obtain h' T1 nb' where s: "nc_hashtable_set t k v h = Some (- 1, h')" "tables h' t = Some T1"
    "num_buckets T1 = Some nb'" "buckets T1 = NULL"
    by (rule set_starved [OF assms(1,3-6)])
  then have "nc_hashtable_get t x h' = None \<and> nc_hashtable_del t x h' = None" for x
    by (simp add: nc_hashtable_get_def lookup_pair_def get_bucket_def
        nc_hashtable_del_def hashtable_do_del_def Let_def)
  then show ?thesis
    using s(1) get_ok [OF assms(1,2)] by auto
qed

theorem nc_hashtable_failed_rehash_witness:
  "\<exists>h'. nc_hashtable_set 4096 7 17 ht_full = Some (- 1, h') \<and> nc_hashtable_get 4096 1 h' = None"
proof -
  obtain T ns where "ht_inv 4096 T ns ht_full" "callbacks_ok T" "num_buckets T = Some 5" "length ns = 5"
    "offers ht_full = []"
    using ht_full_inv by blast
  then show ?thesis
    using nc_hashtable_failed_rehash [of 4096 T ns ht_full 5 7 17] by auto
qed

text \<open>
  Property (C21): the documented loop from \<open>nc_hashtable_iter\<close> by
  \<open>nc_hashtable_iter_next\<close> to null visits every pair exactly once: it returns the graph of the map,
  one entry for each class of keys, in the order of the list.
\<close>

theorem nc_hashtable_iteration_spec:
  assumes "ht_inv t T ns h" "callbacks_ok T" "length ns < f"
  shows "\<exists>it xs. nc_hashtable_iter t h = Some it \<and> iter_walk f t h it = Some xs \<and> length xs = length ns \<and>
    (\<forall>k v. table_map T ns h k = Some v \<longleftrightarrow> (\<exists>k0. (k0, v) \<in> set xs \<and> cmp_keys T k0 k)) \<and>
    sorted_wrt (\<lambda>(a, _) (b, _). \<not> cmp_keys T a b) xs"
proof -
  have i: "hring h (head t) ns" "nodes_ok T h ns" "heap_ok h"
    using assms(1) by (auto simp: ht_inv_def)
  have "iter_walk f t h (case ns of [] \<Rightarrow> NULL | m # _ \<Rightarrow> m) = Some (map (entry h) ns)"
    using iter_walk_ok [of h t "[]" ns T f] i node_address [OF i(3,2)] assms(3) by simp
  moreover have "table_map T ns h k = Some v \<longleftrightarrow> (\<exists>k0. (k0, v) \<in> set (map (entry h) ns) \<and> cmp_keys T k0 k)" for k v
  proof -
    have "keys_apart T h ns"
      using i(2) by (simp add: nodes_ok_def)
    then have "table_map T ns h k = Some v \<longleftrightarrow> (\<exists>n \<in> set ns. cmp_keys T (fst (entry h n)) k \<and> v = snd (entry h n))"
      using assms(2) by (rule table_map_Some)
    also have "\<dots> \<longleftrightarrow> (\<exists>e \<in> entry h ` set ns. cmp_keys T (fst e) k \<and> v = snd e)"
      by simp
    finally show ?thesis
      by (metis fst_conv prod.collapse set_map snd_conv)
  qed
  moreover have "sorted_wrt (\<lambda>(a, _) (b, _). \<not> cmp_keys T a b) (map (entry h) ns)"
  proof -
    have "distinct ns" "keys_apart T h ns"
      using i(1,2) by (simp_all add: ring_def nodes_ok_def)
    then show ?thesis
      by (induction ns) (auto simp: keys_apart_def split: prod.splits)
  qed
  ultimately show ?thesis
    using iter_first_ok [OF i(1)] by (intro exI conjI) (assumption | simp)+
qed

theorem nc_hashtable_iteration_spec_witness:
  "\<exists>it xs. nc_hashtable_iter 4096 ht_full = Some it \<and> iter_walk 6 4096 ht_full it = Some xs \<and> length xs = 5"
proof -
  obtain T ns where "ht_inv 4096 T ns ht_full" "callbacks_ok T" "length ns = 5"
    using ht_full_get by blast
  then show ?thesis
    using nc_hashtable_iteration_spec [of 4096 T ns ht_full 6] by auto
qed

text \<open>Storing succeeds or returns -1.\<close>

lemma set_rc: "nc_hashtable_set t k v h = Some (rc, h') \<Longrightarrow> rc = 0 \<or> rc = - 1"
  by (auto simp: nc_hashtable_set_def set_pair_def Let_def bind_eq_Some_conv case_prod_beta split: if_splits)

lemma ht_put_minus: "ht_put t k v h = Some (False, h') \<longleftrightarrow> nc_hashtable_set t k v h = Some (- 1, h')"
  using set_rc [of t k v h] by (auto simp: ht_put_def)

text \<open>One more operation on the full table: a deletion works, a store fails for want of memory.\<close>

lemma run_more:
  "\<exists>h2. run_ops (ht_put 4096) (ht_del 4096) (ht_puts @ [Del 6]) ht_made = Some (True, h2)"
  "\<exists>h2. run_ops (ht_put 4096) (ht_del 4096) (ht_puts @ [Put 7 17]) ht_made = Some (False, h2)"
proof -
  obtain T ns where T: "ht_inv 4096 T ns ht_full" "callbacks_ok T" "num_buckets T = Some 5" "length ns = 5"
    "offers ht_full = []"
    using ht_full_inv by blast
  obtain rc h2 where "nc_hashtable_del 4096 6 ht_full = Some (rc, h2)"
    using del_ok [OF T(1,2)] by blast
  then show "\<exists>h2. run_ops (ht_put 4096) (ht_del 4096) (ht_puts @ [Del 6]) ht_made = Some (True, h2)"
    by (simp add: run_ops_append ht_full_run ht_del_def)
  obtain h2 where "nc_hashtable_set 4096 7 17 ht_full = Some (- 1, h2)"
    using set_starved [OF T(1,3) _ _ T(5), where k = 7 and v = 17] T(4) by auto
  then show "\<exists>h2. run_ops (ht_put 4096) (ht_del 4096) (ht_puts @ [Put 7 17]) ht_made = Some (False, h2)"
    by (simp add: run_ops_append ht_full_run ht_put_def)
qed

lemma run_stop_unique:
  assumes "ht_puts @ [Put 7 17] = ps @ Put k v # rest"
    and "run_ops (ht_put 4096) (ht_del 4096) ps ht_made = Some (True, h0)" "nc_hashtable_set 4096 k v h0 = Some (- 1, h2)"
  shows "ps = ht_puts"
proof (cases "rest = []")
  case False
  then obtain os where "ht_puts = ps @ Put k v # os"
    using assms(1) by (cases rest rule: rev_cases) auto
  moreover have "ht_put 4096 k v h0 = Some (False, h2)"
    using assms(3) by (simp add: ht_put_def)
  ultimately have "run_ops (ht_put 4096) (ht_del 4096) ht_puts ht_made = Some (False, h2)"
    using assms(2) unfolding \<open>ht_puts = _\<close> by (subst run_ops_append) simp
  then show ?thesis
    using ht_full_run by simp
qed (use assms(1) in simp)

text \<open>
  Property (C4): the life of a table, with at most 1610612741 operations (the last bucket
  count). Create it, run a sequence of stores and deletions until it ends or a store fails, destroy it: no step
  is undefined. When no store fails, the table shows the map that the operations define; otherwise the
  operations before the failing store have had their effect and that store has returned -1. In both
  cases, the failed rehash included, destroying the table gives back exactly its blocks,
  and by then every key and every value that a successful store was given has gone to its callback
  exactly once.
\<close>

theorem nc_hashtable_lifecycle:
  assumes "heap_ok h" "equivp ck" "\<And>a b. ck a b \<Longrightarrow> hk a = hk b"
    and "nc_hashtable_create hk ck fk fv h = Some (t, h1)" "t \<noteq> NULL" "length os \<le> 1610612741"
  shows "\<exists>b h2 h3 ps. run_ops (ht_put t) (ht_del t) os h1 = Some (b, h2) \<and>
    (if b then ps = os \<and> ht_view t h2 = spec_ops ck os (\<lambda>_. None)
     else \<exists>k v rest h0. os = ps @ Put k v # rest \<and> run_ops (ht_put t) (ht_del t) ps h1 = Some (True, h0) \<and>
       ht_view t h0 = spec_ops ck ps (\<lambda>_. None) \<and> nc_hashtable_set t k v h0 = Some (- 1, h2)) \<and>
    nc_hashtable_destroy t h2 = Some h3 \<and> heap_ok h3 \<and> block_size h3 = block_size h \<and>
    mset (calls h3) = mset (calls h) + dues (ht_due fk fv) ps"
proof -
  obtain T where T: "ht_inv t T [] h1" "hash_key T = hk" "cmp_keys T = ck" "free_key T = fk" "free_value T = fv"
    "owns t T [] (block_size h) h1" "calls h1 = calls h"
    using create_ok [OF assms(1), of hk ck fk fv] assms(4,5) by auto
  have cb: "callbacks_ok T"
    using assms(2,3) T(2,3) by (simp add: callbacks_ok_def)
  have w: "ht_wf t ck (block_size h) h1" "ht_view t h1 = (\<lambda>_. None)" "ht_card t h1 = 0"
    using ht_wf_intro [OF T(1) _ cb T(6)] T(3) by (simp_all add: table_map_def fun_eq_iff)
  have o: "ht_owes t fk fv (block_size h) h1 (mset (calls h))"
    using ht_owes_intro [OF T(1,6)] T(4,5,7) by (simp add: ledger_def)
  have "ht_card t h1 + length os \<le> 1610612741"
    using w(3) assms(6) by simp
  from ht.life [OF w(1) o this] show ?thesis
    unfolding w(2) ht_settled_def by (elim exE conjE) (auto simp: ht_put_minus split: if_splits)
qed

theorem nc_hashtable_lifecycle_witness:
  "(\<exists>h2 h3. run_ops (ht_put 4096) (ht_del 4096) (ht_puts @ [Del 6]) ht_made = Some (True, h2) \<and>
      ht_view 4096 h2 = [1 \<mapsto> 11, 2 \<mapsto> 12, 11 \<mapsto> 21, 3 \<mapsto> 13] \<and>
      nc_hashtable_destroy 4096 h2 = Some h3 \<and> block_size h3 = block_size ht_start \<and> length (calls h3) = 10) \<and>
   (\<exists>h2 h3. run_ops (ht_put 4096) (ht_del 4096) (ht_puts @ [Put 7 17]) ht_made = Some (False, h2) \<and>
      nc_hashtable_destroy 4096 h2 = Some h3 \<and> block_size h3 = block_size ht_start \<and> length (calls h3) = 10)"
proof -
  note life = nc_hashtable_lifecycle [OF ht_start_ok identity_equivp _ ht_made_eq]
  have len: "length (ht_puts @ [op]) \<le> 1610612741" for op
    by (simp add: ht_puts_def ht_kvs_def)
  have c: "mset (calls ht_start) = {#}"
    by (simp add: ht_start_def)
  have d: "size (dues (ht_due True True) ht_puts) = 10" "dues (ht_due True True) (ht_puts @ [Del 6]) = dues (ht_due True True) ht_puts"
    by (simp_all add: ht_puts_def ht_kvs_def ht_due_def)
  have v: "spec_ops (=) (ht_puts @ [Del 6]) (\<lambda>_. None) = [1 \<mapsto> 11, 2 \<mapsto> 12, 11 \<mapsto> 21, 3 \<mapsto> 13]"
    by (simp add: ht_puts_def ht_kvs_def map_put_def map_del_def fun_eq_iff)
  obtain h2 where r: "run_ops (ht_put 4096) (ht_del 4096) (ht_puts @ [Del 6]) ht_made = Some (True, h2)"
    using run_more(1) by blast
  obtain h3 where s: "ht_view 4096 h2 = [1 \<mapsto> 11, 2 \<mapsto> 12, 11 \<mapsto> 21, 3 \<mapsto> 13]"
    "nc_hashtable_destroy 4096 h2 = Some h3" "block_size h3 = block_size ht_start"
    "mset (calls h3) = dues (ht_due True True) ht_puts"
    using life [OF _ _ len [of "Del 6"]] unfolding r c v [symmetric] by (auto simp: d(2))
  obtain g2 where q: "run_ops (ht_put 4096) (ht_del 4096) (ht_puts @ [Put 7 17]) ht_made = Some (False, g2)"
    using run_more(2) by blast
  obtain g3 ps k v rest h0 where p: "ht_puts @ [Put 7 17] = ps @ Put k v # rest"
    "run_ops (ht_put 4096) (ht_del 4096) ps ht_made = Some (True, h0)" "nc_hashtable_set 4096 k v h0 = Some (- 1, g2)"
    "nc_hashtable_destroy 4096 g2 = Some g3" "block_size g3 = block_size ht_start"
    "mset (calls g3) = dues (ht_due True True) ps"
    using life [OF _ _ len [of "Put 7 17"]] unfolding q c by auto
  have "ps = ht_puts"
    by (rule run_stop_unique [OF p(1-3)])
  then show ?thesis
    using r s q p(4-6) d(1) by (metis size_mset)
qed

end
