(* ===== verification/Nc_Sds.thy ===== *)
theory Nc_Sds
  imports C_Heap
begin

text \<open>
  \<open>nc_sds.h\<close> and \<open>nc_sds.c\<close>: dynamic strings. A string is a block that holds a header of 8 bytes
  (\<open>len\<close> and \<open>free\<close>, both \<open>int\<close>) and the buffer behind it; the \<open>sds\<close> that callers see is the address
  of the buffer. The typed store \<open>strs\<close> keeps the header and the buffer under that address, \<open>vecs\<close>
  the arrays of \<open>sds\<close> that the splitting functions return. Bytes and array cells that the code has
  not written have the arbitrary values \<open>junk\<close> and \<open>junk_addr\<close>.

  Arguments of type \<open>const char *\<close> that the functions only read are the list of the bytes they point
  to, without the terminator for a null-terminated string; an access beyond the list is undefined.
  The \<open>ctype.h\<close> functions are those of the C locale, defined on every value of \<open>char\<close> as the GNU
  library does.
\<close>

subsection \<open>State\<close>

record sdshdr =
  sh_len :: int
  sh_free :: int
  sh_buf :: string

record sds_heap = heap +
  strs :: "addr \<Rightarrow> sdshdr option"
  vecs :: "addr \<Rightarrow> addr list option"
  junk :: "nat \<Rightarrow> char"
  junk_addr :: addr

abbreviation NUL :: char where
  "NUL \<equiv> CHR 0x00"

definition SDS_MAX_PREALLOC :: size_t where "SDS_MAX_PREALLOC = 1048576"

definition sizeof_hdr :: size_t where "sizeof_hdr = 8"

definition get_sds :: "sds_heap \<Rightarrow> addr \<Rightarrow> sdshdr option" where
  "get_sds h s = (if s = NULL then None else strs h s)"

definition put_sds :: "addr \<Rightarrow> sdshdr \<Rightarrow> sds_heap \<Rightarrow> sds_heap" where
  "put_sds s sh h = h\<lparr>strs := (strs h)(s \<mapsto> sh)\<rparr>"

subsection \<open>Buffers\<close>

definition at :: "string \<Rightarrow> int \<Rightarrow> char option" where
  "at b i = (if 0 \<le> i \<and> nat i < length b then Some (b ! nat i) else None)"

definition put_char :: "nat \<Rightarrow> char \<Rightarrow> string \<Rightarrow> string option" where
  "put_char i c b = (if i < length b then Some (b[i := c]) else None)"

definition put_chars :: "nat \<Rightarrow> string \<Rightarrow> string \<Rightarrow> string option" where
  "put_chars i t b =
     (if i + length t \<le> length b then Some (take i b @ t @ drop (i + length t) b) else None)"

definition get_chars :: "nat \<Rightarrow> nat \<Rightarrow> string \<Rightarrow> string option" where
  "get_chars i n b = (if i + n \<le> length b then Some (take n (drop i b)) else None)"

text \<open>The bytes in front of the first terminator; reading past the buffer is undefined.\<close>

definition c_string :: "string \<Rightarrow> string option" where
  "c_string b = (if NUL \<in> set b then Some (takeWhile (\<lambda>c. c \<noteq> NUL) b) else None)"

definition fresh_buf :: "sds_heap \<Rightarrow> nat \<Rightarrow> string" where
  "fresh_buf h n = map (junk h) [0..<n]"

definition resize :: "sds_heap \<Rightarrow> nat \<Rightarrow> string \<Rightarrow> string" where
  "resize h n b = take n b @ map (junk h) [length b..<n]"

subsection \<open>Character classes\<close>

definition char_code :: "char \<Rightarrow> nat" where
  "char_code c = of_char c"

definition isspace :: "char \<Rightarrow> bool" where
  "isspace c \<longleftrightarrow> char_code c = 32 \<or> 9 \<le> char_code c \<and> char_code c \<le> 13"

definition isprint :: "char \<Rightarrow> bool" where
  "isprint c \<longleftrightarrow> 32 \<le> char_code c \<and> char_code c \<le> 126"

definition tolower :: "char \<Rightarrow> char" where
  "tolower c = (if 65 \<le> char_code c \<and> char_code c \<le> 90 then char_of (char_code c + 32) else c)"

definition toupper :: "char \<Rightarrow> char" where
  "toupper c = (if 97 \<le> char_code c \<and> char_code c \<le> 122 then char_of (char_code c - 32) else c)"

text \<open>\<open>strchr\<close> also finds the terminator of the set.\<close>

definition strchr :: "string \<Rightarrow> char \<Rightarrow> bool" where
  "strchr cset c \<longleftrightarrow> c \<in> set cset \<or> c = NUL"

text \<open>Of the value of \<open>memcmp\<close> only the sign is specified; this is the difference of the first bytes that differ.\<close>

fun memcmp :: "string \<Rightarrow> string \<Rightarrow> int" where
  "memcmp (x # xs) (y # ys) = (if x = y then memcmp xs ys else int (char_code x) - int (char_code y))"
| "memcmp xs ys = 0"

subsection \<open>Creation and release\<close>

text \<open>\<open>init\<close> is \<open>None\<close> for the null pointer.\<close>

definition sdsnewlen :: "string option \<Rightarrow> size_t \<Rightarrow> sds_heap \<Rightarrow> (addr \<times> sds_heap) option" where
  "sdsnewlen init initlen h =
     (let n = sizeof_hdr + initlen + 1; (sh, h1) = malloc n h in
      if sh = NULL then Some (NULL, h1)
      else do {
        require (unat sizeof_hdr \<le> unat n);
        let cap = unat n - unat sizeof_hdr;
        b \<leftarrow> (case init of
                None \<Rightarrow> Some (replicate cap NUL)
              | Some t \<Rightarrow> do { src \<leftarrow> get_chars 0 (unat initlen) t; put_chars 0 src (fresh_buf h1 cap) });
        b1 \<leftarrow> put_char (unat initlen) NUL b;
        let s = sh + sizeof_hdr;
        Some (s, put_sds s \<lparr>sh_len = int_of_size initlen, sh_free = 0, sh_buf = b1\<rparr> h1)
      })"

definition sdsempty :: "sds_heap \<Rightarrow> (addr \<times> sds_heap) option" where
  "sdsempty h = sdsnewlen (Some []) 0 h"

definition sdsnew :: "string option \<Rightarrow> sds_heap \<Rightarrow> (addr \<times> sds_heap) option" where
  "sdsnew init h = sdsnewlen init (case init of None \<Rightarrow> 0 | Some t \<Rightarrow> of_nat (length t)) h"

definition sdslen :: "addr \<Rightarrow> sds_heap \<Rightarrow> size_t option" where
  "sdslen s h = do { sh \<leftarrow> get_sds h s; Some (size_of_int (sh_len sh)) }"

definition sdsavail :: "addr \<Rightarrow> sds_heap \<Rightarrow> size_t option" where
  "sdsavail s h = do { sh \<leftarrow> get_sds h s; Some (size_of_int (sh_free sh)) }"

definition sdsdup :: "addr \<Rightarrow> sds_heap \<Rightarrow> (addr \<times> sds_heap) option" where
  "sdsdup s h = do { sh \<leftarrow> get_sds h s; n \<leftarrow> sdslen s h; sdsnewlen (Some (sh_buf sh)) n h }"

definition sdsfree :: "addr \<Rightarrow> sds_heap \<Rightarrow> sds_heap option" where
  "sdsfree s h =
     (if s = NULL then Some h
      else do { h1 \<leftarrow> free (s - sizeof_hdr) h; Some (h1\<lparr>strs := (strs h1)(s := None)\<rparr>) })"

definition sdsupdatelen :: "addr \<Rightarrow> sds_heap \<Rightarrow> sds_heap option" where
  "sdsupdatelen s h = do {
     sh \<leftarrow> get_sds h s;
     t \<leftarrow> c_string (sh_buf sh);
     let reallen = int_of_size (of_nat (length t));
     d \<leftarrow> int_chk (sh_len sh - reallen);
     f \<leftarrow> int_chk (sh_free sh + d);
     Some (put_sds s (sh\<lparr>sh_free := f, sh_len := reallen\<rparr>) h)
   }"

definition sdsclear :: "addr \<Rightarrow> sds_heap \<Rightarrow> sds_heap option" where
  "sdsclear s h = do {
     sh \<leftarrow> get_sds h s;
     f \<leftarrow> int_chk (sh_free sh + sh_len sh);
     b \<leftarrow> put_char 0 NUL (sh_buf sh);
     Some (put_sds s \<lparr>sh_len = 0, sh_free = f, sh_buf = b\<rparr> h)
   }"

subsection \<open>Growing and shrinking\<close>

text \<open>\<open>realloc\<close> of the block behind an \<open>sds\<close>: the header moves with its buffer.\<close>

definition sds_realloc :: "addr \<Rightarrow> size_t \<Rightarrow> sds_heap \<Rightarrow> (addr \<times> sds_heap) option" where
  "sds_realloc s n h = do {
     sh \<leftarrow> get_sds h s;
     (q, h1) \<leftarrow> realloc (s - sizeof_hdr) n h;
     if q = NULL then Some (NULL, h1)
     else do {
       require (unat sizeof_hdr \<le> unat n);
       let b = resize h1 (unat n - unat sizeof_hdr) (sh_buf sh);
       Some (q + sizeof_hdr, put_sds (q + sizeof_hdr) (sh\<lparr>sh_buf := b\<rparr>) (h1\<lparr>strs := (strs h1)(s := None)\<rparr>))
     }
   }"

definition sdsMakeRoomFor :: "addr \<Rightarrow> size_t \<Rightarrow> sds_heap \<Rightarrow> (addr \<times> sds_heap) option" where
  "sdsMakeRoomFor s addlen h = do {
     free \<leftarrow> sdsavail s h;
     if free \<ge> addlen then Some (s, h)
     else do {
       len \<leftarrow> sdslen s h;
       let newlen = len + addlen;
       let newlen = (if newlen < SDS_MAX_PREALLOC then newlen * 2 else newlen + SDS_MAX_PREALLOC);
       (q, h1) \<leftarrow> sds_realloc s (sizeof_hdr + newlen + 1) h;
       if q = NULL then Some (NULL, h1)
       else do {
         sh \<leftarrow> get_sds h1 q;
         Some (q, put_sds q (sh\<lparr>sh_free := int_of_size (newlen - len)\<rparr>) h1)
       }
     }
   }"

text \<open>The result of \<open>realloc\<close> is not checked: a failure writes through the null pointer.\<close>

definition sdsRemoveFreeSpace :: "addr \<Rightarrow> sds_heap \<Rightarrow> (addr \<times> sds_heap) option" where
  "sdsRemoveFreeSpace s h = do {
     sh0 \<leftarrow> get_sds h s;
     (q, h1) \<leftarrow> sds_realloc s (sizeof_hdr + size_of_int (sh_len sh0) + 1) h;
     sh \<leftarrow> get_sds h1 q;
     Some (q, put_sds q (sh\<lparr>sh_free := 0\<rparr>) h1)
   }"

definition sdsAllocSize :: "addr \<Rightarrow> sds_heap \<Rightarrow> size_t option" where
  "sdsAllocSize s h = do {
     sh \<leftarrow> get_sds h s;
     Some (sizeof_hdr + size_of_int (sh_len sh) + size_of_int (sh_free sh) + 1)
   }"

text \<open>
  The outcome of a function with \<open>assert\<close>: it returns, or the program is aborted. That is the debugging
  build; the release build of \<open>premake5.lua\<close> defines \<open>NDEBUG\<close>, and there the calls that \<open>Aborts\<close> stands for go on
  with a negative length or free space.
\<close>

datatype 'a outcome = Returns 'a | Aborts

definition sdsIncrLen :: "addr \<Rightarrow> int \<Rightarrow> sds_heap \<Rightarrow> sds_heap outcome option" where
  "sdsIncrLen s incr h = do {
     sh \<leftarrow> get_sds h s;
     if \<not> sh_free sh \<ge> incr then Some Aborts
     else do {
       l \<leftarrow> int_chk (sh_len sh + incr);
       f \<leftarrow> int_chk (sh_free sh - incr);
       if \<not> f \<ge> 0 then Some Aborts
       else do {
         require (0 \<le> l);
         b \<leftarrow> put_char (nat l) NUL (sh_buf sh);
         Some (Returns (put_sds s \<lparr>sh_len = l, sh_free = f, sh_buf = b\<rparr> h))
       }
     }
   }"

definition sdsgrowzero :: "addr \<Rightarrow> size_t \<Rightarrow> sds_heap \<Rightarrow> (addr \<times> sds_heap) option" where
  "sdsgrowzero s len h = do {
     curlen \<leftarrow> sdslen s h;
     if len \<le> curlen then Some (s, h)
     else do {
       (q, h1) \<leftarrow> sdsMakeRoomFor s (len - curlen) h;
       if q = NULL then Some (NULL, h1)
       else do {
         sh \<leftarrow> get_sds h1 q;
         b \<leftarrow> put_chars (unat curlen) (replicate (unat (len - curlen + 1)) NUL) (sh_buf sh);
         tot \<leftarrow> int_chk (sh_len sh + sh_free sh);
         let l = int_of_size len;
         Some (q, put_sds q \<lparr>sh_len = l, sh_free = int_of_size (size_of_int tot - size_of_int l), sh_buf = b\<rparr> h1)
       }
     }
   }"

subsection \<open>Appending and copying\<close>

text \<open>The part of \<open>sdscatlen\<close> that follows the reallocation, given the bytes of \<open>t\<close>.\<close>

definition cat_bytes :: "addr \<Rightarrow> size_t \<Rightarrow> string \<Rightarrow> size_t \<Rightarrow> sds_heap \<Rightarrow> (addr \<times> sds_heap) option" where
  "cat_bytes q curlen t len h1 = do {
     sh \<leftarrow> get_sds h1 q;
     src \<leftarrow> get_chars 0 (unat len) t;
     b \<leftarrow> put_chars (unat curlen) src (sh_buf sh);
     b1 \<leftarrow> put_char (unat (curlen + len)) NUL b;
     Some (q, put_sds q \<lparr>sh_len = int_of_size (curlen + len),
       sh_free = int_of_size (size_of_int (sh_free sh) - len), sh_buf = b1\<rparr> h1)
   }"

definition sdscatlen :: "addr \<Rightarrow> string \<Rightarrow> size_t \<Rightarrow> sds_heap \<Rightarrow> (addr \<times> sds_heap) option" where
  "sdscatlen s t len h = do {
     curlen \<leftarrow> sdslen s h;
     (q, h1) \<leftarrow> sdsMakeRoomFor s len h;
     if q = NULL then Some (NULL, h1) else cat_bytes q curlen t len h1
   }"

definition sdscat :: "addr \<Rightarrow> string \<Rightarrow> sds_heap \<Rightarrow> (addr \<times> sds_heap) option" where
  "sdscat s t h = sdscatlen s t (of_nat (length t)) h"

text \<open>
  \<open>sdscatlen (s, t, sdslen (t))\<close>: the bytes of \<open>t\<close> are read after \<open>s\<close> has been reallocated, so \<open>t\<close> must
  still be there.
\<close>

definition sdscatsds :: "addr \<Rightarrow> addr \<Rightarrow> sds_heap \<Rightarrow> (addr \<times> sds_heap) option" where
  "sdscatsds s t h = do {
     len \<leftarrow> sdslen t h;
     curlen \<leftarrow> sdslen s h;
     (q, h1) \<leftarrow> sdsMakeRoomFor s len h;
     if q = NULL then Some (NULL, h1)
     else do {
       th \<leftarrow> get_sds h1 t;
       cat_bytes q curlen (sh_buf th) len h1
     }
   }"

definition sdscpylen :: "addr \<Rightarrow> string \<Rightarrow> size_t \<Rightarrow> sds_heap \<Rightarrow> (addr \<times> sds_heap) option" where
  "sdscpylen s t len h = do {
     sh0 \<leftarrow> get_sds h s;
     tot0 \<leftarrow> int_chk (sh_free sh0 + sh_len sh0);
     (q, h1) \<leftarrow> (if size_of_int tot0 < len then sdsMakeRoomFor s (len - size_of_int (sh_len sh0)) h
                 else Some (s, h));
     if q = NULL then Some (NULL, h1)
     else do {
       sh \<leftarrow> get_sds h1 q;
       tot \<leftarrow> int_chk (sh_free sh + sh_len sh);
       src \<leftarrow> get_chars 0 (unat len) t;
       b \<leftarrow> put_chars 0 src (sh_buf sh);
       b1 \<leftarrow> put_char (unat len) NUL b;
       Some (q, put_sds q \<lparr>sh_len = int_of_size len, sh_free = int_of_size (size_of_int tot - len),
         sh_buf = b1\<rparr> h1)
     }
   }"

definition sdscpy :: "addr \<Rightarrow> string \<Rightarrow> sds_heap \<Rightarrow> (addr \<times> sds_heap) option" where
  "sdscpy s t h = sdscpylen s t (of_nat (length t)) h"

text \<open>
  \<open>vsnprintf\<close> writes the formatted text \<open>out\<close>, cut to \<open>buflen - 1\<close> bytes, and a terminator. What the
  format and its arguments make is \<open>out\<close>; the loop doubles the buffer until the byte before the last
  is still the terminator that was planted there.
\<close>

definition vsnprintf :: "string \<Rightarrow> nat \<Rightarrow> string \<Rightarrow> string option" where
  "vsnprintf b buflen out = put_chars 0 (take (buflen - 1) out @ [NUL]) b"

partial_function (option) format_loop :: "string \<Rightarrow> size_t \<Rightarrow> sds_heap \<Rightarrow> ((addr \<times> string) \<times> sds_heap) option" where
  "format_loop out buflen h =
     (case malloc buflen h of (buf, h1) \<Rightarrow>
       if buf = NULL then Some ((NULL, []), h1)
       else Option.bind (put_char (unat (buflen - 2)) NUL (fresh_buf h1 (unat buflen))) (\<lambda>b.
         Option.bind (vsnprintf b (unat buflen) out) (\<lambda>b1.
           if b1 ! unat (buflen - 2) \<noteq> NUL
           then Option.bind (free buf h1) (\<lambda>h2. format_loop out (buflen * 2) h2)
           else Some ((buf, b1), h1))))"

definition sdscatvprintf :: "addr \<Rightarrow> string \<Rightarrow> sds_heap \<Rightarrow> (addr \<times> sds_heap) option" where
  "sdscatvprintf s out h = do {
     ((buf, b), h1) \<leftarrow> format_loop out 16 h;
     if buf = NULL then Some (NULL, h1)
     else do {
       t \<leftarrow> c_string b;
       (q, h2) \<leftarrow> sdscat s t h1;
       h3 \<leftarrow> free buf h2;
       Some (q, h3)
     }
   }"

definition sdscatprintf :: "addr \<Rightarrow> string \<Rightarrow> sds_heap \<Rightarrow> (addr \<times> sds_heap) option" where
  "sdscatprintf s out h = sdscatvprintf s out h"

subsection \<open>Editing in place\<close>

function trim_left :: "string \<Rightarrow> string \<Rightarrow> int \<Rightarrow> int \<Rightarrow> int option" where
  "trim_left cset b sp en =
     (if sp \<le> en then
        (case at b sp of
           None \<Rightarrow> None
         | Some c \<Rightarrow> if strchr cset c then trim_left cset b (sp + 1) en else Some sp)
      else Some sp)"
  by pat_completeness auto
termination
  by (relation "measure (\<lambda>(_, _, sp, en). nat (en + 1 - sp))") auto

function trim_right :: "string \<Rightarrow> string \<Rightarrow> int \<Rightarrow> int \<Rightarrow> int option" where
  "trim_right cset b start ep =
     (if ep > start then
        (case at b ep of
           None \<Rightarrow> None
         | Some c \<Rightarrow> if strchr cset c then trim_right cset b start (ep - 1) else Some ep)
      else Some ep)"
  by pat_completeness auto
termination
  by (relation "measure (\<lambda>(_, _, start, ep). nat (ep - start))") auto

declare trim_left.simps [simp del] trim_right.simps [simp del]

text \<open>The pointers into the string are offsets from its start.\<close>

definition sdstrim :: "addr \<Rightarrow> string \<Rightarrow> sds_heap \<Rightarrow> sds_heap option" where
  "sdstrim s cset h = do {
     sh \<leftarrow> get_sds h s;
     let en = sh_len sh - 1;
     sp \<leftarrow> trim_left cset (sh_buf sh) 0 en;
     ep \<leftarrow> trim_right cset (sh_buf sh) 0 en;
     let len = size_of_int (if sp > ep then 0 else (ep - sp) + 1);
     b \<leftarrow> (if sp \<noteq> 0
           then do { src \<leftarrow> get_chars (nat sp) (unat len) (sh_buf sh); put_chars 0 src (sh_buf sh) }
           else Some (sh_buf sh));
     b1 \<leftarrow> put_char (unat len) NUL b;
     Some (put_sds s \<lparr>sh_len = int_of_size len,
       sh_free = int_of_size (size_of_int (sh_free sh) + (size_of_int (sh_len sh) - len)), sh_buf = b1\<rparr> h)
   }"

text \<open>\<open>(start > end) ? 0 : (end - start) + 1\<close>, in \<open>int\<close>.\<close>

definition range_len :: "int \<Rightarrow> int \<Rightarrow> int option" where
  "range_len start en = (if start > en then Some 0 else do { d \<leftarrow> int_chk (en - start); int_chk (d + 1) })"

definition from_end :: "size_t \<Rightarrow> int \<Rightarrow> int" where
  "from_end len i =
     (if i < 0 then (let j = int_of_size (len + size_of_int i) in if j < 0 then 0 else j) else i)"

definition sdsrange :: "addr \<Rightarrow> int \<Rightarrow> int \<Rightarrow> sds_heap \<Rightarrow> sds_heap option" where
  "sdsrange s start en h = do {
     len \<leftarrow> sdslen s h;
     if len = 0 then Some h
     else do {
       let start = from_end len start;
       let en = from_end len en;
       n \<leftarrow> range_len start en;
       (newlen, start) \<leftarrow> (if n \<noteq> 0 then
            if start \<ge> int_of_size len then Some (0, start)
            else if en \<ge> int_of_size len
            then do { n2 \<leftarrow> range_len start (int_of_size (len - 1)); Some (n2, start) }
            else Some (n, start)
          else Some (0, 0));
       sh \<leftarrow> get_sds h s;
       b \<leftarrow> (if start \<noteq> 0 \<and> newlen \<noteq> 0
             then do { src \<leftarrow> get_chars (nat start) (nat newlen) (sh_buf sh); put_chars 0 src (sh_buf sh) }
             else Some (sh_buf sh));
       b1 \<leftarrow> put_char (nat newlen) NUL b;
       Some (put_sds s \<lparr>sh_len = newlen,
         sh_free = int_of_size (size_of_int (sh_free sh) + (size_of_int (sh_len sh) - size_of_int newlen)),
         sh_buf = b1\<rparr> h)
     }
   }"

text \<open>\<open>for (j = 0; j < n; j++) s[j] = f (s[j])\<close>\<close>

primrec for_chars :: "(char \<Rightarrow> char) \<Rightarrow> nat \<Rightarrow> string \<Rightarrow> string option" where
  "for_chars f 0 b = Some b"
| "for_chars f (Suc j) b = do {
     b1 \<leftarrow> for_chars f j b;
     c \<leftarrow> at b1 (int j);
     put_char j (f c) b1
   }"

definition map_sds :: "(char \<Rightarrow> char) \<Rightarrow> addr \<Rightarrow> sds_heap \<Rightarrow> sds_heap option" where
  "map_sds f s h = do {
     sh \<leftarrow> get_sds h s;
     b \<leftarrow> for_chars f (nat (sh_len sh)) (sh_buf sh);
     Some (put_sds s (sh\<lparr>sh_buf := b\<rparr>) h)
   }"

definition sdstolower :: "addr \<Rightarrow> sds_heap \<Rightarrow> sds_heap option" where
  "sdstolower s h = map_sds tolower s h"

definition sdstoupper :: "addr \<Rightarrow> sds_heap \<Rightarrow> sds_heap option" where
  "sdstoupper s h = map_sds toupper s h"

text \<open>
  The loops of \<open>sdsmapchars\<close>. The inner one is at position \<open>i\<close> with \<open>n\<close> rounds left and stops at the first
  character of \<open>from\<close> that is the one at hand; it reads no further, and nothing at all on an empty string.
\<close>

primrec map_char :: "nat \<Rightarrow> string \<Rightarrow> string \<Rightarrow> nat \<Rightarrow> char \<Rightarrow> char option" where
  "map_char 0 from to i c = Some c"
| "map_char (Suc n) from to i c = do {
     x \<leftarrow> at from (int i);
     if c = x then at to (int i) else map_char n from to (Suc i) c
   }"

primrec map_chars :: "(char \<Rightarrow> char option) \<Rightarrow> nat \<Rightarrow> string \<Rightarrow> string option" where
  "map_chars f 0 b = Some b"
| "map_chars f (Suc j) b = do {
     b1 \<leftarrow> map_chars f j b;
     c \<leftarrow> at b1 (int j);
     d \<leftarrow> f c;
     put_char j d b1
   }"

definition sdsmapchars :: "addr \<Rightarrow> string \<Rightarrow> string \<Rightarrow> size_t \<Rightarrow> sds_heap \<Rightarrow> (addr \<times> sds_heap) option" where
  "sdsmapchars s from to setlen h = do {
     sh \<leftarrow> get_sds h s;
     b \<leftarrow> map_chars (map_char (unat setlen) from to 0) (nat (sh_len sh)) (sh_buf sh);
     Some (s, put_sds s (sh\<lparr>sh_buf := b\<rparr>) h)
   }"

definition sdscmp :: "addr \<Rightarrow> addr \<Rightarrow> sds_heap \<Rightarrow> int option" where
  "sdscmp s1 s2 h = do {
     sh1 \<leftarrow> get_sds h s1;
     sh2 \<leftarrow> get_sds h s2;
     l1 \<leftarrow> sdslen s1 h;
     l2 \<leftarrow> sdslen s2 h;
     let minlen = (if l1 < l2 then l1 else l2);
     a \<leftarrow> get_chars 0 (unat minlen) (sh_buf sh1);
     b \<leftarrow> get_chars 0 (unat minlen) (sh_buf sh2);
     let cmp = memcmp a b;
     if cmp = 0 then Some (int_of_size (l1 - l2)) else Some cmp
   }"

subsection \<open>Splitting\<close>

text \<open>Arrays of \<open>sds\<close>.\<close>

definition get_vec :: "sds_heap \<Rightarrow> addr \<Rightarrow> addr list option" where
  "get_vec h v = (if v = NULL then None else vecs h v)"

definition vec_get :: "addr \<Rightarrow> int \<Rightarrow> sds_heap \<Rightarrow> addr option" where
  "vec_get v i h = do {
     xs \<leftarrow> get_vec h v;
     if 0 \<le> i \<and> nat i < length xs then Some (xs ! nat i) else None
   }"

definition vec_set :: "addr \<Rightarrow> int \<Rightarrow> addr \<Rightarrow> sds_heap \<Rightarrow> sds_heap option" where
  "vec_set v i x h = do {
     xs \<leftarrow> get_vec h v;
     if 0 \<le> i \<and> nat i < length xs then Some (h\<lparr>vecs := (vecs h)(v \<mapsto> xs[nat i := x])\<rparr>) else None
   }"

definition sizeof_ptr :: size_t where "sizeof_ptr = 8"

definition vec_malloc :: "size_t \<Rightarrow> sds_heap \<Rightarrow> addr \<times> sds_heap" where
  "vec_malloc n h =
     (let (v, h1) = malloc n h in
      if v = NULL then (NULL, h1)
      else (v, h1\<lparr>vecs := (vecs h1)(v \<mapsto> replicate (unat n div 8) (junk_addr h1))\<rparr>))"

definition vec_realloc :: "addr \<Rightarrow> size_t \<Rightarrow> sds_heap \<Rightarrow> (addr \<times> sds_heap) option" where
  "vec_realloc v n h =
     (if v = NULL then Some (vec_malloc n h)
      else do {
        xs \<leftarrow> vecs h v;
        (q, h1) \<leftarrow> realloc v n h;
        if q = NULL then Some (NULL, h1)
        else (let m = unat n div 8 in
          Some (q, h1\<lparr>vecs := ((vecs h1)(v := None))(q \<mapsto> take m xs @ replicate (m - length xs) (junk_addr h1))\<rparr>))
      })"

definition vec_free :: "addr \<Rightarrow> sds_heap \<Rightarrow> sds_heap option" where
  "vec_free v h = do { h1 \<leftarrow> free v h; Some (h1\<lparr>vecs := (vecs h1)(v := None)\<rparr>) }"

text \<open>\<open>for (i = 0; i < n; i++) sdsfree (tokens[i])\<close>\<close>

primrec free_up_to :: "nat \<Rightarrow> addr \<Rightarrow> sds_heap \<Rightarrow> sds_heap option" where
  "free_up_to 0 v h = Some h"
| "free_up_to (Suc i) v h = do {
     h1 \<leftarrow> free_up_to i v h;
     x \<leftarrow> vec_get v (int i) h1;
     sdsfree x h1
   }"

text \<open>\<open>while (count--) sdsfree (tokens[count])\<close>, for a count that is not negative.\<close>

primrec free_down :: "nat \<Rightarrow> addr \<Rightarrow> sds_heap \<Rightarrow> sds_heap option" where
  "free_down 0 v h = Some h"
| "free_down (Suc i) v h = do {
     x \<leftarrow> vec_get v (int i) h;
     h1 \<leftarrow> sdsfree x h;
     free_down i v h1
   }"

definition sdsfreesplitres :: "addr \<Rightarrow> int \<Rightarrow> sds_heap \<Rightarrow> sds_heap option" where
  "sdsfreesplitres tokens count h =
     (if tokens = NULL then Some h
      else do {
        require (0 \<le> count);
        h1 \<leftarrow> free_down (nat count) tokens h;
        vec_free tokens h1
      })"

text \<open>
  The state of the loop of \<open>sdssplitlen\<close>, and how the loop is left: at its end, or by \<open>goto cleanup\<close>.
\<close>

record split_state =
  tokens :: addr
  elements :: int
  slots :: int
  start :: int

datatype loop_exit = LoopDone split_state | Cleanup split_state

definition split_room :: "split_state \<Rightarrow> sds_heap \<Rightarrow> (loop_exit \<times> sds_heap) option" where
  "split_room st h = do {
     e2 \<leftarrow> int_chk (elements st + 2);
     if slots st < e2 then do {
       m \<leftarrow> int_chk (slots st * 2);
       (q, h1) \<leftarrow> vec_realloc (tokens st) (sizeof_ptr * size_of_int m) h;
       if q = NULL then Some (Cleanup (st\<lparr>slots := m\<rparr>), h1)
       else Some (LoopDone (st\<lparr>slots := m, tokens := q\<rparr>), h1)
     } else Some (LoopDone st, h)
   }"

text \<open>\<open>tokens[elements] = sdsnewlen (s + start, n)\<close>\<close>

definition add_token :: "string \<Rightarrow> int \<Rightarrow> split_state \<Rightarrow> sds_heap \<Rightarrow> (addr \<times> sds_heap) option" where
  "add_token s n st h = do {
     require (0 \<le> start st \<and> nat (start st) \<le> length s);
     (x, h1) \<leftarrow> sdsnewlen (Some (drop (nat (start st)) s)) (size_of_int n) h;
     h2 \<leftarrow> vec_set (tokens st) (elements st) x h1;
     Some (x, h2)
   }"

definition sep_at :: "string \<Rightarrow> int \<Rightarrow> string \<Rightarrow> int \<Rightarrow> bool option" where
  "sep_at s j sep seplen = do {
     c \<leftarrow> at s j;
     d \<leftarrow> at sep 0;
     if seplen = 1 \<and> c = d then Some True
     else do {
       a \<leftarrow> get_chars (nat j) (nat seplen) s;
       b \<leftarrow> get_chars 0 (nat seplen) sep;
       Some (memcmp a b = 0)
     }
   }"

function split_loop :: "string \<Rightarrow> int \<Rightarrow> string \<Rightarrow> int \<Rightarrow> int \<Rightarrow> split_state \<Rightarrow> sds_heap \<Rightarrow> (loop_exit \<times> sds_heap) option" where
  "split_loop s len sep seplen j st h =
     (if \<not> (1 \<le> seplen \<and> j < len - (seplen - 1)) then Some (LoopDone st, h)
      else case split_room st h of
        None \<Rightarrow> None
      | Some (Cleanup st1, h1) \<Rightarrow> Some (Cleanup st1, h1)
      | Some (LoopDone st1, h1) \<Rightarrow>
          (case sep_at s j sep seplen of
             None \<Rightarrow> None
           | Some False \<Rightarrow> split_loop s len sep seplen (j + 1) st1 h1
           | Some True \<Rightarrow>
               (case add_token s (j - start st1) st1 h1 of
                  None \<Rightarrow> None
                | Some (x, h2) \<Rightarrow>
                    if x = NULL then Some (Cleanup st1, h2)
                    else split_loop s len sep seplen (j + seplen)
                      (st1\<lparr>elements := elements st1 + 1, start := j + seplen\<rparr>) h2)))"
  by pat_completeness auto
termination
  by (relation "measure (\<lambda>(s, len, sep, seplen, j, st, h). nat (len + 1 - j))") auto

declare split_loop.simps [simp del]

definition split_cleanup :: "split_state \<Rightarrow> sds_heap \<Rightarrow> ((addr \<times> int option) \<times> sds_heap) option" where
  "split_cleanup st h = do {
     h1 \<leftarrow> free_up_to (nat (elements st)) (tokens st) h;
     h2 \<leftarrow> vec_free (tokens st) h1;
     Some ((NULL, Some 0), h2)
   }"

text \<open>The result is the array and what has been stored in \<open>*count\<close>, if anything.\<close>

definition sdssplitlen :: "string \<Rightarrow> int \<Rightarrow> string \<Rightarrow> int \<Rightarrow> sds_heap \<Rightarrow> ((addr \<times> int option) \<times> sds_heap) option" where
  "sdssplitlen s len sep seplen h =
     (if seplen < 1 \<or> len < 0 then Some ((NULL, None), h)
      else (let (t, h1) = vec_malloc (sizeof_ptr * 5) h in
        if t = NULL then Some ((NULL, None), h1)
        else if len = 0 then Some ((t, Some 0), h1)
        else do {
          (r, h2) \<leftarrow> split_loop s len sep seplen 0 \<lparr>tokens = t, elements = 0, slots = 5, start = 0\<rparr> h1;
          case r of
            Cleanup st \<Rightarrow> split_cleanup st h2
          | LoopDone st \<Rightarrow> do {
              (x, h3) \<leftarrow> add_token s (len - start st) st h2;
              if x = NULL then split_cleanup st h3
              else Some ((tokens st, Some (elements st + 1)), h3)
            }
        }))"

subsection \<open>Joining\<close>

fun join_loop :: "string list \<Rightarrow> string \<Rightarrow> size_t \<Rightarrow> addr \<Rightarrow> sds_heap \<Rightarrow> (addr \<times> sds_heap) option" where
  "join_loop [] sep seplen join h = Some (join, h)"
| "join_loop (a # as) sep seplen join h = do {
     (j1, h1) \<leftarrow> sdscat join a h;
     (j2, h2) \<leftarrow> (if as \<noteq> [] then sdscatlen j1 sep seplen h1 else Some (j1, h1));
     join_loop as sep seplen j2 h2
   }"

definition sdsjoin :: "string list \<Rightarrow> string \<Rightarrow> size_t \<Rightarrow> sds_heap \<Rightarrow> (addr \<times> sds_heap) option" where
  "sdsjoin argv sep seplen h = do { (j, h1) \<leftarrow> sdsempty h; join_loop argv sep seplen j h1 }"

fun joinsds_loop :: "addr list \<Rightarrow> string \<Rightarrow> size_t \<Rightarrow> addr \<Rightarrow> sds_heap \<Rightarrow> (addr \<times> sds_heap) option" where
  "joinsds_loop [] sep seplen join h = Some (join, h)"
| "joinsds_loop (a # as) sep seplen join h = do {
     (j1, h1) \<leftarrow> sdscatsds join a h;
     (j2, h2) \<leftarrow> (if as \<noteq> [] then sdscatlen j1 sep seplen h1 else Some (j1, h1));
     joinsds_loop as sep seplen j2 h2
   }"

definition sdsjoinsds :: "addr list \<Rightarrow> string \<Rightarrow> size_t \<Rightarrow> sds_heap \<Rightarrow> (addr \<times> sds_heap) option" where
  "sdsjoinsds argv sep seplen h = do { (j, h1) \<leftarrow> sdsempty h; joinsds_loop argv sep seplen j h1 }"

subsection \<open>Decimal numbers\<close>

definition LLONG_MAX :: int where "LLONG_MAX = 9223372036854775807"

definition digit_char :: "nat \<Rightarrow> char" where
  "digit_char d = char_of (48 + d)"

text \<open>\<open>do { *p-- = '0' + (v % 10); v /= 10; } while (v);\<close> on the offsets of the local buffer.\<close>

fun digits_loop :: "nat \<Rightarrow> int \<Rightarrow> string \<Rightarrow> (int \<times> string) option" where
  "digits_loop v p b = do {
     require (0 \<le> p);
     b1 \<leftarrow> put_char (nat p) (digit_char (v mod 10)) b;
     if v div 10 = 0 then Some (p - 1, b1) else digits_loop (v div 10) (p - 1) b1
   }"

declare digits_loop.simps [simp del]

definition sdsfromlonglong :: "int \<Rightarrow> sds_heap \<Rightarrow> (addr \<times> sds_heap) option" where
  "sdsfromlonglong val h = do {
     require (- val \<le> LLONG_MAX \<or> 0 \<le> val);
     let v = (if val < 0 then - val else val);
     (p, b) \<leftarrow> digits_loop (nat v) 31 (fresh_buf h 32);
     (p1, b1) \<leftarrow> (if val < 0
        then do { require (0 \<le> p); b' \<leftarrow> put_char (nat p) (CHR ''-'') b; Some (p - 1, b') }
        else Some (p, b));
     let q = p1 + 1;
     sdsnewlen (Some (drop (nat q) b1)) (size_of_int (32 - q)) h
   }"

subsection \<open>Quoting\<close>

definition hex_char :: "nat \<Rightarrow> char" where
  "hex_char d = (if d < 10 then char_of (48 + d) else char_of (87 + d))"

text \<open>\<open>"%02x"\<close> of a byte.\<close>

definition hex2 :: "char \<Rightarrow> string" where
  "hex2 c = [hex_char (char_code c div 16), hex_char (char_code c mod 16)]"

abbreviation BACKSLASH :: char where "BACKSLASH \<equiv> CHR 0x5C"
abbreviation QUOTE :: char where "QUOTE \<equiv> CHR 0x22"
abbreviation APOSTROPHE :: char where "APOSTROPHE \<equiv> CHR 0x27"

definition repr_step :: "char \<Rightarrow> addr \<Rightarrow> sds_heap \<Rightarrow> (addr \<times> sds_heap) option" where
  "repr_step c s h =
     (if c = BACKSLASH \<or> c = QUOTE then sdscatprintf s [BACKSLASH, c] h
      else if c = CHR 0x0A then sdscatlen s [BACKSLASH, CHR ''n''] 2 h
      else if c = CHR 0x0D then sdscatlen s [BACKSLASH, CHR ''r''] 2 h
      else if c = CHR 0x09 then sdscatlen s [BACKSLASH, CHR ''t''] 2 h
      else if c = CHR 0x07 then sdscatlen s [BACKSLASH, CHR ''a''] 2 h
      else if c = CHR 0x08 then sdscatlen s [BACKSLASH, CHR ''b''] 2 h
      else if isprint c then sdscatprintf s [c] h
      else sdscatprintf s ([BACKSLASH, CHR ''x''] @ hex2 c) h)"

fun repr_loop :: "string \<Rightarrow> addr \<Rightarrow> sds_heap \<Rightarrow> (addr \<times> sds_heap) option" where
  "repr_loop [] s h = Some (s, h)"
| "repr_loop (c # cs) s h = do { (s1, h1) \<leftarrow> repr_step c s h; repr_loop cs s1 h1 }"

definition sdscatrepr :: "addr \<Rightarrow> string \<Rightarrow> size_t \<Rightarrow> sds_heap \<Rightarrow> (addr \<times> sds_heap) option" where
  "sdscatrepr s p len h = do {
     (s1, h1) \<leftarrow> sdscatlen s [QUOTE] 1 h;
     cs \<leftarrow> get_chars 0 (unat len) p;
     (s2, h2) \<leftarrow> repr_loop cs s1 h1;
     sdscatlen s2 [QUOTE] 1 h2
   }"

subsection \<open>Parsing a line of arguments\<close>

definition is_hex_digit :: "char \<Rightarrow> bool" where
  "is_hex_digit c \<longleftrightarrow> (48 \<le> char_code c \<and> char_code c \<le> 57) \<or> (97 \<le> char_code c \<and> char_code c \<le> 102) \<or>
     (65 \<le> char_code c \<and> char_code c \<le> 70)"

definition hex_digit_to_int :: "char \<Rightarrow> nat" where
  "hex_digit_to_int c =
     (if 48 \<le> char_code c \<and> char_code c \<le> 57 then char_code c - 48
      else if 97 \<le> char_code c \<and> char_code c \<le> 102 then char_code c - 87
      else if 65 \<le> char_code c \<and> char_code c \<le> 70 then char_code c - 55
      else 0)"

text \<open>\<open>*(p + i)\<close>: behind the last character stands the terminator.\<close>

definition peek :: "string \<Rightarrow> nat \<Rightarrow> char" where
  "peek p i = (if i < length p then p ! i else NUL)"

text \<open>The escapes of a double-quoted token.\<close>

definition unescape :: "char \<Rightarrow> char" where
  "unescape c =
     (if c = CHR ''n'' then CHR 0x0A else if c = CHR ''r'' then CHR 0x0D else if c = CHR ''t'' then CHR 0x09
      else if c = CHR ''b'' then CHR 0x08 else if c = CHR ''a'' then CHR 0x07 else c)"

datatype mode = Plain | Inq | Insq

text \<open>
  What one round of the inner loop does, before the heap comes in: append a character and go on
  behind it, change the mode, end the token, or fail.
\<close>

datatype action = Append char string | Enter mode string | Finish string | Fail

definition closing :: "string \<Rightarrow> action" where
  "closing p = (if peek p 1 \<noteq> NUL \<and> \<not> isspace (peek p 1) then Fail else Finish (tl p))"

definition step_inq :: "string \<Rightarrow> action" where
  "step_inq p =
     (if peek p 0 = BACKSLASH \<and> peek p 1 = CHR ''x'' \<and> is_hex_digit (peek p 2) \<and> is_hex_digit (peek p 3)
      then Append (char_of (hex_digit_to_int (peek p 2) * 16 + hex_digit_to_int (peek p 3))) (drop 4 p)
      else if peek p 0 = BACKSLASH \<and> peek p 1 \<noteq> NUL then Append (unescape (peek p 1)) (drop 2 p)
      else if peek p 0 = QUOTE then closing p
      else if peek p 0 = NUL then Fail
      else Append (peek p 0) (tl p))"

definition step_insq :: "string \<Rightarrow> action" where
  "step_insq p =
     (if peek p 0 = BACKSLASH \<and> peek p 1 = APOSTROPHE then Append APOSTROPHE (drop 2 p)
      else if peek p 0 = APOSTROPHE then closing p
      else if peek p 0 = NUL then Fail
      else Append (peek p 0) (tl p))"

definition step_plain :: "string \<Rightarrow> action" where
  "step_plain p =
     (if peek p 0 \<in> {CHR '' '', CHR 0x0A, CHR 0x0D, CHR 0x09} then Finish (tl p)
      else if peek p 0 = NUL then Finish p
      else if peek p 0 = QUOTE then Enter Inq (tl p)
      else if peek p 0 = APOSTROPHE then Enter Insq (tl p)
      else Append (peek p 0) (tl p))"

definition token_step :: "mode \<Rightarrow> string \<Rightarrow> action" where
  "token_step m p = (case m of Plain \<Rightarrow> step_plain p | Inq \<Rightarrow> step_inq p | Insq \<Rightarrow> step_insq p)"

lemma peek_nonempty: "peek p 0 \<noteq> NUL \<Longrightarrow> p \<noteq> []"
  by (auto simp: peek_def)

lemma token_step_shorter:
  "token_step m p = Append c q \<Longrightarrow> length q < length p"
  "token_step m p = Enter m' q \<Longrightarrow> length q < length p"
  "token_step m p = Finish q \<Longrightarrow> length q \<le> length p \<and> (peek p 0 \<noteq> NUL \<longrightarrow> length q < length p)"
proof -
  have ne: "peek p 0 = c \<Longrightarrow> c \<noteq> NUL \<Longrightarrow> p \<noteq> []" for c
    using peek_nonempty by auto
  show "token_step m p = Append c q \<Longrightarrow> length q < length p"
    by (cases p) (auto simp: token_step_def step_plain_def step_inq_def step_insq_def closing_def peek_def
        split: mode.splits if_splits)
  show "token_step m p = Enter m' q \<Longrightarrow> length q < length p"
    by (cases p) (auto simp: token_step_def step_plain_def step_inq_def step_insq_def closing_def peek_def
        split: mode.splits if_splits)
  show "token_step m p = Finish q \<Longrightarrow> length q \<le> length p \<and> (peek p 0 \<noteq> NUL \<longrightarrow> length q < length p)"
    by (cases p) (auto simp: token_step_def step_plain_def step_inq_def step_insq_def closing_def peek_def
        split: mode.splits if_splits)
qed

datatype token_exit = TokenDone string addr | TokenErr addr

function token_loop :: "mode \<Rightarrow> string \<Rightarrow> addr \<Rightarrow> sds_heap \<Rightarrow> (token_exit \<times> sds_heap) option" where
  "token_loop m p current h =
     (case token_step m p of
        Append c q \<Rightarrow>
          (case sdscatlen current [c] 1 h of
             None \<Rightarrow> None
           | Some (cur, h1) \<Rightarrow> token_loop m q cur h1)
      | Enter m' q \<Rightarrow> token_loop m' q current h
      | Finish q \<Rightarrow> Some (TokenDone q current, h)
      | Fail \<Rightarrow> Some (TokenErr current, h))"
  by pat_completeness auto
termination
  by (relation "measure (\<lambda>(m, p, current, h). length p)") (auto dest: token_step_shorter)

declare token_loop.simps [simp del]

lemma token_loop_shorter:
  "token_loop m p current h = Some (TokenDone q cur, h') \<Longrightarrow>
     length q \<le> length p \<and> (peek p 0 \<noteq> NUL \<longrightarrow> length q < length p)"
proof (induction m p current h rule: token_loop.induct)
  case (1 m p current h)
  show ?case
  proof (cases "token_step m p")
    case (Append c r)
    then have "length r < length p"
      by (rule token_step_shorter(1))
    moreover obtain x h1 where "sdscatlen current [c] 1 h = Some (x, h1)" "token_loop m r x h1 = Some (TokenDone q cur, h')"
      using 1(3) Append by (subst (asm) token_loop.simps) (auto split: option.splits)
    ultimately show ?thesis
      using 1(1) [OF Append] by fastforce
  next
    case (Enter m' r)
    then have "length r < length p"
      by (rule token_step_shorter(2))
    moreover have "token_loop m' r current h = Some (TokenDone q cur, h')"
      using 1(3) Enter by (subst (asm) token_loop.simps) auto
    ultimately show ?thesis
      using 1(2) [OF Enter] by fastforce
  next
    case (Finish r)
    then show ?thesis
      using 1(3) token_step_shorter(3) [OF Finish] by (subst (asm) token_loop.simps) auto
  next
    case Fail
    then show ?thesis
      using 1(3) by (subst (asm) token_loop.simps) auto
  qed
qed

text \<open>\<open>while ((*argc)--) sdsfree (vector[*argc]); free (vector); if (current) sdsfree (current);\<close>\<close>

definition args_err :: "addr \<Rightarrow> addr \<Rightarrow> int \<Rightarrow> sds_heap \<Rightarrow> ((addr \<times> int) \<times> sds_heap) option" where
  "args_err current vector argc h = do {
     h1 \<leftarrow> free_down (nat argc) vector h;
     h2 \<leftarrow> vec_free vector h1;
     h3 \<leftarrow> sdsfree current h2;
     Some ((NULL, 0), h3)
   }"

function args_loop :: "string \<Rightarrow> addr \<Rightarrow> int \<Rightarrow> sds_heap \<Rightarrow> ((addr \<times> int) \<times> sds_heap) option" where
  "args_loop p vector argc h =
     (let p' = dropWhile isspace p in
      if peek p' 0 \<noteq> NUL then
        (case sdsempty h of
           None \<Rightarrow> None
         | Some (current, h1) \<Rightarrow>
             (case token_loop Plain p' current h1 of
                None \<Rightarrow> None
              | Some (TokenErr cur, h2) \<Rightarrow> args_err cur vector argc h2
              | Some (TokenDone q cur, h2) \<Rightarrow>
                  (case vec_realloc vector (size_of_int (argc + 1) * sizeof_ptr) h2 of
                     None \<Rightarrow> None
                   | Some (v, h3) \<Rightarrow>
                       (case vec_set v argc cur h3 of
                          None \<Rightarrow> None
                        | Some h4 \<Rightarrow> (case int_chk (argc + 1) of None \<Rightarrow> None | Some n \<Rightarrow> args_loop q v n h4)))))
      else if vector = NULL then (case vec_malloc sizeof_ptr h of (v, h1) \<Rightarrow> Some ((v, argc), h1))
      else Some ((vector, argc), h))"
  by pat_completeness auto
termination
proof (relation "measure (\<lambda>(p, vector, argc, h). length p)", goal_cases)
  case (2 p vector argc h p' r current h1 r2 e h2 q cur)
  then have "length q < length p'"
    using token_loop_shorter by blast
  moreover have "length p' \<le> length p"
    using 2(1) by (simp add: length_dropWhile_le)
  ultimately show ?case
    by simp
qed simp

declare args_loop.simps [simp del]

definition sdssplitargs :: "string \<Rightarrow> sds_heap \<Rightarrow> ((addr \<times> int) \<times> sds_heap) option" where
  "sdssplitargs line h = args_loop line NULL 0 h"

end
