(* ===== verification/Nc_Sds_Correct.thy ===== *)
theory Nc_Sds_Correct
  imports Nc_Sds Buffer_Spec
begin

text \<open>
  The invariant of the dynamic strings, the text a string stands for, and the effect of every
  operation on the text. The state lemmas give the whole store after an operation, so that what
  happens to the other strings is part of every statement.
\<close>

subsection \<open>The invariant\<close>

definition hdr_ok :: "sds_heap \<Rightarrow> addr \<Rightarrow> sdshdr \<Rightarrow> bool" where
  "hdr_ok h s sh \<longleftrightarrow> 0 \<le> sh_len sh \<and> 0 \<le> sh_free sh \<and> sh_len sh + sh_free sh \<le> INT_MAX \<and>
     length (sh_buf sh) = Suc (nat (sh_len sh + sh_free sh)) \<and> sh_buf sh ! nat (sh_len sh) = NUL \<and>
     block_size h (s - sizeof_hdr) = Some (8 + length (sh_buf sh))"

text \<open>Every string has its block, every array has its own, and no block is both.\<close>

definition sds_wf :: "sds_heap \<Rightarrow> bool" where
  "sds_wf h \<longleftrightarrow> heap_ok h \<and> (\<forall>s sh. strs h s = Some sh \<longrightarrow> hdr_ok h s sh) \<and>
     (\<forall>v xs. vecs h v = Some xs \<longrightarrow> block_size h v = Some (8 * length xs)) \<and>
     (\<forall>s. strs h s \<noteq> None \<longrightarrow> vecs h (s - sizeof_hdr) = None)"

definition sh_text :: "sdshdr \<Rightarrow> string" where
  "sh_text sh = take (nat (sh_len sh)) (sh_buf sh)"

definition sds_text :: "sds_heap \<Rightarrow> addr \<Rightarrow> string" where
  "sds_text h s = (case get_sds h s of None \<Rightarrow> [] | Some sh \<Rightarrow> sh_text sh)"

lemma heap_frame_sds [heap_simps]:
  "block_size (h\<lparr>strs := S\<rparr>) = block_size h" "block_size (h\<lparr>vecs := V\<rparr>) = block_size h"
  "heap_ok (h\<lparr>strs := S\<rparr>) = heap_ok h" "heap_ok (h\<lparr>vecs := V\<rparr>) = heap_ok h"
  "roomy k (h\<lparr>strs := S\<rparr>) = roomy k h" "roomy k (h\<lparr>vecs := V\<rparr>) = roomy k h"
  by (simp_all add: block_size_def heap_ok_def roomy_def fun_eq_iff)

lemma drop_block_sds [heap_simps]:
  "strs (drop_block p h) = strs h" "vecs (drop_block p h) = vecs h" "junk (drop_block p h) = junk h"
  "junk_addr (drop_block p h) = junk_addr h"
  by (simp_all add: drop_block_def)

lemma put_sds_simps [simp]:
  "strs (put_sds s sh h) = (strs h)(s \<mapsto> sh)" "vecs (put_sds s sh h) = vecs h"
  "block_size (put_sds s sh h) = block_size h" "heap_ok (put_sds s sh h) = heap_ok h"
  "roomy k (put_sds s sh h) = roomy k h" "junk (put_sds s sh h) = junk h"
  "put_sds s sh2 (put_sds s sh h) = put_sds s sh2 h"
  by (simp_all add: put_sds_def heap_simps)

lemma hdr_ok_block: "block_size h' (s - sizeof_hdr) = block_size h (s - sizeof_hdr) \<Longrightarrow> hdr_ok h' s sh = hdr_ok h s sh"
  by (simp add: hdr_ok_def)

lemma hdr_ok_put [simp]: "hdr_ok (put_sds s sh h) = hdr_ok h"
  by (simp add: hdr_ok_def fun_eq_iff)

lemma sds_wfD:
  assumes "sds_wf h" "strs h s = Some sh"
  shows "get_sds h s = Some sh" "s \<noteq> NULL" "hdr_ok h s sh" "vecs h (s - sizeof_hdr) = None"
proof -
  show *: "hdr_ok h s sh" "vecs h (s - sizeof_hdr) = None"
    using assms by (simp_all add: sds_wf_def)
  have "fits (s - sizeof_hdr) (8 + length (sh_buf sh))"
    using * assms(1) block_size_fits [of h "s - sizeof_hdr"] by (simp add: hdr_ok_def sds_wf_def)
  then show "s \<noteq> NULL"
    by (auto simp: fits_def sizeof_hdr_def)
  then show "get_sds h s = Some sh"
    using assms(2) by (simp add: get_sds_def)
qed

lemma sds_wf_put:
  assumes "sds_wf h" "hdr_ok h s sh" "vecs h (s - sizeof_hdr) = None"
  shows "sds_wf (put_sds s sh h)"
  using assms by (simp add: sds_wf_def hdr_ok_block [of "put_sds s sh h" _ h])

lemma sds_wf_update:
  assumes "sds_wf h" "strs h s = Some sh" "hdr_ok h s sh'"
  shows "sds_wf (put_sds s sh' h)"
  using sds_wf_put [OF assms(1,3)] sds_wfD(4) [OF assms(1,2)] by simp

lemma sds_fresh:
  assumes "sds_wf h" "block_size h (s - sizeof_hdr) = None"
  shows "strs h s = None" "vecs h (s - sizeof_hdr) = None"
proof -
  show "strs h s = None"
    using assms by (cases "strs h s") (auto simp: sds_wf_def hdr_ok_def)
  show "vecs h (s - sizeof_hdr) = None"
    using assms by (cases "vecs h (s - sizeof_hdr)") (auto simp: sds_wf_def)
qed

lemma sds_wf_frame:
  assumes "sds_wf h" "heap_ok h'" "strs h' = strs h" "vecs h' = vecs h"
    and "\<And>a. block_size h a \<noteq> None \<Longrightarrow> block_size h' a = block_size h a"
  shows "sds_wf h'"
proof -
  have "hdr_ok h' s sh" if "strs h s = Some sh" for s sh
    using sds_wfD(3) [OF assms(1) that] assms(5) [of "s - sizeof_hdr"] by (simp add: hdr_ok_def)
  moreover have "block_size h' v = Some (8 * length xs)" if "vecs h v = Some xs" for v xs
    using assms(1) that assms(5) [of v] by (simp add: sds_wf_def)
  ultimately show ?thesis
    using assms by (simp add: sds_wf_def)
qed

lemma sds_wf_offers [simp]: "sds_wf (h\<lparr>offers := as\<rparr>) = sds_wf h"
  by (simp add: sds_wf_def hdr_ok_def heap_simps)

text \<open>The two outcomes of \<open>malloc\<close> for this heap.\<close>

lemma malloc_sds:
  fixes h :: sds_heap
  assumes "sds_wf h"
  obtains (Fail) as where "malloc n h = (NULL, h\<lparr>offers := as\<rparr>)" "\<not> roomy 1 h \<or> slot_size < unat n"
  | (Done) a h1 where "malloc n h = (a, h1)" "a \<noteq> NULL" "sds_wf h1" "block_size h a = None"
      "block_size h1 = (block_size h)(a \<mapsto> unat n)" "strs h1 = strs h" "vecs h1 = vecs h" "junk h1 = junk h"
      "junk_addr h1 = junk_addr h" "heap_ok h1"
      "\<And>k. roomy (Suc k) h \<Longrightarrow> unat n \<le> slot_size \<Longrightarrow> roomy k h1"
proof (rule malloc_cases [of n h])
  fix as
  assume "malloc n h = (NULL, h\<lparr>offers := as\<rparr>)"
  then show thesis
    using Fail malloc_roomy(1) [of 0 h n] by fastforce
next
  fix a as
  assume m: "a \<noteq> NULL" "placement_ok a (unat n) (live h)"
    "malloc n h = (a, h\<lparr>offers := as, live := (a, unat n) # live h\<rparr>)"
  let ?h = "h\<lparr>offers := as, live := (a, unat n) # live h\<rparr>"
  have b: "block_size h a = None" "block_size ?h = (block_size h)(a \<mapsto> unat n)"
    using placement_ok_block_size [OF m(2)] by (auto simp: block_size_def fun_eq_iff)
  have ok: "heap_ok ?h"
    using assms m(2) by (simp add: sds_wf_def heap_ok_def)
  have wf: "sds_wf ?h"
    by (rule sds_wf_frame [OF assms ok]) (use b in auto)
  show thesis
    using m(1,3) b ok wf malloc_roomy(2) [of _ h n] by (intro Done [of a ?h]) auto
qed

lemma free_sds:
  fixes h :: sds_heap
  assumes "heap_ok h" "block_size h a = Some n"
  shows "\<exists>h1. free a h = Some h1 \<and> heap_ok h1 \<and> block_size h1 = (block_size h)(a := None) \<and> strs h1 = strs h \<and>
    vecs h1 = vecs h \<and> (\<forall>k. roomy k h \<longrightarrow> roomy k h1)"
proof -
  have "a \<noteq> NULL"
    using block_size_fits [OF assms] by (auto simp: fits_def)
  then have "free a h = Some (drop_block a h)"
    using assms(2) by (simp add: free_def)
  then show ?thesis
    using heap_ok_drop [OF assms(1), of a] roomy_drop [of _ h a]
    by (auto simp: heap_simps fun_eq_iff)
qed

subsection \<open>Buffers\<close>

lemma nat_length_ok: "hdr_ok h s sh \<Longrightarrow> nat (sh_len sh) < length (sh_buf sh)"
  by (simp add: hdr_ok_def nat_less_iff)

lemma length_sh_text: "hdr_ok h s sh \<Longrightarrow> length (sh_text sh) = nat (sh_len sh)"
  using nat_length_ok [of h s sh] by (simp add: sh_text_def)

lemma length_fresh_buf [simp]: "length (fresh_buf h n) = n"
  by (simp add: fresh_buf_def)

lemma length_resize [simp]: "length (resize h n b) = n"
  by (auto simp: resize_def)

lemma put_chars_Some: "i + length t \<le> length b \<Longrightarrow>
    put_chars i t b = Some (take i b @ t @ drop (i + length t) b)"
  and put_char_Some: "i < length b \<Longrightarrow> put_char i c b = Some (b[i := c])"
  and get_chars_Some: "i + n \<le> length b \<Longrightarrow> get_chars i n b = Some (take n (drop i b))"
  by (simp_all add: put_chars_def put_char_def get_chars_def)

lemma take_resize: "k \<le> n \<Longrightarrow> k \<le> length b \<Longrightarrow> take k (resize h n b) = take k b"
  by (simp add: resize_def)

lemma resize_nth: "k < n \<Longrightarrow> k < length b \<Longrightarrow> resize h n b ! k = b ! k"
  by (simp add: resize_def nth_append)

lemma unat_hdr: "unat sizeof_hdr = 8"
  by (simp add: sizeof_hdr_def)

subsection \<open>What an operation does to the store\<close>

definition unchanged :: "sds_heap \<Rightarrow> sds_heap \<Rightarrow> bool" where
  "unchanged h h' \<longleftrightarrow> sds_wf h' \<and> strs h' = strs h \<and> vecs h' = vecs h \<and> block_size h' = block_size h"

text \<open>A new string in a new block.\<close>

definition created :: "sds_heap \<Rightarrow> addr \<Rightarrow> sds_heap \<Rightarrow> string \<Rightarrow> bool" where
  "created h s h' txt \<longleftrightarrow> sds_wf h' \<and> s \<noteq> NULL \<and> strs h s = None \<and> vecs h' = vecs h \<and>
     strs h' = (strs h)(s \<mapsto> \<lparr>sh_len = int (length txt), sh_free = 0, sh_buf = txt @ [NUL]\<rparr>) \<and>
     block_size h (s - sizeof_hdr) = None \<and>
     block_size h' = (block_size h)(s - sizeof_hdr \<mapsto> 9 + length txt)"

text \<open>The string \<open>s\<close> has become \<open>q\<close>, possibly in another block, with the text \<open>txt\<close>.\<close>

definition moved :: "sds_heap \<Rightarrow> addr \<Rightarrow> addr \<Rightarrow> sds_heap \<Rightarrow> string \<Rightarrow> bool" where
  "moved h s q h' txt \<longleftrightarrow> sds_wf h' \<and> q \<noteq> NULL \<and> (q = s \<or> strs h q = None) \<and> vecs h' = vecs h \<and>
     (\<exists>sh. strs h' = (strs h)(s := None, q \<mapsto> sh) \<and> sh_text sh = txt) \<and>
     (q = s \<or> block_size h (q - sizeof_hdr) = None) \<and>
     (\<exists>m. block_size h' = (block_size h)(s - sizeof_hdr := None, q - sizeof_hdr \<mapsto> m))"

lemma unchanged_refl: "sds_wf h \<Longrightarrow> unchanged h h"
  by (simp add: unchanged_def)

lemma unchanged_offers: "sds_wf h \<Longrightarrow> unchanged h (h\<lparr>offers := as\<rparr>)"
  by (simp add: unchanged_def heap_simps)

lemma moved_get:
  assumes "moved h s q h' txt"
  obtains sh where "strs h' q = Some sh" "get_sds h' q = Some sh" "sh_text sh = txt" "hdr_ok h' q sh"
proof -
  obtain sh where "strs h' q = Some sh" "sh_text sh = txt"
    using assms by (auto simp: moved_def)
  then show thesis
    using that sds_wfD [of h' q sh] assms by (auto simp: moved_def)
qed

lemma created_get:
  assumes "created h s h' txt"
  obtains sh where "strs h' s = Some sh" "get_sds h' s = Some sh" "sh_text sh = txt" "hdr_ok h' s sh"
proof -
  have sh: "strs h' s = Some \<lparr>sh_len = int (length txt), sh_free = 0, sh_buf = txt @ [NUL]\<rparr>" "sds_wf h'"
    using assms by (simp_all add: created_def)
  show thesis
    using that [OF sh(1) sds_wfD(1) [OF sh(2,1)] _ sds_wfD(3) [OF sh(2,1)]] by (simp add: sh_text_def)
qed

subsection \<open>Creation and release\<close>

lemma newlen_ok:
  assumes "sds_wf h" "unat n \<le> 1073741824"
    and "init = None \<and> txt = replicate (unat n) NUL \<or> (\<exists>t. init = Some t \<and> unat n \<le> length t \<and> txt = take (unat n) t)"
  shows "\<exists>s h'. sdsnewlen init n h = Some (s, h') \<and>
    (s = NULL \<and> unchanged h h' \<and> \<not> roomy 1 h \<or>
     s \<noteq> NULL \<and> created h s h' txt \<and> (\<forall>k. roomy (Suc k) h \<longrightarrow> roomy k h'))"
proof -
  define m where "m = sizeof_hdr + n + 1"
  have um: "unat m = 9 + unat n"
    using assms(2) by (simp add: m_def sizeof_hdr_def unat_add_ok)
  have len: "length txt = unat n"
    using assms(3) by auto
  have fit: "unat m \<le> slot_size"
    using um assms(2) by (simp add: slot_size_def)
  show ?thesis
  proof (rule malloc_sds [OF assms(1), of m])
    fix as
    assume "malloc m h = (NULL, h\<lparr>offers := as\<rparr>)" "\<not> roomy 1 h \<or> slot_size < unat m"
    then show ?thesis
      using fit unchanged_offers [OF assms(1), of as] by (simp add: sdsnewlen_def flip: m_def)
  next
    fix a h1
    assume d: "malloc m h = (a, h1)" "a \<noteq> NULL" "sds_wf h1" "block_size h a = None"
      "block_size h1 = (block_size h)(a \<mapsto> unat m)" "strs h1 = strs h" "vecs h1 = vecs h" "junk h1 = junk h"
      "\<And>k. roomy (Suc k) h \<Longrightarrow> unat m \<le> slot_size \<Longrightarrow> roomy k h1"
    define s where "s = a + sizeof_hdr"
    have sa: "s - sizeof_hdr = a"
      by (simp add: s_def)
    define sh where "sh = \<lparr>sh_len = int (length txt), sh_free = 0, sh_buf = txt @ [NUL]\<rparr>"
    have fr: "strs h s = None" "vecs h a = None"
      using sds_fresh [OF assms(1), of s] d(4) by (simp_all add: sa)
    have "int (unat n) \<le> 1073741824"
      using assms(2) by linarith
    then have hd: "hdr_ok h1 s sh"
      using d(5) um len assms(2) by (simp add: hdr_ok_def sh_def sa INT_MAX_def nth_append)
    have wf: "sds_wf (put_sds s sh h1)"
      using sds_wf_put [OF d(3) hd] d(7) fr(2) by (simp add: sa)
    have "s \<noteq> NULL"
      using sds_wfD(2) [OF wf, of s sh] by simp
    have n_int: "int_of_size n = int (length txt)"
      using assms(2) len by (simp add: int_of_size_ok)
    have body: "\<exists>x. (case init of None \<Rightarrow> Some (replicate (Suc (unat n)) NUL)
        | Some t \<Rightarrow> do { src \<leftarrow> get_chars 0 (unat n) t; put_chars 0 src (fresh_buf h1 (Suc (unat n))) }) =
      Some (txt @ [x])"
    proof (cases init)
      case None
      then have "replicate (Suc (unat n)) NUL = txt @ [NUL]"
        using assms(3) by (simp add: replicate_append_same)
      then show ?thesis
        using None um by auto
    next
      case (Some t)
      have "drop (unat n) (fresh_buf h1 (Suc (unat n))) = [junk h1 (unat n)]"
        by (simp add: fresh_buf_def)
      then show ?thesis
        using assms(3) um Some by (auto simp: get_chars_Some put_chars_Some)
    qed
    have last: "put_char (unat n) NUL (txt @ [x]) = Some (txt @ [NUL])" for x
      by (simp add: put_char_def flip: len)
    have "sdsnewlen init n h = Some (s, put_sds s sh h1)"
      using d(1,2) um body last by (auto simp: sdsnewlen_def Let_def unat_hdr n_int s_def sh_def simp flip: m_def)
    moreover have "created h s (put_sds s sh h1) txt"
      using wf \<open>s \<noteq> NULL\<close> fr d(4-7) um len by (simp add: created_def sa sh_def)
    ultimately show ?thesis
      using \<open>s \<noteq> NULL\<close> d(9) fit by (intro exI [of _ s] exI [of _ "put_sds s sh h1"]) simp
  qed
qed

lemma sdsfree_ok:
  assumes "sds_wf h" "strs h s = Some sh"
  shows "\<exists>h'. sdsfree s h = Some h' \<and> sds_wf h' \<and> strs h' = (strs h)(s := None) \<and> vecs h' = vecs h \<and>
    block_size h' = (block_size h)(s - sizeof_hdr := None) \<and> (\<forall>k. roomy k h \<longrightarrow> roomy k h')"
proof -
  have s: "s \<noteq> NULL" "hdr_ok h s sh" "vecs h (s - sizeof_hdr) = None"
    using sds_wfD [OF assms] by simp_all
  obtain h1 where f: "free (s - sizeof_hdr) h = Some h1" "heap_ok h1"
    "block_size h1 = (block_size h)(s - sizeof_hdr := None)" "strs h1 = strs h" "vecs h1 = vecs h"
    "\<forall>k. roomy k h \<longrightarrow> roomy k h1"
    using free_sds [of h "s - sizeof_hdr"] assms(1) s(2) by (auto simp: sds_wf_def hdr_ok_def)
  define h' where "h' = h1\<lparr>strs := (strs h1)(s := None)\<rparr>"
  have "hdr_ok h' t th" if "strs h t = Some th" "t \<noteq> s" for t th
    using sds_wfD(3) [OF assms(1) that(1)] that(2) f(3) by (simp add: hdr_ok_def h'_def heap_simps)
  moreover have "block_size h' v = Some (8 * length xs)" if "vecs h v = Some xs" for v xs
    using assms(1) that s(3) f(3) by (auto simp: sds_wf_def h'_def heap_simps)
  ultimately have "sds_wf h'"
    using assms(1) f(2,4,5) by (simp add: sds_wf_def h'_def heap_simps)
  then show ?thesis
    using s(1) f by (simp add: sdsfree_def h'_def heap_simps)
qed

subsection \<open>Reallocation\<close>

lemma sds_realloc_ok:
  assumes "sds_wf h" "strs h s = Some sh" "9 \<le> unat n" "unat n \<le> slot_size"
  shows "\<exists>q h'. sds_realloc s n h = Some (q, h') \<and>
    (q = NULL \<and> unchanged h h' \<and> \<not> roomy 1 h \<or>
     q \<noteq> NULL \<and> (q = s \<or> strs h q = None \<and> block_size h (q - sizeof_hdr) = None) \<and>
       strs h' = (strs h)(s := None, q \<mapsto> sh\<lparr>sh_buf := resize h (unat n - 8) (sh_buf sh)\<rparr>) \<and>
       vecs h' = vecs h \<and> heap_ok h' \<and> vecs h (q - sizeof_hdr) = None \<and>
       block_size h' = (block_size h)(s - sizeof_hdr := None, q - sizeof_hdr \<mapsto> unat n) \<and>
       (\<forall>k. roomy (Suc k) h \<longrightarrow> roomy k h'))"
proof -
  have s: "get_sds h s = Some sh" "hdr_ok h s sh" "vecs h (s - sizeof_hdr) = None"
    using sds_wfD [OF assms(1,2)] by simp_all
  have b: "block_size h (s - sizeof_hdr) = Some (8 + length (sh_buf sh))" "heap_ok h" "n \<noteq> 0"
    using s(2) assms(1,3) by (auto simp: hdr_ok_def sds_wf_def)
  show ?thesis
  proof (rule realloc_cases [OF b(2,1,3)])
    fix as
    assume r: "realloc (s - sizeof_hdr) n h = Some (NULL, h\<lparr>offers := as\<rparr>)"
    then have "sds_realloc s n h = Some (NULL, h\<lparr>offers := as\<rparr>)"
      using s(1) by (simp add: sds_realloc_def)
    then show ?thesis
      using unchanged_offers [OF assms(1), of as] realloc_roomy(1) [OF _ assms(4) r] by auto
  next
    fix p as
    assume p: "p \<noteq> NULL" "p = s - sizeof_hdr \<or> block_size h p = None"
      "placement_ok p (unat n) (live (drop_block (s - sizeof_hdr) h))"
      "realloc (s - sizeof_hdr) n h = Some (p, h\<lparr>offers := as,
         live := (p, unat n) # live (drop_block (s - sizeof_hdr) h),
         bytes := copy_bytes p (s - sizeof_hdr) (min (8 + length (sh_buf sh)) (unat n)) (bytes h)\<rparr>)"
    define g where "g = h\<lparr>offers := as, live := (p, unat n) # live (drop_block (s - sizeof_hdr) h),
         bytes := copy_bytes p (s - sizeof_hdr) (min (8 + length (sh_buf sh)) (unat n)) (bytes h)\<rparr>"
    define q where "q = p + sizeof_hdr"
    have qp: "q - sizeof_hdr = p"
      by (simp add: q_def)
    have "block_size g = block_size (h\<lparr>live := (p, unat n) # live (drop_block (s - sizeof_hdr) h)\<rparr>)"
      by (rule block_size_live_cong) (simp add: g_def)
    then have g: "heap_ok g" "block_size g = (block_size h)(s - sizeof_hdr := None, p \<mapsto> unat n)" "strs g = strs h"
      "vecs g = vecs h" "junk g = junk h"
      using heap_ok_live_upd [OF b(2) p(3)] block_size_live_upd [of p "unat n" "s - sizeof_hdr" h]
      by (simp_all add: g_def heap_ok_def)
    have fresh: "q = s \<or> strs h q = None \<and> block_size h (q - sizeof_hdr) = None"
      using p(2) sds_fresh(1) [OF assms(1), of q] by (auto simp: qp q_def)
    have vq: "vecs h p = None"
      using p(2) s(3) sds_fresh(2) [OF assms(1), of q] by (auto simp: qp)
    have "fits p (unat n)"
      using p(3) by (simp add: placement_ok_def)
    then have "q \<noteq> NULL"
    proof -
      have "16 dvd unat p"
        using \<open>fits p (unat n)\<close> by (simp add: fits_def)
      moreover have "unat p = 18446744073709551608" if "q = NULL"
      proof -
        have "p = - sizeof_hdr"
          using that by (simp add: q_def eq_neg_iff_add_eq_0)
        then show ?thesis
          by (simp add: sizeof_hdr_def)
      qed
      ultimately show ?thesis
        by auto
    qed
    define h' where "h' = put_sds q (sh\<lparr>sh_buf := resize g (unat n - 8) (sh_buf sh)\<rparr>) (g\<lparr>strs := (strs g)(s := None)\<rparr>)"
    have "sds_realloc s n h = Some (q, h')"
      using s(1) p(1,4) assms(3) by (simp add: sds_realloc_def h'_def g_def unat_hdr q_def Let_def)
    moreover have "strs h' = (strs h)(s := None, q \<mapsto> sh\<lparr>sh_buf := resize h (unat n - 8) (sh_buf sh)\<rparr>)"
      using g(3,5) by (simp add: h'_def resize_def)
    moreover have "vecs h' = vecs h" "heap_ok h'" "block_size h' = block_size g"
      using g by (simp_all add: h'_def heap_simps)
    moreover have "roomy k h'" if "roomy (Suc k) h" for k
    proof -
      have "roomy k g"
        using realloc_roomy(2) [OF that assms(4) p(4)] by (simp add: g_def)
      then show ?thesis
        by (simp add: h'_def heap_simps)
    qed
    ultimately show ?thesis
      using \<open>q \<noteq> NULL\<close> fresh vq g(2) by (intro exI [of _ q] exI [of _ h']) (simp add: qp)
  qed
qed

text \<open>What is left to show after a successful reallocation is the header of the moved string.\<close>

lemma realloc_wf:
  assumes "sds_wf h" "strs h s = Some sh" "strs h1 = (strs h)(s := None, q \<mapsto> sh1)" "vecs h1 = vecs h" "heap_ok h1"
    and "vecs h (q - sizeof_hdr) = None"
    and "block_size h1 = (block_size h)(s - sizeof_hdr := None, q - sizeof_hdr \<mapsto> n)" "hdr_ok h1 q sh'"
  shows "sds_wf (put_sds q sh' h1)"
proof -
  have "hdr_ok h1 t th" if "strs h t = Some th" "t \<noteq> s" "t \<noteq> q" for t th
    using sds_wfD(3) [OF assms(1) that(1)] that(2,3) assms(7) by (simp add: hdr_ok_def)
  moreover have "block_size h1 v = Some (8 * length xs)" if "vecs h v = Some xs" for v xs
  proof -
    have "v \<noteq> s - sizeof_hdr" "v \<noteq> q - sizeof_hdr"
      using that assms(6) sds_wfD(4) [OF assms(1,2)] by auto
    then show ?thesis
      using assms(1,7) that by (simp add: sds_wf_def)
  qed
  ultimately show ?thesis
    using assms(1,3-6,8) by (simp add: sds_wf_def)
qed

lemma moved_update:
  assumes "moved h s q h1 t1" "hdr_ok h1 q sh2" "sh_text sh2 = t2"
  shows "moved h s q (put_sds q sh2 h1) t2"
proof -
  obtain sh where sh: "strs h1 = (strs h)(s := None, q \<mapsto> sh)" and wf: "sds_wf h1"
    using assms(1) by (auto simp: moved_def)
  have "sds_wf (put_sds q sh2 h1)"
    by (rule sds_wf_update [OF wf _ assms(2)]) (simp add: sh)
  then show ?thesis
    using assms(1,3) sh by (auto simp: moved_def)
qed

lemma moved_refl:
  assumes "sds_wf h" "strs h s = Some sh"
  shows "moved h s s h (sh_text sh)"
proof -
  have "strs h = (strs h)(s := None, s \<mapsto> sh)"
    using assms(2) by (simp add: fun_upd_idem)
  moreover have "block_size h = (block_size h)(s - sizeof_hdr := None, s - sizeof_hdr \<mapsto> 8 + length (sh_buf sh))"
    using sds_wfD(3) [OF assms] by (simp add: hdr_ok_def fun_upd_idem)
  ultimately show ?thesis
    using assms(1) sds_wfD(2) [OF assms] unfolding moved_def by blast
qed

lemma size_of_int_unat: "0 \<le> i \<Longrightarrow> i \<le> INT_MAX \<Longrightarrow> unat (size_of_int i) = nat i"
  by (rule unat_size_of_int)

lemma unat_len:
  assumes "hdr_ok h s sh"
  shows "unat (size_of_int (sh_len sh)) = nat (sh_len sh)" "unat (size_of_int (sh_free sh)) = nat (sh_free sh)"
    "nat (sh_len sh) \<le> 2147483647" "nat (sh_free sh) \<le> 2147483647"
    "length (sh_buf sh) = Suc (nat (sh_len sh) + nat (sh_free sh))"
proof -
  have h: "0 \<le> sh_len sh" "0 \<le> sh_free sh" "sh_len sh + sh_free sh \<le> INT_MAX"
    using assms by (simp_all add: hdr_ok_def)
  then have b: "sh_len sh \<le> 2147483647" "sh_free sh \<le> 2147483647"
    by (simp_all add: INT_MAX_def)
  show "unat (size_of_int (sh_len sh)) = nat (sh_len sh)" "unat (size_of_int (sh_free sh)) = nat (sh_free sh)"
    using h b by (simp_all add: unat_size_of_int INT_MAX_def)
  show "nat (sh_len sh) \<le> 2147483647" "nat (sh_free sh) \<le> 2147483647"
    using b by simp_all
  show "length (sh_buf sh) = Suc (nat (sh_len sh) + nat (sh_free sh))"
    using assms h by (simp add: hdr_ok_def nat_add_distrib)
qed

definition new_capacity :: "nat \<Rightarrow> nat" where
  "new_capacity n = (if n < 1048576 then 2 * n else n + 1048576)"

lemma room_size:
  assumes "unat len = L" "L + unat add \<le> 1073741824"
  shows "unat (if len + add < SDS_MAX_PREALLOC then (len + add) * 2 else len + add + SDS_MAX_PREALLOC) = new_capacity (L + unat add)"
proof -
  have ul: "unat (len + add) = L + unat add"
    using assms by (simp add: unat_add_ok)
  show ?thesis
  proof (cases "len + add < SDS_MAX_PREALLOC")
    case True
    then have "L + unat add < 1048576"
      using ul by (simp add: word_less_nat_alt SDS_MAX_PREALLOC_def)
    moreover have "unat ((len + add) * 2) = (L + unat add) * 2"
      using ul calculation by (subst unat_mult_ok) simp_all
    ultimately show ?thesis
      using True by (simp only: new_capacity_def if_True mult.commute)
  next
    case False
    then show ?thesis
      using ul assms(2) by (simp add: new_capacity_def word_less_nat_alt SDS_MAX_PREALLOC_def unat_add_ok)
  qed
qed

text \<open>A string in its new block, with the capacity \<open>n\<close>.\<close>

lemma room_moved:
  assumes "sds_wf h" "strs h s = Some sh" "nat (sh_len sh) \<le> n" "n \<le> 1074790400"
    and "q \<noteq> NULL" "q = s \<or> strs h q = None \<and> block_size h (q - sizeof_hdr) = None"
      "strs h1 = (strs h)(s := None, q \<mapsto> sh\<lparr>sh_buf := resize h (Suc n) (sh_buf sh)\<rparr>)"
      "vecs h1 = vecs h" "heap_ok h1" "vecs h (q - sizeof_hdr) = None"
      "block_size h1 = (block_size h)(s - sizeof_hdr := None, q - sizeof_hdr \<mapsto> 9 + n)"
    and sh': "sh' = sh\<lparr>sh_buf := resize h (Suc n) (sh_buf sh), sh_free := int (n - nat (sh_len sh))\<rparr>"
  shows "moved h s q (put_sds q sh' h1) (sh_text sh)"
proof -
  define L where "L = nat (sh_len sh)"
  have s: "hdr_ok h s sh"
    using sds_wfD [OF assms(1,2)] by simp
  have pos: "0 \<le> sh_len sh" "sh_len sh = int L"
    using s by (simp_all add: hdr_ok_def L_def)
  have Lb: "L < length (sh_buf sh)" "L \<le> n" "sh_buf sh ! L = NUL"
    using nat_length_ok [OF s] assms(3) s by (simp_all add: L_def hdr_ok_def)
  have free: "sh_free sh' = int (n - L)"
    by (simp add: sh' L_def)
  have tot: "sh_len sh' + sh_free sh' = int n"
    using free pos Lb(2) by (simp add: sh')
  have "int L \<le> int n" "int n \<le> 1074790400"
    using Lb(2) assms(4) by linarith+
  then have hd: "hdr_ok h1 q sh'"
    using assms(11) tot free pos Lb assms(4)
    by (simp add: hdr_ok_def INT_MAX_def, simp add: sh' resize_nth)
  have tx: "sh_text sh' = sh_text sh"
    using Lb by (simp add: sh_text_def sh' pos take_resize)
  have "sds_wf (put_sds q sh' h1)"
    using realloc_wf [OF assms(1,2,7-11) hd] .
  then show ?thesis
    using assms(5-8,11) tx by (auto simp: moved_def)
qed

lemma room_ok:
  assumes "sds_wf h" "strs h s = Some sh" "nat (sh_len sh) + unat add \<le> 1073741824"
  shows "\<exists>q h'. sdsMakeRoomFor s add h = Some (q, h') \<and>
    (q = NULL \<and> unchanged h h' \<and> \<not> roomy 1 h \<or>
     q \<noteq> NULL \<and> moved h s q h' (sh_text sh) \<and>
       (\<exists>sh'. strs h' q = Some sh' \<and> sh_len sh' = sh_len sh \<and> unat add \<le> nat (sh_free sh') \<and>
         (if unat add \<le> nat (sh_free sh) then q = s \<and> h' = h
          else nat (sh_len sh + sh_free sh') = new_capacity (nat (sh_len sh) + unat add))) \<and>
       (\<forall>k. roomy (Suc k) h \<longrightarrow> roomy k h'))"
proof -
  have s: "get_sds h s = Some sh" "hdr_ok h s sh" "s \<noteq> NULL"
    using sds_wfD [OF assms(1,2)] by simp_all
  note u = unat_len [OF s(2)]
  have av: "sdsavail s h = Some (size_of_int (sh_free sh))" "sdslen s h = Some (size_of_int (sh_len sh))"
    using s(1) by (simp_all add: sdsavail_def sdslen_def)
  show ?thesis
  proof (cases "size_of_int (sh_free sh) \<ge> add")
    case True
    then have "sdsMakeRoomFor s add h = Some (s, h)" "unat add \<le> nat (sh_free sh)"
      using av u(2) by (simp_all add: sdsMakeRoomFor_def word_le_nat_alt)
    then show ?thesis
      using moved_refl [OF assms(1,2)] assms(2) s(3) roomy_Suc by auto
  next
    case False
    then have need: "nat (sh_free sh) < unat add"
      using u(2) by (simp add: word_le_nat_alt)
    define L where "L = nat (sh_len sh)"
    define len where "len = size_of_int (sh_len sh)"
    define m where "m = (if len + add < SDS_MAX_PREALLOC then (len + add) * 2 else len + add + SDS_MAX_PREALLOC)"
    have ul: "unat len = L" "sh_len sh = int L"
      using u(1) s(2) by (simp_all add: len_def L_def hdr_ok_def)
    have um: "unat m = new_capacity (L + unat add)"
      unfolding m_def by (rule room_size [OF ul(1)]) (use assms(3) in \<open>simp add: L_def\<close>)
    have bound: "L + unat add \<le> unat m" "unat m \<le> 1074790400"
      using um assms(3) by (simp_all add: new_capacity_def L_def)
    have un: "unat (sizeof_hdr + m + 1) = 9 + unat m"
      using bound by (simp add: sizeof_hdr_def unat_add_ok)
    have free: "int_of_size (m - len) = int (unat m - L)"
      using bound ul by (simp add: int_of_size_ok unat_sub_ok del: of_nat_diff)
    have run: "sdsMakeRoomFor s add h = do {
        (q, h1) \<leftarrow> sds_realloc s (sizeof_hdr + m + 1) h;
        if q = NULL then Some (NULL, h1)
        else do { sh \<leftarrow> get_sds h1 q; Some (q, put_sds q (sh\<lparr>sh_free := int (unat m - L)\<rparr>) h1) } }"
      unfolding free [symmetric] using False
      by (simp only: sdsMakeRoomFor_def av Option.bind.bind_lunit Let_def m_def len_def if_False)
    obtain q h1 where r: "sds_realloc s (sizeof_hdr + m + 1) h = Some (q, h1)"
      "q = NULL \<and> unchanged h h1 \<and> \<not> roomy 1 h \<or>
       q \<noteq> NULL \<and> (q = s \<or> strs h q = None \<and> block_size h (q - sizeof_hdr) = None) \<and>
       strs h1 = (strs h)(s := None, q \<mapsto> sh\<lparr>sh_buf := resize h (Suc (unat m)) (sh_buf sh)\<rparr>) \<and>
       vecs h1 = vecs h \<and> heap_ok h1 \<and> vecs h (q - sizeof_hdr) = None \<and>
       block_size h1 = (block_size h)(s - sizeof_hdr := None, q - sizeof_hdr \<mapsto> 9 + unat m) \<and>
       (\<forall>k. roomy (Suc k) h \<longrightarrow> roomy k h1)"
      using sds_realloc_ok [OF assms(1,2), of "sizeof_hdr + m + 1"] un bound by (auto simp: slot_size_def)
    show ?thesis
    proof (cases "q = NULL")
      case True
      then show ?thesis
        using run r by simp
    next
      case False
      define sh' where "sh' = sh\<lparr>sh_buf := resize h (Suc (unat m)) (sh_buf sh), sh_free := int (unat m - nat (sh_len sh))\<rparr>"
      have "moved h s q (put_sds q sh' h1) (sh_text sh)"
        by (rule room_moved [OF assms(1,2) _ bound(2) False _ _ _ _ _ _ sh'_def]) (use r(2) False bound(1) in \<open>auto simp: L_def\<close>)
      moreover have "sdsMakeRoomFor s add h = Some (q, put_sds q sh' h1)"
        using run r False by (auto simp: get_sds_def sh'_def L_def)
      moreover have "sh_free sh' = int (unat m - L)" "sh_len sh' = int L"
        using ul(2) by (simp_all add: sh'_def L_def)
      then have "sh_len sh' = sh_len sh" "nat (sh_free sh') = unat m - L" "nat (sh_len sh + sh_free sh') = unat m"
        using bound(1) ul(2) by (simp_all only: nat_int flip: of_nat_add)
      moreover have "unat add \<le> unat m - L"
        using bound(1) by linarith
      ultimately show ?thesis
        using False need r(2) um by (intro exI [of _ q] exI [of _ "put_sds q sh' h1"]) (simp add: L_def)
    qed
  qed
qed

subsection \<open>Appending\<close>

lemma cat_bytes_ok:
  assumes "sds_wf h" "strs h q = Some sh" "unat n \<le> length t" "unat n \<le> nat (sh_free sh)"
  shows "\<exists>sh2. cat_bytes q (size_of_int (sh_len sh)) t n h = Some (q, put_sds q sh2 h) \<and> hdr_ok h q sh2 \<and>
    sh_text sh2 = sh_text sh @ take (unat n) t \<and> sh_len sh2 = sh_len sh + int (unat n) \<and>
    sh_free sh2 = sh_free sh - int (unat n)"
proof -
  have s: "get_sds h q = Some sh" "hdr_ok h q sh"
    using sds_wfD [OF assms(1,2)] by simp_all
  note u = unat_len [OF s(2)]
  define L N where "L = nat (sh_len sh)" and "N = unat n"
  have p: "sh_len sh = int L" "0 \<le> sh_free sh" "int L + sh_free sh \<le> 2147483647"
    using s(2) by (simp_all add: hdr_ok_def L_def INT_MAX_def)
  have pn: "L + nat (sh_free sh) \<le> 2147483647" "N \<le> nat (sh_free sh)" "int N \<le> sh_free sh"
    using p assms(4) by (simp_all add: N_def le_nat_iff)
  have uadd: "unat (size_of_int (sh_len sh) + n) = L + N"
    using u(1) pn by (simp add: unat_add_ok L_def N_def)
  have l2: "int_of_size (size_of_int (sh_len sh) + n) = sh_len sh + int N"
    using uadd p(1) pn by (subst int_of_size_ok) simp_all
  have "unat (size_of_int (sh_free sh) - n) = nat (sh_free sh) - N"
    using u(2) assms(4) by (simp add: unat_sub_ok N_def)
  then have f2: "int_of_size (size_of_int (sh_free sh) - n) = sh_free sh - int N"
    using u(4) pn(2) p(2) by (subst int_of_size_ok) (simp_all add: of_nat_diff)
  define b where "b = take L (sh_buf sh) @ take N t @ drop (L + N) (sh_buf sh)"
  have len: "length (take N t) = N" "L + N < length (sh_buf sh)" "length b = length (sh_buf sh)"
    using assms(3,4) u(5) by (simp_all add: N_def L_def b_def)
  define sh2 where "sh2 = \<lparr>sh_len = sh_len sh + int N, sh_free = sh_free sh - int N, sh_buf = b[L + N := NUL]\<rparr>"
  have "cat_bytes q (size_of_int (sh_len sh)) t n h = Some (q, put_sds q sh2 h)"
    using s(1) u(1) uadd l2 f2 len assms(3)
    by (simp add: cat_bytes_def get_chars_Some put_chars_Some put_char_Some sh2_def b_def L_def N_def)
  moreover have "hdr_ok h q sh2"
    using s(2) pn(3) len p(1) by (simp add: hdr_ok_def sh2_def nat_int_add)
  moreover have "sh_text sh2 = sh_text sh @ take N t"
    using p(1) len by (simp add: sh_text_def sh2_def b_def nat_add_distrib)
  ultimately show ?thesis
    by (auto simp: sh2_def N_def)
qed

lemma sdscatlen_ok:
  assumes "sds_wf h" "strs h s = Some sh" "unat n \<le> length t" "length (sh_text sh) + unat n \<le> 1073741824"
  shows "\<exists>q h'. sdscatlen s t n h = Some (q, h') \<and>
    (q = NULL \<and> unchanged h h' \<and> \<not> roomy 1 h \<or>
     q \<noteq> NULL \<and> moved h s q h' (sh_text sh @ take (unat n) t) \<and> (\<forall>k. roomy (Suc k) h \<longrightarrow> roomy k h'))"
proof -
  have s: "get_sds h s = Some sh" "hdr_ok h s sh"
    using sds_wfD [OF assms(1,2)] by simp_all
  have len: "sdslen s h = Some (size_of_int (sh_len sh))"
    using s(1) by (simp add: sdslen_def)
  have room: "nat (sh_len sh) + unat n \<le> 1073741824"
    using assms(4) length_sh_text [OF s(2)] by simp
  obtain q h1 where r: "sdsMakeRoomFor s n h = Some (q, h1)"
    "q = NULL \<and> unchanged h h1 \<and> \<not> roomy 1 h \<or>
     q \<noteq> NULL \<and> moved h s q h1 (sh_text sh) \<and>
       (\<exists>sh'. strs h1 q = Some sh' \<and> sh_len sh' = sh_len sh \<and> unat n \<le> nat (sh_free sh')) \<and>
       (\<forall>k. roomy (Suc k) h \<longrightarrow> roomy k h1)"
    using room_ok [OF assms(1,2) room] by blast
  from r(2) show ?thesis
  proof (elim disjE conjE exE)
    assume "q = NULL" "unchanged h h1" "\<not> roomy 1 h"
    then show ?thesis
      using r(1) len by (simp add: sdscatlen_def)
  next
    fix sh1
    assume d: "q \<noteq> NULL" "moved h s q h1 (sh_text sh)" "\<forall>k. roomy (Suc k) h \<longrightarrow> roomy k h1"
      "strs h1 q = Some sh1" "sh_len sh1 = sh_len sh" "unat n \<le> nat (sh_free sh1)"
    have wf: "sds_wf h1"
      using d(2) by (simp add: moved_def)
    have t1: "sh_text sh1 = sh_text sh"
      using d(2,4) by (auto simp: moved_def)
    obtain sh2 where c: "cat_bytes q (size_of_int (sh_len sh1)) t n h1 = Some (q, put_sds q sh2 h1)"
      "hdr_ok h1 q sh2" "sh_text sh2 = sh_text sh1 @ take (unat n) t"
      using cat_bytes_ok [OF wf d(4) assms(3) d(6)] by blast
    have "sdscatlen s t n h = Some (q, put_sds q sh2 h1)"
      using len r(1) d(1,5) c(1) by (simp add: sdscatlen_def)
    moreover have "moved h s q (put_sds q sh2 h1) (sh_text sh @ take (unat n) t)"
      using moved_update [OF d(2) c(2)] c(3) t1 by simp
    ultimately show ?thesis
      using d(1,3) by simp
  qed
qed

lemma sdscat_ok:
  assumes "sds_wf h" "strs h s = Some sh" "length (sh_text sh) + length t \<le> 1073741824"
  shows "\<exists>q h'. sdscat s t h = Some (q, h') \<and>
    (q = NULL \<and> unchanged h h' \<and> \<not> roomy 1 h \<or>
     q \<noteq> NULL \<and> moved h s q h' (sh_text sh @ t) \<and> (\<forall>k. roomy (Suc k) h \<longrightarrow> roomy k h'))"
proof -
  have u: "unat (of_nat (length t) :: size_t) = length t"
    using assms(3) by (simp add: unat_of_nat_ok)
  show ?thesis
    using sdscatlen_ok [OF assms(1,2), of "of_nat (length t)" t] assms(3) by (simp add: sdscat_def u)
qed

lemma sdscatsds_ok:
  assumes "sds_wf h" "strs h s = Some sh" "strs h t = Some th" "t \<noteq> s"
    and "length (sh_text sh) + length (sh_text th) \<le> 1073741824"
  shows "\<exists>q h'. sdscatsds s t h = Some (q, h') \<and>
    (q = NULL \<and> unchanged h h' \<and> \<not> roomy 1 h \<or>
     q \<noteq> NULL \<and> moved h s q h' (sh_text sh @ sh_text th) \<and> strs h' t = Some th \<and>
       (\<forall>k. roomy (Suc k) h \<longrightarrow> roomy k h'))"
proof -
  have s: "get_sds h s = Some sh" "hdr_ok h s sh" and t: "get_sds h t = Some th" "hdr_ok h t th" "t \<noteq> NULL"
    using sds_wfD [OF assms(1,2)] sds_wfD [OF assms(1,3)] by simp_all
  define n where "n = size_of_int (sh_len th)"
  have n: "unat n = nat (sh_len th)" "take (unat n) (sh_buf th) = sh_text th" "unat n \<le> length (sh_buf th)"
    using unat_len(1) [OF t(2)] nat_length_ok [OF t(2)] by (simp_all add: n_def sh_text_def)
  have len: "sdslen s h = Some (size_of_int (sh_len sh))" "sdslen t h = Some n"
    using s(1) t(1) by (simp_all add: sdslen_def n_def)
  have room: "nat (sh_len sh) + unat n \<le> 1073741824"
    using assms(5) length_sh_text [OF s(2)] length_sh_text [OF t(2)] n(1) by simp
  obtain q h1 where r: "sdsMakeRoomFor s n h = Some (q, h1)"
    "q = NULL \<and> unchanged h h1 \<and> \<not> roomy 1 h \<or>
     q \<noteq> NULL \<and> moved h s q h1 (sh_text sh) \<and>
       (\<exists>sh'. strs h1 q = Some sh' \<and> sh_len sh' = sh_len sh \<and> unat n \<le> nat (sh_free sh')) \<and>
       (\<forall>k. roomy (Suc k) h \<longrightarrow> roomy k h1)"
    using room_ok [OF assms(1,2) room] by blast
  show ?thesis
  proof (cases "q = NULL")
    case True
    then show ?thesis
      using r len by (simp add: sdscatsds_def)
  next
    case False
    then obtain sh1 where d: "moved h s q h1 (sh_text sh)" "\<forall>k. roomy (Suc k) h \<longrightarrow> roomy k h1"
      "strs h1 q = Some sh1" "sh_len sh1 = sh_len sh" "unat n \<le> nat (sh_free sh1)"
      using r(2) by auto
    have wf: "sds_wf h1"
      using d(1) by (simp add: moved_def)
    have t1: "sh_text sh1 = sh_text sh"
      using d(1,3) by (auto simp: moved_def)
    have tq: "t \<noteq> q" "strs h1 t = Some th"
      using d(1) assms(3,4) by (auto simp: moved_def)
    obtain sh2 where c: "cat_bytes q (size_of_int (sh_len sh1)) (sh_buf th) n h1 = Some (q, put_sds q sh2 h1)"
      "hdr_ok h1 q sh2" "sh_text sh2 = sh_text sh1 @ sh_text th"
      using cat_bytes_ok [OF wf d(3) n(3) d(5)] n(2) by auto
    have "sdscatsds s t h = Some (q, put_sds q sh2 h1)"
      using len r(1) d(4) c(1) False tq(2) t(3) by (simp add: sdscatsds_def get_sds_def)
    moreover have "moved h s q (put_sds q sh2 h1) (sh_text sh @ sh_text th)"
      using moved_update [OF d(1) c(2)] c(3) t1 by simp
    ultimately show ?thesis
      using d(2) False tq by simp
  qed
qed

subsection \<open>Length, capacity and overwriting\<close>

text \<open>The free space is what the buffer has behind the text; \<open>in_place\<close> is a header that keeps it.\<close>

definition in_place :: "sds_heap \<Rightarrow> addr \<Rightarrow> sdshdr \<Rightarrow> sdshdr \<Rightarrow> string \<Rightarrow> bool" where
  "in_place h s sh sh' tx \<longleftrightarrow> hdr_ok h s sh' \<and> sh_text sh' = tx \<and> sh_len sh' + sh_free sh' = sh_len sh + sh_free sh"

lemma in_place_wf:
  assumes "sds_wf h" "strs h s = Some sh" "in_place h s sh sh' tx"
  shows "sds_wf (put_sds s sh' h)" "moved h s s (put_sds s sh' h) tx" "sds_text (put_sds s sh' h) s = tx"
proof -
  show w: "sds_wf (put_sds s sh' h)"
    using sds_wf_update [OF assms(1,2)] assms(3) by (simp add: in_place_def)
  show m: "moved h s s (put_sds s sh' h) tx"
    using moved_update [OF moved_refl [OF assms(1,2)], of sh'] assms(3) by (simp add: in_place_def)
  show "sds_text (put_sds s sh' h) s = tx"
    using sds_wfD(1) [OF w, of s sh'] assms(3) by (simp add: sds_text_def in_place_def)
qed

text \<open>Writing the terminator at \<open>n\<close> and moving \<open>len\<close> there, in a buffer whose first \<open>n\<close> bytes are the text.\<close>

lemma in_place_set:
  assumes "hdr_ok h s sh" "length b = length (sh_buf sh)" "n < length b" "take n b = tx"
  shows "in_place h s sh \<lparr>sh_len = int n, sh_free = sh_len sh + sh_free sh - int n, sh_buf = b[n := NUL]\<rparr> tx"
  using assms by (auto simp: in_place_def hdr_ok_def sh_text_def)

lemma sdsclear_ok:
  assumes "sds_wf h" "strs h s = Some sh"
  shows "\<exists>sh'. sdsclear s h = Some (put_sds s sh' h) \<and> in_place h s sh sh' []"
proof -
  have s: "get_sds h s = Some sh" "hdr_ok h s sh"
    using sds_wfD [OF assms] by simp_all
  have "int_chk (sh_free sh + sh_len sh) = Some (sh_len sh + sh_free sh)"
    using s(2) by (simp add: hdr_ok_def int_chk_def int_ok_def INT_MIN_def add.commute)
  moreover have "0 < length (sh_buf sh)"
    using s(2) by (simp add: hdr_ok_def)
  ultimately show ?thesis
    using s in_place_set [OF s(2) refl, of 0] by (auto simp: sdsclear_def put_char_Some)
qed

lemma sdsIncrLen_ok:
  assumes "sds_wf h" "strs h s = Some sh" "- sh_len sh \<le> incr" "incr \<le> INT_MAX"
  shows "if incr \<le> sh_free sh
    then \<exists>sh'. sdsIncrLen s incr h = Some (Returns (put_sds s sh' h)) \<and>
      in_place h s sh sh' (take (nat (sh_len sh + incr)) (sh_buf sh))
    else sdsIncrLen s incr h = Some Aborts"
proof -
  have s: "get_sds h s = Some sh" "hdr_ok h s sh"
    using sds_wfD [OF assms(1,2)] by simp_all
  have b: "0 \<le> sh_len sh" "0 \<le> sh_free sh" "sh_len sh + sh_free sh \<le> INT_MAX"
    "length (sh_buf sh) = Suc (nat (sh_len sh + sh_free sh))"
    using s(2) by (simp_all add: hdr_ok_def)
  show ?thesis
  proof (cases "incr \<le> sh_free sh")
    case True
    define n where "n = nat (sh_len sh + incr)"
    have n: "sh_len sh + incr = int n" "n < length (sh_buf sh)" "sh_free sh - incr = sh_len sh + sh_free sh - int n"
      using b assms(3) True by (simp_all add: n_def)
    have "int_chk (sh_len sh + incr) = Some (int n)" "int_chk (sh_free sh - incr) = Some (sh_len sh + sh_free sh - int n)"
      "sh_len sh + sh_free sh - int n \<ge> 0"
      using b n(1,3) assms(3) True by (simp_all add: int_chk_def int_ok_def INT_MIN_def)
    then show ?thesis
      using True s n(2) in_place_set [OF s(2) refl n(2) refl] b
      by (auto simp: sdsIncrLen_def put_char_Some n(1))
  qed (simp add: sdsIncrLen_def s(1))
qed

lemma c_string_hdr:
  assumes "hdr_ok h s sh"
  shows "\<exists>u. c_string (sh_buf sh) = Some u \<and> length u \<le> nat (sh_len sh) \<and> u = takeWhile (\<lambda>c. c \<noteq> NUL) (sh_text sh)"
proof -
  have L: "nat (sh_len sh) < length (sh_buf sh)" "sh_buf sh ! nat (sh_len sh) = NUL"
    using nat_length_ok [OF assms] assms by (simp_all add: hdr_ok_def)
  have split: "sh_buf sh = sh_text sh @ NUL # drop (Suc (nat (sh_len sh))) (sh_buf sh)"
    using id_take_nth_drop [OF L(1)] L(2) by (simp add: sh_text_def)
  have "NUL \<in> set (sh_buf sh)"
    using L nth_mem by metis
  moreover have "takeWhile (\<lambda>c. c \<noteq> NUL) (sh_buf sh) = takeWhile (\<lambda>c. c \<noteq> NUL) (sh_text sh)"
    by (subst split) (simp add: takeWhile_tail)
  moreover have "length (takeWhile (\<lambda>c. c \<noteq> NUL) (sh_text sh)) \<le> nat (sh_len sh)"
    using length_takeWhile_le [of _ "sh_text sh"] length_sh_text [OF assms] by metis
  ultimately show ?thesis
    by (simp add: c_string_def)
qed

lemma sdshdr_update:
  "sh\<lparr>sh_free := a, sh_len := b\<rparr> = \<lparr>sh_len = b, sh_free = a, sh_buf = sh_buf sh\<rparr>"
  by (cases sh) simp

lemma sdsupdatelen_ok:
  assumes "sds_wf h" "strs h s = Some sh"
  shows "\<exists>sh'. sdsupdatelen s h = Some (put_sds s sh' h) \<and> in_place h s sh sh' (takeWhile (\<lambda>c. c \<noteq> NUL) (sh_text sh))"
proof -
  have s: "get_sds h s = Some sh" "hdr_ok h s sh"
    using sds_wfD [OF assms] by simp_all
  have b: "0 \<le> sh_len sh" "0 \<le> sh_free sh" "sh_len sh + sh_free sh \<le> INT_MAX"
    using s(2) by (simp_all add: hdr_ok_def)
  obtain u where u: "c_string (sh_buf sh) = Some u" "length u \<le> nat (sh_len sh)"
    "u = takeWhile (\<lambda>c. c \<noteq> NUL) (sh_text sh)"
    using c_string_hdr [OF s(2)] by blast
  define n where "n = length u"
  have n: "int n \<le> sh_len sh" "n \<le> 2147483647" "n < length (sh_buf sh)"
    using u(2) b nat_length_ok [OF s(2)] by (simp_all add: n_def INT_MAX_def)
  have ln: "int_of_size (of_nat n) = int n"
    using n(2) by (subst int_of_size_ok) (simp_all add: unat_of_nat_ok)
  have ck: "int_chk (sh_len sh - int n) = Some (sh_len sh - int n)"
    "int_chk (sh_free sh + (sh_len sh - int n)) = Some (sh_len sh + sh_free sh - int n)"
    using b n(1) by (simp_all add: int_chk_def int_ok_def INT_MIN_def)
  have nul: "sh_buf sh ! n = NUL" and tk: "take n (sh_buf sh) = u"
  proof -
    have "NUL \<in> set (sh_buf sh)"
      using u(1) by (simp add: c_string_def split: if_splits)
    then have "takeWhile (\<lambda>c. c \<noteq> NUL) (sh_buf sh) = u" "n < length (sh_buf sh)"
      using u(1) n(3) by (simp_all add: c_string_def)
    then show "sh_buf sh ! n = NUL" "take n (sh_buf sh) = u"
      using nth_length_takeWhile [of "\<lambda>c. c \<noteq> NUL" "sh_buf sh"] takeWhile_eq_take [of "\<lambda>c. c \<noteq> NUL" "sh_buf sh"]
      by (auto simp: n_def)
  qed
  have "(sh_buf sh)[n := NUL] = sh_buf sh"
    using nul by (metis list_update_id)
  then have "in_place h s sh \<lparr>sh_len = int n, sh_free = sh_len sh + sh_free sh - int n, sh_buf = sh_buf sh\<rparr> u"
    using in_place_set [OF s(2) refl n(3) tk] by simp
  moreover have "sdsupdatelen s h = Some (put_sds s \<lparr>sh_len = int n, sh_free = sh_len sh + sh_free sh - int n, sh_buf = sh_buf sh\<rparr> h)"
    using s(1) u(1) ln ck by (simp add: sdsupdatelen_def sdshdr_update Let_def flip: n_def)
  ultimately show ?thesis
    using u(3) by blast
qed

end
