(* ===== verification/Nc_Sds_Edit.thy ===== *)
theory Nc_Sds_Edit
  imports Nc_Sds_Correct
begin

text \<open>
  The operations that overwrite, cut, map and compare strings: each is shown to change the text by
  the list function it is meant to compute.
\<close>

lemma moved_in_place:
  assumes "moved h s q h1 t1" "in_place h1 q sh1 sh2 t2"
  shows "moved h s q (put_sds q sh2 h1) t2"
  using moved_update [OF assms(1)] assms(2) by (simp add: in_place_def)

lemma hdr_tot:
  assumes "hdr_ok h s sh"
  shows "int_chk (sh_len sh + sh_free sh) = Some (sh_len sh + sh_free sh)"
    "int_chk (sh_free sh + sh_len sh) = Some (sh_len sh + sh_free sh)"
  using assms by (simp_all add: hdr_ok_def int_chk_def int_ok_def INT_MIN_def add.commute)

lemma int_of_diff:
  assumes "hdr_ok h s sh" "int n \<le> sh_len sh + sh_free sh"
  shows "int_of_size (size_of_int (sh_len sh + sh_free sh) - size_of_int (int n)) = sh_len sh + sh_free sh - int n"
  using assms by (simp add: size_of_int_hom hdr_ok_def int_of_size_int INT_MIN_def INT_MAX_def)

lemma replicate_update [simp]: "(replicate n x)[i := x] = replicate n x"
  by (induction n arbitrary: i) (auto split: nat.split)

lemma len_of_unat: "(n :: size_t) = size_of_int (int (unat n))"
  by (simp add: size_of_int_def)

subsection \<open>Overwriting\<close>

lemma sdsgrowzero_ok:
  assumes "sds_wf h" "strs h s = Some sh" "unat n \<le> 1073741824" "nat (sh_len sh) \<le> 1073741824"
  shows "\<exists>q h'. sdsgrowzero s n h = Some (q, h') \<and>
    (q = NULL \<and> unchanged h h' \<and> \<not> roomy 1 h \<or>
     q \<noteq> NULL \<and> moved h s q h' (sh_text sh @ replicate (unat n - length (sh_text sh)) NUL) \<and>
       (\<forall>k. roomy (Suc k) h \<longrightarrow> roomy k h'))"
proof -
  have s: "get_sds h s = Some sh" "hdr_ok h s sh" "s \<noteq> NULL"
    using sds_wfD [OF assms(1,2)] by simp_all
  note u = unat_len [OF s(2)]
  define L len where "L = nat (sh_len sh)" and "len = size_of_int (sh_len sh)"
  have L: "length (sh_text sh) = L" "unat len = L" "sdslen s h = Some len" "sh_len sh = int L"
    using length_sh_text [OF s(2)] u(1) s by (simp_all add: L_def len_def sdslen_def hdr_ok_def)
  show ?thesis
  proof (cases "n \<le> len")
    case True
    then have "unat n \<le> L"
      using L by (simp add: word_le_nat_alt)
    then show ?thesis
      using moved_refl [OF assms(1,2)] True L s(3) by (auto simp: sdsgrowzero_def dest: roomy_Suc)
  next
    case False
    then have n: "L < unat n" "unat (n - len) = unat n - L" "unat (n - len + 1) = Suc (unat n - L)"
      using L assms(3) by (simp_all add: word_le_nat_alt unat_sub_ok unat_add_ok)
    obtain q h1 where r: "sdsMakeRoomFor s (n - len) h = Some (q, h1)"
      "q = NULL \<and> unchanged h h1 \<and> \<not> roomy 1 h \<or>
       q \<noteq> NULL \<and> moved h s q h1 (sh_text sh) \<and>
         (\<exists>sh'. strs h1 q = Some sh' \<and> sh_len sh' = sh_len sh \<and> unat n - L \<le> nat (sh_free sh')) \<and>
         (\<forall>k. roomy (Suc k) h \<longrightarrow> roomy k h1)"
      using room_ok [OF assms(1,2), of "n - len"] n(1,2) assms(3) by (auto simp: L_def)
    show ?thesis
    proof (cases "q = NULL")
      case True
      then show ?thesis
        using r L False by (simp add: sdsgrowzero_def)
    next
      case q: False
      then obtain sh1 where d: "moved h s q h1 (sh_text sh)" "\<forall>k. roomy (Suc k) h \<longrightarrow> roomy k h1"
        "strs h1 q = Some sh1" "sh_len sh1 = sh_len sh" "unat n - L \<le> nat (sh_free sh1)"
        using r(2) by auto
      have s1: "get_sds h1 q = Some sh1" "hdr_ok h1 q sh1"
        using d(1,3) sds_wfD [of h1 q sh1] by (simp_all add: moved_def)
      have t1: "take L (sh_buf sh1) = sh_text sh"
        using d(1,3,4) by (auto simp: moved_def sh_text_def L_def)
      have lb: "length (sh_buf sh1) = Suc (L + nat (sh_free sh1))" "0 \<le> sh_free sh1"
        using unat_len(5) [OF s1(2)] d(4) s1(2) by (simp_all add: L_def hdr_ok_def)
      define b where "b = take L (sh_buf sh1) @ replicate (Suc (unat n - L)) NUL @ drop (Suc (unat n)) (sh_buf sh1)"
      have b: "length b = length (sh_buf sh1)" "unat n < length b" "b[unat n := NUL] = b"
        "take (unat n) b = sh_text sh @ replicate (unat n - L) NUL"
        using lb d(5) n(1) by (simp_all add: b_def list_update_append t1 L(1) replicate_app_Cons_same
          replicate_append_same [symmetric] del: replicate_Suc)
      define sh2 where "sh2 = \<lparr>sh_len = int (unat n), sh_free = sh_len sh1 + sh_free sh1 - int (unat n), sh_buf = b\<rparr>"
      have ip: "in_place h1 q sh1 sh2 (sh_text sh @ replicate (unat n - L) NUL)"
        using in_place_set [OF s1(2) b(1,2,4)] b(3) by (simp only: sh2_def)
      have le: "int (unat n) \<le> sh_len sh1 + sh_free sh1"
        using d(4,5) L(4) lb(2) by linarith
      have ln: "int_of_size n = int (unat n)"
        using assms(3) by (simp add: int_of_size_ok)
      have put: "put_chars (unat len) (replicate (unat (n - len + 1)) NUL) (sh_buf sh1) = Some b"
        using lb d(5) n by (simp add: put_chars_def b_def L(2))
      have "sdsgrowzero s n h = Some (q, put_sds q sh2 h1)"
        using r(1) L(3) False q s1(1) put hdr_tot(1) [OF s1(2)] int_of_diff [OF s1(2) le]
        by (simp add: sdsgrowzero_def Let_def ln sh2_def del: of_nat_unat)
      then show ?thesis
        using moved_in_place [OF d(1) ip] d(2) q L(1) by auto
    qed
  qed
qed

text \<open>\<open>sdscpylen\<close> makes room for the new text when the whole buffer, text and free space, is too small.\<close>

lemma cpy_room_ok:
  assumes "sds_wf h" "strs h s = Some sh" "nat (sh_len sh) + unat n \<le> 1073741824"
    and "tot = sh_len sh + sh_free sh"
    and "room = (if size_of_int tot < n then sdsMakeRoomFor s (n - size_of_int (sh_len sh)) h else Some (s, h))"
  shows "\<exists>q h1. room = Some (q, h1) \<and> (q = NULL \<and> unchanged h h1 \<and> \<not> roomy 1 h \<or>
      q \<noteq> NULL \<and> moved h s q h1 (sh_text sh) \<and>
      (\<exists>sh'. strs h1 q = Some sh' \<and> int (unat n) \<le> sh_len sh' + sh_free sh') \<and>
      (\<forall>k. roomy (Suc k) h \<longrightarrow> roomy k h1))"
proof -
  have s: "get_sds h s = Some sh" "hdr_ok h s sh" "s \<noteq> NULL"
    using sds_wfD [OF assms(1,2)] by simp_all
  note u = unat_len [OF s(2)] and tot_def = assms(4) and room_def = assms(5)
  have p: "0 \<le> sh_len sh" "0 \<le> sh_free sh" "tot \<le> INT_MAX"
    using s(2) by (simp_all add: hdr_ok_def tot_def)
  have ut: "unat (size_of_int tot) = nat tot"
    using p by (simp add: unat_size_of_int tot_def)
  show ?thesis
  proof (cases "size_of_int tot < n")
    case True
    then have n: "nat (sh_len sh) \<le> unat n"
      using ut p by (simp add: word_less_nat_alt tot_def)
    have "unat (n - size_of_int (sh_len sh)) = unat n - nat (sh_len sh)"
      using n u(1) by (simp add: unat_sub_ok)
    moreover obtain q h1 where r: "room = Some (q, h1)"
      "q = NULL \<and> unchanged h h1 \<and> \<not> roomy 1 h \<or>
       q \<noteq> NULL \<and> moved h s q h1 (sh_text sh) \<and>
         (\<exists>sh'. strs h1 q = Some sh' \<and> sh_len sh' = sh_len sh \<and> unat n - nat (sh_len sh) \<le> nat (sh_free sh')) \<and>
         (\<forall>k. roomy (Suc k) h \<longrightarrow> roomy k h1)"
      using room_ok [OF assms(1,2), of "n - size_of_int (sh_len sh)"] calculation assms(3) n True
      by (auto simp: room_def)
    moreover have "int (unat n) \<le> sh_len sh' + sh_free sh'"
      if "strs h1 q = Some sh'" "sh_len sh' = sh_len sh" "unat n - nat (sh_len sh) \<le> nat (sh_free sh')" "sds_wf h1" for sh'
      using that sds_wfD(3) [OF that(4,1)] p(1) by (simp add: hdr_ok_def del: of_nat_unat) linarith
    ultimately show ?thesis
      by (auto simp: moved_def)
  next
    case False
    then have "unat n \<le> nat tot"
      using ut by (simp add: word_less_nat_alt)
    moreover have "int (nat tot) = tot"
      using p by (simp add: tot_def)
    ultimately have "int (unat n) \<le> tot"
      by linarith
    then show ?thesis
      using False moved_refl [OF assms(1,2)] assms(2) s(3)
      by (auto simp: room_def tot_def dest: roomy_Suc)
  qed
qed

lemma sdscpylen_ok:
  assumes "sds_wf h" "strs h s = Some sh" "unat n \<le> length t" "nat (sh_len sh) + unat n \<le> 1073741824"
  shows "\<exists>q h'. sdscpylen s t n h = Some (q, h') \<and>
    (q = NULL \<and> unchanged h h' \<and> \<not> roomy 1 h \<or>
     q \<noteq> NULL \<and> moved h s q h' (take (unat n) t) \<and> (\<forall>k. roomy (Suc k) h \<longrightarrow> roomy k h'))"
proof -
  have s: "get_sds h s = Some sh" "hdr_ok h s sh" "s \<noteq> NULL"
    using sds_wfD [OF assms(1,2)] by simp_all
  define tot where "tot = sh_len sh + sh_free sh"
  define room where "room = (if size_of_int tot < n then sdsMakeRoomFor s (n - size_of_int (sh_len sh)) h else Some (s, h))"
  obtain q h1 where r: "room = Some (q, h1)" "q = NULL \<and> unchanged h h1 \<and> \<not> roomy 1 h \<or>
      q \<noteq> NULL \<and> moved h s q h1 (sh_text sh) \<and>
      (\<exists>sh'. strs h1 q = Some sh' \<and> int (unat n) \<le> sh_len sh' + sh_free sh') \<and>
      (\<forall>k. roomy (Suc k) h \<longrightarrow> roomy k h1)"
    using cpy_room_ok [OF assms(1,2,4) tot_def room_def] by blast
  have run: "sdscpylen s t n h = do { (q, h1) \<leftarrow> room;
     if q = NULL then Some (NULL, h1)
     else do {
       sh \<leftarrow> get_sds h1 q;
       tot \<leftarrow> int_chk (sh_free sh + sh_len sh);
       src \<leftarrow> get_chars 0 (unat n) t;
       b \<leftarrow> put_chars 0 src (sh_buf sh);
       b1 \<leftarrow> put_char (unat n) NUL b;
       Some (q, put_sds q \<lparr>sh_len = int_of_size n, sh_free = int_of_size (size_of_int tot - n),
         sh_buf = b1\<rparr> h1)
     } }"
    using s(1) hdr_tot(2) [OF s(2)] by (simp add: sdscpylen_def room_def tot_def)
  show ?thesis
  proof (cases "q = NULL")
    case True
    then show ?thesis
      using r run by simp
  next
    case False
    then obtain sh1 where d: "moved h s q h1 (sh_text sh)" "\<forall>k. roomy (Suc k) h \<longrightarrow> roomy k h1"
      "strs h1 q = Some sh1" "int (unat n) \<le> sh_len sh1 + sh_free sh1"
      using r(2) by auto
    have s1: "get_sds h1 q = Some sh1" "hdr_ok h1 q sh1"
      using d(1,3) sds_wfD [of h1 q sh1] by (simp_all add: moved_def)
    define b where "b = take (unat n) t @ drop (unat n) (sh_buf sh1)"
    have lb: "length (sh_buf sh1) = Suc (nat (sh_len sh1 + sh_free sh1))" "unat n \<le> nat (sh_len sh1 + sh_free sh1)"
      using s1(2) d(4) by (simp_all add: hdr_ok_def le_nat_iff)
    have b: "length b = length (sh_buf sh1)" "unat n < length b" "take (unat n) b = take (unat n) t"
      using lb assms(3) by (simp_all add: b_def)
    define sh2 where "sh2 = \<lparr>sh_len = int (unat n), sh_free = sh_len sh1 + sh_free sh1 - int (unat n), sh_buf = b[unat n := NUL]\<rparr>"
    have ln: "int_of_size n = int (unat n)"
      using assms(4) by (simp add: int_of_size_ok)
    have "int_of_size (size_of_int (sh_len sh1 + sh_free sh1) - n) = sh_len sh1 + sh_free sh1 - int (unat n)"
      using int_of_diff [OF s1(2) d(4)] by (simp only: flip: len_of_unat)
    then have "sdscpylen s t n h = Some (q, put_sds q sh2 h1)"
      using run r(1) False s1(1) hdr_tot(2) [OF s1(2)] lb assms(3) b
      by (simp add: ln get_chars_Some put_chars_Some put_char_Some sh2_def b_def del: of_nat_unat)
    then show ?thesis
      using moved_in_place [OF d(1) in_place_set [OF s1(2) b]] d(2) False by (auto simp: sh2_def)
  qed
qed

text \<open>
  \<open>sdsRemoveFreeSpace\<close> leaves no free space and the same text when the block can be reallocated; when
  it cannot, the null pointer that \<open>realloc\<close> returned is written through.
\<close>

lemma sdsRemoveFreeSpace_ok:
  assumes "sds_wf h" "strs h s = Some sh"
  shows "if fst (the (sds_realloc s (sizeof_hdr + size_of_int (sh_len sh) + 1) h)) = NULL
    then sdsRemoveFreeSpace s h = None \<and> \<not> roomy 1 h
    else \<exists>q h' sh'. sdsRemoveFreeSpace s h = Some (q, h') \<and> moved h s q h' (sh_text sh) \<and>
      strs h' q = Some sh' \<and> sh_free sh' = 0 \<and> length (sh_buf sh') = Suc (length (sh_text sh)) \<and>
      (\<forall>k. roomy (Suc k) h \<longrightarrow> roomy k h')"
proof -
  have s: "get_sds h s = Some sh" "hdr_ok h s sh"
    using sds_wfD [OF assms] by simp_all
  note u = unat_len [OF s(2)]
  define n where "n = sizeof_hdr + size_of_int (sh_len sh) + 1"
  define L where "L = nat (sh_len sh)"
  have un: "unat n = 9 + L"
    using u(1,3) by (simp add: n_def L_def sizeof_hdr_def unat_add_ok)
  have L: "sh_len sh = int L" "L < length (sh_buf sh)" "L \<le> 2147483647" "sh_buf sh ! L = NUL"
    using s(2) nat_length_ok [OF s(2)] u(3) by (simp_all add: hdr_ok_def L_def)
  obtain q h1 where r: "sds_realloc s n h = Some (q, h1)"
    "q = NULL \<and> unchanged h h1 \<and> \<not> roomy 1 h \<or>
       q \<noteq> NULL \<and> (q = s \<or> strs h q = None \<and> block_size h (q - sizeof_hdr) = None) \<and>
       strs h1 = (strs h)(s := None, q \<mapsto> sh\<lparr>sh_buf := resize h (Suc L) (sh_buf sh)\<rparr>) \<and>
       vecs h1 = vecs h \<and> heap_ok h1 \<and> vecs h (q - sizeof_hdr) = None \<and>
       block_size h1 = (block_size h)(s - sizeof_hdr := None, q - sizeof_hdr \<mapsto> 9 + L) \<and>
       (\<forall>k. roomy (Suc k) h \<longrightarrow> roomy k h1)"
    using sds_realloc_ok [OF assms, of n] un L(3) by (auto simp: slot_size_def)
  show ?thesis
  proof (cases "q = NULL")
    case True
    then show ?thesis
      using r s(1) by (simp add: sdsRemoveFreeSpace_def get_sds_def flip: n_def)
  next
    case False
    then have d: "q = s \<or> strs h q = None \<and> block_size h (q - sizeof_hdr) = None"
       "strs h1 = (strs h)(s := None, q \<mapsto> sh\<lparr>sh_buf := resize h (Suc L) (sh_buf sh)\<rparr>)"
       "vecs h1 = vecs h" "heap_ok h1" "vecs h (q - sizeof_hdr) = None"
       "block_size h1 = (block_size h)(s - sizeof_hdr := None, q - sizeof_hdr \<mapsto> 9 + L)"
       "\<forall>k. roomy (Suc k) h \<longrightarrow> roomy k h1"
      using r(2) by blast+
    define sh' where "sh' = sh\<lparr>sh_buf := resize h (Suc L) (sh_buf sh), sh_free := 0\<rparr>"
    have hd: "hdr_ok h1 q sh'"
      using d(6) L by (simp add: hdr_ok_def sh'_def INT_MAX_def resize_nth)
    have tx: "sh_text sh' = sh_text sh"
      using L by (simp add: sh_text_def sh'_def take_resize)
    have wf: "sds_wf (put_sds q sh' h1)"
      using realloc_wf [OF assms d(2-6) hd] .
    have mv: "moved h s q (put_sds q sh' h1) (sh_text sh)"
      using wf False d(1,2,3,6) tx by (auto simp: moved_def)
    have "sdsRemoveFreeSpace s h = Some (q, put_sds q sh' h1)"
      using r(1) s(1) d(2) False by (simp add: sdsRemoveFreeSpace_def get_sds_def sh'_def flip: n_def)
    moreover have "length (sh_buf sh') = Suc (length (sh_text sh))"
      using length_sh_text [OF s(2)] by (simp add: sh'_def L_def)
    ultimately show ?thesis
      using False r(1) mv d(7) by (auto simp: sh'_def simp flip: n_def)
  qed
qed

text \<open>What \<open>sdsAllocSize\<close> reports is the size of the block.\<close>

lemma sdsAllocSize_ok:
  assumes "sds_wf h" "strs h s = Some sh"
  shows "\<exists>n. sdsAllocSize s h = Some n \<and> block_size h (s - sizeof_hdr) = Some (unat n)"
proof -
  have s: "get_sds h s = Some sh" "hdr_ok h s sh"
    using sds_wfD [OF assms] by simp_all
  have "unat (sizeof_hdr + size_of_int (sh_len sh) + size_of_int (sh_free sh) + 1) = 8 + length (sh_buf sh)"
    using unat_len [OF s(2)] by (simp add: sizeof_hdr_def unat_add_ok)
  then show ?thesis
    using s by (simp add: sdsAllocSize_def hdr_ok_def)
qed
subsection \<open>Mapping characters\<close>

lemma for_chars_eq: "n \<le> length b \<Longrightarrow> for_chars f n b = Some (map f (take n b) @ drop n b)"
proof (induction n)
  case (Suc n)
  have "drop n b = b ! n # drop (Suc n) b" "map f (take (Suc n) b) = map f (take n b) @ [f (b ! n)]"
    using Suc.prems by (simp_all add: Cons_nth_drop_Suc take_Suc_conv_app_nth)
  then show ?case
    using Suc by (simp add: at_def put_char_def nth_append list_update_append)
qed simp

lemma map_sds_ok:
  assumes "sds_wf h" "strs h s = Some sh"
  shows "\<exists>sh'. map_sds f s h = Some (put_sds s sh' h) \<and> in_place h s sh sh' (map f (sh_text sh))"
proof -
  have s: "get_sds h s = Some sh" "hdr_ok h s sh"
    using sds_wfD [OF assms] by simp_all
  define L where "L = nat (sh_len sh)"
  define sh' where "sh' = sh\<lparr>sh_buf := map f (take L (sh_buf sh)) @ drop L (sh_buf sh)\<rparr>"
  have L: "L < length (sh_buf sh)" "sh_buf sh ! L = NUL"
    using nat_length_ok [OF s(2)] s(2) by (simp_all add: L_def hdr_ok_def)
  have "map_sds f s h = Some (put_sds s sh' h)"
    using s(1) L by (simp add: map_sds_def for_chars_eq sh'_def flip: L_def)
  moreover have "hdr_ok h s sh'"
    using s(2) L by (simp add: hdr_ok_def sh'_def nth_append flip: L_def)
  moreover have "sh_text sh' = map f (sh_text sh)"
    using L by (simp add: sh_text_def sh'_def flip: L_def)
  ultimately show ?thesis
    by (auto simp: in_place_def sh'_def)
qed

text \<open>\<open>sdsmapchars\<close> replaces by the pair of the first position where the character stands in \<open>from\<close>.\<close>

definition mapped_char :: "string \<Rightarrow> string \<Rightarrow> char \<Rightarrow> char" where
  "mapped_char f g c = (case map_of (zip f g) c of None \<Rightarrow> c | Some d \<Rightarrow> d)"

lemma map_char_ok:
  assumes "i + n \<le> length f" "i + n \<le> length g"
  shows "map_char n f g i c = Some (mapped_char (take n (drop i f)) (take n (drop i g)) c)"
  using assms
proof (induction n arbitrary: i)
  case (Suc n)
  then have "drop i f = f ! i # drop (Suc i) f" "drop i g = g ! i # drop (Suc i) g"
    by (simp_all add: Cons_nth_drop_Suc)
  then show ?case
    using Suc by (simp add: at_def mapped_char_def)
qed (simp add: mapped_char_def)

lemma map_chars_total: "(\<And>c. f c = Some (g c)) \<Longrightarrow> map_chars f n b = for_chars g n b"
  by (induction n) simp_all

lemma sdsmapchars_ok:
  assumes "sds_wf h" "strs h s = Some sh" "unat n \<le> length f" "unat n \<le> length g"
  shows "\<exists>sh'. sdsmapchars s f g n h = Some (s, put_sds s sh' h) \<and>
    in_place h s sh sh' (map (mapped_char (take (unat n) f) (take (unat n) g)) (sh_text sh))"
proof -
  have "sdsmapchars s f g n h = map_option (Pair s) (map_sds (mapped_char (take (unat n) f) (take (unat n) g)) s h)"
    using map_chars_total [OF map_char_ok [of 0 "unat n" f g]] assms(3,4)
    by (simp add: sdsmapchars_def map_sds_def map_option_bind comp_def)
  then show ?thesis
    using map_sds_ok [OF assms(1,2), of "mapped_char (take (unat n) f) (take (unat n) g)"] by auto
qed

subsection \<open>Comparison\<close>

definition byte_less :: "(char \<times> char) set" where
  "byte_less = {(x, y). char_code x < char_code y}"

lemma char_code_inj: "char_code c = char_code d \<longleftrightarrow> c = d"
  by (simp add: char_code_def)

lemma memcmp_take: "memcmp (take (min (length a) (length b)) a) (take (min (length a) (length b)) b) = memcmp a b"
  by (induction a b rule: memcmp.induct) auto

lemma memcmp_eq_len: "length a = length b \<Longrightarrow> memcmp a b = 0 \<longleftrightarrow> a = b"
  by (induction a b rule: memcmp.induct) (auto simp: char_code_inj)

lemma cmp_text:
  fixes a b :: string
  defines "r \<equiv> if memcmp a b = 0 then int (length a) - int (length b) else memcmp a b"
  shows "r = 0 \<longleftrightarrow> a = b" "r < 0 \<longleftrightarrow> (a, b) \<in> lexord byte_less"
  unfolding r_def by (induction a b rule: memcmp.induct)
    (auto simp: char_code_inj byte_less_def lexord_cons_cons neq_Nil_conv split: if_splits)

text \<open>The lexicographic order by unsigned bytes is a linear order of the texts.\<close>

datatype byte_string = Bytes (bytes_of: string)

instantiation byte_string :: linorder
begin

definition less_byte_string :: "byte_string \<Rightarrow> byte_string \<Rightarrow> bool" where
  "less_byte_string a b \<longleftrightarrow> (bytes_of a, bytes_of b) \<in> lexord byte_less"

definition less_eq_byte_string :: "byte_string \<Rightarrow> byte_string \<Rightarrow> bool" where
  "less_eq_byte_string a b \<longleftrightarrow> a = b \<or> (bytes_of a, bytes_of b) \<in> lexord byte_less"

instance
proof
  have tr: "trans (lexord byte_less)"
    by (rule lexord_transI) (auto simp: trans_def byte_less_def)
  have ir: "(x, x) \<notin> lexord byte_less" for x
    by (rule lexord_irreflexive) (simp add: byte_less_def)
  have asym: "(y, x) \<notin> lexord byte_less" if "(x, y) \<in> lexord byte_less" for x y
    using transD [OF tr that] ir by blast
  have lin: "(x, y) \<in> lexord byte_less \<or> x = y \<or> (y, x) \<in> lexord byte_less" for x y
    by (rule lexord_linear) (auto simp: byte_less_def simp flip: char_code_inj)
  fix a b c :: byte_string
  show "a < b \<longleftrightarrow> a \<le> b \<and> \<not> b \<le> a"
    using ir asym by (auto simp: less_byte_string_def less_eq_byte_string_def)
  show "a \<le> a"
    by (simp add: less_eq_byte_string_def)
  show "a \<le> b \<Longrightarrow> b \<le> c \<Longrightarrow> a \<le> c"
    using transD [OF tr] by (auto simp: less_eq_byte_string_def)
  show "a \<le> b \<Longrightarrow> b \<le> a \<Longrightarrow> a = b"
    using asym by (auto simp: less_eq_byte_string_def)
  show "a \<le> b \<or> b \<le> a"
    using lin [of "bytes_of a" "bytes_of b"] by (auto simp: less_eq_byte_string_def byte_string.expand)
qed

end

lemma Bytes_less: "Bytes a < Bytes b \<longleftrightarrow> (a, b) \<in> lexord byte_less"
  by (simp add: less_byte_string_def)

lemma sdscmp_ok:
  assumes "sds_wf h" "strs h s = Some sh" "strs h t = Some th"
  shows "\<exists>r. sdscmp s t h = Some r \<and> (r = 0 \<longleftrightarrow> sh_text sh = sh_text th) \<and>
    (r < 0 \<longleftrightarrow> (sh_text sh, sh_text th) \<in> lexord byte_less)"
proof -
  have s: "get_sds h s = Some sh" "hdr_ok h s sh" and t: "get_sds h t = Some th" "hdr_ok h t th"
    using sds_wfD [OF assms(1,2)] sds_wfD [OF assms(1,3)] by simp_all
  note us = unat_len [OF s(2)] and ut = unat_len [OF t(2)]
  define l1 l2 where "l1 = size_of_int (sh_len sh)" and "l2 = size_of_int (sh_len th)"
  have l: "sdslen s h = Some l1" "sdslen t h = Some l2"
    "unat l1 = length (sh_text sh)" "unat l2 = length (sh_text th)"
    using s t us ut length_sh_text by (simp_all add: sdslen_def l1_def l2_def)
  define m where "m = min (length (sh_text sh)) (length (sh_text th))"
  have m: "unat (if l1 < l2 then l1 else l2) = m"
    using l by (auto simp: m_def word_less_nat_alt)
  have mle: "m \<le> nat (sh_len sh)" "m \<le> nat (sh_len th)"
    using length_sh_text [OF s(2)] length_sh_text [OF t(2)] by (simp_all add: m_def)
  then have "get_chars 0 m (sh_buf sh) = Some (take m (sh_text sh))" "get_chars 0 m (sh_buf th) = Some (take m (sh_text th))"
    using nat_length_ok [OF s(2)] nat_length_ok [OF t(2)] by (simp_all add: get_chars_Some sh_text_def)
  moreover have "memcmp (take m (sh_text sh)) (take m (sh_text th)) = memcmp (sh_text sh) (sh_text th)"
    by (simp add: m_def memcmp_take)
  moreover have "int_of_size (l1 - l2) = int (length (sh_text sh)) - int (length (sh_text th))"
    using s(2) t(2) length_sh_text [OF s(2)] length_sh_text [OF t(2)]
    by (simp add: l1_def l2_def size_of_int_hom hdr_ok_def int_of_size_int INT_MIN_def INT_MAX_def)
  ultimately have "sdscmp s t h = Some (if memcmp (sh_text sh) (sh_text th) = 0
      then int (length (sh_text sh)) - int (length (sh_text th)) else memcmp (sh_text sh) (sh_text th))"
    using s(1) t(1) l(1,2) m by (simp add: sdscmp_def Let_def)
  then show ?thesis
    using cmp_text by blast
qed
subsection \<open>Trimming\<close>

definition trim_text :: "string \<Rightarrow> string \<Rightarrow> string" where
  "trim_text cset t = rev (dropWhile (strchr cset) (rev (dropWhile (strchr cset) t)))"

lemma at_nat [simp]: "at b (int k) = (if k < length b then Some (b ! k) else None)"
  by (simp add: at_def)

lemma trim_left_eq:
  "k \<le> n \<Longrightarrow> n \<le> length b \<Longrightarrow>
    trim_left cset b (int k) (int n - 1) = Some (int (k + length (takeWhile (strchr cset) (drop k (take n b)))))"
proof (induction "n - k" arbitrary: k)
  case 0
  then show ?case
    by (subst trim_left.simps) simp
next
  case (Suc m)
  then have k: "k < n" "drop k (take n b) = b ! k # drop (Suc k) (take n b)"
    using Cons_nth_drop_Suc [of k "take n b"] by simp_all
  have "trim_left cset b (int (Suc k)) (int n - 1) =
      Some (int (Suc k + length (takeWhile (strchr cset) (drop (Suc k) (take n b)))))"
    by (rule Suc.hyps(1)) (use Suc k in simp_all)
  then show ?case
    using k Suc.prems by (subst trim_left.simps) (simp add: add.commute)
qed

text \<open>The scan from the right never looks at the first byte.\<close>

lemma trim_right_eq:
  "n < length b \<Longrightarrow> trim_right cset b 0 (int n) = Some (int (length (dropWhile (strchr cset) (rev (tl (take (Suc n) b))))))"
proof (induction n)
  case 0
  then show ?case
    by (subst trim_right.simps) (cases b, simp_all)
next
  case (Suc n)
  have t: "tl (take (Suc (Suc n)) b) = tl (take (Suc n) b) @ [b ! Suc n]"
    using Suc.prems by (cases b) (simp_all add: take_Suc_conv_app_nth)
  have "length (tl (take (Suc n) b)) = n" "nat (1 + int n) = Suc n"
    using Suc.prems by simp_all
  then show ?case
    using Suc by (subst trim_right.simps) (simp add: t at_def)
qed

text \<open>How the two positions give the text between them.\<close>

lemma trim_positions:
  fixes t :: string and P :: "char \<Rightarrow> bool"
  assumes "t \<noteq> []"
  defines "sp \<equiv> length (takeWhile P t)" and "ep \<equiv> length (dropWhile P (rev (tl t)))"
  defines "n \<equiv> if ep < sp then 0 else Suc ep - sp"
  shows "rev (dropWhile P (rev (dropWhile P t))) = take n (drop sp t)" "sp + n \<le> length t" "sp \<le> length t"
proof -
  show "sp \<le> length t"
    by (simp add: sp_def length_takeWhile_le)
  have dw: "dropWhile P t = drop sp t"
    by (simp add: sp_def dropWhile_eq_drop)
  have "rev (dropWhile P (rev (dropWhile P t))) = take n (drop sp t) \<and> sp + n \<le> length t"
  proof (cases "\<forall>c \<in> set t. P c")
    case True
    then have "ep = 0" "sp = length t" "dropWhile P t = []"
      using list.set_sel(2) [OF assms(1)]
      by (simp_all add: ep_def sp_def dropWhile_eq_Nil_conv takeWhile_eq_all_conv [THEN iffD2])
    then show ?thesis
      using assms(1) by (auto simp: n_def dest: set_dropWhileD)
  next
    case False
    obtain c t' where t: "t = c # t'"
      using assms(1) by (cases t) auto
    have K: "Suc ep = length (dropWhile P (rev t))"
    proof (cases "\<forall>d \<in> set t'. P d")
      case True
      then show ?thesis
        using False by (auto simp: ep_def t dropWhile_append)
    next
      case ex: False
      then show ?thesis
        by (auto simp: ep_def t dropWhile_append1)
    qed
    have ex: "\<exists>d \<in> set (drop sp t). \<not> P d"
      using False dw dropWhile_eq_Nil_conv [of P t] hd_dropWhile [of P t] hd_in_set [of "dropWhile P t"] by metis
    have "rev t = rev (drop sp t) @ rev (take sp t)"
      by (metis append_take_drop_id rev_append)
    then have "dropWhile P (rev t) = dropWhile P (rev (drop sp t)) @ rev (take sp t)"
      using ex by (auto simp: dropWhile_append1)
    then have K2: "Suc ep = length (dropWhile P (rev (drop sp t))) + sp"
      using K \<open>sp \<le> length t\<close> by simp
    have "dropWhile P (rev (drop sp t)) \<noteq> []"
      using ex by (auto simp: dropWhile_eq_Nil_conv)
    then have n: "n = length (dropWhile P (rev (drop sp t)))"
      using K2 by (cases "dropWhile P (rev (drop sp t))") (simp_all add: n_def)
    have "rev (dropWhile P (rev u)) = take (length (dropWhile P (rev u))) u" for u :: string
      by (simp add: dropWhile_eq_drop rev_drop)
    moreover have "sp + n \<le> length t"
      using n \<open>sp \<le> length t\<close> length_dropWhile_le [of P "rev (drop sp t)"] by simp
    ultimately show ?thesis
      by (simp add: dw n)
  qed
  then show "rev (dropWhile P (rev (dropWhile P t))) = take n (drop sp t)" "sp + n \<le> length t"
    by simp_all
qed

text \<open>Moving a part of the text to the front and cutting there.\<close>

lemma shift_in_place:
  fixes p n :: nat
  assumes "hdr_ok h s sh" "p + n \<le> length (sh_text sh)"
  defines "b \<equiv> take n (drop p (sh_buf sh)) @ drop n (sh_buf sh)"
  shows "in_place h s sh \<lparr>sh_len = int n, sh_free = sh_len sh + sh_free sh - int n, sh_buf = b[n := NUL]\<rparr>
      (take n (drop p (sh_text sh)))"
    "p + n \<le> length (sh_buf sh)" "n < length b"
    "int_of_size (size_of_int (sh_free sh) + (size_of_int (sh_len sh) - size_of_int (int n))) =
       sh_len sh + sh_free sh - int n"
proof -
  have L: "nat (sh_len sh) < length (sh_buf sh)" "length (sh_text sh) = nat (sh_len sh)"
    using nat_length_ok [OF assms(1)] length_sh_text [OF assms(1)] by simp_all
  show "p + n \<le> length (sh_buf sh)"
    using L assms(2) by simp
  have b: "length b = length (sh_buf sh)" "n < length b" "take n b = take n (drop p (sh_text sh))"
    using L assms(2) by (simp_all add: b_def sh_text_def drop_take min_absorb1)
  then show "in_place h s sh \<lparr>sh_len = int n, sh_free = sh_len sh + sh_free sh - int n, sh_buf = b[n := NUL]\<rparr>
      (take n (drop p (sh_text sh)))" "n < length b"
    using in_place_set [OF assms(1) b] by simp_all
  have "size_of_int (sh_free sh) + (size_of_int (sh_len sh) - size_of_int (int n)) =
      size_of_int (sh_len sh + sh_free sh) - size_of_int (int n)"
    by (simp add: size_of_int_def)
  moreover have "n \<le> nat (sh_len sh)" "0 \<le> sh_len sh" "0 \<le> sh_free sh"
    using assms(1,2) L by (simp_all add: hdr_ok_def)
  then have "int n \<le> sh_len sh" "0 \<le> sh_free sh"
    by (simp_all add: le_nat_iff)
  then have "int n \<le> sh_len sh + sh_free sh"
    by simp
  ultimately show "int_of_size (size_of_int (sh_free sh) + (size_of_int (sh_len sh) - size_of_int (int n))) =
       sh_len sh + sh_free sh - int n"
    using int_of_diff [OF assms(1)] by (simp only:)
qed

lemma sdstrim_ok:
  assumes "sds_wf h" "strs h s = Some sh"
  shows "\<exists>sh'. sdstrim s cset h = Some (put_sds s sh' h) \<and> in_place h s sh sh' (trim_text cset (sh_text sh))"
proof (cases "sh_text sh = []")
  case True
  have s: "get_sds h s = Some sh" "hdr_ok h s sh"
    using sds_wfD [OF assms] by simp_all
  then have l0: "sh_len sh = 0" "sh_buf sh \<noteq> []"
    using True length_sh_text [OF s(2)] by (auto simp: hdr_ok_def)
  have "trim_left cset (sh_buf sh) 0 (- 1) = Some 0" "trim_right cset (sh_buf sh) 0 (- 1) = Some (- 1)"
    by (subst trim_left.simps trim_right.simps, simp)+
  moreover have "int_of_size (size_of_int (sh_free sh)) = sh_free sh"
    using s(2) l0 by (simp add: hdr_ok_def int_of_size_of_int)
  moreover have "in_place h s sh \<lparr>sh_len = 0, sh_free = sh_free sh, sh_buf = (sh_buf sh)[0 := NUL]\<rparr> []"
    using in_place_set [OF s(2) refl, of 0] l0 by simp
  ultimately show ?thesis
    using s(1) l0 True by (auto simp: sdstrim_def put_char_Some trim_text_def size_of_int_def int_of_size_def)
next
  case False
  have s: "get_sds h s = Some sh" "hdr_ok h s sh"
    using sds_wfD [OF assms] by simp_all
  define t P where "t = sh_text sh" and "P = strchr cset"
  define sp ep where "sp = length (takeWhile P t)" and "ep = length (dropWhile P (rev (tl t)))"
  define n where "n = (if ep < sp then 0 else Suc ep - sp)"
  have L: "sh_len sh = int (length t)" "t = take (length t) (sh_buf sh)" "length t < length (sh_buf sh)" "0 < length t"
    using s(2) nat_length_ok [OF s(2)] length_sh_text [OF s(2)] False by (simp_all add: t_def sh_text_def hdr_ok_def)
  have pos: "trim_text cset t = take n (drop sp t)" "sp + n \<le> length t"
    using trim_positions [of t P] False unfolding trim_text_def t_def n_def sp_def ep_def P_def by auto
  have "trim_left cset (sh_buf sh) 0 (sh_len sh - 1) = Some (int sp)"
    using trim_left_eq [of 0 "length t" "sh_buf sh" cset] L by (simp add: sp_def P_def)
  moreover have "trim_right cset (sh_buf sh) 0 (sh_len sh - 1) = Some (int ep)"
    using trim_right_eq [of "length t - 1" "sh_buf sh" cset] L by (simp add: ep_def P_def of_nat_diff)
  moreover have "(if int sp > int ep then 0 else (int ep - int sp) + 1) = int n"
    by (auto simp: n_def)
  moreover have "unat (size_of_int (int n)) = n" "int_of_size (size_of_int (int n)) = int n"
    using pos(2) L(1) s(2) by (simp_all add: hdr_ok_def unat_size_of_int int_of_size_of_int)
  moreover note sh = shift_in_place [OF s(2), of sp n]
  ultimately have "sdstrim s cset h = Some (put_sds s \<lparr>sh_len = int n, sh_free = sh_len sh + sh_free sh - int n,
      sh_buf = (take n (drop sp (sh_buf sh)) @ drop n (sh_buf sh))[n := NUL]\<rparr> h)"
    using s(1) pos(2) by (cases "sp = 0") (simp_all add: sdstrim_def Let_def get_chars_Some put_chars_Some put_char_Some flip: t_def)
  then show ?thesis
    using sh(1) pos by (auto simp: t_def)
qed
subsection \<open>Ranges\<close>

text \<open>Negative positions count from the end; the end of the range is included.\<close>

definition range_pos :: "nat \<Rightarrow> int \<Rightarrow> int" where
  "range_pos l i = (if i < 0 then max 0 (int l + i) else i)"

definition range_text :: "string \<Rightarrow> int \<Rightarrow> int \<Rightarrow> string" where
  "range_text t i j =
     (let a = nat (range_pos (length t) i); e = nat (range_pos (length t) j + 1) in take (e - a) (drop a t))"

lemma from_end_eq:
  assumes "int_ok i" "int l \<le> INT_MAX"
  shows "from_end (size_of_int (int l)) i = range_pos l i"
  using assms by (auto simp: from_end_def range_pos_def size_of_int_hom int_of_size_int int_limits Let_def)

lemma range_len_eq:
  assumes "0 \<le> a" "a \<le> INT_MAX" "0 \<le> e" "e \<le> INT_MAX"
  shows "range_len a e = (if a = 0 \<and> e = INT_MAX then None else Some (if a > e then 0 else e - a + 1))"
  using assms by (auto simp: range_len_def int_chk_def int_ok_def INT_MIN_def INT_MAX_def)

text \<open>Clipping the range at the end of the text selects the characters of \<open>range_text\<close>.\<close>

lemma range_clip:
  assumes "l = length t" "int l \<le> INT_MAX" "a = range_pos l i" "e = range_pos l j"
    and "0 \<le> a" "a \<le> INT_MAX" "0 \<le> e"
  obtains p n where "(if (if a > e then 0 else e - a + 1) \<noteq> 0 then
          if a \<ge> int l then Some (0, a)
          else if e \<ge> int l then do { n2 \<leftarrow> range_len a (int l - 1); Some (n2, a) }
          else Some (if a > e then 0 else e - a + 1, a)
        else Some (0, 0)) = Some (int n, int p)"
    "take n (drop p t) = range_text t i j" "p + n \<le> l \<or> n = 0"
proof -
  have rt: "range_text t i j = take (nat (e + 1) - nat a) (drop (nat a) t)"
    by (simp add: range_text_def assms(1,3,4) Let_def)
  have rl: "range_len a (int l - 1) = Some (int l - a)" if "a < int l"
    using that assms(2,5,6) by (subst range_len_eq) auto
  consider "a > e" | "a \<le> e" "a \<ge> int l" | "a \<le> e" "a < int l" "e \<ge> int l" | "a \<le> e" "e < int l"
    by linarith
  then show thesis
  proof cases
    case 1
    then show thesis
      using assms(5-7) rt by (intro that [of 0 0]) simp_all
  next
    case 2
    then show thesis
      using assms(5-7) rt by (intro that [of 0 "nat a"]) (simp_all add: assms(1))
  next
    case 3
    then have "take (nat (e + 1) - nat a) (drop (nat a) t) = take (l - nat a) (drop (nat a) t)"
      using assms(5) by (simp add: assms(1))
    then show thesis
      using 3 assms(5-7) rt rl by (intro that [of "l - nat a" "nat a"]) (auto simp: of_nat_diff nat_le_iff)
  next
    case 4
    then show thesis
      using assms(5-7) rt by (intro that [of "nat (e + 1) - nat a" "nat a"]) (auto simp: nat_diff_distrib)
  qed
qed

lemma sdsrange_ok:
  assumes "sds_wf h" "strs h s = Some sh" "int_ok i" "int_ok j"
    and "\<not> (range_pos (length (sh_text sh)) i = 0 \<and> j = INT_MAX)"
  shows "\<exists>sh'. sdsrange s i j h = Some (put_sds s sh' h) \<and> in_place h s sh sh' (range_text (sh_text sh) i j)"
proof -
  have s: "get_sds h s = Some sh" "hdr_ok h s sh"
    using sds_wfD [OF assms(1,2)] by simp_all
  define l where "l = length (sh_text sh)"
  have l: "sh_len sh = int l" "int l \<le> INT_MAX" "sdslen s h = Some (size_of_int (int l))"
    using s length_sh_text [OF s(2)] by (simp_all add: l_def hdr_ok_def sdslen_def)
  show ?thesis
  proof (cases "l = 0")
    case True
    then have "put_sds s sh h = h"
      using assms(2) by (simp add: put_sds_def fun_upd_idem)
    moreover have "range_text (sh_text sh) i j = []" "sh_text sh = []"
      using True by (simp_all add: l_def range_text_def)
    ultimately show ?thesis
      using l(3) True s(2) by (intro exI [of _ sh]) (simp add: sdsrange_def size_of_int_hom in_place_def)
  next
    case False
    define a e where "a = range_pos l i" and "e = range_pos l j"
    have ae: "0 \<le> a" "a \<le> INT_MAX" "0 \<le> e" "e \<le> INT_MAX" "\<not> (a = 0 \<and> e = INT_MAX)"
      using assms(3-5) l(2) by (auto simp: a_def e_def range_pos_def int_limits simp flip: l_def)
    have nz: "size_of_int (int l) \<noteq> 0"
      using False l(2) by (metis unat_size_of_int nat_int of_nat_0_le_iff unsigned_0)
    have "size_of_int (int l) - 1 = size_of_int (int l - 1)"
      by (simp add: size_of_int_def)
    then have il: "int_of_size (size_of_int (int l)) = int l" "int_of_size (size_of_int (int l) - 1) = int l - 1"
      using l(2) False by (simp_all only:) (rule int_of_size_int; simp add: INT_MIN_def INT_MAX_def)+
    obtain p n where pn: "(if (if a > e then 0 else e - a + 1) \<noteq> 0 then
            if a \<ge> int l then Some (0, a)
            else if e \<ge> int l then do { n2 \<leftarrow> range_len a (int l - 1); Some (n2, a) }
            else Some (if a > e then 0 else e - a + 1, a)
          else Some (0, 0)) = Some (int n, int p)"
      "take n (drop p (sh_text sh)) = range_text (sh_text sh) i j" "p + n \<le> l \<or> n = 0"
      by (rule range_clip [OF l_def l(2) a_def e_def ae(1-3)])
    define b where "b = (if int p \<noteq> 0 \<and> int n \<noteq> 0 then take n (drop p (sh_buf sh)) @ drop n (sh_buf sh) else sh_buf sh)"
    define p' where "p' = (if n = 0 then 0 else p)"
    have p': "p' + n \<le> length (sh_text sh)" "take n (drop p' (sh_text sh)) = range_text (sh_text sh) i j"
      "b = take n (drop p' (sh_buf sh)) @ drop n (sh_buf sh)"
      using pn(2,3) by (auto simp: p'_def b_def simp flip: l_def)
    note sh = shift_in_place [OF s(2) p'(1)]
    have "(if int p \<noteq> 0 \<and> int n \<noteq> 0
             then do { src \<leftarrow> get_chars (nat (int p)) (nat (int n)) (sh_buf sh); put_chars 0 src (sh_buf sh) }
             else Some (sh_buf sh)) = Some b"
      using sh(2,3) by (auto simp: b_def p'_def get_chars_Some put_chars_Some split: if_splits)
    moreover have "from_end (size_of_int (int l)) i = a" "from_end (size_of_int (int l)) j = e"
      using from_end_eq assms(3,4) l(2) by (simp_all add: a_def e_def)
    moreover have "range_len a e = Some (if a > e then 0 else e - a + 1)"
      using range_len_eq [OF ae(1-4)] ae(5) by simp
    ultimately have "sdsrange s i j h = Some (put_sds s \<lparr>sh_len = int n, sh_free = sh_len sh + sh_free sh - int n,
        sh_buf = b[n := NUL]\<rparr> h)"
      using l(3) nz il s(1) pn(1) sh(3,4) p'(3)
      by (simp only: sdsrange_def Let_def Option.bind.bind_lunit if_False prod.case nat_int put_char_Some)
    then show ?thesis
      using sh(1) p' by auto
  qed
qed

end
