(* ===== verification/Nc_Sds_Text.thy ===== *)
theory Nc_Sds_Text
  imports Nc_Sds_Edit
begin

text \<open>
  Formatting, decimal numbers, quoting and the parser of quoted lines: the loops of
  \<open>sdscatvprintf\<close>, \<open>sdsfromlonglong\<close>, \<open>sdscatrepr\<close> and \<open>sdssplitargs\<close> against list functions, and
  the round trips between them.
\<close>

subsection \<open>Sequences of operations\<close>

lemma moved_trans:
  assumes "moved h s q h1 t1" "moved h1 q r h2 t2"
  shows "moved h s r h2 t2"
proof -
  obtain sh1 where s1: "strs h1 = (strs h)(s := None, q \<mapsto> sh1)" "q = s \<or> strs h q = None"
    "q = s \<or> block_size h (q - sizeof_hdr) = None" "vecs h1 = vecs h"
    using assms(1) by (auto simp: moved_def)
  obtain m1 where b1: "block_size h1 = (block_size h)(s - sizeof_hdr := None, q - sizeof_hdr \<mapsto> m1)"
    using assms(1) by (auto simp: moved_def)
  obtain sh2 where s2: "strs h2 = (strs h1)(q := None, r \<mapsto> sh2)" "r = q \<or> strs h1 r = None"
    "r = q \<or> block_size h1 (r - sizeof_hdr) = None" "vecs h2 = vecs h1" "sh_text sh2 = t2" "sds_wf h2" "r \<noteq> NULL"
    using assms(2) by (auto simp: moved_def)
  obtain m2 where b2: "block_size h2 = (block_size h1)(q - sizeof_hdr := None, r - sizeof_hdr \<mapsto> m2)"
    using assms(2) by (auto simp: moved_def)
  have "r = s \<or> strs h r = None" "r = s \<or> block_size h (r - sizeof_hdr) = None"
    using s1 s2(2,3) b1 by (auto split: if_splits)
  moreover have "strs h2 = (strs h)(s := None, r \<mapsto> sh2)"
    using s1(1,2) s2(1) by (auto simp: fun_eq_iff)
  moreover have "block_size h2 = (block_size h)(s - sizeof_hdr := None, r - sizeof_hdr \<mapsto> m2)"
    using s1(3) b1 b2 by (auto simp: fun_eq_iff)
  ultimately show ?thesis
    using s1(4) s2(4-7) by (auto simp: moved_def)
qed

text \<open>The outcome of an operation that moves \<open>s\<close>, with at most \<open>k\<close> allocations on the way.\<close>

definition edits :: "nat \<Rightarrow> sds_heap \<Rightarrow> addr \<Rightarrow> addr \<Rightarrow> sds_heap \<Rightarrow> string \<Rightarrow> bool" where
  "edits k h s q h' txt \<longleftrightarrow> q = NULL \<and> unchanged h h' \<and> \<not> roomy k h \<or>
     q \<noteq> NULL \<and> moved h s q h' txt \<and> (\<forall>j. roomy (k + j) h \<longrightarrow> roomy j h')"

lemma edits_mono: "edits k h s q h' t \<Longrightarrow> k \<le> n \<Longrightarrow> edits n h s q h' t"
  unfolding edits_def using roomy_mono by (metis add_le_mono1)

lemma sdscatlen_edits:
  assumes "sds_wf h" "strs h s = Some sh" "unat n \<le> length t" "length (sh_text sh) + unat n \<le> 1073741824"
  shows "\<exists>q h'. sdscatlen s t n h = Some (q, h') \<and> edits 1 h s q h' (sh_text sh @ take (unat n) t)"
  using sdscatlen_ok [OF assms] by (auto simp: edits_def)

lemma free_raw:
  assumes "sds_wf h" "block_size h a = Some n" "strs h (a + sizeof_hdr) = None" "vecs h a = None"
  shows "\<exists>h'. free a h = Some h' \<and> sds_wf h' \<and> strs h' = strs h \<and> vecs h' = vecs h \<and>
    block_size h' = (block_size h)(a := None) \<and> (\<forall>k. roomy k h \<longrightarrow> roomy k h')"
proof -
  obtain h' where f: "free a h = Some h'" "heap_ok h'" "block_size h' = (block_size h)(a := None)" "strs h' = strs h"
    "vecs h' = vecs h" "\<forall>k. roomy k h \<longrightarrow> roomy k h'"
    using free_sds [of h a n] assms(1,2) by (auto simp: sds_wf_def)
  have "hdr_ok h' t th" if "strs h t = Some th" for t th
  proof -
    have "t - sizeof_hdr \<noteq> a"
      using that assms(3) by auto
    then show ?thesis
      using sds_wfD(3) [OF assms(1) that] f(3) by (simp add: hdr_ok_def)
  qed
  moreover have "block_size h' v = Some (8 * length xs)" if "vecs h v = Some xs" for v xs
  proof -
    have "v \<noteq> a"
      using that assms(4) by auto
    then show ?thesis
      using assms(1) that f(3) by (simp add: sds_wf_def)
  qed
  ultimately have "sds_wf h'"
    using assms(1) f(2,4,5) by (simp add: sds_wf_def)
  then show ?thesis
    using f by blast
qed

subsection \<open>Formatting\<close>

abbreviation upto_nul :: "string \<Rightarrow> string" where
  "upto_nul \<equiv> takeWhile (\<lambda>c. c \<noteq> NUL)"

text \<open>When the planted terminator is still there, the buffer holds the text up to its first terminator.\<close>

lemma vsnprintf_done:
  assumes "length b = m" "2 \<le> m" "b ! (m - 2) = NUL"
  obtains b1 where "vsnprintf b m out = Some b1" "length b1 = m"
    "b1 ! (m - 2) = NUL \<Longrightarrow> c_string b1 = Some (upto_nul out)"
    "length out + 1 < m \<Longrightarrow> b1 ! (m - 2) = NUL"
proof -
  define t where "t = take (m - 1) out"
  define b1 where "b1 = t @ [NUL] @ drop (length t + 1) b"
  have l: "length t \<le> m - 1" "length t = min (m - 1) (length out)"
    by (simp_all add: t_def)
  have v: "vsnprintf b m out = Some b1"
    using l assms by (simp add: vsnprintf_def put_chars_def b1_def t_def)
  have len: "length b1 = m"
    using l assms by (simp add: b1_def)
  have fits: "b1 ! (m - 2) = NUL" if "length out + 1 < m"
  proof -
    have "length t = length out"
      using that by (simp add: t_def)
    show ?thesis
    proof (cases "length out = m - 2")
      case True
      then show ?thesis
        using \<open>length t = length out\<close> by (simp add: b1_def nth_append)
    next
      case False
      then have "length t < m - 2"
        using that \<open>length t = length out\<close> by linarith
      then obtain d where "m - 2 = length t + Suc d"
        using less_imp_Suc_add [of "length t" "m - 2"] by auto
      then show ?thesis
        using assms by (simp add: b1_def nth_append)
    qed
  qed
  have cs: "c_string b1 = Some (upto_nul out)" if "b1 ! (m - 2) = NUL"
  proof (cases "length out + 1 < m")
    case True
    then show ?thesis
      by (simp add: c_string_def b1_def t_def takeWhile_tail)
  next
    case False
    then have "length t = m - 1"
      by (simp add: t_def)
    then have "m - 2 < length t"
      using assms(2) by simp
    moreover from this have "t ! (m - 2) = NUL"
      using that by (simp add: b1_def nth_append)
    ultimately have "NUL \<in> set t"
      using nth_mem by metis
    then have "upto_nul (t @ u) = upto_nul t" "upto_nul (t @ drop (m - 1) out) = upto_nul t" for u
      by (simp_all add: takeWhile_append1 [of NUL])
    then show ?thesis
      by (simp add: c_string_def b1_def t_def)
  qed
  show thesis
    using that [OF v len] cs fits by blast
qed

definition raw_block :: "sds_heap \<Rightarrow> addr \<Rightarrow> nat \<Rightarrow> sds_heap \<Rightarrow> bool" where
  "raw_block h a n h1 \<longleftrightarrow> a \<noteq> NULL \<and> sds_wf h1 \<and> block_size h a = None \<and> block_size h1 = (block_size h)(a \<mapsto> n) \<and>
     strs h1 = strs h \<and> vecs h1 = vecs h \<and> strs h (a + sizeof_hdr) = None \<and> vecs h a = None"

lemma raw_free:
  assumes "raw_block h a n h1"
  shows "\<exists>h2. free a h1 = Some h2 \<and> unchanged h h2 \<and> (\<forall>k. roomy k h1 \<longrightarrow> roomy k h2)"
proof -
  have r: "sds_wf h1" "block_size h1 a = Some n" "strs h1 (a + sizeof_hdr) = None" "vecs h1 a = None"
    "block_size h1 = (block_size h)(a \<mapsto> n)" "strs h1 = strs h" "vecs h1 = vecs h" "block_size h a = None"
    using assms by (simp_all add: raw_block_def)
  then show ?thesis
    using free_raw [OF r(1-4)] by (auto simp: unchanged_def fun_upd_idem)
qed

lemma raw_malloc:
  assumes "sds_wf h" "unat n \<le> slot_size"
  obtains h1 where "malloc n h = (NULL, h1)" "unchanged h h1" "\<not> roomy 1 h"
  | a h1 where "malloc n h = (a, h1)" "raw_block h a (unat n) h1" "\<And>k. roomy (Suc k) h \<Longrightarrow> roomy k h1"
proof (rule malloc_sds [OF assms(1), of n])
  fix as
  assume "malloc n h = (NULL, h\<lparr>offers := as\<rparr>)" "\<not> roomy 1 h \<or> slot_size < unat n"
  then show thesis
    using that(1) unchanged_offers [OF assms(1)] assms(2) by auto
next
  fix a h1
  assume d: "malloc n h = (a, h1)" "a \<noteq> NULL" "sds_wf h1" "block_size h a = None"
    "block_size h1 = (block_size h)(a \<mapsto> unat n)" "strs h1 = strs h" "vecs h1 = vecs h"
    "\<And>k. roomy (Suc k) h \<Longrightarrow> unat n \<le> slot_size \<Longrightarrow> roomy k h1"
  have "strs h (a + sizeof_hdr) = None" "vecs h a = None"
    using sds_fresh [OF assms(1), of "a + sizeof_hdr"] d(4) by simp_all
  then show thesis
    using that(2) [OF d(1)] d assms(2) by (simp add: raw_block_def)
qed

lemma unchanged_trans: "unchanged h h1 \<Longrightarrow> unchanged h1 h2 \<Longrightarrow> unchanged h h2"
  by (simp add: unchanged_def)

lemma unchanged_raw: "unchanged h h1 \<Longrightarrow> raw_block h1 a n h2 \<Longrightarrow> raw_block h a n h2"
  by (simp add: unchanged_def raw_block_def)

text \<open>One round: there is no memory, the text fits, or the buffer is released and doubled.\<close>

lemma format_round:
  assumes "sds_wf h" "2 \<le> unat n" "unat n \<le> slot_size"
  obtains (oom) b h1 where "format_loop out n h = Some ((NULL, b), h1)" "unchanged h h1" "\<not> roomy 1 h"
  | (fits) a b h1 where "format_loop out n h = Some ((a, b), h1)" "raw_block h a (unat n) h1"
      "c_string b = Some (upto_nul out)" "\<And>k. roomy (Suc k) h \<Longrightarrow> roomy k h1"
  | (again) h2 where "format_loop out n h = format_loop out (n * 2) h2" "unchanged h h2"
      "unat n \<le> length out + 1" "\<And>k. roomy (Suc k) h \<Longrightarrow> roomy k h2"
proof (rule raw_malloc [OF assms(1,3)])
  fix h1
  assume "malloc n h = (NULL, h1)" "unchanged h h1" "\<not> roomy 1 h"
  then show thesis
    by (intro oom) (subst format_loop.simps, auto)
next
  fix a h1
  assume d: "malloc n h = (a, h1)" "raw_block h a (unat n) h1" "\<And>k. roomy (Suc k) h \<Longrightarrow> roomy k h1"
  have a: "a \<noteq> NULL"
    using d(2) by (simp add: raw_block_def)
  have u2: "unat (n - 2) = unat n - 2"
    using assms(2) by (simp add: unat_sub_ok)
  define b where "b = (fresh_buf h1 (unat n))[unat n - 2 := NUL]"
  have b: "put_char (unat (n - 2)) NUL (fresh_buf h1 (unat n)) = Some b" "length b = unat n" "b ! (unat n - 2) = NUL"
    using assms(2) by (simp_all add: put_char_def u2 b_def)
  obtain b1 where v: "vsnprintf b (unat n) out = Some b1" "length b1 = unat n"
    "b1 ! (unat n - 2) = NUL \<Longrightarrow> c_string b1 = Some (upto_nul out)"
    "length out + 1 < unat n \<Longrightarrow> b1 ! (unat n - 2) = NUL"
    using vsnprintf_done [OF b(2) assms(2) b(3)] by metis
  show thesis
  proof (cases "b1 ! (unat n - 2) = NUL")
    case True
    then have "format_loop out n h = Some ((a, b1), h1)"
      using d(1) a b(1) v(1) by (subst format_loop.simps) (simp add: u2)
    then show thesis
      using fits d(2,3) v(3) [OF True] by blast
  next
    case False
    obtain h2 where f: "free a h1 = Some h2" "unchanged h h2" "\<forall>k. roomy k h1 \<longrightarrow> roomy k h2"
      using raw_free [OF d(2)] by blast
    have "format_loop out n h = format_loop out (n * 2) h2"
      using d(1) a b(1) v(1) False f(1) by (subst format_loop.simps) (simp add: u2)
    then show thesis
      using again f(2,3) d(3) v(4) False by (meson not_less)
  qed
qed

text \<open>The loop ends: every round doubles the buffer, and it is left once the text fits.\<close>

lemma format_loop_ok:
  assumes "sds_wf h" "2 \<le> unat n" "unat n * 2 ^ k \<le> 2147483648" "length out + 1 < unat n * 2 ^ k"
  shows "\<exists>a b h'. format_loop out n h = Some ((a, b), h') \<and>
    (a = NULL \<and> unchanged h h' \<and> \<not> roomy (Suc k) h \<or>
     (\<exists>m. raw_block h a m h') \<and> c_string b = Some (upto_nul out) \<and> (\<forall>j. roomy (Suc k + j) h \<longrightarrow> roomy j h'))"
  using assms
proof (induction k arbitrary: n h)
  case 0
  then have "unat n \<le> slot_size"
    by (simp add: slot_size_def)
  with 0(1,2) show ?case
    by (cases rule: format_round [where out = out]) (use 0(4) in auto)
next
  case (Suc k)
  have "unat n * 2 \<le> unat n * 2 ^ Suc k"
    by simp
  then have n: "unat n \<le> 1073741824" "unat n \<le> slot_size"
    using Suc.prems(3) unfolding slot_size_def by linarith+
  show ?case
    using Suc.prems(1,2) n(2)
  proof (cases rule: format_round [where out = out])
    case oom
    then show ?thesis
      using roomy_mono [of "Suc (Suc k)" h 1] by auto
  next
    case (fits a b h1)
    moreover have "roomy j h1" if "roomy (Suc (Suc k) + j) h" for j
      using fits(4) roomy_mono [OF that, of "Suc j"] by simp
    ultimately show ?thesis
      by blast
  next
    case (again h2)
    have n2: "unat (n * 2) = unat n * 2"
      using n by (subst unat_mult_ok) simp_all
    have "sds_wf h2" "2 \<le> unat (n * 2)" "unat (n * 2) * 2 ^ k \<le> 2147483648" "length out + 1 < unat (n * 2) * 2 ^ k"
      using again(2) Suc.prems(2-4) n2 by (simp_all add: unchanged_def mult.assoc)
    from Suc.IH [OF this] obtain a b h3 where ih: "format_loop out (n * 2) h2 = Some ((a, b), h3)"
      "a = NULL \<and> unchanged h2 h3 \<and> \<not> roomy (Suc k) h2 \<or>
       (\<exists>m. raw_block h2 a m h3) \<and> c_string b = Some (upto_nul out) \<and> (\<forall>j. roomy (Suc k + j) h2 \<longrightarrow> roomy j h3)"
      by blast
    have "roomy (Suc k + j) h2" if "roomy (Suc (Suc k) + j) h" for j
      using again(4) [of "Suc k + j"] that by simp
    with again(4) ih(2) unchanged_trans [OF again(2)] unchanged_raw [OF again(2)] show ?thesis
      unfolding again(1) ih(1) by blast
  qed
qed

lemma sdscatvprintf_ok:
  assumes "sds_wf h" "strs h s = Some sh" "length out + 1 < 16 * 2 ^ k" "k \<le> 27"
    and "length (sh_text sh) + length out \<le> 1073741824"
  shows "\<exists>q h'. sdscatvprintf s out h = Some (q, h') \<and> edits (k + 2) h s q h' (sh_text sh @ upto_nul out)"
proof -
  have "(2 :: nat) ^ k \<le> 2 ^ 27"
    using assms(4) by (intro power_increasing) simp_all
  then have "unat (16 :: size_t) * 2 ^ k \<le> 2147483648" "length out + 1 < unat (16 :: size_t) * 2 ^ k" "2 \<le> unat (16 :: size_t)"
    using assms(3) by simp_all
  then obtain a b h1 where f: "format_loop out 16 h = Some ((a, b), h1)"
    "a = NULL \<and> unchanged h h1 \<and> \<not> roomy (Suc k) h \<or>
     (\<exists>m. raw_block h a m h1) \<and> c_string b = Some (upto_nul out) \<and> (\<forall>j. roomy (Suc k + j) h \<longrightarrow> roomy j h1)"
    using format_loop_ok [OF assms(1), of 16 k out] by blast
  show ?thesis
  proof (cases "a = NULL")
    case True
    then have "unchanged h h1 \<and> \<not> roomy (Suc k) h"
      using f(2) by (auto simp: raw_block_def)
    moreover have "\<not> roomy (k + 2) h" if "\<not> roomy (Suc k) h"
      using that roomy_mono [of "k + 2" h "Suc k"] by auto
    ultimately show ?thesis
      using f(1) True by (simp add: sdscatvprintf_def edits_def)
  next
    case False
    then obtain m where r: "raw_block h a m h1" and cs: "c_string b = Some (upto_nul out)"
      and room: "\<And>j. roomy (Suc k + j) h \<Longrightarrow> roomy j h1"
      using f(2) by blast
    have h1: "sds_wf h1" "strs h1 = strs h" "vecs h1 = vecs h" "block_size h1 = (block_size h)(a \<mapsto> m)"
      "block_size h a = None" "strs h (a + sizeof_hdr) = None" "vecs h a = None"
      using r by (simp_all add: raw_block_def)
    have "strs h1 s = Some sh" "length (sh_text sh) + length (upto_nul out) \<le> 1073741824"
      using assms(2,5) h1(2) length_takeWhile_le [of "\<lambda>c. c \<noteq> NUL" out] by (simp, linarith)
    from sdscat_ok [OF h1(1) this] obtain q h2 where c: "sdscat s (upto_nul out) h1 = Some (q, h2)"
      "q = NULL \<and> unchanged h1 h2 \<and> \<not> roomy 1 h1 \<or>
       q \<noteq> NULL \<and> moved h1 s q h2 (sh_text sh @ upto_nul out) \<and> (\<forall>k. roomy (Suc k) h1 \<longrightarrow> roomy k h2)"
      by blast
    show ?thesis
    proof (cases "q = NULL")
      case True
      then have u: "unchanged h1 h2" "\<not> roomy 1 h1"
        using c(2) by auto
      then have "raw_block h a m h2"
        using r by (simp add: unchanged_def raw_block_def)
      then obtain h3 where "free a h2 = Some h3" "unchanged h h3"
        using raw_free by blast
      then show ?thesis
        using f(1) cs c(1) True False u(2) room [of 1] by (auto simp: sdscatvprintf_def edits_def)
    next
      case q: False
      then have m: "moved h1 s q h2 (sh_text sh @ upto_nul out)" "\<forall>k. roomy (Suc k) h1 \<longrightarrow> roomy k h2"
        using c(2) by auto
      obtain sh2 n where h2: "sds_wf h2" "strs h2 = (strs h)(s := None, q \<mapsto> sh2)" "sh_text sh2 = sh_text sh @ upto_nul out"
        "vecs h2 = vecs h" "q = s \<or> strs h q = None" "q = s \<or> block_size h1 (q - sizeof_hdr) = None"
        "block_size h2 = (block_size h1)(s - sizeof_hdr := None, q - sizeof_hdr \<mapsto> n)"
        using m(1) h1(2,3) by (auto simp: moved_def)
      have sa: "s - sizeof_hdr \<noteq> a" "q - sizeof_hdr \<noteq> a"
        using sds_wfD(3) [OF assms(1,2)] h1(4,5) h2(6) by (auto simp: hdr_ok_def)
      have "a + sizeof_hdr \<noteq> q" "a + sizeof_hdr \<noteq> s"
        using sa by auto
      then have "block_size h2 a = Some m" "strs h2 (a + sizeof_hdr) = None" "vecs h2 a = None"
        using h2 h1 sa by simp_all
      from free_raw [OF h2(1) this] obtain h3 where h3: "free a h2 = Some h3" "sds_wf h3" "strs h3 = strs h2"
        "vecs h3 = vecs h2" "block_size h3 = (block_size h2)(a := None)" "\<forall>k. roomy k h2 \<longrightarrow> roomy k h3"
        by blast
      have "block_size h3 = (block_size h)(s - sizeof_hdr := None, q - sizeof_hdr \<mapsto> n)"
        using h3(5) h2(7) h1(4,5) sa by (auto simp: fun_eq_iff)
      then have "moved h s q h3 (sh_text sh @ upto_nul out)"
        using h2 h3 q h1(4) by (auto simp: moved_def split: if_splits)
      moreover have "roomy j h3" if "roomy (k + 2 + j) h" for j
        using room [of "Suc j"] that m(2) h3(6) by simp
      ultimately show ?thesis
        using f(1) cs c(1) h3(1) False q by (simp add: sdscatvprintf_def edits_def)
    qed
  qed
qed

subsection \<open>Decimal numbers\<close>

text \<open>The digits of a number, and the number that a text denotes.\<close>

fun decimal :: "nat \<Rightarrow> string" where
  "decimal n = (if n < 10 then [] else decimal (n div 10)) @ [digit_char (n mod 10)]"

definition decimal_int :: "int \<Rightarrow> string" where
  "decimal_int i = (if i < 0 then CHR ''-'' # decimal (nat (- i)) else decimal (nat i))"

definition digit_value :: "char \<Rightarrow> nat" where
  "digit_value c = char_code c - 48"

definition parse_nat :: "string \<Rightarrow> nat" where
  "parse_nat t = foldl (\<lambda>n c. 10 * n + digit_value c) 0 t"

definition parse_int :: "string \<Rightarrow> int" where
  "parse_int t = (case t of [] \<Rightarrow> 0 | c # u \<Rightarrow> if c = CHR ''-'' then - int (parse_nat u) else int (parse_nat t))"

declare decimal.simps [simp del]

lemma digit_code: "d < 10 \<Longrightarrow> char_code (digit_char d) = 48 + d"
  by (simp add: char_code_def digit_char_def take_bit_nat_eq_self of_char_of)

lemma parse_decimal: "parse_nat (decimal n) = n"
proof (induction n rule: decimal.induct)
  case (1 n)
  then show ?case
    by (subst decimal.simps) (auto simp: parse_nat_def digit_value_def digit_code)
qed

lemma decimal_no_minus: "CHR ''-'' \<notin> set (decimal n)"
proof (induction n rule: decimal.induct)
  case (1 n)
  have "char_code (CHR ''-'') = 45"
    by (simp add: char_code_def)
  then have "CHR ''-'' \<noteq> digit_char d" if "d < 10" for d
    using digit_code [OF that] by (auto dest!: arg_cong [of _ _ char_code])
  with 1 show ?case
    by (subst decimal.simps) auto
qed

lemma parse_decimal_int: "parse_int (decimal_int i) = i"
proof (cases "i < 0")
  case False
  obtain c u where "decimal (nat i) = c # u"
    by (cases "decimal (nat i)") (auto simp: decimal.simps [of "nat i"])
  moreover from this have "c \<noteq> CHR ''-''"
    using decimal_no_minus [of "nat i"] by auto
  ultimately show ?thesis
    using False parse_decimal [of "nat i"] by (simp add: decimal_int_def parse_int_def)
qed (simp add: decimal_int_def parse_int_def parse_decimal)

lemma length_decimal: "n < 10 ^ k \<Longrightarrow> 0 < k \<Longrightarrow> length (decimal n) \<le> k"
proof (induction k arbitrary: n)
  case (Suc k)
  show ?case
  proof (cases "n < 10")
    case False
    then have "0 < k" "n div 10 < 10 ^ k"
      using Suc.prems by (auto intro: ccontr simp: less_mult_imp_div_less mult.commute)
    then show ?thesis
      using Suc.IH [of "n div 10"] False by (simp add: decimal.simps [of n])
  qed (simp add: decimal.simps [of n])
qed simp

text \<open>The loop fills the buffer backwards.\<close>

lemma digits_loop_ok:
  "length (decimal v) \<le> Suc p \<Longrightarrow> p < length b \<Longrightarrow>
    digits_loop v (int p) b = Some (int p - int (length (decimal v)),
      take (Suc p - length (decimal v)) b @ decimal v @ drop (Suc p) b)"
proof (induction v arbitrary: p b rule: decimal.induct)
  case (1 v)
  define b1 where "b1 = b[p := digit_char (v mod 10)]"
  have b1: "put_char p (digit_char (v mod 10)) b = Some b1" "length b1 = length b"
    "take k b1 = take k b" "drop p b1 = digit_char (v mod 10) # drop (Suc p) b" if "k \<le> p" for k
    using 1(3) that by (simp_all add: put_char_def b1_def Cons_nth_drop_Suc [symmetric] del: Cons_nth_drop_Suc)
  show ?case
  proof (cases "v < 10")
    case True
    then show ?thesis
      using b1 [of p] 1(3) id_take_nth_drop [of p b1]
      by (subst digits_loop.simps) (simp add: decimal.simps [of v] b1_def upd_conv_take_nth_drop)
  next
    case False
    then obtain p' where p: "p = Suc p'"
      using 1(2) by (cases p) (auto simp: decimal.simps [of v] decimal.simps [of "v div 10"])
    have "digits_loop (v div 10) (int p') b1 = Some (int p' - int (length (decimal (v div 10))),
        take (Suc p' - length (decimal (v div 10))) b1 @ decimal (v div 10) @ drop (Suc p') b1)"
      using 1(1) [OF False, of p' b1] 1(2,3) b1(2) False p by (simp add: decimal.simps [of v])
    moreover have "nat (1 + int p') = Suc p'" "int p - 1 = int p'" "v div 10 \<noteq> 0"
      using p False by simp_all
    ultimately show ?thesis
      using False b1 [of "Suc p' - length (decimal (v div 10))"] p
      by (subst digits_loop.simps) (simp add: decimal.simps [of v])
  qed
qed

lemma sdsfromlonglong_ok:
  assumes "sds_wf h" "- LLONG_MAX \<le> val" "val \<le> LLONG_MAX"
  shows "\<exists>s h'. sdsfromlonglong val h = Some (s, h') \<and>
    (s = NULL \<and> unchanged h h' \<and> \<not> roomy 1 h \<or>
     s \<noteq> NULL \<and> created h s h' (decimal_int val) \<and> (\<forall>k. roomy (Suc k) h \<longrightarrow> roomy k h'))"
proof -
  define v where "v = nat (if val < 0 then - val else val)"
  define d where "d = decimal v"
  have v: "nat (- val) = v" if "val < 0" using that by (simp add: v_def)
  have "v < 10 ^ 19"
    using assms(2,3) by (auto simp: v_def LLONG_MAX_def)
  then have l: "length d \<le> 19" "0 < length d"
    using length_decimal [of v 19] by (simp_all add: d_def decimal.simps [of v])
  define b where "b = take (32 - length d) (fresh_buf h 32) @ d"
  have loop: "digits_loop v 31 (fresh_buf h 32) = Some (31 - int (length d), b)"
    using digits_loop_ok [of v 31 "fresh_buf h 32"] l by (simp add: d_def b_def)
  define k where "k = (if val < 0 then 31 - length d else 32 - length d)"
  define b1 where "b1 = (if val < 0 then b[31 - length d := CHR ''-''] else b)"
  have body: "(if val < 0
        then do { require (0 \<le> 31 - int (length d)); b' \<leftarrow> put_char (nat (31 - int (length d))) (CHR ''-'') b;
          Some (31 - int (length d) - 1, b') }
        else Some (31 - int (length d), b)) = Some (int k - 1, b1)"
    using l by (auto simp: put_char_def b1_def k_def b_def nat_diff_distrib of_nat_diff)
  have lb: "length b = 32"
    using l by (simp add: b_def)
  have tx: "drop k b1 = decimal_int val" "k \<le> 32"
  proof -
    have "drop (31 - length d) (b[31 - length d := c]) = c # d" for c
      using l lb by (subst Cons_nth_drop_Suc [symmetric]) (simp_all add: b_def Suc_diff_Suc)
    moreover have "drop (32 - length d) b = d"
      by (simp add: b_def)
    ultimately show "drop k b1 = decimal_int val"
      by (auto simp: k_def b1_def decimal_int_def d_def v_def)
    show "k \<le> 32"
      by (simp add: k_def le_diff_conv)
  qed
  have ln: "length (decimal_int val) = 32 - k"
    using lb by (simp add: b1_def flip: tx(1))
  have un: "unat (size_of_int (32 - int k)) = 32 - k"
    using tx(2) by (simp add: unat_size_of_int INT_MAX_def nat_diff_distrib)
  have "sdsfromlonglong val h = sdsnewlen (Some (decimal_int val)) (size_of_int (32 - int k)) h"
    using assms(2) loop body tx(1) by (simp add: sdsfromlonglong_def Let_def flip: v_def)
  moreover have "unat (size_of_int (32 - int k)) \<le> 1073741824"
    using un by simp
  ultimately show ?thesis
    using newlen_ok [OF assms(1), of "size_of_int (32 - int k)" "Some (decimal_int val)" "decimal_int val"] un ln
    by auto
qed
subsection \<open>Quoting\<close>

definition repr_char :: "char \<Rightarrow> string" where
  "repr_char c =
     (if c = BACKSLASH \<or> c = QUOTE then [BACKSLASH, c]
      else if c = CHR 0x0A then [BACKSLASH, CHR ''n'']
      else if c = CHR 0x0D then [BACKSLASH, CHR ''r'']
      else if c = CHR 0x09 then [BACKSLASH, CHR ''t'']
      else if c = CHR 0x07 then [BACKSLASH, CHR ''a'']
      else if c = CHR 0x08 then [BACKSLASH, CHR ''b'']
      else if isprint c then [c]
      else [BACKSLASH, CHR ''x''] @ hex2 c)"

definition repr_text :: "string \<Rightarrow> string" where
  "repr_text t = QUOTE # concat (map repr_char t) @ [QUOTE]"

lemma char_code_less: "char_code c < 256"
  by (simp add: char_code_def)

lemma hex_char_code: "d < 16 \<Longrightarrow> char_code (hex_char d) = (if d < 10 then 48 + d else 87 + d)"
  by (simp add: char_code_def hex_char_def of_char_of take_bit_nat_eq_self)

lemma hex_char_not_nul: "d < 16 \<Longrightarrow> hex_char d \<noteq> NUL"
  using hex_char_code [of d] by (auto simp: char_code_def split: if_splits)

lemma hex2_digits: "char_code c div 16 < 16" "char_code c mod 16 < 16"
  using char_code_less [of c] by simp_all

lemma repr_char_bounds: "length (repr_char c) \<le> 4" "0 < length (repr_char c)" "NUL \<notin> set (repr_char c)"
proof -
  show "length (repr_char c) \<le> 4" "0 < length (repr_char c)"
    by (simp_all add: repr_char_def hex2_def)
  have "\<not> isprint NUL"
    by (simp add: isprint_def char_code_def)
  then show "NUL \<notin> set (repr_char c)"
    using hex_char_not_nul [OF hex2_digits(1) [of c]] hex_char_not_nul [OF hex2_digits(2) [of c]]
    by (auto simp: repr_char_def hex2_def)
qed

lemma upto_nul_id: "NUL \<notin> set t \<Longrightarrow> upto_nul t = t"
  by (auto simp: takeWhile_eq_all_conv)

lemma repr_step_ok:
  assumes "sds_wf h" "strs h s = Some sh" "length (sh_text sh) \<le> 1073741820"
  shows "\<exists>q h'. repr_step c s h = Some (q, h') \<and> edits 2 h s q h' (sh_text sh @ repr_char c)"
proof -
  have cat: "\<exists>q h'. sdscatlen s [x, y] 2 h = Some (q, h') \<and> edits 2 h s q h' (sh_text sh @ [x, y])" for x y
    using sdscatlen_edits [OF assms(1,2), of 2 "[x, y]"] assms(3) edits_mono [of 1 h s _ _ _ 2] by fastforce
  have fmt: "\<exists>q h'. sdscatprintf s u h = Some (q, h') \<and> edits 2 h s q h' (sh_text sh @ u)"
    if "NUL \<notin> set u" "length u \<le> 4" for u
    using sdscatvprintf_ok [OF assms(1,2), of u 0] that assms(3)
    by (auto simp: sdscatprintf_def upto_nul_id numeral_2_eq_2)
  have "repr_char c = (if c = BACKSLASH \<or> c = QUOTE then [BACKSLASH, c]
      else if c = CHR 0x0A then [BACKSLASH, CHR ''n'']
      else if c = CHR 0x0D then [BACKSLASH, CHR ''r'']
      else if c = CHR 0x09 then [BACKSLASH, CHR ''t'']
      else if c = CHR 0x07 then [BACKSLASH, CHR ''a'']
      else if c = CHR 0x08 then [BACKSLASH, CHR ''b''] else repr_char c)"
    by (simp add: repr_char_def)
  show ?thesis
  proof (cases "c = BACKSLASH \<or> c = QUOTE \<or> isprint c \<or> c \<notin> {CHR 0x0A, CHR 0x0D, CHR 0x09, CHR 0x07, CHR 0x08}")
    case True
    have "isprint c \<Longrightarrow> c \<notin> {CHR 0x0A, CHR 0x0D, CHR 0x09, CHR 0x07, CHR 0x08}"
      by (auto simp: isprint_def char_code_def)
    then have "repr_step c s h = sdscatprintf s (repr_char c) h"
      using True by (auto simp: repr_step_def repr_char_def)
    then show ?thesis
      using fmt [OF repr_char_bounds(3,1)] by simp
  next
    case False
    then show ?thesis
      using cat by (auto simp: repr_step_def repr_char_def)
  qed
qed

lemma edits_roomy:
  assumes "edits k h s q h' t" "roomy (k + j) h"
  shows "q \<noteq> NULL" "moved h s q h' t" "roomy j h'"
  using assms roomy_mono [of "k + j" h k] by (auto simp: edits_def)

lemma repr_loop_ok:
  assumes "sds_wf h" "strs h s = Some sh" "s \<noteq> NULL" "length (sh_text sh) + 4 * length cs \<le> 1073741824"
    and "roomy (2 * length cs + j) h"
  shows "\<exists>q h'. repr_loop cs s h = Some (q, h') \<and> q \<noteq> NULL \<and>
    moved h s q h' (sh_text sh @ concat (map repr_char cs)) \<and> roomy j h'"
  using assms
proof (induction cs arbitrary: s h sh)
  case Nil
  then show ?case
    using moved_refl [of h s sh] by simp
next
  case (Cons c cs)
  obtain q h1 where st: "repr_step c s h = Some (q, h1)" "edits 2 h s q h1 (sh_text sh @ repr_char c)"
    using repr_step_ok [OF Cons.prems(1,2), of c] Cons.prems(4) by auto
  have "roomy (2 + (2 * length cs + j)) h"
    using Cons.prems(5) by (simp add: ac_simps)
  note e = edits_roomy [OF st(2) this]
  obtain sh1 where s1: "strs h1 q = Some sh1" "sh_text sh1 = sh_text sh @ repr_char c"
    using moved_get [OF e(2)] by blast
  have "sds_wf h1"
    using e(2) by (simp add: moved_def)
  moreover have "length (sh_text sh1) + 4 * length cs \<le> 1073741824"
    using s1(2) Cons.prems(4) repr_char_bounds(1) [of c] by simp
  ultimately obtain r h2 where ih: "repr_loop cs q h1 = Some (r, h2)" "r \<noteq> NULL"
    "moved h1 q r h2 (sh_text sh1 @ concat (map repr_char cs))" "roomy j h2"
    using Cons.IH [OF _ s1(1) e(1) _ e(3)] by blast
  then show ?case
    using st(1) moved_trans [OF e(2) ih(3)] s1(2) by simp
qed

lemma sdscatrepr_ok:
  assumes "sds_wf h" "strs h s = Some sh" "unat n \<le> length p" "length (sh_text sh) + 4 * unat n + 2 \<le> 1073741824"
    and "roomy (2 * unat n + 2 + j) h"
  shows "\<exists>q h'. sdscatrepr s p n h = Some (q, h') \<and> q \<noteq> NULL \<and>
    moved h s q h' (sh_text sh @ repr_text (take (unat n) p)) \<and> roomy j h'"
proof -
  define cs where "cs = take (unat n) p"
  have cs: "get_chars 0 (unat n) p = Some cs" "length cs = unat n"
    using assms(3) by (simp_all add: cs_def get_chars_Some)
  obtain q1 h1 where 1: "sdscatlen s [QUOTE] 1 h = Some (q1, h1)" "edits 1 h s q1 h1 (sh_text sh @ [QUOTE])"
    using sdscatlen_edits [OF assms(1,2), of 1 "[QUOTE]"] assms(4) by auto
  have "roomy (1 + (2 * length cs + Suc j)) h"
    using assms(5) cs(2) by simp
  note e1 = edits_roomy [OF 1(2) this]
  obtain sh1 where s1: "strs h1 q1 = Some sh1" "sh_text sh1 = sh_text sh @ [QUOTE]"
    using moved_get [OF e1(2)] by blast
  have "sds_wf h1"
    using e1(2) by (simp add: moved_def)
  from repr_loop_ok [OF this s1(1) e1(1) _ e1(3)] obtain q2 h2 where 2: "repr_loop cs q1 h1 = Some (q2, h2)" "q2 \<noteq> NULL"
    "moved h1 q1 q2 h2 (sh_text sh1 @ concat (map repr_char cs))" "roomy (Suc j) h2"
    using assms(4) s1(2) cs(2) by auto
  obtain sh2 where s2: "strs h2 q2 = Some sh2" "sh_text sh2 = sh_text sh1 @ concat (map repr_char cs)"
    using moved_get [OF 2(3)] by blast
  have wf2: "sds_wf h2"
    using 2(3) by (simp add: moved_def)
  have "length (concat (map repr_char cs)) \<le> 4 * length cs"
    using repr_char_bounds(1) by (induction cs) (simp_all add: add_mono)
  then obtain q3 h3 where 3: "sdscatlen q2 [QUOTE] 1 h2 = Some (q3, h3)" "edits 1 h2 q2 q3 h3 (sh_text sh2 @ [QUOTE])"
    using sdscatlen_edits [OF wf2 s2(1), of 1 "[QUOTE]"] assms(4) s2(2) s1(2) cs(2) by auto
  have "roomy (1 + j) h2"
    using 2(4) by simp
  note e3 = edits_roomy [OF 3(2) this]
  have "moved h s q3 h3 (sh_text sh @ repr_text cs)"
    using moved_trans [OF moved_trans [OF e1(2) 2(3)] e3(2)] s1(2) s2(2) by (simp add: repr_text_def)
  then show ?thesis
    using 1(1) 2(1) 3(1) cs(1) e3(1,3) by (simp add: sdscatrepr_def cs_def)
qed

end
