(* ===== verification/Nc_Sds_Parse.thy ===== *)
theory Nc_Sds_Parse
  imports Nc_Sds_Text
begin

text \<open>
  The functions on lists that splitting, joining and parsing are meant to compute, and the round
  trips between them: a split text joins back to itself, and a line of quoted texts parses to the
  texts that were quoted.
\<close>

subsection \<open>Joining and splitting\<close>

fun join_text :: "string \<Rightarrow> string list \<Rightarrow> string" where
  "join_text sep [] = []"
| "join_text sep [t] = t"
| "join_text sep (t # u # ts) = t @ sep @ join_text sep (u # ts)"

text \<open>Whether \<open>sep\<close> stands at the front.\<close>

definition starts :: "string \<Rightarrow> string \<Rightarrow> bool" where
  "starts sep t \<longleftrightarrow> length sep \<le> length t \<and> take (length sep) t = sep"

text \<open>Split at the leftmost separators, one after the other.\<close>

function split_text :: "string \<Rightarrow> string \<Rightarrow> string list" where
  "split_text sep t =
     (if sep \<noteq> [] \<and> starts sep t then [] # split_text sep (drop (length sep) t)
      else case t of
        [] \<Rightarrow> [[]]
      | c # t' \<Rightarrow> (case split_text sep t' of [] \<Rightarrow> [[c]] | u # us \<Rightarrow> (c # u) # us))"
  by pat_completeness auto
termination
proof (relation "measure (\<lambda>(_, t). length t)", goal_cases)
  case (2 sep t)
  then show ?case
    by (cases sep) (auto simp: starts_def)
qed simp_all

declare split_text.simps [simp del]

lemma split_text_Nil: "sep \<noteq> [] \<Longrightarrow> split_text sep [] = [[]]"
  by (subst split_text.simps) (auto simp: starts_def)

lemma split_text_found: "sep \<noteq> [] \<Longrightarrow> starts sep t \<Longrightarrow> split_text sep t = [] # split_text sep (drop (length sep) t)"
  by (subst split_text.simps) simp

lemma split_text_not_Nil: "split_text sep t \<noteq> []"
  by (subst split_text.simps) (simp split: list.split)

lemma split_text_next:
  assumes "\<not> starts sep (c # t)"
  obtains u us where "split_text sep t = u # us" "split_text sep (c # t) = (c # u) # us"
  using assms split_text_not_Nil [of sep t]
  by (cases "split_text sep t") (simp_all add: split_text.simps [of sep "c # t"])

text \<open>Too little is left for a separator.\<close>

lemma split_text_short: "length t < length sep \<Longrightarrow> split_text sep t = [t]"
proof (induction t)
  case Nil
  then show ?case
    by (subst split_text.simps) (simp add: starts_def)
next
  case (Cons c t)
  then have "split_text sep t = [t]" "\<not> starts sep (c # t)"
    by (simp_all add: starts_def)
  then show ?case
    by (subst split_text.simps) simp
qed

text \<open>Splitting loses nothing: joining the parts with the separator gives the text.\<close>

lemma join_split: "sep \<noteq> [] \<Longrightarrow> join_text sep (split_text sep t) = t"
proof (induction "length t" arbitrary: t rule: less_induct)
  case less
  show ?case
  proof (cases "starts sep t")
    case True
    define r where "r = drop (length sep) t"
    have t: "t = sep @ r"
      using True append_take_drop_id [of "length sep" t] by (simp add: starts_def r_def)
    then have "join_text sep (split_text sep r) = r"
      using less by simp
    moreover have "split_text sep t = [] # split_text sep r"
      using split_text_found [OF less(2) True] by (simp add: r_def)
    ultimately show ?thesis
      using split_text_not_Nil [of sep r] t by (cases "split_text sep r") simp_all
  next
    case False
    show ?thesis
    proof (cases t)
      case Nil
      then show ?thesis
        using less(2) by (simp add: split_text_Nil)
    next
      case (Cons c r)
      then obtain u us where "split_text sep r = u # us" "split_text sep t = (c # u) # us"
        using split_text_next False by metis
      moreover have "join_text sep (split_text sep r) = r"
        using less Cons by simp
      ultimately show ?thesis
        using Cons by (cases us) simp_all
    qed
  qed
qed

text \<open>No part contains the separator.\<close>

definition contains :: "string \<Rightarrow> string \<Rightarrow> bool" where
  "contains sep t \<longleftrightarrow> (\<exists>k \<le> length t. starts sep (drop k t))"

lemma contains_Cons: "contains sep (c # t) \<longleftrightarrow> starts sep (c # t) \<or> contains sep t"
proof
  assume "contains sep (c # t)"
  then obtain k where "k \<le> Suc (length t)" "starts sep (drop k (c # t))"
    by (auto simp: contains_def)
  then show "starts sep (c # t) \<or> contains sep t"
    by (cases k) (auto simp: contains_def)
next
  assume "starts sep (c # t) \<or> contains sep t"
  then show "contains sep (c # t)"
    by (fastforce simp: contains_def intro: exI [of _ 0] exI [of _ "Suc _"])
qed

lemma starts_prefix: "starts sep (t @ u) \<Longrightarrow> length sep \<le> length t \<Longrightarrow> starts sep t"
  by (simp add: starts_def)

lemma starts_append: "starts sep t \<Longrightarrow> starts sep (t @ u)"
  by (auto simp: starts_def)

lemma split_text_free:
  assumes "sep \<noteq> []"
  shows "\<forall>u \<in> set (split_text sep t). \<not> contains sep u"
  using assms
proof (induction "length t" arbitrary: t rule: less_induct)
  case less
  have nil: "\<not> contains sep []"
    using less(2) by (auto simp: contains_def starts_def)
  show ?case
  proof (cases "starts sep t")
    case True
    then have "length (drop (length sep) t) < length t"
      using less(2) by (cases sep) (auto simp: starts_def)
    note less(1) [OF this less(2)]
    then show ?thesis
      using nil split_text_found [OF less(2) True] by simp
  next
    case False
    show ?thesis
    proof (cases t)
      case Nil
      then show ?thesis
        using less(2) nil by (simp add: split_text_Nil)
    next
      case (Cons c r)
      then obtain u us where s: "split_text sep r = u # us" "split_text sep t = (c # u) # us"
        using split_text_next False by metis
      have "\<forall>v \<in> set (u # us). \<not> contains sep v"
        using less(1) [of r] less(2) Cons s(1) by simp
      moreover have "\<not> starts sep (c # u)"
      proof
        assume "starts sep (c # u)"
        moreover have "t = join_text sep ((c # u) # us)"
          using join_split [OF less(2), of t] s(2) by simp
        then have "\<exists>v. t = (c # u) @ v"
          by (cases us) auto
        ultimately have "starts sep t"
          using starts_append [of sep "c # u"] by auto
        then show False
          using False by simp
      qed
      ultimately show ?thesis
        using s(2) by (auto simp: contains_Cons)
    qed
  qed
qed

subsection \<open>Lines of arguments\<close>

text \<open>
  The argument that starts here and the rest of the line, and all arguments of a line: the loops of \<open>sdssplitargs\<close>
  without the heap. The language they accept is stated on its own in \<open>Nc_Sds_Grammar\<close>.
\<close>

function token :: "mode \<Rightarrow> string \<Rightarrow> (string \<times> string) option" where
  "token m p =
     (case token_step m p of
        Append c q \<Rightarrow> map_option (\<lambda>(t, r). (c # t, r)) (token m q)
      | Enter m' q \<Rightarrow> token m' q
      | Finish q \<Rightarrow> Some ([], q)
      | Fail \<Rightarrow> None)"
  by pat_completeness auto
termination
  by (relation "measure (\<lambda>(m, p). length p)") (auto dest: token_step_shorter)

declare token.simps [simp del]

lemma token_shorter:
  "token m p = Some (t, q) \<Longrightarrow> length q + length t \<le> length p \<and> (peek p 0 \<noteq> NUL \<longrightarrow> length q < length p)"
proof (induction m p arbitrary: t rule: token.induct)
  case (1 m p)
  show ?case
  proof (cases "token_step m p")
    case (Append c r)
    then obtain u where "token m r = Some (u, q)" "t = c # u"
      using 1(3) by (subst (asm) token.simps) auto
    then show ?thesis
      using 1(1) [OF Append, of u] token_step_shorter(1) [OF Append] by simp
  next
    case (Enter m' r)
    then have "token m' r = Some (t, q)"
      using 1(3) by (subst (asm) token.simps) auto
    then show ?thesis
      using 1(2) [OF Enter, of t] token_step_shorter(2) [OF Enter] by simp
  next
    case (Finish r)
    then show ?thesis
      using 1(3) token_step_shorter(3) [OF Finish] by (subst (asm) token.simps) auto
  next
    case Fail
    then show ?thesis
      using 1(3) by (subst (asm) token.simps) auto
  qed
qed

function parse_line :: "string \<Rightarrow> string list option" where
  "parse_line p =
     (let p' = dropWhile isspace p in
      if peek p' 0 = NUL then Some []
      else case token Plain p' of
        None \<Rightarrow> None
      | Some (t, q) \<Rightarrow> map_option (Cons t) (parse_line q))"
  by pat_completeness auto
termination
proof (relation "measure length", goal_cases)
  case (2 p p' tq t q)
  then have "length q < length p'"
    using token_shorter [of Plain p' t q] by simp
  moreover have "length p' \<le> length p"
    using 2(1) by (simp add: length_dropWhile_le)
  ultimately show ?case
    by simp
qed simp

declare parse_line.simps [simp del]

text \<open>Inside double quotes, the quoted form of a character is read as the character.\<close>

lemma of_char_of_less: "n < 256 \<Longrightarrow> char_code (char_of n) = n"
  by (simp add: char_code_def of_char_of take_bit_nat_eq_self)

lemma hex_char_digit: "d < 16 \<Longrightarrow> is_hex_digit (hex_char d)" "d < 16 \<Longrightarrow> hex_digit_to_int (hex_char d) = d"
  by (simp_all add: is_hex_digit_def hex_digit_to_int_def hex_char_code)

lemma char_of_code: "char_of (char_code c) = c"
  by (simp add: char_code_def)

lemma step_repr: "token_step Inq (repr_char c @ p) = Append c p"
proof (cases "c = BACKSLASH \<or> c = QUOTE \<or> c \<in> {CHR 0x0A, CHR 0x0D, CHR 0x09, CHR 0x07, CHR 0x08}")
  case True
  then show ?thesis
    by (auto simp: repr_char_def token_step_def step_inq_def peek_def unescape_def)
next
  case False
  show ?thesis
  proof (cases "isprint c")
    case True
    then have "c \<noteq> NUL"
      by (auto simp: isprint_def char_code_def)
    then show ?thesis
      using True False by (simp add: repr_char_def token_step_def step_inq_def peek_def)
  next
    case np: False
    have r: "repr_char c = [BACKSLASH, CHR ''x'', hex_char (char_code c div 16), hex_char (char_code c mod 16)]"
      using False np by (simp add: repr_char_def hex2_def)
    show ?thesis
      using hex2_digits [of c]
      by (simp add: r token_step_def step_inq_def peek_def hex_char_digit char_of_code)
  qed
qed

lemma token_repr:
  "token Inq (concat (map repr_char t) @ QUOTE # r) =
     (if peek r 0 \<noteq> NUL \<and> \<not> isspace (peek r 0) then None else Some (t, r))"
proof (induction t)
  case Nil
  have "peek (QUOTE # r) (Suc 0) = peek r 0" "peek (QUOTE # r) 0 = QUOTE"
    by (simp_all add: peek_def)
  then show ?case
    by (subst token.simps) (simp add: token_step_def step_inq_def closing_def)
next
  case (Cons c t)
  then show ?case
    by (subst token.simps) (simp add: step_repr)
qed

lemma parse_repr_line: "parse_line (join_text [CHR '' ''] (map repr_text ts)) = Some ts"
proof -
  have word: "parse_line (repr_text t @ r) = map_option (Cons t) (parse_line r)"
    if "peek r 0 = NUL \<or> isspace (peek r 0)" for t r
  proof -
    have "\<not> isspace QUOTE"
      by (simp add: isspace_def char_code_def)
    then have d: "dropWhile isspace (repr_text t @ r) = QUOTE # concat (map repr_char t) @ QUOTE # r"
      by (simp add: repr_text_def)
    have "token_step Plain (QUOTE # p) = Enter Inq p" for p
      by (simp add: token_step_def step_plain_def peek_def)
    then have "token Plain (QUOTE # concat (map repr_char t) @ QUOTE # r) = Some (t, r)"
      using that token_repr [of t r] by (subst token.simps) auto
    then show ?thesis
      by (subst parse_line.simps) (simp add: d peek_def)
  qed
  have blank: "parse_line (CHR '' '' # p) = parse_line p" for p
    by (subst (1 2) parse_line.simps) (simp add: isspace_def char_code_def)
  show ?thesis
  proof (induction ts)
    case Nil
    then show ?case
      by (subst parse_line.simps) (simp add: peek_def)
  next
    case (Cons t ts)
    show ?case
    proof (cases ts)
      case Nil
      have "parse_line [] = Some []"
        by (subst parse_line.simps) (simp add: peek_def)
      then show ?thesis
        using word [of "[]" t] Nil by (simp add: peek_def)
    next
      case (Cons u us)
      have "isspace (CHR '' '')"
        by (simp add: isspace_def char_code_def)
      then show ?thesis
        using word [of "CHR '' '' # join_text [CHR '' ''] (map repr_text ts)" t] Cons.IH Cons
        by (simp add: peek_def blank)
    qed
  qed
qed

end
