(* ===== verification/Nc_Sds_Split.thy ===== *)
theory Nc_Sds_Split
  imports Nc_Sds_Parse
begin

text \<open>
  The functions that build arrays of strings. \<open>grown\<close> says what a heap has on top of an earlier one:
  some strings in blocks of their own and at most one array; every step of the splitting functions
  is a rule about it, and what has grown by nothing is unchanged, so that a function that fails and
  cleans up leaks nothing.
\<close>

subsection \<open>What a heap has on top of another\<close>

definition grown :: "sds_heap \<Rightarrow> addr set \<Rightarrow> (addr \<times> addr list) option \<Rightarrow> sds_heap \<Rightarrow> bool" where
  "grown h0 S V h \<longleftrightarrow> sds_wf h \<and>
     (\<forall>a. if a \<in> S then strs h a \<noteq> None \<and> strs h0 a = None \<and> block_size h0 (a - sizeof_hdr) = None
          else strs h a = strs h0 a) \<and>
     (\<forall>a. vecs h a = (case V of Some (v, ys) \<Rightarrow> if a = v then Some ys else vecs h0 a | None \<Rightarrow> vecs h0 a)) \<and>
     (\<forall>v ys. V = Some (v, ys) \<longrightarrow> v \<noteq> NULL \<and> vecs h0 v = None \<and> block_size h0 v = None) \<and>
     (\<forall>a. a + sizeof_hdr \<notin> S \<longrightarrow> (\<forall>v ys. V = Some (v, ys) \<longrightarrow> a \<noteq> v) \<longrightarrow> block_size h a = block_size h0 a)"

definition has_text :: "sds_heap \<Rightarrow> addr \<Rightarrow> string \<Rightarrow> bool" where
  "has_text h x t \<longleftrightarrow> (\<exists>sh. strs h x = Some sh \<and> sh_text sh = t)"

lemma grown_wf: "grown h0 S V h \<Longrightarrow> sds_wf h"
  by (simp add: grown_def)

lemma grown_strs: "grown h0 S V h \<Longrightarrow> a \<in> S \<Longrightarrow> strs h a \<noteq> None \<and> strs h0 a = None \<and> block_size h0 (a - sizeof_hdr) = None"
  "grown h0 S V h \<Longrightarrow> a \<notin> S \<Longrightarrow> strs h a = strs h0 a"
  by (metis grown_def)+

lemma grown_vec:
  assumes "grown h0 S (Some (v, ys)) h"
  shows "v \<noteq> NULL" "vecs h v = Some ys" "vecs h0 v = None" "block_size h0 v = None"
    "block_size h v = Some (8 * length ys)" "strs h (v + sizeof_hdr) = None"
proof -
  show 1: "v \<noteq> NULL" "vecs h v = Some ys" "vecs h0 v = None" "block_size h0 v = None"
    using assms by (simp_all add: grown_def)
  show "block_size h v = Some (8 * length ys)"
    using 1(2) grown_wf [OF assms] by (simp add: sds_wf_def)
  show "strs h (v + sizeof_hdr) = None"
    using 1(2) grown_wf [OF assms] by (auto simp: sds_wf_def)
qed

lemma grown_refl: "sds_wf h \<Longrightarrow> grown h {} None h"
  by (simp add: grown_def)

lemma grown_nothing: "grown h0 {} None h \<Longrightarrow> unchanged h0 h"
  by (simp add: grown_def unchanged_def fun_eq_iff)

lemma grown_unchanged: "grown h0 S V h \<Longrightarrow> unchanged h h' \<Longrightarrow> grown h0 S V h'"
  by (simp add: grown_def unchanged_def)

text \<open>A block that is free now was free at the start.\<close>

lemma grown_fresh:
  assumes "grown h0 S V h" "block_size h a = None"
  shows "block_size h0 a = None" "a + sizeof_hdr \<notin> S" "\<And>v ys. V = Some (v, ys) \<Longrightarrow> a \<noteq> v"
proof -
  show S: "a + sizeof_hdr \<notin> S"
  proof
    assume "a + sizeof_hdr \<in> S"
    then have "strs h (a + sizeof_hdr) \<noteq> None"
      using grown_strs(1) [OF assms(1)] by blast
    then show False
      using sds_fresh(1) [OF grown_wf [OF assms(1)], of "a + sizeof_hdr"] assms(2) by simp
  qed
  show V: "V = Some (v, ys) \<Longrightarrow> a \<noteq> v" for v ys
    using grown_vec(5) [of h0 S v ys h] assms by auto
  then show "block_size h0 a = None"
    using S assms unfolding grown_def by metis
qed

lemma grown_created:
  assumes "grown h0 S V h" "created h s h' t"
  shows "grown h0 (insert s S) V h'" "s \<notin> S" "has_text h' s t"
proof -
  have c: "sds_wf h'" "strs h s = None" "vecs h' = vecs h"
    "strs h' = (strs h)(s \<mapsto> \<lparr>sh_len = int (length t), sh_free = 0, sh_buf = t @ [NUL]\<rparr>)"
    "block_size h (s - sizeof_hdr) = None" "block_size h' = (block_size h)(s - sizeof_hdr \<mapsto> 9 + length t)"
    using assms(2) by (simp_all add: created_def)
  show s: "s \<notin> S"
    using grown_strs(1) [OF assms(1)] c(2) by blast
  have "strs h0 s = None" "block_size h0 (s - sizeof_hdr) = None"
    using grown_strs(2) [OF assms(1) s] c(2) grown_fresh(1) [OF assms(1) c(5)] by simp_all
  moreover have "V = Some (v, ys) \<Longrightarrow> s - sizeof_hdr \<noteq> v" for v ys
    using grown_fresh(3) [OF assms(1) c(5)] .
  ultimately show "grown h0 (insert s S) V h'"
    using assms(1) c(1,3,4,6) s unfolding grown_def by (auto split: if_splits)
  show "has_text h' s t"
    using c(4) by (simp add: has_text_def sh_text_def)
qed

lemma grown_moved:
  assumes "grown h0 S V h" "moved h s q h' t" "s \<in> S"
  shows "grown h0 (insert q (S - {s})) V h'" "q = s \<or> q \<notin> S" "has_text h' q t"
    "\<And>x u. x \<noteq> s \<Longrightarrow> x \<noteq> q \<Longrightarrow> has_text h x u \<Longrightarrow> has_text h' x u"
proof -
  obtain sh m where m: "sds_wf h'" "q = s \<or> strs h q = None" "vecs h' = vecs h"
    "strs h' = (strs h)(s := None, q \<mapsto> sh)" "sh_text sh = t" "q = s \<or> block_size h (q - sizeof_hdr) = None"
    "block_size h' = (block_size h)(s - sizeof_hdr := None, q - sizeof_hdr \<mapsto> m)"
    using assms(2) by (auto simp: moved_def)
  show q: "q = s \<or> q \<notin> S"
    using grown_strs(1) [OF assms(1)] m(2) by blast
  have s0: "strs h0 s = None" "block_size h0 (s - sizeof_hdr) = None"
    using grown_strs(1) [OF assms(1,3)] by simp_all
  have "strs h0 q = None" "block_size h0 (q - sizeof_hdr) = None"
    using q s0 m(2,6) grown_strs(2) [OF assms(1), of q] grown_fresh(1) [OF assms(1), of "q - sizeof_hdr"] by auto
  moreover have "V = Some (v, ys) \<Longrightarrow> q - sizeof_hdr \<noteq> v \<and> s - sizeof_hdr \<noteq> v" for v ys
    using m(6) grown_fresh(3) [OF assms(1), of "q - sizeof_hdr"] grown_vec(6) [of h0 S v ys h] assms(1)
      grown_strs(1) [OF assms(1,3)] by auto
  ultimately show "grown h0 (insert q (S - {s})) V h'"
    using assms(1) m(1,3,4,7) s0 unfolding grown_def by (auto split: if_splits)
  show "has_text h' q t"
    using m(4,5) by (simp add: has_text_def)
  show "has_text h' x u" if "x \<noteq> s" "x \<noteq> q" "has_text h x u" for x u
    using m(4) that by (simp add: has_text_def)
qed

lemma grown_free:
  assumes "grown h0 S V h" "s \<in> S"
  shows "\<exists>h'. sdsfree s h = Some h' \<and> grown h0 (S - {s}) V h' \<and> strs h' = (strs h)(s := None) \<and>
    vecs h' = vecs h \<and> (\<forall>k. roomy k h \<longrightarrow> roomy k h')"
proof -
  obtain sh where sh: "strs h s = Some sh" "strs h0 s = None" "block_size h0 (s - sizeof_hdr) = None"
    using grown_strs(1) [OF assms] by auto
  obtain h' where f: "sdsfree s h = Some h'" "sds_wf h'" "strs h' = (strs h)(s := None)" "vecs h' = vecs h"
    "block_size h' = (block_size h)(s - sizeof_hdr := None)" "\<forall>k. roomy k h \<longrightarrow> roomy k h'"
    using sdsfree_ok [OF grown_wf [OF assms(1)] sh(1)] by blast
  have "V = Some (v, ys) \<Longrightarrow> s - sizeof_hdr \<noteq> v" for v ys
    using grown_vec(6) [of h0 S v ys h] assms(1) sh(1) by auto
  then have "grown h0 (S - {s}) V h'"
    using assms(1) f(2-5) sh(2,3) unfolding grown_def by (auto split: if_splits)
  then show ?thesis
    using f by blast
qed

subsection \<open>Arrays of strings\<close>

lemma grown_vec_malloc:
  assumes "grown h0 S None h" "unat n \<le> slot_size" "8 dvd unat n"
  obtains h1 where "vec_malloc n h = (NULL, h1)" "unchanged h h1" "\<not> roomy 1 h"
  | v h1 where "vec_malloc n h = (v, h1)" "v \<noteq> NULL" "grown h0 S (Some (v, replicate (unat n div 8) (junk_addr h))) h1"
      "strs h1 = strs h" "\<And>k. roomy (Suc k) h \<Longrightarrow> roomy k h1"
proof (rule malloc_sds [OF grown_wf [OF assms(1)], of n])
  fix as
  assume "malloc n h = (NULL, h\<lparr>offers := as\<rparr>)" "\<not> roomy 1 h \<or> slot_size < unat n"
  then show thesis
    using that(1) unchanged_offers [OF grown_wf [OF assms(1)], of as] assms(2) by (simp add: vec_malloc_def)
next
  fix a h1
  assume d: "malloc n h = (a, h1)" "a \<noteq> NULL" "sds_wf h1" "block_size h a = None"
    "block_size h1 = (block_size h)(a \<mapsto> unat n)" "strs h1 = strs h" "vecs h1 = vecs h"
    "junk_addr h1 = junk_addr h" "\<And>k. roomy (Suc k) h \<Longrightarrow> unat n \<le> slot_size \<Longrightarrow> roomy k h1"
  define ys where "ys = replicate (unat n div 8) (junk_addr h)"
  define h2 where "h2 = h1\<lparr>vecs := (vecs h1)(a \<mapsto> ys)\<rparr>"
  have v: "vec_malloc n h = (a, h2)"
    using d(1,2,8) by (simp add: vec_malloc_def h2_def ys_def)
  have len: "8 * length ys = unat n"
    using assms(3) by (simp add: ys_def)
  have "strs h (a + sizeof_hdr) = None"
    using sds_fresh(1) [OF grown_wf [OF assms(1)], of "a + sizeof_hdr"] d(4) by simp
  then have "t - sizeof_hdr \<noteq> a" if "strs h t \<noteq> None" for t
    using that by auto
  moreover have "block_size h w = Some (8 * length xs)" if "vecs h w = Some xs" for w xs
    using grown_wf [OF assms(1)] that by (simp add: sds_wf_def)
  ultimately have wf: "sds_wf h2"
    using d(3,5-7) len by (auto simp: sds_wf_def h2_def heap_simps hdr_ok_def)
  have "block_size h0 a = None" "vecs h0 a = None"
  proof -
    show "block_size h0 a = None"
      using grown_fresh(1) [OF assms(1) d(4)] .
    have "vecs h a = None"
      using sds_fresh(2) [OF grown_wf [OF assms(1)], of "a + sizeof_hdr"] d(4) by simp
    then show "vecs h0 a = None"
      using assms(1) by (simp add: grown_def)
  qed
  then have "grown h0 S (Some (a, ys)) h2"
    using assms(1) wf d(2,5-7) grown_fresh(2) [OF assms(1) d(4)] unfolding grown_def
    by (simp add: h2_def heap_simps)
  then show thesis
    using that(2) [OF v d(2)] d(6,9) assms(2) by (simp add: ys_def h2_def heap_simps)
qed

lemma grown_vec_realloc:
  assumes "grown h0 S (Some (v, ys)) h" "unat n \<le> slot_size" "8 dvd unat n" "n \<noteq> 0"
  shows "\<exists>q h1. vec_realloc v n h = Some (q, h1) \<and>
    (q = NULL \<and> unchanged h h1 \<and> \<not> roomy 1 h \<or>
     q \<noteq> NULL \<and> grown h0 S (Some (q, take (unat n div 8) ys @ replicate (unat n div 8 - length ys) (junk_addr h))) h1 \<and>
       strs h1 = strs h \<and> (\<forall>k. roomy (Suc k) h \<longrightarrow> roomy k h1))"
proof -
  note g = grown_vec [OF assms(1)]
  have wf: "sds_wf h" "heap_ok h"
    using grown_wf [OF assms(1)] by (simp_all add: sds_wf_def)
  show ?thesis
  proof (rule realloc_cases [OF wf(2) g(5) assms(4)])
    fix as
    assume r: "realloc v n h = Some (NULL, h\<lparr>offers := as\<rparr>)"
    then have "vec_realloc v n h = Some (NULL, h\<lparr>offers := as\<rparr>)"
      using g(1,2) by (simp add: vec_realloc_def)
    then show ?thesis
      using unchanged_offers [OF wf(1), of as] realloc_roomy(1) [OF _ assms(2) r] by auto
  next
    fix q as
    assume q: "q \<noteq> NULL" "q = v \<or> block_size h q = None" "placement_ok q (unat n) (live (drop_block v h))"
      "realloc v n h = Some (q, h\<lparr>offers := as, live := (q, unat n) # live (drop_block v h),
         bytes := copy_bytes q v (min (8 * length ys) (unat n)) (bytes h)\<rparr>)"
    define h1 where "h1 = h\<lparr>offers := as, live := (q, unat n) # live (drop_block v h),
         bytes := copy_bytes q v (min (8 * length ys) (unat n)) (bytes h)\<rparr>"
    define zs where "zs = take (unat n div 8) ys @ replicate (unat n div 8 - length ys) (junk_addr h)"
    define h2 where "h2 = h1\<lparr>vecs := ((vecs h)(v := None))(q \<mapsto> zs)\<rparr>"
    have "block_size h1 = block_size (h\<lparr>live := (q, unat n) # live (drop_block v h)\<rparr>)"
      by (rule block_size_live_cong) (simp add: h1_def)
    then have b1: "block_size h1 = (block_size h)(v := None, q \<mapsto> unat n)" "heap_ok h1"
      using block_size_live_upd [of q "unat n" v h] heap_ok_live_upd [OF wf(2) q(3)] by (simp_all add: h1_def heap_ok_def)
    have h1: "strs h1 = strs h" "vecs h1 = vecs h" "junk_addr h1 = junk_addr h"
      by (simp_all add: h1_def)
    have run: "vec_realloc v n h = Some (q, h2)"
      using g(1,2) q(1,4) by (simp add: vec_realloc_def h2_def h1 zs_def Let_def flip: h1_def)
    have len: "8 * length zs = unat n"
      using assms(3) by (auto simp: zs_def min_def)
    have fresh: "q \<noteq> v \<Longrightarrow> strs h (q + sizeof_hdr) = None \<and> vecs h q = None"
      using sds_fresh [OF wf(1), of "q + sizeof_hdr"] q(2) by auto
    have away: "t - sizeof_hdr \<noteq> q \<and> t - sizeof_hdr \<noteq> v" if "strs h t \<noteq> None" for t
      using that fresh g(6) by (metis diff_add_cancel)
    have "hdr_ok h2 t th" if "strs h t = Some th" for t th
      using sds_wfD(3) [OF wf(1) that] away [of t] that b1(1) by (simp add: hdr_ok_def h2_def heap_simps)
    moreover have "block_size h2 w = Some (8 * length xs)" if "vecs h w = Some xs" "w \<noteq> v" "w \<noteq> q" for w xs
      using wf(1) that b1(1) by (simp add: sds_wf_def h2_def heap_simps)
    ultimately have wf2: "sds_wf h2"
      using wf(1) b1 len away by (auto simp: sds_wf_def h2_def h1 heap_simps)
    have "block_size h0 q = None \<and> vecs h0 q = None \<and> q + sizeof_hdr \<notin> S"
    proof (cases "q = v")
      case True
      have "v + sizeof_hdr \<notin> S"
        using g(6) grown_strs(1) [OF assms(1)] by blast
      then show ?thesis
        using True g by simp
    next
      case False
      then have "block_size h q = None"
        using q(2) by simp
      then show ?thesis
        using False fresh grown_fresh(1,2) [OF assms(1)] assms(1) by (auto simp: grown_def)
    qed
    then have "grown h0 S (Some (q, zs)) h2"
      using assms(1) wf2 q(1) b1(1) g(3,4) unfolding grown_def by (auto simp: h2_def h1 heap_simps split: if_splits)
    moreover have "roomy k h2" if "roomy (Suc k) h" for k
    proof -
      have "roomy k h1"
        using realloc_roomy(2) [OF that assms(2) q(4)] by (simp add: h1_def)
      then show ?thesis
        by (simp add: h2_def heap_simps)
    qed
    ultimately show ?thesis
      using run q(1) by (simp add: zs_def h2_def h1)
  qed
qed

lemma grown_vec_set:
  assumes "grown h0 S (Some (v, ys)) h" "i < length ys"
  shows "\<exists>h1. vec_set v (int i) x h = Some h1 \<and> grown h0 S (Some (v, ys[i := x])) h1 \<and> strs h1 = strs h \<and>
    (\<forall>k. roomy k h1 = roomy k h)"
proof -
  note g = grown_vec [OF assms(1)]
  define h1 where "h1 = h\<lparr>vecs := (vecs h)(v \<mapsto> ys[i := x])\<rparr>"
  have "vec_set v (int i) x h = Some h1"
    using g(1,2) assms(2) by (simp add: vec_set_def get_vec_def h1_def)
  moreover have "sds_wf h1"
    using grown_wf [OF assms(1)] g(2,5) by (auto simp: sds_wf_def h1_def heap_simps hdr_ok_def)
  then have "grown h0 S (Some (v, ys[i := x])) h1"
    using assms(1) unfolding grown_def by (simp add: h1_def heap_simps)
  ultimately show ?thesis
    by (simp add: h1_def heap_simps)
qed

lemma grown_vec_free:
  assumes "grown h0 S (Some (v, ys)) h"
  shows "\<exists>h1. vec_free v h = Some h1 \<and> grown h0 S None h1 \<and> strs h1 = strs h \<and> (\<forall>k. roomy k h \<longrightarrow> roomy k h1)"
proof -
  note g = grown_vec [OF assms]
  have wf: "sds_wf h" "heap_ok h"
    using grown_wf [OF assms] by (simp_all add: sds_wf_def)
  obtain h1 where f: "free v h = Some h1" "heap_ok h1" "block_size h1 = (block_size h)(v := None)" "strs h1 = strs h"
    "vecs h1 = vecs h" "\<forall>k. roomy k h \<longrightarrow> roomy k h1"
    using free_sds [OF wf(2) g(5)] by blast
  define h2 where "h2 = h1\<lparr>vecs := (vecs h1)(v := None)\<rparr>"
  have "hdr_ok h2 t th" if "strs h t = Some th" for t th
  proof -
    have "t - sizeof_hdr \<noteq> v"
      using that g(6) by auto
    then show ?thesis
      using sds_wfD(3) [OF wf(1) that] f(3) by (simp add: hdr_ok_def h2_def heap_simps)
  qed
  moreover have "block_size h2 w = Some (8 * length xs)" if "vecs h w = Some xs" "w \<noteq> v" for w xs
    using wf(1) that f(3) by (simp add: sds_wf_def h2_def heap_simps)
  ultimately have "sds_wf h2"
    using wf(1) f(2,4,5) by (auto simp: sds_wf_def h2_def heap_simps)
  then have "grown h0 S None h2"
    using assms f(3-5) g(3,4) unfolding grown_def by (auto simp: h2_def heap_simps split: if_splits)
  then show ?thesis
    using f by (simp add: vec_free_def h2_def heap_simps)
qed
lemma grown_vec_get:
  assumes "grown h0 S (Some (v, ys)) h" "i < length ys"
  shows "vec_get v (int i) h = Some (ys ! i)"
  using grown_vec(1,2) [OF assms(1)] assms(2) by (simp add: vec_get_def get_vec_def)

lemma free_up_to_ok:
  assumes "grown h0 S (Some (v, ys)) h" "n \<le> length ys" "distinct (take n ys)" "set (take n ys) \<subseteq> S"
  shows "\<exists>h'. free_up_to n v h = Some h' \<and> grown h0 (S - set (take n ys)) (Some (v, ys)) h'"
  using assms
proof (induction n)
  case (Suc n)
  have t: "take (Suc n) ys = take n ys @ [ys ! n]"
    using Suc.prems(2) by (simp add: take_Suc_conv_app_nth)
  obtain h1 where h1: "free_up_to n v h = Some h1" "grown h0 (S - set (take n ys)) (Some (v, ys)) h1"
    using Suc t by auto
  have x: "vec_get v (int n) h1 = Some (ys ! n)" "ys ! n \<in> S - set (take n ys)"
    using grown_vec_get [OF h1(2), of n] Suc.prems(2-4) by (auto simp: t)
  then obtain h2 where "sdsfree (ys ! n) h1 = Some h2" "grown h0 (S - set (take n ys) - {ys ! n}) (Some (v, ys)) h2"
    using grown_free [OF h1(2)] by blast
  moreover have "S - set (take (Suc n) ys) = S - set (take n ys) - {ys ! n}"
    by (auto simp: t)
  ultimately show ?case
    using h1(1) x(1) by simp
qed simp

lemma free_down_ok:
  assumes "grown h0 S (Some (v, ys)) h" "n \<le> length ys" "distinct (take n ys)" "set (take n ys) \<subseteq> S"
  shows "\<exists>h'. free_down n v h = Some h' \<and> grown h0 (S - set (take n ys)) (Some (v, ys)) h'"
  using assms
proof (induction n arbitrary: S h)
  case (Suc n)
  have t: "take (Suc n) ys = take n ys @ [ys ! n]"
    using Suc.prems(2) by (simp add: take_Suc_conv_app_nth)
  have x: "vec_get v (int n) h = Some (ys ! n)" "ys ! n \<in> S" "ys ! n \<notin> set (take n ys)"
    using grown_vec_get [OF Suc.prems(1), of n] Suc.prems(2-4) by (auto simp: t)
  then obtain h1 where h1: "sdsfree (ys ! n) h = Some h1" "grown h0 (S - {ys ! n}) (Some (v, ys)) h1"
    using grown_free [OF Suc.prems(1)] by blast
  obtain h2 where "free_down n v h1 = Some h2" "grown h0 (S - {ys ! n} - set (take n ys)) (Some (v, ys)) h2"
    using Suc.IH [OF h1(2)] Suc.prems(2-4) x(3) by (auto simp: t)
  moreover have "S - set (take (Suc n) ys) = S - {ys ! n} - set (take n ys)"
    by (auto simp: t)
  ultimately show ?case
    using h1(1) x(1) by simp
qed simp

text \<open>The strings of a list of addresses.\<close>

definition texts :: "sds_heap \<Rightarrow> addr list \<Rightarrow> string list \<Rightarrow> bool" where
  "texts h xs ts \<longleftrightarrow> list_all2 (has_text h) xs ts"

lemma texts_Nil [simp]: "texts h [] []"
  by (simp add: texts_def)

lemma texts_length: "texts h xs ts \<Longrightarrow> length xs = length ts"
  by (simp add: texts_def list_all2_lengthD)

lemma has_text_cong: "strs h' x = strs h x \<Longrightarrow> has_text h' x t = has_text h x t"
  by (simp add: has_text_def)

lemma texts_cong: "texts h xs ts \<Longrightarrow> (\<And>x. x \<in> set xs \<Longrightarrow> strs h' x = strs h x) \<Longrightarrow> texts h' xs ts"
  unfolding texts_def by (erule list.rel_mono_strong) (auto simp: has_text_def)

lemma texts_mono: "texts h xs ts \<Longrightarrow> (\<And>x u. x \<in> set xs \<Longrightarrow> has_text h x u \<Longrightarrow> has_text h' x u) \<Longrightarrow> texts h' xs ts"
  unfolding texts_def by (erule list.rel_mono_strong) auto

lemma texts_snoc: "texts h xs ts \<Longrightarrow> has_text h x t \<Longrightarrow> texts h (xs @ [x]) (ts @ [t])"
  unfolding texts_def by (simp add: list_all2_appendI)

lemma created_texts: "created h s h' t \<Longrightarrow> texts h xs ts \<Longrightarrow> s \<notin> set xs \<Longrightarrow> texts h' xs ts"
  by (rule texts_cong) (auto simp: created_def)

text \<open>An array that shows exactly a list of new strings.\<close>

definition result_array :: "sds_heap \<Rightarrow> addr \<Rightarrow> string list \<Rightarrow> sds_heap \<Rightarrow> bool" where
  "result_array h0 v ts h \<longleftrightarrow> (\<exists>ys xs. grown h0 (set xs) (Some (v, ys)) h \<and> length xs \<le> length ys \<and> take (length xs) ys = xs \<and>
     distinct xs \<and> texts h xs ts)"

lemma result_array_length: "result_array h0 v ts h \<Longrightarrow> v \<noteq> NULL \<and> sds_wf h"
  by (auto simp: result_array_def dest: grown_vec(1) grown_wf)

text \<open>Releasing a result gives the heap from before it was made.\<close>

lemma sdsfreesplitres_ok:
  assumes "result_array h0 v ts h"
  shows "\<exists>h'. sdsfreesplitres v (int (length ts)) h = Some h' \<and> unchanged h0 h'"
proof -
  obtain ys xs where r: "grown h0 (set xs) (Some (v, ys)) h" "length xs \<le> length ys" "take (length xs) ys = xs"
    "distinct xs" "texts h xs ts"
    using assms by (auto simp: result_array_def)
  obtain h1 where h1: "free_down (length xs) v h = Some h1" "grown h0 {} (Some (v, ys)) h1"
    using free_down_ok [OF r(1,2)] r(3,4) by auto
  obtain h2 where h2: "vec_free v h1 = Some h2" "grown h0 {} None h2"
    using grown_vec_free [OF h1(2)] by blast
  show ?thesis
    using h1(1) h2(1) grown_nothing [OF h2(2)] grown_vec(1) [OF r(1)] texts_length [OF r(5)]
    by (simp add: sdsfreesplitres_def)
qed
subsection \<open>Splitting\<close>

lemma sep_at_ok:
  assumes "1 \<le> m" "m \<le> length sep" "j + m \<le> L" "L \<le> length s"
  shows "sep_at s (int j) sep (int m) = Some (starts (take m sep) (drop j (take L s)))"
proof -
  have st: "starts (take m sep) (drop j (take L s)) \<longleftrightarrow> take m (drop j s) = take m sep"
    using assms by (auto simp: starts_def drop_take min_absorb1)
  have "take m (drop j s) = take m sep" if "m = 1" "s ! j = sep ! 0"
    using that assms by (cases sep) (simp_all add: take_Suc_conv_app_nth)
  moreover have "memcmp (take m (drop j s)) (take m sep) = 0 \<longleftrightarrow> take m (drop j s) = take m sep"
    by (rule memcmp_eq_len) (use assms in simp)
  ultimately show ?thesis
    using assms by (auto simp: sep_at_def at_def get_chars_Some st)
qed

text \<open>The tokens found so far, in an array with room for at least one more.\<close>

definition split_mem :: "sds_heap \<Rightarrow> split_state \<Rightarrow> sds_heap \<Rightarrow> string list \<Rightarrow> bool" where
  "split_mem h0 st h ts \<longleftrightarrow> result_array h0 (tokens st) ts h \<and> elements st = int (length ts)"

definition split_inv :: "sds_heap \<Rightarrow> split_state \<Rightarrow> sds_heap \<Rightarrow> string list \<Rightarrow> bool" where
  "split_inv h0 st h ts \<longleftrightarrow> split_mem h0 st h ts \<and> vecs h (tokens st) \<noteq> None \<and>
     int (length (the (vecs h (tokens st)))) = slots st \<and> elements st < slots st \<and> slots st \<le> 2 * elements st + 5"

lemma split_cleanup_ok:
  assumes "split_mem h0 st h ts"
  shows "\<exists>h'. split_cleanup st h = Some ((NULL, Some 0), h') \<and> unchanged h0 h'"
proof -
  obtain ys xs where r: "grown h0 (set xs) (Some (tokens st, ys)) h" "length xs \<le> length ys" "take (length xs) ys = xs"
    "distinct xs" "texts h xs ts" "elements st = int (length xs)"
    using assms texts_length by (auto simp: split_mem_def result_array_def)
  obtain h1 where h1: "free_up_to (length xs) (tokens st) h = Some h1" "grown h0 {} (Some (tokens st, ys)) h1"
    using free_up_to_ok [OF r(1,2)] r(3,4) by auto
  obtain h2 where h2: "vec_free (tokens st) h1 = Some h2" "grown h0 {} None h2"
    using grown_vec_free [OF h1(2)] by blast
  show ?thesis
    using h1(1) h2(1) grown_nothing [OF h2(2)] r(6) by (simp add: split_cleanup_def)
qed

lemma split_inv_E:
  assumes "split_inv h0 st h ts"
  obtains ys xs where "grown h0 (set xs) (Some (tokens st, ys)) h" "take (length xs) ys = xs" "distinct xs"
    "texts h xs ts" "length xs = length ts" "elements st = int (length ts)" "slots st = int (length ys)"
    "length ts < length ys" "slots st \<le> 2 * elements st + 5"
proof -
  obtain ys xs where r: "grown h0 (set xs) (Some (tokens st, ys)) h" "take (length xs) ys = xs" "distinct xs" "texts h xs ts"
    using assms by (auto simp: split_inv_def split_mem_def result_array_def)
  then show thesis
    using that [OF r texts_length [OF r(4)]] assms grown_vec(2) [OF r(1)] by (simp add: split_inv_def split_mem_def)
qed

lemma split_inv_I:
  assumes "grown h0 (set xs) (Some (tokens st, ys)) h" "take (length xs) ys = xs" "distinct xs" "texts h xs ts"
    "elements st = int (length ts)" "slots st = int (length ys)" "length ts < length ys" "slots st \<le> 2 * elements st + 5"
  shows "split_inv h0 st h ts"
proof -
  have "length xs \<le> length ys"
    using assms(4,7) texts_length by fastforce
  then have "split_mem h0 st h ts"
    using assms by (auto simp: split_mem_def result_array_def)
  then show ?thesis
    using assms grown_vec(2) [OF assms(1)] by (simp add: split_inv_def)
qed

lemma split_room_ok:
  assumes "split_inv h0 st h ts" "length ts \<le> 134217728"
  shows "\<exists>r h'. split_room st h = Some (r, h') \<and>
    (case r of
       LoopDone st' \<Rightarrow> split_inv h0 st' h' ts \<and> elements st' = elements st \<and> start st' = start st \<and>
         int (length ts) + 2 \<le> slots st' \<and> (\<forall>k. roomy (Suc k) h \<longrightarrow> roomy k h')
     | Cleanup st' \<Rightarrow> split_mem h0 st' h' ts \<and> \<not> roomy 1 h)"
proof -
  obtain ys xs where r: "grown h0 (set xs) (Some (tokens st, ys)) h" "take (length xs) ys = xs" "distinct xs" "texts h xs ts"
    "length xs = length ts" "elements st = int (length ts)" "slots st = int (length ys)"
    "length ts < length ys" "slots st \<le> 2 * elements st + 5"
    using split_inv_E [OF assms(1)] by metis
  have chk: "int_chk (elements st + 2) = Some (elements st + 2)" "int_chk (slots st * 2) = Some (slots st * 2)"
    using r(6,7,9) assms(2) by (simp_all add: int_chk_def int_limits)
  show ?thesis
  proof (cases "slots st < elements st + 2")
    case False
    then show ?thesis
      using chk assms(1) r(6) by (auto simp: split_room_def dest: roomy_Suc)
  next
    case True
    then have len: "length ys = Suc (length ts)"
      using r(6-8) by linarith
    define n where "n = sizeof_ptr * size_of_int (slots st * 2)"
    have s2: "unat (size_of_int (slots st * 2)) = 2 * length ys"
      using r(7) len assms(2) by (subst unat_size_of_int) (simp_all add: INT_MAX_def nat_mult_distrib)
    then have n: "unat n = 8 * (2 * length ys)"
      using len assms(2) by (simp add: n_def sizeof_ptr_def unat_mult_ok)
    have sz: "unat n \<le> slot_size" "8 dvd unat n" "n \<noteq> 0"
      using n len assms(2) by (auto simp: slot_size_def)
    obtain q h1 where v: "vec_realloc (tokens st) n h = Some (q, h1)"
      "q = NULL \<and> unchanged h h1 \<and> \<not> roomy 1 h \<or>
       q \<noteq> NULL \<and> grown h0 (set xs) (Some (q, ys @ replicate (length ys) (junk_addr h))) h1 \<and> strs h1 = strs h \<and>
         (\<forall>k. roomy (Suc k) h \<longrightarrow> roomy k h1)"
      using grown_vec_realloc [OF r(1) sz] n by auto
    have run: "split_room st h = (if q = NULL then Some (Cleanup (st\<lparr>slots := slots st * 2\<rparr>), h1)
        else Some (LoopDone (st\<lparr>slots := slots st * 2, tokens := q\<rparr>), h1))"
      using chk True v(1) by (simp add: split_room_def flip: n_def)
    show ?thesis
    proof (cases "q = NULL")
      case True
      then have u: "unchanged h h1" "\<not> roomy 1 h"
        using v(2) by auto
      have "result_array h0 (tokens st) ts h1"
        using r(1-5,8) grown_unchanged [OF r(1) u(1)] texts_cong [OF r(4), of h1] u(1)
        unfolding result_array_def unchanged_def by (intro exI [of _ ys] exI [of _ xs]) auto
      then have "split_mem h0 (st\<lparr>slots := slots st * 2\<rparr>) h1 ts"
        using r(6) by (simp add: split_mem_def)
      then show ?thesis
        using run True u(2) by simp
    next
      case False
      then have d: "grown h0 (set xs) (Some (q, ys @ replicate (length ys) (junk_addr h))) h1" "strs h1 = strs h"
        "\<forall>k. roomy (Suc k) h \<longrightarrow> roomy k h1"
        using v(2) by auto
      have "split_inv h0 (st\<lparr>slots := slots st * 2, tokens := q\<rparr>) h1 ts"
        by (rule split_inv_I [where xs = xs and ys = "ys @ replicate (length ys) (junk_addr h)"])
          (use d r texts_cong [OF r(4), of h1] len in simp_all)
      then show ?thesis
        using run False d(3) r(7) len by simp
    qed
  qed
qed

lemma add_token_ok:
  assumes "split_inv h0 st h ts" "start st = int b" "b + n \<le> length s" "n \<le> 1073741824"
  shows "\<exists>x h'. add_token s (int n) st h = Some (x, h') \<and>
    (x = NULL \<and> split_mem h0 st h' ts \<and> \<not> roomy 1 h \<or>
     x \<noteq> NULL \<and> split_mem h0 (st\<lparr>elements := elements st + 1\<rparr>) h' (ts @ [take n (drop b s)]) \<and>
       (int (length ts) + 2 \<le> slots st \<longrightarrow>
         split_inv h0 (st\<lparr>elements := elements st + 1\<rparr>) h' (ts @ [take n (drop b s)])) \<and>
       (\<forall>k. roomy (Suc k) h \<longrightarrow> roomy k h'))"
proof -
  obtain ys xs where r: "grown h0 (set xs) (Some (tokens st, ys)) h" "take (length xs) ys = xs" "distinct xs" "texts h xs ts"
    "length xs = length ts" "elements st = int (length ts)" "slots st = int (length ys)"
    "length ts < length ys" "slots st \<le> 2 * elements st + 5"
    using split_inv_E [OF assms(1)] by metis
  have un: "unat (size_of_int (int n)) = n"
    using assms(4) by (simp add: unat_size_of_int INT_MAX_def)
  define t where "t = take n (drop b s)"
  have "n \<le> length (drop b s)"
    using assms(3) by simp
  then obtain x h1 where nl: "sdsnewlen (Some (drop b s)) (size_of_int (int n)) h = Some (x, h1)"
    "x = NULL \<and> unchanged h h1 \<and> \<not> roomy 1 h \<or>
     x \<noteq> NULL \<and> created h x h1 t \<and> (\<forall>k. roomy (Suc k) h \<longrightarrow> roomy k h1)"
    using newlen_ok [OF grown_wf [OF r(1)], of "size_of_int (int n)" "Some (drop b s)" t] un assms(4)
    by (auto simp: t_def)
  have run: "add_token s (int n) st h = do { h2 \<leftarrow> vec_set (tokens st) (int (length ts)) x h1; Some (x, h2) }"
    using nl(1) assms(2,3) r(6) by (simp add: add_token_def)
  show ?thesis
  proof (cases "x = NULL")
    case True
    then have u: "unchanged h h1" "\<not> roomy 1 h"
      using nl(2) by auto
    obtain h2 where h2: "vec_set (tokens st) (int (length ts)) x h1 = Some h2"
      "grown h0 (set xs) (Some (tokens st, ys[length ts := x])) h2" "strs h2 = strs h1"
      using grown_vec_set [OF grown_unchanged [OF r(1) u(1)] r(8)] by blast
    have "split_mem h0 st h2 ts"
      using h2(2) r(2-6,8) texts_cong [OF r(4), of h2] h2(3) u(1)
      unfolding split_mem_def result_array_def unchanged_def
      by (intro conjI exI [of _ "ys[length ts := x]"] exI [of _ xs]) auto
    then show ?thesis
      using run h2(1) True u(2) by simp
  next
    case False
    then have d: "created h x h1 t" "\<forall>k. roomy (Suc k) h \<longrightarrow> roomy k h1"
      using nl(2) by auto
    have g: "grown h0 (insert x (set xs)) (Some (tokens st, ys)) h1" "x \<notin> set xs" "has_text h1 x t"
      using grown_created [OF r(1) d(1)] by simp_all
    obtain h2 where h2: "vec_set (tokens st) (int (length ts)) x h1 = Some h2"
      "grown h0 (insert x (set xs)) (Some (tokens st, ys[length ts := x])) h2" "strs h2 = strs h1" "\<forall>k. roomy k h2 = roomy k h1"
      using grown_vec_set [OF g(1) r(8)] by blast
    have gs: "grown h0 (set (xs @ [x])) (Some (tokens st, ys[length ts := x])) h2"
      using h2(2) by simp
    have tk: "take (length (xs @ [x])) (ys[length ts := x]) = xs @ [x]"
      using r(2,5,8) by (simp add: take_Suc_conv_app_nth)
    have tx: "texts h2 (xs @ [x]) (ts @ [t])"
      using texts_snoc [OF created_texts [OF d(1) r(4) g(2)] g(3)] texts_cong h2(3) by metis
    have ds: "distinct (xs @ [x])"
      using r(3) g(2) by simp
    have "split_mem h0 (st\<lparr>elements := elements st + 1\<rparr>) h2 (ts @ [t])"
      using gs tk tx ds r(5,6,8) unfolding split_mem_def result_array_def
      by (intro conjI exI [of _ "ys[length ts := x]"] exI [of _ "xs @ [x]"]) simp_all
    moreover have "split_inv h0 (st\<lparr>elements := elements st + 1\<rparr>) h2 (ts @ [t])" if "int (length ts) + 2 \<le> slots st"
      by (rule split_inv_I [where xs = "xs @ [x]" and ys = "ys[length ts := x]"])
        (use gs tk tx ds r(6,7,9) that in simp_all)
    ultimately show ?thesis
      using run h2(1,4) False d(2) by (simp add: t_def)
  qed
qed
text \<open>
  The loop: the tokens so far and what lies between \<open>start\<close> and \<open>j\<close> are the beginning of the split of
  the whole text.
\<close>

definition split_pos :: "string \<Rightarrow> string \<Rightarrow> nat \<Rightarrow> nat \<Rightarrow> string list \<Rightarrow> bool" where
  "split_pos sep t b j ts \<longleftrightarrow> b \<le> j \<and> j \<le> length t \<and> length ts \<le> j \<and>
     (\<forall>u us. split_text sep (drop j t) = u # us \<longrightarrow> split_text sep t = ts @ (take (j - b) (drop b t) @ u) # us)"

lemma split_pos_next:
  assumes "split_pos sep t b j ts" "j < length t" "\<not> starts sep (drop j t)"
  shows "split_pos sep t b (Suc j) ts"
proof -
  have d: "drop j t = t ! j # drop (Suc j) t"
    using assms(2) by (simp add: Cons_nth_drop_Suc)
  obtain u us where u: "split_text sep (drop (Suc j) t) = u # us" "split_text sep (drop j t) = (t ! j # u) # us"
    using split_text_next [of sep "t ! j" "drop (Suc j) t"] assms(3) unfolding d by metis
  have bj: "b \<le> j"
    using assms(1) by (simp add: split_pos_def)
  then have "take (Suc j - b) (drop b t) = take (j - b) (drop b t) @ [t ! j]"
    using assms(2) by (simp add: Suc_diff_le take_Suc_conv_app_nth)
  moreover have "split_text sep t = ts @ (take (j - b) (drop b t) @ t ! j # u) # us"
    using assms(1) u(2) by (simp add: split_pos_def)
  ultimately show ?thesis
    using assms(1,2) u(1) by (simp add: split_pos_def)
qed

lemma split_pos_found:
  assumes "split_pos sep t b j ts" "sep \<noteq> []" "starts sep (drop j t)" "j + length sep \<le> length t"
  shows "split_pos sep t (j + length sep) (j + length sep) (ts @ [take (j - b) (drop b t)])"
proof -
  have "split_text sep (drop j t) = [] # split_text sep (drop (j + length sep) t)"
    using split_text_found [OF assms(2,3)] by (simp add: add.commute)
  moreover obtain m where "length sep = Suc m"
    using assms(2) by (cases sep) auto
  ultimately show ?thesis
    using assms(1,4) by (auto simp: split_pos_def)
qed

lemma split_pos_end:
  assumes "split_pos sep t b j ts" "length t < j + length sep"
  shows "split_text sep t = ts @ [drop b t]"
proof -
  have "length (drop j t) < length sep"
    using assms by (auto simp: split_pos_def)
  then have "split_text sep (drop j t) = [drop j t]"
    by (rule split_text_short)
  then have "split_text sep t = ts @ [take (j - b) (drop b t) @ drop j t]"
    using assms(1) by (simp add: split_pos_def)
  moreover have "take (j - b) (drop b t) @ drop j t = drop b t"
    using assms(1) append_take_drop_id [of "j - b" "drop b t"] by (simp add: split_pos_def)
  ultimately show ?thesis
    by simp
qed

text \<open>
  What the loop leaves when it started in \<open>h\<close> and needs at most \<open>n\<close> requests: the array so far and the
  start of the last part, or the array to clean up.
\<close>

definition split_post :: "sds_heap \<Rightarrow> string \<Rightarrow> string \<Rightarrow> nat \<Rightarrow> sds_heap \<Rightarrow> loop_exit \<times> sds_heap \<Rightarrow> bool" where
  "split_post h0 sp t n h rh \<longleftrightarrow>
     (case fst rh of
        LoopDone st' \<Rightarrow> \<exists>ts b. split_inv h0 st' (snd rh) ts \<and> start st' = int b \<and> b \<le> length t \<and>
          split_text sp t = ts @ [drop b t] \<and> (\<forall>k. roomy (n + k) h \<longrightarrow> roomy k (snd rh))
      | Cleanup st' \<Rightarrow> (\<exists>ts. split_mem h0 st' (snd rh) ts) \<and> \<not> roomy n h)"

lemma split_post_mono:
  assumes "split_post h0 sp t n h1 rh" "\<And>k. roomy (m + k) h \<Longrightarrow> roomy (n + k) h1"
  shows "split_post h0 sp t m h rh"
  using assms(1) assms(2) assms(2) [of 0] by (cases "fst rh") (auto simp: split_post_def)

lemma split_token:
  assumes "split_inv h0 st h ts" "start st = int b" "b \<le> j" "j \<le> L" "L \<le> length s" "L \<le> 134217728"
  shows "\<exists>x h'. add_token s (int j - start st) st h = Some (x, h') \<and>
    (x = NULL \<and> split_mem h0 st h' ts \<and> \<not> roomy 1 h \<or>
     x \<noteq> NULL \<and> split_mem h0 (st\<lparr>elements := elements st + 1\<rparr>) h' (ts @ [take (j - b) (drop b (take L s))]) \<and>
       (int (length ts) + 2 \<le> slots st \<longrightarrow>
         split_inv h0 (st\<lparr>elements := elements st + 1\<rparr>) h' (ts @ [take (j - b) (drop b (take L s))])) \<and>
       (\<forall>k. roomy (Suc k) h \<longrightarrow> roomy k h'))"
proof -
  have "take (j - b) (drop b s) = take (j - b) (drop b (take L s))"
    using assms(3,4) by (simp add: drop_take)
  moreover have "int j - start st = int (j - b)" "b + (j - b) \<le> length s" "j - b \<le> 1073741824"
    using assms by (simp_all add: of_nat_diff)
  ultimately show ?thesis
    using add_token_ok [OF assms(1,2), of "j - b" s] by simp
qed

text \<open>One round of the loop: it runs out of memory, or goes on at a later position.\<close>

lemma split_iter:
  assumes "1 \<le> m" "m \<le> length sep" "L \<le> length s" "L \<le> 134217728" "j + m \<le> L"
    and "split_inv h0 st h ts" "start st = int b" "split_pos (take m sep) (take L s) b j ts"
  obtains (Fail) st' h' where "split_loop s (int L) sep (int m) (int j) st h = Some (Cleanup st', h')"
      "split_mem h0 st' h' ts" "\<not> roomy 2 h"
  | (Next) j' b' ts' st' h' where
      "split_loop s (int L) sep (int m) (int j) st h = split_loop s (int L) sep (int m) (int j') st' h'" "j < j'" "j' \<le> L"
      "split_inv h0 st' h' ts'" "start st' = int b'" "split_pos (take m sep) (take L s) b' j' ts'"
      "\<And>k. roomy (2 + k) h \<Longrightarrow> roomy k h'"
proof -
  define t sp where "t = take L s" and "sp = take m sep"
  have len: "length t = L" "length sp = m" "sp \<noteq> []"
    using assms(1-3) by (auto simp: t_def sp_def)
  have pos: "split_pos sp t b j ts" "b \<le> j" "j \<le> L" "length ts \<le> j"
    using assms(8) len by (simp_all add: t_def sp_def split_pos_def)
  have cond: "1 \<le> int m \<and> int j < int L - (int m - 1)"
    using assms(1,5) by linarith
  have sep: "sep_at s (int j) sep (int m) = Some (starts sp (drop j t))"
    using sep_at_ok [OF assms(1,2,5,3)] by (simp add: sp_def t_def)
  obtain r1 h1 where room: "split_room st h = Some (r1, h1)"
    "case r1 of
       LoopDone st' \<Rightarrow> split_inv h0 st' h1 ts \<and> elements st' = elements st \<and> start st' = start st \<and>
         int (length ts) + 2 \<le> slots st' \<and> (\<forall>k. roomy (Suc k) h \<longrightarrow> roomy k h1)
     | Cleanup st' \<Rightarrow> split_mem h0 st' h1 ts \<and> \<not> roomy 1 h"
    using split_room_ok [OF assms(6)] pos(3,4) assms(4) by (meson le_trans)
  show thesis
  proof (cases r1)
    case (Cleanup st1)
    then have "split_loop s (int L) sep (int m) (int j) st h = Some (Cleanup st1, h1)"
      using cond room(1) by (subst split_loop.simps) simp
    then show thesis
      by (rule Fail) (use room(2) Cleanup roomy_mono [of 2 h 1] in auto)
  next
    case (LoopDone st1)
    then have r1: "split_inv h0 st1 h1 ts" "start st1 = int b" "int (length ts) + 2 \<le> slots st1"
      "\<And>k. roomy (Suc k) h \<Longrightarrow> roomy k h1"
      using room(2) assms(7) by auto
    show thesis
    proof (cases "starts sp (drop j t)")
      case False
      have "split_loop s (int L) sep (int m) (int j) st h = split_loop s (int L) sep (int m) (int (Suc j)) st1 h1"
        using cond room(1) LoopDone sep False by (subst split_loop.simps) (simp add: add.commute)
      moreover have "split_pos (take m sep) (take L s) b (Suc j) ts"
        using split_pos_next [OF pos(1) _ False] assms(1,5) len by (simp flip: sp_def t_def)
      moreover have "roomy k h1" if "roomy (2 + k) h" for k
        using r1(4) roomy_mono [OF that, of "Suc k"] by simp
      ultimately show thesis
        using Next [of "Suc j" st1 h1 ts b] r1(1,2) assms(1,5) by simp
    next
      case found: True
      obtain x h2 where tk: "add_token s (int j - start st1) st1 h1 = Some (x, h2)"
        "x = NULL \<and> split_mem h0 st1 h2 ts \<and> \<not> roomy 1 h1 \<or>
         x \<noteq> NULL \<and> split_inv h0 (st1\<lparr>elements := elements st1 + 1\<rparr>) h2 (ts @ [take (j - b) (drop b t)]) \<and>
           (\<forall>k. roomy (Suc k) h1 \<longrightarrow> roomy k h2)"
        using split_token [OF r1(1,2) pos(2,3) assms(3,4)] r1(3) unfolding t_def by blast
      define st2 where "st2 = st1\<lparr>elements := elements st1 + 1, start := int j + int m\<rparr>"
      have run: "split_loop s (int L) sep (int m) (int j) st h =
          (if x = NULL then Some (Cleanup st1, h2) else split_loop s (int L) sep (int m) (int (j + m)) st2 h2)"
        using cond room(1) LoopDone sep found tk(1) by (subst split_loop.simps) (simp add: st2_def)
      show thesis
      proof (cases "x = NULL")
        case True
        then show thesis
          using Fail run tk(2) r1(4) [of 1] by (auto simp: numeral_2_eq_2)
      next
        case False
        then have "split_inv h0 st2 h2 (ts @ [take (j - b) (drop b t)])" "start st2 = int (j + m)"
          using tk(2) by (simp_all add: split_inv_def split_mem_def st2_def)
        moreover have "split_pos (take m sep) (take L s) (j + m) (j + m) (ts @ [take (j - b) (drop b t)])"
          using split_pos_found [OF pos(1) len(3) found] assms(5) len by (simp flip: sp_def t_def)
        moreover have "roomy k h2" if "roomy (2 + k) h" for k
          using tk(2) r1(4) [of "Suc k"] that False by simp
        ultimately show thesis
          using Next [of "j + m" st2 h2 "ts @ [take (j - b) (drop b t)]" "j + m"] run False assms(1,5) by simp
      qed
    qed
  qed
qed

lemma split_loop_ok:
  assumes "1 \<le> m" "m \<le> length sep" "L \<le> length s" "L \<le> 134217728"
    and "split_inv h0 st h ts" "start st = int b" "split_pos (take m sep) (take L s) b j ts"
  shows "\<exists>rh. split_loop s (int L) sep (int m) (int j) st h = Some rh \<and>
    split_post h0 (take m sep) (take L s) (2 * (L - j)) h rh"
  using assms(5-7)
proof (induction "L - j" arbitrary: j st h ts b rule: less_induct)
  case less
  show ?case
  proof (cases "j + m \<le> L")
    case False
    then have "split_text (take m sep) (take L s) = ts @ [drop b (take L s)]" "b \<le> L"
      using split_pos_end [OF less.prems(3)] less.prems(3) assms(2,3) by (simp_all add: split_pos_def)
    moreover have "roomy k h" if "roomy (2 * (L - j) + k) h" for k
      using roomy_mono [OF that] by simp
    moreover have "\<not> (1 \<le> int m \<and> int j < int L - (int m - 1))"
      using False by linarith
    ultimately show ?thesis
      using less.prems(1,2) assms(3) by (subst split_loop.simps) (auto simp: split_post_def)
  next
    case True
    then have jL: "j < L"
      using assms(1) by simp
    show ?thesis
    proof (rule split_iter [OF assms(1-4) True less.prems])
      fix st' h'
      assume a: "split_loop s (int L) sep (int m) (int j) st h = Some (Cleanup st', h')" "split_mem h0 st' h' ts" "\<not> roomy 2 h"
      have "2 \<le> 2 * (L - j)"
        using jL by linarith
      then have "\<not> roomy (2 * (L - j)) h"
        using a(3) roomy_mono by blast
      then show ?thesis
        using a by (auto simp: split_post_def)
    next
      fix j' b' ts' st' h'
      assume a: "split_loop s (int L) sep (int m) (int j) st h = split_loop s (int L) sep (int m) (int j') st' h'" "j < j'" "j' \<le> L"
        "split_inv h0 st' h' ts'" "start st' = int b'" "split_pos (take m sep) (take L s) b' j' ts'"
        "\<And>k. roomy (2 + k) h \<Longrightarrow> roomy k h'"
      have "L - j' < L - j"
        using a(2) jL by simp
      from less.hyps [OF this a(4-6)] obtain rh where
        rh: "split_loop s (int L) sep (int m) (int j') st' h' = Some rh"
        "split_post h0 (take m sep) (take L s) (2 * (L - j')) h' rh"
        by blast
      have "roomy (2 * (L - j') + k) h'" if "roomy (2 * (L - j) + k) h" for k
        using a(7) roomy_mono [OF that, of "2 + (2 * (L - j') + k)"] a(2) jL by simp
      then show ?thesis
        using a(1) rh split_post_mono by auto
    qed
  qed
qed


text \<open>The last part and the end of the function, with the array or with its clean-up.\<close>

lemma split_finish:
  assumes "split_post h0 sp (take L s) n h (r, h2)" "L \<le> length s" "L \<le> 134217728"
  shows "\<exists>v cnt h'. (case r of
        Cleanup st \<Rightarrow> split_cleanup st h2
      | LoopDone st \<Rightarrow> do {
          (x, h3) \<leftarrow> add_token s (int L - start st) st h2;
          if x = NULL then split_cleanup st h3
          else Some ((tokens st, Some (elements st + 1)), h3)
        }) = Some ((v, cnt), h') \<and>
    (v = NULL \<and> cnt = Some 0 \<and> unchanged h0 h' \<and> \<not> roomy (Suc n) h \<or>
     v \<noteq> NULL \<and> cnt = Some (int (length (split_text sp (take L s)))) \<and> result_array h0 v (split_text sp (take L s)) h' \<and>
       (\<forall>k. roomy (Suc (n + k)) h \<longrightarrow> roomy k h'))"
proof (cases r)
  case (Cleanup st)
  then obtain ts where c: "split_mem h0 st h2 ts" "\<not> roomy n h"
    using assms(1) by (auto simp: split_post_def)
  then have "\<not> roomy (Suc n) h"
    using roomy_mono [of "Suc n" h n] by auto
  then show ?thesis
    using split_cleanup_ok [OF c(1)] Cleanup by auto
next
  case (LoopDone st)
  then obtain ts b where c: "split_inv h0 st h2 ts" "start st = int b" "b \<le> L"
    "split_text sp (take L s) = ts @ [drop b (take L s)]" "\<And>k. roomy (n + k) h \<Longrightarrow> roomy k h2"
    using assms(1,2) by (auto simp: split_post_def)
  obtain x h3 where ad: "add_token s (int L - start st) st h2 = Some (x, h3)"
    "x = NULL \<and> split_mem h0 st h3 ts \<and> \<not> roomy 1 h2 \<or>
     x \<noteq> NULL \<and> split_mem h0 (st\<lparr>elements := elements st + 1\<rparr>) h3 (split_text sp (take L s)) \<and>
       (\<forall>k. roomy (Suc k) h2 \<longrightarrow> roomy k h3)"
    using split_token [OF c(1,2,3) le_refl assms(2,3)] c(4) by auto
  show ?thesis
  proof (cases "x = NULL")
    case True
    then have d: "split_mem h0 st h3 ts" "\<not> roomy (Suc n) h"
      using ad(2) c(5) [of 1] by auto
    then show ?thesis
      using split_cleanup_ok [OF d(1)] LoopDone ad(1) True by auto
  next
    case False
    then have d: "result_array h0 (tokens st) (split_text sp (take L s)) h3"
      "elements st + 1 = int (length (split_text sp (take L s)))" "\<forall>k. roomy (Suc k) h2 \<longrightarrow> roomy k h3"
      using ad(2) by (simp_all add: split_mem_def)
    have "roomy k h3" if "roomy (Suc (n + k)) h" for k
      using d(3) c(5) [of "Suc k"] that by simp
    then show ?thesis
      using d(1,2) LoopDone ad(1) False result_array_length [OF d(1)] by auto
  qed
qed

lemma sdssplitlen_ok:
  assumes "sds_wf h" "1 \<le> m" "m \<le> length sep" "L \<le> length s" "L \<le> 134217728"
  shows "\<exists>v cnt h'. sdssplitlen s (int L) sep (int m) h = Some ((v, cnt), h') \<and>
    (v = NULL \<and> cnt \<in> {None, Some 0} \<and> unchanged h h' \<and> \<not> roomy (2 * L + 2) h \<or>
     v \<noteq> NULL \<and> (\<exists>ts. cnt = Some (int (length ts)) \<and> result_array h v ts h' \<and>
       ts = (if L = 0 then [] else split_text (take m sep) (take L s))) \<and>
       (\<forall>k. roomy (2 * L + 2 + k) h \<longrightarrow> roomy k h'))"
proof -
  define n where "n = sizeof_ptr * 5"
  have n: "unat n = 40" "unat n \<le> slot_size" "8 dvd unat n"
    by (simp_all add: n_def sizeof_ptr_def slot_size_def)
  have guard: "\<not> (int m < 1 \<or> int L < 0)"
    using assms(2) by simp
  have r0: "\<not> roomy (2 * L + 2) h" if "\<not> roomy 1 h"
    using that roomy_mono [of "2 * L + 2" h 1] by auto
  show ?thesis
  proof (rule grown_vec_malloc [OF grown_refl [OF assms(1)] n(2,3)])
    fix h1
    assume "vec_malloc n h = (NULL, h1)" "unchanged h h1" "\<not> roomy 1 h"
    then show ?thesis
      using guard r0 by (simp add: sdssplitlen_def flip: n_def)
  next
    fix v h1
    assume a: "vec_malloc n h = (v, h1)" "v \<noteq> NULL" "grown h {} (Some (v, replicate (unat n div 8) (junk_addr h))) h1"
      "strs h1 = strs h" "\<And>k. roomy (Suc k) h \<Longrightarrow> roomy k h1"
    define st where "st = \<lparr>tokens = v, elements = 0, slots = 5, start = 0\<rparr>"
    show ?thesis
    proof (cases "L = 0")
      case True
      have "result_array h v [] h1"
        using a(3) unfolding result_array_def by (intro exI [of _ "replicate (unat n div 8) (junk_addr h)"] exI [of _ "[]"]) simp
      moreover have "roomy k h1" if "roomy (2 * L + 2 + k) h" for k
        using a(5) roomy_mono [OF that, of "Suc k"] by simp
      ultimately show ?thesis
        using True a(1,2) guard by (simp add: sdssplitlen_def flip: n_def)
    next
      case False
      have inv: "split_inv h st h1 []"
        by (rule split_inv_I [where xs = "[]" and ys = "replicate 5 (junk_addr h)"])
          (use a(3) n(1) in \<open>simp_all add: st_def\<close>)
      obtain r h2 where lp: "split_loop s (int L) sep (int m) 0 st h1 = Some (r, h2)"
        "split_post h (take m sep) (take L s) (2 * L) h1 (r, h2)"
        using split_loop_ok [OF assms(2-5) inv, of 0 0] by (auto simp: st_def split_pos_def)
      have "sdssplitlen s (int L) sep (int m) h = (case r of
            Cleanup st \<Rightarrow> split_cleanup st h2
          | LoopDone st \<Rightarrow> do {
              (x, h3) \<leftarrow> add_token s (int L - start st) st h2;
              if x = NULL then split_cleanup st h3
              else Some ((tokens st, Some (elements st + 1)), h3)
            })"
        using guard a(1,2) False lp(1) by (simp add: sdssplitlen_def st_def flip: n_def)
      then show ?thesis
        using split_finish [OF lp(2) assms(4,5)] a(5) False by fastforce
    qed
  qed
qed

subsection \<open>Joining\<close>

lemma moved_texts:
  assumes "moved h s q h' t" "texts h xs ts" "s \<notin> set xs"
  shows "texts h' xs ts" "q \<notin> set xs"
proof -
  have "strs h x \<noteq> None" if "x \<in> set xs" for x
    using assms(2) that by (auto simp: texts_def list_all2_conv_all_nth in_set_conv_nth has_text_def)
  then show q: "q \<notin> set xs"
    using assms(1,3) unfolding moved_def by blast
  show "texts h' xs ts"
    by (rule texts_cong [OF assms(2)]) (use assms(1,3) q in \<open>auto simp: moved_def\<close>)
qed

lemma catlen_step:
  assumes "sds_wf h" "strs h s = Some sh" "unat n \<le> length t" "length (sh_text sh) + unat n \<le> 1073741824" "roomy (Suc j) h"
  obtains q h' sh' where "sdscatlen s t n h = Some (q, h')" "q \<noteq> NULL" "moved h s q h' (sh_text sh @ take (unat n) t)"
    "roomy j h'" "sds_wf h'" "strs h' q = Some sh'" "sh_text sh' = sh_text sh @ take (unat n) t"
proof -
  obtain q h' where c: "sdscatlen s t n h = Some (q, h')" "edits 1 h s q h' (sh_text sh @ take (unat n) t)"
    using sdscatlen_edits [OF assms(1-4)] by blast
  have "roomy (1 + j) h"
    using assms(5) by simp
  note e = edits_roomy [OF c(2) this]
  obtain sh' where "strs h' q = Some sh'" "sh_text sh' = sh_text sh @ take (unat n) t"
    using moved_get [OF e(2)] by blast
  then show thesis
    using that [OF c(1) e] e(2) by (simp add: moved_def)
qed

lemma join_loop_ok:
  assumes "sds_wf h" "strs h s = Some sh" "s \<noteq> NULL" "unat n \<le> length sep"
    and "length (sh_text sh) + length (join_text (take (unat n) sep) ts) \<le> 1073741824" "roomy (2 * length ts + j) h"
  shows "\<exists>q h'. join_loop ts sep n s h = Some (q, h') \<and> q \<noteq> NULL \<and>
    moved h s q h' (sh_text sh @ join_text (take (unat n) sep) ts) \<and> roomy j h'"
  using assms(1-3,5,6)
proof (induction ts arbitrary: s h sh)
  case Nil
  then show ?case
    using moved_refl [of h s sh] by simp
next
  case (Cons t ts)
  have lt: "length t \<le> length (join_text (take (unat n) sep) (t # ts))"
    by (cases ts) simp_all
  then have u: "unat (of_nat (length t) :: size_t) = length t"
    using Cons.prems(4) by (simp add: unat_of_nat_ok)
  have cap: "length (sh_text sh) + unat (of_nat (length t) :: size_t) \<le> 1073741824"
    unfolding u using Cons.prems(4) lt by linarith
  have "roomy (Suc (2 * length ts + Suc j)) h"
    using Cons.prems(5) by simp
  then obtain q1 h1 sh1 where 1: "sdscat s t h = Some (q1, h1)" "q1 \<noteq> NULL" "moved h s q1 h1 (sh_text sh @ t)"
    "roomy (2 * length ts + Suc j) h1" "sds_wf h1" "strs h1 q1 = Some sh1" "sh_text sh1 = sh_text sh @ t"
    using catlen_step [OF Cons.prems(1,2) _ cap] u unfolding sdscat_def by (metis order_refl take_all)
  show ?case
  proof (cases ts)
    case Nil
    then show ?thesis
      using 1 roomy_Suc by simp
  next
    case (Cons t2 ts2)
    have "length (sh_text sh1) + unat n \<le> 1073741824" "roomy (Suc (2 * length ts + j)) h1"
      using Cons.prems(4) 1(4,7) assms(4) Cons by simp_all
    then obtain q2 h2 sh2 where 2: "sdscatlen q1 sep n h1 = Some (q2, h2)" "q2 \<noteq> NULL"
      "moved h1 q1 q2 h2 (sh_text sh1 @ take (unat n) sep)" "roomy (2 * length ts + j) h2" "sds_wf h2"
      "strs h2 q2 = Some sh2" "sh_text sh2 = sh_text sh1 @ take (unat n) sep"
      using catlen_step [OF 1(5,6) assms(4)] by metis
    have "length (sh_text sh2) + length (join_text (take (unat n) sep) ts) \<le> 1073741824"
      using Cons.prems(4) 1(7) 2(7) Cons by simp
    from Cons.IH [OF 2(5,6,2) this 2(4)] obtain q h' where ih: "join_loop ts sep n q2 h2 = Some (q, h')" "q \<noteq> NULL"
      "moved h2 q2 q h' (sh_text sh2 @ join_text (take (unat n) sep) ts)" "roomy j h'"
      by blast
    have "moved h s q h' (sh_text sh2 @ join_text (take (unat n) sep) ts)"
      using moved_trans [OF moved_trans [OF 1(3) 2(3)] ih(3)] .
    then show ?thesis
      using 1(1,7) 2(1,7) ih Cons by simp
  qed
qed

lemma sdsempty_ok:
  assumes "sds_wf h" "roomy (Suc k) h"
  obtains s h' sh where "sdsempty h = Some (s, h')" "s \<noteq> NULL" "created h s h' []" "roomy k h'" "sds_wf h'"
    "strs h' s = Some sh" "sh_text sh = []"
proof -
  obtain s h' where s: "sdsempty h = Some (s, h')"
    "s = NULL \<and> unchanged h h' \<and> \<not> roomy 1 h \<or> s \<noteq> NULL \<and> created h s h' [] \<and> (\<forall>k. roomy (Suc k) h \<longrightarrow> roomy k h')"
    using newlen_ok [OF assms(1), of 0 "Some []" "[]"] by (auto simp: sdsempty_def)
  moreover have "roomy 1 h"
    using roomy_mono [OF assms(2), of 1] by simp
  ultimately have c: "s \<noteq> NULL" "created h s h' []" "roomy k h'"
    using assms(2) by auto
  then show thesis
    using that [OF s(1) c] created_get [OF c(2)] by (metis created_def)
qed

lemma created_moved:
  assumes "sds_wf h" "created h s h1 t" "moved h1 s q h2 u"
  shows "grown h {q} None h2" "has_text h2 q u"
  using grown_moved [OF grown_created(1) [OF grown_refl [OF assms(1)] assms(2)] assms(3)] by simp_all

lemma sdsjoin_ok:
  assumes "sds_wf h" "unat n \<le> length sep" "length (join_text (take (unat n) sep) ts) \<le> 1073741824"
    and "roomy (2 * length ts + 1 + j) h"
  shows "\<exists>q h'. sdsjoin ts sep n h = Some (q, h') \<and> q \<noteq> NULL \<and> grown h {q} None h' \<and>
    has_text h' q (join_text (take (unat n) sep) ts) \<and> roomy j h'"
proof -
  have "roomy (Suc (2 * length ts + j)) h"
    using assms(4) by simp
  then obtain s h1 sh where e: "sdsempty h = Some (s, h1)" "s \<noteq> NULL" "created h s h1 []" "roomy (2 * length ts + j) h1"
    "sds_wf h1" "strs h1 s = Some sh" "sh_text sh = []"
    using sdsempty_ok [OF assms(1)] by metis
  obtain q h2 where "join_loop ts sep n s h1 = Some (q, h2)" "q \<noteq> NULL"
    "moved h1 s q h2 (join_text (take (unat n) sep) ts)" "roomy j h2"
    using join_loop_ok [OF e(5,6,2) assms(2) _ e(4)] assms(3) e(7) by auto
  then show ?thesis
    using e(1) created_moved [OF assms(1) e(3)] by (simp add: sdsjoin_def)
qed

lemma joinsds_loop_ok:
  assumes "sds_wf h" "strs h s = Some sh" "s \<noteq> NULL" "unat n \<le> length sep" "texts h xs ts" "s \<notin> set xs"
    and "length (sh_text sh) + length (join_text (take (unat n) sep) ts) \<le> 1073741824" "roomy (2 * length ts + j) h"
  shows "\<exists>q h'. joinsds_loop xs sep n s h = Some (q, h') \<and> q \<noteq> NULL \<and>
    moved h s q h' (sh_text sh @ join_text (take (unat n) sep) ts) \<and> roomy j h'"
  using assms(1-3,5-8)
proof (induction xs arbitrary: s h sh ts)
  case Nil
  then show ?case
    using moved_refl [of h s sh] by (simp add: texts_def)
next
  case (Cons x xs)
  obtain t us where ts: "ts = t # us" "has_text h x t" "texts h xs us"
    using Cons.prems(4) by (auto simp: texts_def list_all2_Cons1)
  then obtain xh where xh: "strs h x = Some xh" "sh_text xh = t"
    by (auto simp: has_text_def)
  have lt: "length t \<le> length (join_text (take (unat n) sep) (t # us))"
    by (cases us) simp_all
  have sx: "x \<noteq> s" "s \<notin> set xs"
    using Cons.prems(5) by auto
  have "length (sh_text sh) + length (sh_text xh) \<le> 1073741824"
    using Cons.prems(6) lt ts(1) xh(2) by simp
  from sdscatsds_ok [OF Cons.prems(1,2) xh(1) sx(1) this] obtain q1 h1 where c: "sdscatsds s x h = Some (q1, h1)"
    "q1 = NULL \<and> unchanged h h1 \<and> \<not> roomy 1 h \<or>
     q1 \<noteq> NULL \<and> moved h s q1 h1 (sh_text sh @ t) \<and> (\<forall>k. roomy (Suc k) h \<longrightarrow> roomy k h1)"
    using xh(2) by blast
  have rm: "roomy (Suc (2 * length us + Suc j)) h" "roomy 1 h"
    using Cons.prems(7) roomy_mono [OF Cons.prems(7), of 1] ts(1) by simp_all
  then have 1: "q1 \<noteq> NULL" "moved h s q1 h1 (sh_text sh @ t)" "roomy (2 * length us + Suc j) h1"
    using c(2) by blast+
  obtain sh1 where s1: "strs h1 q1 = Some sh1" "sh_text sh1 = sh_text sh @ t"
    using moved_get [OF 1(2)] by blast
  have wf1: "sds_wf h1"
    using 1(2) by (simp add: moved_def)
  note t1 = moved_texts [OF 1(2) ts(3) sx(2)]
  show ?case
  proof (cases "xs = []")
    case True
    then have "us = []"
      using texts_length [OF ts(3)] by simp
    then show ?thesis
      using True c(1) 1 ts(1) roomy_Suc by simp
  next
    case False
    then obtain t2 us2 where us: "us = t2 # us2"
      using texts_length [OF ts(3)] by (cases us) auto
    have "length (sh_text sh1) + unat n \<le> 1073741824" "roomy (Suc (2 * length us + j)) h1"
      using Cons.prems(6) 1(3) s1(2) assms(4) ts(1) us by simp_all
    then obtain q2 h2 sh2 where 2: "sdscatlen q1 sep n h1 = Some (q2, h2)" "q2 \<noteq> NULL"
      "moved h1 q1 q2 h2 (sh_text sh1 @ take (unat n) sep)" "roomy (2 * length us + j) h2" "sds_wf h2"
      "strs h2 q2 = Some sh2" "sh_text sh2 = sh_text sh1 @ take (unat n) sep"
      using catlen_step [OF wf1 s1(1) assms(4)] by metis
    have "length (sh_text sh2) + length (join_text (take (unat n) sep) us) \<le> 1073741824"
      using Cons.prems(6) s1(2) 2(7) ts(1) us by simp
    from Cons.IH [OF 2(5,6,2) moved_texts [OF 2(3) t1] this 2(4)] obtain q h' where
      ih: "joinsds_loop xs sep n q2 h2 = Some (q, h')" "q \<noteq> NULL"
        "moved h2 q2 q h' (sh_text sh2 @ join_text (take (unat n) sep) us)" "roomy j h'"
      by blast
    have "moved h s q h' (sh_text sh2 @ join_text (take (unat n) sep) us)"
      using moved_trans [OF moved_trans [OF 1(2) 2(3)] ih(3)] .
    then show ?thesis
      using c(1) s1(2) 2(1,7) ih False us ts(1) by simp
  qed
qed

lemma sdsjoinsds_ok:
  assumes "sds_wf h" "unat n \<le> length sep" "texts h xs ts" "length (join_text (take (unat n) sep) ts) \<le> 1073741824"
    and "roomy (2 * length ts + 1 + j) h"
  shows "\<exists>q h'. sdsjoinsds xs sep n h = Some (q, h') \<and> q \<noteq> NULL \<and> grown h {q} None h' \<and>
    has_text h' q (join_text (take (unat n) sep) ts) \<and> texts h' xs ts \<and> roomy j h'"
proof -
  have "roomy (Suc (2 * length ts + j)) h"
    using assms(5) by simp
  then obtain s h1 sh where e: "sdsempty h = Some (s, h1)" "s \<noteq> NULL" "created h s h1 []" "roomy (2 * length ts + j) h1"
    "sds_wf h1" "strs h1 s = Some sh" "sh_text sh = []"
    using sdsempty_ok [OF assms(1)] by metis
  have s: "s \<notin> set xs"
    using e(3) assms(3) by (auto simp: created_def texts_def list_all2_conv_all_nth in_set_conv_nth has_text_def)
  note t1 = created_texts [OF e(3) assms(3) s]
  obtain q h2 where j: "joinsds_loop xs sep n s h1 = Some (q, h2)" "q \<noteq> NULL"
    "moved h1 s q h2 (join_text (take (unat n) sep) ts)" "roomy j h2"
    using joinsds_loop_ok [OF e(5,6,2) assms(2) t1 s _ e(4)] assms(4) e(7) by auto
  then show ?thesis
    using e(1) created_moved [OF assms(1) e(3) j(3)] moved_texts(1) [OF j(3) t1 s] by (simp add: sdsjoinsds_def)
qed

end
