(* ===== verification/Nc_Sds_Args.thy ===== *)
theory Nc_Sds_Args
  imports Nc_Sds_Split
begin

text \<open>
  \<open>sdssplitargs\<close> computes \<open>parse_line\<close>, the reader that \<open>Nc_Sds_Grammar\<close> compares with the grammar of lines:
  with enough memory it returns the arguments of the line in a
  new array, and on a line that does not parse it gives back everything it had allocated.
\<close>

subsection \<open>Lines of arguments\<close>

lemma token_loop_ok:
  assumes "sds_wf h" "strs h s = Some sh" "s \<noteq> NULL" "length (sh_text sh) + length p \<le> 1073741824" "roomy (length p + j) h"
  shows "\<exists>r h'. token_loop m p s h = Some (r, h') \<and>
    (case token m p of
       Some (u, q) \<Rightarrow> \<exists>c. r = TokenDone q c \<and> c \<noteq> NULL \<and> moved h s c h' (sh_text sh @ u) \<and> roomy (length q + j) h'
     | None \<Rightarrow> \<exists>c t. r = TokenErr c \<and> c \<noteq> NULL \<and> moved h s c h' t)"
  using assms
proof (induction m p arbitrary: s h sh rule: token.induct)
  case (1 m p)
  show ?case
  proof (cases "token_step m p")
    case (Append c q)
    then have q: "length q < length p"
      by (rule token_step_shorter(1))
    have "roomy (Suc (length q + j)) h"
      using roomy_mono [OF 1(7)] q by simp
    then obtain s1 h1 sh1 where c: "sdscatlen s [c] 1 h = Some (s1, h1)" "s1 \<noteq> NULL" "moved h s s1 h1 (sh_text sh @ [c])"
      "roomy (length q + j) h1" "sds_wf h1" "strs h1 s1 = Some sh1" "sh_text sh1 = sh_text sh @ [c]"
      using catlen_step [OF 1(3,4), of 1 "[c]" "length q + j"] 1(6) q by auto
    have cap: "length (sh_text sh1) + length q \<le> 1073741824"
      using 1(6) q c(7) by simp
    obtain r h' where ih: "token_loop m q s1 h1 = Some (r, h')"
      "case token m q of
         Some (u, q') \<Rightarrow> \<exists>c. r = TokenDone q' c \<and> c \<noteq> NULL \<and> moved h1 s1 c h' (sh_text sh1 @ u) \<and> roomy (length q' + j) h'
       | None \<Rightarrow> \<exists>c t. r = TokenErr c \<and> c \<noteq> NULL \<and> moved h1 s1 c h' t"
      using 1(1) [OF Append c(5,6,2) cap c(4)] by blast
    have "token_loop m p s h = Some (r, h')"
      using Append c(1) ih(1) by (subst token_loop.simps) simp
    moreover have "token m p = map_option (\<lambda>(t, r). (c # t, r)) (token m q)"
      using Append by (subst token.simps) simp
    moreover note moved_trans [OF c(3)]
    ultimately show ?thesis
      using ih(2) c(7) by (fastforce split: option.splits)
  next
    case (Enter m' q)
    then have q: "length q < length p"
      by (rule token_step_shorter(2))
    then have "length (sh_text sh) + length q \<le> 1073741824" "roomy (length q + j) h"
      using 1(6) roomy_mono [OF 1(7), of "length q + j"] by simp_all
    moreover have "token_loop m p s h = token_loop m' q s h" "token m p = token m' q"
      using Enter by (subst token_loop.simps, simp, subst token.simps, simp)
    ultimately show ?thesis
      using 1(2) [OF Enter 1(3-5)] by simp
  next
    case (Finish q)
    then have "length q \<le> length p"
      using token_step_shorter(3) by blast
    then have "roomy (length q + j) h"
      using roomy_mono [OF 1(7)] by simp
    moreover have "token_loop m p s h = Some (TokenDone q s, h)" "token m p = Some ([], q)"
      using Finish by (subst token_loop.simps, simp, subst token.simps, simp)
    ultimately show ?thesis
      using moved_refl [OF 1(3,4)] 1(5) by simp
  next
    case Fail
    then have "token_loop m p s h = Some (TokenErr s, h)" "token m p = None"
      by (subst token_loop.simps, simp, subst token.simps, simp)
    then show ?thesis
      using moved_refl [OF 1(3,4)] 1(5) by auto
  qed
qed

text \<open>The vector has exactly the tokens found so far; before the first token there is none.\<close>

definition args_mem :: "sds_heap \<Rightarrow> addr \<Rightarrow> addr list \<Rightarrow> addr set \<Rightarrow> sds_heap \<Rightarrow> bool" where
  "args_mem h0 v xs S h \<longleftrightarrow> distinct xs \<and> set xs \<subseteq> S \<and>
     (if v = NULL then xs = [] \<and> grown h0 S None h else grown h0 S (Some (v, xs)) h)"

lemma vec_free_NULL:
  assumes "sds_wf h"
  shows "vec_free NULL h = Some h"
proof -
  have "block_size h NULL = None"
    using block_size_fits [of h NULL] assms by (cases "block_size h NULL") (auto simp: sds_wf_def fits_def)
  then have "vecs h NULL = None"
    using assms by (cases "vecs h NULL") (auto simp: sds_wf_def)
  then show ?thesis
    by (simp add: vec_free_def free_def fun_upd_idem)
qed

lemma args_err_ok:
  assumes "args_mem h0 v xs (insert c (set xs)) h" "c \<notin> set xs"
  shows "\<exists>h'. args_err c v (int (length xs)) h = Some ((NULL, 0), h') \<and> unchanged h0 h'"
proof -
  have "\<exists>h1 h2. free_down (length xs) v h = Some h1 \<and> vec_free v h1 = Some h2 \<and> grown h0 {c} None h2"
  proof (cases "v = NULL")
    case True
    then have "xs = []" "grown h0 {c} None h"
      using assms(1) by (auto simp: args_mem_def)
    then show ?thesis
      using True vec_free_NULL [OF grown_wf] by simp
  next
    case False
    then have g: "grown h0 (insert c (set xs)) (Some (v, xs)) h" "distinct xs"
      using assms(1) by (simp_all add: args_mem_def)
    obtain h1 where h1: "free_down (length xs) v h = Some h1" "grown h0 (insert c (set xs) - set xs) (Some (v, xs)) h1"
      using free_down_ok [OF g(1), of "length xs"] g(2) by auto
    moreover have "insert c (set xs) - set xs = {c}"
      using assms(2) by auto
    ultimately show ?thesis
      using grown_vec_free [of h0 "{c}" v xs h1] by auto
  qed
  then obtain h1 h2 where h: "free_down (length xs) v h = Some h1" "vec_free v h1 = Some h2" "grown h0 {c} None h2"
    by blast
  then obtain h3 where "sdsfree c h2 = Some h3" "grown h0 {} None h3"
    using grown_free [OF h(3), of c] by auto
  then show ?thesis
    using h(1,2) grown_nothing by (auto simp: args_err_def)
qed

text \<open>Storing a token behind the others.\<close>

lemma args_store:
  assumes "args_mem h0 v xs (insert c (set xs)) h" "c \<notin> set xs" "length xs < 134217728" "roomy (Suc k) h"
  shows "\<exists>w h1 h2. vec_realloc v (size_of_int (int (length xs) + 1) * sizeof_ptr) h = Some (w, h1) \<and>
    vec_set w (int (length xs)) c h1 = Some h2 \<and> w \<noteq> NULL \<and> args_mem h0 w (xs @ [c]) (set (xs @ [c])) h2 \<and>
    strs h2 = strs h \<and> roomy k h2"
proof -
  define n where "n = size_of_int (int (length xs) + 1) * sizeof_ptr"
  have "unat (size_of_int (int (length xs) + 1)) = Suc (length xs)"
    using assms(3) by (simp add: unat_size_of_int INT_MAX_def nat_add_distrib)
  then have n: "unat n = 8 * Suc (length xs)"
    using assms(3) by (simp add: n_def sizeof_ptr_def unat_mult_ok)
  have sz: "unat n \<le> slot_size" "8 dvd unat n" "n \<noteq> 0"
    using n assms(3) by (auto simp: slot_size_def)
  have r1: "roomy 1 h"
    using roomy_mono [OF assms(4), of 1] by simp
  have "\<exists>w h1. vec_realloc v n h = Some (w, h1) \<and> w \<noteq> NULL \<and>
      (\<exists>y. grown h0 (insert c (set xs)) (Some (w, xs @ [y])) h1) \<and> strs h1 = strs h \<and> roomy k h1"
  proof (cases "v = NULL")
    case True
    then have xs: "xs = []" "grown h0 {c} None h"
      using assms(1) by (auto simp: args_mem_def)
    have one: "unat n div 8 = 1"
      using n xs(1) by simp
    show ?thesis
      by (rule grown_vec_malloc [OF xs(2) sz(1,2)]) (use True xs(1) r1 assms(4) one in \<open>auto simp: vec_realloc_def\<close>)
  next
    case False
    then have "grown h0 (insert c (set xs)) (Some (v, xs)) h"
      using assms(1) by (simp add: args_mem_def)
    moreover have "unat n div 8 = Suc (length xs)"
      using n by simp
    ultimately show ?thesis
      using grown_vec_realloc [OF _ sz] r1 assms(4) by fastforce
  qed
  then obtain w h1 y where w: "vec_realloc v n h = Some (w, h1)" "w \<noteq> NULL"
    "grown h0 (insert c (set xs)) (Some (w, xs @ [y])) h1" "strs h1 = strs h" "roomy k h1"
    by blast
  obtain h2 where h2: "vec_set w (int (length xs)) c h1 = Some h2"
    "grown h0 (insert c (set xs)) (Some (w, (xs @ [y])[length xs := c])) h2" "strs h2 = strs h1" "\<forall>k. roomy k h2 = roomy k h1"
    using grown_vec_set [OF w(3), of "length xs" c] by auto
  have "args_mem h0 w (xs @ [c]) (set (xs @ [c])) h2"
    using h2(2) w(2) assms(1,2) by (simp add: args_mem_def)
  then show ?thesis
    using w h2 by (auto simp: n_def)
qed

lemma args_mem_result:
  assumes "args_mem h0 v xs (set xs) h" "v \<noteq> NULL" "texts h xs ts"
  shows "result_array h0 v ts h"
  using assms unfolding args_mem_def result_array_def by (intro exI [of _ xs]) simp

text \<open>What the loop leaves for the rest of a line with the result \<open>pl\<close>, behind the arguments \<open>ts\<close>.\<close>

definition args_post :: "sds_heap \<Rightarrow> string list \<Rightarrow> string list option \<Rightarrow> (addr \<times> int) \<times> sds_heap \<Rightarrow> bool" where
  "args_post h0 ts pl rh \<longleftrightarrow>
     (case pl of
        Some us \<Rightarrow> \<exists>w. fst rh = (w, int (length (ts @ us))) \<and> result_array h0 w (ts @ us) (snd rh)
      | None \<Rightarrow> fst rh = (NULL, 0) \<and> unchanged h0 (snd rh))"

text \<open>The end of the line: a line without arguments gets an array of its own.\<close>

lemma args_loop_end:
  assumes "args_mem h0 v xs (set xs) h" "texts h xs ts" "roomy 1 h" "peek (dropWhile isspace p) 0 = NUL"
  shows "\<exists>rh. args_loop p v (int (length xs)) h = Some rh \<and> args_post h0 ts (parse_line p) rh"
proof -
  have pl: "parse_line p = Some []"
    using assms(4) by (subst parse_line.simps) simp
  have len: "length xs = length ts"
    using assms(2) texts_length by blast
  show ?thesis
  proof (cases "v = NULL")
    case False
    then have "args_loop p v (int (length xs)) h = Some ((v, int (length xs)), h)"
      using assms(4) by (subst args_loop.simps) simp
    then show ?thesis
      using pl len args_mem_result [OF assms(1) False assms(2)] by (simp add: args_post_def)
  next
    case v: True
    then have xs: "xs = []" "ts = []" "grown h0 {} None h"
      using assms(1) len by (auto simp: args_mem_def)
    have s8: "unat sizeof_ptr \<le> slot_size" "8 dvd unat sizeof_ptr"
      by (simp_all add: sizeof_ptr_def slot_size_def)
    obtain w h1 where w: "vec_malloc sizeof_ptr h = (w, h1)" "w \<noteq> NULL"
      "grown h0 {} (Some (w, replicate (unat sizeof_ptr div 8) (junk_addr h))) h1"
      using grown_vec_malloc [OF xs(3) s8] assms(3) by metis
    have "result_array h0 w [] h1"
      using w(3) unfolding result_array_def by (intro exI [of _ "[]"] exI) auto
    moreover have "args_loop p v (int (length xs)) h = Some ((w, int (length xs)), h1)"
      using assms(4) v w(1) by (subst args_loop.simps) simp
    ultimately show ?thesis
      using pl xs by (simp add: args_post_def)
  qed
qed

text \<open>One argument read into a new string \<open>c\<close> with the text \<open>t\<close>, beside the arguments so far.\<close>

definition args_got :: "sds_heap \<Rightarrow> addr \<Rightarrow> addr list \<Rightarrow> string list \<Rightarrow> addr \<Rightarrow> string \<Rightarrow> sds_heap \<Rightarrow> bool" where
  "args_got h0 v xs ts c t h \<longleftrightarrow>
     args_mem h0 v xs (insert c (set xs)) h \<and> c \<notin> set xs \<and> texts h xs ts \<and> has_text h c t"

lemma args_token:
  assumes "args_mem h0 v xs (set xs) h" "texts h xs ts" "length p \<le> 1073741824" "roomy (3 * length p + 1) h"
  obtains s h1 r h2 where "sdsempty h = Some (s, h1)" "token_loop Plain p s h1 = Some (r, h2)"
    "case token Plain p of
       Some (u, q) \<Rightarrow> \<exists>c. r = TokenDone q c \<and> c \<noteq> NULL \<and> args_got h0 v xs ts c u h2 \<and> roomy (length q + 2 * length p) h2
     | None \<Rightarrow> \<exists>c t. r = TokenErr c \<and> args_got h0 v xs ts c t h2"
proof -
  have wf: "sds_wf h"
    using assms(1) grown_wf by (auto simp: args_mem_def split: if_splits)
  obtain s h1 sh where e: "sdsempty h = Some (s, h1)" "s \<noteq> NULL" "created h s h1 []" "roomy (3 * length p) h1"
    "sds_wf h1" "strs h1 s = Some sh" "sh_text sh = []"
    using sdsempty_ok [OF wf, of "3 * length p"] assms(4) by auto
  define V where "V = (if v = NULL then None else Some (v, xs))"
  have g: "grown h0 (set xs) V h" "distinct xs" "v = NULL \<Longrightarrow> xs = []"
    using assms(1) by (auto simp: args_mem_def V_def split: if_splits)
  note g1 = grown_created [OF g(1) e(3)]
  note t1 = created_texts [OF e(3) assms(2) g1(2)]
  have got: "args_got h0 v xs ts c t h2" if "moved h1 s c h2 t" for c t h2
  proof -
    have "insert c (insert s (set xs) - {s}) = insert c (set xs)"
      using g1(2) by auto
    then have "grown h0 (insert c (set xs)) V h2" "has_text h2 c t"
      using grown_moved(1,3) [OF g1(1) that] by simp_all
    then show ?thesis
      using moved_texts [OF that t1 g1(2)] g(2,3) by (auto simp: args_got_def args_mem_def V_def)
  qed
  have "length (sh_text sh) + length p \<le> 1073741824" "roomy (length p + 2 * length p) h1"
    using e(4,7) assms(3) by simp_all
  from token_loop_ok [OF e(5,6,2) this, of Plain] obtain r h2 where tl: "token_loop Plain p s h1 = Some (r, h2)"
    "case token Plain p of
       Some (u, q) \<Rightarrow> \<exists>c. r = TokenDone q c \<and> c \<noteq> NULL \<and> moved h1 s c h2 (sh_text sh @ u) \<and> roomy (length q + 2 * length p) h2
     | None \<Rightarrow> \<exists>c t. r = TokenErr c \<and> c \<noteq> NULL \<and> moved h1 s c h2 t"
    by blast
  show thesis
    by (rule that [OF e(1) tl(1)]) (use tl(2) e(7) got in \<open>force split: option.splits\<close>)
qed

lemma args_loop_post:
  assumes "args_mem h0 v xs (set xs) h" "texts h xs ts" "length p + length xs < 134217728" "roomy (3 * length p + 1) h"
  shows "\<exists>rh. args_loop p v (int (length xs)) h = Some rh \<and> args_post h0 ts (parse_line p) rh"
  using assms
proof (induction "length p" arbitrary: p v xs ts h rule: less_induct)
  case less
  define p' where "p' = dropWhile isspace p"
  have p': "length p' \<le> length p"
    by (simp add: p'_def length_dropWhile_le)
  show ?case
  proof (cases "peek p' 0 = NUL")
    case True
    then show ?thesis
      using args_loop_end [OF less.prems(1,2)] roomy_mono [OF less.prems(4), of 1] by (simp add: p'_def)
  next
    case False
    have "length p' \<le> 1073741824" "roomy (3 * length p' + 1) h"
      using p' less.prems(3) roomy_mono [OF less.prems(4)] by simp_all
    from args_token [OF less.prems(1,2) this] obtain s h1 r h2 where
      e: "sdsempty h = Some (s, h1)" "token_loop Plain p' s h1 = Some (r, h2)" and
      r: "case token Plain p' of
         Some (u, q) \<Rightarrow> \<exists>c. r = TokenDone q c \<and> c \<noteq> NULL \<and> args_got h0 v xs ts c u h2 \<and> roomy (length q + 2 * length p') h2
       | None \<Rightarrow> \<exists>c t. r = TokenErr c \<and> args_got h0 v xs ts c t h2"
      by blast
    show ?thesis
    proof (cases "token Plain p'")
      case None
      then obtain c t where c: "r = TokenErr c" "args_got h0 v xs ts c t h2"
        using r by auto
      obtain h3 where "args_err c v (int (length xs)) h2 = Some ((NULL, 0), h3)" "unchanged h0 h3"
        using args_err_ok c(2) unfolding args_got_def by blast
      moreover have "parse_line p = None"
        using None False by (subst parse_line.simps) (simp flip: p'_def)
      ultimately show ?thesis
        using e c(1) False by (subst args_loop.simps) (simp add: args_post_def flip: p'_def)
    next
      case (Some uq)
      then obtain u q where uq: "token Plain p' = Some (u, q)"
        by (cases uq) simp
      then obtain c where c: "r = TokenDone q c" "c \<noteq> NULL" "args_got h0 v xs ts c u h2" "roomy (length q + 2 * length p') h2"
        using r by auto
      have q: "length q < length p'"
        using token_shorter [OF uq] False by blast
      have "roomy (Suc (3 * length q + 1)) h2" "length xs < 134217728"
        using roomy_mono [OF c(4)] q less.prems(3) by simp_all
      then obtain w h3 h4 where st: "vec_realloc v (size_of_int (int (length xs) + 1) * sizeof_ptr) h2 = Some (w, h3)"
        "vec_set w (int (length xs)) c h3 = Some h4" "w \<noteq> NULL" "args_mem h0 w (xs @ [c]) (set (xs @ [c])) h4"
        "strs h4 = strs h2" "roomy (3 * length q + 1) h4"
        using args_store c(3) unfolding args_got_def by blast
      have t4: "texts h4 (xs @ [c]) (ts @ [u])"
        using texts_snoc texts_cong st(5) c(3) unfolding args_got_def by metis
      have "length q < length p" "length q + length (xs @ [c]) < 134217728"
        using q p' less.prems(3) by simp_all
      from less.hyps [OF this(1) st(4) t4 this(2) st(6)] obtain rh where
        ih: "args_loop q w (int (length (xs @ [c]))) h4 = Some rh" "args_post h0 (ts @ [u]) (parse_line q) rh"
        by blast
      have "int_chk (int (length xs) + 1) = Some (int (length xs) + 1)"
        using less.prems(3) by (simp add: int_chk_def int_limits)
      then have "args_loop p v (int (length xs)) h = Some rh"
        using e c(1) False st(1,2) ih(1) by (subst args_loop.simps) (simp add: add.commute flip: p'_def)
      moreover have "parse_line p = map_option (Cons u) (parse_line q)"
        using uq False by (subst parse_line.simps) (simp flip: p'_def)
      ultimately show ?thesis
        using ih(2) by (auto simp: args_post_def split: option.splits)
    qed
  qed
qed

lemma sdssplitargs_ok:
  assumes "sds_wf h" "length line < 134217728" "roomy (3 * length line + 1) h"
  shows "\<exists>r h'. sdssplitargs line h = Some (r, h') \<and>
    (case parse_line line of
       Some us \<Rightarrow> \<exists>w. r = (w, int (length us)) \<and> result_array h w us h'
     | None \<Rightarrow> r = (NULL, 0) \<and> unchanged h h')"
proof -
  have "args_mem h NULL [] (set []) h"
    using grown_refl [OF assms(1)] by (simp add: args_mem_def)
  then obtain r h' where "args_loop line NULL 0 h = Some (r, h')" "args_post h [] (parse_line line) (r, h')"
    using args_loop_post [of h NULL "[]" h "[]" line] assms(2,3) by auto
  then show ?thesis
    by (simp add: sdssplitargs_def args_post_def split: option.splits)
qed

end
