(* ===== verification/Nc_Sds_Session.thy ===== *)
theory Nc_Sds_Session
  imports Nc_Sds_Args
begin

text \<open>
  The editing operations of the string library behind one interface: each operation of the header
  that changes a string is a constructor, \<open>sds_exec\<close> calls the modelled function, and \<open>op_text\<close> is the
  list function it is specified by. A program that edits one string is a list of operations.
\<close>

datatype sds_op =
  Cat string | CatFmt string | Cpy string | GrowZero nat | Reserve nat | Trim string | Range int int
| Lower | Upper | MapChars string string | Clear | UpdateLen

definition in_place_op :: "sds_heap option \<Rightarrow> addr \<Rightarrow> (addr \<times> sds_heap) option" where
  "in_place_op r s = map_option (\<lambda>h. (s, h)) r"

fun sds_exec :: "sds_op \<Rightarrow> addr \<Rightarrow> sds_heap \<Rightarrow> (addr \<times> sds_heap) option" where
  "sds_exec (Cat t) s h = sdscat s t h"
| "sds_exec (CatFmt t) s h = sdscatprintf s t h"
| "sds_exec (Cpy t) s h = sdscpy s t h"
| "sds_exec (GrowZero n) s h = sdsgrowzero s (of_nat n) h"
| "sds_exec (Reserve n) s h = sdsMakeRoomFor s (of_nat n) h"
| "sds_exec (Trim cset) s h = in_place_op (sdstrim s cset h) s"
| "sds_exec (Range i j) s h = in_place_op (sdsrange s i j h) s"
| "sds_exec Lower s h = in_place_op (sdstolower s h) s"
| "sds_exec Upper s h = in_place_op (sdstoupper s h) s"
| "sds_exec (MapChars f g) s h = sdsmapchars s f g (of_nat (length f)) h"
| "sds_exec Clear s h = in_place_op (sdsclear s h) s"
| "sds_exec UpdateLen s h = in_place_op (sdsupdatelen s h) s"

fun op_text :: "sds_op \<Rightarrow> string \<Rightarrow> string" where
  "op_text (Cat t) x = x @ t"
| "op_text (CatFmt t) x = x @ upto_nul t"
| "op_text (Cpy t) x = t"
| "op_text (GrowZero n) x = x @ replicate (n - length x) NUL"
| "op_text (Reserve n) x = x"
| "op_text (Trim cset) x = trim_text cset x"
| "op_text (Range i j) x = range_text x i j"
| "op_text Lower x = map tolower x"
| "op_text Upper x = map toupper x"
| "op_text (MapChars f g) x = map (\<lambda>c. case map_of (zip f g) c of None \<Rightarrow> c | Some d \<Rightarrow> d) x"
| "op_text Clear x = []"
| "op_text UpdateLen x = upto_nul x"

text \<open>The limits: strings of at most 1 GiB, and no range that reaches from the front to \<open>INT_MAX\<close>.\<close>

definition sds_limit :: nat where "sds_limit = 1073741824"

fun op_fits :: "sds_op \<Rightarrow> string \<Rightarrow> bool" where
  "op_fits (Cat t) x = (length x + length t \<le> sds_limit)"
| "op_fits (CatFmt t) x = (length x + length t \<le> sds_limit)"
| "op_fits (Cpy t) x = (length x + length t \<le> sds_limit)"
| "op_fits (GrowZero n) x = (n \<le> sds_limit \<and> length x \<le> sds_limit)"
| "op_fits (Reserve n) x = (length x + n \<le> sds_limit)"
| "op_fits (Range i j) x = (int_ok i \<and> int_ok j \<and> \<not> (range_pos (length x) i = 0 \<and> j = INT_MAX))"
| "op_fits (MapChars f g) x = (length f = length g \<and> length f \<le> sds_limit)"
| "op_fits _ x = True"

text \<open>The most allocations that one operation makes.\<close>

definition op_allocs :: nat where "op_allocs = 29"

fun run_sds :: "sds_op list \<Rightarrow> addr \<Rightarrow> sds_heap \<Rightarrow> (addr \<times> sds_heap) option" where
  "run_sds [] s h = Some (s, h)"
| "run_sds (x # xs) s h = do {
     (q, h1) \<leftarrow> sds_exec x s h;
     if q = NULL then Some (NULL, h1) else run_sds xs q h1
   }"

fun run_fits :: "sds_op list \<Rightarrow> string \<Rightarrow> bool" where
  "run_fits [] t = True"
| "run_fits (x # xs) t = (op_fits x t \<and> run_fits xs (op_text x t))"

definition run_text :: "sds_op list \<Rightarrow> string \<Rightarrow> string" where
  "run_text xs t = foldl (\<lambda>t x. op_text x t) t xs"

lemma edits_in_place:
  assumes "sds_wf h" "strs h s = Some sh" "r = Some (put_sds s sh' h)" "in_place h s sh sh' t"
  shows "\<exists>q h'. in_place_op r s = Some (q, h') \<and> edits k h s q h' t"
  using assms in_place_wf(2) [OF assms(1,2,4)] sds_wfD(2) [OF assms(1,2)] roomy_mono [of _ h]
  by (auto simp: in_place_op_def edits_def)

lemma edits_29: "\<exists>q h'. r = Some (q, h') \<and> (q = NULL \<and> unchanged h h' \<and> \<not> roomy 1 h \<or>
    q \<noteq> NULL \<and> moved h s q h' t \<and> (\<forall>k. roomy (Suc k) h \<longrightarrow> roomy k h')) \<Longrightarrow>
  \<exists>q h'. r = Some (q, h') \<and> edits op_allocs h s q h' t"
proof (elim exE conjE)
  fix q h'
  assume r: "r = Some (q, h')" "q = NULL \<and> unchanged h h' \<and> \<not> roomy 1 h \<or>
    q \<noteq> NULL \<and> moved h s q h' t \<and> (\<forall>k. roomy (Suc k) h \<longrightarrow> roomy k h')"
  have "edits 1 h s q h' t"
    using r(2) by (simp add: edits_def)
  then show "\<exists>q h'. r = Some (q, h') \<and> edits op_allocs h s q h' t"
    using r(1) edits_mono [of 1 h s q h' t op_allocs] by (simp add: op_allocs_def)
qed

lemma sds_exec_ok:
  assumes "sds_wf h" "strs h s = Some sh" "op_fits x (sh_text sh)"
  shows "\<exists>q h'. sds_exec x s h = Some (q, h') \<and> edits op_allocs h s q h' (op_text x (sh_text sh))"
proof -
  have L: "length (sh_text sh) = nat (sh_len sh)"
    using length_sh_text sds_wfD(3) [OF assms(1,2)] by blast
  have u: "unat (of_nat n :: size_t) = n" if "n \<le> sds_limit" for n
    using that by (simp add: sds_limit_def unat_of_nat_ok)
  show ?thesis
  proof (cases x)
    case (Cat t)
    then have "length (sh_text sh) + length t \<le> 1073741824"
      using assms(3) by (simp add: sds_limit_def)
    from edits_29 [OF sdscat_ok [OF assms(1,2) this]] Cat show ?thesis
      by simp
  next
    case (CatFmt t)
    then have c: "length t + 1 < 16 * 2 ^ 27" "length (sh_text sh) + length t \<le> 1073741824"
      using assms(3) by (simp_all add: sds_limit_def)
    show ?thesis
      using sdscatvprintf_ok [OF assms(1,2) c(1) _ c(2)] CatFmt by (simp add: sdscatprintf_def op_allocs_def)
  next
    case (Cpy t)
    then have c: "length t \<le> sds_limit" "nat (sh_len sh) + unat (of_nat (length t) :: size_t) \<le> 1073741824"
      using assms(3) L u [of "length t"] by (simp_all add: sds_limit_def)
    then show ?thesis
      using edits_29 [OF sdscpylen_ok [OF assms(1,2) _ c(2), of t]] u Cpy by (simp add: sdscpy_def)
  next
    case (GrowZero n)
    then have c: "unat (of_nat n :: size_t) \<le> 1073741824" "nat (sh_len sh) \<le> 1073741824" "unat (of_nat n :: size_t) = n"
      using assms(3) L u [of n] by (simp_all add: sds_limit_def)
    show ?thesis
      using edits_29 [OF sdsgrowzero_ok [OF assms(1,2) c(1,2)]] GrowZero c(3) by simp
  next
    case (Reserve n)
    then have c: "nat (sh_len sh) + unat (of_nat n :: size_t) \<le> 1073741824"
      using assms(3) L u [of n] by (simp add: sds_limit_def)
    have "\<exists>q h'. sdsMakeRoomFor s (of_nat n) h = Some (q, h') \<and> (q = NULL \<and> unchanged h h' \<and> \<not> roomy 1 h \<or>
        q \<noteq> NULL \<and> moved h s q h' (sh_text sh) \<and> (\<forall>k. roomy (Suc k) h \<longrightarrow> roomy k h'))"
      using room_ok [OF assms(1,2) c] by blast
    from edits_29 [OF this] Reserve show ?thesis
      by simp
  next
    case (Trim cset)
    obtain sh' where "sdstrim s cset h = Some (put_sds s sh' h)" "in_place h s sh sh' (trim_text cset (sh_text sh))"
      using sdstrim_ok [OF assms(1,2)] by blast
    from edits_in_place [OF assms(1,2) this] Trim show ?thesis
      by simp
  next
    case (Range i j)
    then obtain sh' where "sdsrange s i j h = Some (put_sds s sh' h)" "in_place h s sh sh' (range_text (sh_text sh) i j)"
      using sdsrange_ok [OF assms(1,2), of i j] assms(3) by auto
    from edits_in_place [OF assms(1,2) this] Range show ?thesis
      by simp
  next
    case Lower
    obtain sh' where "sdstolower s h = Some (put_sds s sh' h)" "in_place h s sh sh' (map tolower (sh_text sh))"
      using map_sds_ok [OF assms(1,2)] unfolding sdstolower_def by blast
    from edits_in_place [OF assms(1,2) this] Lower show ?thesis
      by simp
  next
    case Upper
    obtain sh' where "sdstoupper s h = Some (put_sds s sh' h)" "in_place h s sh sh' (map toupper (sh_text sh))"
      using map_sds_ok [OF assms(1,2)] unfolding sdstoupper_def by blast
    from edits_in_place [OF assms(1,2) this] Upper show ?thesis
      by simp
  next
    case (MapChars f g)
    then have fg: "length f = length g" "unat (of_nat (length f) :: size_t) = length f"
      using assms(3) u [of "length f"] by simp_all
    have "op_text x (sh_text sh) = map (mapped_char f g) (sh_text sh)"
      using MapChars fg(1) by (simp add: mapped_char_def [abs_def])
    then obtain sh' where m: "sdsmapchars s f g (of_nat (length f)) h = Some (s, put_sds s sh' h)"
      "in_place h s sh sh' (op_text x (sh_text sh))"
      using sdsmapchars_ok [OF assms(1,2), of "of_nat (length f)" f g] fg by auto
    from edits_in_place [OF assms(1,2) refl m(2)] m(1) MapChars show ?thesis
      by (simp add: in_place_op_def)
  next
    case Clear
    obtain sh' where "sdsclear s h = Some (put_sds s sh' h)" "in_place h s sh sh' []"
      using sdsclear_ok [OF assms(1,2)] by blast
    from edits_in_place [OF assms(1,2) this] Clear show ?thesis
      by simp
  next
    case UpdateLen
    obtain sh' where "sdsupdatelen s h = Some (put_sds s sh' h)" "in_place h s sh sh' (upto_nul (sh_text sh))"
      using sdsupdatelen_ok [OF assms(1,2)] by blast
    from edits_in_place [OF assms(1,2) this] UpdateLen show ?thesis
      by simp
  qed
qed

lemma run_text_simps [simp]: "run_text [] t = t" "run_text (x # xs) t = run_text xs (op_text x t)"
  by (simp_all add: run_text_def)

lemma run_sds_ok:
  assumes "sds_wf h" "strs h s = Some sh" "s \<noteq> NULL" "run_fits xs (sh_text sh)" "roomy (op_allocs * length xs + k) h"
  shows "\<exists>q h'. run_sds xs s h = Some (q, h') \<and> q \<noteq> NULL \<and> moved h s q h' (run_text xs (sh_text sh)) \<and> roomy k h'"
  using assms
proof (induction xs arbitrary: s h sh)
  case Nil
  then show ?case
    using moved_refl [of h s sh] by simp
next
  case (Cons x xs)
  have "op_fits x (sh_text sh)"
    using Cons.prems(4) by simp
  from sds_exec_ok [OF Cons.prems(1,2) this]
  obtain q h1 where x: "sds_exec x s h = Some (q, h1)" "edits op_allocs h s q h1 (op_text x (sh_text sh))"
    by blast
  have "roomy (op_allocs + (op_allocs * length xs + k)) h"
    using Cons.prems(5) by (simp add: algebra_simps)
  note e = edits_roomy [OF x(2) this]
  obtain sh1 where s1: "strs h1 q = Some sh1" "sh_text sh1 = op_text x (sh_text sh)"
    using moved_get [OF e(2)] by blast
  have "sds_wf h1" "run_fits xs (sh_text sh1)"
    using e(2) Cons.prems(4) s1(2) by (simp_all add: moved_def)
  from Cons.IH [OF this(1) s1(1) e(1) this(2) e(3)] obtain r h' where ih: "run_sds xs q h1 = Some (r, h')" "r \<noteq> NULL"
    "moved h1 q r h' (run_text xs (sh_text sh1))" "roomy k h'"
    by blast
  then show ?case
    using x(1) e(1) moved_trans [OF e(2) ih(3)] s1(2) by simp
qed

subsection \<open>The contract of a growable buffer\<close>

text \<open>One character at a time: the state is the heap and the address the string has now.\<close>

definition sds_push :: "char \<Rightarrow> addr \<times> sds_heap \<Rightarrow> (bool \<times> (addr \<times> sds_heap)) option" where
  "sds_push c st = (case st of (s, h) \<Rightarrow> do {
     (q, h1) \<leftarrow> sdscatlen s [c] 1 h;
     if q = NULL then Some (False, (s, h1)) else Some (True, (q, h1))
   })"

definition sds_view :: "addr \<times> sds_heap \<Rightarrow> string" where
  "sds_view st = sds_text (snd st) (fst st)"

definition sds_ready :: "addr \<times> sds_heap \<Rightarrow> bool" where
  "sds_ready st \<longleftrightarrow> sds_wf (snd st) \<and> strs (snd st) (fst st) \<noteq> None"

lemma sds_text_get: "sds_wf h \<Longrightarrow> strs h s = Some sh \<Longrightarrow> sds_text h s = sh_text sh"
  using sds_wfD(1) [of h s sh] by (simp add: sds_text_def)

interpretation sds: append_buffer sds_push sds_view sds_ready "\<lambda>_. True" sds_limit
proof
  fix st :: "addr \<times> sds_heap" and c :: char
  assume st: "sds_ready st" "length (sds_view st) < sds_limit"
  obtain s h where sh': "st = (s, h)"
    by (cases st)
  then obtain sh where sh: "sds_wf h" "strs h s = Some sh" "sds_text h s = sh_text sh"
    using st(1) sds_text_get by (auto simp: sds_ready_def)
  have "unat (1 :: size_t) \<le> length [c]" "length (sh_text sh) + unat (1 :: size_t) \<le> 1073741824"
    using st(2) sh(3) sh' by (simp_all add: sds_view_def sds_limit_def)
  from sdscatlen_ok [OF sh(1,2) this] obtain q h1 where r: "sdscatlen s [c] 1 h = Some (q, h1)"
    "q = NULL \<and> unchanged h h1 \<or> q \<noteq> NULL \<and> moved h s q h1 (sh_text sh @ [c])"
    by auto
  show "\<exists>b st'. sds_push c st = Some (b, st') \<and> sds_ready st' \<and>
      sds_view st' = (if b then sds_view st @ [c] else sds_view st)"
  proof (cases "q = NULL")
    case True
    then have "unchanged h h1"
      using r(2) by auto
    then have "sds_ready (s, h1)" "sds_view (s, h1) = sds_view (s, h)"
      using sh by (auto simp: unchanged_def sds_ready_def sds_view_def sds_text_def get_sds_def)
    then show ?thesis
      using r(1) True sh' by (intro exI [of _ False] exI [of _ "(s, h1)"]) (simp add: sds_push_def)
  next
    case False
    then have m: "moved h s q h1 (sh_text sh @ [c])"
      using r(2) by auto
    then obtain sh1 where "strs h1 q = Some sh1" "sh_text sh1 = sh_text sh @ [c]" "get_sds h1 q = Some sh1"
      using moved_get by metis
    moreover have "sds_wf h1"
      using m by (simp add: moved_def)
    ultimately have "sds_ready (q, h1)" "sds_view (q, h1) = sds_view (s, h) @ [c]"
      using sh by (simp_all add: sds_ready_def sds_view_def sds_text_def)
    then show ?thesis
      using r(1) False sh' by (intro exI [of _ True] exI [of _ "(q, h1)"]) (simp add: sds_push_def)
  qed
qed
text \<open>
  Pushing a text character by character leaves a prefix of it behind the string: all that was pushed
  before the first failure, which loses nothing.
\<close>

lemma sds_push_run:
  assumes "sds_wf h" "strs h s = Some sh" "length (sh_text sh) + length t \<le> sds_limit"
  shows "\<exists>k q h'. append_all sds_push t (s, h) = Some (k, (q, h')) \<and> k \<le> length t \<and> sds_wf h' \<and>
    sds_text h' q = sh_text sh @ take k t"
proof -
  have "sds_ready (s, h)" "sds_view (s, h) = sh_text sh"
    using assms sds_text_get by (simp_all add: sds_ready_def sds_view_def)
  then show ?thesis
    using sds.append_all_prefix [of "(s, h)" t] assms(3) by (auto simp: sds_ready_def sds_view_def)
qed

end
