(* ===== verification/Nc_Sds_Claims.thy ===== *)
theory Nc_Sds_Claims
  imports Nc_Sds_Session
begin

text \<open>The properties of the dynamic strings, each with a run on a concrete heap.\<close>

subsection \<open>A concrete heap\<close>

definition sds_start :: "nat \<Rightarrow> sds_heap" where
  "sds_start n = \<lparr>offers = spread n, live = [], bytes = (\<lambda>_. 0), strs = (\<lambda>_. None), vecs = (\<lambda>_. None),
     junk = (\<lambda>_. CHR ''?''), junk_addr = 99\<rparr>"

lemma sds_start_ok: "sds_wf (sds_start n)" "n < 1073741824 \<Longrightarrow> roomy n (sds_start n)" "strs (sds_start n) s = None"
  using roomy_spread [of "sds_start n" n] by (simp_all add: sds_start_def sds_wf_def heap_ok_def)

definition sds_made :: "nat \<Rightarrow> string \<Rightarrow> addr \<times> sds_heap" where
  "sds_made n t = the (sdsnewlen (Some t) (of_nat (length t)) (sds_start (Suc n)))"

lemma sds_made_ok:
  assumes "length t \<le> 1073741824" "n < 1073741823"
  obtains s h where "sds_made n t = (s, h)" "sds_wf h" "roomy n h"
    "strs h = (\<lambda>_. None)(s \<mapsto> \<lparr>sh_len = int (length t), sh_free = 0, sh_buf = t @ [NUL]\<rparr>)"
proof -
  have u: "unat (of_nat (length t) :: size_t) = length t"
    using assms(1) by (simp add: unat_of_nat_ok)
  obtain s h where n: "sdsnewlen (Some t) (of_nat (length t)) (sds_start (Suc n)) = Some (s, h)"
    "s = NULL \<and> unchanged (sds_start (Suc n)) h \<and> \<not> roomy 1 (sds_start (Suc n)) \<or>
     s \<noteq> NULL \<and> created (sds_start (Suc n)) s h t \<and> (\<forall>k. roomy (Suc k) (sds_start (Suc n)) \<longrightarrow> roomy k h)"
    using newlen_ok [OF sds_start_ok(1) [of "Suc n"], of "of_nat (length t)" "Some t" t] assms(1) u by auto
  moreover have r: "roomy (Suc n) (sds_start (Suc n))"
    using sds_start_ok(2) assms(2) by simp
  moreover have "roomy 1 (sds_start (Suc n))"
    using roomy_mono [OF r, of 1] by simp
  ultimately have c: "created (sds_start (Suc n)) s h t" "roomy n h"
    by auto
  have "strs (sds_start (Suc n)) = (\<lambda>_. None)"
    by (simp add: sds_start_def)
  then show thesis
    using that [of s h] c n(1) by (simp add: sds_made_def created_def)
qed

lemma sds_text_made:
  "sds_wf h \<Longrightarrow> strs h = (\<lambda>_. None)(s \<mapsto> \<lparr>sh_len = int (length t), sh_free = 0, sh_buf = t @ [NUL]\<rparr>) \<Longrightarrow> sds_text h s = t"
  by (subst sds_text_get) (auto simp: sh_text_def)

subsection \<open>Editing\<close>

text \<open>
  Property (C12): any sequence of editing operations (\<open>sdscat\<close>, \<open>sdscatprintf\<close>, \<open>sdscpy\<close>,
  \<open>sdsgrowzero\<close>, \<open>sdsMakeRoomFor\<close>, \<open>sdstrim\<close>, \<open>sdsrange\<close>, \<open>sdstolower\<close>, \<open>sdstoupper\<close>, \<open>sdsmapchars\<close>,
  \<open>sdsclear\<close>, \<open>sdsupdatelen\<close>) that stays within the limits and has the memory runs to its end without undefined
  behaviour. The text is then what the list functions make of the old text, the heap is well-formed,
  and every other string and array is as it was.
\<close>

theorem sds_run_refines:
  assumes "sds_wf h" "strs h s \<noteq> None" "run_fits xs (sds_text h s)" "roomy (op_allocs * length xs) h"
  shows "\<exists>q h'. run_sds xs s h = Some (q, h') \<and> q \<noteq> NULL \<and> sds_wf h' \<and>
    sds_text h' q = run_text xs (sds_text h s) \<and>
    (\<forall>t. t \<noteq> s \<longrightarrow> t \<noteq> q \<longrightarrow> strs h' t = strs h t) \<and> vecs h' = vecs h"
proof -
  obtain sh where sh: "strs h s = Some sh"
    using assms(2) by auto
  note w = sds_wfD(2) [OF assms(1) sh] sds_text_get [OF assms(1) sh]
  obtain q h' where r: "run_sds xs s h = Some (q, h')" "q \<noteq> NULL" "moved h s q h' (run_text xs (sh_text sh))"
    using run_sds_ok [OF assms(1) sh w(1), of xs 0] assms(3,4) w(2) by auto
  moreover obtain sh' where "get_sds h' q = Some sh'" "sh_text sh' = run_text xs (sh_text sh)"
    using moved_get [OF r(3)] by metis
  ultimately show ?thesis
    using w(2) unfolding moved_def by (auto simp: sds_text_def)
qed

theorem sds_run_refines_witness:
  "\<exists>q h'. run_sds [Trim '' '', Cat '' World'', Range 0 (- 2), Upper] (fst (sds_made 200 ''  Hello ''))
     (snd (sds_made 200 ''  Hello '')) = Some (q, h') \<and> sds_text h' q = ''HELLO WORL''"
proof -
  obtain s h where s: "sds_made 200 ''  Hello '' = (s, h)" "sds_wf h" "roomy 200 h"
    "strs h = (\<lambda>_. None)(s \<mapsto> \<lparr>sh_len = int (length ''  Hello ''), sh_free = 0, sh_buf = ''  Hello '' @ [NUL]\<rparr>)"
    by (rule sds_made_ok [of "''  Hello ''" 200]) simp_all
  have t: "sds_text h s = ''  Hello ''"
    by (rule sds_text_made [OF s(2,4)])
  have e: "run_text [Trim '' '', Cat '' World'', Range 0 (- 2), Upper] ''  Hello '' = ''HELLO WORL''"
    by code_simp
  have f: "run_fits [Trim '' '', Cat '' World'', Range 0 (- 2), Upper] (sds_text h s)"
    by (simp add: t sds_limit_def int_limits trim_text_def strchr_def)
  have "roomy (op_allocs * length [Trim '' '', Cat '' World'', Range 0 (- 2), Upper]) h"
    using roomy_mono [OF s(3)] by (simp add: op_allocs_def)
  from sds_run_refines [OF s(2) _ f this] show ?thesis
    using s(1,4) e t by auto
qed

text \<open>
  Property (C14): every single editing operation either returns the null pointer because
  memory ran out, and then no string, no array and no block has changed, or it returns the string
  with its new text, in its old block or in a fresh one that replaces it.
\<close>

theorem sds_edit_atomic:
  assumes "sds_wf h" "strs h s \<noteq> None" "op_fits x (sds_text h s)"
  shows "\<exists>q h'. sds_exec x s h = Some (q, h') \<and> sds_wf h' \<and> vecs h' = vecs h \<and>
    (if q = NULL then strs h' = strs h \<and> block_size h' = block_size h \<and> \<not> roomy op_allocs h
     else sds_text h' q = op_text x (sds_text h s) \<and>
       (q = s \<or> strs h q = None \<and> block_size h (q - sizeof_hdr) = None \<and> strs h' s = None \<and>
         block_size h' (s - sizeof_hdr) = None))"
proof -
  obtain sh where sh: "strs h s = Some sh"
    using assms(2) by auto
  note w = sds_text_get [OF assms(1) sh]
  have "op_fits x (sh_text sh)"
    using assms(3) w by simp
  from sds_exec_ok [OF assms(1) sh this]
  obtain q h' where r: "sds_exec x s h = Some (q, h')" "edits op_allocs h s q h' (op_text x (sh_text sh))"
    by blast
  show ?thesis
  proof (cases "q = NULL")
    case True
    then show ?thesis
      using r by (auto simp: edits_def unchanged_def)
  next
    case False
    then have m: "moved h s q h' (op_text x (sh_text sh))"
      using r(2) by (simp add: edits_def)
    then obtain sh' where "get_sds h' q = Some sh'" "sh_text sh' = op_text x (sh_text sh)"
      using moved_get by metis
    moreover have "q - sizeof_hdr \<noteq> s - sizeof_hdr" if "q \<noteq> s"
      using that by simp
    ultimately show ?thesis
      using m r(1) False w unfolding moved_def by (auto simp: sds_text_def)
  qed
qed

theorem sds_edit_atomic_witness:
  "\<exists>q h'. sds_exec (Cat ''def'') (fst (sds_made 0 ''abc'')) (snd (sds_made 0 ''abc'')) = Some (q, h') \<and>
     (q = NULL \<or> sds_text h' q = ''abcdef'')"
proof -
  obtain s h where s: "sds_made 0 ''abc'' = (s, h)" "sds_wf h" "roomy 0 h"
    "strs h = (\<lambda>_. None)(s \<mapsto> \<lparr>sh_len = int (length ''abc''), sh_free = 0, sh_buf = ''abc'' @ [NUL]\<rparr>)"
    by (rule sds_made_ok [of "''abc''" 0]) simp_all
  have t: "sds_text h s = ''abc''"
    by (rule sds_text_made [OF s(2,4)])
  have f: "op_fits (Cat ''def'') (sds_text h s)"
    by (simp add: t sds_limit_def)
  show ?thesis
    using sds_edit_atomic [OF s(2) _ f] s(1,4) t by (auto split: if_splits)
qed

text \<open>
  Property (C34): \<open>sdsMakeRoomFor\<close> leaves the text alone and, unless memory runs
  out, room for the bytes asked for. When it has to grow, the capacity becomes twice the length
  needed below 1 MiB and the length plus 1 MiB from there on: never less than the need, never more
  than twice the need or 1 MiB above it.
\<close>

theorem sdsMakeRoomFor_capacity:
  assumes "sds_wf h" "strs h s = Some sh" "length (sh_text sh) + n \<le> sds_limit"
  shows "\<exists>q h'. sdsMakeRoomFor s (of_nat n) h = Some (q, h') \<and> sds_wf h' \<and>
    (if q = NULL then strs h' = strs h
     else \<exists>sh'. strs h' q = Some sh' \<and> sh_text sh' = sh_text sh \<and> int n \<le> sh_free sh' \<and>
       (if int n \<le> sh_free sh then sh' = sh
        else sh_len sh' + sh_free sh' =
          int (if length (sh_text sh) + n < 1048576 then 2 * (length (sh_text sh) + n)
               else length (sh_text sh) + n + 1048576)))"
proof -
  have hd: "hdr_ok h s sh" and L: "length (sh_text sh) = nat (sh_len sh)"
    using sds_wfD(3) [OF assms(1,2)] length_sh_text by blast+
  have u: "unat (of_nat n :: size_t) = n"
    using assms(3) by (simp add: sds_limit_def unat_of_nat_ok)
  have "nat (sh_len sh) + unat (of_nat n :: size_t) \<le> 1073741824"
    using assms(3) L u by (simp add: sds_limit_def)
  from room_ok [OF assms(1,2) this] obtain q h' where r: "sdsMakeRoomFor s (of_nat n) h = Some (q, h')"
    "q = NULL \<and> unchanged h h' \<or>
     q \<noteq> NULL \<and> moved h s q h' (sh_text sh) \<and>
       (\<exists>sh'. strs h' q = Some sh' \<and> sh_len sh' = sh_len sh \<and> n \<le> nat (sh_free sh') \<and>
         (if n \<le> nat (sh_free sh) then q = s \<and> h' = h
          else nat (sh_len sh + sh_free sh') = new_capacity (nat (sh_len sh) + n)))"
    unfolding u by blast
  show ?thesis
  proof (cases "q = NULL")
    case True
    then show ?thesis
      using r by (auto simp: unchanged_def)
  next
    case False
    then obtain sh' where d: "moved h s q h' (sh_text sh)" "strs h' q = Some sh'" "sh_len sh' = sh_len sh" "n \<le> nat (sh_free sh')"
      "if n \<le> nat (sh_free sh) then q = s \<and> h' = h
       else nat (sh_len sh + sh_free sh') = new_capacity (nat (sh_len sh) + n)"
      using r(2) by auto
    have wf: "sds_wf h'" "sh_text sh' = sh_text sh"
      using d(1,2) by (auto simp: moved_def)
    have pos: "0 \<le> sh_free sh" "0 \<le> sh_len sh" "0 \<le> sh_free sh'"
      using hd sds_wfD(3) [OF wf(1) d(2)] by (simp_all add: hdr_ok_def)
    have n: "int n \<le> sh_free sh'" "n \<le> nat (sh_free sh) \<longleftrightarrow> int n \<le> sh_free sh"
      using d(4) pos by (simp_all add: le_nat_iff)
    have "sh_len sh' + sh_free sh' = int (new_capacity (nat (sh_len sh) + n))" if "\<not> int n \<le> sh_free sh"
    proof -
      have "nat (sh_len sh + sh_free sh') = new_capacity (nat (sh_len sh) + n)"
        using d(5) that n(2) by simp
      then have "int (nat (sh_len sh + sh_free sh')) = int (new_capacity (nat (sh_len sh) + n))"
        by (rule arg_cong)
      then show ?thesis
        using pos d(3) by simp
    qed
    moreover have "sh' = sh" if "int n \<le> sh_free sh"
      using d(2,5) that n(2) assms(2) by simp
    ultimately show ?thesis
      using r(1) False wf d(2) n(1) L by (intro exI [of _ q] exI [of _ h']) (simp add: new_capacity_def)
  qed
qed

theorem sdsMakeRoomFor_capacity_witness:
  "\<exists>q h'. sdsMakeRoomFor (fst (sds_made 1 ''abc'')) (of_nat 5) (snd (sds_made 1 ''abc'')) = Some (q, h') \<and>
     (q = NULL \<or> (\<exists>sh. strs h' q = Some sh \<and> sh_len sh + sh_free sh = 16))"
proof -
  obtain s h where s: "sds_made 1 ''abc'' = (s, h)" "sds_wf h" "roomy 1 h"
    "strs h = (\<lambda>_. None)(s \<mapsto> \<lparr>sh_len = int (length ''abc''), sh_free = 0, sh_buf = ''abc'' @ [NUL]\<rparr>)"
    by (rule sds_made_ok [of "''abc''" 1]) simp_all
  define sh where "sh = \<lparr>sh_len = 3, sh_free = 0, sh_buf = ''abc'' @ [NUL]\<rparr>"
  have sh: "strs h s = Some sh" "sh_text sh = ''abc''" "sh_free sh = 0"
    using s(4) by (simp_all add: sh_def sh_text_def)
  have "length (sh_text sh) + 5 \<le> sds_limit"
    by (simp add: sh sds_limit_def)
  from sdsMakeRoomFor_capacity [OF s(2) sh(1) this] show ?thesis
    using s(1) sh(2,3) by (auto split: if_splits)
qed

text \<open>
  Property (C35): \<open>sdsIncrLen\<close> moves the end of the text over bytes that are already in
  the buffer, forwards or backwards, and terminates it there; asking for more than the free space
  trips the assertion, and nothing else does.
\<close>

theorem sdsIncrLen_spec:
  assumes "sds_wf h" "strs h s = Some sh" "- sh_len sh \<le> incr" "incr \<le> INT_MAX"
  shows "if incr \<le> sh_free sh
    then \<exists>h'. sdsIncrLen s incr h = Some (Returns h') \<and> sds_wf h' \<and>
      sds_text h' s = take (nat (sh_len sh + incr)) (sh_buf sh)
    else sdsIncrLen s incr h = Some Aborts"
  using sdsIncrLen_ok [OF assms] in_place_wf [OF assms(1,2)] by (auto split: if_splits)

theorem sdsIncrLen_spec_witness:
  "(\<exists>h'. sdsIncrLen (fst (sds_made 0 ''abc'')) (- 2) (snd (sds_made 0 ''abc'')) = Some (Returns h') \<and>
     sds_text h' (fst (sds_made 0 ''abc'')) = ''a'') \<and>
   sdsIncrLen (fst (sds_made 0 ''abc'')) 1 (snd (sds_made 0 ''abc'')) = Some Aborts"
proof -
  obtain s h where s: "sds_made 0 ''abc'' = (s, h)" "sds_wf h" "roomy 0 h"
    "strs h = (\<lambda>_. None)(s \<mapsto> \<lparr>sh_len = int (length ''abc''), sh_free = 0, sh_buf = ''abc'' @ [NUL]\<rparr>)"
    by (rule sds_made_ok [of "''abc''" 0]) simp_all
  define sh where "sh = \<lparr>sh_len = 3, sh_free = 0, sh_buf = ''abc'' @ [NUL]\<rparr>"
  have sh: "strs h s = Some sh" "sh_buf sh = ''abc'' @ [NUL]" "sh_free sh = 0" "sh_len sh = 3"
    using s(4) by (simp_all add: sh_def)
  show ?thesis
    using sdsIncrLen_spec [OF s(2) sh(1), of "- 2"] sdsIncrLen_spec [OF s(2) sh(1), of 1] s(1) sh(2-4)
    by (auto simp: INT_MAX_def)
qed

text \<open>
  Property (C36): appending a string to itself with \<open>sdscatsds (s, s)\<close> reads freed memory
  whenever making room moves the string.
\<close>

theorem sdscatsds_self:
  assumes "sds_wf h" "strs h s = Some sh" "length (sh_text sh) + length (sh_text sh) \<le> sds_limit"
    and "sdsMakeRoomFor s (size_of_int (sh_len sh)) h = Some (q, h1)" "q \<noteq> s" "q \<noteq> NULL"
  shows "sdscatsds s s h = None"
proof -
  have s: "get_sds h s = Some sh" "hdr_ok h s sh"
    using sds_wfD [OF assms(1,2)] by simp_all
  have "nat (sh_len sh) + unat (size_of_int (sh_len sh)) \<le> 1073741824"
    using assms(3) length_sh_text [OF s(2)] unat_len(1) [OF s(2)] by (simp add: sds_limit_def)
  from room_ok [OF assms(1,2) this] have "moved h s q h1 (sh_text sh)"
    using assms(4,6) by auto
  then have "strs h1 s = None"
    using assms(5) by (auto simp: moved_def)
  then show ?thesis
    using s(1) assms(4,6) by (simp add: sdscatsds_def sdslen_def get_sds_def)
qed

definition sds_self :: sds_heap where
  "sds_self = \<lparr>offers = [8192], live = [(4096, 11)], bytes = (\<lambda>_. 0),
     strs = (\<lambda>_. None)(4104 \<mapsto> \<lparr>sh_len = 2, sh_free = 0, sh_buf = ''ab'' @ [NUL]\<rparr>), vecs = (\<lambda>_. None),
     junk = (\<lambda>_. CHR ''?''), junk_addr = 99\<rparr>"

theorem sdscatsds_self_witness: "sdscatsds 4104 4104 sds_self = None"
proof -
  define sh where "sh = \<lparr>sh_len = 2, sh_free = 0, sh_buf = ''ab'' @ [NUL]\<rparr>"
  have wf: "sds_wf sds_self"
    by (auto simp: sds_wf_def sds_self_def heap_ok_def placement_ok_def fits_def extent_def hdr_ok_def INT_MAX_def
        sizeof_hdr_def block_size_def)
  have sh: "strs sds_self 4104 = Some sh"
    by (simp add: sds_self_def sh_def)
  have "map_option fst (sdsMakeRoomFor 4104 (size_of_int (sh_len sh)) sds_self) = Some 8200"
    by (simp add: sdsMakeRoomFor_def sdsavail_def sdslen_def get_sds_def sds_self_def size_of_int_def sh_def
        SDS_MAX_PREALLOC_def sizeof_hdr_def sds_realloc_def realloc_def block_size_def malloc_def drop_block_def
        placement_ok_def fits_def extent_def put_sds_def Let_def)
  then obtain h1 where "sdsMakeRoomFor 4104 (size_of_int (sh_len sh)) sds_self = Some (8200, h1)"
    by auto
  from sdscatsds_self [OF wf sh _ this] show ?thesis
    by (simp add: sh_def sh_text_def sds_limit_def)
qed

end
