(* ===== verification/Nc_Sds_Grammar.thy ===== *)
theory Nc_Sds_Grammar
  imports Nc_Sds_Parse
begin

text \<open>
  The language of \<open>sdssplitargs\<close> as a grammar, written from its comment and independent of the
  functions that read it: words of plain characters, double quotes with escapes, single quotes with
  one escape, a closing quote that must be followed by a blank or the end. Every nonterminal relates
  what stands on the line to the text it means and to what is left of the line. The reader of
  the code accepts exactly the lines of this grammar.
\<close>

subsection \<open>The grammar\<close>

text \<open>The end of the line: the terminator, or the end of the list.\<close>

definition line_end :: "string \<Rightarrow> bool" where
  "line_end r \<longleftrightarrow> r = [] \<or> hd r = NUL"

definition hex_value :: "char \<Rightarrow> nat \<Rightarrow> bool" where
  "hex_value c d \<longleftrightarrow> d < 16 \<and> (c = ''0123456789abcdef'' ! d \<or> c = ''0123456789ABCDEF'' ! d)"

text \<open>The named escapes; every other character stands for itself.\<close>

definition named_escapes :: "(char \<times> char) list" where
  "named_escapes = [(CHR ''n'', CHR 0x0A), (CHR ''r'', CHR 0x0D), (CHR ''t'', CHR 0x09), (CHR ''b'', CHR 0x08), (CHR ''a'', CHR 0x07)]"

text \<open>Behind an opening double quote, up to the closing one.\<close>

inductive in_double :: "string \<Rightarrow> string \<Rightarrow> string \<Rightarrow> bool" where
  d_close: "line_end r \<or> isspace (hd r) \<Longrightarrow> in_double (QUOTE # r) [] r"
| d_hex: "hex_value a i \<Longrightarrow> hex_value b j \<Longrightarrow> in_double p t r \<Longrightarrow>
    in_double (BACKSLASH # CHR ''x'' # a # b # p) (char_of (16 * i + j) # t) r"
| d_named: "(c, d) \<in> set named_escapes \<Longrightarrow> in_double p t r \<Longrightarrow> in_double (BACKSLASH # c # p) (d # t) r"
| d_other: "c \<noteq> NUL \<Longrightarrow> c \<notin> fst ` set named_escapes \<Longrightarrow>
    \<not> (c = CHR ''x'' \<and> (\<exists>a b q i j. p = a # b # q \<and> hex_value a i \<and> hex_value b j)) \<Longrightarrow>
    in_double p t r \<Longrightarrow> in_double (BACKSLASH # c # p) (c # t) r"
| d_char: "c \<notin> {BACKSLASH, QUOTE, NUL} \<Longrightarrow> in_double p t r \<Longrightarrow> in_double (c # p) (c # t) r"

text \<open>Behind an opening apostrophe: the only escape is that of the apostrophe.\<close>

inductive in_single :: "string \<Rightarrow> string \<Rightarrow> string \<Rightarrow> bool" where
  s_close: "line_end r \<or> isspace (hd r) \<Longrightarrow> in_single (APOSTROPHE # r) [] r"
| s_apostrophe: "in_single p t r \<Longrightarrow> in_single (BACKSLASH # APOSTROPHE # p) (APOSTROPHE # t) r"
| s_char: "c \<notin> {APOSTROPHE, NUL} \<Longrightarrow> \<not> (c = BACKSLASH \<and> p \<noteq> [] \<and> hd p = APOSTROPHE) \<Longrightarrow>
    in_single p t r \<Longrightarrow> in_single (c # p) (c # t) r"

text \<open>A word; a quote may open inside it and ends it when it closes.\<close>

inductive word_of :: "string \<Rightarrow> string \<Rightarrow> string \<Rightarrow> bool" where
  w_end: "line_end r \<Longrightarrow> word_of r [] r"
| w_blank: "c \<in> {CHR '' '', CHR 0x0A, CHR 0x0D, CHR 0x09} \<Longrightarrow> word_of (c # r) [] r"
| w_double: "in_double p t r \<Longrightarrow> word_of (QUOTE # p) t r"
| w_single: "in_single p t r \<Longrightarrow> word_of (APOSTROPHE # p) t r"
| w_char: "c \<notin> {CHR '' '', CHR 0x0A, CHR 0x0D, CHR 0x09, NUL, QUOTE, APOSTROPHE} \<Longrightarrow>
    word_of p t r \<Longrightarrow> word_of (c # p) (c # t) r"

text \<open>A line: words with blanks before and between them.\<close>

inductive line_args :: "string \<Rightarrow> string list \<Rightarrow> bool" where
  l_end: "line_end p \<Longrightarrow> line_args p []"
| l_space: "isspace c \<Longrightarrow> line_args p ts \<Longrightarrow> line_args (c # p) ts"
| l_word: "\<not> line_end p \<Longrightarrow> \<not> isspace (hd p) \<Longrightarrow> word_of p t r \<Longrightarrow> line_args r ts \<Longrightarrow> line_args p (t # ts)"

inductive_cases in_doubleE: "in_double (c # p) t r"
inductive_cases in_singleE: "in_single (c # p) t r"
inductive_cases word_ofE: "word_of (c # p) t r"
inductive_simps in_double_Nil [simp]: "in_double [] t r"
inductive_simps in_single_Nil [simp]: "in_single [] t r"
inductive_simps word_of_Nil: "word_of [] t r"

subsection \<open>Hexadecimal digits and escapes\<close>

lemma hex_value_iff: "hex_value c d \<longleftrightarrow> is_hex_digit c \<and> d = hex_digit_to_int c"
proof -
  have d: "hex_value c (hex_digit_to_int c)" if "is_hex_digit c"
  proof -
    have "char_code c \<in> set ([48..<58] @ [65..<71] @ [97..<103])"
      using that by (auto simp: is_hex_digit_def simp del: upt_rec_numeral)
    then have "c \<in> set (map char_of ([48..<58] @ [65..<71] @ [97..<103]))"
      using char_of_code [of c] by (metis image_eqI list.set_map)
    moreover have "\<forall>c \<in> set (map char_of ([48..<58] @ [65..<71] @ [97..<103 :: nat])). hex_value c (hex_digit_to_int c)"
      by code_simp
    ultimately show ?thesis
      by blast
  qed
  have "\<forall>d \<in> set [0..<16]. \<forall>c \<in> {''0123456789abcdef'' ! d, ''0123456789ABCDEF'' ! d}. is_hex_digit c \<and> hex_digit_to_int c = d"
    by code_simp
  then have "is_hex_digit c \<and> hex_digit_to_int c = d" if "hex_value c d"
    using that by (auto simp: hex_value_def)
  then show ?thesis
    using d by blast
qed

lemma named_escape_iff: "(c, d) \<in> set named_escapes \<longleftrightarrow> c \<in> fst ` set named_escapes \<and> unescape c = d"
  by (auto simp: named_escapes_def unescape_def)

lemma unescape_self: "c \<notin> fst ` set named_escapes \<Longrightarrow> unescape c = c"
  by (simp add: named_escapes_def unescape_def)

lemma hex_not_NUL: "is_hex_digit c \<Longrightarrow> c \<noteq> NUL"
  by (auto simp: is_hex_digit_def char_code_def)

subsection \<open>The reader follows the grammar\<close>

lemma peek_simps: "peek [] n = NUL" "peek (c # p) 0 = c" "peek (c # p) (Suc n) = peek p n"
  by (simp_all add: peek_def)

lemma peek_numerals: "peek (c # p) (Suc 0) = peek p 0" "peek (c # p) 2 = peek p (Suc 0)" "peek (c # p) 3 = peek p 2"
  using peek_simps(3) [of c p 0] peek_simps(3) [of c p 1] peek_simps(3) [of c p 2]
  by (simp_all add: numeral_2_eq_2 numeral_3_eq_3)

lemma line_end_peek: "line_end r \<longleftrightarrow> peek r 0 = NUL"
  by (cases r) (simp_all add: line_end_def peek_simps)

lemma closes_iff: "line_end r \<or> isspace (hd r) \<longleftrightarrow> peek r 0 = NUL \<or> isspace (peek r 0)"
  by (cases r) (simp_all add: line_end_def peek_simps)

lemma closing_iff: "closing (c # r) = (if line_end r \<or> isspace (hd r) then Finish r else Fail)"
  by (simp add: closing_def closes_iff peek_numerals)

text \<open>One step of each reader, on the shapes that the grammar distinguishes.\<close>

lemma step_double:
  "step_inq [] = Fail"
  "step_inq (QUOTE # r) = (if line_end r \<or> isspace (hd r) then Finish r else Fail)"
  "c \<notin> {BACKSLASH, QUOTE, NUL} \<Longrightarrow> step_inq (c # p) = Append c p"
  "hex_value a i \<Longrightarrow> hex_value b j \<Longrightarrow>
    step_inq (BACKSLASH # CHR ''x'' # a # b # p) = Append (char_of (16 * i + j)) p"
  "c \<noteq> NUL \<Longrightarrow> \<not> (c = CHR ''x'' \<and> (\<exists>a b q i j. p = a # b # q \<and> hex_value a i \<and> hex_value b j)) \<Longrightarrow>
    step_inq (BACKSLASH # c # p) = Append (unescape c) p"
proof -
  show "step_inq [] = Fail" "c \<notin> {BACKSLASH, QUOTE, NUL} \<Longrightarrow> step_inq (c # p) = Append c p"
    by (simp_all add: step_inq_def peek_simps)
  show "step_inq (QUOTE # r) = (if line_end r \<or> isspace (hd r) then Finish r else Fail)"
    by (simp add: step_inq_def peek_simps closing_iff)
  show "hex_value a i \<Longrightarrow> hex_value b j \<Longrightarrow>
    step_inq (BACKSLASH # CHR ''x'' # a # b # p) = Append (char_of (16 * i + j)) p"
    by (simp add: step_inq_def peek_simps peek_numerals hex_value_iff mult.commute)
  assume c: "c \<noteq> NUL" "\<not> (c = CHR ''x'' \<and> (\<exists>a b q i j. p = a # b # q \<and> hex_value a i \<and> hex_value b j))"
  have "\<not> (c = CHR ''x'' \<and> is_hex_digit (peek p 0) \<and> is_hex_digit (peek p 1))"
  proof
    assume x: "c = CHR ''x'' \<and> is_hex_digit (peek p 0) \<and> is_hex_digit (peek p 1)"
    then obtain a b q where "p = a # b # q"
      using hex_not_NUL by (cases p; cases "tl p") (auto simp: peek_simps peek_numerals)
    then show False
      using x c(2) by (auto simp: peek_simps peek_numerals hex_value_iff)
  qed
  then show "step_inq (BACKSLASH # c # p) = Append (unescape c) p"
    using c(1) by (auto simp: step_inq_def peek_simps peek_numerals)
qed

lemma step_single:
  "step_insq [] = Fail"
  "step_insq (APOSTROPHE # r) = (if line_end r \<or> isspace (hd r) then Finish r else Fail)"
  "step_insq (BACKSLASH # APOSTROPHE # p) = Append APOSTROPHE p"
  "c \<notin> {APOSTROPHE, NUL} \<Longrightarrow> \<not> (c = BACKSLASH \<and> p \<noteq> [] \<and> hd p = APOSTROPHE) \<Longrightarrow> step_insq (c # p) = Append c p"
  by (cases p; simp add: step_insq_def peek_simps peek_numerals closing_iff)+

lemma step_word:
  "line_end r \<Longrightarrow> step_plain r = Finish r"
  "c \<in> {CHR '' '', CHR 0x0A, CHR 0x0D, CHR 0x09} \<Longrightarrow> step_plain (c # r) = Finish r"
  "step_plain (QUOTE # p) = Enter Inq p" "step_plain (APOSTROPHE # p) = Enter Insq p"
  "c \<notin> {CHR '' '', CHR 0x0A, CHR 0x0D, CHR 0x09, NUL, QUOTE, APOSTROPHE} \<Longrightarrow> step_plain (c # p) = Append c p"
  by (auto simp: step_plain_def peek_simps line_end_peek)

lemma token_steps:
  "step_inq p = Append c q \<Longrightarrow> token Inq p = map_option (\<lambda>(t, r). (c # t, r)) (token Inq q)"
  "step_inq p = Finish q \<Longrightarrow> token Inq p = Some ([], q)"
  "step_insq p = Append c q \<Longrightarrow> token Insq p = map_option (\<lambda>(t, r). (c # t, r)) (token Insq q)"
  "step_insq p = Finish q \<Longrightarrow> token Insq p = Some ([], q)"
  "step_plain p = Append c q \<Longrightarrow> token Plain p = map_option (\<lambda>(t, r). (c # t, r)) (token Plain q)"
  "step_plain p = Enter m q \<Longrightarrow> token Plain p = token m q"
  "step_plain p = Finish q \<Longrightarrow> token Plain p = Some ([], q)"
  by (subst token.simps; simp add: token_step_def)+

text \<open>Whatever the grammar derives is read.\<close>

lemma in_double_read: "in_double p t r \<Longrightarrow> token Inq p = Some (t, r)"
proof (induction rule: in_double.induct)
  case (d_hex a i b j p t r)
  then show ?case
    by (simp add: token_steps(1) [OF step_double(4)])
next
  case (d_named c d p t r)
  then have "c \<noteq> NUL" "c \<noteq> CHR ''x''" "unescape c = d"
    by (auto simp: named_escapes_def unescape_def)
  then show ?case
    using d_named.IH by (simp add: token_steps(1) [OF step_double(5)])
next
  case (d_other c p t r)
  then show ?case
    by (simp add: token_steps(1) [OF step_double(5)] unescape_self)
qed (simp_all add: token_steps(1) [OF step_double(3)] token_steps(2) step_double(2))

lemma in_single_read: "in_single p t r \<Longrightarrow> token Insq p = Some (t, r)"
  by (induction rule: in_single.induct)
    (simp_all add: token_steps(3) [OF step_single(3)] token_steps(3) [OF step_single(4)] token_steps(4) step_single(2))

lemma word_of_read: "word_of p t r \<Longrightarrow> token Plain p = Some (t, r)"
  by (induction rule: word_of.induct)
    (simp_all add: token_steps(5) [OF step_word(5)] token_steps(6) [OF step_word(3)] token_steps(6) [OF step_word(4)]
      token_steps(7) step_word(1,2) in_double_read in_single_read)

text \<open>Whatever is read, the grammar derives.\<close>

fun means :: "mode \<Rightarrow> string \<Rightarrow> string \<Rightarrow> string \<Rightarrow> bool" where
  "means Plain = word_of"
| "means Inq = in_double"
| "means Insq = in_single"

lemma no_quoted_NUL: "\<not> in_double (NUL # p) t r" "\<not> in_single (NUL # p) t r"
  by (auto elim: in_doubleE in_singleE)

lemma double_derived:
  "step_inq p = Append c q \<Longrightarrow> in_double q t r \<Longrightarrow> in_double p (c # t) r"
  "step_inq p = Finish q \<Longrightarrow> in_double p [] q"
  "step_inq p \<noteq> Enter m q"
proof -
  show "step_inq p \<noteq> Enter m q"
    by (simp add: step_inq_def closing_def)
  show "step_inq p = Finish q \<Longrightarrow> in_double p [] q"
    by (cases p) (auto simp: step_inq_def peek_simps closing_iff intro: d_close split: if_splits)
  assume st: "step_inq p = Append c q" and q: "in_double q t r"
  then obtain x p' where p: "p = x # p'"
    by (cases p) (simp_all add: step_double(1))
  show "in_double p (c # t) r"
  proof (cases "x = BACKSLASH")
    case False
    then have "x \<notin> {BACKSLASH, QUOTE, NUL}" "c = x" "q = p'"
      using st by (auto simp: p step_inq_def peek_simps closing_def split: if_splits)
    then show ?thesis
      using q d_char by (simp add: p)
  next
    case True
    then obtain y p2 where p': "p' = y # p2" "y \<noteq> NUL"
      using st q no_quoted_NUL(1) by (cases p') (auto simp: p step_inq_def peek_simps peek_numerals split: if_splits)
    show ?thesis
    proof (cases "y = CHR ''x'' \<and> (\<exists>a b q i j. p2 = a # b # q \<and> hex_value a i \<and> hex_value b j)")
      case hex: True
      then show ?thesis
        using st q d_hex by (auto simp: p True p' step_double(4))
    next
      case other: False
      then have a: "c = unescape y" "q = p2"
        using st p'(2) by (simp_all add: p True p'(1) step_double(5))
      show ?thesis
      proof (cases "y \<in> fst ` set named_escapes")
        case True
        then show ?thesis
          using d_named [of y "unescape y" p2 t r] named_escape_iff q a by (simp add: p p'(1) \<open>x = BACKSLASH\<close>)
      next
        case False
        then show ?thesis
          using d_other [OF p'(2) False other] q a unescape_self by (simp add: p p'(1) \<open>x = BACKSLASH\<close>)
      qed
    qed
  qed
qed

lemma single_derived:
  "step_insq p = Append c q \<Longrightarrow> in_single q t r \<Longrightarrow> in_single p (c # t) r"
  "step_insq p = Finish q \<Longrightarrow> in_single p [] q"
  "step_insq p \<noteq> Enter m q"
proof -
  show "step_insq p \<noteq> Enter m q"
    by (simp add: step_insq_def closing_def)
  show "step_insq p = Finish q \<Longrightarrow> in_single p [] q"
    by (cases p) (auto simp: step_insq_def peek_simps closing_iff intro: s_close split: if_splits)
  assume st: "step_insq p = Append c q" and q: "in_single q t r"
  then obtain x p' where p: "p = x # p'"
    by (cases p) (simp_all add: step_single(1))
  show "in_single p (c # t) r"
  proof (cases "x = BACKSLASH \<and> p' \<noteq> [] \<and> hd p' = APOSTROPHE")
    case True
    then show ?thesis
      using st q s_apostrophe by (cases p') (auto simp: p step_single(3))
  next
    case False
    have "x \<noteq> NUL" "x \<noteq> APOSTROPHE"
      using st False by (cases p'; auto simp: p step_insq_def peek_simps peek_numerals closing_iff split: if_splits)+
    then have "x \<notin> {APOSTROPHE, NUL}"
      by simp
    then show ?thesis
      using st q s_char [OF _ False] step_single(4) [OF _ False] by (simp add: p)
  qed
qed

lemma word_derived:
  "step_plain p = Append c q \<Longrightarrow> word_of q t r \<Longrightarrow> word_of p (c # t) r"
  "step_plain p = Enter m q \<Longrightarrow> means m q t r \<Longrightarrow> word_of p t r"
  "step_plain p = Finish q \<Longrightarrow> word_of p [] q"
  by (cases p; auto simp: step_plain_def peek_simps intro: word_of.intros split: if_splits;
      auto simp: line_end_def intro: w_end)+

lemma token_derived: "token m p = Some (t, r) \<Longrightarrow> means m p t r"
proof (induction m p arbitrary: t rule: token.induct)
  case (1 m p)
  show ?case
  proof (cases "token_step m p")
    case (Append c q)
    then obtain u where "token m q = Some (u, r)" "t = c # u"
      using 1(3) by (subst (asm) token.simps) auto
    then show ?thesis
      using 1(1) [OF Append, of u] Append double_derived(1) single_derived(1) word_derived(1)
      by (cases m) (simp_all add: token_step_def)
  next
    case (Enter m' q)
    then have "token m' q = Some (t, r)"
      using 1(3) by (subst (asm) token.simps) auto
    then show ?thesis
      using 1(2) [OF Enter, of t] Enter double_derived(3) single_derived(3) word_derived(2)
      by (cases m) (simp_all add: token_step_def)
  next
    case (Finish q)
    then show ?thesis
      using 1(3) double_derived(2) single_derived(2) word_derived(3)
      by (cases m; subst (asm) token.simps) (simp_all add: token_step_def)
  next
    case Fail
    then show ?thesis
      using 1(3) by (subst (asm) token.simps) simp
  qed
qed

lemma word_of_token: "word_of p t r \<longleftrightarrow> token Plain p = Some (t, r)"
  using word_of_read token_derived [of Plain p t r] by auto

text \<open>The line: what is left after the blanks is the end, or the next word.\<close>

lemma space_not_end: "isspace c \<Longrightarrow> \<not> line_end (c # p)"
  by (auto simp: line_end_def isspace_def char_code_def)

lemma parse_line_space: "isspace c \<Longrightarrow> parse_line (c # p) = parse_line p"
  by (subst (1 2) parse_line.simps) simp

lemma parse_line_end: "line_end p \<Longrightarrow> parse_line p = Some []"
  using space_not_end [of "hd p" "tl p"]
  by (subst parse_line.simps) (cases p; auto simp: line_end_peek peek_simps line_end_def)

lemma parse_line_word:
  "\<not> line_end p \<Longrightarrow> \<not> isspace (hd p) \<Longrightarrow> parse_line p =
     (case token Plain p of None \<Rightarrow> None | Some (t, q) \<Rightarrow> map_option (Cons t) (parse_line q))"
  by (subst parse_line.simps) (cases p; simp add: line_end_peek peek_simps)

lemma line_args_read: "line_args p ts \<Longrightarrow> parse_line p = Some ts"
  by (induction rule: line_args.induct)
    (simp_all add: parse_line_end parse_line_space parse_line_word word_of_token)

lemma line_args_derived: "parse_line p = Some ts \<Longrightarrow> line_args p ts"
proof (induction "length p" arbitrary: p ts rule: less_induct)
  case less
  consider "line_end p" | "\<not> line_end p" "isspace (hd p)" | "\<not> line_end p" "\<not> isspace (hd p)"
    by blast
  then show ?case
  proof cases
    case 1
    then show ?thesis
      using less.prems l_end by (simp add: parse_line_end)
  next
    case 2
    then obtain c q where "p = c # q" "isspace c"
      by (cases p) (simp_all add: line_end_def)
    then show ?thesis
      using less l_space by (simp add: parse_line_space)
  next
    case 3
    then obtain t q us where q: "token Plain p = Some (t, q)" "parse_line q = Some us" "ts = t # us"
      using less.prems by (auto simp: parse_line_word split: option.splits)
    have "length q < length p"
      using token_shorter [OF q(1)] 3(1) by (simp add: line_end_peek)
    then show ?thesis
      using less.hyps q l_word [OF 3] by (simp add: word_of_token)
  qed
qed

text \<open>The function computes the relation, so a line has at most one reading.\<close>

lemma line_args_iff: "line_args p ts \<longleftrightarrow> parse_line p = Some ts"
  using line_args_read line_args_derived by blast

end
