(* ===== verification/Nc_Sds_Roundtrips.thy ===== *)
theory Nc_Sds_Roundtrips
  imports Nc_Sds_Claims Nc_Sds_Grammar
begin

text \<open>
  The properties of formatting, comparison, numbers, splitting, joining, quoting and parsing, each
  with a run on a concrete heap.
\<close>

subsection \<open>Formatting and comparison\<close>

text \<open>
  Property (C31): the loop of \<open>sdscatprintf\<close> that doubles its buffer ends for every
  formatted text \<open>out\<close> of up to 1 GiB less the length of the string. If \<open>16 * 2 ^ k\<close> bytes are enough for the text, the
  next byte and the terminator, then \<open>k + 2\<close> allocations suffice, the temporary buffers are all
  released, and the text grows by what stands in front of the first null byte of \<open>out\<close>.
\<close>

theorem sdscatprintf_terminates:
  assumes "sds_wf h" "strs h s \<noteq> None" "length out + 2 \<le> 16 * 2 ^ k" "k \<le> 27"
    and "length (sds_text h s) + length out \<le> sds_limit"
  shows "\<exists>q h'. sdscatprintf s out h = Some (q, h') \<and> sds_wf h' \<and>
    (if q = NULL then \<not> roomy (k + 2) h \<and> strs h' = strs h \<and> block_size h' = block_size h
     else sds_text h' q = sds_text h s @ takeWhile (\<lambda>c. c \<noteq> NUL) out \<and>
       (\<forall>a. a \<noteq> s - sizeof_hdr \<longrightarrow> a \<noteq> q - sizeof_hdr \<longrightarrow> block_size h' a = block_size h a))"
proof -
  obtain sh where sh: "strs h s = Some sh"
    using assms(2) by auto
  note w = sds_text_get [OF assms(1) sh]
  have "length out + 1 < 16 * 2 ^ k" "length (sh_text sh) + length out \<le> 1073741824"
    using assms(3,5) w by (simp_all add: sds_limit_def)
  from sdscatvprintf_ok [OF assms(1) sh this(1) assms(4) this(2)]
  obtain q h' where r: "sdscatprintf s out h = Some (q, h')" "edits (k + 2) h s q h' (sh_text sh @ upto_nul out)"
    unfolding sdscatprintf_def by blast
  show ?thesis
  proof (cases "q = NULL")
    case True
    then show ?thesis
      using r by (auto simp: edits_def unchanged_def)
  next
    case False
    then have m: "moved h s q h' (sh_text sh @ upto_nul out)"
      using r(2) by (simp add: edits_def)
    then obtain sh' where "get_sds h' q = Some sh'" "sh_text sh' = sh_text sh @ upto_nul out"
      using moved_get by metis
    then show ?thesis
      using m r(1) False w unfolding moved_def by (auto simp: sds_text_def)
  qed
qed

theorem sdscatprintf_terminates_witness:
  "\<exists>q h'. sdscatprintf (fst (sds_made 3 ''n='')) ''12345678901234567890'' (snd (sds_made 3 ''n='')) = Some (q, h') \<and>
     sds_text h' q = ''n=12345678901234567890''"
proof -
  obtain s h where s: "sds_made 3 ''n='' = (s, h)" "sds_wf h" "roomy 3 h"
    "strs h = (\<lambda>_. None)(s \<mapsto> \<lparr>sh_len = int (length ''n=''), sh_free = 0, sh_buf = ''n='' @ [NUL]\<rparr>)"
    by (rule sds_made_ok [of "''n=''" 3]) simp_all
  have t: "sds_text h s = ''n=''"
    by (rule sds_text_made [OF s(2,4)])
  have "length (sds_text h s) + length ''12345678901234567890'' \<le> sds_limit"
    by (simp add: t sds_limit_def)
  from sdscatprintf_terminates [OF s(2) _ _ _ this, of 1] s(3,4) show ?thesis
    using s(1) t by (auto simp: numeral_3_eq_3 split: if_splits)
qed

text \<open>
  Property (C33): \<open>sdscmp\<close> is the comparison of the texts in the lexicographic order by unsigned bytes, a
  proper prefix being smaller: 0 when they are equal, negative or positive when the first is the smaller or the
  greater one. Since this is a linear order (the instance of \<open>byte_string\<close>), \<open>sdscmp\<close> can drive a sort.
\<close>

theorem sdscmp_order:
  assumes "sds_wf h" "strs h s \<noteq> None" "strs h t \<noteq> None"
  shows "\<exists>r. sdscmp s t h = Some r \<and> (r = 0 \<longleftrightarrow> sds_text h s = sds_text h t) \<and>
    (r < 0 \<longleftrightarrow> (sds_text h s, sds_text h t) \<in> lexord {(x, y). char_code x < char_code y}) \<and>
    (r < 0 \<longleftrightarrow> Bytes (sds_text h s) < Bytes (sds_text h t)) \<and> (r > 0 \<longleftrightarrow> Bytes (sds_text h s) > Bytes (sds_text h t))"
proof -
  obtain sh th where sh: "strs h s = Some sh" "strs h t = Some th"
    using assms(2,3) by auto
  obtain r where r: "sdscmp s t h = Some r" "r = 0 \<longleftrightarrow> sds_text h s = sds_text h t"
    "r < 0 \<longleftrightarrow> (sds_text h s, sds_text h t) \<in> lexord byte_less"
    using sdscmp_ok [OF assms(1) sh] sds_text_get [OF assms(1)] sh by auto
  have "r > 0 \<longleftrightarrow> \<not> r < 0 \<and> r \<noteq> 0"
    by auto
  then have "r > 0 \<longleftrightarrow> Bytes (sds_text h s) > Bytes (sds_text h t)"
    unfolding r(2,3) Bytes_less [symmetric] by (metis byte_string.inject less_asym less_linear)
  then show ?thesis
    using r unfolding Bytes_less byte_less_def by blast
qed

theorem sdscmp_order_witness: "sdscmp (fst (sds_made 0 ''abc'')) (fst (sds_made 0 ''abc'')) (snd (sds_made 0 ''abc'')) = Some 0"
proof -
  obtain s h where s: "sds_made 0 ''abc'' = (s, h)" "sds_wf h" "roomy 0 h"
    "strs h = (\<lambda>_. None)(s \<mapsto> \<lparr>sh_len = int (length ''abc''), sh_free = 0, sh_buf = ''abc'' @ [NUL]\<rparr>)"
    by (rule sds_made_ok [of "''abc''" 0]) simp_all
  then show ?thesis
    using sdscmp_order [OF s(2), of s s] by auto
qed

subsection \<open>Numbers\<close>

text \<open>
  Property (C32): the text that \<open>sdsfromlonglong\<close> makes of a 64-bit integer above
  the least one denotes that integer again; the string is new, and nothing else changes. (For the
  least integer the negation overflows.)
\<close>

theorem sdsfromlonglong_roundtrip:
  assumes "sds_wf h" "- LLONG_MAX \<le> i" "i \<le> LLONG_MAX"
  shows "\<exists>s h'. sdsfromlonglong i h = Some (s, h') \<and> sds_wf h' \<and>
    (if s = NULL then strs h' = strs h \<and> \<not> roomy 1 h
     else parse_int (sds_text h' s) = i \<and> strs h s = None \<and> (\<forall>t. t \<noteq> s \<longrightarrow> strs h' t = strs h t))"
proof -
  obtain s h' where r: "sdsfromlonglong i h = Some (s, h')"
    "s = NULL \<and> unchanged h h' \<and> \<not> roomy 1 h \<or> s \<noteq> NULL \<and> created h s h' (decimal_int i)"
    using sdsfromlonglong_ok [OF assms] by blast
  show ?thesis
  proof (cases "s = NULL")
    case True
    then show ?thesis
      using r by (auto simp: unchanged_def)
  next
    case False
    then have c: "created h s h' (decimal_int i)"
      using r(2) by simp
    then obtain sh where "get_sds h' s = Some sh" "sh_text sh = decimal_int i"
      using created_get by metis
    then have "parse_int (sds_text h' s) = i"
      by (simp add: sds_text_def parse_decimal_int)
    then show ?thesis
      using c r(1) False by (auto simp: created_def)
  qed
qed

theorem sdsfromlonglong_roundtrip_witness:
  "\<exists>s h'. sdsfromlonglong (- 9223372036854775807) (sds_start 1) = Some (s, h') \<and>
     parse_int (sds_text h' s) = - 9223372036854775807"
proof -
  have "roomy 1 (sds_start 1)"
    by (rule sds_start_ok(2)) simp
  then show ?thesis
    using sdsfromlonglong_roundtrip [OF sds_start_ok(1) [of 1], of "- 9223372036854775807"]
    by (auto simp: LLONG_MAX_def split: if_splits)
qed

subsection \<open>Splitting and joining\<close>

lemma result_arrayE:
  assumes "result_array h0 v ts h"
  obtains xs ys where "get_vec h v = Some (xs @ ys)" "texts h xs ts" "distinct xs" "sds_wf h"
    "\<And>x. x \<in> set xs \<Longrightarrow> strs h0 x = None" "\<And>a. a \<notin> set xs \<Longrightarrow> strs h a = strs h0 a"
proof -
  obtain ys xs where r: "grown h0 (set xs) (Some (v, ys)) h" "take (length xs) ys = xs" "distinct xs" "texts h xs ts"
    using assms by (auto simp: result_array_def)
  have "ys = xs @ drop (length xs) ys"
    using r(2) by (metis append_take_drop_id)
  then have "get_vec h v = Some (xs @ drop (length xs) ys)"
    using grown_vec(1,2) [OF r(1)] by (simp add: get_vec_def)
  then show thesis
    using that r(3,4) grown_wf [OF r(1)] grown_strs [OF r(1)] by blast
qed

lemma texts_map: "sds_wf h \<Longrightarrow> texts h xs ts \<Longrightarrow> map (sds_text h) xs = ts"
  by (induction xs arbitrary: ts) (auto simp: texts_def list_all2_Cons1 has_text_def sds_text_get)

lemma length_split_text: "sep \<noteq> [] \<Longrightarrow> length (split_text sep t) \<le> Suc (length t)"
proof (induction "length t" arbitrary: t rule: less_induct)
  case less
  show ?case
  proof (cases "starts sep t")
    case True
    then have "length (drop (length sep) t) < length t"
      using less(2) by (cases sep) (auto simp: starts_def)
    from less(1) [OF this less(2)] this show ?thesis
      using split_text_found [OF less(2) True] by simp
  next
    case False
    show ?thesis
    proof (cases t)
      case Nil
      then show ?thesis
        using less(2) by (simp add: split_text_Nil)
    next
      case (Cons a u)
      then obtain b bs where "split_text sep u = b # bs" "split_text sep t = (a # b) # bs"
        using split_text_next False by metis
      then show ?thesis
        using less(1) [of u] less(2) Cons by simp
    qed
  qed
qed

text \<open>
  Property (C16): splitting a text by \<open>sdssplitlen\<close> and joining the strings of the result by
  \<open>sdsjoinsds\<close> with the same separator gives the text back; no string of the result contains the
  separator.
\<close>

theorem sds_split_join:
  assumes "sds_wf h" "sep \<noteq> []" "length sep \<le> 1073741824" "t \<noteq> []" "length t \<le> 134217728"
    and "roomy (4 * length t + 5) h"
  shows "\<exists>v h1 xs ys. sdssplitlen t (int (length t)) sep (int (length sep)) h = Some ((v, Some (int (length xs))), h1) \<and>
    get_vec h1 v = Some (xs @ ys) \<and>
    (\<forall>x \<in> set xs. \<not> contains sep (sds_text h1 x)) \<and>
    (\<exists>q h2. sdsjoinsds xs sep (of_nat (length sep)) h1 = Some (q, h2) \<and> sds_text h2 q = t)"
proof -
  define L where "L = length t"
  have m: "1 \<le> length sep"
    using assms(2) by (cases sep) simp_all
  obtain v cnt h1 where r: "sdssplitlen t (int L) sep (int (length sep)) h = Some ((v, cnt), h1)"
    "v = NULL \<and> \<not> roomy (2 * L + 2) h \<or>
     v \<noteq> NULL \<and> (\<exists>ts. cnt = Some (int (length ts)) \<and> result_array h v ts h1 \<and>
       ts = (if L = 0 then [] else split_text (take (length sep) sep) (take L t))) \<and>
       (\<forall>k. roomy (2 * L + 2 + k) h \<longrightarrow> roomy k h1)"
    using sdssplitlen_ok [OF assms(1) m order_refl, of L t] assms(5) unfolding L_def by blast
  define ts where "ts = split_text sep t"
  have "roomy (2 * L + 2) h"
    by (rule roomy_mono [OF assms(6)]) (simp add: L_def)
  then have c: "v \<noteq> NULL" "cnt = Some (int (length ts))" "result_array h v ts h1" "\<forall>k. roomy (2 * L + 2 + k) h \<longrightarrow> roomy k h1"
    using r(2) assms(4) by (auto simp: ts_def L_def)
  obtain xs ys where x: "get_vec h1 v = Some (xs @ ys)" "texts h1 xs ts" "sds_wf h1"
    using result_arrayE [OF c(3)] by metis
  have len: "length ts \<le> Suc L"
    unfolding ts_def L_def by (rule length_split_text [OF assms(2)])
  have "\<not> contains sep (sds_text h1 y)" if "y \<in> set xs" for y
  proof -
    have "sds_text h1 y \<in> set ts"
      using texts_map [OF x(3,2)] that by auto
    then show ?thesis
      using split_text_free [OF assms(2), of t] by (simp add: ts_def)
  qed
  moreover have u: "unat (of_nat (length sep) :: size_t) = length sep"
    using assms(3) by (simp add: unat_of_nat_ok)
  have j: "join_text (take (unat (of_nat (length sep) :: size_t)) sep) ts = t"
    using join_split [OF assms(2)] by (simp add: u ts_def)
  have "roomy (2 * L + 3) h1"
    using c(4) roomy_mono [OF assms(6), of "2 * L + 2 + (2 * L + 3)"] by (simp add: L_def)
  then have "roomy (2 * length ts + 1 + 0) h1"
    by (rule roomy_mono) (use len in simp)
  then obtain q h2 where q: "sdsjoinsds xs sep (of_nat (length sep)) h1 = Some (q, h2)" "grown h1 {q} None h2" "has_text h2 q t"
    using sdsjoinsds_ok [OF x(3) _ x(2), of "of_nat (length sep)" sep 0] j u assms(5) by auto
  moreover have "sds_text h2 q = t"
    using q(3) sds_text_get [OF grown_wf [OF q(2)]] by (auto simp: has_text_def)
  ultimately show ?thesis
    using r(1) c(2) x(1,2) texts_length [OF x(2)] unfolding L_def by metis
qed

theorem sds_split_join_witness:
  "\<exists>v h1 xs ys q h2. sdssplitlen ''foo_-_bar'' 9 ''_-_'' 3 (sds_start 41) = Some ((v, Some (int (length xs))), h1) \<and>
     get_vec h1 v = Some (xs @ ys) \<and> sdsjoinsds xs ''_-_'' 3 h1 = Some (q, h2) \<and> sds_text h2 q = ''foo_-_bar''"
proof -
  have "roomy (4 * length ''foo_-_bar'' + 5) (sds_start 41)"
    using sds_start_ok(2) [of 41] by simp
  from sds_split_join [OF sds_start_ok(1), where sep = "''_-_''" and t = "''foo_-_bar''", OF _ _ _ _ this]
  obtain v h1 xs ys q h2 where "sdssplitlen ''foo_-_bar'' 9 ''_-_'' 3 (sds_start 41) = Some ((v, Some (int (length xs))), h1)"
    "get_vec h1 v = Some (xs @ ys)" "sdsjoinsds xs ''_-_'' 3 h1 = Some (q, h2)" "sds_text h2 q = ''foo_-_bar''"
    by auto
  then show ?thesis
    by blast
qed

text \<open>
  Property (C17): whatever the allocator does, \<open>sdssplitlen\<close> either returns the null
  pointer with the strings, arrays and blocks exactly as they were, or an array and a count with
  which \<open>sdsfreesplitres\<close> gives back everything. The strings of the array are new and are the parts of
  the text.
\<close>

theorem sds_split_no_leak:
  assumes "sds_wf h" "1 \<le> m" "m \<le> length sep" "L \<le> length t" "L \<le> 134217728"
  shows "\<exists>v cnt h1. sdssplitlen t (int L) sep (int m) h = Some ((v, cnt), h1) \<and>
    (if v = NULL then strs h1 = strs h \<and> vecs h1 = vecs h \<and> block_size h1 = block_size h
     else \<exists>xs ys h2. cnt = Some (int (length xs)) \<and> get_vec h1 v = Some (xs @ ys) \<and>
       map (sds_text h1) xs = (if L = 0 then [] else split_text (take m sep) (take L t)) \<and>
       sdsfreesplitres v (int (length xs)) h1 = Some h2 \<and>
       strs h2 = strs h \<and> vecs h2 = vecs h \<and> block_size h2 = block_size h)"
proof -
  obtain v cnt h1 where r: "sdssplitlen t (int L) sep (int m) h = Some ((v, cnt), h1)"
    "v = NULL \<and> unchanged h h1 \<or>
     v \<noteq> NULL \<and> (\<exists>ts. cnt = Some (int (length ts)) \<and> result_array h v ts h1 \<and>
       ts = (if L = 0 then [] else split_text (take m sep) (take L t)))"
    using sdssplitlen_ok [OF assms] by blast
  show ?thesis
  proof (cases "v = NULL")
    case True
    then show ?thesis
      using r by (auto simp: unchanged_def)
  next
    case False
    define ts where "ts = (if L = 0 then [] else split_text (take m sep) (take L t))"
    have c: "cnt = Some (int (length ts))" "result_array h v ts h1"
      using r(2) False by (auto simp: ts_def)
    obtain xs ys where x: "get_vec h1 v = Some (xs @ ys)" "texts h1 xs ts" "sds_wf h1"
      using result_arrayE [OF c(2)] by metis
    have ln: "length xs = length ts"
      by (rule texts_length [OF x(2)])
    obtain h2 where h2: "sdsfreesplitres v (int (length xs)) h1 = Some h2" "unchanged h h2"
      using sdsfreesplitres_ok [OF c(2)] ln by auto
    have "cnt = Some (int (length xs))"
      using c(1) ln by simp
    then show ?thesis
      unfolding ts_def [symmetric]
      using r(1) False x(1) h2 texts_map [OF x(3,2)] unfolding unchanged_def by auto
  qed
qed

theorem sds_split_no_leak_witness:
  "\<exists>v cnt h1. sdssplitlen ''a,b'' 3 '','' 1 (sds_start 2) = Some ((v, cnt), h1) \<and>
     (v = NULL \<longrightarrow> strs h1 = (\<lambda>_. None))"
  using sds_split_no_leak [OF sds_start_ok(1) [of 2], of 1 "'',''" 3 "''a,b''"]
  by (auto simp: sds_start_def split: if_splits)

subsection \<open>Lines of arguments\<close>

text \<open>
  Property (C20): with enough memory, and for a line below 128 MiB, \<open>sdssplitargs\<close> reads the language
  \<open>line_args\<close>, a grammar written from its comment and independent of the code: on a line that the grammar
  derives it returns the arguments that the grammar gives, as new strings in a new array; on a line that
  it does not derive (an open quote, or a closing quote that is not followed by a blank or the end) it returns the null
  pointer and the count 0 and gives back every string and block it had allocated.
\<close>

theorem sdssplitargs_refines:
  assumes "sds_wf h" "length line < 134217728" "roomy (3 * length line + 1) h"
  shows "\<exists>v argc h1. sdssplitargs line h = Some ((v, argc), h1) \<and> sds_wf h1 \<and>
    (\<forall>ts. line_args line ts \<longrightarrow> argc = int (length ts) \<and> v \<noteq> NULL \<and>
       (\<exists>xs ys. get_vec h1 v = Some (xs @ ys) \<and> map (sds_text h1) xs = ts \<and> distinct xs \<and>
         (\<forall>x \<in> set xs. strs h x = None) \<and> (\<forall>a. a \<notin> set xs \<longrightarrow> strs h1 a = strs h a))) \<and>
    ((\<nexists>ts. line_args line ts) \<longrightarrow>
       v = NULL \<and> argc = 0 \<and> strs h1 = strs h \<and> vecs h1 = vecs h \<and> block_size h1 = block_size h)"
proof -
  obtain v argc h1 where r: "sdssplitargs line h = Some ((v, argc), h1)"
    "case parse_line line of
       Some us \<Rightarrow> \<exists>w. (v, argc) = (w, int (length us)) \<and> result_array h w us h1
     | None \<Rightarrow> (v, argc) = (NULL, 0) \<and> unchanged h h1"
    using sdssplitargs_ok [OF assms] by auto
  show ?thesis
  proof (cases "parse_line line")
    case None
    then show ?thesis
      using r by (auto simp: unchanged_def line_args_iff)
  next
    case (Some ts)
    then have c: "argc = int (length ts)" "result_array h v ts h1"
      using r(2) by auto
    obtain xs ys where x: "get_vec h1 v = Some (xs @ ys)" "texts h1 xs ts" "distinct xs" "sds_wf h1"
      "\<And>x. x \<in> set xs \<Longrightarrow> strs h x = None" "\<And>a. a \<notin> set xs \<Longrightarrow> strs h1 a = strs h a"
      using result_arrayE [OF c(2)] by metis
    have "v \<noteq> NULL"
      using result_array_length [OF c(2)] by simp
    moreover have "\<exists>xs ys. get_vec h1 v = Some (xs @ ys) \<and> map (sds_text h1) xs = ts \<and> distinct xs \<and>
        (\<forall>x \<in> set xs. strs h x = None) \<and> (\<forall>a. a \<notin> set xs \<longrightarrow> strs h1 a = strs h a)"
      using x texts_map [OF x(4,2)] by blast
    moreover have "line_args line us \<longleftrightarrow> us = ts" for us
      using Some by (auto simp: line_args_iff)
    ultimately show ?thesis
      using r(1) c(1) x(4) by (intro exI [of _ v] exI [of _ argc] exI [of _ h1]) simp
  qed
qed

text \<open>A line with all kinds of words, and one with a closing quote in the middle of a word.\<close>

definition args_line :: string where
  "args_line = ''set '' @ [QUOTE, BACKSLASH] @ ''x4a'' @ [BACKSLASH, CHR ''n'', BACKSLASH, QUOTE, QUOTE, CHR '' '', APOSTROPHE] @
     ''it'' @ [BACKSLASH, APOSTROPHE, CHR ''s'', APOSTROPHE]"

definition bad_line :: string where
  "bad_line = [APOSTROPHE, CHR ''a'', APOSTROPHE, CHR ''b'']"

theorem sdssplitargs_refines_witness:
  "(\<exists>v h1 xs ys. sdssplitargs args_line (sds_start 67) = Some ((v, 3), h1) \<and> get_vec h1 v = Some (xs @ ys) \<and>
      map (sds_text h1) xs = [''set'', [CHR ''J'', CHR 0x0A, QUOTE], ''it'' @ [APOSTROPHE, CHR ''s'']]) \<and>
   (\<exists>h1. sdssplitargs bad_line (sds_start 13) = Some ((NULL, 0), h1) \<and> strs h1 = (\<lambda>_. None))"
proof -
  define ts where "ts = [''set'', [CHR ''J'', CHR 0x0A, QUOTE], ''it'' @ [APOSTROPHE, CHR ''s'']]"
  have "parse_line args_line = Some [''set'', [CHR ''J'', CHR 0x0A, QUOTE], ''it'' @ [APOSTROPHE, CHR ''s'']]"
    by code_simp
  then have good: "line_args args_line ts"
    unfolding ts_def by (rule line_args_derived)
  have "parse_line bad_line = None"
    by code_simp
  then have bad: "\<nexists>ts. line_args bad_line ts"
    by (metis line_args_read option.distinct(1))
  have l: "length args_line < 134217728" "roomy (3 * length args_line + 1) (sds_start 67)"
    "length bad_line < 134217728" "roomy (3 * length bad_line + 1) (sds_start 13)"
    using sds_start_ok(2) [of 67] sds_start_ok(2) [of 13] by (simp_all add: args_line_def bad_line_def)
  obtain v argc h1 xs ys where a: "sdssplitargs args_line (sds_start 67) = Some ((v, argc), h1)" "argc = int (length ts)"
    "get_vec h1 v = Some (xs @ ys)" "map (sds_text h1) xs = ts"
    using sdssplitargs_refines [OF sds_start_ok(1) l(1,2)] good by metis
  obtain h2 where b: "sdssplitargs bad_line (sds_start 13) = Some ((NULL, 0), h2)" "strs h2 = strs (sds_start 13)"
    using sdssplitargs_refines [OF sds_start_ok(1) l(3,4)] bad by metis
  have "length ts = 3"
    by (simp add: ts_def)
  then have "sdssplitargs args_line (sds_start 67) = Some ((v, 3), h1)"
    using a(1,2) by simp
  moreover have "strs (sds_start 13) = (\<lambda>_. None)"
    by (simp add: sds_start_def)
  ultimately show ?thesis
    unfolding ts_def [symmetric] using a(3,4) b by metis
qed

text \<open>
  Property (C15): \<open>sdscatrepr\<close> quotes any sequence of bytes so that \<open>sdssplitargs\<close>
  reads it back: appended to an empty string, the quoted form is a line with exactly one argument,
  the bytes that were quoted.
\<close>

theorem sds_quote_roundtrip:
  assumes "sds_wf h" "strs h s \<noteq> None" "sds_text h s = []" "length p \<le> 33554431" "roomy (14 * length p + 9) h"
  shows "\<exists>q h1 v h2 x. sdscatrepr s p (of_nat (length p)) h = Some (q, h1) \<and>
    c_string (sds_text h1 q @ [NUL]) = Some (sds_text h1 q) \<and>
    sdssplitargs (sds_text h1 q) h1 = Some ((v, 1), h2) \<and>
    vec_get v 0 h2 = Some x \<and> sds_text h2 x = p"
proof -
  obtain sh where sh: "strs h s = Some sh" "sh_text sh = []"
    using assms(1-3) sds_text_get by fastforce
  have u: "unat (of_nat (length p) :: size_t) = length p"
    using assms(4) by (simp add: unat_of_nat_ok)
  have "length (sh_text sh) + 4 * unat (of_nat (length p) :: size_t) + 2 \<le> 1073741824"
    "roomy (2 * unat (of_nat (length p) :: size_t) + 2 + (12 * length p + 7)) h"
    unfolding u using assms(4,5) sh(2) by (simp_all add: add.commute)
  from sdscatrepr_ok [OF assms(1) sh(1) _ this, of p] obtain q h1 where r:
    "sdscatrepr s p (of_nat (length p)) h = Some (q, h1)" "moved h s q h1 (repr_text p)" "roomy (12 * length p + 7) h1"
    using u sh(2) by auto
  have q: "sds_wf h1" "sds_text h1 q = repr_text p"
    using r(2) moved_get [OF r(2)] sds_text_get by (auto simp: moved_def)
  have len: "length (repr_text p) \<le> 4 * length p + 2"
  proof -
    have "length (concat (map repr_char p)) \<le> 4 * length p"
      using repr_char_bounds(1) by (induction p) (simp_all add: add_mono)
    then show ?thesis
      by (simp add: repr_text_def)
  qed
  have nul: "NUL \<notin> set (repr_text p)"
    using repr_char_bounds(3) by (auto simp: repr_text_def)
  have parse: "parse_line (repr_text p) = Some [p]"
    using parse_repr_line [of "[p]"] by simp
  have "roomy (3 * length (repr_text p) + 1) h1"
    by (rule roomy_mono [OF r(3)]) (use len in simp)
  then obtain v h2 where a: "sdssplitargs (repr_text p) h1 = Some ((v, 1), h2)" "result_array h1 v [p] h2"
    using sdssplitargs_ok [OF q(1), of "repr_text p"] parse len assms(4) by auto
  obtain xs ys where x: "get_vec h2 v = Some (xs @ ys)" "texts h2 xs [p]" "sds_wf h2"
    using result_arrayE [OF a(2)] by metis
  obtain y where y: "xs = [y]" "has_text h2 y p"
    using x(2) by (auto simp: texts_def list_all2_Cons2)
  have "vec_get v 0 h2 = Some y" "sds_text h2 y = p"
    using x(1,3) y sds_text_get by (auto simp: vec_get_def has_text_def)
  moreover have "c_string (repr_text p @ [NUL]) = Some (repr_text p)"
    using nul upto_nul_id [OF nul] by (simp add: c_string_def takeWhile_tail)
  ultimately show ?thesis
    using r(1) a(1) q(2) by auto
qed

theorem sds_quote_roundtrip_witness:
  "\<exists>q h1 v h2 x. sdscatrepr (fst (sds_made 79 [])) [CHR ''a'', NUL, QUOTE, CHR 0x0A, CHR 0xFF] 5 (snd (sds_made 79 [])) = Some (q, h1) \<and>
     sdssplitargs (sds_text h1 q) h1 = Some ((v, 1), h2) \<and> vec_get v 0 h2 = Some x \<and>
     sds_text h2 x = [CHR ''a'', NUL, QUOTE, CHR 0x0A, CHR 0xFF]"
proof -
  obtain s h where s: "sds_made 79 [] = (s, h)" "sds_wf h" "roomy 79 h"
    "strs h = (\<lambda>_. None)(s \<mapsto> \<lparr>sh_len = int (length ([] :: string)), sh_free = 0, sh_buf = [] @ [NUL]\<rparr>)"
    by (rule sds_made_ok [of "[]" 79]) simp_all
  have t: "sds_text h s = []"
    by (rule sds_text_made [OF s(2,4)])
  define p where "p = [CHR ''a'', NUL, QUOTE, CHR 0x0A, CHR 0xFF]"
  have p: "length p = 5"
    by (simp add: p_def)
  have "strs h s \<noteq> None" "length p \<le> 33554431" "roomy (14 * length p + 9) h"
    using s(3,4) p by simp_all
  from sds_quote_roundtrip [OF s(2) this(1) t this(2,3)] show ?thesis
    using s(1) p unfolding p_def [symmetric] by auto
qed

end
