(* ===== verification/Nc_Sds_Store.thy ===== *)
theory Nc_Sds_Store
  imports Nc_Sds_Claims
begin

text \<open>
  Programs with many strings. The variables of a program hold the addresses of its strings
  (\<open>env\<close>), and what they stand for is a map from variables to texts. A command calls one function of
  the library and assigns the result, or keeps the variables as they are when the function returns
  the null pointer. \<open>sds_reach\<close> is the set of stores that legal commands lead to; progress and
  preservation are proved for it by rule induction.
\<close>

subsection \<open>Commands\<close>

type_synonym 'v env = "'v \<Rightarrow> addr option"

datatype 'v sds_cmd =
  New 'v string | From_Int 'v int | Dup 'v 'v | Edit 'v sds_op | Cat_Sds 'v 'v | Drop 'v

definition assign :: "'v \<Rightarrow> 'v env \<Rightarrow> (addr \<times> sds_heap) option \<Rightarrow> (bool \<times> ('v env \<times> sds_heap)) option" where
  "assign v e r = do {
     (s, h) \<leftarrow> r;
     Some (if s = NULL then (False, (e, h)) else (True, (e(v \<mapsto> s), h)))
   }"

fun sds_cmd_exec :: "'v sds_cmd \<Rightarrow> 'v env \<times> sds_heap \<Rightarrow> (bool \<times> ('v env \<times> sds_heap)) option" where
  "sds_cmd_exec (New v t) (e, h) = assign v e (sdsnewlen (Some t) (of_nat (length t)) h)"
| "sds_cmd_exec (From_Int v i) (e, h) = assign v e (sdsfromlonglong i h)"
| "sds_cmd_exec (Dup v w) (e, h) = do { x \<leftarrow> e w; assign v e (sdsdup x h) }"
| "sds_cmd_exec (Edit v x) (e, h) = do { s \<leftarrow> e v; assign v e (sds_exec x s h) }"
| "sds_cmd_exec (Cat_Sds v w) (e, h) = do { s \<leftarrow> e v; t \<leftarrow> e w; assign v e (sdscatsds s t h) }"
| "sds_cmd_exec (Drop v) (e, h) = do { s \<leftarrow> e v; h1 \<leftarrow> sdsfree s h; Some (True, (e(v := None), h1)) }"

fun cmd_texts :: "'v sds_cmd \<Rightarrow> ('v \<Rightarrow> string option) \<Rightarrow> 'v \<Rightarrow> string option" where
  "cmd_texts (New v t) m = m(v \<mapsto> t)"
| "cmd_texts (From_Int v i) m = m(v \<mapsto> decimal_int i)"
| "cmd_texts (Dup v w) m = m(v := m w)"
| "cmd_texts (Edit v x) m = m(v := map_option (op_text x) (m v))"
| "cmd_texts (Cat_Sds v w) m = m(v := Some (the (m v) @ the (m w)))"
| "cmd_texts (Drop v) m = m(v := None)"

text \<open>A command is legal when its variables are there, a new one is not, and the texts stay in the limits.\<close>

fun cmd_ok :: "'v sds_cmd \<Rightarrow> ('v \<Rightarrow> string option) \<Rightarrow> bool" where
  "cmd_ok (New v t) m = (m v = None \<and> length t \<le> sds_limit)"
| "cmd_ok (From_Int v i) m = (m v = None \<and> - LLONG_MAX \<le> i \<and> i \<le> LLONG_MAX)"
| "cmd_ok (Dup v w) m = (m v = None \<and> (case m w of None \<Rightarrow> False | Some t \<Rightarrow> length t \<le> sds_limit))"
| "cmd_ok (Edit v x) m = (case m v of None \<Rightarrow> False | Some t \<Rightarrow> op_fits x t)"
| "cmd_ok (Cat_Sds v w) m = (v \<noteq> w \<and> (case (m v, m w) of (Some t, Some u) \<Rightarrow> length t + length u \<le> sds_limit | _ \<Rightarrow> False))"
| "cmd_ok (Drop v) m = (m v \<noteq> None)"

inductive sds_reach :: "sds_heap \<Rightarrow> 'v env \<times> sds_heap \<Rightarrow> ('v \<Rightarrow> string option) \<Rightarrow> bool" for h0 where
  start: "sds_reach h0 (Map.empty, h0) Map.empty"
| step: "sds_reach h0 st m \<Longrightarrow> cmd_ok c m \<Longrightarrow> sds_cmd_exec c st = Some (b, st') \<Longrightarrow>
    sds_reach h0 st' (if b then cmd_texts c m else m)"

subsection \<open>The invariant\<close>

text \<open>The strings of the variables are what the heap has on top of \<open>h0\<close>, one for each variable.\<close>

definition store_inv :: "sds_heap \<Rightarrow> 'v env \<times> sds_heap \<Rightarrow> ('v \<Rightarrow> string option) \<Rightarrow> bool" where
  "store_inv h0 st m \<longleftrightarrow> grown h0 (ran (fst st)) None (snd st) \<and> inj_on (fst st) (dom (fst st)) \<and>
     rel_fun (=) (rel_option (has_text (snd st))) (fst st) m"

lemma store_invD:
  assumes "store_inv h0 (e, h) m"
  shows "grown h0 (ran e) None h" "inj_on e (dom e)" "sds_wf h" "dom e = dom m"
    "e v = Some s \<Longrightarrow> m v = Some t \<Longrightarrow> has_text h s t"
    "e v = Some s \<Longrightarrow> e w = Some s \<Longrightarrow> v = w"
proof -
  show "grown h0 (ran e) None h" "inj_on e (dom e)"
    using assms by (simp_all add: store_inv_def)
  then show "sds_wf h" "e v = Some s \<Longrightarrow> e w = Some s \<Longrightarrow> v = w"
    using grown_wf inj_onD [of e "dom e" v w] by (blast, auto)
  have r: "rel_option (has_text h) (e v) (m v)" for v
    using assms by (simp add: store_inv_def rel_fun_def)
  show "e v = Some s \<Longrightarrow> m v = Some t \<Longrightarrow> has_text h s t"
    using r [of v] by simp
  have "e v = None \<longleftrightarrow> m v = None" for v
    using r [of v] by (cases "e v"; cases "m v") simp_all
  then show "dom e = dom m"
    by (auto simp: dom_def)
qed

lemma ran_drop:
  assumes "e v = Some s" "\<And>w. e w = Some s \<Longrightarrow> w = v"
  shows "ran (e(v := None)) = ran e - {s}"
proof (intro set_eqI iffI)
  fix x
  assume "x \<in> ran (e(v := None))"
  then obtain w where "w \<noteq> v" "e w = Some x"
    by (auto simp: ran_def split: if_splits)
  then show "x \<in> ran e - {s}"
    using assms(2) [of w] by (auto simp: ran_def)
next
  fix x
  assume "x \<in> ran e - {s}"
  then obtain w where w: "e w = Some x" "x \<noteq> s"
    by (auto simp: ran_def)
  then have "(e(v := None)) w = Some x"
    using assms(1) by auto
  then show "x \<in> ran (e(v := None))"
    by (rule ranI)
qed

lemma ran_move:
  assumes "e v = Some s" "\<And>w. e w = Some s \<Longrightarrow> w = v"
  shows "ran (e(v \<mapsto> q)) = insert q (ran e - {s})"
proof -
  have "e(v \<mapsto> q) = (e(v := None))(v \<mapsto> q)"
    by simp
  moreover have "ran ((e(v := None))(v \<mapsto> q)) = insert q (ran (e(v := None)))"
    by (rule ran_map_upd) simp
  ultimately show ?thesis
    using ran_drop [of e v s] assms by metis
qed

lemma texts_keep:
  "rel_option (has_text h) a b \<Longrightarrow> (\<And>x u. a = Some x \<Longrightarrow> has_text h x u \<Longrightarrow> has_text h' x u) \<Longrightarrow>
     rel_option (has_text h') a b"
  by (cases a; cases b) simp_all

lemma store_inv_rel: "store_inv h0 (e, h) m \<Longrightarrow> rel_option (has_text h) (e w) (m w)"
  by (simp add: store_inv_def rel_fun_def)

lemma store_inv_var:
  assumes "store_inv h0 (e, h) m" "m v = Some t"
  obtains s sh where "e v = Some s" "strs h s = Some sh" "sh_text sh = t" "s \<in> ran e"
proof -
  obtain s where s: "e v = Some s"
    using store_invD(4) [OF assms(1)] assms(2) by blast
  then show thesis
    using store_invD(5) [OF assms(1) s assms(2)] that by (auto simp: has_text_def intro: ranI)
qed

lemma store_inv_same: "store_inv h0 (e, h) m \<Longrightarrow> unchanged h h' \<Longrightarrow> store_inv h0 (e, h') m"
  using grown_unchanged [of h0 "ran e" None h h'] by (auto simp: store_inv_def has_text_def [abs_def] unchanged_def)

lemma store_inv_new:
  assumes "store_inv h0 (e, h) m" "m v = None" "created h s h' t"
  shows "store_inv h0 (e(v \<mapsto> s), h') (m(v \<mapsto> t))"
proof -
  have v: "e v = None"
    using store_invD(4) [OF assms(1)] assms(2) by blast
  note g = grown_created [OF store_invD(1) [OF assms(1)] assms(3)]
  have keep: "has_text h' x u" if "e w = Some x" "has_text h x u" for w x u
    using that g(2) assms(3) ranI [of e w x] by (auto simp: has_text_def created_def)
  have "rel_option (has_text h') (e w) (m w)" for w
    using texts_keep [OF store_inv_rel [OF assms(1)]] keep by blast
  moreover have "inj_on (e(v \<mapsto> s)) (dom (e(v \<mapsto> s)))"
    using store_invD(6) [OF assms(1)] g(2) by (auto simp: inj_on_def intro: ranI)
  ultimately show ?thesis
    using g(1,3) v by (auto simp: store_inv_def rel_fun_def)
qed

lemma store_inv_moved:
  assumes "store_inv h0 (e, h) m" "e v = Some s" "moved h s q h' t"
  shows "store_inv h0 (e(v \<mapsto> q), h') (m(v \<mapsto> t))"
proof -
  note g = grown_moved [OF store_invD(1) [OF assms(1)] assms(3) ranI [of e v s, OF assms(2)]]
  have other: "x \<noteq> s \<and> x \<noteq> q" if "e w = Some x" "w \<noteq> v" for w x
    using store_invD(6) [OF assms(1) that(1), of v] that assms(2) g(2) ranI [of e w x] by auto
  have "ran (e(v \<mapsto> q)) = insert q (ran e - {s})"
    using store_invD(6) [OF assms(1) _ assms(2)] by (intro ran_move [of e v s, OF assms(2)]) blast
  moreover have "rel_option (has_text h') (e w) (m w)" if "w \<noteq> v" for w
    using texts_keep [OF store_inv_rel [OF assms(1)]] other [OF _ that] g(4) by blast
  moreover have "inj_on (e(v \<mapsto> q)) (dom (e(v \<mapsto> q)))"
  proof (rule inj_onI)
    fix u w
    assume a: "u \<in> dom (e(v \<mapsto> q))" "(e(v \<mapsto> q)) u = (e(v \<mapsto> q)) w"
    then show "u = w"
      using other [of u q] other [of w q] inj_onD [OF store_invD(2) [OF assms(1)], of u w]
      by (auto simp: domIff split: if_splits)
  qed
  ultimately show ?thesis
    using g(1,3) by (auto simp: store_inv_def rel_fun_def)
qed

lemma store_inv_drop:
  assumes "store_inv h0 (e, h) m" "e v = Some s"
  shows "\<exists>h'. sdsfree s h = Some h' \<and> store_inv h0 (e(v := None), h') (m(v := None)) \<and> (\<forall>k. roomy k h \<longrightarrow> roomy k h')"
proof -
  obtain h' where f: "sdsfree s h = Some h'" "grown h0 (ran e - {s}) None h'" "strs h' = (strs h)(s := None)"
    "\<forall>k. roomy k h \<longrightarrow> roomy k h'"
    using grown_free [OF store_invD(1) [OF assms(1)] ranI [of e v s, OF assms(2)]] by blast
  have other: "x \<noteq> s" if "e w = Some x" "w \<noteq> v" for w x
    using store_invD(6) [OF assms(1) that(1), of v] that assms(2) by auto
  have "ran (e(v := None)) = ran e - {s}"
    using store_invD(6) [OF assms(1) _ assms(2)] by (intro ran_drop [of e v s, OF assms(2)]) blast
  moreover have "rel_option (has_text h') (e w) (m w)" if "w \<noteq> v" for w
    using texts_keep [OF store_inv_rel [OF assms(1)]] other [OF _ that] f(3) by (simp add: has_text_def)
  moreover have "inj_on (e(v := None)) (dom (e(v := None)))"
    using store_invD(6) [OF assms(1)] by (auto simp: inj_on_def)
  ultimately show ?thesis
    using f(1,2,4) by (auto simp: store_inv_def rel_fun_def)
qed

subsection \<open>Progress and preservation\<close>

text \<open>What a command with \<open>k\<close> requests does: it is defined, keeps the invariant, and fails only for want of memory.\<close>

definition cmd_good :: "sds_heap \<Rightarrow> nat \<Rightarrow> 'v sds_cmd \<Rightarrow> 'v env \<times> sds_heap \<Rightarrow> ('v \<Rightarrow> string option) \<Rightarrow> bool" where
  "cmd_good h0 k c st m \<longleftrightarrow> (\<exists>b st'. sds_cmd_exec c st = Some (b, st') \<and>
     store_inv h0 st' (if b then cmd_texts c m else m) \<and>
     (\<forall>j. roomy (k + j) (snd st) \<longrightarrow> b \<and> roomy j (snd st')))"

lemma cmd_good_new:
  assumes "store_inv h0 (e, h) m" "m v = None" "cmd_texts c m = m(v \<mapsto> t)"
    and "sds_cmd_exec c (e, h) = assign v e (Some (s, h'))"
    and "s = NULL \<and> unchanged h h' \<and> \<not> roomy 1 h \<or> s \<noteq> NULL \<and> created h s h' t \<and> (\<forall>k. roomy (Suc k) h \<longrightarrow> roomy k h')"
  shows "cmd_good h0 op_allocs c (e, h) m"
proof (cases "s = NULL")
  case True
  then have "unchanged h h'" "\<not> roomy (op_allocs + j) h" for j
    using assms(5) roomy_mono [of "op_allocs + j" h 1] by (auto simp: op_allocs_def)
  then show ?thesis
    using assms(4) True store_inv_same [OF assms(1), of h'] unfolding cmd_good_def
    by (intro exI [of _ False] exI [of _ "(e, h')"]) (simp add: assign_def)
next
  case False
  then have c: "created h s h' t" "\<And>k. roomy (Suc k) h \<Longrightarrow> roomy k h'"
    using assms(5) by auto
  have "roomy j h'" if "roomy (op_allocs + j) h" for j
    using c(2) roomy_mono [OF that, of "Suc j"] by (simp add: op_allocs_def)
  then show ?thesis
    using assms(3,4) False store_inv_new [OF assms(1,2) c(1)] unfolding cmd_good_def
    by (intro exI [of _ True] exI [of _ "(e(v \<mapsto> s), h')"]) (simp add: assign_def)
qed

lemma cmd_good_edit:
  assumes "store_inv h0 (e, h) m" "e v = Some s" "cmd_texts c m = m(v \<mapsto> t)"
    and "sds_cmd_exec c (e, h) = assign v e (Some (q, h'))" "edits op_allocs h s q h' t"
  shows "cmd_good h0 op_allocs c (e, h) m"
proof (cases "q = NULL")
  case True
  then have "unchanged h h'" "\<not> roomy (op_allocs + j) h" for j
    using assms(5) roomy_mono [of "op_allocs + j" h op_allocs] by (auto simp: edits_def)
  then show ?thesis
    using assms(4) True store_inv_same [OF assms(1), of h'] unfolding cmd_good_def
    by (intro exI [of _ False] exI [of _ "(e, h')"]) (simp add: assign_def)
next
  case False
  then have "moved h s q h' t" "\<And>j. roomy (op_allocs + j) h \<Longrightarrow> roomy j h'"
    using assms(5) by (auto simp: edits_def)
  then show ?thesis
    using assms(3,4) False store_inv_moved [OF assms(1,2), of q h' t] unfolding cmd_good_def
    by (intro exI [of _ True] exI [of _ "(e(v \<mapsto> q), h')"]) (simp add: assign_def)
qed

lemma sdsdup_ok:
  assumes "sds_wf h" "strs h s = Some sh" "length (sh_text sh) \<le> 1073741824"
  shows "\<exists>x h'. sdsdup s h = Some (x, h') \<and>
    (x = NULL \<and> unchanged h h' \<and> \<not> roomy 1 h \<or>
     x \<noteq> NULL \<and> created h x h' (sh_text sh) \<and> (\<forall>k. roomy (Suc k) h \<longrightarrow> roomy k h'))"
proof -
  have s: "get_sds h s = Some sh" "hdr_ok h s sh"
    using sds_wfD [OF assms(1,2)] by simp_all
  have u: "unat (size_of_int (sh_len sh)) = length (sh_text sh)"
    using unat_len(1) [OF s(2)] length_sh_text [OF s(2)] by simp
  have "sh_text sh = take (unat (size_of_int (sh_len sh))) (sh_buf sh)"
    using u length_sh_text [OF s(2)] by (simp add: sh_text_def)
  moreover have "unat (size_of_int (sh_len sh)) \<le> length (sh_buf sh)"
    using u by (simp add: sh_text_def)
  moreover have "sdsdup s h = sdsnewlen (Some (sh_buf sh)) (size_of_int (sh_len sh)) h"
    using s(1) by (simp add: sdsdup_def sdslen_def)
  ultimately show ?thesis
    using newlen_ok [OF assms(1), of "size_of_int (sh_len sh)" "Some (sh_buf sh)" "sh_text sh"] u assms(3) by simp
qed

lemma sds_cmd_good:
  assumes inv: "store_inv h0 (e, h) m" and ok: "cmd_ok c m"
  shows "cmd_good h0 op_allocs c (e, h) m"
proof (cases c)
  case (New v t)
  then have "unat (of_nat (length t) :: size_t) = length t" "length t \<le> 1073741824" "m v = None"
    using ok by (simp_all add: sds_limit_def unat_of_nat_ok)
  then show ?thesis
    using newlen_ok [OF store_invD(3) [OF inv], of "of_nat (length t)" "Some t" t] New
    by (auto intro: cmd_good_new [OF inv])
next
  case (From_Int v i)
  then show ?thesis
    using sdsfromlonglong_ok [OF store_invD(3) [OF inv], of i] ok by (auto intro: cmd_good_new [OF inv])
next
  case (Dup v w)
  then obtain t where t: "m w = Some t" "length t \<le> 1073741824" "m v = None"
    using ok by (auto simp: sds_limit_def split: option.splits)
  then obtain x sh where "e w = Some x" "strs h x = Some sh" "sh_text sh = t"
    using store_inv_var [OF inv] by metis
  then show ?thesis
    using sdsdup_ok [OF store_invD(3) [OF inv], of x sh] t Dup by (auto intro: cmd_good_new [OF inv])
next
  case (Edit v op)
  then obtain t where t: "m v = Some t" "op_fits op t"
    using ok by (auto split: option.splits)
  then obtain x sh where "e v = Some x" "strs h x = Some sh" "sh_text sh = t"
    using store_inv_var [OF inv] by metis
  then show ?thesis
    using sds_exec_ok [OF store_invD(3) [OF inv], of x sh op] t Edit by (auto intro: cmd_good_edit [OF inv])
next
  case (Cat_Sds v w)
  then obtain t u where t: "m v = Some t" "m w = Some u" "v \<noteq> w" "length t + length u \<le> 1073741824"
    using ok by (auto simp: sds_limit_def split: option.splits)
  obtain x sh y th where x: "e v = Some x" "strs h x = Some sh" "sh_text sh = t" "e w = Some y" "strs h y = Some th" "sh_text th = u"
    using store_inv_var [OF inv t(1)] store_inv_var [OF inv t(2)] by metis
  have "y \<noteq> x"
    using store_invD(6) [OF inv x(1), of w] x(4) t(3) by auto
  then obtain q h' where q: "sdscatsds x y h = Some (q, h')" "edits 1 h x q h' (t @ u)"
    using sdscatsds_ok [OF store_invD(3) [OF inv] x(2,5)] x(3,6) t(4) by (auto simp: edits_def)
  have "edits op_allocs h x q h' (t @ u)"
    using edits_mono [OF q(2), of op_allocs] by (simp add: op_allocs_def)
  then show ?thesis
    using x(1,4) t(1,2) Cat_Sds q(1) by (intro cmd_good_edit [OF inv x(1)]) auto
next
  case (Drop v)
  then obtain x where "e v = Some x"
    using ok store_invD(4) [OF inv] by auto
  then show ?thesis
    using store_inv_drop [OF inv, of v x] Drop roomy_mono [of _ h] by (auto simp: cmd_good_def)
qed

lemma sds_reach_inv: "sds_reach h0 st m \<Longrightarrow> sds_wf h0 \<Longrightarrow> store_inv h0 st m"
proof (induction rule: sds_reach.induct)
  case start
  then show ?case
    using grown_refl [of h0] by (simp add: store_inv_def rel_fun_def)
next
  case (step st m c b st')
  then show ?case
    using sds_cmd_good [of h0 "fst st" "snd st" m c] by (auto simp: cmd_good_def)
qed

fun run_cmds :: "'v sds_cmd list \<Rightarrow> 'v env \<times> sds_heap \<Rightarrow> ('v env \<times> sds_heap) option" where
  "run_cmds [] st = Some st"
| "run_cmds (c # cs) st = do { (b, st1) \<leftarrow> sds_cmd_exec c st; run_cmds cs st1 }"

fun cmds_ok :: "'v sds_cmd list \<Rightarrow> ('v \<Rightarrow> string option) \<Rightarrow> bool" where
  "cmds_ok [] m = True"
| "cmds_ok (c # cs) m = (cmd_ok c m \<and> cmds_ok cs (cmd_texts c m))"

text \<open>With memory, a legal list of commands runs to its end.\<close>

lemma run_cmds_reach:
  assumes "sds_reach h0 st m" "sds_wf h0" "cmds_ok cs m" "roomy (op_allocs * length cs + k) (snd st)"
  shows "\<exists>st'. run_cmds cs st = Some st' \<and> sds_reach h0 st' (fold cmd_texts cs m) \<and> roomy k (snd st')"
  using assms
proof (induction cs arbitrary: st m)
  case (Cons c cs)
  obtain e h where st: "st = (e, h)"
    by (cases st)
  have "roomy (op_allocs + (op_allocs * length cs + k)) (snd st)"
    using Cons.prems(4) by (simp add: algebra_simps)
  moreover have "cmd_good h0 op_allocs c st m"
    using sds_cmd_good [of h0 e h m c] sds_reach_inv [OF Cons.prems(1,2)] Cons.prems(3) by (simp add: st)
  ultimately obtain b st1 where "sds_cmd_exec c st = Some (b, st1)" "b \<and> roomy (op_allocs * length cs + k) (snd st1)"
    unfolding cmd_good_def by blast
  then have s1: "sds_cmd_exec c st = Some (True, st1)" "roomy (op_allocs * length cs + k) (snd st1)"
    by simp_all
  have "cmd_ok c m"
    using Cons.prems(3) by simp
  from sds_reach.step [OF Cons.prems(1) this s1(1)] have r: "sds_reach h0 st1 (cmd_texts c m)"
    by simp
  show ?case
    using Cons.IH [OF r Cons.prems(2) _ s1(2)] Cons.prems(3) s1(1) by simp
qed simp

subsection \<open>One string as an owned buffer\<close>

text \<open>
  The heap is \<open>h0\<close> with one string more: pushing characters onto it and freeing it is the same contract that the
  array has, and gives the heap back as it was.
\<close>

definition sds_drop :: "addr \<times> sds_heap \<Rightarrow> (addr \<times> sds_heap) option" where
  "sds_drop st = (case st of (s, h) \<Rightarrow> map_option (\<lambda>h. (NULL, h)) (sdsfree s h))"

definition sds_own :: "sds_heap \<Rightarrow> addr \<times> sds_heap \<Rightarrow> bool" where
  "sds_own h0 st \<longleftrightarrow> grown h0 {fst st} None (snd st)"

definition sds_gone :: "sds_heap \<Rightarrow> addr \<times> sds_heap \<Rightarrow> bool" where
  "sds_gone h0 st \<longleftrightarrow> sds_wf (snd st) \<and> strs (snd st) = strs h0 \<and> block_size (snd st) = block_size h0"

interpretation own: owned_buffer sds_push sds_view "sds_own h0" "\<lambda>_. True" sds_limit sds_drop "sds_gone h0"
  for h0 :: sds_heap
proof unfold_locales
  fix st :: "addr \<times> sds_heap" and c :: char
  assume a: "sds_own h0 st" "length (sds_view st) < sds_limit"
  obtain s h where st: "st = (s, h)"
    by (cases st)
  then have g: "grown h0 {s} None h"
    using a(1) by (simp add: sds_own_def)
  obtain sh where sh: "strs h s = Some sh"
    using grown_strs(1) [OF g] by blast
  note wf = grown_wf [OF g] sds_text_get [OF grown_wf [OF g] sh]
  have "unat (1 :: size_t) \<le> length [c]" "length (sh_text sh) + unat (1 :: size_t) \<le> 1073741824"
    using a(2) wf(2) by (simp_all add: st sds_view_def sds_limit_def)
  from sdscatlen_ok [OF wf(1) sh this] obtain q h1 where r: "sdscatlen s [c] 1 h = Some (q, h1)"
    "q = NULL \<and> unchanged h h1 \<or> q \<noteq> NULL \<and> moved h s q h1 (sh_text sh @ [c])"
    by auto
  show "\<exists>b st'. sds_push c st = Some (b, st') \<and> sds_own h0 st' \<and> sds_view st' = (if b then sds_view st @ [c] else sds_view st)"
  proof (cases "q = NULL")
    case True
    then have "sds_own h0 (s, h1)" "sds_view (s, h1) = sds_view (s, h)"
      using r(2) grown_unchanged [OF g] by (auto simp: sds_own_def unchanged_def sds_view_def sds_text_def get_sds_def)
    then show ?thesis
      using r(1) True st by (intro exI [of _ False] exI [of _ "(s, h1)"]) (simp add: sds_push_def)
  next
    case False
    then have m: "moved h s q h1 (sh_text sh @ [c])"
      using r(2) by auto
    have "sds_own h0 (q, h1)" "sds_view (q, h1) = sds_view (s, h) @ [c]"
      using grown_moved(1,3) [OF g m] sds_text_get [of h1 q] m wf(2)
      by (auto simp: sds_own_def sds_view_def has_text_def moved_def)
    then show ?thesis
      using r(1) False st by (intro exI [of _ True] exI [of _ "(q, h1)"]) (simp add: sds_push_def)
  qed
next
  fix st :: "addr \<times> sds_heap"
  assume "sds_own h0 st"
  then have g: "grown h0 {fst st} None (snd st)"
    by (simp add: sds_own_def)
  then obtain h' where f: "sdsfree (fst st) (snd st) = Some h'" "grown h0 {} None h'"
    using grown_free [OF g, of "fst st"] by auto
  then have "sds_gone h0 (NULL, h')"
    by (auto simp: sds_gone_def grown_def)
  then show "\<exists>st'. sds_drop st = Some st' \<and> sds_gone h0 st'"
    using f(1) by (cases st) (simp add: sds_drop_def)
qed

text \<open>A string from \<open>sdsempty\<close> through any run of appends to \<open>sdsfree\<close>.\<close>

lemma sds_life:
  assumes "sds_wf h0" "length t \<le> sds_limit"
  shows "\<exists>s h. sdsempty h0 = Some (s, h) \<and> (s = NULL \<and> unchanged h0 h \<or>
    (\<exists>k st1 st2. append_all sds_push t (s, h) = Some (k, st1) \<and> k \<le> length t \<and> sds_view st1 = take k t \<and>
      sds_drop st1 = Some st2 \<and> sds_gone h0 st2))"
proof -
  obtain s h where s: "sdsempty h0 = Some (s, h)" "s = NULL \<and> unchanged h0 h \<or> created h0 s h []"
    using newlen_ok [OF assms(1), of 0 "Some []" "[]"] by (auto simp: sdsempty_def)
  show ?thesis
  proof (cases "s = NULL \<and> unchanged h0 h")
    case False
    then have c: "created h0 s h []"
      using s(2) by blast
    note g = grown_created [OF grown_refl [OF assms(1)] c]
    have "sds_own h0 (s, h)" "sds_view (s, h) = []"
      using g(1,3) sds_text_get [OF grown_wf [OF g(1)]] by (auto simp: sds_own_def sds_view_def has_text_def)
    then show ?thesis
      using own.session [of h0 "(s, h)" t] s(1) assms(2) by auto
  qed (use s(1) in blast)
qed

subsection \<open>Reachable stores\<close>

text \<open>
  Property (C13): in every store that legal commands on any number of variables lead to, whichever
  of their requests for memory fail, every string of the heap is well typed (\<open>sds_wf\<close>: both fields of the
  header are in the range of \<open>int\<close>, they describe the buffer and the block, and the terminator is in its place), every
  variable has a string of its own, which shows the text of the variable, nothing else in the heap
  has changed, and so nothing has leaked once the variables are gone; and no legal command runs into
  undefined behaviour.
\<close>

theorem sds_store_sound:
  assumes "sds_wf h0" "sds_reach h0 (e, h) m"
  shows "sds_wf h \<and> dom e = dom m \<and> inj_on e (dom e) \<and>
    (\<forall>v s t. e v = Some s \<longrightarrow> m v = Some t \<longrightarrow> sds_text h s = t) \<and>
    (\<forall>s. s \<notin> ran e \<longrightarrow> strs h s = strs h0 s) \<and>
    (\<forall>a. a + sizeof_hdr \<notin> ran e \<longrightarrow> block_size h a = block_size h0 a) \<and>
    (\<forall>c. cmd_ok c m \<longrightarrow> sds_cmd_exec c (e, h) \<noteq> None)"
proof -
  note inv = sds_reach_inv [OF assms(2,1)]
  have "sds_text h s = t" if "e v = Some s" "m v = Some t" for v s t
    using store_invD(5) [OF inv that] sds_text_get [OF store_invD(3) [OF inv]] by (auto simp: has_text_def)
  moreover have "strs h s = strs h0 s" if "s \<notin> ran e" for s
    using grown_strs(2) [OF store_invD(1) [OF inv] that] .
  moreover have "block_size h a = block_size h0 a" if "a + sizeof_hdr \<notin> ran e" for a
    using store_invD(1) [OF inv] that by (simp add: grown_def)
  moreover have "sds_cmd_exec c (e, h) \<noteq> None" if "cmd_ok c m" for c
    using sds_cmd_good [OF inv that] by (auto simp: cmd_good_def)
  ultimately show ?thesis
    using store_invD(2-4) [OF inv] by blast
qed

theorem sds_store_sound_witness:
  "\<exists>e h x y. sds_reach (sds_start 145) (e, h) [0 \<mapsto> ''12ab'', (1 :: nat) \<mapsto> ''ab''] \<and> e 0 = Some x \<and> e 1 = Some y \<and>
     x \<noteq> y \<and> sds_text h x = ''12ab'' \<and> sds_text h y = ''ab''"
proof -
  let ?cs = "[New 1 ''Ab'', From_Int 0 12, Edit 1 Lower, Cat_Sds 0 1] :: nat sds_cmd list"
  let ?m = "[0 \<mapsto> ''12ab'', (1 :: nat) \<mapsto> ''ab'']"
  have d: "decimal_int 12 = ''12''"
    by (simp add: decimal_int_def decimal.simps digit_char_def char_of_def bit_0)
  have w: "sds_wf (sds_start 145)" "roomy (op_allocs * length ?cs + 1) (sds_start 145)"
    using sds_start_ok [of 145] roomy_mono [of 145 "sds_start 145" 117] by (simp_all add: op_allocs_def)
  have m: "fold cmd_texts ?cs Map.empty = ?m"
    by (simp add: d fun_eq_iff tolower_def char_code_def char_of_def bit_0)
  have ok: "cmds_ok ?cs Map.empty"
    by (simp add: d sds_limit_def LLONG_MAX_def)
  obtain st where "sds_reach (sds_start 145) st (fold cmd_texts ?cs Map.empty)"
    using run_cmds_reach [OF sds_reach.start w(1) ok, unfolded snd_conv, OF w(2)] by blast
  then obtain e h where r: "sds_reach (sds_start 145) (e, h) ?m"
    unfolding m by (cases st) blast
  note s = sds_store_sound [OF w(1) r]
  have "dom e = {0, 1}"
    using s by auto
  then obtain x y where x: "e 0 = Some x" "e 1 = Some y"
    by blast
  moreover have "x \<noteq> y"
    using s x inj_onD [of e "dom e" 0 1] by auto
  moreover have "sds_text h x = ''12ab''" "sds_text h y = ''ab''"
    using s x by simp_all
  ultimately show ?thesis
    using r by blast
qed

end
