(* ===== verification/Nc_Sds_Test.thy ===== *)
theory Nc_Sds_Test
  imports Nc_Sds_Store
begin

text \<open>
  The test program at the end of \<open>nc_sds.c\<close>, the function \<open>main\<close> that is compiled with \<open>SDS_TEST_MAIN\<close>.
  The macros \<open>test_cond\<close> and \<open>test_report\<close> come from \<open>testhelp.h\<close>, which the repository does not have: they are
  the parameters \<open>tc\<close> and \<open>rep\<close>, functions on the state \<open>t\<close> of the test framework. The program is the
  one place of the repository that calls the strings the way a client does; its run is traced by the invariant
  \<open>store_inv\<close> with the variables \<open>X\<close> and \<open>Y\<close>.
\<close>

subsection \<open>The program\<close>

text \<open>\<open>memcmp (x, lit, n) == 0\<close>, alone and behind \<open>sdslen (x) == l &&\<close>.\<close>

definition mem_is :: "addr \<Rightarrow> string \<Rightarrow> nat \<Rightarrow> sds_heap \<Rightarrow> bool option" where
  "mem_is x lit n h = do {
     sh \<leftarrow> get_sds h x;
     a \<leftarrow> get_chars 0 n (sh_buf sh);
     b \<leftarrow> get_chars 0 n lit;
     Some (memcmp a b = 0)
   }"

definition text_is :: "addr \<Rightarrow> size_t \<Rightarrow> string \<Rightarrow> nat \<Rightarrow> sds_heap \<Rightarrow> bool option" where
  "text_is x l lit n h = do { len \<leftarrow> sdslen x h; if len = l then mem_is x lit n h else Some False }"

definition test_create :: "(string \<Rightarrow> bool \<Rightarrow> 't \<Rightarrow> 't) \<Rightarrow> 't \<Rightarrow> sds_heap \<Rightarrow> ('t \<times> sds_heap) option" where
  "test_create tc t h = do {
     (x, h) \<leftarrow> sdsnew (Some ''foo'') h;
     c \<leftarrow> text_is x 3 (''foo'' @ [NUL]) 4 h;
     let t = tc ''Create a string and obtain the length'' c t;
     h \<leftarrow> sdsfree x h;
     (x, h) \<leftarrow> sdsnewlen (Some ''foo'') 2 h;
     c \<leftarrow> text_is x 2 (''fo'' @ [NUL]) 3 h;
     let t = tc ''Create a string with specified length'' c t;
     (x, h) \<leftarrow> sdscat x ''bar'' h;
     c \<leftarrow> text_is x 5 (''fobar'' @ [NUL]) 6 h;
     let t = tc ''Strings concatenation'' c t;
     (x, h) \<leftarrow> sdscpy x ''a'' h;
     c \<leftarrow> text_is x 1 (''a'' @ [NUL]) 2 h;
     let t = tc ''sdscpy() against an originally longer string'' c t;
     (x, h) \<leftarrow> sdscpy x ''xyzxxxxxxxxxxyyyyyyyyyykkkkkkkkkk'' h;
     c \<leftarrow> text_is x 33 (''xyzxxxxxxxxxxyyyyyyyyyykkkkkkkkkk'' @ [NUL]) 33 h;
     let t = tc ''sdscpy() against an originally shorter string'' c t;
     h \<leftarrow> sdsfree x h;
     Some (t, h)
   }"

definition test_printf :: "(string \<Rightarrow> bool \<Rightarrow> 't \<Rightarrow> 't) \<Rightarrow> 't \<Rightarrow> sds_heap \<Rightarrow> ('t \<times> sds_heap) option" where
  "test_printf tc t h = do {
     (x, h) \<leftarrow> sdsempty h;
     (x, h) \<leftarrow> sdscatprintf x (decimal_int 123) h;
     c \<leftarrow> text_is x 3 (''123'' @ [NUL]) 4 h;
     let t = tc ''sdscatprintf() seems working in the base case'' c t;
     h \<leftarrow> sdsfree x h;
     Some (t, h)
   }"

text \<open>Six of the tests have this form.\<close>

definition test_range ::
  "(string \<Rightarrow> bool \<Rightarrow> 't \<Rightarrow> 't) \<Rightarrow> addr \<Rightarrow> string \<Rightarrow> int \<Rightarrow> int \<Rightarrow> size_t \<Rightarrow> string \<Rightarrow> nat \<Rightarrow> 't \<Rightarrow> sds_heap \<Rightarrow> ('t \<times> sds_heap) option"
where
  "test_range tc x label i j l lit n t h = do {
     (y, h) \<leftarrow> sdsdup x h;
     h \<leftarrow> sdsrange y i j h;
     c \<leftarrow> text_is y l lit n h;
     let t = tc label c t;
     h \<leftarrow> sdsfree y h;
     Some (t, h)
   }"

definition test_trim :: "(string \<Rightarrow> bool \<Rightarrow> 't \<Rightarrow> 't) \<Rightarrow> 't \<Rightarrow> sds_heap \<Rightarrow> ('t \<times> sds_heap) option" where
  "test_trim tc t h = do {
     (x, h) \<leftarrow> sdsnew (Some ''xxciaoyyy'') h;
     h \<leftarrow> sdstrim x ''xy'' h;
     c \<leftarrow> text_is x 4 (''ciao'' @ [NUL]) 5 h;
     let t = tc ''sdstrim() correctly trims characters'' c t;
     (t, h) \<leftarrow> test_range tc x ''sdsrange(...,1,1)'' 1 1 1 (''i'' @ [NUL]) 2 t h;
     (t, h) \<leftarrow> test_range tc x ''sdsrange(...,1,-1)'' 1 (- 1) 3 (''iao'' @ [NUL]) 4 t h;
     (t, h) \<leftarrow> test_range tc x ''sdsrange(...,-2,-1)'' (- 2) (- 1) 2 (''ao'' @ [NUL]) 3 t h;
     (t, h) \<leftarrow> test_range tc x ''sdsrange(...,2,1)'' 2 1 0 [NUL] 1 t h;
     (t, h) \<leftarrow> test_range tc x ''sdsrange(...,1,100)'' 1 100 3 (''iao'' @ [NUL]) 4 t h;
     (t, h) \<leftarrow> test_range tc x ''sdsrange(...,100,100)'' 100 100 0 [NUL] 1 t h;
     h \<leftarrow> sdsfree x h;
     Some (t, h)
   }"

text \<open>Three of the tests have this form, with the condition on the value of \<open>sdscmp\<close>.\<close>

definition test_cmp ::
  "(string \<Rightarrow> bool \<Rightarrow> 't \<Rightarrow> 't) \<Rightarrow> string \<Rightarrow> string \<Rightarrow> string \<Rightarrow> (int \<Rightarrow> bool) \<Rightarrow> 't \<Rightarrow> sds_heap \<Rightarrow> ('t \<times> sds_heap) option"
where
  "test_cmp tc label a b rel t h = do {
     (x, h) \<leftarrow> sdsnew (Some a) h;
     (y, h) \<leftarrow> sdsnew (Some b) h;
     r \<leftarrow> sdscmp x y h;
     let t = tc label (rel r) t;
     h \<leftarrow> sdsfree y h;
     h \<leftarrow> sdsfree x h;
     Some (t, h)
   }"

definition test_repr :: "(string \<Rightarrow> bool \<Rightarrow> 't \<Rightarrow> 't) \<Rightarrow> 't \<Rightarrow> sds_heap \<Rightarrow> (addr \<times> 't \<times> sds_heap) option" where
  "test_repr tc t h = do {
     (x, h) \<leftarrow> sdsnewlen (Some ([CHR 0x07, CHR 0x0A, NUL] @ ''foo'' @ [CHR 0x0D])) 7 h;
     (y, h) \<leftarrow> sdsempty h;
     len \<leftarrow> sdslen x h;
     sh \<leftarrow> get_sds h x;
     (y, h) \<leftarrow> sdscatrepr y (sh_buf sh) len h;
     c \<leftarrow> mem_is y (QUOTE # BACKSLASH # ''a'' @ BACKSLASH # ''n'' @ BACKSLASH # ''x00foo'' @ BACKSLASH # ''r'' @ [QUOTE]) 15 h;
     let t = tc ''sdscatrepr(...data...)'' c t;
     Some (x, t, h)
   }"

definition test_room :: "(string \<Rightarrow> bool \<Rightarrow> 't \<Rightarrow> 't) \<Rightarrow> addr \<Rightarrow> 't \<Rightarrow> sds_heap \<Rightarrow> ('t \<times> sds_heap) outcome option" where
  "test_room tc x t h = do {
     h \<leftarrow> sdsfree x h;
     (x, h) \<leftarrow> sdsnew (Some ''0'') h;
     sh \<leftarrow> get_sds h x;
     let t = tc ''sdsnew() free/len buffers'' (sh_len sh = 1 \<and> sh_free sh = 0) t;
     (x, h) \<leftarrow> sdsMakeRoomFor x 1 h;
     sh \<leftarrow> get_sds h x;
     let t = tc ''sdsMakeRoomFor()'' (sh_len sh = 1 \<and> sh_free sh > 0) t;
     let oldfree = sh_free sh;
     b \<leftarrow> put_char 1 (CHR ''1'') (sh_buf sh);
     r \<leftarrow> sdsIncrLen x 1 (put_sds x (sh\<lparr>sh_buf := b\<rparr>) h);
     (case r of
        Aborts \<Rightarrow> Some Aborts
      | Returns h \<Rightarrow> do {
          sh \<leftarrow> get_sds h x;
          c0 \<leftarrow> at (sh_buf sh) 0;
          c1 \<leftarrow> at (sh_buf sh) 1;
          let t = tc ''sdsIncrLen() -- content'' (c0 = CHR ''0'' \<and> c1 = CHR ''1'') t;
          let t = tc ''sdsIncrLen() -- len'' (sh_len sh = 2) t;
          f \<leftarrow> int_chk (oldfree - 1);
          let t = tc ''sdsIncrLen() -- free'' (sh_free sh = f) t;
          Some (Returns (t, h))
        })
   }"

definition sds_test_main ::
  "(string \<Rightarrow> bool \<Rightarrow> 't \<Rightarrow> 't) \<Rightarrow> ('t \<Rightarrow> 't) \<Rightarrow> 't \<Rightarrow> sds_heap \<Rightarrow> (int \<times> 't \<times> sds_heap) outcome option"
where
  "sds_test_main tc rep t h = do {
     (t, h) \<leftarrow> test_create tc t h;
     (t, h) \<leftarrow> test_printf tc t h;
     (t, h) \<leftarrow> test_trim tc t h;
     (t, h) \<leftarrow> test_cmp tc ''sdscmp(foo,foa)'' ''foo'' ''foa'' (\<lambda>r. r > 0) t h;
     (t, h) \<leftarrow> test_cmp tc ''sdscmp(bar,bar)'' ''bar'' ''bar'' (\<lambda>r. r = 0) t h;
     (t, h) \<leftarrow> test_cmp tc ''sdscmp(bar,bar)'' ''aar'' ''bar'' (\<lambda>r. r < 0) t h;
     (x, t, h) \<leftarrow> test_repr tc t h;
     r \<leftarrow> test_room tc x t h;
     Some (case r of Aborts \<Rightarrow> Aborts | Returns (t, h) \<Rightarrow> Returns (0, rep t, h))
   }"
subsection \<open>The calls\<close>

text \<open>The rules below run one call of the program, on the store of the variables, with memory for it.\<close>

datatype var = X | Y

abbreviation mem :: "nat \<Rightarrow> sds_heap \<Rightarrow> bool" where
  "mem k h \<equiv> roomy (op_allocs * k) h"

lemma mem_SucD: "mem (Suc k) h \<Longrightarrow> roomy (op_allocs + op_allocs * k) h" "mem (Suc k) h \<Longrightarrow> roomy 1 h"
    "mem (Suc k) h \<Longrightarrow> roomy (Suc (op_allocs * k)) h"
  using roomy_mono [of "op_allocs * Suc k" h 1] roomy_mono [of "op_allocs * Suc k" h "Suc (op_allocs * k)"]
  by (simp_all add: op_allocs_def)

lemma run_newlen_hdr:
  assumes "store_inv h0 (e, h) m" "m v = None" "mem (Suc k) h" "unat n \<le> length t" "unat n \<le> 1073741824"
  obtains s h' where "sdsnewlen (Some t) n h = Some (s, h')" "store_inv h0 (e(v \<mapsto> s), h') (m(v \<mapsto> take (unat n) t))" "mem k h'"
    "strs h' s = Some \<lparr>sh_len = int (length (take (unat n) t)), sh_free = 0, sh_buf = take (unat n) t @ [NUL]\<rparr>"
proof -
  obtain s h' where s: "sdsnewlen (Some t) n h = Some (s, h')" "created h s h' (take (unat n) t)" "roomy (op_allocs * k) h'"
    using newlen_ok [OF store_invD(3) [OF assms(1)], of n "Some t" "take (unat n) t"] assms(4,5) mem_SucD(2,3) [OF assms(3)]
    by auto
  then show thesis
    using that [OF s(1) store_inv_new [OF assms(1,2) s(2)]] by (simp add: created_def)
qed

lemma run_newlen:
  assumes "store_inv h0 (e, h) m" "m v = None" "mem (Suc k) h" "unat n \<le> length t" "unat n \<le> 1073741824"
  obtains s h' where "sdsnewlen (Some t) n h = Some (s, h')" "store_inv h0 (e(v \<mapsto> s), h') (m(v \<mapsto> take (unat n) t))" "mem k h'"
  by (rule run_newlen_hdr [OF assms]) (rule that; assumption)

lemma run_new:
  assumes "store_inv h0 (e, h) m" "m v = None" "mem (Suc k) h" "length t \<le> sds_limit"
  obtains s h' where "sdsnew (Some t) h = Some (s, h')" "store_inv h0 (e(v \<mapsto> s), h') (m(v \<mapsto> t))" "mem k h'"
    "strs h' s = Some \<lparr>sh_len = int (length t), sh_free = 0, sh_buf = t @ [NUL]\<rparr>"
proof -
  have "unat (of_nat (length t) :: size_t) = length t"
    using assms(4) by (simp add: sds_limit_def unat_of_nat_ok)
  then show thesis
    using run_newlen_hdr [OF assms(1-3), of "of_nat (length t)" t] that assms(4) by (auto simp: sdsnew_def sds_limit_def)
qed

lemma run_empty:
  assumes "store_inv h0 (e, h) m" "m v = None" "mem (Suc k) h"
  obtains s h' where "sdsempty h = Some (s, h')" "store_inv h0 (e(v \<mapsto> s), h') (m(v \<mapsto> []))" "mem k h'"
  using run_newlen [OF assms, of 0 "[]"] by (auto simp: sdsempty_def)

lemma run_free:
  assumes "store_inv h0 (e, h) m" "e v = Some s" "mem k h"
  obtains h' where "sdsfree s h = Some h'" "store_inv h0 (e(v := None), h') (m(v := None))" "mem k h'"
  using store_inv_drop [OF assms(1,2)] assms(3) by blast

lemma run_edit:
  assumes "store_inv h0 (e, h) m" "e v = Some s" "m v = Some t" "op_fits op t" "mem (Suc k) h"
  obtains q h' where "sds_exec op s h = Some (q, h')" "store_inv h0 (e(v \<mapsto> q), h') (m(v \<mapsto> op_text op t))" "mem k h'"
proof -
  obtain b st where "sds_cmd_exec (Edit v op) (e, h) = Some (b, st)" "store_inv h0 st (if b then m(v \<mapsto> op_text op t) else m)"
    "b" "mem k (snd st)"
    using sds_cmd_good [OF assms(1), of "Edit v op"] assms(3,4) mem_SucD(1) [OF assms(5)] by (auto simp: cmd_good_def)
  then show thesis
    using that assms(2) by (auto simp: assign_def Option.bind_eq_Some_conv split: if_splits)
qed

lemma run_in_place:
  assumes "store_inv h0 (e, h) m" "e v = Some s" "m v = Some t" "op_fits op t" "mem (Suc k) h"
    and "sds_exec op s h = in_place_op r s"
  obtains h' where "r = Some h'" "store_inv h0 (e, h') (m(v \<mapsto> op_text op t))" "mem k h'"
proof -
  obtain q h' where q: "in_place_op r s = Some (q, h')" "store_inv h0 (e(v \<mapsto> q), h') (m(v \<mapsto> op_text op t))" "mem k h'"
    using run_edit [OF assms(1-5)] assms(6) by auto
  then have "r = Some h'" "q = s"
    by (auto simp: in_place_op_def)
  then show thesis
    using that q(2,3) fun_upd_triv [of e v] assms(2) by metis
qed

lemma run_dup:
  assumes "store_inv h0 (e, h) m" "m v = None" "e w = Some x" "m w = Some t" "length t \<le> sds_limit" "mem (Suc k) h"
  obtains s h' where "sdsdup x h = Some (s, h')" "store_inv h0 (e(v \<mapsto> s), h') (m(v \<mapsto> t))" "mem k h'"
proof -
  obtain sh where "strs h x = Some sh" "sh_text sh = t"
    using store_invD(5) [OF assms(1,3,4)] by (auto simp: has_text_def)
  then obtain s h' where s: "sdsdup x h = Some (s, h')" "created h s h' t" "roomy (op_allocs * k) h'"
    using sdsdup_ok [OF store_invD(3) [OF assms(1)], of x sh] assms(5) mem_SucD(2,3) [OF assms(6)]
    by (auto simp: sds_limit_def)
  then show thesis
    using that [OF s(1) store_inv_new [OF assms(1,2) s(2)]] by blast
qed

lemma text_prefix:
  assumes "store_inv h0 (e, h) m" "e v = Some x" "m v = Some t" "n \<le> Suc (length t)"
  obtains sh where "get_sds h x = Some sh" "get_chars 0 n (sh_buf sh) = Some (take n (t @ [NUL]))"
    "sdslen x h = Some (of_nat (length t))"
proof -
  obtain sh where sh: "strs h x = Some sh" "sh_text sh = t"
    using store_invD(5) [OF assms(1-3)] by (auto simp: has_text_def)
  have hd: "get_sds h x = Some sh" "hdr_ok h x sh"
    using sds_wfD [OF store_invD(3) [OF assms(1)] sh(1)] by simp_all
  have l: "length t = nat (sh_len sh)" "nat (sh_len sh) < length (sh_buf sh)" "0 \<le> sh_len sh"
    using hd(2) length_sh_text [OF hd(2)] sh(2) by (auto simp: hdr_ok_def)
  then have "take (Suc (length t)) (sh_buf sh) = t @ [NUL]"
    using hd(2) sh(2) by (simp add: sh_text_def hdr_ok_def take_Suc_conv_app_nth)
  then have "take n (sh_buf sh) = take n (t @ [NUL])"
    using assms(4) by (metis min.absorb1 take_take)
  then show thesis
    using that hd(1) l assms(4) by (simp add: get_chars_def sdslen_def size_of_int_def)
qed
lemma memcmp_self: "memcmp a a = 0"
  by (induction a) simp_all

lemma run_mem_is:
  assumes "store_inv h0 (e, h) m" "e v = Some x" "m v = Some t" "n \<le> Suc (length t)" "n \<le> length lit"
    and "take n lit = take n (t @ [NUL])"
  shows "mem_is x lit n h = Some True"
proof (rule text_prefix [OF assms(1-4)])
  fix sh
  assume "get_sds h x = Some sh" "get_chars 0 n (sh_buf sh) = Some (take n (t @ [NUL]))"
  moreover have "get_chars 0 n lit = Some (take n (t @ [NUL]))"
    using assms(5,6) by (simp add: get_chars_def)
  ultimately show ?thesis
    by (simp add: mem_is_def memcmp_self)
qed

lemma run_text_is:
  assumes "store_inv h0 (e, h) m" "e v = Some x" "m v = Some t" "n \<le> Suc (length t)" "n \<le> length lit"
    and "take n lit = take n (t @ [NUL])" "l = of_nat (length t)"
  shows "text_is x l lit n h = Some True"
proof (rule text_prefix [OF assms(1-4)])
  fix sh
  assume "sdslen x h = Some (of_nat (length t))"
  then show ?thesis
    using run_mem_is [OF assms(1-6)] assms(7) by (simp add: text_is_def)
qed

subsection \<open>The parts of the program\<close>

lemma test_create_ok:
  assumes "store_inv h0 (Map.empty, h) (Map.empty :: var \<Rightarrow> string option)" "mem (5 + k) h"
  shows "\<exists>h'. test_create tc t h = Some (fold (\<lambda>l. tc l True)
      [''Create a string and obtain the length'', ''Create a string with specified length'', ''Strings concatenation'',
       ''sdscpy() against an originally longer string'', ''sdscpy() against an originally shorter string''] t, h') \<and>
    store_inv h0 (Map.empty, h') (Map.empty :: var \<Rightarrow> string option) \<and> mem k h'"
proof -
  have m: "mem (Suc (Suc (Suc (Suc (Suc k))))) h"
    using assms(2) by (simp add: eval_nat_numeral)
  obtain x1 h1 where 1: "sdsnew (Some ''foo'') h = Some (x1, h1)" "store_inv h0 ([X \<mapsto> x1], h1) [X \<mapsto> ''foo'']" "mem (Suc (Suc (Suc (Suc k)))) h1"
    by (rule run_new [OF assms(1) _ m, where v = X and t = "''foo''"]) (simp_all add: sds_limit_def)
  have c1: "text_is x1 3 (''foo'' @ [NUL]) 4 h1 = Some True"
    by (rule run_text_is [OF 1(2), where v = X and t = "''foo''"]) simp_all
  obtain h2 where 2: "sdsfree x1 h1 = Some h2" "store_inv h0 (Map.empty, h2) (Map.empty :: var \<Rightarrow> string option)" "mem (Suc (Suc (Suc (Suc k)))) h2"
    using run_free [OF 1(2) _ 1(3), where v = X and s = x1] by auto
  obtain x3 h3 where 3: "sdsnewlen (Some ''foo'') 2 h2 = Some (x3, h3)" "store_inv h0 ([X \<mapsto> x3], h3) [X \<mapsto> ''fo'']" "mem (Suc (Suc (Suc k))) h3"
    using run_newlen [OF 2(2) _ 2(3), where v = X and n = 2 and t = "''foo''"] by auto
  have c3: "text_is x3 2 (''fo'' @ [NUL]) 3 h3 = Some True"
    by (rule run_text_is [OF 3(2), where v = X and t = "''fo''"]) simp_all
  obtain x4 h4 where 4: "sdscat x3 ''bar'' h3 = Some (x4, h4)" "store_inv h0 ([X \<mapsto> x4], h4) [X \<mapsto> ''fobar'']" "mem (Suc (Suc k)) h4"
    using run_edit [OF 3(2) _ _ _ 3(3), where v = X and s = x3 and t = "''fo''" and op = "Cat ''bar''"] by (auto simp: sds_limit_def)
  have c4: "text_is x4 5 (''fobar'' @ [NUL]) 6 h4 = Some True"
    by (rule run_text_is [OF 4(2), where v = X and t = "''fobar''"]) simp_all
  obtain x5 h5 where 5: "sdscpy x4 ''a'' h4 = Some (x5, h5)" "store_inv h0 ([X \<mapsto> x5], h5) [X \<mapsto> ''a'']" "mem (Suc k) h5"
    using run_edit [OF 4(2) _ _ _ 4(3), where v = X and s = x4 and t = "''fobar''" and op = "Cpy ''a''"] by (auto simp: sds_limit_def)
  have c5: "text_is x5 1 (''a'' @ [NUL]) 2 h5 = Some True"
    by (rule run_text_is [OF 5(2), where v = X and t = "''a''"]) simp_all
  let ?long = "''xyzxxxxxxxxxxyyyyyyyyyykkkkkkkkkk''"
  obtain x6 h6 where 6: "sdscpy x5 ?long h5 = Some (x6, h6)" "store_inv h0 ([X \<mapsto> x6], h6) [X \<mapsto> ?long]" "mem k h6"
    using run_edit [OF 5(2) _ _ _ 5(3), where v = X and s = x5 and t = "''a''" and op = "Cpy ?long"] by (auto simp: sds_limit_def)
  have c6: "text_is x6 33 (?long @ [NUL]) 33 h6 = Some True"
    by (rule run_text_is [OF 6(2), where v = X and t = "?long"]) simp_all
  obtain h7 where 7: "sdsfree x6 h6 = Some h7" "store_inv h0 (Map.empty, h7) (Map.empty :: var \<Rightarrow> string option)" "mem k h7"
    using run_free [OF 6(2) _ 6(3), where v = X and s = x6] by auto
  show ?thesis
    using 7(2,3) unfolding test_create_def 1(1) c1 2(1) 3(1) c3 4(1) c4 5(1) c5 6(1) c6 7(1)
    by (simp add: 1(1) c1 2(1) 3(1) c3 4(1) c4 5(1) c5 6(1) c6 7(1) del: append_Cons append_Nil)
qed
lemma test_printf_ok:
  assumes "store_inv h0 (Map.empty, h) (Map.empty :: var \<Rightarrow> string option)" "mem (2 + k) h"
  shows "\<exists>h'. test_printf tc t h = Some (tc ''sdscatprintf() seems working in the base case'' True t, h') \<and>
    store_inv h0 (Map.empty, h') (Map.empty :: var \<Rightarrow> string option) \<and> mem k h'"
proof -
  have m: "mem (Suc (Suc k)) h"
    using assms(2) by (simp add: eval_nat_numeral)
  have d: "decimal_int 123 = ''123''" "upto_nul ''123'' = ''123''"
    by (simp_all add: decimal_int_def decimal.simps digit_char_def char_of_def bit_0)
  obtain x1 h1 where 1: "sdsempty h = Some (x1, h1)" "store_inv h0 ([X \<mapsto> x1], h1) [X \<mapsto> '''']" "mem (Suc k) h1"
    by (rule run_empty [OF assms(1) _ m, where v = X]) simp_all
  obtain x2 h2 where 2: "sdscatprintf x1 (decimal_int 123) h1 = Some (x2, h2)"
      "store_inv h0 ([X \<mapsto> x2], h2) [X \<mapsto> ''123'']" "mem k h2"
    using run_edit [OF 1(2) _ _ _ 1(3), where v = X and s = x1 and t = "''''" and op = "CatFmt ''123''"] d
    by (auto simp: sds_limit_def)
  have c2: "text_is x2 3 (''123'' @ [NUL]) 4 h2 = Some True"
    by (rule run_text_is [OF 2(2), where v = X and t = "''123''"]) simp_all
  obtain h3 where 3: "sdsfree x2 h2 = Some h3" "store_inv h0 (Map.empty, h3) (Map.empty :: var \<Rightarrow> string option)" "mem k h3"
    using run_free [OF 2(2) _ 2(3), where v = X and s = x2] by auto
  show ?thesis
    using 3(2,3) unfolding test_printf_def by (simp add: 1(1) 2(1) c2 3(1) del: append_Cons append_Nil)
qed

lemma test_range_ok:
  assumes "store_inv h0 ([X \<mapsto> x], h) [X \<mapsto> u]" "mem b h" "b = 2 + k" "length u \<le> sds_limit" "op_fits (Range i j) u"
    and "n \<le> Suc (length (range_text u i j))" "n \<le> length lit" "take n lit = take n (range_text u i j @ [NUL])"
    and "l = of_nat (length (range_text u i j))"
  obtains h' where "\<And>tc label t. test_range tc x label i j l lit n t h = Some (tc label True t, h')"
    "store_inv h0 ([X \<mapsto> x], h') [X \<mapsto> u]" "mem k h'"
proof -
  have m: "mem (Suc (Suc k)) h"
    using assms(2,3) by simp
  obtain y h1 where 1: "sdsdup x h = Some (y, h1)" "store_inv h0 ([X \<mapsto> x, Y \<mapsto> y], h1) [X \<mapsto> u, Y \<mapsto> u]" "mem (Suc k) h1"
    using run_dup [OF assms(1) _ _ _ assms(4) m, where v = Y and w = X and x = x] by auto
  obtain h2 where 2: "sdsrange y i j h1 = Some h2" "store_inv h0 ([X \<mapsto> x, Y \<mapsto> y], h2) [X \<mapsto> u, Y \<mapsto> range_text u i j]" "mem k h2"
    using run_in_place [OF 1(2) _ _ assms(5) 1(3), where v = Y and s = y and r = "sdsrange y i j h1"] by auto
  have c2: "text_is y l lit n h2 = Some True"
    by (rule run_text_is [OF 2(2), where v = Y and t = "range_text u i j"]) (use assms(6-9) in simp_all)
  have "[X \<mapsto> x, Y \<mapsto> y](Y := None) = [X \<mapsto> x]" "[X \<mapsto> u, Y \<mapsto> range_text u i j](Y := None) = [X \<mapsto> u]"
    by auto
  then obtain h3 where 3: "sdsfree y h2 = Some h3" "store_inv h0 ([X \<mapsto> x], h3) [X \<mapsto> u]" "mem k h3"
    using run_free [OF 2(2) _ 2(3), where v = Y and s = y] by auto
  show thesis
    using that [OF _ 3(2,3)] by (simp add: test_range_def 1(1) 2(1) c2 3(1))
qed

lemma test_trim_ok:
  assumes "store_inv h0 (Map.empty, h) (Map.empty :: var \<Rightarrow> string option)" "mem (14 + k) h"
  shows "\<exists>h'. test_trim tc (t :: 't) h = Some (fold (\<lambda>l. tc l True)
      [''sdstrim() correctly trims characters'', ''sdsrange(...,1,1)'', ''sdsrange(...,1,-1)'', ''sdsrange(...,-2,-1)'',
       ''sdsrange(...,2,1)'', ''sdsrange(...,1,100)'', ''sdsrange(...,100,100)''] t, h') \<and>
    store_inv h0 (Map.empty, h') (Map.empty :: var \<Rightarrow> string option) \<and> mem k h'"
proof -
  have m: "mem (Suc (Suc (12 + k))) h"
    using assms(2) by (simp add: eval_nat_numeral)
  obtain x h1 where 1: "sdsnew (Some ''xxciaoyyy'') h = Some (x, h1)" "store_inv h0 ([X \<mapsto> x], h1) [X \<mapsto> ''xxciaoyyy'']" "mem (Suc (12 + k)) h1"
    by (rule run_new [OF assms(1) _ m, where v = X and t = "''xxciaoyyy''"]) (simp_all add: sds_limit_def)
  have "trim_text ''xy'' ''xxciaoyyy'' = ''ciao''"
    by (simp add: trim_text_def strchr_def)
  then obtain h2 where 2: "sdstrim x ''xy'' h1 = Some h2" "store_inv h0 ([X \<mapsto> x], h2) [X \<mapsto> ''ciao'']" "mem (12 + k) h2"
    using run_in_place [OF 1(2) _ _ _ 1(3), where v = X and s = x and t = "''xxciaoyyy''" and op = "Trim ''xy''" and r = "sdstrim x ''xy'' h1"]
    by auto
  have c2: "text_is x 4 (''ciao'' @ [NUL]) 5 h2 = Some True"
    by (rule run_text_is [OF 2(2), where v = X and t = "''ciao''"]) simp_all
  have range: "range_text ''ciao'' 1 1 = ''i''" "range_text ''ciao'' 1 (- 1) = ''iao''" "range_text ''ciao'' (- 2) (- 1) = ''ao''"
    "range_text ''ciao'' 2 1 = ''''" "range_text ''ciao'' 1 100 = ''iao''" "range_text ''ciao'' 100 100 = ''''"
    by (simp_all add: range_text_def range_pos_def)
  note range = this range_pos_def sds_limit_def int_ok_def INT_MIN_def INT_MAX_def
  obtain h3 where 3: "\<And>tc label (t :: 't). test_range tc x label 1 1 1 (''i'' @ [NUL]) 2 t h2 = Some (tc label True t, h3)"
      "store_inv h0 ([X \<mapsto> x], h3) [X \<mapsto> ''ciao'']" "mem (10 + k) h3"
    by (rule test_range_ok [OF 2(2,3), of "10 + k" 1 1 2 "''i'' @ [NUL]" 1]) ((rule that; assumption) | (simp add: range; fail))+
  obtain h4 where 4: "\<And>tc label (t :: 't). test_range tc x label 1 (- 1) 3 (''iao'' @ [NUL]) 4 t h3 = Some (tc label True t, h4)"
      "store_inv h0 ([X \<mapsto> x], h4) [X \<mapsto> ''ciao'']" "mem (8 + k) h4"
    by (rule test_range_ok [OF 3(2,3), of "8 + k" 1 "- 1" 4 "''iao'' @ [NUL]" 3]) ((rule that; assumption) | (simp add: range; fail))+
  obtain h5 where 5: "\<And>tc label (t :: 't). test_range tc x label (- 2) (- 1) 2 (''ao'' @ [NUL]) 3 t h4 = Some (tc label True t, h5)"
      "store_inv h0 ([X \<mapsto> x], h5) [X \<mapsto> ''ciao'']" "mem (6 + k) h5"
    by (rule test_range_ok [OF 4(2,3), of "6 + k" "- 2" "- 1" 3 "''ao'' @ [NUL]" 2]) ((rule that; assumption) | (simp add: range; fail))+
  obtain h6 where 6: "\<And>tc label (t :: 't). test_range tc x label 2 1 0 [NUL] 1 t h5 = Some (tc label True t, h6)"
      "store_inv h0 ([X \<mapsto> x], h6) [X \<mapsto> ''ciao'']" "mem (4 + k) h6"
    by (rule test_range_ok [OF 5(2,3), of "4 + k" 2 1 1 "[NUL]" 0]) ((rule that; assumption) | (simp add: range; fail))+
  obtain h7 where 7: "\<And>tc label (t :: 't). test_range tc x label 1 100 3 (''iao'' @ [NUL]) 4 t h6 = Some (tc label True t, h7)"
      "store_inv h0 ([X \<mapsto> x], h7) [X \<mapsto> ''ciao'']" "mem (2 + k) h7"
    by (rule test_range_ok [OF 6(2,3), of "2 + k" 1 100 4 "''iao'' @ [NUL]" 3]) ((rule that; assumption) | (simp add: range; fail))+
  obtain h8 where 8: "\<And>tc label (t :: 't). test_range tc x label 100 100 0 [NUL] 1 t h7 = Some (tc label True t, h8)"
      "store_inv h0 ([X \<mapsto> x], h8) [X \<mapsto> ''ciao'']" "mem (k) h8"
    by (rule test_range_ok [OF 7(2,3), of "k" 100 100 1 "[NUL]" 0]) ((rule that; assumption) | (simp add: range; fail))+
  obtain h9 where 9: "sdsfree x h8 = Some h9" "store_inv h0 (Map.empty, h9) (Map.empty :: var \<Rightarrow> string option)" "mem k h9"
    using run_free [OF 8(2) _ 8(3), where v = X and s = x] by auto
  show ?thesis
    using 9(2,3) unfolding test_trim_def
    by (simp add: 1(1) 2(1) c2 3(1) 4(1) 5(1) 6(1) 7(1) 8(1) 9(1) del: append_Cons append_Nil One_nat_def)
qed
lemma test_cmp_ok:
  assumes "store_inv h0 (Map.empty, h) (Map.empty :: var \<Rightarrow> string option)" "mem (2 + k) h"
    and "length a \<le> sds_limit" "length b \<le> sds_limit"
    and "\<And>r. (r = 0 \<longleftrightarrow> a = b) \<Longrightarrow> (r < 0 \<longleftrightarrow> (a, b) \<in> lexord byte_less) \<Longrightarrow> rel r"
  shows "\<exists>h'. test_cmp tc label a b rel t h = Some (tc label True t, h') \<and>
    store_inv h0 (Map.empty, h') (Map.empty :: var \<Rightarrow> string option) \<and> mem k h'"
proof -
  have m: "mem (Suc (Suc k)) h"
    using assms(2) by (simp add: eval_nat_numeral)
  obtain x h1 where 1: "sdsnew (Some a) h = Some (x, h1)" "store_inv h0 ([X \<mapsto> x], h1) [X \<mapsto> a]" "mem (Suc k) h1"
    by (rule run_new [OF assms(1) _ m assms(3), where v = X]) simp_all
  obtain y h2 where 2: "sdsnew (Some b) h1 = Some (y, h2)" "store_inv h0 ([X \<mapsto> x, Y \<mapsto> y], h2) [X \<mapsto> a, Y \<mapsto> b]" "mem k h2"
    by (rule run_new [OF 1(2) _ 1(3) assms(4), where v = Y]) simp_all
  obtain sh th where "strs h2 x = Some sh" "sh_text sh = a" "strs h2 y = Some th" "sh_text th = b"
    using store_invD(5) [OF 2(2), of X x a] store_invD(5) [OF 2(2), of Y y b] by (auto simp: has_text_def)
  then obtain r where 3: "sdscmp x y h2 = Some r" "rel r"
    using sdscmp_ok [OF store_invD(3) [OF 2(2)], of x sh y th] assms(5) by auto
  have "[X \<mapsto> x, Y \<mapsto> y](Y := None) = [X \<mapsto> x]" "[X \<mapsto> a, Y \<mapsto> b](Y := None) = [X \<mapsto> a]"
    by auto
  then obtain h3 where 4: "sdsfree y h2 = Some h3" "store_inv h0 ([X \<mapsto> x], h3) [X \<mapsto> a]" "mem k h3"
    using run_free [OF 2(2) _ 2(3), where v = Y and s = y] by auto
  obtain h4 where 5: "sdsfree x h3 = Some h4" "store_inv h0 (Map.empty, h4) (Map.empty :: var \<Rightarrow> string option)" "mem k h4"
    using run_free [OF 4(2) _ 4(3), where v = X and s = x] by auto
  show ?thesis
    using 5(2,3) by (simp add: test_cmp_def 1(1) 2(1) 3 4(1) 5(1))
qed

lemma test_repr_ok:
  assumes "store_inv h0 (Map.empty, h) (Map.empty :: var \<Rightarrow> string option)" "mem (3 + k) h"
  shows "\<exists>x y h'. test_repr tc t h = Some (x, tc ''sdscatrepr(...data...)'' True t, h') \<and>
    store_inv h0 ([X \<mapsto> x, Y \<mapsto> y], h')
      [X \<mapsto> [CHR 0x07, CHR 0x0A, NUL] @ ''foo'' @ [CHR 0x0D],
       Y \<mapsto> QUOTE # BACKSLASH # ''a'' @ BACKSLASH # ''n'' @ BACKSLASH # ''x00foo'' @ BACKSLASH # ''r'' @ [QUOTE]] \<and> mem k h'"
proof -
  define u where "u = [CHR 0x07, CHR 0x0A, NUL] @ ''foo'' @ [CHR 0x0D]"
  define q where "q = QUOTE # BACKSLASH # ''a'' @ BACKSLASH # ''n'' @ BACKSLASH # ''x00foo'' @ BACKSLASH # ''r'' @ [QUOTE]"
  have m: "mem (Suc (Suc (Suc k))) h"
    using assms(2) by (simp add: eval_nat_numeral)
  have u: "length u = 7" "repr_text u = q" "length q = 15"
    by (simp_all add: u_def q_def repr_text_def repr_char_def isprint_def hex2_def hex_char_def char_code_def char_of_def bit_0)
  obtain x h1 where 1: "sdsnewlen (Some u) 7 h = Some (x, h1)" "store_inv h0 ([X \<mapsto> x], h1) [X \<mapsto> u]" "mem (Suc (Suc k)) h1"
    using run_newlen [OF assms(1) _ m, where v = X and n = 7 and t = u] u(1) by auto
  obtain y h2 where 2: "sdsempty h1 = Some (y, h2)" "store_inv h0 ([X \<mapsto> x, Y \<mapsto> y], h2) [X \<mapsto> u, Y \<mapsto> '''']" "mem (Suc k) h2"
    by (rule run_empty [OF 1(2) _ 1(3), where v = Y]) simp_all
  obtain sh where sh: "get_sds h2 x = Some sh" "get_chars 0 7 (sh_buf sh) = Some u" "sdslen x h2 = Some 7"
    by (rule text_prefix [OF 2(2), where v = X and x = x and t = u and n = 7]) (auto simp: u(1))
  obtain th where th: "strs h2 y = Some th" "sh_text th = ''''"
    using store_invD(5) [OF 2(2), of Y y "''''"] by (auto simp: has_text_def)
  have "roomy (2 * unat (7 :: size_t) + 2 + op_allocs * k) h2"
    using roomy_mono [OF 2(3), of "16 + op_allocs * k"] by (simp add: op_allocs_def)
  moreover have "unat (7 :: size_t) \<le> length (sh_buf sh)" "take (unat (7 :: size_t)) (sh_buf sh) = u"
    using sh(2) by (simp_all add: get_chars_def split: if_splits)
  ultimately obtain z h3 where 3: "sdscatrepr y (sh_buf sh) 7 h2 = Some (z, h3)" "moved h2 y z h3 q" "mem k h3"
    using sdscatrepr_ok [OF store_invD(3) [OF 2(2)] th(1), of 7 "sh_buf sh" "op_allocs * k"] th(2) u(2) by auto
  have s3: "store_inv h0 ([X \<mapsto> x, Y \<mapsto> z], h3) [X \<mapsto> u, Y \<mapsto> q]"
    using store_inv_moved [OF 2(2) _ 3(2), of Y] by simp
  have c3: "mem_is z q 15 h3 = Some True"
    by (rule run_mem_is [OF s3, where v = Y and t = q]) (simp_all add: u(3))
  show ?thesis
    using s3 3(3) unfolding test_repr_def u_def [symmetric] q_def [symmetric]
    by (auto simp: 1(1) 2(1) sh(1,3) 3(1) c3)
qed
text \<open>Writing a character behind the text and moving \<open>len\<close> over it.\<close>

lemma incr_one:
  assumes "sds_wf h" "strs h s = Some sh" "sh_text sh = t" "1 \<le> sh_free sh"
  shows "\<exists>b sh'. put_char (length t) c (sh_buf sh) = Some b \<and>
    sdsIncrLen s 1 (put_sds s (sh\<lparr>sh_buf := b\<rparr>) h) = Some (Returns (put_sds s sh' h)) \<and>
    in_place h s sh sh' (t @ [c]) \<and> sh_len sh' = sh_len sh + 1 \<and> sh_free sh' = sh_free sh - 1"
proof -
  define l where "l = length t"
  have s: "s \<noteq> NULL" "hdr_ok h s sh" "int l = sh_len sh" "take l (sh_buf sh) = t"
    using sds_wfD [OF assms(1,2)] length_sh_text assms(3) by (auto simp: l_def sh_text_def hdr_ok_def)
  have b: "Suc l < length (sh_buf sh)" "sh_len sh + sh_free sh \<le> INT_MAX"
    using s(2,3) assms(4) by (auto simp: hdr_ok_def)
  define b where "b = (sh_buf sh)[l := c]"
  have "take (Suc l) b = t @ [c]"
    using b(1) s(4) by (simp add: b_def take_Suc_conv_app_nth)
  then have "in_place h s sh \<lparr>sh_len = int (Suc l), sh_free = sh_len sh + sh_free sh - int (Suc l), sh_buf = b[Suc l := NUL]\<rparr> (t @ [c])"
    using b(1) by (intro in_place_set [OF s(2)]) (simp_all add: b_def)
  moreover have "put_char l c (sh_buf sh) = Some b" "put_char (Suc l) NUL b = Some (b[Suc l := NUL])"
    using b(1) by (simp_all add: put_char_def b_def)
  moreover have "int_chk (sh_len sh + 1) = Some (sh_len sh + 1)" "int_chk (sh_free sh - 1) = Some (sh_free sh - 1)"
    "nat (sh_len sh + 1) = Suc l" "0 \<le> sh_len sh"
    using b(2) assms(4) s(3) by (auto simp: int_chk_def int_ok_def INT_MIN_def)
  ultimately show ?thesis
    using s(1,3) assms(4) unfolding l_def [symmetric]
    by (intro exI conjI) (auto simp: sdsIncrLen_def get_sds_def put_sds_def add.commute)
qed

lemma test_room_ok:
  assumes "store_inv h0 ([X \<mapsto> x, Y \<mapsto> y], h) [X \<mapsto> u, Y \<mapsto> r]" "mem (2 + k) h"
  shows "\<exists>x' h'. test_room tc x t h = Some (Returns (fold (\<lambda>l. tc l True)
      [''sdsnew() free/len buffers'', ''sdsMakeRoomFor()'', ''sdsIncrLen() -- content'', ''sdsIncrLen() -- len'',
       ''sdsIncrLen() -- free''] t, h')) \<and>
    store_inv h0 ([X \<mapsto> x', Y \<mapsto> y], h') [X \<mapsto> ''01'', Y \<mapsto> r]"
proof -
  have upd: "[X \<mapsto> a, Y \<mapsto> b](X := None, X \<mapsto> c) = [X \<mapsto> c, Y \<mapsto> b]" "[X \<mapsto> a, Y \<mapsto> b](X \<mapsto> c) = [X \<mapsto> c, Y \<mapsto> b]" for a b c
    by auto
  have m: "mem (Suc (Suc k)) h"
    using assms(2) by (simp add: eval_nat_numeral)
  obtain h1 where 1: "sdsfree x h = Some h1" "store_inv h0 ([X \<mapsto> x, Y \<mapsto> y](X := None), h1) ([X \<mapsto> u, Y \<mapsto> r](X := None))" "mem (Suc (Suc k)) h1"
    using run_free [OF assms(1) _ m, where v = X and s = x] by auto
  obtain x2 h2 where 2: "sdsnew (Some ''0'') h1 = Some (x2, h2)" "store_inv h0 ([X \<mapsto> x2, Y \<mapsto> y], h2) [X \<mapsto> ''0'', Y \<mapsto> r]" "mem (Suc k) h2"
    "strs h2 x2 = Some \<lparr>sh_len = 1, sh_free = 0, sh_buf = ''0'' @ [NUL]\<rparr>"
    by (rule run_new [OF 1(2) _ 1(3), where v = X and t = "''0''", unfolded upd]) (simp_all add: sds_limit_def)
  have wf2: "sds_wf h2"
    using store_invD(3) [OF 2(2)] .
  obtain x3 h3 sh where 3: "sdsMakeRoomFor x2 1 h2 = Some (x3, h3)" "moved h2 x2 x3 h3 ''0''"
    "strs h3 x3 = Some sh" "sh_len sh = 1" "1 \<le> sh_free sh"
    using room_ok [OF wf2 2(4), of 1] mem_SucD(2) [OF 2(3)] by (auto simp: sh_text_def)
  obtain sh0 where "strs h3 x3 = Some sh0" "sh_text sh0 = ''0''"
    by (rule moved_get [OF 3(2)])
  then have wf3: "sds_wf h3" "sh_text sh = ''0''"
    using 3(2,3) by (simp_all add: moved_def)
  have get: "get_sds h3 x3 = Some sh" "get_sds h2 x2 = Some \<lparr>sh_len = 1, sh_free = 0, sh_buf = ''0'' @ [NUL]\<rparr>"
    using sds_wfD(1) [OF wf3(1) 3(3)] sds_wfD(1) [OF wf2 2(4)] by simp_all
  obtain b sh' where 4: "put_char 1 (CHR ''1'') (sh_buf sh) = Some b"
    "sdsIncrLen x3 1 (put_sds x3 (sh\<lparr>sh_buf := b\<rparr>) h3) = Some (Returns (put_sds x3 sh' h3))"
    "in_place h3 x3 sh sh' ''01''" "sh_len sh' = 2" "sh_free sh' = sh_free sh - 1"
    using incr_one [OF wf3(1) 3(3) wf3(2) 3(5), of "CHR ''1''"] 3(4) by auto
  define h4 where "h4 = put_sds x3 sh' h3"
  have s4: "store_inv h0 ([X \<mapsto> x3, Y \<mapsto> y], h4) [X \<mapsto> ''01'', Y \<mapsto> r]"
    using store_inv_moved [OF 2(2) _ moved_in_place [OF 3(2) 4(3)], of X] unfolding upd h4_def by simp
  obtain th where th: "get_sds h4 x3 = Some th" "get_chars 0 2 (sh_buf th) = Some ''01''"
    by (rule text_prefix [OF s4, where v = X and x = x3 and t = "''01''" and n = 2]) auto
  have "th = sh'"
    using th(1) by (simp add: h4_def get_sds_def put_sds_def split: if_splits)
  then have th: "get_sds h4 x3 = Some sh'" "take 2 (sh_buf sh') = ''01''" "1 < length (sh_buf sh')" "0 < length (sh_buf sh')"
    using th by (auto simp: get_chars_def split: if_splits)
  then have "at (sh_buf sh') 0 = Some (CHR ''0'')" "at (sh_buf sh') 1 = Some (CHR ''1'')"
    using nth_take [of 0 2 "sh_buf sh'"] nth_take [of 1 2 "sh_buf sh'"] by (simp_all add: at_def)
  moreover have "hdr_ok h3 x3 sh"
    using sds_wfD(3) [OF wf3(1) 3(3)] by blast
  then have "int_chk (sh_free sh - 1) = Some (sh_free sh - 1)"
    using 3(5) by (auto simp: hdr_ok_def int_chk_def int_ok_def INT_MIN_def)
  ultimately show ?thesis
    using s4 3(4,5) 4(4,5) th(1) unfolding test_room_def
    by (intro exI conjI) (auto simp: 1(1) 2(1) 3(1) get 4(1) 4(2) h4_def [symmetric] simp del: One_nat_def)
qed

subsection \<open>The whole program\<close>

definition test_labels :: "string list" where
  "test_labels =
     [''Create a string and obtain the length'', ''Create a string with specified length'', ''Strings concatenation'',
      ''sdscpy() against an originally longer string'', ''sdscpy() against an originally shorter string'',
      ''sdscatprintf() seems working in the base case'', ''sdstrim() correctly trims characters'',
      ''sdsrange(...,1,1)'', ''sdsrange(...,1,-1)'', ''sdsrange(...,-2,-1)'', ''sdsrange(...,2,1)'',
      ''sdsrange(...,1,100)'', ''sdsrange(...,100,100)'', ''sdscmp(foo,foa)'', ''sdscmp(bar,bar)'', ''sdscmp(bar,bar)'',
      ''sdscatrepr(...data...)'', ''sdsnew() free/len buffers'', ''sdsMakeRoomFor()'', ''sdsIncrLen() -- content'',
      ''sdsIncrLen() -- len'', ''sdsIncrLen() -- free'']"

text \<open>The requests for memory that are enough, counted in editing operations.\<close>

definition test_allocs :: nat where "test_allocs = op_allocs * 32"

lemma store_inv_start: "sds_wf h \<Longrightarrow> store_inv h (Map.empty, h) Map.empty"
  using grown_refl [of h] by (simp add: store_inv_def rel_fun_def)

lemma sds_test_main_ok:
  assumes "sds_wf h" "roomy test_allocs h"
  shows "\<exists>x y r h'. sds_test_main tc rep t h = Some (Returns (0, rep (fold (\<lambda>l. tc l True) test_labels t), h')) \<and>
    store_inv h ([X \<mapsto> x, Y \<mapsto> y], h') [X \<mapsto> ''01'', Y \<mapsto> r]"
proof -
  have m: "mem (5 + 27) h"
    using assms(2) by (simp add: test_allocs_def)
  obtain t1 h1 where 1: "test_create tc t h = Some (t1, h1)" "store_inv h (Map.empty, h1) (Map.empty :: var \<Rightarrow> string option)" "mem (2 + 25) h1"
    "t1 = fold (\<lambda>l. tc l True) (take 5 test_labels) t"
    using test_create_ok [OF store_inv_start [OF assms(1)] m, of tc t] by (auto simp: test_labels_def)
  obtain h2 where 2: "test_printf tc t1 h1 = Some (tc ''sdscatprintf() seems working in the base case'' True t1, h2)"
    "store_inv h (Map.empty, h2) (Map.empty :: var \<Rightarrow> string option)" "mem (14 + 11) h2"
    using test_printf_ok [OF 1(2,3), of tc t1] by auto
  define t2 where "t2 = tc ''sdscatprintf() seems working in the base case'' True t1"
  obtain t3 h3 where 3: "test_trim tc t2 h2 = Some (t3, h3)" "store_inv h (Map.empty, h3) (Map.empty :: var \<Rightarrow> string option)" "mem (2 + 9) h3"
    "t3 = fold (\<lambda>l. tc l True) (take 7 (drop 6 test_labels)) t2"
    using test_trim_ok [OF 2(2,3), of tc t2] by (auto simp: test_labels_def)
  have less: "(''foo'', ''foa'') \<notin> lexord byte_less" "(''aar'', ''bar'') \<in> lexord byte_less" "(''bar'', ''bar'') \<notin> lexord byte_less"
    by (simp_all add: byte_less_def char_code_def)
  obtain h4 where 4: "test_cmp tc ''sdscmp(foo,foa)'' ''foo'' ''foa'' (\<lambda>r. r > 0) t3 h3 = Some (tc ''sdscmp(foo,foa)'' True t3, h4)"
    "store_inv h (Map.empty, h4) (Map.empty :: var \<Rightarrow> string option)" "mem (2 + 7) h4"
    using test_cmp_ok [OF 3(2,3), of "''foo''" "''foa''" "\<lambda>r. r > 0" tc "''sdscmp(foo,foa)''" t3] less by (auto simp: sds_limit_def)
  define t4 where "t4 = tc ''sdscmp(foo,foa)'' True t3"
  obtain h5 where 5: "test_cmp tc ''sdscmp(bar,bar)'' ''bar'' ''bar'' (\<lambda>r. r = 0) t4 h4 = Some (tc ''sdscmp(bar,bar)'' True t4, h5)"
    "store_inv h (Map.empty, h5) (Map.empty :: var \<Rightarrow> string option)" "mem (2 + 5) h5"
    using test_cmp_ok [OF 4(2,3), of "''bar''" "''bar''" "\<lambda>r. r = 0" tc "''sdscmp(bar,bar)''" t4] by (auto simp: sds_limit_def)
  define t5 where "t5 = tc ''sdscmp(bar,bar)'' True t4"
  obtain h6 where 6: "test_cmp tc ''sdscmp(bar,bar)'' ''aar'' ''bar'' (\<lambda>r. r < 0) t5 h5 = Some (tc ''sdscmp(bar,bar)'' True t5, h6)"
    "store_inv h (Map.empty, h6) (Map.empty :: var \<Rightarrow> string option)" "mem (3 + 2) h6"
    using test_cmp_ok [OF 5(2,3), of "''aar''" "''bar''" "\<lambda>r. r < 0" tc "''sdscmp(bar,bar)''" t5] less by (auto simp: sds_limit_def)
  define t6 where "t6 = tc ''sdscmp(bar,bar)'' True t5"
  obtain x y u r h7 where 7: "test_repr tc t6 h6 = Some (x, tc ''sdscatrepr(...data...)'' True t6, h7)"
    "store_inv h ([X \<mapsto> x, Y \<mapsto> y], h7) [X \<mapsto> u, Y \<mapsto> r]" "mem (2 + 0) h7"
    using test_repr_ok [OF 6(2,3), of tc t6] by auto
  obtain x' t8 h8 where 8: "test_room tc x (tc ''sdscatrepr(...data...)'' True t6) h7 = Some (Returns (t8, h8))"
    "store_inv h ([X \<mapsto> x', Y \<mapsto> y], h8) [X \<mapsto> ''01'', Y \<mapsto> r]"
    "t8 = fold (\<lambda>l. tc l True) (drop 17 test_labels) (tc ''sdscatrepr(...data...)'' True t6)"
    using test_room_ok [OF 7(2,3), of tc "tc ''sdscatrepr(...data...)'' True t6"] by (auto simp: test_labels_def)
  have "t8 = fold (\<lambda>l. tc l True) test_labels t"
    unfolding 8(3) t6_def t5_def t4_def 3(4) t2_def 1(4) by (simp add: test_labels_def)
  moreover have "sds_test_main tc rep t h = Some (Returns (0, rep t8, h8))"
    unfolding sds_test_main_def
    by (simp add: 1(1) 2(1) t2_def [symmetric] 3(1) 4(1) t4_def [symmetric] 5(1) t5_def [symmetric] 6(1) t6_def [symmetric] 7(1) 8(1))
  ultimately show ?thesis
    using 8(2) by blast
qed

text \<open>
  Property (C30): with memory for its requests, the test program of the strings runs to its
  end without undefined behaviour and without an abort, whatever \<open>test_cond\<close> and \<open>test_report\<close> do with the
  state of the test framework; every one of the 22 conditions that it hands to \<open>test_cond\<close> holds, in the order of the
  source, and it returns 0. When it ends, two strings that it never frees are all that the heap has more than at the start.
\<close>

theorem sds_selftest:
  assumes "sds_wf h" "roomy test_allocs h"
  shows "\<exists>x y h'. sds_test_main tc rep t h = Some (Returns (0, rep (fold (\<lambda>l. tc l True) test_labels t), h')) \<and>
    sds_wf h' \<and> x \<noteq> y \<and> strs h x = None \<and> strs h y = None \<and> strs h' x \<noteq> None \<and> strs h' y \<noteq> None \<and>
    sds_text h' x = ''01'' \<and>
    (\<forall>s. s \<noteq> x \<longrightarrow> s \<noteq> y \<longrightarrow>
      strs h' s = strs h s \<and> block_size h' (s - sizeof_hdr) = block_size h (s - sizeof_hdr))"
proof -
  obtain x y r h' where 1: "sds_test_main tc rep t h = Some (Returns (0, rep (fold (\<lambda>l. tc l True) test_labels t), h'))"
    "store_inv h ([X \<mapsto> x, Y \<mapsto> y], h') [X \<mapsto> ''01'', Y \<mapsto> r]"
    using sds_test_main_ok [OF assms, of tc rep t] by blast
  have r: "ran [X \<mapsto> x, Y \<mapsto> y] = {x, y}"
    by (auto simp: ran_def)
  note g = store_invD(1) [OF 1(2), unfolded r]
  have "x \<noteq> y"
    using store_invD(6) [OF 1(2), of X x Y] by auto
  moreover have "sds_text h' x = ''01''"
    using store_invD(5) [OF 1(2), of X x "''01''"] sds_text_get [OF store_invD(3) [OF 1(2)]] by (auto simp: has_text_def)
  moreover have "strs h' s = strs h s \<and> block_size h' (s - sizeof_hdr) = block_size h (s - sizeof_hdr)"
    if "s \<noteq> x" "s \<noteq> y" for s
    using grown_strs(2) [OF g] g that by (simp add: grown_def)
  moreover have "strs h' x \<noteq> None" "strs h x = None" "strs h' y \<noteq> None" "strs h y = None"
    using grown_strs(1) [OF g] by simp_all
  ultimately show ?thesis
    using 1(1) store_invD(3) [OF 1(2)] by blast
qed

theorem sds_selftest_witness:
  "\<exists>h'. sds_test_main (\<lambda>l b n. if b then n + 1 else n) (\<lambda>n. n) (0 :: nat) (sds_start test_allocs) = Some (Returns (0, 22, h'))"
proof -
  have "sds_wf (sds_start test_allocs)" "roomy test_allocs (sds_start test_allocs)"
    using sds_start_ok [of test_allocs] by (simp_all add: test_allocs_def op_allocs_def)
  from sds_selftest [OF this, of "\<lambda>l b n. if b then n + 1 else n" "\<lambda>n. n" "0 :: nat"] show ?thesis
    by (auto simp: test_labels_def)
qed

end
