(* ===== verification/Nc_Rbtree.thy ===== *)
theory Nc_Rbtree
  imports Prelude
begin

text \<open>
  \<open>nc_rbtree.h\<close> and \<open>nc_rbtree.c\<close>: an intrusive red-black tree. The caller owns the nodes; the library
  links them by their \<open>left\<close>, \<open>right\<close> and \<open>parent\<close> fields, with one sentinel node in the place of every
  missing child. The typed stores \<open>rnodes\<close> and \<open>rtrees\<close> hold the nodes and the tree headers under their
  addresses; access to an address without a node, the null pointer among them, is undefined. The
  functions that take \<open>struct nc_rbnode **root\<close> are passed \<open>&tree->root\<close> by all their callers and take
  the address of the tree here. A key is the integer it denotes: the code only compares keys.
\<close>

subsection \<open>State\<close>

record nc_rbnode =
  left :: addr
  right :: addr
  parent :: addr
  key :: int
  data :: addr
  color :: u_char

record nc_rbtree =
  root :: addr
  sentinel :: addr

record rb_heap =
  rnodes :: "addr \<Rightarrow> nc_rbnode option"
  rtrees :: "addr \<Rightarrow> nc_rbtree option"

definition get_node :: "rb_heap \<Rightarrow> addr \<Rightarrow> nc_rbnode option" where
  "get_node h a = (if a = NULL then None else rnodes h a)"

definition upd_node :: "addr \<Rightarrow> (nc_rbnode \<Rightarrow> nc_rbnode) \<Rightarrow> rb_heap \<Rightarrow> rb_heap option" where
  "upd_node a f h = do { n \<leftarrow> get_node h a; Some (h\<lparr>rnodes := (rnodes h)(a \<mapsto> f n)\<rparr>) }"

abbreviation set_left :: "addr \<Rightarrow> addr \<Rightarrow> rb_heap \<Rightarrow> rb_heap option" where
  "set_left a x \<equiv> upd_node a (\<lambda>n. n\<lparr>left := x\<rparr>)"

abbreviation set_right :: "addr \<Rightarrow> addr \<Rightarrow> rb_heap \<Rightarrow> rb_heap option" where
  "set_right a x \<equiv> upd_node a (\<lambda>n. n\<lparr>right := x\<rparr>)"

abbreviation set_parent :: "addr \<Rightarrow> addr \<Rightarrow> rb_heap \<Rightarrow> rb_heap option" where
  "set_parent a x \<equiv> upd_node a (\<lambda>n. n\<lparr>parent := x\<rparr>)"

definition get_root :: "addr \<Rightarrow> rb_heap \<Rightarrow> addr option" where
  "get_root tree h = map_option root (rtrees h tree)"

definition set_root :: "addr \<Rightarrow> addr \<Rightarrow> rb_heap \<Rightarrow> rb_heap option" where
  "set_root tree x h = do { t \<leftarrow> rtrees h tree; Some (h\<lparr>rtrees := (rtrees h)(tree \<mapsto> t\<lparr>root := x\<rparr>)\<rparr>) }"

subsection \<open>Colours\<close>

definition rbtree_red :: "addr \<Rightarrow> rb_heap \<Rightarrow> rb_heap option" where
  "rbtree_red a h = upd_node a (\<lambda>n. n\<lparr>color := 1\<rparr>) h"

definition rbtree_black :: "addr \<Rightarrow> rb_heap \<Rightarrow> rb_heap option" where
  "rbtree_black a h = upd_node a (\<lambda>n. n\<lparr>color := 0\<rparr>) h"

definition rbtree_is_red :: "addr \<Rightarrow> rb_heap \<Rightarrow> bool option" where
  "rbtree_is_red a h = do { n \<leftarrow> get_node h a; Some (color n \<noteq> 0) }"

definition rbtree_is_black :: "addr \<Rightarrow> rb_heap \<Rightarrow> bool option" where
  "rbtree_is_black a h = do { r \<leftarrow> rbtree_is_red a h; Some (\<not> r) }"

definition rbtree_copy_color :: "addr \<Rightarrow> addr \<Rightarrow> rb_heap \<Rightarrow> rb_heap option" where
  "rbtree_copy_color a b h = do { n \<leftarrow> get_node h b; upd_node a (\<lambda>m. m\<lparr>color := color n\<rparr>) h }"

subsection \<open>Initialisation and minimum\<close>

definition nc_rbtree_node_init :: "addr \<Rightarrow> rb_heap \<Rightarrow> rb_heap option" where
  "nc_rbtree_node_init node h =
     upd_node node (\<lambda>n. n\<lparr>left := NULL, right := NULL, parent := NULL, key := 0, data := NULL\<rparr>) h"

definition nc_rbtree_init :: "addr \<Rightarrow> addr \<Rightarrow> rb_heap \<Rightarrow> rb_heap option" where
  "nc_rbtree_init tree node h = do {
     h \<leftarrow> nc_rbtree_node_init node h;
     h \<leftarrow> rbtree_black node h;
     require (rtrees h tree \<noteq> None);
     Some (h\<lparr>rtrees := (rtrees h)(tree \<mapsto> \<lparr>root = node, sentinel = node\<rparr>)\<rparr>)
   }"

partial_function (option) rbtree_node_min :: "addr \<Rightarrow> addr \<Rightarrow> rb_heap \<Rightarrow> addr option" where
  "rbtree_node_min node sen h =
     Option.bind (get_node h node) (\<lambda>n. if left n \<noteq> sen then rbtree_node_min (left n) sen h else Some node)"

definition nc_rbtree_min :: "addr \<Rightarrow> rb_heap \<Rightarrow> addr option" where
  "nc_rbtree_min tree h = do {
     t \<leftarrow> rtrees h tree;
     if root t = sentinel t then Some NULL else rbtree_node_min (root t) (sentinel t) h
   }"

subsection \<open>Rotations\<close>

definition rbtree_left_rotate :: "addr \<Rightarrow> addr \<Rightarrow> addr \<Rightarrow> rb_heap \<Rightarrow> rb_heap option" where
  "rbtree_left_rotate tree sen node h = do {
     n \<leftarrow> get_node h node;
     let temp = right n;
     t \<leftarrow> get_node h temp;
     h \<leftarrow> set_right node (left t) h;
     t \<leftarrow> get_node h temp;
     h \<leftarrow> (if left t \<noteq> sen then set_parent (left t) node h else Some h);
     n \<leftarrow> get_node h node;
     h \<leftarrow> set_parent temp (parent n) h;
     r \<leftarrow> get_root tree h;
     h \<leftarrow> (if node = r then set_root tree temp h
          else do {
            n \<leftarrow> get_node h node;
            p \<leftarrow> get_node h (parent n);
            if node = left p then set_left (parent n) temp h else set_right (parent n) temp h
          });
     h \<leftarrow> set_left temp node h;
     set_parent node temp h
   }"

definition rbtree_right_rotate :: "addr \<Rightarrow> addr \<Rightarrow> addr \<Rightarrow> rb_heap \<Rightarrow> rb_heap option" where
  "rbtree_right_rotate tree sen node h = do {
     n \<leftarrow> get_node h node;
     let temp = left n;
     t \<leftarrow> get_node h temp;
     h \<leftarrow> set_left node (right t) h;
     t \<leftarrow> get_node h temp;
     h \<leftarrow> (if right t \<noteq> sen then set_parent (right t) node h else Some h);
     n \<leftarrow> get_node h node;
     h \<leftarrow> set_parent temp (parent n) h;
     r \<leftarrow> get_root tree h;
     h \<leftarrow> (if node = r then set_root tree temp h
          else do {
            n \<leftarrow> get_node h node;
            p \<leftarrow> get_node h (parent n);
            if node = right p then set_right (parent n) temp h else set_left (parent n) temp h
          });
     h \<leftarrow> set_right temp node h;
     set_parent node temp h
   }"

subsection \<open>Insertion\<close>

text \<open>The place of the new node: its parent and whether it becomes the left child.\<close>

partial_function (option) descend :: "addr \<Rightarrow> int \<Rightarrow> addr \<Rightarrow> rb_heap \<Rightarrow> (addr \<times> bool) option" where
  "descend sen k temp h =
     Option.bind (get_node h temp) (\<lambda>t.
       if (if k < key t then left t else right t) = sen then Some (temp, k < key t)
       else descend sen k (if k < key t then left t else right t) h)"

text \<open>One round of the loop, for a red parent: the new focus and the new heap.\<close>

definition insert_step :: "addr \<Rightarrow> addr \<Rightarrow> addr \<Rightarrow> rb_heap \<Rightarrow> (addr \<times> rb_heap) option" where
  "insert_step tree sen node h = do {
     n \<leftarrow> get_node h node;
     p \<leftarrow> get_node h (parent n);
     g \<leftarrow> get_node h (parent p);
     if parent n = left g then do {
       let temp = right g;
       red \<leftarrow> rbtree_is_red temp h;
       if red then do {
         h \<leftarrow> rbtree_black (parent n) h;
         h \<leftarrow> rbtree_black temp h;
         h \<leftarrow> rbtree_red (parent p) h;
         Some (parent p, h)
       } else do {
         (node, h) \<leftarrow> (if node = right p then do {
                         h \<leftarrow> rbtree_left_rotate tree sen (parent n) h;
                         Some (parent n, h)
                       } else Some (node, h));
         n \<leftarrow> get_node h node;
         h \<leftarrow> rbtree_black (parent n) h;
         p \<leftarrow> get_node h (parent n);
         h \<leftarrow> rbtree_red (parent p) h;
         h \<leftarrow> rbtree_right_rotate tree sen (parent p) h;
         Some (node, h)
       }
     } else do {
       let temp = left g;
       red \<leftarrow> rbtree_is_red temp h;
       if red then do {
         h \<leftarrow> rbtree_black (parent n) h;
         h \<leftarrow> rbtree_black temp h;
         h \<leftarrow> rbtree_red (parent p) h;
         Some (parent p, h)
       } else do {
         (node, h) \<leftarrow> (if node = left p then do {
                         h \<leftarrow> rbtree_right_rotate tree sen (parent n) h;
                         Some (parent n, h)
                       } else Some (node, h));
         n \<leftarrow> get_node h node;
         h \<leftarrow> rbtree_black (parent n) h;
         p \<leftarrow> get_node h (parent n);
         h \<leftarrow> rbtree_red (parent p) h;
         h \<leftarrow> rbtree_left_rotate tree sen (parent p) h;
         Some (node, h)
       }
     }
   }"

text \<open>\<open>node != *root && rbtree_is_red (node->parent)\<close>\<close>

definition insert_cond :: "addr \<Rightarrow> addr \<Rightarrow> rb_heap \<Rightarrow> bool option" where
  "insert_cond tree node h = do {
     r \<leftarrow> get_root tree h;
     if node = r then Some False
     else do { n \<leftarrow> get_node h node; rbtree_is_red (parent n) h }
   }"

partial_function (option) insert_fixup :: "addr \<Rightarrow> addr \<Rightarrow> addr \<Rightarrow> rb_heap \<Rightarrow> rb_heap option" where
  "insert_fixup tree sen node h =
     Option.bind (insert_cond tree node h) (\<lambda>b.
       if b then Option.bind (insert_step tree sen node h) (\<lambda>(node, h). insert_fixup tree sen node h)
       else Some h)"

definition nc_rbtree_insert :: "addr \<Rightarrow> addr \<Rightarrow> rb_heap \<Rightarrow> rb_heap option" where
  "nc_rbtree_insert tree node h = do {
     t \<leftarrow> rtrees h tree;
     let sen = sentinel t;
     if root t = sen then do {
       h \<leftarrow> set_parent node NULL h;
       h \<leftarrow> set_left node sen h;
       h \<leftarrow> set_right node sen h;
       h \<leftarrow> rbtree_black node h;
       set_root tree node h
     } else do {
       n \<leftarrow> get_node h node;
       (temp, goleft) \<leftarrow> descend sen (key n) (root t) h;
       h \<leftarrow> (if goleft then set_left temp node h else set_right temp node h);
       h \<leftarrow> set_parent node temp h;
       h \<leftarrow> set_left node sen h;
       h \<leftarrow> set_right node sen h;
       h \<leftarrow> rbtree_red node h;
       h \<leftarrow> insert_fixup tree sen node h;
       r \<leftarrow> get_root tree h;
       rbtree_black r h
     }
   }"

subsection \<open>Deletion\<close>

text \<open>\<open>subst\<close> takes the place of \<open>node\<close>, with its links and its colour.\<close>

definition delete_replace :: "addr \<Rightarrow> addr \<Rightarrow> addr \<Rightarrow> addr \<Rightarrow> addr \<Rightarrow> rb_heap \<Rightarrow> rb_heap option" where
  "delete_replace tree sen node subst temp h = do {
     s \<leftarrow> get_node h subst;
     h \<leftarrow> (if parent s = node then set_parent temp subst h else set_parent temp (parent s) h);
     n \<leftarrow> get_node h node;
     h \<leftarrow> set_left subst (left n) h;
     h \<leftarrow> set_right subst (right n) h;
     h \<leftarrow> set_parent subst (parent n) h;
     h \<leftarrow> rbtree_copy_color subst node h;
     r \<leftarrow> get_root tree h;
     h \<leftarrow> (if node = r then set_root tree subst h
          else do {
            p \<leftarrow> get_node h (parent n);
            if node = left p then set_left (parent n) subst h else set_right (parent n) subst h
          });
     s \<leftarrow> get_node h subst;
     h \<leftarrow> (if left s \<noteq> sen then set_parent (left s) subst h else Some h);
     if right s \<noteq> sen then set_parent (right s) subst h else Some h
   }"

text \<open>One round of the loop, for a black \<open>temp\<close> below the root; \<open>temp->parent\<close> is read wherever the code reads it.\<close>

definition get_parent :: "addr \<Rightarrow> rb_heap \<Rightarrow> addr option" where
  "get_parent a h = do { n \<leftarrow> get_node h a; Some (parent n) }"

definition delete_step :: "addr \<Rightarrow> addr \<Rightarrow> addr \<Rightarrow> rb_heap \<Rightarrow> (addr \<times> rb_heap) option" where
  "delete_step tree sen temp h = do {
     tp \<leftarrow> get_parent temp h;
     p \<leftarrow> get_node h tp;
     if temp = left p then do {
       let w = right p;
       red \<leftarrow> rbtree_is_red w h;
       (w, h) \<leftarrow> (if red then do {
                    h \<leftarrow> rbtree_black w h;
                    tp \<leftarrow> get_parent temp h;
                    h \<leftarrow> rbtree_red tp h;
                    tp \<leftarrow> get_parent temp h;
                    h \<leftarrow> rbtree_left_rotate tree sen tp h;
                    tp \<leftarrow> get_parent temp h;
                    p \<leftarrow> get_node h tp;
                    Some (right p, h)
                  } else Some (w, h));
       wn \<leftarrow> get_node h w;
       lb \<leftarrow> rbtree_is_black (left wn) h;
       both \<leftarrow> (if lb then rbtree_is_black (right wn) h else Some False);
       if both then do {
         h \<leftarrow> rbtree_red w h;
         tp \<leftarrow> get_parent temp h;
         Some (tp, h)
       } else do {
         b \<leftarrow> rbtree_is_black (right wn) h;
         (w, h) \<leftarrow> (if b then do {
                      h \<leftarrow> rbtree_black (left wn) h;
                      h \<leftarrow> rbtree_red w h;
                      h \<leftarrow> rbtree_right_rotate tree sen w h;
                      tp \<leftarrow> get_parent temp h;
                      p \<leftarrow> get_node h tp;
                      Some (right p, h)
                    } else Some (w, h));
         tp \<leftarrow> get_parent temp h;
         h \<leftarrow> rbtree_copy_color w tp h;
         tp \<leftarrow> get_parent temp h;
         h \<leftarrow> rbtree_black tp h;
         wn \<leftarrow> get_node h w;
         h \<leftarrow> rbtree_black (right wn) h;
         tp \<leftarrow> get_parent temp h;
         h \<leftarrow> rbtree_left_rotate tree sen tp h;
         r \<leftarrow> get_root tree h;
         Some (r, h)
       }
     } else do {
       let w = left p;
       red \<leftarrow> rbtree_is_red w h;
       (w, h) \<leftarrow> (if red then do {
                    h \<leftarrow> rbtree_black w h;
                    tp \<leftarrow> get_parent temp h;
                    h \<leftarrow> rbtree_red tp h;
                    tp \<leftarrow> get_parent temp h;
                    h \<leftarrow> rbtree_right_rotate tree sen tp h;
                    tp \<leftarrow> get_parent temp h;
                    p \<leftarrow> get_node h tp;
                    Some (left p, h)
                  } else Some (w, h));
       wn \<leftarrow> get_node h w;
       lb \<leftarrow> rbtree_is_black (left wn) h;
       both \<leftarrow> (if lb then rbtree_is_black (right wn) h else Some False);
       if both then do {
         h \<leftarrow> rbtree_red w h;
         tp \<leftarrow> get_parent temp h;
         Some (tp, h)
       } else do {
         b \<leftarrow> rbtree_is_black (left wn) h;
         (w, h) \<leftarrow> (if b then do {
                      h \<leftarrow> rbtree_black (right wn) h;
                      h \<leftarrow> rbtree_red w h;
                      h \<leftarrow> rbtree_left_rotate tree sen w h;
                      tp \<leftarrow> get_parent temp h;
                      p \<leftarrow> get_node h tp;
                      Some (left p, h)
                    } else Some (w, h));
         tp \<leftarrow> get_parent temp h;
         h \<leftarrow> rbtree_copy_color w tp h;
         tp \<leftarrow> get_parent temp h;
         h \<leftarrow> rbtree_black tp h;
         wn \<leftarrow> get_node h w;
         h \<leftarrow> rbtree_black (left wn) h;
         tp \<leftarrow> get_parent temp h;
         h \<leftarrow> rbtree_right_rotate tree sen tp h;
         r \<leftarrow> get_root tree h;
         Some (r, h)
       }
     }
   }"

definition delete_cond :: "addr \<Rightarrow> addr \<Rightarrow> rb_heap \<Rightarrow> bool option" where
  "delete_cond tree temp h = do {
     r \<leftarrow> get_root tree h;
     if temp = r then Some False else rbtree_is_black temp h
   }"

partial_function (option) delete_fixup :: "addr \<Rightarrow> addr \<Rightarrow> addr \<Rightarrow> rb_heap \<Rightarrow> (addr \<times> rb_heap) option" where
  "delete_fixup tree sen temp h =
     Option.bind (delete_cond tree temp h) (\<lambda>b.
       if b then Option.bind (delete_step tree sen temp h) (\<lambda>(temp, h). delete_fixup tree sen temp h)
       else Some (temp, h))"

text \<open>The node that leaves its place and the child that fills it.\<close>

definition delete_choose :: "addr \<Rightarrow> addr \<Rightarrow> rb_heap \<Rightarrow> (addr \<times> addr) option" where
  "delete_choose sen node h = do {
     n \<leftarrow> get_node h node;
     if left n = sen then Some (node, right n)
     else if right n = sen then Some (node, left n)
     else do {
       subst \<leftarrow> rbtree_node_min (right n) sen h;
       s \<leftarrow> get_node h subst;
       Some (subst, right s)
     }
   }"

definition nc_rbtree_delete :: "addr \<Rightarrow> addr \<Rightarrow> rb_heap \<Rightarrow> rb_heap option" where
  "nc_rbtree_delete tree node h = do {
     t \<leftarrow> rtrees h tree;
     let sen = sentinel t;
     (subst, temp) \<leftarrow> delete_choose sen node h;
     if subst = root t then do {
       h \<leftarrow> set_root tree temp h;
       h \<leftarrow> rbtree_black temp h;
       nc_rbtree_node_init node h
     } else do {
       s \<leftarrow> get_node h subst;
       red \<leftarrow> rbtree_is_red subst h;
       p \<leftarrow> get_node h (parent s);
       h \<leftarrow> (if subst = left p then set_left (parent s) temp h else set_right (parent s) temp h);
       h \<leftarrow> (if subst = node then set_parent temp (parent s) h
            else delete_replace tree sen node subst temp h);
       h \<leftarrow> nc_rbtree_node_init node h;
       if red then Some h
       else do {
         (temp, h) \<leftarrow> delete_fixup tree sen temp h;
         rbtree_black temp h
       }
     }
   }"

end
