(* ===== verification/Rb_Tree.thy ===== *)
theory Rb_Tree
  imports Prelude "HOL-Library.Multiset"
begin

text \<open>
  Red-black trees as values: every node carries the address, the key and the data of the node that
  it stands for. A position in a tree is a list of frames, innermost first, which is how the loops of
  the library climb from a node to the root. \<open>ins_fix\<close> and \<open>del_fix\<close> are the two rebalancing loops
  on positions; they keep the order of the entries and restore the red-black invariant.
\<close>

subsection \<open>Trees and positions\<close>

type_synonym entry = "addr \<times> int \<times> addr"

abbreviation adr :: "entry \<Rightarrow> addr" where "adr e \<equiv> fst e"
abbreviation ekey :: "entry \<Rightarrow> int" where "ekey e \<equiv> fst (snd e)"

datatype rt = Lf | Nd u_char rt entry rt

datatype frame = FL u_char entry rt | FR u_char rt entry

fun plug :: "frame list \<Rightarrow> rt \<Rightarrow> rt" where
  "plug [] t = t"
| "plug (FL c e r # cs) t = plug cs (Nd c t e r)"
| "plug (FR c l e # cs) t = plug cs (Nd c l e t)"

fun inorder :: "rt \<Rightarrow> entry list" where
  "inorder Lf = []"
| "inorder (Nd c l e r) = inorder l @ [e] @ inorder r"

text \<open>The entries in front of a position and behind it.\<close>

fun before :: "frame list \<Rightarrow> entry list" where
  "before [] = []"
| "before (FL c e r # cs) = before cs"
| "before (FR c l e # cs) = before cs @ inorder l @ [e]"

fun behind :: "frame list \<Rightarrow> entry list" where
  "behind [] = []"
| "behind (FL c e r # cs) = e # inorder r @ behind cs"
| "behind (FR c l e # cs) = behind cs"

lemma inorder_plug: "inorder (plug cs t) = before cs @ inorder t @ behind cs"
  by (induction cs t rule: plug.induct) simp_all

lemma plug_append: "plug (ms @ cs) t = plug cs (plug ms t)"
  by (induction ms t rule: plug.induct) simp_all

lemma before_append: "before (ms @ cs) = before cs @ before ms"
  by (induction ms rule: before.induct) simp_all

lemma behind_append: "behind (ms @ cs) = behind ms @ behind cs"
  by (induction ms rule: behind.induct) simp_all

fun paint :: "u_char \<Rightarrow> rt \<Rightarrow> rt" where
  "paint c Lf = Lf"
| "paint c (Nd _ l e r) = Nd c l e r"

lemma inorder_paint [simp]: "inorder (paint c t) = inorder t"
  by (cases t) simp_all

fun is_red :: "rt \<Rightarrow> bool" where
  "is_red Lf = False"
| "is_red (Nd c l e r) = (c \<noteq> 0)"

subsection \<open>The invariant\<close>

fun bheight :: "rt \<Rightarrow> nat" where
  "bheight Lf = 0"
| "bheight (Nd c l e r) = bheight l + (if c = 0 then 1 else 0)"

fun invc :: "rt \<Rightarrow> bool" where
  "invc Lf = True"
| "invc (Nd c l e r) = ((c \<noteq> 0 \<longrightarrow> \<not> is_red l \<and> \<not> is_red r) \<and> invc l \<and> invc r)"

fun invh :: "rt \<Rightarrow> bool" where
  "invh Lf = True"
| "invh (Nd c l e r) = (bheight l = bheight r \<and> invh l \<and> invh r)"

definition rbt :: "rt \<Rightarrow> bool" where
  "rbt t \<longleftrightarrow> invc t \<and> invh t \<and> \<not> is_red t"

text \<open>The same for positions: the colour above the hole, and the black height the hole must have.\<close>

fun fcol :: "frame \<Rightarrow> u_char" where
  "fcol (FL c e r) = c"
| "fcol (FR c l e) = c"

fun black_above :: "frame list \<Rightarrow> bool" where
  "black_above [] = False"
| "black_above (f # cs) = (fcol f = 0)"

fun cinvc :: "frame list \<Rightarrow> bool" where
  "cinvc [] = True"
| "cinvc (FL c e r # cs) = (invc r \<and> (c \<noteq> 0 \<longrightarrow> \<not> is_red r \<and> black_above cs) \<and> cinvc cs)"
| "cinvc (FR c l e # cs) = (invc l \<and> (c \<noteq> 0 \<longrightarrow> \<not> is_red l \<and> black_above cs) \<and> cinvc cs)"

fun cinvh :: "frame list \<Rightarrow> nat \<Rightarrow> bool" where
  "cinvh [] n = True"
| "cinvh (FL c e r # cs) n = (invh r \<and> bheight r = n \<and> cinvh cs (n + (if c = 0 then 1 else 0)))"
| "cinvh (FR c l e # cs) n = (invh l \<and> bheight l = n \<and> cinvh cs (n + (if c = 0 then 1 else 0)))"

lemma rbt_plug:
  "rbt (plug cs t) \<longleftrightarrow> cinvc cs \<and> cinvh cs (bheight t) \<and> invc t \<and> invh t \<and> (is_red t \<longrightarrow> black_above cs)"
  by (induction cs t rule: plug.induct) (auto simp: rbt_def)

lemma rbt_paint: "invc (paint 0 t) \<Longrightarrow> invh t \<Longrightarrow> rbt (paint 0 t)"
  by (cases t) (simp_all add: rbt_def)

lemma invh_paint [simp]: "invh (paint c t) = invh t"
  by (cases t) simp_all

lemma bheight_paint: "bheight (paint 0 t) = bheight t + (if is_red t then 1 else 0)"
  by (cases t) simp_all

lemma is_red_paint [simp]: "\<not> is_red (paint 0 t)"
  by (cases t) simp_all

lemma paint_black: "\<not> is_red t \<Longrightarrow> paint 0 t = t"
  by (cases t) simp_all

lemma invc_paint: "invc t \<Longrightarrow> invc (paint 0 t)"
  by (cases t) simp_all

subsection \<open>Where a key belongs\<close>

fun leaf_pos :: "int \<Rightarrow> rt \<Rightarrow> frame list \<Rightarrow> frame list" where
  "leaf_pos k Lf cs = cs"
| "leaf_pos k (Nd c l e r) cs = (if k < ekey e then leaf_pos k l (FL c e r # cs) else leaf_pos k r (FR c l e # cs))"

lemma plug_leaf_pos: "plug (leaf_pos k t cs) Lf = plug cs t"
  by (induction k t cs rule: leaf_pos.induct) simp_all

definition insort_entry :: "entry \<Rightarrow> entry list \<Rightarrow> entry list" where
  "insort_entry e es = filter (\<lambda>x. ekey x \<le> ekey e) es @ [e] @ filter (\<lambda>x. ekey e < ekey x) es"

lemma leaf_pos_order:
  assumes "sorted (map ekey (inorder (plug cs t)))" "\<forall>x \<in> set (before cs). ekey x \<le> k" "\<forall>x \<in> set (behind cs). k < ekey x"
  shows "(\<forall>x \<in> set (before (leaf_pos k t cs)). ekey x \<le> k) \<and> (\<forall>x \<in> set (behind (leaf_pos k t cs)). k < ekey x)"
  using assms
proof (induction k t cs rule: leaf_pos.induct)
  case (2 k c l e r cs)
  have o: "(\<forall>x \<in> set (inorder l). ekey x \<le> ekey e) \<and> (\<forall>x \<in> set (inorder r). ekey e \<le> ekey x)"
    using 2(3) by (simp add: inorder_plug sorted_append)
  show ?case
  proof (cases "k < ekey e")
    case True
    then have "\<forall>x \<in> set (behind (FL c e r # cs)). k < ekey x"
      using o 2(5) by auto
    then have "(\<forall>x \<in> set (before (leaf_pos k l (FL c e r # cs))). ekey x \<le> k) \<and> (\<forall>x \<in> set (behind (leaf_pos k l (FL c e r # cs))). k < ekey x)"
      using 2(3,4) by (intro 2(1) [OF True]) simp_all
    then show ?thesis
      using True by (simp only: leaf_pos.simps if_True)
  next
    case False
    then have "\<forall>x \<in> set (before (FR c l e # cs)). ekey x \<le> k"
      using o 2(4) by auto
    then have "(\<forall>x \<in> set (before (leaf_pos k r (FR c l e # cs))). ekey x \<le> k) \<and> (\<forall>x \<in> set (behind (leaf_pos k r (FR c l e # cs))). k < ekey x)"
      using 2(3,5) by (intro 2(2) [OF False]) simp_all
    then show ?thesis
      using False by (simp only: leaf_pos.simps if_False)
  qed
qed simp

lemma insort_leaf_pos:
  assumes "sorted (map ekey (inorder t))"
  shows "before (leaf_pos (ekey e) t []) @ [e] @ behind (leaf_pos (ekey e) t []) = insort_entry e (inorder t)"
proof -
  define b r where "b = before (leaf_pos (ekey e) t [])" and "r = behind (leaf_pos (ekey e) t [])"
  have o: "(\<forall>x \<in> set b. ekey x \<le> ekey e) \<and> (\<forall>x \<in> set r. ekey e < ekey x)"
    unfolding b_def r_def by (rule leaf_pos_order) (use assms in simp_all)
  have "inorder t = b @ r"
    using inorder_plug [of "leaf_pos (ekey e) t []" Lf] by (simp add: plug_leaf_pos b_def r_def)
  moreover have "filter (\<lambda>x. ekey x \<le> ekey e) b = b" "filter (\<lambda>x. ekey x \<le> ekey e) r = []"
    "filter (\<lambda>x. ekey e < ekey x) b = []" "filter (\<lambda>x. ekey e < ekey x) r = r"
    using o by (auto simp: filter_id_conv filter_empty_conv)
  ultimately show ?thesis
    by (simp add: insort_entry_def flip: b_def r_def)
qed

lemma sorted_insort_entry: "sorted (map ekey es) \<Longrightarrow> sorted (map ekey (insort_entry e es))"
  by (auto simp: insort_entry_def sorted_append sorted_filter intro: less_imp_le order_trans)

lemma insort_entry_mset: "mset (insort_entry e es) = add_mset e (mset es)"
  using multiset_partition [of "mset es" "\<lambda>x. ekey x \<le> ekey e"]
  by (simp add: insort_entry_def not_le)

lemma set_insort_entry [simp]: "set (insort_entry e es) = insert e (set es)"
  by (auto simp: insort_entry_def)

subsection \<open>Rebalancing after an insertion\<close>

fun ins_fix :: "frame list \<Rightarrow> rt \<Rightarrow> rt" where
  "ins_fix [] t = t"
| "ins_fix [f] t = plug [f] t"
| "ins_fix (FL pc p s # FL gc g u # cs) t =
     (if pc = 0 then plug (FL pc p s # FL gc g u # cs) t
      else if is_red u then ins_fix cs (Nd 1 (Nd 0 t p s) g (paint 0 u))
      else plug cs (Nd 0 t p (Nd 1 s g u)))"
| "ins_fix (FR pc s p # FL gc g u # cs) t =
     (if pc = 0 then plug (FR pc s p # FL gc g u # cs) t
      else if is_red u then ins_fix cs (Nd 1 (Nd 0 s p t) g (paint 0 u))
      else case t of Lf \<Rightarrow> plug (FR pc s p # FL gc g u # cs) t
        | Nd c l x r \<Rightarrow> plug cs (Nd 0 (Nd pc s p l) x (Nd 1 r g u)))"
| "ins_fix (FR pc s p # FR gc u g # cs) t =
     (if pc = 0 then plug (FR pc s p # FR gc u g # cs) t
      else if is_red u then ins_fix cs (Nd 1 (paint 0 u) g (Nd 0 s p t))
      else plug cs (Nd 0 (Nd 1 u g s) p t))"
| "ins_fix (FL pc p s # FR gc u g # cs) t =
     (if pc = 0 then plug (FL pc p s # FR gc u g # cs) t
      else if is_red u then ins_fix cs (Nd 1 (paint 0 u) g (Nd 0 t p s))
      else case t of Lf \<Rightarrow> plug (FL pc p s # FR gc u g # cs) t
        | Nd c l x r \<Rightarrow> plug cs (Nd 0 (Nd 1 u g l) x (Nd pc r p s)))"

lemma inorder_ins_fix: "inorder (ins_fix cs t) = inorder (plug cs t)"
  by (induction cs t rule: ins_fix.induct) (auto simp: inorder_plug split: rt.split frame.split)

text \<open>The round that ends the loop: the parent is black, or the uncle is and the rotations are enough.\<close>

lemma rbt_ins_fix_end:
  assumes "invc t" "invh t" "is_red t" "\<not> (fcol f \<noteq> 0 \<and> is_red u)"
  shows "cinvc (f # FL gc g u # cs) \<Longrightarrow> cinvh (f # FL gc g u # cs) (bheight t) \<Longrightarrow> rbt (ins_fix (f # FL gc g u # cs) t)"
    and "cinvc (f # FR gc u g # cs) \<Longrightarrow> cinvh (f # FR gc u g # cs) (bheight t) \<Longrightarrow> rbt (ins_fix (f # FR gc u g # cs) t)"
proof -
  have "rbt (ins_fix (f # h # cs) t)" if "cinvc (f # h # cs)" "cinvh (f # h # cs) (bheight t)" "h = FL gc g u \<or> h = FR gc u g" for h
  proof (cases "fcol f = 0")
    case True
    then have "ins_fix (f # h # cs) t = plug (f # h # cs) t"
      by (cases f; cases h) simp_all
    then show ?thesis
      using that(1,2) assms(1-3) True by (cases f) (simp_all add: rbt_plug del: plug.simps)
  next
    case False
    then show ?thesis
      using that assms by (cases f; cases t) (auto simp: rbt_plug)
  qed
  then show "cinvc (f # FL gc g u # cs) \<Longrightarrow> cinvh (f # FL gc g u # cs) (bheight t) \<Longrightarrow> rbt (ins_fix (f # FL gc g u # cs) t)"
    "cinvc (f # FR gc u g # cs) \<Longrightarrow> cinvh (f # FR gc u g # cs) (bheight t) \<Longrightarrow> rbt (ins_fix (f # FR gc u g # cs) t)"
    by blast+
qed

lemma rbt_paint_rbt: "rbt t \<Longrightarrow> rbt (paint 0 t)"
  by (simp add: rbt_paint invc_paint rbt_def)

lemma rbt_ins_fix:
  assumes "cinvc cs" "cinvh cs (bheight t)" "invc t" "invh t" "is_red t"
  shows "rbt (paint 0 (ins_fix cs t))"
  using assms
proof (induction cs t rule: ins_fix.induct)
  case (1 t)
  then show ?case
    by (simp add: rbt_paint invc_paint)
next
  case (2 f t)
  then have "rbt (plug [f] t)"
    unfolding rbt_plug by (cases f) auto
  then show ?case
    by (simp add: rbt_paint_rbt)
next
  case (3 pc p s gc g u cs t)
  show ?case
  proof (cases "pc \<noteq> 0 \<and> is_red u")
    case True
    then show ?thesis
      unfolding ins_fix.simps using 3(2-)
      by (simp only: if_True if_False simp_thms, intro 3(1)) (simp_all add: bheight_paint invc_paint)
  next
    case False
    then show ?thesis
      using 3(2-) by (intro rbt_paint_rbt rbt_ins_fix_end(1)) simp_all
  qed
next
  case (4 pc s p gc g u cs t)
  show ?case
  proof (cases "pc \<noteq> 0 \<and> is_red u")
    case True
    then show ?thesis
      unfolding ins_fix.simps using 4(2-)
      by (simp only: if_True if_False simp_thms, intro 4(1)) (simp_all add: bheight_paint invc_paint)
  next
    case False
    then show ?thesis
      using 4(2-) by (intro rbt_paint_rbt rbt_ins_fix_end(1)) simp_all
  qed
next
  case (5 pc s p gc u g cs t)
  show ?case
  proof (cases "pc \<noteq> 0 \<and> is_red u")
    case True
    then show ?thesis
      unfolding ins_fix.simps using 5(2-)
      by (simp only: if_True if_False simp_thms, intro 5(1)) (simp_all add: bheight_paint invc_paint)
  next
    case False
    then show ?thesis
      using 5(2-) by (intro rbt_paint_rbt rbt_ins_fix_end(2)) simp_all
  qed
next
  case (6 pc p s gc u g cs t)
  show ?case
  proof (cases "pc \<noteq> 0 \<and> is_red u")
    case True
    then show ?thesis
      unfolding ins_fix.simps using 6(2-)
      by (simp only: if_True if_False simp_thms, intro 6(1)) (simp_all add: bheight_paint invc_paint)
  next
    case False
    then show ?thesis
      using 6(2-) by (intro rbt_paint_rbt rbt_ins_fix_end(2)) simp_all
  qed
qed

subsection \<open>Rebalancing after a deletion\<close>

text \<open>The last rotations, when the sibling \<open>w\<close> is black and has a red child.\<close>

fun del_endL :: "u_char \<Rightarrow> rt \<Rightarrow> entry \<Rightarrow> rt \<Rightarrow> entry \<Rightarrow> rt \<Rightarrow> rt option" where
  "del_endL pc t p wl w wr =
     (if is_red wr then Some (Nd pc (Nd 0 t p wl) w (paint 0 wr))
      else case wl of Lf \<Rightarrow> None | Nd c a x b \<Rightarrow> Some (Nd pc (Nd 0 t p a) x (Nd 0 b w wr)))"

fun del_endR :: "u_char \<Rightarrow> rt \<Rightarrow> entry \<Rightarrow> rt \<Rightarrow> entry \<Rightarrow> rt \<Rightarrow> rt option" where
  "del_endR pc wl w wr p t =
     (if is_red wl then Some (Nd pc (paint 0 wl) w (Nd 0 wr p t))
      else case wr of Lf \<Rightarrow> None | Nd c a x b \<Rightarrow> Some (Nd pc (Nd 0 wl w a) x (Nd 0 b p t)))"

text \<open>
  The subtree at the position is black and one black node too short. A red sibling is rotated up
  first; then the sibling is painted red and the loop climbs, or the last rotations end it.
\<close>

fun del_fix :: "frame list \<Rightarrow> rt \<Rightarrow> rt option" where
  "del_fix [] t = Some (paint 0 t)"
| "del_fix (FL pc p s # cs) t =
     (if is_red t then Some (plug (FL pc p s # cs) (paint 0 t))
      else case s of
        Lf \<Rightarrow> None
      | Nd wc wl w wr \<Rightarrow>
          if wc \<noteq> 0 then
            (case wl of
               Lf \<Rightarrow> None
             | Nd c vl v vr \<Rightarrow>
                 if \<not> is_red vl \<and> \<not> is_red vr
                 then Some (plug cs (Nd 0 (Nd 0 t p (Nd 1 vl v vr)) w wr))
                 else map_option (\<lambda>u. paint 0 (plug cs (Nd 0 u w wr))) (del_endL 1 t p vl v vr))
          else if \<not> is_red wl \<and> \<not> is_red wr then del_fix cs (Nd pc t p (Nd 1 wl w wr))
          else map_option (\<lambda>u. paint 0 (plug cs u)) (del_endL pc t p wl w wr))"
| "del_fix (FR pc s p # cs) t =
     (if is_red t then Some (plug (FR pc s p # cs) (paint 0 t))
      else case s of
        Lf \<Rightarrow> None
      | Nd wc wl w wr \<Rightarrow>
          if wc \<noteq> 0 then
            (case wr of
               Lf \<Rightarrow> None
             | Nd c vl v vr \<Rightarrow>
                 if \<not> is_red vl \<and> \<not> is_red vr
                 then Some (plug cs (Nd 0 wl w (Nd 0 (Nd 1 vl v vr) p t)))
                 else map_option (\<lambda>u. paint 0 (plug cs (Nd 0 wl w u))) (del_endR 1 vl v vr p t))
          else if \<not> is_red wl \<and> \<not> is_red wr then del_fix cs (Nd pc (Nd 1 wl w wr) p t)
          else map_option (\<lambda>u. paint 0 (plug cs u)) (del_endR pc wl w wr p t))"

lemma rbt_painted: "rbt t \<Longrightarrow> rbt (paint 0 t)"
  by (simp add: rbt_def paint_black)

lemma del_endL_ok:
  assumes "is_red wl \<or> is_red wr" "invc t" "invh t" "invc wl" "invc wr" "invh wl" "invh wr"
    "bheight wl = bheight t" "bheight wl = bheight wr"
    "\<not> is_red t"
  shows "\<exists>u. del_endL pc t p wl w wr = Some u \<and> invh u \<and> bheight u = Suc (bheight t) + (if pc = 0 then 1 else 0) \<and>
    invc u \<and> (is_red u \<longleftrightarrow> pc \<noteq> 0) \<and> inorder u = inorder t @ [p] @ inorder wl @ [w] @ inorder wr"
  using assms by (cases wl; cases wr) (auto simp: invc_paint bheight_paint)

lemma del_endR_ok:
  assumes "is_red wl \<or> is_red wr" "invc t" "invh t" "invc wl" "invc wr" "invh wl" "invh wr"
    "bheight wl = bheight t" "bheight wl = bheight wr" "\<not> is_red t"
  shows "\<exists>u. del_endR pc wl w wr p t = Some u \<and> invh u \<and> bheight u = Suc (bheight t) + (if pc = 0 then 1 else 0) \<and>
    invc u \<and> (is_red u \<longleftrightarrow> pc \<noteq> 0) \<and> inorder u = inorder wl @ [w] @ inorder wr @ [p] @ inorder t"
  using assms by (cases wl; cases wr) (auto simp: invc_paint bheight_paint)

text \<open>A subtree that is too short by one black node is made up for, and no sibling is ever missing.\<close>

lemma rbt_plugI:
  "cinvc cs \<Longrightarrow> cinvh cs n \<Longrightarrow> bheight t = n \<Longrightarrow> invc t \<Longrightarrow> invh t \<Longrightarrow> (is_red t \<Longrightarrow> black_above cs) \<Longrightarrow> rbt (paint 0 (plug cs t))"
  by (intro rbt_painted) (auto simp: rbt_plug)

text \<open>What the loop promises at a position: it ends, with a red-black tree of the same entries.\<close>

definition del_ok :: "frame list \<Rightarrow> rt \<Rightarrow> bool" where
  "del_ok cs t \<longleftrightarrow> (\<exists>t'. del_fix cs t = Some t' \<and> rbt t' \<and> inorder t' = inorder (plug cs t))"

text \<open>One round with a black sibling, which may climb, and the round with a red one, which ends the loop.\<close>

lemma del_fix_L_black:
  assumes cs: "cinvc (FL pc p (Nd 0 wl w wr) # cs)" "cinvh (FL pc p (Nd 0 wl w wr) # cs) (Suc (bheight t))"
    and t: "invc t" "invh t" "\<not> is_red t"
    and climb: "\<not> (is_red wl \<or> is_red wr) \<Longrightarrow> del_ok cs (Nd pc t p (Nd 1 wl w wr))"
  shows "del_ok (FL pc p (Nd 0 wl w wr) # cs) t"
proof (cases "is_red wl \<or> is_red wr")
  case red: True
  obtain u where u: "del_endL pc t p wl w wr = Some u" "invh u" "bheight u = Suc (bheight t) + (if pc = 0 then 1 else 0)"
    "invc u" "is_red u \<longleftrightarrow> pc \<noteq> 0" "inorder u = inorder t @ [p] @ inorder wl @ [w] @ inorder wr"
    using del_endL_ok [OF red t(1,2), of pc p w] cs t(3) by auto
  have "rbt (paint 0 (plug cs u))"
    using cs u by (intro rbt_plugI) auto
  then show ?thesis
    using u red t(3) by (auto simp: del_ok_def inorder_plug)
next
  case False
  then show ?thesis
    using climb t(3) by (auto simp: del_ok_def inorder_plug)
qed

lemma del_fix_L_red:
  assumes cs: "cinvc (FL pc p (Nd wc wl w wr) # cs)" "cinvh (FL pc p (Nd wc wl w wr) # cs) (Suc (bheight t))" "wc \<noteq> 0"
    and t: "invc t" "invh t" "\<not> is_red t"
  shows "del_ok (FL pc p (Nd wc wl w wr) # cs) t"
proof -
  have pc: "pc = 0" and s: "\<not> is_red wl" "bheight wl = Suc (bheight t)" "bheight wr = Suc (bheight t)"
    using cs by auto
  then obtain vl v vr where N: "wl = Nd 0 vl v vr"
    by (cases wl) auto
  show ?thesis
  proof (cases "is_red vl \<or> is_red vr")
    case red: True
    obtain u where u: "del_endL 1 t p vl v vr = Some u" "invh u" "bheight u = Suc (bheight t)"
      "invc u" "is_red u" "inorder u = inorder t @ [p] @ inorder vl @ [v] @ inorder vr"
      using del_endL_ok [OF red t(1,2), of 1 p v] cs s t(3) by (auto simp: N)
    have "rbt (paint 0 (plug cs (Nd 0 u w wr)))"
      using cs u pc s by (intro rbt_plugI) (auto simp: N)
    then show ?thesis
      using u red t(3) cs(3) by (auto simp: del_ok_def N inorder_plug)
  next
    case black: False
    then show ?thesis
      using cs t pc s by (auto simp: del_ok_def N inorder_plug rbt_plug)
  qed
qed

lemma del_fix_R_black:
  assumes cs: "cinvc (FR pc (Nd 0 wl w wr) p # cs)" "cinvh (FR pc (Nd 0 wl w wr) p # cs) (Suc (bheight t))"
    and t: "invc t" "invh t" "\<not> is_red t"
    and climb: "\<not> (is_red wl \<or> is_red wr) \<Longrightarrow> del_ok cs (Nd pc (Nd 1 wl w wr) p t)"
  shows "del_ok (FR pc (Nd 0 wl w wr) p # cs) t"
proof (cases "is_red wl \<or> is_red wr")
  case red: True
  obtain u where u: "del_endR pc wl w wr p t = Some u" "invh u" "bheight u = Suc (bheight t) + (if pc = 0 then 1 else 0)"
    "invc u" "is_red u \<longleftrightarrow> pc \<noteq> 0" "inorder u = inorder wl @ [w] @ inorder wr @ [p] @ inorder t"
    using del_endR_ok [OF red t(1,2), of pc w p] cs t(3) by auto
  have "rbt (paint 0 (plug cs u))"
    using cs u by (intro rbt_plugI) auto
  then show ?thesis
    using u red t(3) by (auto simp: del_ok_def inorder_plug)
next
  case False
  then show ?thesis
    using climb t(3) by (auto simp: del_ok_def inorder_plug)
qed

lemma del_fix_R_red:
  assumes cs: "cinvc (FR pc (Nd wc wl w wr) p # cs)" "cinvh (FR pc (Nd wc wl w wr) p # cs) (Suc (bheight t))" "wc \<noteq> 0"
    and t: "invc t" "invh t" "\<not> is_red t"
  shows "del_ok (FR pc (Nd wc wl w wr) p # cs) t"
proof -
  have pc: "pc = 0" and s: "\<not> is_red wr" "bheight wr = Suc (bheight t)" "bheight wl = Suc (bheight t)"
    using cs by auto
  then obtain vl v vr where N: "wr = Nd 0 vl v vr"
    by (cases wr) auto
  show ?thesis
  proof (cases "is_red vl \<or> is_red vr")
    case red: True
    obtain u where u: "del_endR 1 vl v vr p t = Some u" "invh u" "bheight u = Suc (bheight t)"
      "invc u" "is_red u" "inorder u = inorder vl @ [v] @ inorder vr @ [p] @ inorder t"
      using del_endR_ok [OF red t(1,2), of 1 v p] cs s t(3) by (auto simp: N)
    have "rbt (paint 0 (plug cs (Nd 0 wl w u)))"
      using cs u pc s by (intro rbt_plugI) (auto simp: N)
    then show ?thesis
      using u red t(3) cs(3) by (auto simp: del_ok_def N inorder_plug)
  next
    case black: False
    then show ?thesis
      using cs t pc s by (auto simp: del_ok_def N inorder_plug rbt_plug)
  qed
qed

lemma del_ok_red:
  assumes "cinvc (f # cs)" "cinvh (f # cs) (Suc (bheight t))" "invc (paint 0 t)" "invh t" "is_red t"
  shows "del_ok (f # cs) t"
  using assms by (cases f) (simp_all add: del_ok_def rbt_plug bheight_paint inorder_plug del: plug.simps)

lemma del_fix_del_ok:
  assumes "cinvc cs" "cinvh cs (Suc (bheight t))" "invc (paint 0 t)" "invh t"
  shows "del_ok cs t"
  using assms
proof (induction cs t rule: del_fix.induct)
  case (1 t)
  then show ?case
    by (simp add: del_ok_def rbt_paint)
next
  case (2 pc p s cs t)
  show ?case
  proof (cases "is_red t")
    case True
    then show ?thesis
      using 2(2-) by (intro del_ok_red)
  next
    case False
    then have t: "invc t" "invh t" "\<not> is_red t"
      using 2(4,5) by (simp_all add: paint_black)
    obtain wc wl w wr where s: "s = Nd wc wl w wr"
      using 2(3) by (cases s) auto
    show ?thesis
    proof (cases "wc = 0")
      case True
      show ?thesis
        unfolding s True
        by (rule del_fix_L_black [OF 2(2,3) [unfolded s True] t], rule 2(1)) (use s 2(2,3) t True in auto)
    next
      case False
      then show ?thesis
        using del_fix_L_red 2(2,3) t by (simp only: s)
    qed
  qed
next
  case (3 pc s p cs t)
  show ?case
  proof (cases "is_red t")
    case True
    then show ?thesis
      using 3(2-) by (intro del_ok_red)
  next
    case False
    then have t: "invc t" "invh t" "\<not> is_red t"
      using 3(4,5) by (simp_all add: paint_black)
    obtain wc wl w wr where s: "s = Nd wc wl w wr"
      using 3(3) by (cases s) auto
    show ?thesis
    proof (cases "wc = 0")
      case True
      show ?thesis
        unfolding s True
        by (rule del_fix_R_black [OF 3(2,3) [unfolded s True] t], rule 3(1)) (use s 3(2,3) t True in auto)
    next
      case False
      then show ?thesis
        using del_fix_R_red 3(2,3) t by (simp only: s)
    qed
  qed
qed

lemma del_fix_ok:
  assumes "cinvc cs" "cinvh cs (Suc (bheight t))" "invc (paint 0 t)" "invh t"
  shows "\<exists>t'. del_fix cs t = Some t' \<and> rbt t' \<and> inorder t' = inorder (plug cs t)"
  using del_fix_del_ok [OF assms] by (simp add: del_ok_def)

subsection \<open>Balance\<close>

fun blacks :: "frame list \<Rightarrow> nat" where
  "blacks [] = 0"
| "blacks (f # cs) = (if fcol f = 0 then 1 else 0) + blacks cs"

lemma bheight_plug: "cinvh cs (bheight t) \<Longrightarrow> bheight (plug cs t) = bheight t + blacks cs"
  by (induction cs t rule: plug.induct) auto

lemma length_blacks: "cinvc cs \<Longrightarrow> length cs \<le> 2 * blacks cs \<and> (black_above cs \<longrightarrow> length cs < 2 * blacks cs)"
  by (induction cs rule: cinvc.induct) auto

lemma size_bheight: "invh t \<Longrightarrow> 2 ^ bheight t \<le> Suc (length (inorder t))"
proof (induction t)
  case (Nd c l e r)
  then show ?case
    by (cases "c = 0") simp_all
qed simp

text \<open>No node is deeper than twice the logarithm of the size.\<close>

lemma depth_bound:
  assumes "rbt (plug cs t)"
  shows "2 ^ length cs \<le> (Suc (length (inorder (plug cs t)))) ^ 2"
proof -
  have "cinvc cs" "cinvh cs (bheight t)" "invh (plug cs t)"
    using assms rbt_plug [of cs t] by (auto simp: rbt_def)
  then have "length cs \<le> 2 * bheight (plug cs t)"
    using length_blacks [of cs] bheight_plug [of cs t] by simp
  then have "(2::nat) ^ length cs \<le> 2 ^ (2 * bheight (plug cs t))"
    by (simp add: power_increasing)
  also have "\<dots> = (2 ^ bheight (plug cs t)) ^ 2"
    by (simp add: power_mult mult.commute flip: power_mult)
  also have "\<dots> \<le> (Suc (length (inorder (plug cs t)))) ^ 2"
    using size_bheight [OF \<open>invh (plug cs t)\<close>] by (rule power_mono) simp
  finally show ?thesis .
qed

end
