(* ===== verification/Nc_Rbtree_Layout.thy ===== *)
theory Nc_Rbtree_Layout
  imports Nc_Rbtree Rb_Tree
begin

text \<open>
  A tree laid out in memory. \<open>tcells\<close> lists the nodes of a tree with the addresses they live at, and
  \<open>ccells\<close> those of a position; \<open>hp\<close> is the heap that holds a list of cells, a sentinel and a tree
  header over the rest of memory. The operations of the code are equations between such heaps, so a
  function of the library is run on a tree by rewriting. \<open>lay\<close> is the heap that holds a whole tree.
\<close>

named_theorems rb_simps \<open>running the code of the tree on a heap given by its cells\<close>

subsection \<open>Cells\<close>

type_synonym cell = "addr \<times> nc_rbnode"

fun tadr :: "addr \<Rightarrow> rt \<Rightarrow> addr" where
  "tadr s Lf = s"
| "tadr s (Nd c l e r) = adr e"

fun fadr :: "frame \<Rightarrow> addr" where
  "fadr (FL c e r) = adr e"
| "fadr (FR c l e) = adr e"

fun cpar :: "addr \<Rightarrow> frame list \<Rightarrow> addr" where
  "cpar q [] = q"
| "cpar q (f # cs) = fadr f"

fun croot :: "addr \<Rightarrow> frame list \<Rightarrow> addr" where
  "croot x [] = x"
| "croot x (f # cs) = croot (fadr f) cs"

abbreviation node_cell :: "addr \<Rightarrow> addr \<Rightarrow> addr \<Rightarrow> u_char \<Rightarrow> entry \<Rightarrow> cell" where
  "node_cell l r q c e \<equiv>
     (adr e, \<lparr>left = l, right = r, parent = q, key = ekey e, data = snd (snd e), color = c\<rparr>)"

fun tcells :: "addr \<Rightarrow> addr \<Rightarrow> rt \<Rightarrow> cell list" where
  "tcells s q Lf = []"
| "tcells s q (Nd c l e r) = node_cell (tadr s l) (tadr s r) q c e # tcells s (adr e) l @ tcells s (adr e) r"

fun ccells :: "addr \<Rightarrow> addr \<Rightarrow> addr \<Rightarrow> frame list \<Rightarrow> cell list" where
  "ccells s q x [] = []"
| "ccells s q x (FL c e r # cs) =
     node_cell x (tadr s r) (cpar q cs) c e # tcells s (adr e) r @ ccells s q (adr e) cs"
| "ccells s q x (FR c l e # cs) =
     node_cell (tadr s l) x (cpar q cs) c e # tcells s (adr e) l @ ccells s q (adr e) cs"

lemma tadr_plug [simp]: "tadr s (plug cs t) = croot (tadr s t) cs"
  by (induction cs t rule: plug.induct) simp_all

lemma croot_append [simp]: "croot x (ms @ cs) = croot (croot x ms) cs"
  by (induction x ms rule: croot.induct) simp_all

lemma cells_plug:
  "mset (tcells s q (plug cs t)) = mset (tcells s (cpar q cs) t @ ccells s q (tadr s t) cs)"
  by (induction cs t rule: plug.induct) simp_all

lemma ccells_append:
  "ccells s q x (ms @ cs) = ccells s (cpar q cs) x ms @ ccells s q (croot x ms) cs"
proof (induction ms arbitrary: x)
  case (Cons f ms)
  then show ?case
    by (cases f; cases ms) simp_all
qed simp

lemma mset_keys_tcells: "mset (map fst (tcells s q t)) = mset (map adr (inorder t))"
  by (induction s q t rule: tcells.induct) simp_all

lemma mset_keys_ccells: "mset (map fst (ccells s q x cs)) = mset (map adr (before cs @ behind cs))"
proof (induction s q x cs rule: ccells.induct)
  case (2 s q x c e r cs)
  then show ?case
    using mset_keys_tcells [of s "adr e" r] by simp
next
  case (3 s q x c l e cs)
  then show ?case
    using mset_keys_tcells [of s "adr e" l] by simp
qed simp

lemma keys_tcells [simp]: "fst ` set (tcells s q t) = adr ` set (inorder t)"
  using mset_eq_setD [OF mset_keys_tcells [of s q t]] by simp

lemma keys_ccells [simp]: "fst ` set (ccells s q x cs) = adr ` set (before cs) \<union> adr ` set (behind cs)"
  using mset_eq_setD [OF mset_keys_ccells [of s q x cs]] by (simp add: image_Un)

lemma distinct_keys [simp]:
  "distinct (map fst (tcells s q t)) = distinct (map adr (inorder t))"
  "distinct (map fst (ccells s q x cs)) = distinct (map adr (before cs @ behind cs))"
  by (rule mset_eq_imp_distinct_iff, rule mset_keys_tcells) (rule mset_eq_imp_distinct_iff, rule mset_keys_ccells)

text \<open>Addresses that a root or a child cannot have.\<close>

lemma croot_neq [simp]:
  assumes "a \<noteq> x" "a \<notin> adr ` set (before cs)" "a \<notin> adr ` set (behind cs)"
  shows "croot x cs \<noteq> a" "a \<noteq> croot x cs"
  using assms by (induction x cs rule: croot.induct; simp; case_tac f; auto)+

lemma tadr_neq [simp]:
  assumes "a \<noteq> s" "a \<notin> adr ` set (inorder t)"
  shows "tadr s t \<noteq> a" "a \<noteq> tadr s t"
  using assms by (cases t; auto)+

lemma frames_cases:
  obtains "cs = []" | c e r ds where "cs = FL c e r # ds" | c l e ds where "cs = FR c l e # ds"
  by (cases cs rule: before.cases)

subsection \<open>Heaps\<close>

text \<open>The part of the state that no operation looks into, and the fields that surround a tree.\<close>

record setting =
  outer :: rb_heap
  header :: addr
  nil :: addr
  nilrec :: nc_rbnode
  above :: addr

definition hp :: "setting \<Rightarrow> addr \<Rightarrow> cell list \<Rightarrow> rb_heap" where
  "hp w x C = \<lparr>rnodes = (rnodes (outer w) ++ map_of C)(nil w \<mapsto> nilrec w),
     rtrees = (rtrees (outer w))(header w \<mapsto> \<lparr>root = x, sentinel = nil w\<rparr>)\<rparr>"

definition lay :: "setting \<Rightarrow> rt \<Rightarrow> rb_heap" where
  "lay w t = hp w (tadr (nil w) t) (tcells (nil w) (above w) t)"

text \<open>All addresses of a tree are distinct, and neither null nor the sentinel's.\<close>

definition apt :: "setting \<Rightarrow> entry list \<Rightarrow> bool" where
  "apt w es \<longleftrightarrow> distinct (NULL # nil w # map adr es)"

definition cupd :: "addr \<Rightarrow> (nc_rbnode \<Rightarrow> nc_rbnode) \<Rightarrow> cell list \<Rightarrow> cell list" where
  "cupd a f C = map (\<lambda>(b, n). (b, if b = a then f n else n)) C"

lemma cupd_simps [simp]:
  "cupd a f [] = []"
  "cupd a f ((b, n) # C) = (b, if b = a then f n else n) # cupd a f C"
  "cupd a f (C @ D) = cupd a f C @ cupd a f D"
  by (simp_all add: cupd_def)

lemma cupd_other [simp]: "a \<notin> fst ` set C \<Longrightarrow> cupd a f C = C"
  by (induction C) (auto simp: cupd_def)

lemma map_of_cupd: "map_of (cupd a f C) b = (if b = a then map_option f (map_of C b) else map_of C b)"
  by (induction C) auto

definition cget :: "cell list \<Rightarrow> addr \<Rightarrow> nc_rbnode option" where
  "cget C a = map_of C a"

lemma cget_simps [simp]:
  "cget [] a = None"
  "cget ((b, n) # C) a = (if b = a then Some n else cget C a)"
  "a \<notin> fst ` set C \<Longrightarrow> cget (C @ D) a = cget D a"
  "a \<notin> fst ` set C \<Longrightarrow> cget C a = None"
  by (simp_all add: cget_def map_add_def map_of_eq_None_iff [THEN iffD2])

lemma hp_get:
  "a \<noteq> NULL \<Longrightarrow> a \<noteq> nil w \<Longrightarrow> get_node (hp w x C) a =
     (case cget C a of None \<Rightarrow> rnodes (outer w) a | Some n \<Rightarrow> Some n)"
  by (simp add: get_node_def hp_def map_add_def cget_def split: option.split)

lemma hp_get_nil: "nil w \<noteq> NULL \<Longrightarrow> get_node (hp w x C) (nil w) = Some (nilrec w)"
  by (simp add: get_node_def hp_def)

lemma hp_upd:
  assumes "a \<noteq> NULL" "a \<noteq> nil w" "a \<in> fst ` set C"
  shows "upd_node a f (hp w x C) = Some (hp w x (cupd a f C))"
proof -
  obtain n where n: "map_of C a = Some n"
    using assms(3) by (metis map_of_eq_None_iff not_None_eq)
  then have "(rnodes (outer w) ++ map_of C)(nil w \<mapsto> nilrec w, a \<mapsto> f n) = (rnodes (outer w) ++ map_of (cupd a f C))(nil w \<mapsto> nilrec w)"
    using assms(2) by (auto simp: fun_eq_iff map_add_def map_of_cupd split: option.split)
  then show ?thesis
    using assms(1,2) n by (simp add: upd_node_def hp_get cget_def) (simp add: hp_def)
qed

lemma hp_upd_nil:
  "nil w \<noteq> NULL \<Longrightarrow> upd_node (nil w) f (hp w x C) = Some (hp (w\<lparr>nilrec := f (nilrec w)\<rparr>) x C)"
  by (simp add: upd_node_def hp_get_nil) (simp add: hp_def)

lemma hp_root: "get_root (header w) (hp w x C) = Some x"
  by (simp add: get_root_def hp_def)

lemma hp_set_root: "set_root (header w) y (hp w x C) = Some (hp w y C)"
  by (simp add: set_root_def hp_def)

lemma hp_perm:
  assumes "mset C = mset D" "distinct (map fst C)"
  shows "hp w x C = hp w x D"
proof -
  have "mset (map fst C) = mset (map fst D)"
    using assms(1) by simp
  then have "distinct (map fst D)"
    using assms(2) mset_eq_imp_distinct_iff by blast
  then have "map_of C = map_of D"
    using assms map_of_inject_set mset_eq_setD by blast
  then show ?thesis
    by (simp add: hp_def)
qed
subsection \<open>Trees in memory\<close>

lemma apt_keys:
  assumes "mset (map fst C) = mset (map adr es)" "apt w es"
  shows "distinct (map fst C)"
  using assms mset_eq_imp_distinct_iff [OF assms(1)] by (simp add: apt_def)

lemma apt_perm: "mset es = mset es' \<Longrightarrow> apt w es = apt w es'"
  unfolding apt_def using mset_eq_imp_distinct_iff [of "map adr es" "map adr es'"] mset_eq_setD [of es es'] by auto

lemma lay_plug:
  assumes "apt w (inorder (plug cs t))"
  shows "lay w (plug cs t) = hp w (croot (tadr (nil w) t) cs)
    (tcells (nil w) (cpar (above w) cs) t @ ccells (nil w) (above w) (tadr (nil w) t) cs)"
  unfolding lay_def tadr_plug
  by (rule hp_perm [OF cells_plug apt_keys [OF mset_keys_tcells assms]])

lemma lay_node:
  assumes "apt w (inorder (plug cs (Nd c l e r)))"
  shows "get_node (lay w (plug cs (Nd c l e r))) (adr e) =
    Some \<lparr>left = tadr (nil w) l, right = tadr (nil w) r, parent = cpar (above w) cs, key = ekey e, data = snd (snd e), color = c\<rparr>"
  unfolding lay_plug [OF assms] using assms by (auto simp: hp_get inorder_plug apt_def)

lemma cupd_parent:
  "a = tadr s t \<Longrightarrow> t \<noteq> Lf \<Longrightarrow> distinct (map adr (inorder t)) \<Longrightarrow>
     cupd a (\<lambda>n. n\<lparr>parent := q'\<rparr>) (tcells s q t) = tcells s q' t"
  by (cases t) auto

lemma lay_color:
  assumes "apt w (inorder (plug cs (Nd c l e r)))"
  shows "upd_node (adr e) (\<lambda>n. n\<lparr>color := c'\<rparr>) (lay w (plug cs (Nd c l e r))) = Some (lay w (plug cs (Nd c' l e r)))"
proof -
  have "apt w (inorder (plug cs (Nd c' l e r)))"
    using assms by (simp add: inorder_plug)
  then show ?thesis
    using assms by (auto simp: lay_plug hp_upd inorder_plug apt_def)
qed

lemma lay_root: "get_root (header w) (lay w t) = Some (tadr (nil w) t)"
  by (simp add: lay_def hp_root)

lemma lay_nil: "nil w \<noteq> NULL \<Longrightarrow> get_node (lay w t) (nil w) = Some (nilrec w)"
  by (simp add: lay_def hp_get_nil)

lemma lay_is_red:
  assumes "apt w (inorder (plug cs t))" "color (nilrec w) = 0"
  shows "rbtree_is_red (tadr (nil w) t) (lay w (plug cs t)) = Some (is_red t)"
proof (cases t)
  case Lf
  then show ?thesis
    using assms by (simp add: rbtree_is_red_def lay_nil apt_def)
next
  case (Nd c l e r)
  then show ?thesis
    using assms by (simp add: rbtree_is_red_def lay_node)
qed

lemma black_nil: "color (nilrec w) = 0 \<Longrightarrow> w\<lparr>nilrec := (nilrec w)\<lparr>color := 0\<rparr>\<rparr> = w"
  by (cases w; cases "nilrec w") simp

lemma lay_black:
  assumes "apt w (inorder (plug cs t))" "color (nilrec w) = 0"
  shows "rbtree_black (tadr (nil w) t) (lay w (plug cs t)) = Some (lay w (plug cs (paint 0 t)))"
proof (cases t)
  case Lf
  then show ?thesis
    using assms by (simp add: rbtree_black_def apt_def lay_def hp_upd_nil black_nil)
next
  case (Nd c l e r)
  then show ?thesis
    using assms by (simp add: rbtree_black_def lay_color)
qed

lemma lay_paint:
  assumes "apt w (inorder (plug cs t))" "t \<noteq> Lf"
  shows "rbtree_red (tadr (nil w) t) (lay w (plug cs t)) = Some (lay w (plug cs (paint 1 t)))"
  using assms by (cases t) (simp_all add: rbtree_red_def lay_color)

subsection \<open>Rotations\<close>
subsection \<open>Rotations\<close>

text \<open>\<open>spread_out\<close> turns the premise that addresses are distinct into facts about single addresses.\<close>

lemmas spread_out = inorder_plug apt_def image_Un Int_Un_distrib Int_commute
lemmas hp_run = Let_def hp_get hp_get_nil hp_upd hp_upd_nil hp_root hp_set_root

lemma lay_left_rotate:
  assumes "apt w (inorder (plug cs (Nd c l e (Nd c' m e' r))))"
  shows "rbtree_left_rotate (header w) (nil w) (adr e) (lay w (plug cs (Nd c l e (Nd c' m e' r)))) =
    Some (lay w (plug cs (Nd c' (Nd c l e m) e' r)))"
proof -
  have a: "apt w (inorder (plug cs (Nd c' (Nd c l e m) e' r)))"
    using assms by (simp add: inorder_plug)
  show ?thesis
    unfolding lay_plug [OF assms] lay_plug [OF a] using assms
    apply (cases m; cases cs rule: frames_cases; simp only:; simp add: spread_out; elim conjE)
         apply (simp_all (no_asm_simp) add: rbtree_left_rotate_def hp_run)
         apply (rule hp_perm; simp (no_asm_simp) add: spread_out)+
    done
qed

lemma lay_right_rotate:
  assumes "apt w (inorder (plug cs (Nd c (Nd c' l e' m) e r)))"
  shows "rbtree_right_rotate (header w) (nil w) (adr e) (lay w (plug cs (Nd c (Nd c' l e' m) e r))) =
    Some (lay w (plug cs (Nd c' l e' (Nd c m e r))))"
proof -
  have a: "apt w (inorder (plug cs (Nd c' l e' (Nd c m e r))))"
    using assms by (simp add: inorder_plug)
  show ?thesis
    unfolding lay_plug [OF assms] lay_plug [OF a] using assms
    apply (cases m; cases cs rule: frames_cases; simp only:; simp add: spread_out; elim conjE)
         apply (simp_all (no_asm_simp) add: rbtree_right_rotate_def hp_run)
         apply (rule hp_perm; simp (no_asm_simp) add: spread_out)+
    done
qed
subsection \<open>The same at positions below a variable one\<close>

lemmas lay_nodes [rb_simps] =
  lay_node
  lay_node [where cs = "FL d f s # cs" for d f s cs, unfolded plug.simps cpar.simps fadr.simps]
  lay_node [where cs = "FR d s f # cs" for d f s cs, unfolded plug.simps cpar.simps fadr.simps]
  lay_node [where cs = "FL d f s # FL d' f' s' # cs" for d f s d' f' s' cs, unfolded plug.simps cpar.simps fadr.simps]
  lay_node [where cs = "FL d f s # FR d' s' f' # cs" for d f s d' f' s' cs, unfolded plug.simps cpar.simps fadr.simps]
  lay_node [where cs = "FR d s f # FL d' f' s' # cs" for d f s d' f' s' cs, unfolded plug.simps cpar.simps fadr.simps]
  lay_node [where cs = "FR d s f # FR d' s' f' # cs" for d f s d' f' s' cs, unfolded plug.simps cpar.simps fadr.simps]
  lay_node [where cs = "FL d f s # FR d' s' f' # FL d'' f'' s'' # cs" for d f s d' f' s' d'' f'' s'' cs, unfolded plug.simps cpar.simps fadr.simps]
  lay_node [where cs = "FR d s f # FR d' s' f' # FL d'' f'' s'' # cs" for d f s d' f' s' d'' f'' s'' cs, unfolded plug.simps cpar.simps fadr.simps]
  lay_node [where cs = "FL d f s # FL d' f' s' # FR d'' s'' f'' # cs" for d f s d' f' s' d'' f'' s'' cs, unfolded plug.simps cpar.simps fadr.simps]
  lay_node [where cs = "FR d s f # FL d' f' s' # FR d'' s'' f'' # cs" for d f s d' f' s' d'' f'' s'' cs, unfolded plug.simps cpar.simps fadr.simps]

lemmas lay_colors [rb_simps] =
  lay_color
  lay_color [where cs = "FL d f s # cs" for d f s cs, unfolded plug.simps]
  lay_color [where cs = "FR d s f # cs" for d f s cs, unfolded plug.simps]
  lay_color [where cs = "FL d f s # FL d' f' s' # cs" for d f s d' f' s' cs, unfolded plug.simps]
  lay_color [where cs = "FL d f s # FR d' s' f' # cs" for d f s d' f' s' cs, unfolded plug.simps]
  lay_color [where cs = "FR d s f # FL d' f' s' # cs" for d f s d' f' s' cs, unfolded plug.simps]
  lay_color [where cs = "FR d s f # FR d' s' f' # cs" for d f s d' f' s' cs, unfolded plug.simps]
  lay_color [where cs = "FL d f s # FR d' s' f' # FL d'' f'' s'' # cs" for d f s d' f' s' d'' f'' s'' cs, unfolded plug.simps]
  lay_color [where cs = "FR d s f # FR d' s' f' # FL d'' f'' s'' # cs" for d f s d' f' s' d'' f'' s'' cs, unfolded plug.simps]
  lay_color [where cs = "FL d f s # FL d' f' s' # FR d'' s'' f'' # cs" for d f s d' f' s' d'' f'' s'' cs, unfolded plug.simps]
  lay_color [where cs = "FR d s f # FL d' f' s' # FR d'' s'' f'' # cs" for d f s d' f' s' d'' f'' s'' cs, unfolded plug.simps]

lemmas lay_reds [rb_simps] =
  lay_is_red
  lay_is_red [where cs = "FL d f s # cs" for d f s cs, unfolded plug.simps]
  lay_is_red [where cs = "FR d s f # cs" for d f s cs, unfolded plug.simps]
  lay_is_red [where cs = "FL d f s # FL d' f' s' # cs" for d f s d' f' s' cs, unfolded plug.simps]
  lay_is_red [where cs = "FL d f s # FR d' s' f' # cs" for d f s d' f' s' cs, unfolded plug.simps]
  lay_is_red [where cs = "FR d s f # FL d' f' s' # cs" for d f s d' f' s' cs, unfolded plug.simps]
  lay_is_red [where cs = "FR d s f # FR d' s' f' # cs" for d f s d' f' s' cs, unfolded plug.simps]
  lay_is_red [where cs = "FL d f s # FR d' s' f' # FL d'' f'' s'' # cs" for d f s d' f' s' d'' f'' s'' cs, unfolded plug.simps]
  lay_is_red [where cs = "FR d s f # FR d' s' f' # FL d'' f'' s'' # cs" for d f s d' f' s' d'' f'' s'' cs, unfolded plug.simps]
  lay_is_red [where cs = "FL d f s # FL d' f' s' # FR d'' s'' f'' # cs" for d f s d' f' s' d'' f'' s'' cs, unfolded plug.simps]
  lay_is_red [where cs = "FR d s f # FL d' f' s' # FR d'' s'' f'' # cs" for d f s d' f' s' d'' f'' s'' cs, unfolded plug.simps]

lemmas lay_blacks [rb_simps] =
  lay_black
  lay_black [where cs = "FL d f s # cs" for d f s cs, unfolded plug.simps]
  lay_black [where cs = "FR d s f # cs" for d f s cs, unfolded plug.simps]
  lay_black [where cs = "FL d f s # FL d' f' s' # cs" for d f s d' f' s' cs, unfolded plug.simps]
  lay_black [where cs = "FL d f s # FR d' s' f' # cs" for d f s d' f' s' cs, unfolded plug.simps]
  lay_black [where cs = "FR d s f # FL d' f' s' # cs" for d f s d' f' s' cs, unfolded plug.simps]
  lay_black [where cs = "FR d s f # FR d' s' f' # cs" for d f s d' f' s' cs, unfolded plug.simps]
  lay_black [where cs = "FL d f s # FR d' s' f' # FL d'' f'' s'' # cs" for d f s d' f' s' d'' f'' s'' cs, unfolded plug.simps]
  lay_black [where cs = "FR d s f # FR d' s' f' # FL d'' f'' s'' # cs" for d f s d' f' s' d'' f'' s'' cs, unfolded plug.simps]
  lay_black [where cs = "FL d f s # FL d' f' s' # FR d'' s'' f'' # cs" for d f s d' f' s' d'' f'' s'' cs, unfolded plug.simps]
  lay_black [where cs = "FR d s f # FL d' f' s' # FR d'' s'' f'' # cs" for d f s d' f' s' d'' f'' s'' cs, unfolded plug.simps]

lemmas lay_rotates [rb_simps] =
  lay_left_rotate
  lay_left_rotate [where cs = "FL d f s # cs" for d f s cs, unfolded plug.simps]
  lay_left_rotate [where cs = "FR d s f # cs" for d f s cs, unfolded plug.simps]
  lay_left_rotate [where cs = "FR d s f # FL d' f' s' # cs" for d f s d' f' s' cs, unfolded plug.simps]
  lay_left_rotate [where cs = "FL d f s # FR d' s' f' # cs" for d f s d' f' s' cs, unfolded plug.simps]
  lay_right_rotate
  lay_right_rotate [where cs = "FL d f s # cs" for d f s cs, unfolded plug.simps]
  lay_right_rotate [where cs = "FR d s f # cs" for d f s cs, unfolded plug.simps]
  lay_right_rotate [where cs = "FR d s f # FL d' f' s' # cs" for d f s d' f' s' cs, unfolded plug.simps]
  lay_right_rotate [where cs = "FL d f s # FR d' s' f' # cs" for d f s d' f' s' cs, unfolded plug.simps]

lemmas lay_run = rb_simps lay_root Let_def

end
