(* ===== verification/Nc_Rbtree_Fixups.thy ===== *)
theory Nc_Rbtree_Fixups
  imports Nc_Rbtree_Layout
begin

text \<open>
  The search for the place of a key and the two rebalancing loops of the code, run on a tree in
  memory: they return, and the tree they leave is the one that \<open>leaf_pos\<close>, \<open>ins_fix\<close> and \<open>del_fix\<close>
  give.
\<close>

subsection \<open>One round after an insertion\<close>

lemmas colour_defs = rbtree_red_def rbtree_black_def [of "adr e" for e] rbtree_is_red_def [of "adr e" for e]

lemma lay_nil_red:
  "nil w \<noteq> NULL \<Longrightarrow> color (nilrec w) = 0 \<Longrightarrow> rbtree_is_red (nil w) (lay w t) = Some False"
  by (simp add: rbtree_is_red_def lay_nil)

lemma apt_child:
  "apt w (inorder (plug cs (Nd d (Nd c l e r) f s))) \<Longrightarrow> adr e \<noteq> tadr (nil w) s"
  "apt w (inorder (plug cs (Nd d s f (Nd c l e r)))) \<Longrightarrow> adr e \<noteq> tadr (nil w) s"
  by (cases s; simp add: inorder_plug apt_def; elim conjE; simp (no_asm_simp))+

lemma insert_step_LL:
  assumes "apt w (inorder (plug cs (Nd gc (Nd pc (Nd c l x r) p s) g u)))" "color (nilrec w) = 0"
  shows "insert_step (header w) (nil w) (adr x) (lay w (plug cs (Nd gc (Nd pc (Nd c l x r) p s) g u))) =
    Some (if is_red u then (adr g, lay w (plug cs (Nd 1 (Nd 0 (Nd c l x r) p s) g (paint 0 u))))
      else (adr x, lay w (plug cs (Nd 0 (Nd c l x r) p (Nd 1 s g u)))))"
  using assms apt_child(1) [of w "FL gc g u # cs" pc c l x r p s]
  by (simp add: insert_step_def lay_run colour_defs inorder_plug)
lemma insert_step_LR:
  assumes "apt w (inorder (plug cs (Nd gc (Nd pc s p (Nd c l x r)) g u)))" "color (nilrec w) = 0"
  shows "insert_step (header w) (nil w) (adr x) (lay w (plug cs (Nd gc (Nd pc s p (Nd c l x r)) g u))) =
    Some (if is_red u then (adr g, lay w (plug cs (Nd 1 (Nd 0 s p (Nd c l x r)) g (paint 0 u))))
      else (adr p, lay w (plug cs (Nd 0 (Nd pc s p l) x (Nd 1 r g u)))))"
  using assms by (simp add: insert_step_def lay_run colour_defs inorder_plug)

lemma insert_step_RR:
  assumes "apt w (inorder (plug cs (Nd gc u g (Nd pc s p (Nd c l x r)))))" "color (nilrec w) = 0"
  shows "insert_step (header w) (nil w) (adr x) (lay w (plug cs (Nd gc u g (Nd pc s p (Nd c l x r))))) =
    Some (if is_red u then (adr g, lay w (plug cs (Nd 1 (paint 0 u) g (Nd 0 s p (Nd c l x r)))))
      else (adr x, lay w (plug cs (Nd 0 (Nd 1 u g s) p (Nd c l x r)))))"
  using assms apt_child(2) [of w "FR gc u g # cs" pc s p c l x r] apt_child(2) [of w cs gc u g pc s p "Nd c l x r"]
  by (simp add: insert_step_def lay_run colour_defs inorder_plug)

lemma insert_step_RL:
  assumes "apt w (inorder (plug cs (Nd gc u g (Nd pc (Nd c l x r) p s))))" "color (nilrec w) = 0"
  shows "insert_step (header w) (nil w) (adr x) (lay w (plug cs (Nd gc u g (Nd pc (Nd c l x r) p s)))) =
    Some (if is_red u then (adr g, lay w (plug cs (Nd 1 (paint 0 u) g (Nd 0 (Nd c l x r) p s))))
      else (adr p, lay w (plug cs (Nd 0 (Nd 1 u g l) x (Nd pc r p s)))))"
  using assms apt_child(2) [of w cs gc u g pc "Nd c l x r" p s]
  by (simp add: insert_step_def lay_run colour_defs inorder_plug)

subsection \<open>The loop\<close>

lemma insert_cond_lay:
  assumes "apt w (inorder (plug cs (Nd c l x r)))" "color (nilrec w) = 0"
  shows "insert_cond (header w) (adr x) (lay w (plug cs (Nd c l x r))) = Some (cs \<noteq> [] \<and> \<not> black_above cs)"
proof (cases cs rule: frames_cases)
  case 1
  then show ?thesis
    using assms by (simp add: insert_cond_def lay_root)
next
  case (2 d f s ds)
  have "adr x \<noteq> croot (adr f) ds"
    using assms(1) by (intro croot_neq) (auto simp: 2 spread_out)
  then show ?thesis
    using assms by (simp add: 2 insert_cond_def lay_root rb_simps rbtree_is_red_def)
next
  case (3 d s f ds)
  have "adr x \<noteq> croot (adr f) ds"
    using assms(1) by (intro croot_neq) (auto simp: 3 spread_out)
  then show ?thesis
    using assms by (simp add: 3 insert_cond_def lay_root rb_simps rbtree_is_red_def)
qed

lemma insert_fixup_stop:
  assumes "apt w (inorder (plug cs (Nd c l x r)))" "color (nilrec w) = 0" "cs = [] \<or> black_above cs"
  shows "insert_fixup (header w) (nil w) (adr x) (lay w (plug cs (Nd c l x r))) = Some (lay w (plug cs (Nd c l x r)))"
  using insert_cond_lay [OF assms(1,2)] assms(3) by (subst insert_fixup.simps) auto

lemma insert_fixup_go:
  assumes "insert_step (header w) (nil w) (adr x) (lay w t) = Some z" "t = plug cs (Nd c l x r)"
    "apt w (inorder t)" "color (nilrec w) = 0" "cs \<noteq> []" "\<not> black_above cs"
  shows "insert_fixup (header w) (nil w) (adr x) (lay w t) = insert_fixup (header w) (nil w) (fst z) (snd z)"
  using insert_cond_lay [of w cs c l x r] assms by (subst insert_fixup.simps) (simp add: case_prod_beta)

lemma insert_fixup_ins_fix:
  assumes "apt w (inorder (plug cs t))" "color (nilrec w) = 0" "cinvc cs" "t \<noteq> Lf"
  shows "insert_fixup (header w) (nil w) (tadr (nil w) t) (lay w (plug cs t)) = Some (lay w (ins_fix cs t))"
  using assms
proof (induction cs t rule: ins_fix.induct)
  case (1 t)
  then show ?case
    using insert_fixup_stop [of w "[]"] by (cases t) simp_all
next
  case (2 f t)
  then have "black_above [f]"
    by (cases f) auto
  then show ?case
    using 2 insert_fixup_stop [of w "[f]"] by (cases t) simp_all
next
  case (3 pc p s gc g u cs t)
  obtain c l x r where t: "t = Nd c l x r"
    using 3(5) by (cases t) auto
  show ?case
  proof (cases "pc = 0")
    case True
    then show ?thesis
      using 3(2-) insert_fixup_stop [of w "FL pc p s # FL gc g u # cs" c l x r] by (simp add: t)
  next
    case False
    then have "insert_fixup (header w) (nil w) (adr x) (lay w (plug (FL pc p s # FL gc g u # cs) t)) =
      (if is_red u then insert_fixup (header w) (nil w) (adr g) (lay w (plug cs (Nd 1 (Nd 0 t p s) g (paint 0 u))))
       else insert_fixup (header w) (nil w) (adr x) (lay w (plug cs (Nd 0 t p (Nd 1 s g u)))))"
      using 3(2-) insert_fixup_go [where cs = "FL pc p s # FL gc g u # cs" and c = c and l = l and r = r, OF insert_step_LL [of w cs gc pc c l x r p s g u]]
      by (simp add: t inorder_plug)
    then show ?thesis
      using 3 False insert_fixup_stop [of w "FL 0 p (Nd 1 s g u) # cs"] by (simp add: t inorder_plug)
  qed
next
  case (4 pc s p gc g u cs t)
  obtain c l x r where t: "t = Nd c l x r"
    using 4(5) by (cases t) auto
  show ?case
  proof (cases "pc = 0")
    case True
    then show ?thesis
      using 4(2-) insert_fixup_stop [of w "FR pc s p # FL gc g u # cs" c l x r] by (simp add: t)
  next
    case False
    then have "insert_fixup (header w) (nil w) (adr x) (lay w (plug (FR pc s p # FL gc g u # cs) t)) =
      (if is_red u then insert_fixup (header w) (nil w) (adr g) (lay w (plug cs (Nd 1 (Nd 0 s p t) g (paint 0 u))))
       else insert_fixup (header w) (nil w) (adr p) (lay w (plug cs (Nd 0 (Nd pc s p l) x (Nd 1 r g u)))))"
      using 4(2-) insert_fixup_go [where cs = "FR pc s p # FL gc g u # cs" and c = c and l = l and r = r, OF insert_step_LR [of w cs gc pc s p c l x r g u]]
      by (simp add: t inorder_plug)
    then show ?thesis
      using 4 False insert_fixup_stop [of w "FL 0 x (Nd 1 r g u) # cs"] by (simp add: t inorder_plug)
  qed
next
  case (5 pc s p gc u g cs t)
  obtain c l x r where t: "t = Nd c l x r"
    using 5(5) by (cases t) auto
  show ?case
  proof (cases "pc = 0")
    case True
    then show ?thesis
      using 5(2-) insert_fixup_stop [of w "FR pc s p # FR gc u g # cs" c l x r] by (simp add: t)
  next
    case False
    then have "insert_fixup (header w) (nil w) (adr x) (lay w (plug (FR pc s p # FR gc u g # cs) t)) =
      (if is_red u then insert_fixup (header w) (nil w) (adr g) (lay w (plug cs (Nd 1 (paint 0 u) g (Nd 0 s p t))))
       else insert_fixup (header w) (nil w) (adr x) (lay w (plug cs (Nd 0 (Nd 1 u g s) p t))))"
      using 5(2-) insert_fixup_go [where cs = "FR pc s p # FR gc u g # cs" and c = c and l = l and r = r, OF insert_step_RR [of w cs gc u g pc s p c l x r]]
      by (simp add: t inorder_plug)
    then show ?thesis
      using 5 False insert_fixup_stop [of w "FR 0 (Nd 1 u g s) p # cs"] by (simp add: t inorder_plug)
  qed
next
  case (6 pc p s gc u g cs t)
  obtain c l x r where t: "t = Nd c l x r"
    using 6(5) by (cases t) auto
  show ?case
  proof (cases "pc = 0")
    case True
    then show ?thesis
      using 6(2-) insert_fixup_stop [of w "FL pc p s # FR gc u g # cs" c l x r] by (simp add: t)
  next
    case False
    then have "insert_fixup (header w) (nil w) (adr x) (lay w (plug (FL pc p s # FR gc u g # cs) t)) =
      (if is_red u then insert_fixup (header w) (nil w) (adr g) (lay w (plug cs (Nd 1 (paint 0 u) g (Nd 0 t p s))))
       else insert_fixup (header w) (nil w) (adr p) (lay w (plug cs (Nd 0 (Nd 1 u g l) x (Nd pc r p s)))))"
      using 6(2-) insert_fixup_go [where cs = "FL pc p s # FR gc u g # cs" and c = c and l = l and r = r, OF insert_step_RL [of w cs gc u g pc c l x r p s]]
      by (simp add: t inorder_plug)
    then show ?thesis
      using 6 False insert_fixup_stop [of w "FR 0 (Nd 1 u g l) x # cs"] by (simp add: t inorder_plug)
  qed
qed
subsection \<open>One round after a deletion\<close>

text \<open>\<open>low w t q\<close>: the node at the position has the parent \<open>q\<close>, the sentinel too.\<close>

definition low :: "setting \<Rightarrow> rt \<Rightarrow> addr \<Rightarrow> bool" where
  "low w t q \<longleftrightarrow> (t = Lf \<longrightarrow> parent (nilrec w) = q)"

lemma low_get:
  assumes "apt w (inorder (plug cs t))" "low w t (cpar (above w) cs)"
  obtains n where "get_node (lay w (plug cs t)) (tadr (nil w) t) = Some n" "parent n = cpar (above w) cs"
  using assms by (cases t) (simp_all add: low_def lay_nil apt_def lay_node)

lemmas delete_run = delete_step_def get_parent_def lay_run colour_defs rbtree_is_black_def rbtree_copy_color_def inorder_plug lay_nil_red

lemma delete_step_L:
  assumes "apt w (inorder (plug cs (Nd pc t p (Nd 0 vl v vr))))" "color (nilrec w) = 0" "low w t (adr p)"
  shows "delete_step (header w) (nil w) (tadr (nil w) t) (lay w (plug cs (Nd pc t p (Nd 0 vl v vr)))) =
    (if \<not> is_red vl \<and> \<not> is_red vr then Some (adr p, lay w (plug cs (Nd pc t p (Nd 1 vl v vr))))
     else map_option (\<lambda>u. (tadr (nil w) (plug cs u), lay w (plug cs u))) (del_endL pc t p vl v vr))"
proof -
  obtain n where n: "get_node (lay w (plug cs (Nd pc t p (Nd 0 vl v vr)))) (tadr (nil w) t) = Some n" "parent n = adr p"
    using low_get [of w "FL pc p (Nd 0 vl v vr) # cs" t] assms by auto
  have "nil w \<noteq> NULL"
    using assms(1) by (simp add: apt_def)
  then show ?thesis
    using assms n by (cases "is_red vr"; cases vl; cases t) (simp_all add: delete_run low_def lay_nil)
qed
lemma delete_step_red_L:
  assumes "apt w (inorder (plug cs (Nd pc t p (Nd wc (Nd c vl v vr) b wr))))" "color (nilrec w) = 0" "low w t (adr p)" "wc \<noteq> 0"
  shows "delete_step (header w) (nil w) (tadr (nil w) t) (lay w (plug cs (Nd pc t p (Nd wc (Nd c vl v vr) b wr)))) =
    (if \<not> is_red vl \<and> \<not> is_red vr then Some (adr p, lay w (plug cs (Nd 0 (Nd 1 t p (Nd 1 vl v vr)) b wr)))
     else map_option (\<lambda>u. (tadr (nil w) (plug cs (Nd 0 u b wr)), lay w (plug cs (Nd 0 u b wr)))) (del_endL 1 t p vl v vr))"
proof -
  obtain n where n: "get_node (lay w (plug cs (Nd pc t p (Nd wc (Nd c vl v vr) b wr)))) (tadr (nil w) t) = Some n" "parent n = adr p"
    using low_get [of w "FL pc p (Nd wc (Nd c vl v vr) b wr) # cs" t] assms by auto
  have "nil w \<noteq> NULL"
    using assms(1) by (simp add: apt_def)
  then show ?thesis
    using assms n by (cases "is_red vr"; cases vl; cases t) (simp_all add: delete_run low_def lay_nil)
qed

lemma delete_step_R:
  assumes "apt w (inorder (plug cs (Nd pc (Nd 0 vl v vr) p t)))" "color (nilrec w) = 0" "low w t (adr p)"
  shows "delete_step (header w) (nil w) (tadr (nil w) t) (lay w (plug cs (Nd pc (Nd 0 vl v vr) p t))) =
    (if \<not> is_red vl \<and> \<not> is_red vr then Some (adr p, lay w (plug cs (Nd pc (Nd 1 vl v vr) p t)))
     else map_option (\<lambda>u. (tadr (nil w) (plug cs u), lay w (plug cs u))) (del_endR pc vl v vr p t))"
proof -
  obtain n where n: "get_node (lay w (plug cs (Nd pc (Nd 0 vl v vr) p t))) (tadr (nil w) t) = Some n" "parent n = adr p"
    using low_get [of w "FR pc (Nd 0 vl v vr) p # cs" t] assms by auto
  have "nil w \<noteq> NULL"
    using assms(1) by (simp add: apt_def)
  moreover have "adr v \<noteq> tadr (nil w) t"
    using apt_child(1) [OF assms(1)] .
  ultimately show ?thesis
    using assms n by (cases "is_red vl"; cases vr; cases t) (simp_all add: delete_run low_def lay_nil)
qed

lemma delete_step_red_R:
  assumes "apt w (inorder (plug cs (Nd pc (Nd wc wl b (Nd c vl v vr)) p t)))" "color (nilrec w) = 0" "low w t (adr p)" "wc \<noteq> 0"
  shows "delete_step (header w) (nil w) (tadr (nil w) t) (lay w (plug cs (Nd pc (Nd wc wl b (Nd c vl v vr)) p t))) =
    (if \<not> is_red vl \<and> \<not> is_red vr then Some (adr p, lay w (plug cs (Nd 0 wl b (Nd 1 (Nd 1 vl v vr) p t))))
     else map_option (\<lambda>u. (tadr (nil w) (plug cs (Nd 0 wl b u)), lay w (plug cs (Nd 0 wl b u)))) (del_endR 1 vl v vr p t))"
proof -
  obtain n where n: "get_node (lay w (plug cs (Nd pc (Nd wc wl b (Nd c vl v vr)) p t))) (tadr (nil w) t) = Some n" "parent n = adr p"
    using low_get [of w "FR pc (Nd wc wl b (Nd c vl v vr)) p # cs" t] assms by auto
  have "nil w \<noteq> NULL"
    using assms(1) by (simp add: apt_def)
  moreover have "adr b \<noteq> tadr (nil w) t"
    using apt_child(1) [OF assms(1)] .
  ultimately show ?thesis
    using assms n by (cases "is_red vl"; cases vr; cases t) (simp_all add: delete_run low_def lay_nil)
qed

subsection \<open>The loop\<close>

lemma delete_cond_lay:
  assumes "apt w (inorder (plug cs t))" "color (nilrec w) = 0"
  shows "delete_cond (header w) (tadr (nil w) t) (lay w (plug cs t)) = Some (cs \<noteq> [] \<and> \<not> is_red t)"
proof (cases cs)
  case Nil
  then show ?thesis
    by (simp add: delete_cond_def lay_root)
next
  case (Cons f ds)
  have "tadr (nil w) t \<noteq> croot (fadr f) ds"
    using assms(1) by (cases t; cases f; simp add: Cons spread_out; elim conjE; simp (no_asm_simp))
  then show ?thesis
    using assms by (simp add: Cons delete_cond_def lay_root lay_is_red rbtree_is_black_def)
qed

lemma delete_fixup_stop:
  assumes "apt w (inorder (plug cs t))" "color (nilrec w) = 0" "cs = [] \<or> is_red t"
  shows "delete_fixup (header w) (nil w) (tadr (nil w) t) (lay w (plug cs t)) = Some (tadr (nil w) t, lay w (plug cs t))"
  using delete_cond_lay [OF assms(1,2)] assms(3) by (subst delete_fixup.simps) auto

lemma delete_fixup_go:
  assumes "delete_step (header w) (nil w) (tadr (nil w) t) (lay w T) = Some z" "T = plug cs t"
    "apt w (inorder T)" "color (nilrec w) = 0" "cs \<noteq> []" "\<not> is_red t"
  shows "delete_fixup (header w) (nil w) (tadr (nil w) t) (lay w T) = delete_fixup (header w) (nil w) (fst z) (snd z)"
  using delete_cond_lay [of w cs t] assms by (subst delete_fixup.simps) (simp add: case_prod_beta)

definition fixed :: "setting \<Rightarrow> (addr \<times> rb_heap) option \<Rightarrow> rt \<Rightarrow> bool" where
  "fixed w z t \<longleftrightarrow> (\<exists>a h. z = Some (a, h) \<and> rbtree_black a h = Some (lay w t))"

lemma fixed_stop:
  assumes "apt w (inorder (plug cs t))" "color (nilrec w) = 0" "cs = [] \<or> is_red t" "T = plug cs (paint 0 t)"
  shows "fixed w (delete_fixup (header w) (nil w) (tadr (nil w) t) (lay w (plug cs t))) T"
  unfolding fixed_def delete_fixup_stop [OF assms(1-3)] using lay_black [OF assms(1,2)] assms(4) by simp

lemma del_end_inorder:
  "del_endL pc t p wl v wr = Some u \<Longrightarrow> inorder u = inorder t @ p # inorder wl @ v # inorder wr"
  "del_endR pc wl v wr p t = Some u \<Longrightarrow> inorder u = inorder wl @ v # inorder wr @ p # inorder t"
  by (auto split: if_splits rt.splits)

text \<open>Where a round leaves the loop: higher up with the rest of the work to do, or done.\<close>

definition round_to :: "setting \<Rightarrow> frame list \<Rightarrow> rt \<Rightarrow> frame list \<Rightarrow> rt \<Rightarrow> bool" where
  "round_to w cs T ds t \<longleftrightarrow> apt w (inorder (plug ds t)) \<and>
     (ds = cs \<and> t \<noteq> Lf \<and> del_fix cs t = Some T \<or> (ds = [] \<or> is_red t) \<and> T = plug ds (paint 0 t))"

lemma delete_round_L:
  assumes "apt w (inorder (plug (FL pc p s # cs) t))" "color (nilrec w) = 0" "low w t (adr p)" "\<not> is_red t"
    "del_fix (FL pc p s # cs) t = Some T"
  shows "\<exists>ds t'. round_to w cs T ds t' \<and>
    delete_step (header w) (nil w) (tadr (nil w) t) (lay w (plug (FL pc p s # cs) t)) = Some (tadr (nil w) t', lay w (plug ds t'))"
proof -
  obtain wc wl b wr where s: "s = Nd wc wl b wr"
    using assms(4,5) by (auto split: rt.splits)
  have apt: "apt w (inorder (plug cs (Nd pc t p (Nd wc wl b wr))))"
    using assms(1) by (simp add: s)
  show ?thesis
  proof (cases "wc = 0")
    case wc: True
    note step = delete_step_L [OF apt [unfolded wc] assms(2,3)]
    show ?thesis
    proof (cases "is_red wl \<or> is_red wr")
      case True
      then obtain u where u: "del_endL pc t p wl b wr = Some u" "T = paint 0 (plug cs u)"
        using assms(4,5) by (auto simp: s wc)
      then have "round_to w cs T [] (plug cs u)"
        using apt del_end_inorder(1) [OF u(1)] by (simp add: round_to_def inorder_plug)
      then show ?thesis
        using step True u(1) by (intro exI conjI) (auto simp: s wc)
    next
      case False
      then have "round_to w cs T cs (Nd pc t p (Nd 1 wl b wr))"
        using assms apt by (simp add: round_to_def s wc inorder_plug)
      then show ?thesis
        using step False by (intro exI conjI) (auto simp: s wc)
    qed
  next
    case wc: False
    obtain c vl v vr where n: "wl = Nd c vl v vr"
      using assms(4,5) wc by (auto simp: s split: rt.splits)
    note step = delete_step_red_L [OF apt [unfolded n] assms(2,3) wc]
    show ?thesis
    proof (cases "is_red vl \<or> is_red vr")
      case True
      then obtain u where u: "del_endL 1 t p vl v vr = Some u" "T = paint 0 (plug cs (Nd 0 u b wr))"
        using assms(4,5) by (auto simp: s wc n)
      then have "round_to w cs T [] (plug cs (Nd 0 u b wr))"
        using apt del_end_inorder(1) [OF u(1)] by (simp add: round_to_def inorder_plug n)
      then show ?thesis
        using step True u(1) by (intro exI conjI) (auto simp: s n)
    next
      case False
      then have "round_to w cs T (FL 0 b wr # cs) (Nd 1 t p (Nd 1 vl v vr))"
        using assms apt wc by (simp add: round_to_def s n inorder_plug)
      then show ?thesis
        using step False by (intro exI conjI) (auto simp: s n)
    qed
  qed
qed

lemma delete_round_R:
  assumes "apt w (inorder (plug (FR pc s p # cs) t))" "color (nilrec w) = 0" "low w t (adr p)" "\<not> is_red t"
    "del_fix (FR pc s p # cs) t = Some T"
  shows "\<exists>ds t'. round_to w cs T ds t' \<and>
    delete_step (header w) (nil w) (tadr (nil w) t) (lay w (plug (FR pc s p # cs) t)) = Some (tadr (nil w) t', lay w (plug ds t'))"
proof -
  obtain wc wl b wr where s: "s = Nd wc wl b wr"
    using assms(4,5) by (auto split: rt.splits)
  have apt: "apt w (inorder (plug cs (Nd pc (Nd wc wl b wr) p t)))"
    using assms(1) by (simp add: s)
  show ?thesis
  proof (cases "wc = 0")
    case wc: True
    note step = delete_step_R [OF apt [unfolded wc] assms(2,3)]
    show ?thesis
    proof (cases "is_red wl \<or> is_red wr")
      case True
      then obtain u where u: "del_endR pc wl b wr p t = Some u" "T = paint 0 (plug cs u)"
        using assms(4,5) by (auto simp: s wc)
      then have "round_to w cs T [] (plug cs u)"
        using apt del_end_inorder(2) [OF u(1)] by (simp add: round_to_def inorder_plug)
      then show ?thesis
        using step True u(1) by (intro exI conjI) (auto simp: s wc)
    next
      case False
      then have "round_to w cs T cs (Nd pc (Nd 1 wl b wr) p t)"
        using assms apt by (simp add: round_to_def s wc inorder_plug)
      then show ?thesis
        using step False by (intro exI conjI) (auto simp: s wc)
    qed
  next
    case wc: False
    obtain c vl v vr where n: "wr = Nd c vl v vr"
      using assms(4,5) wc by (auto simp: s split: rt.splits)
    note step = delete_step_red_R [OF apt [unfolded n] assms(2,3) wc]
    show ?thesis
    proof (cases "is_red vl \<or> is_red vr")
      case True
      then obtain u where u: "del_endR 1 vl v vr p t = Some u" "T = paint 0 (plug cs (Nd 0 wl b u))"
        using assms(4,5) by (auto simp: s wc n)
      then have "round_to w cs T [] (plug cs (Nd 0 wl b u))"
        using apt del_end_inorder(2) [OF u(1)] by (simp add: round_to_def inorder_plug n)
      then show ?thesis
        using step True u(1) by (intro exI conjI) (auto simp: s n)
    next
      case False
      then have "round_to w cs T (FR 0 wl b # cs) (Nd 1 (Nd 1 vl v vr) p t)"
        using assms apt wc by (simp add: round_to_def s n inorder_plug)
      then show ?thesis
        using step False by (intro exI conjI) (auto simp: s n)
    qed
  qed
qed

lemma delete_fixup_del_fix:
  assumes "apt w (inorder (plug cs t))" "color (nilrec w) = 0" "low w t (cpar (above w) cs)" "del_fix cs t = Some T"
  shows "fixed w (delete_fixup (header w) (nil w) (tadr (nil w) t) (lay w (plug cs t))) T"
  using assms
proof (induction cs arbitrary: t)
  case Nil
  then show ?case
    using fixed_stop [of w "[]" t T] by simp
next
  case (Cons f cs)
  show ?case
  proof (cases "is_red t")
    case True
    then show ?thesis
      using Cons by (intro fixed_stop; cases f) simp_all
  next
    case False
    have "\<exists>ds t'. round_to w cs T ds t' \<and>
      delete_step (header w) (nil w) (tadr (nil w) t) (lay w (plug (f # cs) t)) = Some (tadr (nil w) t', lay w (plug ds t'))"
      using Cons(2-) False delete_round_L [of w] delete_round_R [of w] by (cases f) (simp_all del: del_fix.simps plug.simps)
    then obtain ds t' where r: "round_to w cs T ds t'"
      "delete_step (header w) (nil w) (tadr (nil w) t) (lay w (plug (f # cs) t)) = Some (tadr (nil w) t', lay w (plug ds t'))"
      by blast
    have "fixed w (delete_fixup (header w) (nil w) (tadr (nil w) t') (lay w (plug ds t'))) T"
      using r(1) Cons(1) [of t'] Cons(3) fixed_stop [of w ds t' T] by (auto simp: round_to_def low_def)
    then show ?thesis
      using delete_fixup_go [OF r(2) _ Cons(2,3)] False by simp
  qed
qed

end
