(* ===== verification/Nc_Rbtree_Correct.thy ===== *)
theory Nc_Rbtree_Correct
  imports Nc_Rbtree_Fixups
begin

text \<open>
  Insertion, deletion and the minimum on a tree in memory: the search and the relinking around the
  loops of \<open>Nc_Rbtree_Fixups\<close>, and the functional insertion and deletion that they implement.
\<close>

subsection \<open>Insertion\<close>

definition ins_tree :: "entry \<Rightarrow> rt \<Rightarrow> rt" where
  "ins_tree e t = paint 0 (ins_fix (leaf_pos (ekey e) t []) (Nd 1 Lf e Lf))"

fun head_left :: "frame list \<Rightarrow> bool" where
  "head_left (FL c e r # cs) = True"
| "head_left cs = False"

lemma descend_lay:
  assumes "apt w (inorder (plug cs (Nd c l e r)))"
  shows "descend (nil w) k (adr e) (lay w (plug cs (Nd c l e r))) =
    Some (let ds = leaf_pos k (Nd c l e r) cs in (cpar (above w) ds, head_left ds))"
  using assms
proof (induction "size l + size r" arbitrary: cs c l e r rule: less_induct)
  case less
  have ne: "adr e' \<noteq> nil w" if "l = Nd c' l' e' r' \<or> r = Nd c' l' e' r'" for c' l' e' r'
    using less(2) that by (auto simp: apt_def inorder_plug)
  show ?case
  proof (cases "k < ekey e")
    case True
    show ?thesis
    proof (cases l)
      case Lf
      then show ?thesis
        using True less(2) by (subst descend.simps) (simp add: lay_node)
    next
      case (Nd c' l' e' r')
      then show ?thesis
        using True less(1) [of l' r' "FL c e r # cs" c' e'] less(2) ne [of c' l' e' r']
        by (subst descend.simps) (simp add: lay_node)
    qed
  next
    case False
    show ?thesis
    proof (cases r)
      case Lf
      then show ?thesis
        using False less(2) by (subst descend.simps) (simp add: lay_node)
    next
      case (Nd c' l' e' r')
      then show ?thesis
        using False less(1) [of l' r' "FR c l e # cs" c' e'] less(2) ne [of c' l' e' r']
        by (subst descend.simps) (simp add: lay_node)
    qed
  qed
qed

text \<open>A cell for a node that was outside.\<close>

lemma hp_adopt:
  "a \<noteq> NULL \<Longrightarrow> a \<noteq> nil w \<Longrightarrow> a \<notin> fst ` set C \<Longrightarrow> rnodes (outer w) a \<noteq> None \<Longrightarrow>
     upd_node a f (hp w x C) = Some (hp w x ((a, f (the (rnodes (outer w) a))) # C))"
  by (cases "rnodes (outer w) a") (simp_all add: upd_node_def hp_get, auto simp: hp_def map_add_def fun_eq_iff map_of_eq_None_iff split: option.split)

lemma insert_link:
  assumes "apt w (inorder (plug ds (Nd 1 Lf e Lf)))" "ds \<noteq> []" "rnodes (outer w) (adr e) = Some n"
    "key n = ekey e" "data n = snd (snd e)"
  shows "do {
      h \<leftarrow> (if head_left ds then set_left (cpar (above w) ds) (adr e) (lay w (plug ds Lf))
           else set_right (cpar (above w) ds) (adr e) (lay w (plug ds Lf)));
      h \<leftarrow> set_parent (adr e) (cpar (above w) ds) h;
      h \<leftarrow> set_left (adr e) (nil w) h;
      h \<leftarrow> set_right (adr e) (nil w) h;
      rbtree_red (adr e) h
    } = Some (lay w (plug ds (Nd 1 Lf e Lf)))"
proof -
  have a: "apt w (inorder (plug ds Lf))"
    using assms(1) by (auto simp: inorder_plug apt_def)
  show ?thesis
    unfolding lay_plug [OF assms(1)] lay_plug [OF a] using assms
    apply (cases ds rule: frames_cases; simp only:; simp add: spread_out; elim conjE)
     apply (simp_all (no_asm_simp) add: hp_run hp_adopt colour_defs image_Un)
     apply (rule hp_perm; simp (no_asm_simp) add: spread_out)+
    done
qed
lemma lay_outside:
  "a \<noteq> nil w \<Longrightarrow> a \<notin> adr ` set (inorder t) \<Longrightarrow> get_node (lay w t) a = get_node (outer w) a"
  by (simp add: lay_def hp_def get_node_def map_add_def map_of_eq_None_iff [THEN iffD2])

lemma hp_header: "rtrees (hp w x C) (header w) = Some \<lparr>root = x, sentinel = nil w\<rparr>"
  by (simp add: hp_def)

lemma lay_header: "rtrees (lay w t) (header w) = Some \<lparr>root = tadr (nil w) t, sentinel = nil w\<rparr>"
  by (simp add: lay_def hp_def)

lemma hp_above [simp]: "hp (w\<lparr>above := q\<rparr>) x C = hp w x C"
  by (simp add: hp_def)

lemma insert_lay_empty:
  assumes "apt w [e]" "rnodes (outer w) (adr e) = Some n" "key n = ekey e" "data n = snd (snd e)"
  shows "nc_rbtree_insert (header w) (adr e) (lay w Lf) = Some (lay (w\<lparr>above := NULL\<rparr>) (ins_tree e Lf))"
proof -
  have d: "nil w \<noteq> NULL" "adr e \<noteq> NULL" "nil w \<noteq> adr e"
    using assms(1) by (simp_all add: apt_def)
  show ?thesis
    using d assms(2-)
    by (cases n; simp add: nc_rbtree_insert_def lay_header) (simp_all add: lay_def ins_tree_def hp_adopt hp_run colour_defs)
qed

lemma insert_lay:
  assumes "apt w (e # inorder t)" "color (nilrec w) = 0" "rbt t" "t \<noteq> Lf"
    "rnodes (outer w) (adr e) = Some n" "key n = ekey e" "data n = snd (snd e)"
  shows "nc_rbtree_insert (header w) (adr e) (lay w t) = Some (lay w (ins_tree e t))"
proof -
  define ds where "ds = leaf_pos (ekey e) t []"
  obtain c l x r where t: "t = Nd c l x r"
    using assms(4) by (cases t) auto
  have t': "t = plug ds Lf"
    by (simp add: ds_def plug_leaf_pos)
  have ap: "apt w (inorder (plug ds (Nd 1 Lf e Lf)))"
    using assms(1) apt_perm [of "e # inorder t" "inorder (plug ds (Nd 1 Lf e Lf))" w] by (simp add: t' inorder_plug)
  have fx: "insert_fixup (header w) (nil w) (adr e) (lay w (plug ds (Nd 1 Lf e Lf))) = Some (lay w (ins_fix ds (Nd 1 Lf e Lf)))"
    using insert_fixup_ins_fix [OF ap assms(2)] assms(3) by (simp add: t' rbt_plug)
  have "get_node (lay w t) (adr e) = Some n"
    using assms(1,5) by (subst lay_outside) (auto simp: apt_def get_node_def)
  moreover have "descend (nil w) (ekey e) (adr x) (lay w t) = Some (cpar (above w) ds, head_left ds)"
    using descend_lay [of w "[]" c l x r "ekey e"] assms(1) by (simp add: t apt_def ds_def Let_def)
  moreover have x: "adr x \<noteq> nil w" "ds \<noteq> []"
    using assms(1) t t' by (auto simp: apt_def)
  moreover have "rbtree_black (tadr (nil w) (ins_fix ds (Nd 1 Lf e Lf))) (lay w (ins_fix ds (Nd 1 Lf e Lf))) = Some (lay w (ins_tree e t))"
    using lay_black [of w "[]" "ins_fix ds (Nd 1 Lf e Lf)"] ap assms(2) by (simp add: inorder_ins_fix ins_tree_def ds_def)
  moreover note insert_link [OF ap x(2) assms(5-7), folded t']
  ultimately show ?thesis
    using fx assms(6)
    by (cases "head_left ds") (auto simp: nc_rbtree_insert_def lay_header lay_root t Let_def bind_eq_Some_conv)
qed
subsection \<open>The minimum\<close>

definition lefts :: "frame list \<Rightarrow> bool" where
  "lefts cs \<longleftrightarrow> list_all head_left (map (\<lambda>f. [f]) cs)"

lemma lefts_simps [simp]:
  "lefts []" "lefts (FL c e r # cs) = lefts cs" "\<not> lefts (FR c l e # cs)" "lefts (ms @ cs) = (lefts ms \<and> lefts cs)"
  by (simp_all add: lefts_def)

lemma lefts_before: "lefts cs \<Longrightarrow> before cs = []"
  by (induction cs rule: before.induct) auto

lemma node_min_lay:
  assumes "apt w (inorder (plug cs (Nd c l e r)))"
  shows "\<exists>ms c' m b. Nd c l e r = plug ms (Nd c' Lf m b) \<and> lefts ms \<and>
    rbtree_node_min (adr e) (nil w) (lay w (plug cs (Nd c l e r))) = Some (adr m)"
  using assms
proof (induction l arbitrary: cs c e r)
  case Lf
  then have "rbtree_node_min (adr e) (nil w) (lay w (plug cs (Nd c Lf e r))) = Some (adr e)"
    by (subst rbtree_node_min.simps) (simp add: lay_node)
  then show ?case
    by (intro exI [of _ "[]"]) simp
next
  case (Nd c1 l1 e1 r1)
  have "adr e1 \<noteq> nil w"
    using Nd(3) by (auto simp: apt_def inorder_plug)
  then have step: "rbtree_node_min (adr e) (nil w) (lay w (plug cs (Nd c (Nd c1 l1 e1 r1) e r))) =
    rbtree_node_min (adr e1) (nil w) (lay w (plug cs (Nd c (Nd c1 l1 e1 r1) e r)))"
    using Nd(3) by (subst rbtree_node_min.simps) (simp add: lay_node)
  obtain ms c' m b where ms: "Nd c1 l1 e1 r1 = plug ms (Nd c' Lf m b)" "lefts ms"
    "rbtree_node_min (adr e1) (nil w) (lay w (plug (FL c e r # cs) (Nd c1 l1 e1 r1))) = Some (adr m)"
    using Nd(1) [of "FL c e r # cs" c1 e1 r1] Nd(3) by auto
  have "Nd c (Nd c1 l1 e1 r1) e r = plug (ms @ [FL c e r]) (Nd c' Lf m b)"
    by (simp add: plug_append flip: ms(1))
  then show ?case
    using ms step by (intro exI [of _ "ms @ [FL c e r]"] exI) auto
qed

subsection \<open>Taking a node out\<close>

definition retire :: "addr \<Rightarrow> nc_rbnode \<Rightarrow> setting \<Rightarrow> setting" where
  "retire a n w = w\<lparr>outer := (outer w)\<lparr>rnodes := (rnodes (outer w))(a \<mapsto> n)\<rparr>\<rparr>"

definition low_to :: "addr \<Rightarrow> rt \<Rightarrow> setting \<Rightarrow> setting" where
  "low_to q t w = (if t = Lf then w\<lparr>nilrec := (nilrec w)\<lparr>parent := q\<rparr>\<rparr> else w)"

definition fresh_rec :: "u_char \<Rightarrow> nc_rbnode" where
  "fresh_rec c = \<lparr>left = NULL, right = NULL, parent = NULL, key = 0, data = NULL, color = c\<rparr>"

lemma setting_simps [simp]:
  "header (retire a n w) = header w" "nil (retire a n w) = nil w" "nilrec (retire a n w) = nilrec w"
  "above (retire a n w) = above w" "header (low_to q t w) = header w" "nil (low_to q t w) = nil w"
  "above (low_to q t w) = above w" "color (nilrec (low_to q t w)) = color (nilrec w)"
  "outer (low_to q t w) = outer w" "apt (retire a n w) es = apt w es" "apt (low_to q t w) es = apt w es"
  by (simp_all add: retire_def low_to_def apt_def)

lemma low_low_to [simp]: "low (retire a n (low_to q t w)) t q"
  by (simp add: low_def low_to_def retire_def)

lemma hp_retire: "a \<notin> fst ` set C \<Longrightarrow> hp w x ((a, n) # C) = hp (retire a n w) x C"
  by (auto simp: hp_def retire_def map_add_def fun_eq_iff map_of_eq_None_iff [THEN iffD2] split: option.split)

definition link_child :: "addr \<Rightarrow> addr \<Rightarrow> addr \<Rightarrow> addr \<Rightarrow> rb_heap \<Rightarrow> rb_heap option" where
  "link_child q a x q' h = do {
     p \<leftarrow> get_node h q;
     h \<leftarrow> (if a = left p then set_left q x h else set_right q x h);
     set_parent x q' h
   }"

lemma link_hp_right:
  assumes "apt w (inorder (plug ds (Nd c Lf m x)))" "ds \<noteq> []"
  shows "link_child (cpar (above w) ds) (adr m) (tadr (nil w) x) q (lay w (plug ds (Nd c Lf m x))) =
    Some (hp (low_to q x w) (croot (tadr (nil w) x) ds)
      (node_cell (nil w) (tadr (nil w) x) (cpar (above w) ds) c m # tcells (nil w) q x @ ccells (nil w) (above w) (tadr (nil w) x) ds))"
  unfolding lay_plug [OF assms(1)] using assms
  apply (cases ds rule: frames_cases; cases x; simp only:; simp add: spread_out; elim conjE)
     apply (simp_all (no_asm_simp) add: link_child_def hp_run low_to_def image_Un)
  done

lemma link_hp_left:
  assumes "apt w (inorder (plug ds (Nd c x m Lf)))" "ds \<noteq> []"
  shows "link_child (cpar (above w) ds) (adr m) (tadr (nil w) x) q (lay w (plug ds (Nd c x m Lf))) =
    Some (hp (low_to q x w) (croot (tadr (nil w) x) ds)
      (node_cell (tadr (nil w) x) (nil w) (cpar (above w) ds) c m # tcells (nil w) q x @ ccells (nil w) (above w) (tadr (nil w) x) ds))"
  unfolding lay_plug [OF assms(1)] using assms
  apply (cases ds rule: frames_cases; cases x; simp only:; simp add: spread_out; elim conjE)
     apply (simp_all (no_asm_simp) add: link_child_def hp_run low_to_def image_Un)
  done
lemma init_hp:
  assumes "a \<noteq> NULL" "a \<noteq> nil w" "a \<notin> fst ` set C"
  shows "nc_rbtree_node_init a (hp w x ((a, n) # C)) = Some (hp (retire a (fresh_rec (color n)) w) x C)"
  using assms by (cases n) (simp add: nc_rbtree_node_init_def hp_upd flip: hp_retire, simp add: fresh_rec_def)

text \<open>What is left to do once the node is out: nothing if it was red, the loop if it was black.\<close>

definition rebalance :: "setting \<Rightarrow> u_char \<Rightarrow> frame list \<Rightarrow> rt \<Rightarrow> rb_heap option" where
  "rebalance w c ds x =
     (if c \<noteq> 0 then Some (lay w (plug ds x))
      else do {
        (temp, h) \<leftarrow> delete_fixup (header w) (nil w) (tadr (nil w) x) (lay w (plug ds x));
        rbtree_black temp h
      })"

lemma rebalance_ok:
  assumes "apt w (inorder (plug ds x))" "color (nilrec w) = 0" "low w x (cpar (above w) ds)"
    "cinvc ds" "cinvh ds (bheight x + (if c = 0 then 1 else 0))" "invc x" "invh x" "c \<noteq> 0 \<longrightarrow> \<not> is_red x"
  shows "\<exists>t. rebalance w c ds x = Some (lay w t) \<and> rbt t \<and> inorder t = inorder (plug ds x)"
proof (cases "c = 0")
  case True
  then obtain t where t: "del_fix ds x = Some t" "rbt t" "inorder t = inorder (plug ds x)"
    using del_fix_ok [of ds x] assms(4-7) by (auto simp: invc_paint)
  then show ?thesis
    using delete_fixup_del_fix [OF assms(1-3) t(1)] True by (auto simp: fixed_def rebalance_def)
next
  case False
  then show ?thesis
    using assms by (intro exI [of _ "plug ds x"]) (simp add: rebalance_def rbt_plug)
qed

definition simple_out :: "setting \<Rightarrow> u_char \<Rightarrow> entry \<Rightarrow> frame list \<Rightarrow> rt \<Rightarrow> setting" where
  "simple_out w c m ds x = retire (adr m) (fresh_rec c) (low_to (cpar (above w) ds) x w)"

lemma plug_Nd: "t \<noteq> Lf \<Longrightarrow> plug cs t \<noteq> Lf"
  by (induction cs t rule: plug.induct) simp_all

lemma apt_focus:
  assumes "apt w (inorder (plug cs (Nd c l e r)))"
  shows "nil w \<noteq> NULL" "adr e \<noteq> NULL" "adr e \<noteq> nil w" "adr e \<notin> adr ` set (inorder l)" "adr e \<notin> adr ` set (inorder r)"
    "adr e \<notin> adr ` set (before cs)" "adr e \<notin> adr ` set (behind cs)"
  using assms by (simp add: inorder_plug apt_def; elim conjE; simp (no_asm_simp))+

lemma apt_kid:
  assumes "apt w (inorder (plug cs (Nd c l e r)))"
  shows "l \<noteq> Lf \<Longrightarrow> tadr (nil w) l \<noteq> nil w" "r \<noteq> Lf \<Longrightarrow> tadr (nil w) r \<noteq> nil w"
  using assms by (cases l; cases r; simp add: inorder_plug apt_def; elim conjE; simp (no_asm_simp))+

lemma not_root: "a \<notin> adr ` set (before cs) \<Longrightarrow> a \<notin> adr ` set (behind cs) \<Longrightarrow> cs \<noteq> [] \<Longrightarrow> a \<noteq> croot x cs"
  by (cases cs rule: frames_cases) (simp_all add: image_Un)

text \<open>The relinking of the code, with \<open>subst\<close> below \<open>node\<close> and the final reset of \<open>node\<close>.\<close>

definition relink :: "addr \<Rightarrow> addr \<Rightarrow> addr \<Rightarrow> addr \<Rightarrow> addr \<Rightarrow> addr \<Rightarrow> rb_heap \<Rightarrow> rb_heap option" where
  "relink tree sen node subst q x h = do {
     p \<leftarrow> get_node h q;
     h \<leftarrow> (if subst = left p then set_left q x h else set_right q x h);
     h \<leftarrow> delete_replace tree sen node subst x h;
     nc_rbtree_node_init node h
   }"

lemma delete_unfold:
  assumes "delete_choose (nil w) a (lay w t) = Some (b, x)" "b \<noteq> tadr (nil w) t" "get_node (lay w t) b = Some n"
  shows "nc_rbtree_delete (header w) a (lay w t) = do {
      h \<leftarrow> (if b = a then Option.bind (link_child (parent n) b x (parent n) (lay w t)) (nc_rbtree_node_init a)
           else relink (header w) (nil w) a b (parent n) x (lay w t));
      if color n \<noteq> 0 then Some h
      else do { (temp, h) \<leftarrow> delete_fixup (header w) (nil w) x h; rbtree_black temp h }
    }"
  using assms
  by (simp add: nc_rbtree_delete_def lay_header rbtree_is_red_def link_child_def relink_def Let_def cong: if_cong)

lemma delete_simple:
  assumes "apt w (inorder (plug ds (Nd c l m r)))" "ds \<noteq> []" "l = Lf \<and> x = r \<or> r = Lf \<and> x = l"
  shows "nc_rbtree_delete (header w) (adr m) (lay w (plug ds (Nd c l m r))) = rebalance (simple_out w c m ds x) c ds x"
proof -
  define q where "q = cpar (above w) ds"
  have "link_child q (adr m) (tadr (nil w) x) q (lay w (plug ds (Nd c l m r))) =
    Some (hp (low_to q x w) (croot (tadr (nil w) x) ds)
      (node_cell (tadr (nil w) l) (tadr (nil w) r) q c m # tcells (nil w) q x @ ccells (nil w) (above w) (tadr (nil w) x) ds))"
    unfolding q_def using assms link_hp_left [of w ds c x m] link_hp_right [of w ds c m x] by auto
  moreover have "delete_choose (nil w) (adr m) (lay w (plug ds (Nd c l m r))) = Some (adr m, tadr (nil w) x)"
    unfolding delete_choose_def lay_node [OF assms(1)] using assms(3) apt_kid [OF assms(1)] by auto
  moreover have "hp (simple_out w c m ds x) (croot (tadr (nil w) x) ds)
      (tcells (nil w) q x @ ccells (nil w) (above w) (tadr (nil w) x) ds) = lay (simple_out w c m ds x) (plug ds x)"
    using assms(1,3) lay_plug [of "simple_out w c m ds x" ds x] by (auto simp: simple_out_def q_def inorder_plug apt_def)
  moreover have "adr m \<notin> fst ` set (tcells (nil w) q x @ ccells (nil w) (above w) (tadr (nil w) x) ds)"
    using apt_focus [OF assms(1)] assms(3) by (auto simp: image_Un)
  moreover have "adr m \<noteq> tadr (nil w) (plug ds (Nd c l m r))"
    using apt_focus [OF assms(1)] not_root [of "adr m" ds] assms(2) by simp
  ultimately show ?thesis
    using apt_focus [OF assms(1)] delete_unfold [OF _ _ lay_node [OF assms(1)], of "adr m" "tadr (nil w) x"]
    by (simp_all add: lay_node [OF assms(1)] init_hp rebalance_def simple_out_def flip: q_def)
qed
definition root_out :: "setting \<Rightarrow> u_char \<Rightarrow> entry \<Rightarrow> setting" where
  "root_out w c m = (retire (adr m) (fresh_rec c) w)\<lparr>above := adr m\<rparr>"

lemma delete_root:
  assumes "apt w (inorder (Nd c l m r))" "color (nilrec w) = 0" "l = Lf \<and> x = r \<or> r = Lf \<and> x = l"
  shows "nc_rbtree_delete (header w) (adr m) (lay w (Nd c l m r)) = Some (lay (root_out w c m) (paint 0 x))"
proof -
  have apt: "apt w (inorder (plug [] (Nd c l m r)))"
    using assms(1) by simp
  define C where "C = node_cell (tadr (nil w) l) (tadr (nil w) r) (above w) c m"
  have "lay w (Nd c l m r) = hp w (adr m) (C # tcells (nil w) (adr m) x)"
    using assms(3) by (auto simp: lay_def C_def)
  moreover have "rbtree_black (tadr (nil w) x) (hp w (tadr (nil w) x) (C # tcells (nil w) (adr m) x)) =
    Some (hp w (tadr (nil w) x) (C # tcells (nil w) (adr m) (paint 0 x)))"
  proof (cases x)
    case Lf
    then show ?thesis
      using apt_focus [OF apt] assms(2) by (simp add: rbtree_black_def hp_upd_nil black_nil)
  next
    case (Nd c' l' e' r')
    then show ?thesis
      using assms(1,3) by (auto simp: C_def rbtree_black_def hp_upd apt_def)
  qed
  moreover have "nc_rbtree_node_init (adr m) (hp w (tadr (nil w) x) (C # tcells (nil w) (adr m) (paint 0 x))) =
    Some (hp (retire (adr m) (fresh_rec c) w) (tadr (nil w) x) (tcells (nil w) (adr m) (paint 0 x)))"
    unfolding C_def using apt_focus [OF apt] assms(3) by (subst init_hp) auto
  moreover have "delete_choose (nil w) (adr m) (lay w (plug [] (Nd c l m r))) = Some (adr m, tadr (nil w) x)"
    unfolding delete_choose_def lay_node [OF apt] using assms(3) apt_kid [OF apt] by auto
  moreover have "tadr (nil w) (paint 0 x) = tadr (nil w) x"
    by (cases x) simp_all
  ultimately show ?thesis
    by (simp add: nc_rbtree_delete_def hp_header Let_def hp_set_root) (simp add: lay_def root_out_def)
qed

text \<open>The part of \<open>delete_replace\<close> behind the assignment to \<open>temp->parent\<close>.\<close>

definition swap_in :: "addr \<Rightarrow> addr \<Rightarrow> addr \<Rightarrow> addr \<Rightarrow> rb_heap \<Rightarrow> rb_heap option" where
  "swap_in tree sen node subst h = do {
     n \<leftarrow> get_node h node;
     h \<leftarrow> set_left subst (left n) h;
     h \<leftarrow> set_right subst (right n) h;
     h \<leftarrow> set_parent subst (parent n) h;
     h \<leftarrow> rbtree_copy_color subst node h;
     r \<leftarrow> get_root tree h;
     h \<leftarrow> (if node = r then set_root tree subst h
          else do {
            p \<leftarrow> get_node h (parent n);
            if node = left p then set_left (parent n) subst h else set_right (parent n) subst h
          });
     s \<leftarrow> get_node h subst;
     h \<leftarrow> (if left s \<noteq> sen then set_parent (left s) subst h else Some h);
     if right s \<noteq> sen then set_parent (right s) subst h else Some h
   }"

lemma delete_replace_swap:
  "get_node h subst = Some s \<Longrightarrow> delete_replace tree sen node subst temp h =
     Option.bind (set_parent temp (if parent s = node then subst else parent s) h) (swap_in tree sen node subst)"
  by (simp add: delete_replace_def swap_in_def [abs_def])

lemma swap_hp:
  assumes "apt w (m # inorder (plug cs (Nd c l e r)))" "key n = ekey m" "data n = snd (snd m)" "l \<noteq> Lf"
  shows "swap_in (header w) (nil w) (adr e) (adr m) (hp w (croot (adr e) cs)
      ((adr m, n) # node_cell (tadr (nil w) l) (tadr (nil w) r) (cpar (above w) cs) c e # tcells (nil w) (adr e) l @
        tcells (nil w) q r @ ccells (nil w) (above w) (adr e) cs)) =
    Some (hp w (croot (adr m) cs)
      (node_cell (tadr (nil w) l) (tadr (nil w) r) (cpar (above w) cs) c m # node_cell (tadr (nil w) l) (tadr (nil w) r) (cpar (above w) cs) c e #
        tcells (nil w) (adr m) l @ tcells (nil w) (adr m) r @ ccells (nil w) (above w) (adr m) cs))"
  using assms
  apply (cases l; cases r; cases n; cases cs rule: frames_cases; simp only:; simp add: spread_out; elim conjE)
       apply (simp_all (no_asm_simp) add: swap_in_def rbtree_copy_color_def hp_run image_Un cupd_parent)
  done

text \<open>A node with two children: the leftmost node of its right subtree takes its place.\<close>

definition double_out :: "setting \<Rightarrow> u_char \<Rightarrow> entry \<Rightarrow> frame list \<Rightarrow> rt \<Rightarrow> setting" where
  "double_out w c e ds x = retire (adr e) (fresh_rec c) (low_to (cpar (above w) ds) x w)"

lemma upd_node_other: "upd_node a f h = Some h' \<Longrightarrow> b \<noteq> a \<Longrightarrow> get_node h' b = get_node h b"
  by (auto simp: upd_node_def get_node_def bind_eq_Some_conv)

lemma link_then_replace:
  assumes "get_node h a = Some s" "q \<noteq> a"
  shows "do {
      p \<leftarrow> get_node h q;
      h \<leftarrow> (if a = left p then set_left q x h else set_right q x h);
      delete_replace tree sen node a x h
    } = Option.bind (link_child q a x (if parent s = node then a else parent s) h) (swap_in tree sen node a)"
proof -
  have "get_node h' a = Some s" if "upd_node q f h = Some h'" for f h'
    using upd_node_other [OF that] assms by simp
  then show ?thesis
    by (cases "get_node h q"; cases "set_left q x h"; cases "set_right q x h") (auto simp: link_child_def delete_replace_swap)
qed

lemma cpar_in: "cs \<noteq> [] \<Longrightarrow> cpar q cs \<in> adr ` set (before cs) \<union> adr ` set (behind cs)"
  by (cases cs rule: frames_cases) simp_all

lemma cpar_append [simp]: "cpar q (ms @ cs) = cpar (cpar q cs) ms"
  by (cases ms) simp_all

lemma plug_cells:
  "mset (tcells s (cpar a ms) x @ ccells s e (tadr s x) ms) = mset (tcells s (if ms = [] then a else e) (plug ms x))"
  using cells_plug [of s "if ms = [] then a else e" ms x] by (cases ms) simp_all

lemma replace_link:
  assumes "apt w (inorder (plug cs (Nd c l e (plug ms (Nd c' Lf m x)))))" "l \<noteq> Lf"
  defines "ds \<equiv> ms @ FR c l e # cs" and "q \<equiv> cpar (adr m) ms"
  shows "relink (header w) (nil w) (adr e) (adr m) (cpar (above w) ds) (tadr (nil w) x) (lay w (plug ds (Nd c' Lf m x))) =
    Some (lay (retire (adr e) (fresh_rec c) (low_to q x w)) (plug cs (Nd c l m (plug ms x))))"
proof -
  define v where "v = low_to q x w"
  define q2 where "q2 = (if ms = [] then adr m else adr e)"
  define C where "C = tcells (nil w) (adr e) l @ tcells (nil w) q2 (plug ms x) @ ccells (nil w) (above w) (adr e) cs"
  define Cm where "Cm = node_cell (tadr (nil w) Lf) (tadr (nil w) x) (cpar (above w) ds) c' m"
  define Ce where "Ce = node_cell (tadr (nil w) l) (tadr (nil w) (plug ms x)) (cpar (above w) cs) c e"
  have apt: "apt w (inorder (plug ds (Nd c' Lf m x)))"
    using assms(1) by (simp add: ds_def plug_append)
  have q: "cpar (above w) ds = cpar (adr e) ms"
    by (simp add: ds_def)
  have "ds \<noteq> []"
    by (simp add: ds_def)
  then have ne: "cpar (above w) ds \<noteq> adr m"
    using cpar_in [of ds "above w"] apt_focus(6,7) [OF apt] by (metis Un_iff)
  have "adr e \<notin> adr ` set (before ms)" "adr e \<notin> adr ` set (behind ms)"
    using apt_focus(5) [OF assms(1)] by (auto simp: inorder_plug)
  then have e: "cpar (above w) ds = adr e \<longleftrightarrow> ms = []"
    unfolding q using cpar_in [of ms "adr e"] by (metis Un_iff cpar.simps(1))
  have m: "get_node (lay w (plug ds (Nd c' Lf m x))) (adr m) = Some (snd Cm)"
    using lay_node [OF apt] by (simp add: Cm_def)
  have q': "(if parent (snd Cm) = adr e then adr m else parent (snd Cm)) = q"
    using e by (cases ms) (simp_all add: Cm_def q q_def)
  have "link_child (cpar (above w) ds) (adr m) (tadr (nil w) x) q (lay w (plug ds (Nd c' Lf m x))) =
    Some (hp v (croot (tadr (nil w) x) ds) (Cm # tcells (nil w) q x @ ccells (nil w) (above w) (tadr (nil w) x) ds))"
    using link_hp_right [OF apt, of q] by (simp add: ds_def v_def Cm_def)
  also have "hp v (croot (tadr (nil w) x) ds) (Cm # tcells (nil w) q x @ ccells (nil w) (above w) (tadr (nil w) x) ds) =
    hp v (croot (adr e) cs) (Cm # Ce # C)"
  proof -
    have "mset (tcells (nil w) q x @ ccells (nil w) (above w) (tadr (nil w) x) ds) = mset (Ce # C)"
      using plug_cells [of "nil w" "adr m" ms x "adr e"]
      by (simp add: C_def Ce_def q2_def q_def ds_def ccells_append)
    moreover have "distinct (map fst (Cm # tcells (nil w) q x @ ccells (nil w) (above w) (tadr (nil w) x) ds))"
      using apt by (simp add: Cm_def spread_out)
    ultimately show ?thesis
      by (simp add: ds_def hp_perm)
  qed
  finally have link: "link_child (cpar (above w) ds) (adr m) (tadr (nil w) x) q (lay w (plug ds (Nd c' Lf m x))) = Some (hp v (croot (adr e) cs) (Cm # Ce # C))" .
  have v: "nil v = nil w" "above v = above w" "header v = header w"
    by (simp_all add: v_def)
  let ?D = "tcells (nil w) (cpar (above w) cs) (Nd c l m (plug ms x)) @ ccells (nil w) (above w) (adr m) cs"
  have apts: "apt w (m # inorder (plug cs (Nd c l e (plug ms x))))"
    using assms(1) apt_perm [of "m # inorder (plug cs (Nd c l e (plug ms x)))" "inorder (plug cs (Nd c l e (plug ms (Nd c' Lf m x))))" w]
    by (simp add: inorder_plug)
  then have dist: "distinct (map fst (Ce # ?D))" "apt (retire (adr e) (fresh_rec c) v) (inorder (plug cs (Nd c l m (plug ms x))))"
    by (simp add: Ce_def v_def spread_out; elim conjE; simp (no_asm_simp))+
  have "swap_in (header w) (nil w) (adr e) (adr m) (hp v (croot (adr e) cs) (Cm # Ce # C)) =
    Some (hp v (croot (adr m) cs) (Ce # ?D))"
    using swap_hp [of v m cs c l e "plug ms x" "snd Cm" q2] apts assms(2) dist(1)
      hp_perm [of "Ce # ?D" "hd ?D # Ce # tl ?D" v "croot (adr m) cs"]
    by (simp add: v C_def Ce_def Cm_def) (simp add: v_def)
  moreover have "nc_rbtree_node_init (adr e) (hp v (croot (adr m) cs) (Ce # ?D)) =
    Some (lay (retire (adr e) (fresh_rec c) v) (plug cs (Nd c l m (plug ms x))))"
    using dist(1) apt_focus [OF assms(1)] lay_plug [OF dist(2)] by (simp add: Ce_def init_hp v image_Un)
  ultimately show ?thesis
    using link_then_replace [OF m ne, of "tadr (nil w) x" "header w" "nil w" "adr e"] link
    by (auto simp: relink_def q' v_def bind_eq_Some_conv)
qed

lemma plug_find:
  assumes "e \<in> set (inorder t)"
  shows "\<exists>cs c l r. t = plug cs (Nd c l e r)"
  using assms
proof (induction t)
  case (Nd c l x r)
  consider "e = x" | cs c' l' r' where "l = plug cs (Nd c' l' e r')" | cs c' l' r' where "r = plug cs (Nd c' l' e r')"
    using Nd by auto
  then show ?case
  proof cases
    case 1
    then show ?thesis
      by (intro exI [of _ "[]"]) auto
  next
    case 2
    then have "Nd c l x r = plug (cs @ [FL c x r]) (Nd c' l' e r')"
      by (simp add: plug_append)
    then show ?thesis
      by blast
  next
    case 3
    then have "Nd c l x r = plug (cs @ [FR c l x]) (Nd c' l' e r')"
      by (simp add: plug_append)
    then show ?thesis
      by blast
  qed
qed simp

lemma delete_double:
  assumes "apt w (inorder (plug cs (Nd c l e r)))" "l \<noteq> Lf" "r = plug ms (Nd c' Lf m x)"
    "rbtree_node_min (tadr (nil w) r) (nil w) (lay w (plug cs (Nd c l e r))) = Some (adr m)"
  defines "ds \<equiv> ms @ FR c l m # cs"
  shows "nc_rbtree_delete (header w) (adr e) (lay w (plug cs (Nd c l e r))) = rebalance (double_out w c e ds x) c' ds x"
proof -
  let ?ds = "ms @ FR c l e # cs" and ?T = "plug cs (Nd c l e r)"
  have T: "?T = plug ?ds (Nd c' Lf m x)"
    using assms(3) by (simp add: plug_append)
  have apt: "apt w (inorder (plug ?ds (Nd c' Lf m x)))"
    using assms(1) T by simp
  note node_e = lay_node [OF assms(1)] and node_m = lay_node [OF apt, folded T]
  have "r \<noteq> Lf"
    unfolding assms(3) by (rule plug_Nd) simp
  then have r: "tadr (nil w) r \<noteq> nil w"
    by (rule apt_kid(2) [OF assms(1)])
  have "delete_choose (nil w) (adr e) (lay w ?T) = Some (adr m, tadr (nil w) x)"
    unfolding delete_choose_def node_e using apt_kid(1) [OF assms(1,2)] r assms(4) node_m by simp
  moreover have "adr m \<noteq> tadr (nil w) ?T"
    unfolding T tadr_plug tadr.simps using not_root [OF apt_focus(6,7) [OF apt]] by simp
  moreover have "adr m \<noteq> adr e"
    using apt_focus(5) [OF assms(1)] by (auto simp: assms(3) inorder_plug)
  moreover note replace_link [OF assms(1,2) [unfolded assms(3)], folded assms(3) T]
  moreover have "cpar (above w) ds = cpar (adr m) ms" "plug ds x = plug cs (Nd c l m (plug ms x))"
    by (simp_all add: ds_def plug_append)
  ultimately show ?thesis
    using delete_unfold [OF _ _ node_m, of "adr e" "tadr (nil w) x"]
    by (simp add: rebalance_def double_out_def del: tadr.simps)
qed
text \<open>
  The whole deletion: it returns, the tree that is left is a red-black tree without the entry, and of
  the rest of memory only the removed node has changed.
\<close>

definition taken :: "setting \<Rightarrow> entry \<Rightarrow> setting \<Rightarrow> bool" where
  "taken w e w' \<longleftrightarrow> header w' = header w \<and> nil w' = nil w \<and> color (nilrec w') = color (nilrec w) \<and>
     (\<exists>c. outer w' = (outer w)\<lparr>rnodes := (rnodes (outer w))(adr e \<mapsto> fresh_rec c)\<rparr>)"

lemma apt_remove1: "apt w es \<Longrightarrow> apt w (remove1 e es)"
  using image_mono [OF set_remove1_subset [of e es], of adr]
  by (auto simp: apt_def distinct_map intro: inj_on_diff)

lemma taken_outs:
  "taken w e (simple_out w c e ds x)" "taken w e (double_out w c e ds x)" "taken w e (root_out w c e)"
  unfolding taken_def by (auto simp: simple_out_def double_out_def root_out_def) (auto simp: retire_def)

lemma cinv_entry:
  "cinvc (ms @ FR c l e # cs) = cinvc (ms @ FR c l e' # cs)"
  "cinvh (ms @ FR c l e # cs) n = cinvh (ms @ FR c l e' # cs) n"
proof -
  have b: "black_above (ms @ FR c l e # cs) = black_above (ms @ FR c l e' # cs)" for ms
    by (cases ms) simp_all
  show "cinvc (ms @ FR c l e # cs) = cinvc (ms @ FR c l e' # cs)"
    by (induction ms rule: before.induct) (simp_all add: b)
  show "cinvh (ms @ FR c l e # cs) n = cinvh (ms @ FR c l e' # cs) n"
    by (induction ms arbitrary: n rule: before.induct) simp_all
qed

lemma delete_lay:
  assumes "apt w (inorder t)" "color (nilrec w) = 0" "rbt t" "e \<in> set (inorder t)"
  shows "\<exists>w' t'. nc_rbtree_delete (header w) (adr e) (lay w t) = Some (lay w' t') \<and> taken w e w' \<and>
    rbt t' \<and> inorder t' = remove1 e (inorder t)"
proof -
  obtain cs c l r where t: "t = plug cs (Nd c l e r)"
    using plug_find [OF assms(4)] by blast
  have apt: "apt w (inorder (plug cs (Nd c l e r)))"
    using assms(1) t by simp
  have rm: "remove1 e (inorder t) = before cs @ inorder l @ inorder r @ behind cs"
    using apt_focus [OF apt] by (force simp: t inorder_plug remove1_append)
  have bal: "cinvc cs" "cinvh cs (bheight (Nd c l e r))" "invc (Nd c l e r)" "invh (Nd c l e r)"
    using assms(3) by (auto simp: t rbt_plug)
  show ?thesis
  proof (cases "l = Lf \<or> r = Lf")
    case True
    then obtain x where x: "l = Lf \<and> x = r \<or> r = Lf \<and> x = l"
      by auto
    show ?thesis
    proof (cases "cs = []")
      case True
      have "rbt (paint 0 x)" "inorder (paint 0 x) = remove1 e (inorder t)"
        using bal x by (auto simp: rm True rbt_paint invc_paint)
      moreover have "nc_rbtree_delete (header w) (adr e) (lay w t) = Some (lay (root_out w c e) (paint 0 x))"
        using delete_root [OF _ assms(2) x, of c e] assms(1) by (simp add: t True)
      ultimately show ?thesis
        using taken_outs(3) [of w e c] by blast
    next
      case False
      define v where "v = simple_out w c e cs x"
      have io: "inorder (plug cs x) = remove1 e (inorder t)"
        using x by (auto simp: rm inorder_plug)
      have "apt v (inorder (plug cs x))"
        unfolding io using assms(1) by (simp add: v_def simple_out_def apt_remove1)
      moreover have "low v x (cpar (above v) cs)" "color (nilrec v) = 0"
        using assms(2) by (simp_all add: v_def simple_out_def)
      moreover have "cinvc cs" "cinvh cs (bheight x + (if c = 0 then 1 else 0))" "invc x" "invh x" "c \<noteq> 0 \<longrightarrow> \<not> is_red x"
        using bal x by auto
      ultimately obtain t' where r: "rebalance v c cs x = Some (lay v t')" "rbt t'" "inorder t' = inorder (plug cs x)"
        using rebalance_ok by blast
      have "nc_rbtree_delete (header w) (adr e) (lay w t) = Some (lay v t')"
        using delete_simple [OF apt False x] r(1) by (simp add: t v_def)
      then show ?thesis
        using r io taken_outs(1) [of w e c cs x] by (metis v_def)
    qed
  next
    case False
    obtain cr lr f rr where r: "r = Nd cr lr f rr"
      using False by (cases r) auto
    have "\<exists>ms c' m x. Nd cr lr f rr = plug ms (Nd c' Lf m x) \<and> lefts ms \<and>
      rbtree_node_min (adr f) (nil w) (lay w (plug (FR c l e # cs) (Nd cr lr f rr))) = Some (adr m)"
      by (rule node_min_lay) (use apt r in simp)
    then obtain ms c' m x where m: "r = plug ms (Nd c' Lf m x)" "lefts ms"
      "rbtree_node_min (tadr (nil w) r) (nil w) (lay w t) = Some (adr m)"
      unfolding t r plug.simps tadr.simps by blast
    define ds where "ds = ms @ FR c l m # cs"
    have T: "plug cs (Nd c l e r) = plug (ms @ FR c l e # cs) (Nd c' Lf m x)"
      by (simp add: plug_append m(1))
    have io: "inorder (plug ds x) = remove1 e (inorder t)"
      unfolding rm by (simp add: ds_def m(1) inorder_plug before_append behind_append lefts_before [OF m(2)])
    define v where "v = double_out w c e ds x"
    have "apt v (inorder (plug ds x))"
      unfolding io using assms(1) by (simp add: v_def double_out_def apt_remove1)
    moreover have "low v x (cpar (above v) ds)" "color (nilrec v) = 0"
      using assms(2) by (simp_all add: v_def double_out_def)
    moreover have "cinvc ds" "cinvh ds (bheight x + (if c' = 0 then 1 else 0))" "invc x" "invh x" "c' \<noteq> 0 \<longrightarrow> \<not> is_red x"
      using assms(3) cinv_entry [where ms = ms and c = c and l = l and e = e and cs = cs and e' = m] by (auto simp: t T rbt_plug ds_def)
    ultimately obtain t' where v: "rebalance v c' ds x = Some (lay v t')" "rbt t'" "inorder t' = inorder (plug ds x)"
      using rebalance_ok by blast
    have "nc_rbtree_delete (header w) (adr e) (lay w t) = Some (lay v t')"
      using delete_double [OF apt _ m(1)] m(3) False v(1) by (simp add: t v_def ds_def)
    then show ?thesis
      using v io taken_outs(2) [of w e c ds x] by (metis v_def)
  qed
qed

end
