(* ===== verification/Nc_Rbtree_Claims.thy ===== *)
theory Nc_Rbtree_Claims
  imports Nc_Rbtree_Correct
begin

text \<open>
  What the red-black tree promises to a caller who sees nodes with keys: \<open>rb_holds\<close> relates the heap
  to the sorted list of the entries, insertion and deletion act on that list, and the minimum is its
  head. \<open>ordered_index\<close> is the contract that a timer queue needs; emptying the tree through it sorts.
\<close>

subsection \<open>The tree in the heap\<close>

definition rb_at :: "addr \<Rightarrow> addr \<Rightarrow> rb_heap \<Rightarrow> rt \<Rightarrow> bool" where
  "rb_at tree sen h t \<longleftrightarrow>
     rtrees h tree = Some \<lparr>root = tadr sen t, sentinel = sen\<rparr> \<and>
     (\<exists>n. get_node h sen = Some n \<and> color n = 0) \<and>
     distinct (NULL # sen # map adr (inorder t)) \<and>
     (\<exists>p. \<forall>(a, n) \<in> set (tcells sen p t). get_node h a = Some n)"

definition rb_holds :: "addr \<Rightarrow> addr \<Rightarrow> rb_heap \<Rightarrow> entry list \<Rightarrow> bool" where
  "rb_holds tree sen h es \<longleftrightarrow> (\<exists>t. rb_at tree sen h t \<and> rbt t \<and> inorder t = es) \<and> sorted (map ekey es)"

lemma lay_cells: "apt w (inorder t) \<Longrightarrow> (a, n) \<in> set (tcells (nil w) (above w) t) \<Longrightarrow> get_node (lay w t) a = Some n"
proof -
  assume a: "apt w (inorder t)" "(a, n) \<in> set (tcells (nil w) (above w) t)"
  have "distinct (map fst (tcells (nil w) (above w) t))"
    using a(1) by (simp add: apt_def)
  then have m: "map_of (tcells (nil w) (above w) t) a = Some n"
    using a(2) by simp
  have o: "NULL \<notin> adr ` set (inorder t)" "nil w \<notin> adr ` set (inorder t)"
    using a(1) by (simp_all add: apt_def)
  have "a \<in> adr ` set (inorder t)"
    using a(2) keys_tcells [of "nil w" "above w" t] by (metis fst_conv image_eqI)
  then have "a \<noteq> NULL" "a \<noteq> nil w"
    using o by blast+
  then show ?thesis
    unfolding lay_def by (simp only: hp_get cget_def m option.case not_False_eq_True)
qed

lemma rb_at_lay:
  assumes "apt w (inorder t)" "color (nilrec w) = 0"
  shows "rb_at (header w) (nil w) (lay w t) t"
  unfolding rb_at_def using assms lay_cells [OF assms(1)] by (auto simp: lay_header lay_nil apt_def)

lemma rb_at_setting:
  assumes "rb_at tree sen h t"
  obtains w where "h = lay w t" "header w = tree" "nil w = sen" "outer w = h" "apt w (inorder t)" "color (nilrec w) = 0"
proof -
  obtain n p where n: "get_node h sen = Some n" "color n = 0" "\<forall>(a, n) \<in> set (tcells sen p t). get_node h a = Some n"
    using assms unfolding rb_at_def by blast
  define w where "w = \<lparr>outer = h, header = tree, nil = sen, nilrec = n, above = p\<rparr>"
  have apt: "apt w (inorder t)"
    using assms by (simp add: rb_at_def apt_def w_def)
  have "rnodes (lay w t) a = rnodes h a" for a
  proof (cases "map_of (tcells sen p t) a")
    case None
    then show ?thesis
      using n(1) by (auto simp: lay_def hp_def w_def map_add_def get_node_def split: if_splits)
  next
    case (Some m)
    then have "get_node h a = Some m"
      using n(3) map_of_SomeD by fastforce
    then show ?thesis
      using n(1) Some by (auto simp: lay_def hp_def w_def map_add_def get_node_def split: if_splits)
  qed
  moreover have "rtrees (lay w t) = rtrees h"
    using assms by (auto simp: lay_def hp_def w_def rb_at_def)
  ultimately have "h = lay w t"
    by (intro rb_heap.equality) (auto simp: fun_eq_iff)
  then show thesis
    using that [of w] apt n(2) by (simp add: w_def)
qed

lemma lay_rtrees: "x \<noteq> header w \<Longrightarrow> rtrees (lay w t) x = rtrees (outer w) x"
  by (simp add: lay_def hp_def)

text \<open>What an operation leaves alone: nodes that it does not own, and the other trees.\<close>

definition rb_frame :: "addr \<Rightarrow> addr set \<Rightarrow> rb_heap \<Rightarrow> rb_heap \<Rightarrow> bool" where
  "rb_frame tree A h h' \<longleftrightarrow> (\<forall>a. a \<notin> A \<longrightarrow> get_node h' a = get_node h a) \<and> (\<forall>x. x \<noteq> tree \<longrightarrow> rtrees h' x = rtrees h x)"


lemma rb_insert:
  assumes "rb_holds tree sen h es" "get_node h a = Some n" "a \<noteq> sen" "a \<notin> adr ` set es"
  shows "\<exists>h'. nc_rbtree_insert tree a h = Some h' \<and> rb_holds tree sen h' (insort_entry (a, key n, data n) es) \<and>
    rb_frame tree (insert a (adr ` set es)) h h'"
proof -
  obtain t where t: "rb_at tree sen h t" "rbt t" "inorder t = es" and srt: "sorted (map ekey es)"
    using assms(1) by (auto simp: rb_holds_def)
  obtain w where w: "h = lay w t" "header w = tree" "nil w = sen" "outer w = h" "apt w (inorder t)" "color (nilrec w) = 0"
    by (rule rb_at_setting [OF t(1)])
  define e where "e = (a, key n, data n)"
  define v where "v = (if t = Lf then w\<lparr>above := NULL\<rparr> else w)"
  have a: "a \<noteq> NULL" "rnodes (outer w) a = Some n"
    using assms(2) w(4) by (auto simp: get_node_def split: if_splits)
  have apt: "apt w (e # inorder t)"
    using w(3,5) assms(3,4) a(1) t(3) by (auto simp: apt_def e_def)
  have e: "adr e = a" "rnodes (outer w) (adr e) = Some n" "key n = ekey e" "data n = snd (snd e)"
    using a(2) by (simp_all add: e_def)
  have ins: "nc_rbtree_insert tree a h = Some (lay v (ins_tree e t))"
  proof (cases "t = Lf")
    case True
    then have "apt w [e]"
      using apt by simp
    from insert_lay_empty [OF this e(2-4)] show ?thesis
      unfolding v_def w(1,2) e(1) by (simp add: True)
  next
    case False
    from insert_lay [OF apt w(6) t(2) False e(2-4)] show ?thesis
      unfolding v_def w(1,2) e(1) by (simp add: False)
  qed
  have io: "inorder (ins_tree e t) = insort_entry e es"
    using insort_leaf_pos [of t e] srt t(3) by (simp add: ins_tree_def inorder_ins_fix inorder_plug)
  have "cinvc (leaf_pos (ekey e) t []) \<and> cinvh (leaf_pos (ekey e) t []) 0"
    using t(2) rbt_plug [of "leaf_pos (ekey e) t []" Lf] by (simp add: plug_leaf_pos)
  then have "rbt (ins_tree e t)"
    unfolding ins_tree_def by (intro rbt_ins_fix) simp_all
  moreover have "apt v (inorder (ins_tree e t))"
    using apt apt_perm [of "e # inorder t" "insort_entry e es" w] by (simp add: io v_def insort_entry_mset t(3)) (simp add: apt_def)
  moreover have "nil v = sen" "header v = tree" "color (nilrec v) = 0" "outer v = h" "nilrec v = nilrec w"
    using w by (simp_all add: v_def)
  ultimately have at: "rb_at tree sen (lay v (ins_tree e t)) (ins_tree e t)"
    using rb_at_lay [of v "ins_tree e t"] by simp
  have "get_node (lay v (ins_tree e t)) b = get_node h b" if "b \<notin> insert a (adr ` set es)" for b
  proof (cases "b = sen")
    case True
    then show ?thesis
      using w lay_nil [of v "ins_tree e t"] lay_nil [of w t] by (auto simp: v_def apt_def)
  next
    case False
    have "b \<notin> adr ` set (inorder (ins_tree e t))"
      unfolding io using that e(1) by auto
    then show ?thesis
      using False w(3,4) by (subst lay_outside) (simp_all add: v_def)
  qed
  moreover have "rtrees (lay v (ins_tree e t)) x = rtrees h x" if "x \<noteq> tree" for x
    using that w(2,4) by (simp add: lay_rtrees v_def)
  ultimately have "rb_frame tree (insert a (adr ` set es)) h (lay v (ins_tree e t))"
    unfolding rb_frame_def by blast
  moreover have "rb_holds tree sen (lay v (ins_tree e t)) (insort_entry e es)"
    unfolding rb_holds_def using at \<open>rbt (ins_tree e t)\<close> io sorted_insort_entry [OF srt] by blast
  ultimately show ?thesis
    using ins unfolding e_def by blast
qed

lemma rb_delete:
  assumes "rb_holds tree sen h es" "e \<in> set es"
  shows "\<exists>h' c. nc_rbtree_delete tree (adr e) h = Some h' \<and> rb_holds tree sen h' (remove1 e es) \<and>
    get_node h' (adr e) = Some (fresh_rec c) \<and> rb_frame tree (insert sen (adr ` set es)) h h'"
proof -
  obtain t where t: "rb_at tree sen h t" "rbt t" "inorder t = es" and srt: "sorted (map ekey es)"
    using assms(1) by (auto simp: rb_holds_def)
  obtain w where w: "h = lay w t" "header w = tree" "nil w = sen" "outer w = h" "apt w (inorder t)" "color (nilrec w) = 0"
    by (rule rb_at_setting [OF t(1)])
  obtain w' t' c where d: "nc_rbtree_delete (header w) (adr e) (lay w t) = Some (lay w' t')" "header w' = tree" "nil w' = sen"
    "color (nilrec w') = 0" "outer w' = h\<lparr>rnodes := (rnodes h)(adr e \<mapsto> fresh_rec c)\<rparr>" "rbt t'" "inorder t' = remove1 e es"
    using delete_lay [OF w(5,6) t(2), of e] assms(2) w t(3) by (auto simp: taken_def)
  have apt: "apt w' (inorder t')"
    using apt_remove1 [OF w(5), of e] w(3) d(3) by (simp add: d(7) t(3) apt_def)
  then have "rb_at tree sen (lay w' t') t'"
    using rb_at_lay [of w' t'] d(2-4) by simp
  moreover have "sorted (map ekey (remove1 e es))"
    using srt by (metis sorted_map_remove1)
  ultimately have "rb_holds tree sen (lay w' t') (remove1 e es)"
    using d(6,7) by (auto simp: rb_holds_def)
  moreover have "adr e \<in> adr ` set es" "NULL \<notin> adr ` set es" "sen \<notin> adr ` set es" "inj_on adr (set es)" "distinct es"
    using w(3,5) t(3) assms(2) by (simp_all add: apt_def distinct_map)
  then have "adr e \<notin> adr ` set (remove1 e es)" "adr e \<noteq> NULL" "adr e \<noteq> sen"
    using assms(2) by (auto simp: inj_on_def)
  moreover have "get_node (lay w' t') b = get_node h b" if "b \<notin> insert sen (adr ` set es)" for b
    using that d(3,5,7) assms(2) set_remove1_subset [of e es] by (subst lay_outside) (auto simp: get_node_def)
  moreover have "rtrees (lay w' t') x = rtrees h x" if "x \<noteq> tree" for x
    using that d(2,5) by (simp add: lay_rtrees)
  moreover have "get_node (lay w' t') (adr e) = Some (fresh_rec c)"
    using d(3,5,7) \<open>adr e \<notin> adr ` set (remove1 e es)\<close> \<open>adr e \<noteq> NULL\<close> \<open>adr e \<noteq> sen\<close>
    by (subst lay_outside) (simp_all add: get_node_def)
  ultimately show ?thesis
    using d(1) unfolding w(1,2) by (intro exI [of _ "lay w' t'"] exI [of _ c]) (simp add: rb_frame_def w(1))
qed

lemma rb_min:
  assumes "rb_holds tree sen h es"
  shows "nc_rbtree_min tree h = Some (case es of [] \<Rightarrow> NULL | e # es' \<Rightarrow> adr e)"
proof -
  obtain t where t: "rb_at tree sen h t" "inorder t = es"
    using assms by (auto simp: rb_holds_def)
  obtain w where w: "h = lay w t" "header w = tree" "nil w = sen" "apt w (inorder t)"
    by (rule rb_at_setting [OF t(1)])
  show ?thesis
  proof (cases t)
    case Lf
    then show ?thesis
      using w t(2) by (auto simp: nc_rbtree_min_def simp flip: w(2) simp: lay_header)
  next
    case (Nd c l e r)
    obtain ms c' m x where m: "t = plug ms (Nd c' Lf m x)" "lefts ms" "rbtree_node_min (adr e) (nil w) (lay w t) = Some (adr m)"
      using node_min_lay [of w "[]" c l e r] w(4) by (auto simp: Nd)
    have "es = m # inorder x @ behind ms"
      using t(2) by (simp add: m(1) inorder_plug lefts_before [OF m(2)])
    moreover have "adr e \<noteq> nil w"
      using w(4) by (auto simp: Nd apt_def)
    ultimately show ?thesis
      using m(3) by (simp add: nc_rbtree_min_def w(1) Nd flip: w(2)) (simp add: lay_header Nd)
  qed
qed

lemma rb_init:
  assumes "rtrees h tree \<noteq> None" "get_node h sen \<noteq> None"
  shows "\<exists>h'. nc_rbtree_init tree sen h = Some h' \<and> rb_holds tree sen h' [] \<and> rb_frame tree {sen} h h'"
proof -
  obtain n where n: "get_node h sen = Some n"
    using assms(2) by blast
  then have "sen \<noteq> NULL"
    by (auto simp: get_node_def)
  then show ?thesis
    using n assms(1)
    by (auto simp: nc_rbtree_init_def nc_rbtree_node_init_def rbtree_black_def upd_node_def get_node_def
        rb_holds_def rb_at_def rb_frame_def rbt_def intro!: exI [of _ Lf])
qed
subsection \<open>An ordered index\<close>

text \<open>
  The contract of a timer queue: \<open>least\<close> finds the first entry, or the null pointer, and \<open>take\<close> removes
  an entry. \<open>drain\<close> is its client: it takes the least entry until there is none.
\<close>

locale ordered_index =
  fixes holds :: "'s \<Rightarrow> entry list \<Rightarrow> bool"
    and least :: "'s \<Rightarrow> addr option"
    and take_out :: "addr \<Rightarrow> 's \<Rightarrow> 's option"
  assumes least_ok: "holds s es \<Longrightarrow> least s = Some (case es of [] \<Rightarrow> NULL | e # es' \<Rightarrow> adr e)"
    and take_ok: "holds s es \<Longrightarrow> e \<in> set es \<Longrightarrow> \<exists>s'. take_out (adr e) s = Some s' \<and> holds s' (remove1 e es)"
    and holds_ok: "holds s es \<Longrightarrow> sorted (map ekey es) \<and> NULL \<notin> adr ` set es"

partial_function (option) drain ::
  "('s \<Rightarrow> addr option) \<Rightarrow> (addr \<Rightarrow> 's \<Rightarrow> 's option) \<Rightarrow> 's \<Rightarrow> (addr list \<times> 's) option" where
  "drain least take_out s =
     Option.bind (least s) (\<lambda>a.
       if a = NULL then Some ([], s)
       else Option.bind (take_out a s) (\<lambda>s'.
         Option.bind (drain least take_out s') (\<lambda>(as, s''). Some (a # as, s''))))"

context ordered_index
begin

lemma drain_ok: "holds s es \<Longrightarrow> \<exists>s'. drain least take_out s = Some (map adr es, s') \<and> holds s' []"
proof (induction es arbitrary: s)
  case Nil
  then show ?case
    using least_ok [OF Nil] by (subst drain.simps) simp
next
  case (Cons e es)
  obtain s' where s': "take_out (adr e) s = Some s'" "holds s' es"
    using take_ok [OF Cons(2), of e] by auto
  have "adr e \<noteq> NULL"
    using holds_ok [OF Cons(2)] by auto
  moreover obtain s'' where "drain least take_out s' = Some (map adr es, s'')" "holds s'' []"
    using Cons(1) [OF s'(2)] by blast
  ultimately show ?case
    using least_ok [OF Cons(2)] s'(1) by (subst drain.simps) simp
qed

end

lemma rb_holds_null: "rb_holds tree sen h es \<Longrightarrow> NULL \<notin> adr ` set es \<and> sen \<notin> adr ` set es \<and> distinct (map adr es)"
  by (auto simp: rb_holds_def rb_at_def)

interpretation rb: ordered_index "rb_holds tree sen" "nc_rbtree_min tree" "nc_rbtree_delete tree" for tree sen
proof
  fix h es e
  assume "rb_holds tree sen h es" "e \<in> set es"
  from rb_delete [OF this] show "\<exists>h'. nc_rbtree_delete tree (adr e) h = Some h' \<and> rb_holds tree sen h' (remove1 e es)"
    by blast
qed (auto simp: rb_min rb_holds_null, simp add: rb_holds_def)

subsection \<open>Inserting many nodes\<close>

fun insert_all :: "addr \<Rightarrow> addr list \<Rightarrow> rb_heap \<Rightarrow> rb_heap option" where
  "insert_all tree [] h = Some h"
| "insert_all tree (a # as) h = Option.bind (nc_rbtree_insert tree a h) (insert_all tree as)"

definition entry_at :: "rb_heap \<Rightarrow> addr \<Rightarrow> entry" where
  "entry_at h a = (case get_node h a of None \<Rightarrow> (a, 0, NULL) | Some n \<Rightarrow> (a, key n, data n))"

lemma adr_entry_at [simp]: "adr (entry_at h a) = a"
  by (simp add: entry_at_def split: option.split)

lemma insert_all_ok:
  assumes "rb_holds tree sen h es" "distinct (sen # as @ map adr es)" "\<forall>a \<in> set as. get_node h a \<noteq> None"
  shows "\<exists>h'. insert_all tree as h = Some h' \<and> rb_holds tree sen h' (fold insort_entry (map (entry_at h) as) es)"
  using assms
proof (induction as arbitrary: h es)
  case (Cons a as)
  obtain n where n: "get_node h a = Some n"
    using Cons(4) by auto
  have "a \<notin> adr ` set es" "a \<noteq> sen"
    using Cons(3) by auto
  from rb_insert [OF Cons(2) n this(2,1)] obtain h' where h': "nc_rbtree_insert tree a h = Some h'"
    "rb_holds tree sen h' (insort_entry (entry_at h a) es)" "rb_frame tree (insert a (adr ` set es)) h h'"
    using n by (auto simp: entry_at_def)
  have "set (map adr (insort_entry (entry_at h a) es)) = insert a (adr ` set es)"
    by simp
  moreover have "distinct (map adr (insort_entry (entry_at h a) es))"
    using rb_holds_null [OF h'(2)] by blast
  ultimately have d: "distinct (sen # as @ map adr (insort_entry (entry_at h a) es))"
    using Cons(3) by auto
  have same: "get_node h' b = get_node h b" if "b \<in> set as" for b
    using that h'(3) Cons(3) by (auto simp: rb_frame_def)
  then have eq: "map (entry_at h') as = map (entry_at h) as"
    by (simp add: entry_at_def)
  have "\<forall>b \<in> set as. get_node h' b \<noteq> None"
    using same Cons(4) by simp
  from Cons(1) [OF h'(2) d this, unfolded eq] show ?case
    using h'(1) by simp
qed simp

text \<open>Insertion after the equal keys, over and over: a stable sort.\<close>

lemma fold_insort_entry: "sorted (map ekey es) \<Longrightarrow> sorted (map ekey (fold insort_entry xs es))"
  by (induction xs arbitrary: es) (simp_all add: sorted_insort_entry)

lemma filter_insort_entry:
  "filter (\<lambda>x. k = ekey x) (insort_entry e es) = filter (\<lambda>x. k = ekey x) es @ (if k = ekey e then [e] else [])"
proof -
  have "filter (\<lambda>x. k = ekey x \<and> ekey x \<le> ekey e) es = (if k \<le> ekey e then filter (\<lambda>x. k = ekey x) es else [])"
    "filter (\<lambda>x. k = ekey x \<and> ekey e < ekey x) es = (if ekey e < k then filter (\<lambda>x. k = ekey x) es else [])"
    by (auto intro: filter_cong simp: filter_empty_conv)
  then show ?thesis
    by (auto simp: insort_entry_def conj_commute)
qed

lemma fold_insort_sort: "fold insort_entry xs [] = sort_key ekey xs"
proof (rule properties_for_sort_key [symmetric])
  have "mset (fold insort_entry xs es) = mset xs + mset es" for es
    by (induction xs arbitrary: es) (simp_all add: insort_entry_mset)
  from this [of "[]"] show "mset (fold insort_entry xs []) = mset xs"
    by simp
  have "filter (\<lambda>x. k = ekey x) (fold insort_entry xs es) = filter (\<lambda>x. k = ekey x) es @ filter (\<lambda>x. k = ekey x) xs" for k es
    by (induction xs arbitrary: es) (simp_all add: filter_insort_entry)
  from this [of _ "[]"] show "filter (\<lambda>x. ekey k = ekey x) (fold insort_entry xs []) = filter (\<lambda>x. ekey k = ekey x) xs" for k
    by simp
qed (simp add: fold_insort_entry)

lemma map_sort_key: "map g (sort_key (\<lambda>x. f (g x)) xs) = sort_key f (map g xs)"
proof -
  have "map g (insort_key (\<lambda>x. f (g x)) x ys) = insort_key f (g x) (map g ys)" for x ys
    by (induction ys) simp_all
  then show ?thesis
    by (induction xs) simp_all
qed

lemma sort_key_cong:
  assumes "\<And>x. x \<in> set xs \<Longrightarrow> f x = g x"
  shows "sort_key f xs = sort_key g xs"
proof -
  have ins: "insort_key f x ys = insort_key g x ys" if "\<forall>y \<in> insert x (set ys). f y = g y" for x ys
    using that by (induction ys) simp_all
  show ?thesis
    using assms by (induction xs) (simp_all add: ins)
qed

subsection \<open>Sequences of operations\<close>

text \<open>The client fills in the key and the data of a node before it inserts it.\<close>

datatype rb_op = Ins addr int addr | Del addr

fun run_rb :: "addr \<Rightarrow> rb_op list \<Rightarrow> rb_heap \<Rightarrow> rb_heap option" where
  "run_rb tree [] h = Some h"
| "run_rb tree (Ins a k d # ops) h = do {
     h \<leftarrow> upd_node a (\<lambda>n. n\<lparr>key := k, data := d\<rparr>) h;
     h \<leftarrow> nc_rbtree_insert tree a h;
     run_rb tree ops h
   }"
| "run_rb tree (Del a # ops) h = do { h \<leftarrow> nc_rbtree_delete tree a h; run_rb tree ops h }"

fun rb_spec :: "rb_op list \<Rightarrow> entry list \<Rightarrow> entry list" where
  "rb_spec [] es = es"
| "rb_spec (Ins a k d # ops) es = rb_spec ops (insort_entry (a, k, d) es)"
| "rb_spec (Del a # ops) es = rb_spec ops (filter (\<lambda>e. adr e \<noteq> a) es)"

text \<open>A node is inserted when it is not in the tree, and deleted when it is.\<close>

fun rb_legal :: "addr set \<Rightarrow> rb_op list \<Rightarrow> entry list \<Rightarrow> bool" where
  "rb_legal A [] es = True"
| "rb_legal A (Ins a k d # ops) es = (a \<in> A \<and> a \<notin> adr ` set es \<and> rb_legal A ops (insort_entry (a, k, d) es))"
| "rb_legal A (Del a # ops) es = (a \<in> adr ` set es \<and> rb_legal A ops (filter (\<lambda>e. adr e \<noteq> a) es))"

text \<open>The node that \<open>k\<close> parent links lead to.\<close>

fun climb :: "nat \<Rightarrow> addr \<Rightarrow> rb_heap \<Rightarrow> addr option" where
  "climb 0 a h = Some a"
| "climb (Suc k) a h = do { n \<leftarrow> get_node h a; climb k (parent n) h }"

lemma climb_lay:
  "apt w (inorder (plug cs (Nd c l e r))) \<Longrightarrow> climb (length cs) (adr e) (lay w (plug cs (Nd c l e r))) = Some (croot (adr e) cs)"
proof (induction cs arbitrary: c l e r)
  case (Cons f cs)
  then show ?case
    by (cases f) (simp_all add: lay_nodes)
qed simp

lemma rb_depth:
  assumes "rb_holds tree sen h es" "e \<in> set es"
  shows "\<exists>k. climb k (adr e) h = get_root tree h \<and> 2 ^ k \<le> (Suc (length es)) ^ 2"
proof -
  obtain t where t: "rb_at tree sen h t" "rbt t" "inorder t = es"
    using assms(1) by (auto simp: rb_holds_def)
  obtain w where w: "h = lay w t" "header w = tree" "nil w = sen" "outer w = h" "apt w (inorder t)" "color (nilrec w) = 0"
    by (rule rb_at_setting [OF t(1)])
  obtain cs c l r where cs: "t = plug cs (Nd c l e r)"
    using plug_find [of e t] assms(2) t(3) by blast
  have "climb (length cs) (adr e) h = get_root tree h"
    using climb_lay [of w cs c l e r] w(5) lay_root [of w t] unfolding w(1) w(2) [symmetric] by (simp add: cs)
  moreover have "2 ^ length cs \<le> (Suc (length es)) ^ 2"
    using depth_bound [of cs "Nd c l e r"] t(2,3) by (simp add: cs)
  ultimately show ?thesis
    by blast
qed

lemma rb_holds_node:
  assumes "rb_holds tree sen h es" "e \<in> set es"
  shows "\<exists>n. get_node h (adr e) = Some n \<and> key n = ekey e \<and> data n = snd (snd e)"
proof -
  obtain t where t: "rb_at tree sen h t" "inorder t = es"
    using assms(1) by (auto simp: rb_holds_def)
  obtain w where w: "h = lay w t" "header w = tree" "nil w = sen" "outer w = h" "apt w (inorder t)"
    by (rule rb_at_setting [OF t(1)])
  obtain cs c l r where cs: "t = plug cs (Nd c l e r)"
    using plug_find [of e t] assms(2) t(2) by blast
  show ?thesis
    using lay_node [of w cs c l e r] w(5) unfolding w(1) by (simp add: cs)
qed

text \<open>Writing to a node outside the tree does not disturb it.\<close>

lemma rb_holds_upd:
  assumes "rb_holds tree sen h es" "a \<notin> insert sen (adr ` set es)" "upd_node a f h = Some h'"
  shows "rb_holds tree sen h' es"
proof -
  obtain t p where t: "rb_at tree sen h t" "rbt t" "inorder t = es" "\<forall>(b, n) \<in> set (tcells sen p t). get_node h b = Some n"
    and s: "sorted (map ekey es)"
    using assms(1) unfolding rb_holds_def rb_at_def by blast
  have g: "get_node h' b = get_node h b" if "b \<noteq> a" for b
    by (rule upd_node_other [OF assms(3) that])
  have "b \<noteq> a" if "(b, n) \<in> set (tcells sen p t)" for b n
    using that assms(2) t(3) keys_tcells [of sen p t] by (metis fst_conv image_eqI insertCI)
  then have "\<forall>(b, n) \<in> set (tcells sen p t). get_node h' b = Some n"
    using t(4) g by fastforce
  moreover have "rtrees h' = rtrees h"
    using assms(3) by (auto simp: upd_node_def bind_eq_Some_conv)
  moreover have "get_node h' sen = get_node h sen"
    using g assms(2) by auto
  ultimately have "rb_at tree sen h' t"
    using t(1) unfolding rb_at_def by auto
  then show ?thesis
    using t(2,3) s by (auto simp: rb_holds_def)
qed

lemma frame_nodes:
  assumes "rb_frame tree A h h'" "\<forall>a \<in> A. get_node h' a \<noteq> None" "get_node h b \<noteq> None"
  shows "get_node h' b \<noteq> None"
  using assms by (cases "b \<in> A") (auto simp: rb_frame_def)

lemma remove1_filter:
  assumes "distinct (map adr es)" "e \<in> set es"
  shows "remove1 e es = filter (\<lambda>x. adr x \<noteq> adr e) es"
proof -
  have "remove1 e es = filter (\<lambda>x. e \<noteq> x) es"
    using assms(1) by (simp add: distinct_map distinct_remove1_removeAll removeAll_filter_not_eq)
  also have "\<dots> = filter (\<lambda>x. adr x \<noteq> adr e) es"
    by (rule filter_cong) (use assms in \<open>auto simp: distinct_map inj_on_def\<close>)
  finally show ?thesis .
qed

lemma run_rb_ok:
  assumes "rb_holds tree sen h es" "rb_legal A ops es" "\<forall>a \<in> A. get_node h a \<noteq> None" "sen \<notin> A"
  shows "\<exists>h'. run_rb tree ops h = Some h' \<and> rb_holds tree sen h' (rb_spec ops es) \<and> (\<forall>a \<in> A. get_node h' a \<noteq> None)"
  using assms
proof (induction ops arbitrary: h es)
  case (Cons x ops)
  show ?case
  proof (cases x)
    case (Ins a k d)
    have a: "a \<in> A" "a \<notin> adr ` set es" "a \<noteq> sen" and legal: "rb_legal A ops (insort_entry (a, k, d) es)"
      using Cons(3,5) by (auto simp: Ins)
    then obtain n where n: "get_node h a = Some n"
      using Cons(4) by blast
    then obtain h1 where h1: "upd_node a (\<lambda>n. n\<lparr>key := k, data := d\<rparr>) h = Some h1" "get_node h1 a = Some (n\<lparr>key := k, data := d\<rparr>)"
      by (auto simp: upd_node_def get_node_def split: if_splits)
    have "rb_holds tree sen h1 es"
      using rb_holds_upd [OF Cons(2) _ h1(1)] a by blast
    from rb_insert [OF this h1(2) a(3,2)] obtain h2 where h2: "nc_rbtree_insert tree a h1 = Some h2"
      "rb_holds tree sen h2 (insort_entry (a, k, d) es)" "rb_frame tree (insert a (adr ` set es)) h1 h2"
      by auto
    have "\<forall>b \<in> insert a (adr ` set es). get_node h2 b \<noteq> None"
      using rb_holds_node [OF h2(2)] by (fastforce simp: image_iff)
    moreover have "get_node h1 b \<noteq> None" if "b \<in> A" for b
      using upd_node_other [OF h1(1), of b] h1(2) Cons(4) that by (cases "b = a") auto
    ultimately have "\<forall>b \<in> A. get_node h2 b \<noteq> None"
      using frame_nodes [OF h2(3)] by blast
    from Cons(1) [OF h2(2) legal this Cons(5)] show ?thesis
      using h1(1) h2(1) by (simp add: Ins)
  next
    case (Del a)
    obtain e where e: "e \<in> set es" "a = adr e" and legal: "rb_legal A ops (remove1 e es)"
      using Cons(3) rb_holds_null [OF Cons(2)] by (auto simp: Del remove1_filter)
    from rb_delete [OF Cons(2) e(1)] obtain h' c where h': "nc_rbtree_delete tree a h = Some h'"
      "rb_holds tree sen h' (remove1 e es)" "get_node h' a = Some (fresh_rec c)" "rb_frame tree (insert sen (adr ` set es)) h h'"
      unfolding e(2) by blast
    have "get_node h' b \<noteq> None" if "b \<in> A" for b
    proof -
      have "get_node h' b \<noteq> None" if "b \<in> adr ` set es"
      proof (cases "b = a")
        case False
        then have "b \<in> adr ` set (remove1 e es)"
          using that e rb_holds_null [OF Cons(2)] by (auto simp: remove1_filter)
        then show ?thesis
          using rb_holds_node [OF h'(2)] by fastforce
      qed (use h'(3) in simp)
      then show ?thesis
        using h'(4) that Cons(4,5) by (cases "b \<in> adr ` set es") (auto simp: rb_frame_def)
    qed
    then have "\<forall>b \<in> A. get_node h' b \<noteq> None"
      by blast
    from Cons(1) [OF h'(2) legal this Cons(5)] show ?thesis
      using h'(1) e rb_holds_null [OF Cons(2)] by (simp add: Del remove1_filter)
  qed
qed simp

subsection \<open>The properties\<close>

text \<open>A concrete heap: every address but the null pointer holds a node, the tree is at 1 and its sentinel at 2.\<close>

definition rb_start :: rb_heap where
  "rb_start = \<lparr>rnodes = \<lambda>a. Some \<lparr>left = NULL, right = NULL, parent = NULL, key = 100 - uint a, data = 7, color = 1\<rparr>,
     rtrees = \<lambda>a. Some \<lparr>root = NULL, sentinel = NULL\<rparr>\<rparr>"

definition rb_after :: "rb_op list \<Rightarrow> rb_heap" where
  "rb_after ops = the (run_rb 1 ops (the (nc_rbtree_init 1 2 rb_start)))"

lemma rb_after_ok:
  assumes "rb_legal (- {NULL, 2}) ops []"
  shows "rb_holds 1 2 (rb_after ops) (rb_spec ops []) \<and> (\<forall>a \<in> - {NULL, 2}. get_node (rb_after ops) a \<noteq> None)"
proof -
  obtain h where h: "nc_rbtree_init 1 2 rb_start = Some h" "rb_holds 1 2 h []" "rb_frame 1 {2} rb_start h"
    using rb_init [of rb_start 1 2] by (auto simp: rb_start_def get_node_def)
  have "\<forall>a \<in> - {NULL, 2}. get_node h a \<noteq> None"
    using h(3) by (auto simp: rb_frame_def rb_start_def get_node_def)
  from run_rb_ok [OF h(2) assms this] obtain h' where "run_rb 1 ops h = Some h'" "rb_holds 1 2 h' (rb_spec ops [])"
    "\<forall>a \<in> - {NULL, 2}. get_node h' a \<noteq> None"
    by auto
  moreover from this(1) have "rb_after ops = h'"
    by (simp add: rb_after_def h(1))
  ultimately show ?thesis
    by blast
qed

text \<open>
  Property (C5): any sequence of insertions of nodes that are not in the tree and deletions of
  nodes that are runs to its end without undefined behaviour, loops included. The tree then holds
  exactly the entries that the list operations give, ordered by key, as a red-black tree; and no node
  is further below the root than twice the binary logarithm of the number of nodes plus one.
\<close>

theorem rbtree_session:
  assumes "rb_holds tree sen h es" "rb_legal A ops es" "\<forall>a \<in> A. get_node h a \<noteq> None" "sen \<notin> A"
  shows "\<exists>h'. run_rb tree ops h = Some h' \<and> rb_holds tree sen h' (rb_spec ops es) \<and>
    (\<forall>e \<in> set (rb_spec ops es). \<exists>k. climb k (adr e) h' = get_root tree h' \<and> 2 ^ k \<le> (Suc (length (rb_spec ops es))) ^ 2)"
  using run_rb_ok [OF assms] rb_depth by blast

theorem rbtree_session_witness:
  "\<exists>h'. run_rb 1 [Ins 10 5 7, Ins 20 3 8, Ins 30 9 9, Del 10, Ins 40 3 1] (rb_after []) = Some h' \<and>
     rb_holds 1 2 h' [(20, 3, 8), (40, 3, 1), (30, 9, 9)]"
proof -
  let ?ops = "[Ins 10 5 7, Ins 20 3 8, Ins 30 9 9, Del 10, Ins 40 3 1]"
  have start: "rb_holds 1 2 (rb_after []) []" "\<forall>a \<in> {10, 20, 30, 40}. get_node (rb_after []) a \<noteq> None"
    using rb_after_ok [of "[]"] by auto
  have legal: "rb_legal {10, 20, 30, 40} ?ops []"
    by (simp add: insort_entry_def)
  have spec: "rb_spec ?ops [] = [(20, 3, 8), (40, 3, 1), (30, 9, 9)]"
    by (simp add: insort_entry_def)
  from rbtree_session [OF start(1) legal start(2)] show ?thesis
    unfolding spec by auto
qed

text \<open>
  Property (C18): inserting a node that is not in the tree succeeds, the loops end, and
  the entry comes to stand behind the entries with keys up to its own; the sentinel, every other
  node and every other tree is as it was.
\<close>

theorem rbtree_insert_spec:
  assumes "rb_holds tree sen h es" "get_node h a = Some n" "a \<noteq> sen" "a \<notin> adr ` set es"
  shows "\<exists>h'. nc_rbtree_insert tree a h = Some h' \<and>
    rb_holds tree sen h' (filter (\<lambda>e. ekey e \<le> key n) es @ [(a, key n, data n)] @ filter (\<lambda>e. key n < ekey e) es) \<and>
    (\<forall>b. b \<noteq> a \<longrightarrow> b \<notin> adr ` set es \<longrightarrow> get_node h' b = get_node h b) \<and>
    (\<forall>x. x \<noteq> tree \<longrightarrow> rtrees h' x = rtrees h x)"
  using rb_insert [OF assms] by (auto simp: rb_frame_def insort_entry_def)

theorem rbtree_insert_spec_witness:
  "\<exists>h'. nc_rbtree_insert 1 40 (rb_after [Ins 10 5 7, Ins 20 90 8, Ins 30 60 9]) = Some h' \<and>
     (\<exists>k d. rb_holds 1 2 h' (filter (\<lambda>e. ekey e \<le> k) [(10, 5, 7), (30, 60, 9), (20, 90, 8)] @ [(40, k, d)] @
       filter (\<lambda>e. k < ekey e) [(10, 5, 7), (30, 60, 9), (20, 90, 8)]))"
proof -
  have start: "rb_holds 1 2 (rb_after [Ins 10 5 7, Ins 20 90 8, Ins 30 60 9]) [(10, 5, 7), (30, 60, 9), (20, 90, 8)]"
    "get_node (rb_after [Ins 10 5 7, Ins 20 90 8, Ins 30 60 9]) 40 \<noteq> None"
    using rb_after_ok [of "[Ins 10 5 7, Ins 20 90 8, Ins 30 60 9]"] by (simp_all add: insort_entry_def)
  then obtain n where n: "get_node (rb_after [Ins 10 5 7, Ins 20 90 8, Ins 30 60 9]) 40 = Some n"
    by blast
  have "(40::addr) \<noteq> 2" "(40::addr) \<notin> adr ` set [(10, 5, 7), (30, 60, 9), (20, 90, 8)]"
    by simp_all
  from rbtree_insert_spec [OF start(1) n this] show ?thesis
    by (elim exE conjE) (intro exI conjI)
qed

text \<open>
  Property (C19): deleting a node of the tree succeeds, the loops end, and exactly its
  entry is gone; the links, the key and the data of the node are reset, and beyond the nodes of the tree
  and its sentinel nothing has changed.
\<close>

theorem rbtree_delete_spec:
  assumes "rb_holds tree sen h es" "e \<in> set es"
  shows "\<exists>h' c. nc_rbtree_delete tree (adr e) h = Some h' \<and> rb_holds tree sen h' (remove1 e es) \<and>
    get_node h' (adr e) = Some \<lparr>left = NULL, right = NULL, parent = NULL, key = 0, data = NULL, color = c\<rparr> \<and>
    (\<forall>b. b \<noteq> sen \<longrightarrow> b \<notin> adr ` set es \<longrightarrow> get_node h' b = get_node h b) \<and>
    (\<forall>x. x \<noteq> tree \<longrightarrow> rtrees h' x = rtrees h x)"
  using rb_delete [OF assms] by (auto simp: rb_frame_def fresh_rec_def)

theorem rbtree_delete_spec_witness:
  "\<exists>h'. nc_rbtree_delete 1 30 (rb_after [Ins 10 5 7, Ins 20 90 8, Ins 30 60 9, Ins 40 70 9]) = Some h' \<and>
     rb_holds 1 2 h' [(10, 5, 7), (40, 70, 9), (20, 90, 8)]"
proof -
  have start: "rb_holds 1 2 (rb_after [Ins 10 5 7, Ins 20 90 8, Ins 30 60 9, Ins 40 70 9])
      [(10, 5, 7), (30, 60, 9), (40, 70, 9), (20, 90, 8)]"
    using rb_after_ok [of "[Ins 10 5 7, Ins 20 90 8, Ins 30 60 9, Ins 40 70 9]"] by (simp add: insort_entry_def)
  from rbtree_delete_spec [OF start, of "(30, 60, 9)"] show ?thesis
    by auto
qed

text \<open>
  Property (C9): initialising a tree, inserting any nodes and then taking the minimum out until
  the tree is empty delivers the nodes sorted by their keys, nodes with equal keys in the order of
  insertion: the tree is a stable sorting machine.
\<close>

theorem rbtree_sorts:
  assumes "rtrees h tree \<noteq> None" "distinct (sen # as)" "\<forall>a \<in> set (sen # as). get_node h a \<noteq> None"
  shows "\<exists>h1 h2 h3. nc_rbtree_init tree sen h = Some h1 \<and> insert_all tree as h1 = Some h2 \<and>
    drain (nc_rbtree_min tree) (nc_rbtree_delete tree) h2 = Some (sort_key (\<lambda>a. key (the (get_node h a))) as, h3) \<and>
    rb_holds tree sen h3 []"
proof -
  obtain h1 where h1: "nc_rbtree_init tree sen h = Some h1" "rb_holds tree sen h1 []" "rb_frame tree {sen} h h1"
    using rb_init [OF assms(1)] assms(3) by auto
  have same: "get_node h1 a = get_node h a" if "a \<in> set as" for a
    using that h1(3) assms(2) by (auto simp: rb_frame_def)
  then obtain h2 where h2: "insert_all tree as h1 = Some h2" "rb_holds tree sen h2 (sort_key ekey (map (entry_at h1) as))"
    using insert_all_ok [OF h1(2), of as] assms(2,3) by (auto simp: fold_insort_sort)
  obtain h3 where h3: "drain (nc_rbtree_min tree) (nc_rbtree_delete tree) h2 = Some (map adr (sort_key ekey (map (entry_at h1) as)), h3)"
    "rb_holds tree sen h3 []"
    using rb.drain_ok [OF h2(2)] by blast
  have "map adr (sort_key ekey (map (entry_at h1) as)) = sort_key (\<lambda>a. ekey (entry_at h1 a)) as"
    by (simp flip: map_sort_key add: comp_def)
  also have "\<dots> = sort_key (\<lambda>a. key (the (get_node h a))) as"
  proof -
    have "ekey (entry_at h1 a) = key (the (get_node h a))" if "a \<in> set as" for a
      using same [OF that] assms(3) that by (auto simp: entry_at_def)
    then show ?thesis
      by (rule sort_key_cong)
  qed
  finally show ?thesis
    using h1(1) h2(1) h3 by auto
qed

theorem rbtree_sorts_witness:
  "\<exists>h1 h2 h3. nc_rbtree_init 1 2 rb_start = Some h1 \<and> insert_all 1 [10, 30, 20] h1 = Some h2 \<and>
    drain (nc_rbtree_min 1) (nc_rbtree_delete 1) h2 = Some ([30, 20, 10], h3)"
proof -
  have k: "key (the (get_node rb_start a)) = 100 - uint a" if "a \<noteq> NULL" for a
    using that by (simp add: rb_start_def get_node_def)
  have "sort_key (\<lambda>a. key (the (get_node rb_start a))) [10, 30, 20] = [30, 20, 10]"
    by (simp add: k)
  then show ?thesis
    using rbtree_sorts [of rb_start 1 2 "[10, 30, 20]"] by (auto simp: rb_start_def get_node_def)
qed

end
