(* ===== verification/Nc_Palloc.thy ===== *)
theory Nc_Palloc
  imports Nc_Macros
begin

text \<open>
  \<open>nc_palloc.h\<close> and \<open>nc_palloc.c\<close>: a memory pool. The library places its own records in the memory
  that it manages: a block starts with a \<open>struct nc_pool_data\<close> (and the first block goes on with the
  rest of \<open>struct nc_pool\<close>), and the records for large blocks and for cleanup handlers are allocated
  from the pool itself. The typed stores \<open>pdata\<close>, \<open>phead\<close>, \<open>larges\<close> and \<open>cleans\<close> hold these records under
  their addresses; an access is defined only while the record lies inside a live block, so the code
  must not touch the pool after it has freed it. The call of a cleanup handler, a function pointer of
  the caller, is recorded in \<open>calls\<close>. \<open>NC_DEBUG_PALLOC\<close> is not defined by the build.
\<close>

subsection \<open>State\<close>

record nc_pool_data =
  d_last :: addr
  d_end :: addr
  d_next :: addr
  d_failed :: "32 word"

text \<open>\<open>struct nc_pool\<close> without its first member \<open>d\<close>, which is in \<open>pdata\<close> under the same address.\<close>

record nc_pool =
  p_max :: size_t
  p_current :: addr
  p_large :: addr
  p_cleanup :: addr

record nc_pool_large =
  l_next :: addr
  l_alloc :: addr

record nc_pool_cleanup =
  c_handler :: addr
  c_data :: addr
  c_next :: addr

record pool_heap = heap +
  pdata :: "addr \<Rightarrow> nc_pool_data option"
  phead :: "addr \<Rightarrow> nc_pool option"
  larges :: "addr \<Rightarrow> nc_pool_large option"
  cleans :: "addr \<Rightarrow> nc_pool_cleanup option"
  calls :: "(addr \<times> addr) list"

text \<open>Sizes of the structs on the LP64 platform.\<close>

definition sizeof_pool_data :: nat where "sizeof_pool_data = 32"
definition sizeof_pool :: nat where "sizeof_pool = 64"
definition sizeof_large :: nat where "sizeof_large = 16"
definition sizeof_cleanup :: nat where "sizeof_cleanup = 24"

definition NC_MAX_ALLOC_FROM_POOL :: size_t where "NC_MAX_ALLOC_FROM_POOL = 4096 - 1"
definition NC_DEFAULT_POOL_SIZE :: size_t where "NC_DEFAULT_POOL_SIZE = 16 * 1024"
definition NC_POOL_ALIGNMENT :: size_t where "NC_POOL_ALIGNMENT = 16"

text \<open>Access to a record: its bytes must lie in a live block.\<close>

definition record_ok :: "pool_heap \<Rightarrow> addr \<Rightarrow> nat \<Rightarrow> bool" where
  "record_ok h p n \<longleftrightarrow> p \<noteq> NULL \<and> valid_range h p n"

definition get_d :: "pool_heap \<Rightarrow> addr \<Rightarrow> nc_pool_data option" where
  "get_d h p = (if record_ok h p sizeof_pool_data then pdata h p else None)"

definition put_d :: "addr \<Rightarrow> nc_pool_data \<Rightarrow> pool_heap \<Rightarrow> pool_heap option" where
  "put_d p d h = do { require (record_ok h p sizeof_pool_data); Some (h\<lparr>pdata := (pdata h)(p \<mapsto> d)\<rparr>) }"

definition upd_d :: "addr \<Rightarrow> (nc_pool_data \<Rightarrow> nc_pool_data) \<Rightarrow> pool_heap \<Rightarrow> pool_heap option" where
  "upd_d p f h = do { d \<leftarrow> get_d h p; put_d p (f d) h }"

definition get_head :: "pool_heap \<Rightarrow> addr \<Rightarrow> nc_pool option" where
  "get_head h p = (if record_ok h p sizeof_pool then phead h p else None)"

definition put_head :: "addr \<Rightarrow> nc_pool \<Rightarrow> pool_heap \<Rightarrow> pool_heap option" where
  "put_head p d h = do { require (record_ok h p sizeof_pool); Some (h\<lparr>phead := (phead h)(p \<mapsto> d)\<rparr>) }"

definition upd_head :: "addr \<Rightarrow> (nc_pool \<Rightarrow> nc_pool) \<Rightarrow> pool_heap \<Rightarrow> pool_heap option" where
  "upd_head p f h = do { d \<leftarrow> get_head h p; put_head p (f d) h }"

definition get_large :: "pool_heap \<Rightarrow> addr \<Rightarrow> nc_pool_large option" where
  "get_large h p = (if record_ok h p sizeof_large then larges h p else None)"

definition put_large :: "addr \<Rightarrow> nc_pool_large \<Rightarrow> pool_heap \<Rightarrow> pool_heap option" where
  "put_large p d h = do { require (record_ok h p sizeof_large); Some (h\<lparr>larges := (larges h)(p \<mapsto> d)\<rparr>) }"

definition upd_large :: "addr \<Rightarrow> (nc_pool_large \<Rightarrow> nc_pool_large) \<Rightarrow> pool_heap \<Rightarrow> pool_heap option" where
  "upd_large p f h = do { d \<leftarrow> get_large h p; put_large p (f d) h }"

definition get_clean :: "pool_heap \<Rightarrow> addr \<Rightarrow> nc_pool_cleanup option" where
  "get_clean h p = (if record_ok h p sizeof_cleanup then cleans h p else None)"

definition put_clean :: "addr \<Rightarrow> nc_pool_cleanup \<Rightarrow> pool_heap \<Rightarrow> pool_heap option" where
  "put_clean p d h = do { require (record_ok h p sizeof_cleanup); Some (h\<lparr>cleans := (cleans h)(p \<mapsto> d)\<rparr>) }"

subsection \<open>Creation\<close>

definition nc_pool_create :: "size_t \<Rightarrow> pool_heap \<Rightarrow> (addr \<times> pool_heap) option" where
  "nc_pool_create size0 h =
     (let (p, h) = nc_memalign NC_POOL_ALIGNMENT size0 h in
      if p = NULL then Some (NULL, h)
      else do {
        h \<leftarrow> put_d p \<lparr>d_last = p + of_nat sizeof_pool, d_end = p + size0, d_next = NULL, d_failed = 0\<rparr> h;
        let size1 = size0 - of_nat sizeof_pool;
        h \<leftarrow> put_head p \<lparr>p_max = c_MIN size1 NC_MAX_ALLOC_FROM_POOL, p_current = p, p_large = NULL, p_cleanup = NULL\<rparr> h;
        Some (p, h)
      })"

subsection \<open>Small allocations\<close>

text \<open>The search through the blocks: the memory found, or \<open>None\<close> inside when no block has the room.\<close>

partial_function (option) small_loop ::
  "size_t \<Rightarrow> bool \<Rightarrow> addr \<Rightarrow> pool_heap \<Rightarrow> (addr option \<times> pool_heap) option" where
  "small_loop size0 align p h =
     Option.bind (get_d h p) (\<lambda>d.
       let m = (if align then NC_ALIGN_PTR (d_last d) NC_ALIGNMENT else d_last d) in
       if d_end d - m \<ge> size0
       then Option.bind (upd_d p (\<lambda>d. d\<lparr>d_last := m + size0\<rparr>) h) (\<lambda>h. Some (Some m, h))
       else if d_next d \<noteq> NULL then small_loop size0 align (d_next d) h
       else Some (None, h))"

text \<open>To the last block, counting the failures of the blocks on the way.\<close>

partial_function (option) walk_loop :: "addr \<Rightarrow> addr \<Rightarrow> pool_heap \<Rightarrow> (addr \<times> pool_heap) option" where
  "walk_loop pool p h =
     Option.bind (get_d h p) (\<lambda>d.
       if d_next d = NULL then Some (p, h)
       else Option.bind (upd_d p (\<lambda>d. d\<lparr>d_failed := d_failed d + 1\<rparr>) h) (\<lambda>h.
         Option.bind (if d_failed d > 4 then upd_head pool (\<lambda>hd. hd\<lparr>p_current := d_next d\<rparr>) h else Some h) (\<lambda>h.
           walk_loop pool (d_next d) h)))"

definition nc_palloc_block :: "addr \<Rightarrow> size_t \<Rightarrow> pool_heap \<Rightarrow> (addr \<times> pool_heap) option" where
  "nc_palloc_block pool size0 h = do {
     d \<leftarrow> get_d h pool;
     let psize = d_end d - pool;
     let (b, h) = nc_memalign NC_POOL_ALIGNMENT psize h;
     if b = NULL then Some (NULL, h)
     else do {
       let m = NC_ALIGN_PTR (b + of_nat sizeof_pool_data) NC_ALIGNMENT;
       h \<leftarrow> put_d b \<lparr>d_last = m + size0, d_end = b + psize, d_next = NULL, d_failed = 0\<rparr> h;
       hd \<leftarrow> get_head h pool;
       (p, h) \<leftarrow> walk_loop pool (p_current hd) h;
       h \<leftarrow> upd_d p (\<lambda>d. d\<lparr>d_next := b\<rparr>) h;
       Some (m, h)
     }
   }"

definition nc_palloc_small :: "addr \<Rightarrow> size_t \<Rightarrow> bool \<Rightarrow> pool_heap \<Rightarrow> (addr \<times> pool_heap) option" where
  "nc_palloc_small pool size0 align h = do {
     hd \<leftarrow> get_head h pool;
     (r, h) \<leftarrow> small_loop size0 align (p_current hd) h;
     case r of Some m \<Rightarrow> Some (m, h) | None \<Rightarrow> nc_palloc_block pool size0 h
   }"

subsection \<open>Large allocations\<close>

text \<open>A record whose block has been freed is used again, if one of the first five is.\<close>

partial_function (option) reuse_loop :: "int \<Rightarrow> addr \<Rightarrow> addr \<Rightarrow> pool_heap \<Rightarrow> (bool \<times> pool_heap) option" where
  "reuse_loop n l p h =
     (if l = NULL then Some (False, h)
      else Option.bind (get_large h l) (\<lambda>r.
        if l_alloc r = NULL
        then Option.bind (upd_large l (\<lambda>r. r\<lparr>l_alloc := p\<rparr>) h) (\<lambda>h. Some (True, h))
        else if n > 3 then Some (False, h)
        else reuse_loop (n + 1) (l_next r) p h))"

definition nc_palloc_large :: "addr \<Rightarrow> size_t \<Rightarrow> pool_heap \<Rightarrow> (addr \<times> pool_heap) option" where
  "nc_palloc_large pool size0 h =
     (let (p, h) = nc_alloc size0 h in
      if p = NULL then Some (NULL, h)
      else do {
        hd \<leftarrow> get_head h pool;
        (reused, h) \<leftarrow> reuse_loop 0 (p_large hd) p h;
        if reused then Some (p, h)
        else do {
          (l, h) \<leftarrow> nc_palloc_small pool (of_nat sizeof_large) True h;
          if l = NULL then do { h \<leftarrow> nc_free p h; Some (NULL, h) }
          else do {
            hd \<leftarrow> get_head h pool;
            h \<leftarrow> put_large l \<lparr>l_next = p_large hd, l_alloc = p\<rparr> h;
            h \<leftarrow> upd_head pool (\<lambda>hd. hd\<lparr>p_large := l\<rparr>) h;
            Some (p, h)
          }
        }
      })"

definition nc_palloc :: "addr \<Rightarrow> size_t \<Rightarrow> pool_heap \<Rightarrow> (addr \<times> pool_heap) option" where
  "nc_palloc pool size0 h = do {
     hd \<leftarrow> get_head h pool;
     if size0 \<le> p_max hd then nc_palloc_small pool size0 True h else nc_palloc_large pool size0 h
   }"

definition nc_pnalloc :: "addr \<Rightarrow> size_t \<Rightarrow> pool_heap \<Rightarrow> (addr \<times> pool_heap) option" where
  "nc_pnalloc pool size0 h = do {
     hd \<leftarrow> get_head h pool;
     if size0 \<le> p_max hd then nc_palloc_small pool size0 False h else nc_palloc_large pool size0 h
   }"

definition nc_pcalloc :: "addr \<Rightarrow> size_t \<Rightarrow> pool_heap \<Rightarrow> (addr \<times> pool_heap) option" where
  "nc_pcalloc pool size0 h = do {
     (p, h) \<leftarrow> nc_palloc pool size0 h;
     if p \<noteq> NULL then do { h \<leftarrow> memset p 0 size0 h; Some (p, h) } else Some (p, h)
   }"

partial_function (option) pfree_loop :: "addr \<Rightarrow> addr \<Rightarrow> pool_heap \<Rightarrow> (int \<times> pool_heap) option" where
  "pfree_loop l p h =
     (if l = NULL then Some (NC_ERROR, h)
      else Option.bind (get_large h l) (\<lambda>r.
        if p = l_alloc r
        then Option.bind (nc_free (l_alloc r) h) (\<lambda>h.
          Option.bind (upd_large l (\<lambda>r. r\<lparr>l_alloc := NULL\<rparr>) h) (\<lambda>h. Some (NC_OK, h)))
        else pfree_loop (l_next r) p h))"

definition nc_pfree :: "addr \<Rightarrow> addr \<Rightarrow> pool_heap \<Rightarrow> (int \<times> pool_heap) option" where
  "nc_pfree pool p h = do { hd \<leftarrow> get_head h pool; pfree_loop (p_large hd) p h }"

subsection \<open>Cleanup handlers\<close>

text \<open>
  The members of the record are written one after the other, \<open>data\<close> before \<open>handler\<close>; when the second
  allocation fails the record stays unlinked with undetermined members, which the model leaves out.
\<close>

definition nc_pool_cleanup_add :: "addr \<Rightarrow> size_t \<Rightarrow> pool_heap \<Rightarrow> (addr \<times> pool_heap) option" where
  "nc_pool_cleanup_add p size0 h = do {
     (c, h) \<leftarrow> nc_palloc p (of_nat sizeof_cleanup) h;
     if c = NULL then Some (NULL, h)
     else do {
       (dt, h) \<leftarrow> (if size0 \<noteq> 0 then nc_palloc p size0 h else Some (NULL, h));
       require (record_ok h c sizeof_cleanup);
       if size0 \<noteq> 0 \<and> dt = NULL then Some (NULL, h)
       else do {
         hd \<leftarrow> get_head h p;
         h \<leftarrow> put_clean c \<lparr>c_handler = NULL, c_data = dt, c_next = p_cleanup hd\<rparr> h;
         h \<leftarrow> upd_head p (\<lambda>hd. hd\<lparr>p_cleanup := c\<rparr>) h;
         Some (c, h)
       }
     }
   }"

definition call_handler :: "nc_pool_cleanup \<Rightarrow> pool_heap \<Rightarrow> pool_heap" where
  "call_handler r h = (if c_handler r \<noteq> NULL then h\<lparr>calls := calls h @ [(c_handler r, c_data r)]\<rparr> else h)"

partial_function (option) cleanup_loop :: "addr \<Rightarrow> pool_heap \<Rightarrow> pool_heap option" where
  "cleanup_loop c h =
     (if c = NULL then Some h
      else Option.bind (get_clean h c) (\<lambda>r. cleanup_loop (c_next r) (call_handler r h)))"

subsection \<open>Destruction and reset\<close>

text \<open>The macro \<open>nc_free\<close> also clears the pointer it is given: here \<open>l->alloc\<close>, and a local variable elsewhere.\<close>

partial_function (option) free_larges :: "addr \<Rightarrow> pool_heap \<Rightarrow> pool_heap option" where
  "free_larges l h =
     (if l = NULL then Some h
      else Option.bind (get_large h l) (\<lambda>r.
        Option.bind (if l_alloc r \<noteq> NULL
                     then Option.bind (nc_free (l_alloc r) h) (upd_large l (\<lambda>r. r\<lparr>l_alloc := NULL\<rparr>)) else Some h) (\<lambda>h.
          Option.bind (get_large h l) (\<lambda>r. free_larges (l_next r) h))))"

partial_function (option) free_pools :: "addr \<Rightarrow> addr \<Rightarrow> pool_heap \<Rightarrow> pool_heap option" where
  "free_pools p n h =
     Option.bind (nc_free p h) (\<lambda>h.
       if n = NULL then Some h
       else Option.bind (get_d h n) (\<lambda>d. free_pools n (d_next d) h))"

definition nc_pool_destroy :: "addr \<Rightarrow> pool_heap \<Rightarrow> pool_heap option" where
  "nc_pool_destroy pool h = do {
     hd \<leftarrow> get_head h pool;
     h \<leftarrow> cleanup_loop (p_cleanup hd) h;
     hd \<leftarrow> get_head h pool;
     h \<leftarrow> free_larges (p_large hd) h;
     d \<leftarrow> get_d h pool;
     free_pools pool (d_next d) h
   }"

partial_function (option) reset_loop :: "addr \<Rightarrow> pool_heap \<Rightarrow> pool_heap option" where
  "reset_loop p h =
     (if p = NULL then Some h
      else Option.bind (upd_d p (\<lambda>d. d\<lparr>d_last := p + of_nat sizeof_pool, d_failed := 0\<rparr>) h) (\<lambda>h.
        Option.bind (get_d h p) (\<lambda>d. reset_loop (d_next d) h)))"

definition nc_pool_reset :: "addr \<Rightarrow> pool_heap \<Rightarrow> pool_heap option" where
  "nc_pool_reset pool h = do {
     hd \<leftarrow> get_head h pool;
     h \<leftarrow> free_larges (p_large hd) h;
     h \<leftarrow> reset_loop pool h;
     upd_head pool (\<lambda>hd. hd\<lparr>p_current := pool, p_large := NULL\<rparr>) h
   }"

end
