(* ===== verification/Nc_Palloc_Correct.thy ===== *)
theory Nc_Palloc_Correct
  imports Nc_Palloc
begin

text \<open>
  The invariant of a memory pool and what the allocation routines do to it. \<open>core\<close> is the chain of blocks
  with the regions that have been handed out of them; every region lies between the header of its
  block and the \<open>last\<close> pointer, so a new one, which starts at or behind \<open>last\<close>, is apart from all
  others.
\<close>

subsection \<open>Blocks and regions\<close>

text \<open>Writing a record changes no block.\<close>

lemma pool_frame [simp]:
  "block_size (h\<lparr>pdata := P\<rparr>) = block_size h" "block_size (h\<lparr>phead := H\<rparr>) = block_size h"
  "block_size (h\<lparr>larges := L\<rparr>) = block_size h" "block_size (h\<lparr>cleans := C\<rparr>) = block_size h"
  "block_size (h\<lparr>calls := cl\<rparr>) = block_size h"
  "heap_ok (h\<lparr>pdata := P\<rparr>) = heap_ok h" "heap_ok (h\<lparr>phead := H\<rparr>) = heap_ok h"
  "heap_ok (h\<lparr>larges := L\<rparr>) = heap_ok h" "heap_ok (h\<lparr>cleans := C\<rparr>) = heap_ok h"
  "heap_ok (h\<lparr>calls := cl\<rparr>) = heap_ok h"
  "record_ok (h\<lparr>pdata := P\<rparr>) = record_ok h" "record_ok (h\<lparr>phead := H\<rparr>) = record_ok h"
  "record_ok (h\<lparr>larges := L\<rparr>) = record_ok h" "record_ok (h\<lparr>cleans := C\<rparr>) = record_ok h"
  "record_ok (h\<lparr>calls := cl\<rparr>) = record_ok h"
  by (simp_all add: block_size_def heap_ok_def record_ok_def valid_range_def fun_eq_iff)

lemma fits_NULL [simp]: "\<not> fits NULL n"
  by (simp add: fits_def)

lemmas pool_sizes = sizeof_pool_data_def sizeof_pool_def sizeof_large_def sizeof_cleanup_def

definition sep :: "addr \<times> nat \<Rightarrow> addr \<times> nat \<Rightarrow> bool" where
  "sep r s \<longleftrightarrow> unat (fst r) + snd r \<le> unat (fst s) \<or> unat (fst s) + snd s \<le> unat (fst r)"

lemma sep_sym: "sep r s \<longleftrightarrow> sep s r"
  by (auto simp: sep_def)

fun pchain :: "pool_heap \<Rightarrow> addr \<Rightarrow> addr list \<Rightarrow> bool" where
  "pchain h p [] = (p = NULL)"
| "pchain h p (q # qs) = (p = q \<and> (\<exists>d. pdata h q = Some d \<and> pchain h (d_next d) qs))"

definition hdr :: "addr \<Rightarrow> addr \<Rightarrow> nat" where
  "hdr pool p = (if p = pool then 64 else 32)"

definition block_ok :: "pool_heap \<Rightarrow> addr \<Rightarrow> nat \<Rightarrow> addr \<Rightarrow> bool" where
  "block_ok h pool n p \<longleftrightarrow> block_size h p = Some n \<and>
     (\<exists>d. pdata h p = Some d \<and> d_end d = p + of_nat n \<and>
       unat p + hdr pool p \<le> unat (d_last d) \<and> unat (d_last d) \<le> unat p + n)"

definition in_block :: "pool_heap \<Rightarrow> addr \<Rightarrow> addr \<Rightarrow> addr \<times> nat \<Rightarrow> bool" where
  "in_block h pool p r \<longleftrightarrow> unat p + hdr pool p \<le> unat (fst r) \<and> unat (fst r) + snd r \<le> unat (d_last (the (pdata h p)))"

definition core :: "pool_heap \<Rightarrow> addr \<Rightarrow> nat \<Rightarrow> addr list \<Rightarrow> (addr \<times> nat) list \<Rightarrow> bool" where
  "core h pool n ps rs \<longleftrightarrow> heap_ok h \<and> pchain h pool ps \<and> pool \<in> set ps \<and> distinct ps \<and> 64 \<le> n \<and> 8 dvd n \<and>
     (\<forall>p \<in> set ps. block_ok h pool n p) \<and>
     (\<exists>hd. phead h pool = Some hd \<and> p_max hd = c_MIN (of_nat (n - 64)) NC_MAX_ALLOC_FROM_POOL \<and> p_current hd \<in> set ps) \<and>
     (\<forall>r \<in> set rs. \<exists>p \<in> set ps. in_block h pool p r) \<and> sorted_wrt sep rs"

lemma coreD:
  assumes "core h pool n ps rs"
  shows "heap_ok h" "pchain h pool ps" "pool \<in> set ps" "distinct ps" "64 \<le> n" "8 dvd n"
    "p \<in> set ps \<Longrightarrow> block_ok h pool n p" "r \<in> set rs \<Longrightarrow> \<exists>p \<in> set ps. in_block h pool p r" "sorted_wrt sep rs"
  using assms by (auto simp: core_def)

lemma core_block:
  assumes "core h pool n ps rs" "p \<in> set ps"
  obtains d where "pdata h p = Some d" "get_d h p = Some d" "block_size h p = Some n" "d_end d = p + of_nat n"
    "unat p + hdr pool p \<le> unat (d_last d)" "unat (d_last d) \<le> unat p + n" "p \<noteq> NULL" "16 dvd unat p"
    "unat p + n < 18446744073709551616"
proof -
  obtain d where d: "pdata h p = Some d" "block_size h p = Some n" "d_end d = p + of_nat n"
    "unat p + hdr pool p \<le> unat (d_last d)" "unat (d_last d) \<le> unat p + n"
    using coreD(7) [OF assms] by (auto simp: block_ok_def)
  have f: "fits p n"
    using block_size_fits [OF coreD(1) [OF assms(1)] d(2)] .
  have "get_d h p = Some d"
    using d(1) f valid_range_block [OF d(2), of p 32] coreD(5) [OF assms(1)]
    by (simp add: get_d_def record_ok_def pool_sizes fits_def)
  then show thesis
    using that d f coreD(5) [OF assms(1)] by (simp add: fits_def)
qed

lemma core_head:
  assumes "core h pool n ps rs"
  obtains hd where "get_head h pool = Some hd" "phead h pool = Some hd"
    "p_max hd = c_MIN (of_nat (n - 64)) NC_MAX_ALLOC_FROM_POOL" "p_current hd \<in> set ps"
proof -
  obtain hd where hd: "phead h pool = Some hd" "p_max hd = c_MIN (of_nat (n - 64)) NC_MAX_ALLOC_FROM_POOL" "p_current hd \<in> set ps"
    using assms by (auto simp: core_def)
  obtain d where d: "block_size h pool = Some n" "pool \<noteq> NULL"
    using core_block [OF assms coreD(3) [OF assms]] by metis
  have "get_head h pool = Some hd"
    using hd(1) d valid_range_block [OF d(1), of pool 64] coreD(5) [OF assms] by (simp add: get_head_def record_ok_def pool_sizes)
  then show thesis
    using that hd by blast
qed

lemma pchain_cong:
  "\<forall>p \<in> set ps. map_option d_next (pdata h' p) = map_option d_next (pdata h p) \<Longrightarrow> pchain h' p ps = pchain h p ps"
proof (induction ps arbitrary: p)
  case (Cons q ps)
  have IH: "pchain h' r ps = pchain h r ps" for r
    by (rule Cons(1)) (use Cons(2) in simp)
  have "map_option d_next (pdata h' q) = map_option d_next (pdata h q)"
    using Cons(2) by simp
  then show ?case
    by (cases "pdata h q"; cases "pdata h' q") (simp_all add: IH)
qed simp

lemma pchain_suffix:
  assumes "pchain h p ps" "q \<in> set ps"
  shows "\<exists>qs. pchain h q qs \<and> set qs \<subseteq> set ps \<and> qs \<noteq> [] \<and> last qs = last ps"
  using assms
proof (induction ps arbitrary: p)
  case (Cons a ps)
  show ?case
  proof (cases "q = a")
    case True
    then show ?thesis
      using Cons(2) by (intro exI [of _ "a # ps"]) simp
  next
    case False
    then obtain d where "pdata h a = Some d" "pchain h (d_next d) ps" "q \<in> set ps"
      using Cons(2,3) by auto
    from Cons(1) [OF this(2,3)] show ?thesis
      using \<open>q \<in> set ps\<close> by (auto intro: subset_insertI2)
  qed
qed simp

subsection \<open>The search\<close>

definition aligned_last :: "bool \<Rightarrow> nc_pool_data \<Rightarrow> addr" where
  "aligned_last al d = (if al then NC_ALIGN_PTR (d_last d) NC_ALIGNMENT else d_last d)"

lemma align8:
  assumes "8 dvd e" "unat a \<le> e" "e < 18446744073709551616"
  shows "unat a \<le> unat (NC_ALIGN_PTR a NC_ALIGNMENT)" "unat (NC_ALIGN_PTR a NC_ALIGNMENT) \<le> e"
    "8 dvd unat (NC_ALIGN_PTR a NC_ALIGNMENT)" "8 dvd unat a \<Longrightarrow> NC_ALIGN_PTR a NC_ALIGNMENT = a"
proof -
  have "e \<le> 18446744073709551608"
    using assms(1,3) by (auto elim!: dvdE)
  then have u: "unat (NC_ALIGN_PTR a NC_ALIGNMENT) = 8 * ((unat a + 7) div 8)"
    using unat_NC_ALIGN_PTR [of a 3] assms(2) by (simp add: NC_ALIGNMENT_def)
  show "unat a \<le> unat (NC_ALIGN_PTR a NC_ALIGNMENT)" "8 dvd unat (NC_ALIGN_PTR a NC_ALIGNMENT)"
    unfolding u by simp_all
  have "(unat a + 7) div 8 \<le> e div 8"
    using assms(1,2) by (auto elim!: dvdE)
  then show "unat (NC_ALIGN_PTR a NC_ALIGNMENT) \<le> e"
    unfolding u using assms(1) by (auto elim!: dvdE)
  show "NC_ALIGN_PTR a NC_ALIGNMENT = a" if "8 dvd unat a"
    using that u by (auto elim!: dvdE simp: word_unat_eq_iff)
qed

lemma aligned_last:
  assumes "core h pool n ps rs" "p \<in> set ps" "pdata h p = Some d"
  shows "unat (d_last d) \<le> unat (aligned_last al d)" "unat (aligned_last al d) \<le> unat p + n"
    "al \<Longrightarrow> 8 dvd unat (aligned_last al d)"
    "unat (d_end d - aligned_last al d) = unat p + n - unat (aligned_last al d)"
proof -
  obtain d' where d: "pdata h p = Some d'" "d_end d' = p + of_nat n" "unat (d_last d') \<le> unat p + n" "16 dvd unat p"
    "unat p + n < 18446744073709551616"
    using core_block [OF assms(1,2)] by metis
  then have "8 dvd unat p + n"
    using coreD(6) [OF assms(1)] by (auto elim!: dvdE)
  note a = align8 [OF this, of "d_last d"]
  show l: "unat (d_last d) \<le> unat (aligned_last al d)" "unat (aligned_last al d) \<le> unat p + n"
    "al \<Longrightarrow> 8 dvd unat (aligned_last al d)"
    using a d assms(3) by (auto simp: aligned_last_def)
  have "unat (d_end d) = unat p + n"
    using d assms(3) by (simp add: unat_add_ok unat_of_nat_ok)
  then show "unat (d_end d - aligned_last al d) = unat p + n - unat (aligned_last al d)"
    using l(2) by (simp add: unat_sub_ok)
qed

definition bump :: "addr \<Rightarrow> nc_pool_data \<Rightarrow> addr \<Rightarrow> pool_heap \<Rightarrow> pool_heap" where
  "bump p d m h = h\<lparr>pdata := (pdata h)(p \<mapsto> d\<lparr>d_last := m\<rparr>)\<rparr>"

lemma small_loop_ok:
  assumes "core h pool n ps rs" "pchain h p qs" "set qs \<subseteq> set ps" "qs \<noteq> []"
  shows "small_loop k al p h = Some (None, h) \<or>
    (\<exists>q \<in> set ps. \<exists>d. pdata h q = Some d \<and> unat (aligned_last al d) + unat k \<le> unat q + n \<and>
      small_loop k al p h = Some (Some (aligned_last al d), bump q d (aligned_last al d + k) h))"
  using assms(2-)
proof (induction qs arbitrary: p)
  case (Cons q qs)
  have q: "q \<in> set ps" "p = q"
    using Cons(2,3) by auto
  obtain d where d: "pdata h q = Some d" "get_d h q = Some d" "q \<noteq> NULL"
    using core_block [OF assms(1) q(1)] by metis
  have rec: "record_ok h q sizeof_pool_data"
    using d(1,2) by (simp add: get_d_def split: if_splits)
  note l = aligned_last [OF assms(1) q(1) d(1), of al]
  show ?case
  proof (cases "k \<le> d_end d - aligned_last al d")
    case True
    then have "unat k \<le> unat (d_end d - aligned_last al d)"
      by (simp add: word_le_nat_alt)
    then have "unat (aligned_last al d) + unat k \<le> unat q + n"
      using l by linarith
    moreover have "small_loop k al p h = Some (Some (aligned_last al d), bump q d (aligned_last al d + k) h)"
      using True d rec q(2) by (subst small_loop.simps) (simp add: upd_d_def put_d_def bump_def Let_def flip: aligned_last_def)
    ultimately show ?thesis
      using q(1) d(1) by blast
  next
    case False
    then have s: "small_loop k al p h = (if d_next d \<noteq> NULL then small_loop k al (d_next d) h else Some (None, h))"
      using d q(2) by (subst small_loop.simps) (simp add: Let_def flip: aligned_last_def)
    have c: "pchain h (d_next d) qs"
      using Cons(2) d(1) by simp
    show ?thesis
    proof (cases "qs = []")
      case True
      then show ?thesis
        using s c by simp
    next
      case ne: False
      have "d_next d \<noteq> NULL"
        using c ne core_block [OF assms(1), of "d_next d"] Cons(3) by (cases qs) auto
      then show ?thesis
        using s Cons(1) [OF c _ ne] Cons(3) by simp
    qed
  qed
qed simp

subsection \<open>What keeps the invariant\<close>

definition strip :: "nc_pool_data \<Rightarrow> addr \<times> addr \<times> addr" where
  "strip d = (d_last d, d_end d, d_next d)"

lemma core_cong:
  assumes "core h pool n ps rs" "heap_ok h'" "\<forall>p \<in> set ps. block_size h' p = block_size h p"
    "\<forall>p \<in> set ps. map_option strip (pdata h' p) = map_option strip (pdata h p)"
    "phead h' pool = Some H" "p_max H = c_MIN (of_nat (n - 64)) NC_MAX_ALLOC_FROM_POOL" "p_current H \<in> set ps"
  shows "core h' pool n ps rs"
proof -
  have same: "\<exists>d d'. pdata h p = Some d \<and> pdata h' p = Some d' \<and> d_last d' = d_last d \<and> d_end d' = d_end d \<and> d_next d' = d_next d"
    if "p \<in> set ps" for p
  proof -
    note p = that
    obtain d where "pdata h p = Some d"
      using core_block [OF assms(1) p] by metis
    then show ?thesis
      using assms(4) p by (force simp: strip_def)
  qed
  have "\<forall>p \<in> set ps. map_option d_next (pdata h' p) = map_option d_next (pdata h p)"
    using same by fastforce
  from pchain_cong [OF this] have "pchain h' pool ps"
    using coreD(2) [OF assms(1)] by simp
  moreover have "block_ok h' pool n p" if "p \<in> set ps" for p
    using coreD(7) [OF assms(1) that] same [OF that] assms(3) that by (auto simp: block_ok_def)
  moreover have "in_block h' pool p r = in_block h pool p r" if "p \<in> set ps" for p r
    using same [OF that] by (auto simp: in_block_def)
  ultimately show ?thesis
    using assms by (auto simp: core_def)
qed

lemma core_malloc:
  assumes "core h pool n ps rs" "malloc k h = (a, h')"
  shows "core h' pool n ps rs" "a \<noteq> NULL \<Longrightarrow> block_size h a = None \<and> block_size h' = (block_size h)(a \<mapsto> unat k) \<and> fits a (unat k)"
    "a = NULL \<Longrightarrow> block_size h' = block_size h"
    "pdata h' = pdata h" "phead h' = phead h" "larges h' = larges h" "cleans h' = cleans h" "calls h' = calls h"
proof -
  have c: "pdata h' = pdata h \<and> phead h' = phead h \<and> larges h' = larges h \<and> cleans h' = cleans h \<and> calls h' = calls h \<and>
    (a = NULL \<longrightarrow> block_size h' = block_size h) \<and>
    (a \<noteq> NULL \<longrightarrow> block_size h a = None \<and> block_size h' = (block_size h)(a \<mapsto> unat k) \<and> fits a (unat k))"
    using assms(2) placement_ok_block_size [of a "unat k" h]
    by (auto simp: malloc_def placement_ok_def block_size_def fun_eq_iff split: list.splits if_splits)
  then show "a \<noteq> NULL \<Longrightarrow> block_size h a = None \<and> block_size h' = (block_size h)(a \<mapsto> unat k) \<and> fits a (unat k)"
    "a = NULL \<Longrightarrow> block_size h' = block_size h"
    "pdata h' = pdata h" "phead h' = phead h" "larges h' = larges h" "cleans h' = cleans h" "calls h' = calls h"
    by blast+
  obtain hd where hd: "phead h pool = Some hd" "p_max hd = c_MIN (of_nat (n - 64)) NC_MAX_ALLOC_FROM_POOL" "p_current hd \<in> set ps"
    using core_head [OF assms(1)] by metis
  have "block_size h' p = block_size h p" if "p \<in> set ps" for p
    using c core_block [OF assms(1) that] by (cases "a = NULL"; metis fun_upd_other option.distinct(1))
  then show "core h' pool n ps rs"
    using c hd heap_ok_malloc [OF coreD(1) [OF assms(1)] assms(2)] by (intro core_cong [OF assms(1)]) auto
qed

lemma sep_blocks:
  assumes "heap_ok h" "block_size h p = Some n" "block_size h q = Some n" "p \<noteq> q"
    "unat p \<le> unat (fst r)" "unat (fst r) + snd r \<le> unat p + n" "unat q \<le> unat (fst s)" "unat (fst s) + snd s \<le> unat q + n"
  shows "sep r s"
proof -
  have "unat p + n \<le> unat q \<or> unat q + n \<le> unat p"
    using block_size_apart [OF assms(1-4)] extent_simps(3) [of n] unfolding apart_def by linarith
  then show ?thesis
    using assms(5-) by (auto simp: sep_def)
qed

lemma core_region:
  assumes "core h pool n ps rs" "r \<in> set rs"
  obtains p where "p \<in> set ps" "block_size h p = Some n" "unat p + hdr pool p \<le> unat (fst r)" "unat (fst r) + snd r \<le> unat p + n"
    "unat (fst r) + snd r \<le> unat (d_last (the (pdata h p)))"
proof -
  obtain p where p: "p \<in> set ps" "in_block h pool p r"
    using coreD(8) [OF assms] by blast
  obtain d where "pdata h p = Some d" "block_size h p = Some n" "unat (d_last d) \<le> unat p + n"
    using core_block [OF assms(1) p(1)] by metis
  then show thesis
    using that p by (auto simp: in_block_def)
qed

lemma core_bump:
  assumes "core h pool n ps rs" "q \<in> set ps" "pdata h q = Some d" "unat (d_last d) \<le> unat m" "unat m + unat k \<le> unat q + n"
  shows "core (bump q d (m + k) h) pool n ps ((m, unat k) # rs)"
proof -
  obtain d' where b: "pdata h q = Some d'" "block_size h q = Some n" "unat q + hdr pool q \<le> unat (d_last d')"
    "unat (d_last d') \<le> unat q + n" "unat q + n < 18446744073709551616" "d_end d' = q + of_nat n"
    using core_block [OF assms(1,2)] by metis
  have mk: "unat (m + k) = unat m + unat k"
    using b(5) assms(5) by (simp add: unat_add_ok)
  let ?h = "bump q d (m + k) h"
  have live: "block_size ?h = block_size h" "heap_ok ?h = heap_ok h"
    by (simp_all add: bump_def block_size_def heap_ok_def fun_eq_iff)
  have "\<forall>p \<in> set ps. map_option d_next (pdata ?h p) = map_option d_next (pdata h p)"
    using assms(3) by (simp add: bump_def)
  from pchain_cong [OF this] have "pchain ?h pool ps"
    using coreD(2) [OF assms(1)] by simp
  moreover have "block_ok ?h pool n p" if "p \<in> set ps" for p
    using coreD(7) [OF assms(1) that] b assms(3-5) mk by (auto simp: block_ok_def live bump_def)
  moreover have "in_block ?h pool p r" if "in_block h pool p r" for p r
    using that assms(3-5) mk by (auto simp: in_block_def bump_def)
  then have "\<exists>p \<in> set ps. in_block ?h pool p r" if "r \<in> set rs" for r
    using coreD(8) [OF assms(1) that] by blast
  moreover have "in_block ?h pool q (m, unat k)"
    using b assms(3-5) mk by (simp add: in_block_def bump_def)
  moreover have "sep (m, unat k) r" if r: "r \<in> set rs" for r
  proof (rule core_region [OF assms(1) r])
    fix p
    assume p: "p \<in> set ps" "block_size h p = Some n" "unat p + hdr pool p \<le> unat (fst r)" "unat (fst r) + snd r \<le> unat p + n"
      "unat (fst r) + snd r \<le> unat (d_last (the (pdata h p)))"
    show ?thesis
    proof (cases "p = q")
      case True
      then show ?thesis
        using p(5) assms(3,4) by (simp add: sep_def)
    next
      case False
      then show ?thesis
        using sep_blocks [OF coreD(1) [OF assms(1)] b(2) p(2), of "(m, unat k)" r] p(3,4) assms(3-5) b(1,3) by simp
    qed
  qed
  moreover obtain hd where "phead h pool = Some hd" "p_max hd = c_MIN (of_nat (n - 64)) NC_MAX_ALLOC_FROM_POOL" "p_current hd \<in> set ps"
    using core_head [OF assms(1)] by metis
  then have "phead ?h pool = Some hd \<and> p_max hd = c_MIN (of_nat (n - 64)) NC_MAX_ALLOC_FROM_POOL \<and> p_current hd \<in> set ps"
    by (simp add: bump_def)
  ultimately show ?thesis
    using coreD [OF assms(1)] assms(2) live unfolding core_def by auto
qed

subsection \<open>A new block\<close>

text \<open>\<open>quiet h h'\<close>: only the chain of blocks and the first record of the pool may have changed.\<close>

definition quiet :: "pool_heap \<Rightarrow> pool_heap \<Rightarrow> bool" where
  "quiet h h' \<longleftrightarrow> larges h' = larges h \<and> cleans h' = cleans h \<and> calls h' = calls h \<and> bytes h' = bytes h"

definition head_same :: "pool_heap \<Rightarrow> pool_heap \<Rightarrow> addr \<Rightarrow> bool" where
  "head_same h h' pool \<longleftrightarrow> (\<forall>H. phead h pool = Some H \<longrightarrow> (\<exists>c. phead h' pool = Some (H\<lparr>p_current := c\<rparr>)))"

lemma quiet_trans: "quiet h h' \<Longrightarrow> quiet h' h'' \<Longrightarrow> quiet h h''"
  by (simp add: quiet_def)

lemma head_same_trans: "head_same h h' p \<Longrightarrow> head_same h' h'' p \<Longrightarrow> head_same h h'' p"
  unfolding head_same_def by (metis nc_pool.update_convs(2) nc_pool.surjective nc_pool.select_convs)

lemma walk_loop_ok:
  assumes "core h pool n ps rs" "pchain h p qs" "set qs \<subseteq> set ps" "qs \<noteq> []"
  shows "\<exists>h'. walk_loop pool p h = Some (last qs, h') \<and> core h' pool n ps rs \<and> quiet h h' \<and> head_same h h' pool \<and>
    live h' = live h \<and> offers h' = offers h \<and> (\<forall>x. x \<notin> set ps \<longrightarrow> pdata h' x = pdata h x)"
  using assms
proof (induction qs arbitrary: p h)
  case (Cons q qs)
  have q: "q \<in> set ps" "p = q"
    using Cons(3,4) by auto
  obtain d where d: "pdata h q = Some d" "get_d h q = Some d"
    using core_block [OF Cons(2) q(1)] by metis
  have rec: "record_ok h q sizeof_pool_data"
    using d(1,2) by (simp add: get_d_def split: if_splits)
  have c: "pchain h (d_next d) qs"
    using Cons(3) d(1) by simp
  obtain H where H: "get_head h pool = Some H" "phead h pool = Some H"
    "p_max H = c_MIN (of_nat (n - 64)) NC_MAX_ALLOC_FROM_POOL" "p_current H \<in> set ps"
    using core_head [OF Cons(2)] by metis
  have hrec: "record_ok h pool sizeof_pool"
    using H(1,2) by (simp add: get_head_def split: if_splits)
  show ?case
  proof (cases "qs = []")
    case True
    then have "walk_loop pool p h = Some (last (q # qs), h)"
      using c d(2) q(2) by (subst walk_loop.simps) simp
    then show ?thesis
      using Cons(2) H(2) by (intro exI [of _ h]) (auto simp: quiet_def head_same_def intro: exI [of _ "p_current H"])
  next
    case ne: False
    have nx: "d_next d \<noteq> NULL" "d_next d \<in> set ps"
      using c ne core_block [OF Cons(2), of "d_next d"] Cons(4) by (cases qs; auto)+
    define h1 where "h1 = h\<lparr>pdata := (pdata h)(q \<mapsto> d\<lparr>d_failed := d_failed d + 1\<rparr>)\<rparr>"
    define H2 where "H2 = (if d_failed d > 4 then H\<lparr>p_current := d_next d\<rparr> else H)"
    define h2 where "h2 = h1\<lparr>phead := (phead h)(pool \<mapsto> H2)\<rparr>"
    have "walk_loop pool p h = walk_loop pool (d_next d) h2"
    proof -
      have "upd_d q (\<lambda>d. d\<lparr>d_failed := d_failed d + 1\<rparr>) h = Some h1"
        using d rec by (simp add: upd_d_def put_d_def h1_def)
      moreover have "(if d_failed d > 4 then upd_head pool (\<lambda>hd. hd\<lparr>p_current := d_next d\<rparr>) h1 else Some h1) = Some h2"
        using H hrec by (auto simp: upd_head_def put_head_def get_head_def h1_def h2_def H2_def fun_upd_idem)
      ultimately show ?thesis
        using d(2) nx(1) q(2) by (subst walk_loop.simps) simp
    qed
    moreover have core: "core h2 pool n ps rs"
      by (rule core_cong [OF Cons(2), where H = H2])
        (use coreD(1) [OF Cons(2)] H(3,4) nx(2) d(1) in \<open>simp_all add: h2_def h1_def H2_def strip_def\<close>)
    have ch: "pchain h2 (d_next d) qs"
      using c d(1) by (subst pchain_cong [of _ _ h]) (auto simp: h2_def h1_def)
    have "set qs \<subseteq> set ps"
      using Cons(4) by simp
    from Cons(1) [OF core ch this ne]
    obtain h' where h': "walk_loop pool (d_next d) h2 = Some (last qs, h')" "core h' pool n ps rs" "quiet h2 h'" "head_same h2 h' pool"
      "live h' = live h2" "offers h' = offers h2" "\<forall>x. x \<notin> set ps \<longrightarrow> pdata h' x = pdata h2 x"
      by blast
    have "quiet h h2" "head_same h h2 pool" "live h2 = live h" "offers h2 = offers h"
      using H(2) by (auto simp: quiet_def head_same_def h2_def h1_def H2_def intro: exI [of _ "p_current H"])
    then have "quiet h h'" "head_same h h' pool" "live h' = live h" "offers h' = offers h"
      using h' quiet_trans head_same_trans by (metis, metis, simp_all)
    moreover have "\<forall>x. x \<notin> set ps \<longrightarrow> pdata h' x = pdata h x"
      using h'(7) q(1) by (auto simp: h2_def h1_def)
    ultimately show ?thesis
      using h'(1,2) ne by (intro exI [of _ h']) simp
  qed
qed simp

lemma pchain_snoc:
  assumes "pchain h p ps" "ps \<noteq> []" "distinct ps" "b \<notin> set ps" "pdata h (last ps) = Some dl" "pdata h b = Some d" "d_next d = NULL"
  shows "pchain (h\<lparr>pdata := (pdata h)(last ps \<mapsto> dl\<lparr>d_next := b\<rparr>)\<rparr>) p (ps @ [b])"
  using assms
proof (induction ps arbitrary: p)
  case (Cons q ps)
  obtain dq where dq: "pdata h q = Some dq" "pchain h (d_next dq) ps" "p = q"
    using Cons(2) by auto
  show ?case
  proof (cases "ps = []")
    case True
    then show ?thesis
      using Cons(4-) dq by auto
  next
    case False
    have "pchain (h\<lparr>pdata := (pdata h)(last ps \<mapsto> dl\<lparr>d_next := b\<rparr>)\<rparr>) (d_next dq) (ps @ [b])"
      by (rule Cons(1)) (use Cons(4-) dq False in auto)
    moreover have "q \<noteq> last ps"
      using Cons(4) False by auto
    ultimately show ?thesis
      using dq False by (simp add: fun_upd_def)
  qed
qed simp

definition same_mem :: "pool_heap \<Rightarrow> pool_heap \<Rightarrow> bool" where
  "same_mem h h' \<longleftrightarrow> live h' = live h \<and> offers h' = offers h"

lemma same_memD: "same_mem h h' \<Longrightarrow> block_size h' = block_size h \<and> heap_ok h' = heap_ok h \<and> record_ok h' = record_ok h"
  by (simp add: same_mem_def block_size_def heap_ok_def record_ok_def valid_range_def fun_eq_iff)

lemma core_snoc:
  assumes "core h pool n ps rs" "pdata h (last ps) = Some dl"
    "pdata h b = Some \<lparr>d_last = m + k, d_end = b + of_nat n, d_next = NULL, d_failed = 0\<rparr>"
    "block_size h b = Some n" "b \<notin> set ps" "unat m = unat b + 32" "unat k + 32 \<le> n"
  shows "core (h\<lparr>pdata := (pdata h)(last ps \<mapsto> dl\<lparr>d_next := b\<rparr>)\<rparr>) pool n (ps @ [b]) ((m, unat k) # rs)"
proof -
  let ?h = "h\<lparr>pdata := (pdata h)(last ps \<mapsto> dl\<lparr>d_next := b\<rparr>)\<rparr>"
  have ne: "ps \<noteq> []" and pb: "pool \<noteq> b"
    using coreD(3) [OF assms(1)] assms(5) by auto
  then have lb: "last ps \<noteq> b"
    using assms(5) last_in_set by metis
  have "fits b n"
    using block_size_fits [OF coreD(1) [OF assms(1)] assms(4)] .
  then have "unat b + n < 18446744073709551616"
    using coreD(5) [OF assms(1)] by (simp add: fits_def)
  then have mk: "unat (m + k) = unat b + 32 + unat k"
    using assms(6,7) by (simp add: unat_add_ok)
  have chain: "pchain ?h pool (ps @ [b])"
    by (rule pchain_snoc [OF coreD(2) [OF assms(1)] ne coreD(4) [OF assms(1)] assms(5,2,3)]) simp
  have blocks: "block_ok ?h pool n p" if "p \<in> set (ps @ [b])" for p
  proof (cases "p = b")
    case True
    then show ?thesis
      using assms(3,4,6,7) mk lb pb by (simp add: block_ok_def hdr_def)
  next
    case False
    then have "block_ok h pool n p"
      using that coreD(7) [OF assms(1)] by simp
    then show ?thesis
      using assms(2) by (auto simp: block_ok_def)
  qed
  have keep: "in_block ?h pool p r = in_block h pool p r" for p r
    using assms(2) by (simp add: in_block_def)
  have new: "in_block ?h pool b (m, unat k)"
    using assms(3,6) mk lb pb by (simp add: in_block_def hdr_def)
  have "sep (m, unat k) r" if r: "r \<in> set rs" for r
  proof (rule core_region [OF assms(1) r])
    fix p
    assume p: "p \<in> set ps" "block_size h p = Some n" "unat p + hdr pool p \<le> unat (fst r)" "unat (fst r) + snd r \<le> unat p + n"
    then show ?thesis
      using sep_blocks [OF coreD(1) [OF assms(1)] assms(4) p(2), of "(m, unat k)" r] assms(5-7) by auto
  qed
  moreover obtain H where "phead h pool = Some H" "p_max H = c_MIN (of_nat (n - 64)) NC_MAX_ALLOC_FROM_POOL" "p_current H \<in> set ps"
    using core_head [OF assms(1)] by metis
  moreover have "\<exists>p \<in> set (ps @ [b]). in_block ?h pool p r" if "r \<in> set rs" for r
    using coreD(8) [OF assms(1) that] keep by auto
  ultimately show ?thesis
    using coreD [OF assms(1)] chain blocks new assms(5) unfolding core_def by auto
qed

lemma palloc_block_ok:
  assumes "core h pool n ps rs" "unat k + 32 \<le> n"
  shows "\<exists>m h'. nc_palloc_block pool k h = Some (m, h') \<and> quiet h h' \<and> head_same h h' pool \<and>
    same_mem (snd (malloc (of_nat n) h)) h' \<and>
    (if m = NULL then core h' pool n ps rs \<and> fst (malloc (of_nat n) h) = NULL
     else 8 dvd unat m \<and> (\<exists>b. core h' pool n (ps @ [b]) ((m, unat k) # rs) \<and> b \<notin> set ps \<and> fst (malloc (of_nat n) h) = b \<and> b \<noteq> NULL))"
proof -
  obtain d where d: "get_d h pool = Some d" "d_end d = pool + of_nat n" "unat pool + n < 18446744073709551616"
    using core_block [OF assms(1) coreD(3) [OF assms(1)]] by metis
  have ps: "d_end d - pool = of_nat n" and n: "unat (of_nat n :: addr) = n"
    using d(2,3) by (simp_all add: unat_of_nat_ok)
  obtain b h1 where b: "malloc (of_nat n) h = (b, h1)"
    by fastforce
  note c1 = core_malloc [OF assms(1) b]
  obtain H where H: "phead h pool = Some H" "p_max H = c_MIN (of_nat (n - 64)) NC_MAX_ALLOC_FROM_POOL" "p_current H \<in> set ps"
    using core_head [OF assms(1)] by metis
  have by1: "bytes h1 = bytes h"
    using b by (auto simp: malloc_def split: list.splits if_splits)
  show ?thesis
  proof (cases "b = NULL")
    case True
    then have "nc_palloc_block pool k h = Some (NULL, h1)"
      using d(1) b ps by (simp add: nc_palloc_block_def nc_memalign_def nc_alloc_def)
    then show ?thesis
      using c1 b True by1 H(1) by (auto simp: quiet_def head_same_def same_mem_def intro: exI [of _ "p_current H"])
  next
    case False
    have fresh: "block_size h b = None" "block_size h1 = (block_size h)(b \<mapsto> n)" "fits b n"
      using c1(2) False n by auto
    have bps: "b \<notin> set ps"
      using fresh(1) core_block [OF assms(1), of b] by auto
    have ub: "unat b + n < 18446744073709551616" "16 dvd unat b" "unat (b + 32) = unat b + 32"
      using fresh(3) coreD(5) [OF assms(1)] by (auto simp: fits_def c_arith)
    have "8 dvd unat b"
      by (rule dvd_trans [OF _ ub(2)]) simp
    then have d8: "8 dvd unat b + n" "8 dvd unat (b + 32)"
      using coreD(6) [OF assms(1)] by (simp_all add: ub(3))
    have m: "NC_ALIGN_PTR (b + of_nat sizeof_pool_data) NC_ALIGNMENT = b + 32"
    proof -
      have "(of_nat sizeof_pool_data :: addr) = 32" "unat (b + 32) \<le> unat b + n"
        using ub(3) coreD(5) [OF assms(1)] by (simp_all add: pool_sizes)
      then show ?thesis
        using align8(4) [OF d8(1) _ ub(1) d8(2)] by metis
    qed
    define h2 where "h2 = h1\<lparr>pdata := (pdata h1)(b \<mapsto> \<lparr>d_last = b + 32 + k, d_end = b + of_nat n, d_next = NULL, d_failed = 0\<rparr>)\<rparr>"
    have core2: "core h2 pool n ps rs"
      by (rule core_cong [OF c1(1), where H = H])
        (use coreD(1) [OF c1(1)] H c1(5) bps in \<open>auto simp: h2_def\<close>)
    have put: "put_d b \<lparr>d_last = b + 32 + k, d_end = b + of_nat n, d_next = NULL, d_failed = 0\<rparr> h1 = Some h2"
      using valid_range_block [of h1 b n b 32] fresh(2) coreD(5) [OF assms(1)] False
      by (simp add: put_d_def record_ok_def pool_sizes h2_def)
    have "phead h2 pool = Some H"
      using H(1) c1(5) by (simp add: h2_def)
    then have H2: "get_head h2 pool = Some H"
      using core_head [OF core2] by (metis option.inject)
    obtain qs where qs: "pchain h2 (p_current H) qs" "set qs \<subseteq> set ps" "qs \<noteq> []" "last qs = last ps"
      using pchain_suffix [OF coreD(2) [OF core2] H(3)] by blast
    obtain h3 where h3: "walk_loop pool (p_current H) h2 = Some (last ps, h3)" "core h3 pool n ps rs" "quiet h2 h3" "head_same h2 h3 pool"
      "live h3 = live h2" "offers h3 = offers h2" "\<forall>x. x \<notin> set ps \<longrightarrow> pdata h3 x = pdata h2 x"
      using walk_loop_ok [OF core2 qs(1-3)] unfolding qs(4) by blast
    have ne: "ps \<noteq> []"
      using coreD(3) [OF assms(1)] by auto
    then have lp: "last ps \<in> set ps"
      by simp
    obtain dl where dl: "pdata h3 (last ps) = Some dl" "get_d h3 (last ps) = Some dl"
      using core_block [OF h3(2) lp] by metis
    define h4 where "h4 = h3\<lparr>pdata := (pdata h3)(last ps \<mapsto> dl\<lparr>d_next := b\<rparr>)\<rparr>"
    have link: "upd_d (last ps) (\<lambda>d. d\<lparr>d_next := b\<rparr>) h3 = Some h4"
      using dl by (simp add: upd_d_def put_d_def h4_def get_d_def split: if_splits)
    have run: "nc_palloc_block pool k h = Some (b + 32, h4)"
      using d(1) b ps False put H2 h3(1) link m
      by (simp add: nc_palloc_block_def nc_memalign_def nc_alloc_def Let_def)
    have bd: "pdata h3 b = Some \<lparr>d_last = b + 32 + k, d_end = b + of_nat n, d_next = NULL, d_failed = 0\<rparr>"
      using h3(7) bps by (simp add: h2_def)
    have "core h4 pool n (ps @ [b]) ((b + 32, unat k) # rs)"
      unfolding h4_def
    proof (rule core_snoc [OF h3(2) dl(1) bd])
      show "block_size h3 b = Some n"
        using fresh(2) block_size_live_cong [of h3 h1] h3(5) by (simp add: h2_def)
    qed (use bps ub(3) assms(2) in simp_all)
    moreover have "quiet h h4" "head_same h h4 pool" "same_mem h1 h4"
      using h3(3-6) c1(4-8) by1 H(1) by (auto simp: quiet_def head_same_def same_mem_def h4_def h2_def)
    moreover have "b + 32 \<noteq> NULL"
      using ub(3) by (metis add_is_0 unat_0 zero_neq_numeral)
    ultimately show ?thesis
      using run b False bps d8(2) by auto
  qed
qed

text \<open>The pool has the blocks it had, or one more that the system has just given it.\<close>

definition grown :: "pool_heap \<Rightarrow> pool_heap \<Rightarrow> nat \<Rightarrow> addr list \<Rightarrow> addr list \<Rightarrow> bool" where
  "grown h h' n ps ps' \<longleftrightarrow> ps' = ps \<and> block_size h' = block_size h \<or>
     (\<exists>b. ps' = ps @ [b] \<and> block_size h b = None \<and> b \<noteq> NULL \<and> block_size h' = (block_size h)(b \<mapsto> n))"

lemma palloc_small_ok:
  assumes "core h pool n ps rs" "unat k + 32 \<le> n"
  shows "\<exists>m h' ps'. nc_palloc_small pool k al h = Some (m, h') \<and> quiet h h' \<and> head_same h h' pool \<and> grown h h' n ps ps' \<and>
    core h' pool n ps' (if m = NULL then rs else (m, unat k) # rs) \<and> (m = NULL \<longrightarrow> fst (malloc (of_nat n) h) = NULL) \<and>
    (al \<longrightarrow> 8 dvd unat m) \<and> (same_mem h h' \<or> same_mem (snd (malloc (of_nat n) h)) h')"
proof -
  obtain H where H: "get_head h pool = Some H" "phead h pool = Some H" "p_current H \<in> set ps"
    using core_head [OF assms(1)] by metis
  obtain qs where qs: "pchain h (p_current H) qs" "set qs \<subseteq> set ps" "qs \<noteq> []"
    using pchain_suffix [OF coreD(2) [OF assms(1)] H(3)] by blast
  consider (Full) "small_loop k al (p_current H) h = Some (None, h)"
    | (Found) q d where "q \<in> set ps" "pdata h q = Some d" "unat (aligned_last al d) + unat k \<le> unat q + n"
      "small_loop k al (p_current H) h = Some (Some (aligned_last al d), bump q d (aligned_last al d + k) h)"
    using small_loop_ok [OF assms(1) qs] by blast
  then show ?thesis
  proof cases
    case Full
    have eq: "nc_palloc_small pool k al h = nc_palloc_block pool k h"
      using H(1) Full by (simp add: nc_palloc_small_def)
    obtain m h' where m: "nc_palloc_block pool k h = Some (m, h')" "quiet h h'" "head_same h h' pool"
      "same_mem (snd (malloc (of_nat n) h)) h'"
      "if m = NULL then core h' pool n ps rs \<and> fst (malloc (of_nat n) h) = NULL
       else 8 dvd unat m \<and> (\<exists>b. core h' pool n (ps @ [b]) ((m, unat k) # rs) \<and> b \<notin> set ps \<and> fst (malloc (of_nat n) h) = b \<and> b \<noteq> NULL)"
      using palloc_block_ok [OF assms] by blast
    obtain b h1 where b: "malloc (of_nat n) h = (b, h1)"
      by fastforce
    have bs: "block_size h' = block_size h1"
      using same_memD [OF m(4)] b by simp
    have n: "unat (of_nat n :: addr) = n"
      using core_block [OF assms(1) coreD(3) [OF assms(1)]] by (metis add_lessD1 add.commute unat_of_nat_ok)
    show ?thesis
    proof (cases "m = NULL")
      case True
      then have "grown h h' n ps ps"
        using m(5) b bs core_malloc(3) [OF assms(1) b] by (simp add: grown_def)
      then show ?thesis
        using m True eq by (intro exI [of _ m] exI [of _ h'] exI [of _ ps]) simp
    next
      case False
      then have "core h' pool n (ps @ [b]) ((m, unat k) # rs)" "b \<noteq> NULL" "8 dvd unat m"
        using m(5) b by auto
      moreover from this have "grown h h' n ps (ps @ [b])"
        using bs core_malloc(2) [OF assms(1) b] n by (simp add: grown_def)
      ultimately show ?thesis
        using m False eq by (intro exI [of _ m] exI [of _ h'] exI [of _ "ps @ [b]"]) simp
    qed
  next
    case Found
    let ?m = "aligned_last al d"
    note l = aligned_last [OF assms(1) Found(1,2), of al]
    have "unat q + hdr pool q \<le> unat (d_last d)" "q \<noteq> NULL"
      using core_block [OF assms(1) Found(1)] Found(2) by (metis option.inject)+
    then have "?m \<noteq> NULL"
      using l(1) by (auto simp: hdr_def split: if_splits)
    moreover have "core (bump q d (?m + k) h) pool n ps ((?m, unat k) # rs)"
      by (rule core_bump [OF assms(1) Found(1,2) l(1) Found(3)])
    moreover have "quiet h (bump q d (?m + k) h)" "head_same h (bump q d (?m + k) h) pool"
      "grown h (bump q d (?m + k) h) n ps ps" "same_mem h (bump q d (?m + k) h)"
      using H(2) by (auto simp: quiet_def head_same_def grown_def same_mem_def bump_def intro: exI [of _ "p_current H"])
    moreover have "nc_palloc_small pool k al h = Some (?m, bump q d (?m + k) h)"
      using H(1) Found(4) by (simp add: nc_palloc_small_def)
    ultimately show ?thesis
      using l(3) by (intro exI [of _ ?m] exI [of _ "bump q d (?m + k) h"] exI [of _ ps]) simp
  qed
qed

end
