(* ===== verification/Nc_Palloc_Inv.thy ===== *)
theory Nc_Palloc_Inv
  imports Nc_Palloc_Correct
begin

text \<open>
  The whole pool: the chain of blocks of \<open>Nc_Palloc_Correct\<close> with the list of large blocks, the list
  of cleanup records and the blocks of the heap that belong to others (\<open>base\<close>). Every operation keeps
  it; destruction gives back exactly what the pool owns.
\<close>

subsection \<open>The invariant\<close>

fun lchain :: "pool_heap \<Rightarrow> addr \<Rightarrow> (addr \<times> addr) list \<Rightarrow> bool" where
  "lchain h l [] = (l = NULL)"
| "lchain h l ((a, x) # ls) = (l = a \<and> (\<exists>r. larges h a = Some r \<and> l_alloc r = x \<and> lchain h (l_next r) ls))"

fun cchain :: "pool_heap \<Rightarrow> addr \<Rightarrow> (addr \<times> nc_pool_cleanup) list \<Rightarrow> bool" where
  "cchain h c [] = (c = NULL)"
| "cchain h c ((a, r) # cs) = (c = a \<and> cleans h a = Some r \<and> cchain h (c_next r) cs)"

definition allocs :: "(addr \<times> addr) list \<Rightarrow> addr list" where
  "allocs ls = filter (\<lambda>x. x \<noteq> NULL) (map snd ls)"

lemma allocs_simps [simp]:
  "allocs [] = []" "allocs ((a, x) # ls) = (if x = NULL then allocs ls else x # allocs ls)" "allocs (ls @ ms) = allocs ls @ allocs ms"
  by (simp_all add: allocs_def)

lemma allocs_NULL [simp]: "NULL \<notin> set (allocs ls)"
  by (simp add: allocs_def)

definition owned :: "addr list \<Rightarrow> (addr \<times> addr) list \<Rightarrow> addr set" where
  "owned ps ls = set ps \<union> set (allocs ls)"

definition pool_inv :: "pool_heap \<Rightarrow> addr \<Rightarrow> nat \<Rightarrow> addr list \<Rightarrow> (addr \<times> nat) list \<Rightarrow> (addr \<times> addr) list \<Rightarrow>
    (addr \<times> nc_pool_cleanup) list \<Rightarrow> (addr \<Rightarrow> nat option) \<Rightarrow> bool" where
  "pool_inv h pool n ps rs ls cs base \<longleftrightarrow> core h pool n ps rs \<and>
     (\<exists>H. phead h pool = Some H \<and> lchain h (p_large H) ls \<and> cchain h (p_cleanup H) cs) \<and>
     (\<forall>a \<in> fst ` set ls. (a, 16) \<in> set rs) \<and> distinct (map fst ls) \<and>
     (\<forall>a \<in> fst ` set cs. (a, 24) \<in> set rs) \<and> distinct (map fst cs) \<and>
     distinct (allocs ls) \<and> (\<forall>x \<in> set (allocs ls). block_size h x \<noteq> None \<and> x \<notin> set ps) \<and>
     (\<forall>a. a \<notin> owned ps ls \<longrightarrow> block_size h a = base a) \<and> (\<forall>a \<in> owned ps ls. base a = None)"

lemma pool_invD:
  assumes "pool_inv h pool n ps rs ls cs base"
  shows "core h pool n ps rs" "\<exists>H. phead h pool = Some H \<and> lchain h (p_large H) ls \<and> cchain h (p_cleanup H) cs"
    "a \<in> fst ` set ls \<Longrightarrow> (a, 16) \<in> set rs" "distinct (map fst ls)" "a \<in> fst ` set cs \<Longrightarrow> (a, 24) \<in> set rs" "distinct (map fst cs)"
    "distinct (allocs ls)" "x \<in> set (allocs ls) \<Longrightarrow> block_size h x \<noteq> None" "x \<in> set (allocs ls) \<Longrightarrow> x \<notin> set ps"
    "a \<notin> owned ps ls \<Longrightarrow> block_size h a = base a" "a \<in> owned ps ls \<Longrightarrow> base a = None"
  using assms by (auto simp: pool_inv_def)

lemma pool_invI:
  assumes "core h pool n ps rs" "phead h pool = Some H" "lchain h (p_large H) ls" "cchain h (p_cleanup H) cs"
    "\<And>a. a \<in> fst ` set ls \<Longrightarrow> (a, 16) \<in> set rs" "distinct (map fst ls)"
    "\<And>a. a \<in> fst ` set cs \<Longrightarrow> (a, 24) \<in> set rs" "distinct (map fst cs)"
    "distinct (allocs ls)" "\<And>x. x \<in> set (allocs ls) \<Longrightarrow> block_size h x \<noteq> None" "\<And>x. x \<in> set (allocs ls) \<Longrightarrow> x \<notin> set ps"
    "\<And>a. a \<notin> owned ps ls \<Longrightarrow> block_size h a = base a" "\<And>a. a \<in> owned ps ls \<Longrightarrow> base a = None"
  shows "pool_inv h pool n ps rs ls cs base"
  unfolding pool_inv_def by (intro conjI exI [of _ H] ballI allI impI assms)

lemma lchain_cong: "\<forall>a \<in> fst ` set ls. larges h' a = larges h a \<Longrightarrow> lchain h' l ls = lchain h l ls"
  by (induction ls arbitrary: l rule: lchain.induct) auto

lemma cchain_cong: "\<forall>a \<in> fst ` set cs. cleans h' a = cleans h a \<Longrightarrow> cchain h' c cs = cchain h c cs"
  by (induction cs arbitrary: c rule: cchain.induct) auto

lemma region_record:
  assumes "core h pool n ps rs" "(a, k) \<in> set rs"
  shows "record_ok h a k" "a \<noteq> NULL"
proof -
  obtain p where p: "p \<in> set ps" "block_size h p = Some n" "unat p + hdr pool p \<le> unat a" "unat a + k \<le> unat p + n"
    using core_region [OF assms] by (metis fst_conv snd_conv)
  show "a \<noteq> NULL"
    using p(3) by (auto simp: hdr_def split: if_splits)
  then show "record_ok h a k"
    using p valid_range_block [OF p(2), of a k] by (simp add: record_ok_def)
qed

lemma lchain_at: "lchain h l ls \<Longrightarrow> (a, x) \<in> set ls \<Longrightarrow> \<exists>r. larges h a = Some r \<and> l_alloc r = x"
  by (induction ls arbitrary: l) auto

lemma cchain_at: "cchain h c cs \<Longrightarrow> (a, r) \<in> set cs \<Longrightarrow> cleans h a = Some r"
  by (induction cs arbitrary: c) auto

lemma inv_large:
  assumes "pool_inv h pool n ps rs ls cs base" "(a, x) \<in> set ls"
  obtains r where "get_large h a = Some r" "larges h a = Some r" "l_alloc r = x" "record_ok h a sizeof_large" "a \<noteq> NULL"
proof -
  obtain H :: nc_pool where "lchain h (p_large H) ls"
    using pool_invD(2) [OF assms(1)] by blast
  from lchain_at [OF this assms(2)] obtain r where "larges h a = Some r" "l_alloc r = x"
    by auto
  moreover have "(a, 16) \<in> set rs"
    using pool_invD(3) [OF assms(1)] assms(2) by force
  ultimately show thesis
    using that region_record [OF pool_invD(1) [OF assms(1)], of a 16] by (simp add: get_large_def pool_sizes)
qed

lemma inv_clean:
  assumes "pool_inv h pool n ps rs ls cs base" "(a, r) \<in> set cs"
  shows "get_clean h a = Some r" "a \<noteq> NULL"
proof -
  obtain H :: nc_pool where "cchain h (p_cleanup H) cs"
    using pool_invD(2) [OF assms(1)] by blast
  from cchain_at [OF this assms(2)] have "cleans h a = Some r" .
  moreover have "(a, 24) \<in> set rs"
    using pool_invD(5) [OF assms(1)] assms(2) by force
  ultimately show "get_clean h a = Some r" "a \<noteq> NULL"
    using region_record [OF pool_invD(1) [OF assms(1)], of a 24] by (simp_all add: get_clean_def pool_sizes)
qed

subsection \<open>Small allocations\<close>

lemma grown_owned:
  assumes "grown h h' n ps ps'"
  shows "set ps \<subseteq> set ps'" "a \<in> set ps' - set ps \<Longrightarrow> block_size h a = None" "block_size h a \<noteq> None \<or> a \<notin> set ps' \<Longrightarrow> block_size h' a = block_size h a"
  using assms by (auto simp: grown_def)

lemma inv_grow:
  assumes "pool_inv h pool n ps rs ls cs base" "core h' pool n ps' rs'" "set rs \<subseteq> set rs'" "quiet h h'" "head_same h h' pool"
    "grown h h' n ps ps'"
  shows "pool_inv h' pool n ps' rs' ls cs base"
proof -
  note D = pool_invD [OF assms(1)]
  note G = grown_owned [OF assms(6)]
  have q: "larges h' = larges h" "cleans h' = cleans h"
    using assms(4) by (simp_all add: quiet_def)
  obtain H where H: "phead h pool = Some H" "lchain h (p_large H) ls" "cchain h (p_cleanup H) cs"
    using D(2) by blast
  obtain c where "phead h' pool = Some (H\<lparr>p_current := c\<rparr>)"
    using assms(5) H(1) by (auto simp: head_same_def)
  then show ?thesis
  proof (rule pool_invI [OF assms(2)])
    show "lchain h' (p_large (H\<lparr>p_current := c\<rparr>)) ls" "cchain h' (p_cleanup (H\<lparr>p_current := c\<rparr>)) cs"
      using H lchain_cong [of ls h' h] cchain_cong [of cs h' h] q by simp_all
    show "(a, 16) \<in> set rs'" if "a \<in> fst ` set ls" for a
      using D(3) [OF that] assms(3) by blast
    show "(a, 24) \<in> set rs'" if "a \<in> fst ` set cs" for a
      using D(5) [OF that] assms(3) by blast
    show "block_size h' x \<noteq> None" "x \<notin> set ps'" if "x \<in> set (allocs ls)" for x
      using D(8) [OF that] D(9) [OF that] G(2,3) [of x] by (metis Diff_iff)+
    show "block_size h' a = base a" if "a \<notin> owned ps' ls" for a
    proof -
      have "a \<notin> owned ps ls" "a \<notin> set ps'"
        using that G(1) by (auto simp: owned_def)
      then show ?thesis
        using D(10) G(3) by simp
    qed
    show "base a = None" if "a \<in> owned ps' ls" for a
    proof (cases "a \<in> owned ps ls")
      case False
      then have "a \<in> set ps' - set ps"
        using that by (auto simp: owned_def)
      then show ?thesis
        using G(2) D(10) [OF False] by simp
    qed (use D(11) in blast)
  qed (use D(4,6,7) in simp_all)
qed

lemma inv_small:
  assumes "pool_inv h pool n ps rs ls cs base" "unat k + 32 \<le> n"
  obtains m h' ps' where "nc_palloc_small pool k al h = Some (m, h')" "quiet h h'" "grown h h' n ps ps'"
    "pool_inv h' pool n ps' (if m = NULL then rs else (m, unat k) # rs) ls cs base"
    "m = NULL \<Longrightarrow> fst (malloc (of_nat n) h) = NULL" "al \<Longrightarrow> 8 dvd unat m"
proof -
  obtain m h' ps' where m: "nc_palloc_small pool k al h = Some (m, h')" "quiet h h'" "head_same h h' pool" "grown h h' n ps ps'"
    "core h' pool n ps' (if m = NULL then rs else (m, unat k) # rs)" "m = NULL \<longrightarrow> fst (malloc (of_nat n) h) = NULL"
    "al \<longrightarrow> 8 dvd unat m"
    using palloc_small_ok [OF pool_invD(1) [OF assms(1)] assms(2), of al] by blast
  have "pool_inv h' pool n ps' (if m = NULL then rs else (m, unat k) # rs) ls cs base"
    by (rule inv_grow [OF assms(1) m(5) _ m(2,3,4)]) auto
  then show thesis
    using that [OF m(1,2,4)] m(6,7) by blast
qed
subsection \<open>Blocks of the heap taken over and given back\<close>

lemma inv_malloc:
  assumes "pool_inv h pool n ps rs ls cs base" "malloc k h = (a, h')"
  shows "a = NULL \<Longrightarrow> pool_inv h' pool n ps rs ls cs base"
    "a \<noteq> NULL \<Longrightarrow> pool_inv h' pool n ps rs ls cs (base(a \<mapsto> unat k)) \<and> base a = None \<and> block_size h a = None"
proof -
  note D = pool_invD [OF assms(1)]
  note M = core_malloc [OF D(1) assms(2)]
  obtain H :: nc_pool where H: "phead h pool = Some H" "lchain h (p_large H) ls" "cchain h (p_cleanup H) cs"
    using D(2) by blast
  have H': "phead h' pool = Some H" "lchain h' (p_large H) ls" "cchain h' (p_cleanup H) cs"
    using H M(5) lchain_cong [of ls h' h] cchain_cong [of cs h' h] M(6,7) by simp_all
  show "pool_inv h' pool n ps rs ls cs base" if "a = NULL"
    by (rule pool_invI [OF M(1) H']) (use D M(3) [OF that] in auto)
  assume a: "a \<noteq> NULL"
  have f: "block_size h a = None" "block_size h' = (block_size h)(a \<mapsto> unat k)"
    using M(2) [OF a] by auto
  have "a \<notin> set ps"
    using core_block [OF D(1), of a] f(1) by auto
  then have o: "a \<notin> owned ps ls"
    using D(8) [of a] f(1) by (auto simp: owned_def)
  have "pool_inv h' pool n ps rs ls cs (base(a \<mapsto> unat k))"
  proof (rule pool_invI [OF M(1) H'])
    show "(base(a \<mapsto> unat k)) b = None" if "b \<in> owned ps ls" for b
      using D(11) [OF that] o that by auto
    show "block_size h' b = (base(a \<mapsto> unat k)) b" if "b \<notin> owned ps ls" for b
      using D(10) [OF that] f(2) by simp
    show "block_size h' x \<noteq> None" if "x \<in> set (allocs ls)" for x
      using D(8) [OF that] f(2) by auto
  qed (use D in simp_all)
  then show "pool_inv h' pool n ps rs ls cs (base(a \<mapsto> unat k)) \<and> base a = None \<and> block_size h a = None"
    using D(10) [OF o] f(1) by simp
qed

lemma core_same:
  assumes "core h pool n ps rs" "heap_ok h'" "\<And>p. p \<in> set ps \<Longrightarrow> block_size h' p = block_size h p" "pdata h' = pdata h"
    "phead h pool = Some H" "phead h' pool = Some H'" "p_max H' = p_max H" "p_current H' = p_current H"
  shows "core h' pool n ps rs"
proof -
  have "p_max H = c_MIN (of_nat (n - 64)) NC_MAX_ALLOC_FROM_POOL" "p_current H \<in> set ps"
    using core_head [OF assms(1)] assms(5) by (metis option.inject)+
  then show ?thesis
    using assms by (intro core_cong [OF assms(1,2), where H = H']) simp_all
qed

lemma pool_drop [simp]:
  "pdata (drop_block p h) = pdata h" "phead (drop_block p h) = phead h" "larges (drop_block p h) = larges h"
  "cleans (drop_block p h) = cleans h" "calls (drop_block p h) = calls h" "bytes (drop_block p h) = bytes h"
  by (simp_all add: drop_block_def)

lemma inv_drop:
  assumes "pool_inv h pool n ps rs ls cs base" "p \<notin> owned ps ls"
  shows "pool_inv (drop_block p h) pool n ps rs ls cs (base(p := None))"
proof -
  note D = pool_invD [OF assms(1)]
  obtain H :: nc_pool where H: "phead h pool = Some H" "lchain h (p_large H) ls" "cchain h (p_cleanup H) cs"
    using D(2) by blast
  have bs: "block_size (drop_block p h) = (block_size h)(p := None)"
    by (simp add: fun_eq_iff block_size_drop)
  have o: "p \<notin> set ps" "p \<notin> set (allocs ls)"
    using assms(2) by (simp_all add: owned_def)
  show ?thesis
  proof (rule pool_invI [where H = H])
    show "core (drop_block p h) pool n ps rs"
      by (rule core_same [OF D(1) heap_ok_drop [OF coreD(1) [OF D(1)]] _ _ H(1), where H' = H])
        (use o H(1) in \<open>auto simp: bs\<close>)
    show "lchain (drop_block p h) (p_large H) ls" "cchain (drop_block p h) (p_cleanup H) cs"
      using H lchain_cong [of ls "drop_block p h" h] cchain_cong [of cs "drop_block p h" h] by simp_all
    show "block_size (drop_block p h) x \<noteq> None" if "x \<in> set (allocs ls)" for x
      using D(8) [OF that] o that by (auto simp: bs)
  qed (use D H in \<open>simp_all add: bs\<close>)
qed

text \<open>A record gets a block that so far belonged to others, or gives up the one it holds.\<close>

lemma lchain_update:
  assumes "lchain h l (us @ (a, x) # vs)" "larges h a = Some r" "distinct (map fst (us @ (a, x) # vs))"
  shows "lchain (h\<lparr>larges := (larges h)(a \<mapsto> r\<lparr>l_alloc := y\<rparr>)\<rparr>) l (us @ (a, y) # vs)"
  using assms
proof (induction us arbitrary: l)
  case Nil
  have "lchain (h\<lparr>larges := (larges h)(a \<mapsto> r\<lparr>l_alloc := y\<rparr>)\<rparr>) q vs = lchain h q vs" for q
    by (rule lchain_cong) (use Nil(3) in auto)
  then show ?case
    using Nil by (simp add: fun_upd_def)
next
  case (Cons u us)
  then show ?case
    by (cases u) (auto simp: fun_upd_def)
qed

lemma inv_entry:
  assumes "pool_inv h pool n ps rs (us @ (a, x) # vs) cs base" "larges h a = Some r" "y = NULL \<or> y \<notin> set (allocs (us @ vs))"
    "y = NULL \<or> y \<notin> set ps \<and> block_size h y \<noteq> None"
    "\<And>b. b \<notin> owned ps (us @ (a, y) # vs) \<Longrightarrow> block_size h b = base' b" "\<And>b. b \<in> owned ps (us @ (a, y) # vs) \<Longrightarrow> base' b = None"
  shows "pool_inv (h\<lparr>larges := (larges h)(a \<mapsto> r\<lparr>l_alloc := y\<rparr>)\<rparr>) pool n ps rs (us @ (a, y) # vs) cs base'"
proof -
  let ?h = "h\<lparr>larges := (larges h)(a \<mapsto> r\<lparr>l_alloc := y\<rparr>)\<rparr>"
  note D = pool_invD [OF assms(1)]
  obtain H :: nc_pool where H: "phead h pool = Some H" "lchain h (p_large H) (us @ (a, x) # vs)" "cchain h (p_cleanup H) cs"
    using D(2) by blast
  show ?thesis
  proof (rule pool_invI [where H = H])
    show "core ?h pool n ps rs"
      by (rule core_same [OF D(1) _ _ _ H(1), where H' = H]) (use coreD(1) [OF D(1)] H(1) in simp_all)
    show "lchain ?h (p_large H) (us @ (a, y) # vs)"
      by (rule lchain_update [OF H(2) assms(2) D(4)])
    show "cchain ?h (p_cleanup H) cs"
      using H(3) cchain_cong [of cs ?h h] by simp
    show "distinct (allocs (us @ (a, y) # vs))"
      using D(7) assms(3) by (auto split: if_splits)
    show "block_size ?h z \<noteq> None" "z \<notin> set ps" if "z \<in> set (allocs (us @ (a, y) # vs))" for z
      using D(8,9) [of z] assms(4) that by (cases "z = y"; cases "x = NULL"; auto split: if_splits)+
    show "(b, 16) \<in> set rs" if "b \<in> fst ` set (us @ (a, y) # vs)" for b
      using D(3) [of b] that by simp
    show "distinct (map fst (us @ (a, y) # vs))"
      using D(4) by simp
  qed (use D H assms(5,6) in simp_all)
qed

lemma inv_new_entry:
  assumes "pool_inv h pool n ps rs ls cs base" "phead h pool = Some H" "(l, 16) \<in> set rs" "l \<notin> fst ` set ls"
    "y \<noteq> NULL" "y \<notin> owned ps ls" "block_size h y \<noteq> None"
  shows "pool_inv (h\<lparr>larges := (larges h)(l \<mapsto> \<lparr>l_next = p_large H, l_alloc = y\<rparr>),
      phead := (phead h)(pool \<mapsto> H\<lparr>p_large := l\<rparr>)\<rparr>) pool n ps rs ((l, y) # ls) cs (base(y := None))"
    (is "pool_inv ?h pool n ps rs _ cs _")
proof -
  note D = pool_invD [OF assms(1)]
  have H: "lchain h (p_large H) ls" "cchain h (p_cleanup H) cs"
    using D(2) assms(2) by auto
  have o: "owned ps ((l, y) # ls) = insert y (owned ps ls)" "y \<notin> set ps" "y \<notin> set (allocs ls)"
    using assms(5,6) by (auto simp: owned_def)
  show ?thesis
  proof (rule pool_invI [where H = "H\<lparr>p_large := l\<rparr>"])
    show "core ?h pool n ps rs"
      by (rule core_same [OF D(1) _ _ _ assms(2), where H' = "H\<lparr>p_large := l\<rparr>"]) (use coreD(1) [OF D(1)] in simp_all)
    have "lchain ?h q ls = lchain h q ls" for q
      by (rule lchain_cong) (use assms(4) in auto)
    then show "lchain ?h (p_large (H\<lparr>p_large := l\<rparr>)) ((l, y) # ls)"
      using H(1) by simp
    show "cchain ?h (p_cleanup (H\<lparr>p_large := l\<rparr>)) cs"
      using H(2) cchain_cong [of cs ?h h] by simp
  qed (use D assms(3-5,7) o in auto)
qed

subsection \<open>Large allocations\<close>

lemma reuse_loop_ok:
  assumes "pool_inv h pool n ps rs (us @ vs) cs base" "lchain h l vs"
  shows "reuse_loop i l p h = Some (False, h) \<or>
    (\<exists>us' a vs' r. us @ vs = us' @ (a, NULL) # vs' \<and> larges h a = Some r \<and>
      reuse_loop i l p h = Some (True, h\<lparr>larges := (larges h)(a \<mapsto> r\<lparr>l_alloc := p\<rparr>)\<rparr>))"
  using assms
proof (induction vs arbitrary: us l i)
  case Nil
  then show ?case
    by (subst reuse_loop.simps) simp
next
  case (Cons v vs)
  obtain a x where v: "v = (a, x)"
    by fastforce
  obtain r where r: "get_large h a = Some r" "larges h a = Some r" "l_alloc r = x" "record_ok h a sizeof_large" "a \<noteq> NULL"
    using inv_large [OF Cons(2), of a x] v by auto
  have l: "l = a" "lchain h (l_next r) vs"
    using Cons(3) r(2) v by auto
  have "pool_inv h pool n ps rs ((us @ [v]) @ vs) cs base"
    using Cons(2) by simp
  note IH = Cons(1) [OF this l(2), of "i + 1"]
  show ?case
  proof (cases "x = NULL")
    case True
    then have "reuse_loop i l p h = Some (True, h\<lparr>larges := (larges h)(a \<mapsto> r\<lparr>l_alloc := p\<rparr>)\<rparr>)"
      using r l(1) by (subst reuse_loop.simps) (simp add: upd_large_def put_large_def)
    then show ?thesis
      using True v r(2) by blast
  next
    case False
    then have "reuse_loop i l p h = (if i > 3 then Some (False, h) else reuse_loop (i + 1) (l_next r) p h)"
      using r l(1) by (subst reuse_loop.simps) simp
    then show ?thesis
      using IH by (cases "i > 3") simp_all
  qed
qed

lemma large_size: "(of_nat sizeof_large :: addr) = 16" "unat (of_nat sizeof_large :: addr) = 16"
  by (simp_all add: pool_sizes)

lemma inv_head:
  assumes "pool_inv h pool n ps rs ls cs base"
  obtains H where "get_head h pool = Some H" "phead h pool = Some H" "lchain h (p_large H) ls" "cchain h (p_cleanup H) cs"
    "p_max H = c_MIN (of_nat (n - 64)) NC_MAX_ALLOC_FROM_POOL" "record_ok h pool sizeof_pool"
proof -
  obtain H where H: "get_head h pool = Some H" "phead h pool = Some H" "p_max H = c_MIN (of_nat (n - 64)) NC_MAX_ALLOC_FROM_POOL"
    using core_head [OF pool_invD(1) [OF assms]] by metis
  then show thesis
    using that pool_invD(2) [OF assms] by (auto simp: get_head_def split: if_splits)
qed

lemma region_fresh:
  assumes "core h pool n ps ((a, k) # rs)" "0 < k" "0 < j"
  shows "(a, j) \<notin> set rs"
  using coreD(9) [OF assms(1)] assms(2,3) by (auto simp: sep_def)

text \<open>What a large allocation of \<open>k\<close> bytes in \<open>h\<close> leaves.\<close>

definition large_done :: "pool_heap \<Rightarrow> addr \<Rightarrow> nat \<Rightarrow> (addr \<times> nat) list \<Rightarrow> (addr \<times> addr) list \<Rightarrow> (addr \<times> nc_pool_cleanup) list \<Rightarrow>
    (addr \<Rightarrow> nat option) \<Rightarrow> size_t \<Rightarrow> addr \<Rightarrow> pool_heap \<Rightarrow> bool" where
  "large_done h pool n rs ls cs base k m h' \<longleftrightarrow> bytes h' = bytes h \<and> calls h' = calls h \<and>
     (\<forall>q. block_size h q \<noteq> None \<longrightarrow> block_size h' q = block_size h q) \<and>
     (\<exists>ps' rs' ls'. pool_inv h' pool n ps' rs' ls' cs base \<and> set rs \<subseteq> set rs' \<and>
       (if m = NULL then set (allocs ls') = set (allocs ls) \<and>
          (fst (malloc k h) = NULL \<or> fst (malloc (of_nat n) (snd (malloc k h))) = NULL)
        else set (allocs ls') = insert m (set (allocs ls)) \<and> block_size h m = None \<and> block_size h' m = Some (unat k)))"

text \<open>The state after the block \<open>p\<close> itself is there, before it is entered into the list.\<close>

definition large_open :: "pool_heap \<Rightarrow> addr \<Rightarrow> nat \<Rightarrow> addr list \<Rightarrow> (addr \<times> nat) list \<Rightarrow> (addr \<times> addr) list \<Rightarrow>
    (addr \<times> nc_pool_cleanup) list \<Rightarrow> (addr \<Rightarrow> nat option) \<Rightarrow> size_t \<Rightarrow> addr \<Rightarrow> pool_heap \<Rightarrow> bool" where
  "large_open h pool n ps rs ls cs base k p h1 \<longleftrightarrow> p \<noteq> NULL \<and> malloc k h = (p, h1) \<and> base p = None \<and> block_size h p = None \<and>
     pool_inv h pool n ps rs ls cs base \<and> pool_inv h1 pool n ps rs ls cs (base(p \<mapsto> unat k)) \<and>
     bytes h1 = bytes h \<and> calls h1 = calls h \<and> p \<notin> owned ps ls \<and> block_size h1 p = Some (unat k) \<and>
     (\<forall>q. block_size h q \<noteq> None \<longrightarrow> block_size h1 q = block_size h q \<and> q \<noteq> p)"

lemma large_openI:
  assumes "pool_inv h pool n ps rs ls cs base" "malloc k h = (p, h1)" "p \<noteq> NULL"
  shows "large_open h pool n ps rs ls cs base k p h1"
proof -
  have I1: "pool_inv h1 pool n ps rs ls cs (base(p \<mapsto> unat k))" "base p = None" "block_size h p = None"
    using inv_malloc(2) [OF assms] by auto
  have "bytes h1 = bytes h" "calls h1 = calls h"
    using core_malloc [OF pool_invD(1) [OF assms(1)] assms(2)] malloc_live [OF assms(2,3)] by auto
  moreover have "block_size h1 q = block_size h q \<and> q \<noteq> p" if "block_size h q \<noteq> None" for q
    using core_malloc(2) [OF pool_invD(1) [OF assms(1)] assms(2,3)] that by auto
  moreover have "p \<notin> owned ps ls" "block_size h1 p = Some (unat k)"
    using pool_invD(10,11) [OF I1(1), of p] by auto
  ultimately show ?thesis
    unfolding large_open_def using I1 assms by (intro conjI allI impI) blast+
qed

lemma large_reuse:
  assumes o: "large_open h pool n ps rs ls cs base k p h1" and ls: "ls = us @ (a, NULL) # vs" "larges h1 a = Some r"
  shows "large_done h pool n rs ls cs base k p (h1\<lparr>larges := (larges h1)(a \<mapsto> r\<lparr>l_alloc := p\<rparr>)\<rparr>)"
proof -
  let ?h = "h1\<lparr>larges := (larges h1)(a \<mapsto> r\<lparr>l_alloc := p\<rparr>)\<rparr>"
  have I1: "pool_inv h1 pool n ps rs ls cs (base(p \<mapsto> unat k))" "pool_inv h pool n ps rs ls cs base" "p \<noteq> NULL" "base p = None"
    "p \<notin> owned ps ls" "block_size h1 p = Some (unat k)"
    using o by (simp_all add: large_open_def)
  have O: "bytes h1 = bytes h" "calls h1 = calls h" "block_size h p = None"
    "\<And>q. block_size h q \<noteq> None \<Longrightarrow> block_size h1 q = block_size h q"
    using o by (simp_all add: large_open_def)
  have ow: "owned ps (us @ (a, p) # vs) = insert p (owned ps ls)"
    using I1(3) ls(1) by (auto simp: owned_def)
  have "pool_inv ?h pool n ps rs (us @ (a, p) # vs) cs base"
  proof (rule inv_entry)
    show "pool_inv h1 pool n ps rs (us @ (a, NULL) # vs) cs (base(p \<mapsto> unat k))"
      using I1(1) ls(1) by simp
    show "p = NULL \<or> p \<notin> set (allocs (us @ vs))" "p = NULL \<or> p \<notin> set ps \<and> block_size h1 p \<noteq> None"
      using I1(5,6) ls(1) by (simp_all add: owned_def)
    show "block_size h1 b = base b" if "b \<notin> owned ps (us @ (a, p) # vs)" for b
      using pool_invD(10) [OF I1(1), of b] that ow by simp
    show "base b = None" if "b \<in> owned ps (us @ (a, p) # vs)" for b
      using pool_invD(11) [OF I1(2), of b] that ow I1(4) by auto
  qed (rule ls(2))
  moreover have "set (allocs (us @ (a, p) # vs)) = insert p (set (allocs ls))"
    using I1(3) ls(1) by auto
  ultimately show ?thesis
    unfolding large_done_def using O I1(3,6)
    by (intro conjI exI [of _ ps] exI [of _ rs] exI [of _ "us @ (a, p) # vs"]) simp_all
qed

text \<open>A new record for the block, or the block given back when there is no room for the record.\<close>

lemma large_record:
  assumes o: "large_open h pool n ps rs ls cs base k p h1"
  obtains h' where "do {
        (l, h) \<leftarrow> nc_palloc_small pool (of_nat sizeof_large) True h1;
        if l = NULL then do { h \<leftarrow> nc_free p h; Some (NULL, h) }
        else do {
          hd \<leftarrow> get_head h pool;
          h \<leftarrow> put_large l \<lparr>l_next = p_large hd, l_alloc = p\<rparr> h;
          h \<leftarrow> upd_head pool (\<lambda>hd. hd\<lparr>p_large := l\<rparr>) h;
          Some (p, h)
        }
      } = Some (NULL, h')" "large_done h pool n rs ls cs base k NULL h'"
  | h' where "do {
        (l, h) \<leftarrow> nc_palloc_small pool (of_nat sizeof_large) True h1;
        if l = NULL then do { h \<leftarrow> nc_free p h; Some (NULL, h) }
        else do {
          hd \<leftarrow> get_head h pool;
          h \<leftarrow> put_large l \<lparr>l_next = p_large hd, l_alloc = p\<rparr> h;
          h \<leftarrow> upd_head pool (\<lambda>hd. hd\<lparr>p_large := l\<rparr>) h;
          Some (p, h)
        }
      } = Some (p, h')" "large_done h pool n rs ls cs base k p h'"
proof -
  have O: "pool_inv h pool n ps rs ls cs base" "pool_inv h1 pool n ps rs ls cs (base(p \<mapsto> unat k))" "base p = None" "p \<noteq> NULL"
    "malloc k h = (p, h1)" "block_size h p = None" "bytes h1 = bytes h" "calls h1 = calls h"
    "\<And>q. block_size h q \<noteq> None \<Longrightarrow> block_size h1 q = block_size h q \<and> q \<noteq> p"
    using o by (simp_all add: large_open_def)
  have n: "unat (of_nat sizeof_large :: addr) + 32 \<le> n"
    using coreD(5) [OF pool_invD(1) [OF O(1)]] by (simp add: large_size)
  obtain l h2 ps' where S: "nc_palloc_small pool (of_nat sizeof_large) True h1 = Some (l, h2)" "quiet h1 h2" "grown h1 h2 n ps ps'"
    "pool_inv h2 pool n ps' (if l = NULL then rs else (l, 16) # rs) ls cs (base(p \<mapsto> unat k))"
    "l = NULL \<Longrightarrow> fst (malloc (of_nat n) h1) = NULL"
    using inv_small [OF O(2) n, of True] unfolding large_size(2) by metis
  have k2: "bytes h2 = bytes h" "calls h2 = calls h"
    using S(2) O(7,8) by (simp_all add: quiet_def)
  have b2: "block_size h2 q = block_size h q \<and> q \<noteq> p" if "block_size h q \<noteq> None" for q
    using O(9) [OF that] grown_owned(3) [OF S(3), of q] that by simp
  have p2: "p \<notin> owned ps' ls" "block_size h2 p = Some (unat k)"
    using pool_invD(10,11) [OF S(4), of p] by auto
  show thesis
  proof (cases "l = NULL")
    case True
    then have "pool_inv h2 pool n ps' rs ls cs (base(p \<mapsto> unat k))"
      using S(4) by simp
    from inv_drop [OF this p2(1)] have "pool_inv (drop_block p h2) pool n ps' rs ls cs base"
      using O(3) by (simp add: fun_upd_idem)
    then have "large_done h pool n rs ls cs base k NULL (drop_block p h2)"
      using S(5) True O(5) k2 b2 by (auto simp: large_done_def block_size_drop)
    then show thesis
      using that(1) S(1) True p2(2) O(4) by (simp add: nc_free_def free_def)
  next
    case False
    then have I2: "pool_inv h2 pool n ps' ((l, 16) # rs) ls cs (base(p \<mapsto> unat k))"
      using S(4) by simp
    obtain H2 where H2: "get_head h2 pool = Some H2" "phead h2 pool = Some H2" "record_ok h2 pool sizeof_pool"
      using inv_head [OF I2] by metis
    let ?h = "h2\<lparr>larges := (larges h2)(l \<mapsto> \<lparr>l_next = p_large H2, l_alloc = p\<rparr>), phead := (phead h2)(pool \<mapsto> H2\<lparr>p_large := l\<rparr>)\<rparr>"
    have "l \<notin> fst ` set ls"
      using region_fresh [OF pool_invD(1) [OF I2], of 16] pool_invD(3) [OF O(1), of l] by auto
    from inv_new_entry [OF I2 H2(2) _ this O(4) p2(1)] have "pool_inv ?h pool n ps' ((l, 16) # rs) ((l, p) # ls) cs base"
      using p2(2) O(3) by (simp add: fun_upd_idem)
    then have "large_done h pool n rs ls cs base k p ?h"
      unfolding large_done_def using O(4,6) k2 b2 p2(2)
      by (intro conjI exI [of _ ps'] exI [of _ "(l, 16) # rs"] exI [of _ "(l, p) # ls"]) auto
    moreover have "record_ok h2 l 16"
      using region_record(1) [OF pool_invD(1) [OF I2], of l 16] by simp
    ultimately show thesis
      using that(2) S(1) False H2 by (simp add: put_large_def upd_head_def put_head_def get_head_def pool_sizes)
  qed
qed

lemma palloc_large_done:
  assumes "pool_inv h pool n ps rs ls cs base"
  obtains m h' where "nc_palloc_large pool k h = Some (m, h')" "large_done h pool n rs ls cs base k m h'"
proof (cases "malloc k h")
  case M: (Pair p h1)
  show thesis
  proof (cases "p = NULL")
    case True
    then have "large_done h pool n rs ls cs base k NULL h1"
      using inv_malloc(1) [OF assms M] M core_malloc(3,8) [OF pool_invD(1) [OF assms] M]
      by (auto simp: large_done_def dest: malloc_NULL_live)
    then show thesis
      using that True M by (simp add: nc_palloc_large_def nc_alloc_def)
  next
    case False
    note o = large_openI [OF assms M False]
    then have I1: "pool_inv h1 pool n ps rs ([] @ ls) cs (base(p \<mapsto> unat k))"
      by (simp add: large_open_def)
    obtain H where H: "get_head h1 pool = Some H" "lchain h1 (p_large H) ls"
      using inv_head [OF I1] by auto
    note run = nc_palloc_large_def nc_alloc_def M H(1)
    consider (None) "reuse_loop 0 (p_large H) p h1 = Some (False, h1)"
      | (Reuse) us a vs r where "ls = us @ (a, NULL) # vs" "larges h1 a = Some r"
        "reuse_loop 0 (p_large H) p h1 = Some (True, h1\<lparr>larges := (larges h1)(a \<mapsto> r\<lparr>l_alloc := p\<rparr>)\<rparr>)"
      using reuse_loop_ok [OF I1 H(2), of 0 p] unfolding append_Nil by blast
    then show thesis
    proof cases
      case Reuse
      then show thesis
        using that large_reuse [OF o Reuse(1,2)] False by (simp add: run)
    next
      case None
      show thesis
        by (rule large_record [OF o]) (use that None False in \<open>simp_all add: run\<close>)
    qed
  qed
qed

lemma palloc_large_ok:
  assumes "pool_inv h pool n ps rs ls cs base"
  obtains m h' ps' rs' ls' where "nc_palloc_large pool k h = Some (m, h')" "bytes h' = bytes h" "calls h' = calls h"
    "pool_inv h' pool n ps' rs' ls' cs base" "set rs \<subseteq> set rs'"
    "m = NULL \<Longrightarrow> set (allocs ls') = set (allocs ls) \<and> (fst (malloc k h) = NULL \<or> fst (malloc (of_nat n) (snd (malloc k h))) = NULL)"
    "m \<noteq> NULL \<Longrightarrow> set (allocs ls') = insert m (set (allocs ls)) \<and> block_size h m = None \<and> block_size h' m = Some (unat k)"
    "\<And>q. block_size h q \<noteq> None \<Longrightarrow> block_size h' q = block_size h q"
proof -
  obtain m h' where r: "nc_palloc_large pool k h = Some (m, h')" "large_done h pool n rs ls cs base k m h'"
    using palloc_large_done [OF assms] .
  then obtain ps' rs' ls' where "pool_inv h' pool n ps' rs' ls' cs base" "set rs \<subseteq> set rs'"
    "if m = NULL then set (allocs ls') = set (allocs ls) \<and>
       (fst (malloc k h) = NULL \<or> fst (malloc (of_nat n) (snd (malloc k h))) = NULL)
     else set (allocs ls') = insert m (set (allocs ls)) \<and> block_size h m = None \<and> block_size h' m = Some (unat k)"
    unfolding large_done_def by blast
  moreover have "bytes h' = bytes h" "calls h' = calls h" "\<And>q. block_size h q \<noteq> None \<Longrightarrow> block_size h' q = block_size h q"
    using r(2) by (simp_all add: large_done_def)
  ultimately show thesis
    using that [OF r(1), of ps' rs' ls'] by presburger
qed

end
