(* ===== verification/Nc_Palloc_Ops.thy ===== *)
theory Nc_Palloc_Ops
  imports Nc_Palloc_Inv
begin

text \<open>
  Every operation of \<open>nc_palloc.c\<close> on a pool that satisfies the invariant: the three allocation routines
  with the memory they hand out, \<open>nc_pfree\<close>, \<open>nc_pool_cleanup_add\<close>, creation, destruction and reset.
\<close>

subsection \<open>Memory in use\<close>

text \<open>
  What the pool has handed out (with its own records among it) and the blocks that belong to others.
\<close>

definition in_use :: "pool_heap \<Rightarrow> (addr \<times> nat) list \<Rightarrow> (addr \<times> addr) list \<Rightarrow> (addr \<Rightarrow> nat option) \<Rightarrow> (addr \<times> nat) set" where
  "in_use h rs ls base = set rs \<union> {(x, s). x \<in> set (allocs ls) \<and> block_size h x = Some s} \<union> {(x, s). base x = Some s}"

lemma apart_sep:
  assumes "heap_ok h" "block_size h p = Some i" "block_size h q = Some j" "p \<noteq> q"
    "unat p \<le> unat (fst r)" "unat (fst r) + snd r \<le> unat p + i" "unat q \<le> unat (fst s)" "unat (fst s) + snd s \<le> unat q + j"
  shows "sep r s"
proof -
  have "unat p + extent i \<le> unat q \<or> unat q + extent j \<le> unat p"
    using block_size_apart [OF assms(1-4)] by (simp add: apart_def)
  then show ?thesis
    using assms(5-) extent_simps(3) [of i] extent_simps(3) [of j] unfolding sep_def by linarith
qed

lemma in_use_other:
  assumes "pool_inv h pool n ps rs ls cs base" "s \<in> in_use h rs' ls base" "s \<notin> set rs'"
  shows "block_size h (fst s) = Some (snd s)" "fst s \<notin> set ps"
proof -
  note D = pool_invD [OF assms(1)]
  consider "fst s \<in> set (allocs ls)" "block_size h (fst s) = Some (snd s)" | "base (fst s) = Some (snd s)"
    using assms(2,3) by (auto simp: in_use_def)
  then have "block_size h (fst s) = Some (snd s) \<and> fst s \<notin> set ps"
  proof cases
    case 2
    then have "fst s \<notin> owned ps ls"
      using D(11) [of "fst s"] by auto
    then show ?thesis
      using 2 D(10) by (simp add: owned_def)
  qed (use D(9) in simp)
  then show "block_size h (fst s) = Some (snd s)" "fst s \<notin> set ps"
    by simp_all
qed

lemma in_use_block:
  assumes "pool_inv h pool n ps rs ls cs base" "s \<in> in_use h rs ls base"
  obtains q j where "block_size h q = Some j" "unat q \<le> unat (fst s)" "unat (fst s) + snd s \<le> unat q + j"
proof (cases "s \<in> set rs")
  case True
  obtain p where p: "p \<in> set ps" "block_size h p = Some n" "unat p + hdr pool p \<le> unat (fst s)" "unat (fst s) + snd s \<le> unat p + n"
    using core_region [OF pool_invD(1) [OF assms(1)] True] by metis
  then have "unat p \<le> unat (fst s)"
    by linarith
  then show thesis
    using that p by blast
next
  case False
  then show thesis
    using that in_use_other [OF assms False] by blast
qed

text \<open>A block that the system has just given out is apart from all of them.\<close>

lemma fresh_sep:
  assumes "pool_inv h pool n ps rs ls cs base" "s \<in> in_use h rs ls base" "heap_ok h'" "block_size h m = None" "block_size h' m = Some k"
    "\<And>q. block_size h q \<noteq> None \<Longrightarrow> block_size h' q = block_size h q"
  shows "sep (m, k) s"
proof (rule in_use_block [OF assms(1,2)])
  fix q j
  assume q: "block_size h q = Some j" "unat q \<le> unat (fst s)" "unat (fst s) + snd s \<le> unat q + j"
  have "block_size h' q = Some j" "m \<noteq> q"
    using assms(4) assms(6) [of q] q(1) by auto
  from apart_sep [OF assms(3,5) this, of "(m, k)" s] q show ?thesis
    by simp
qed

lemma region_sep:
  assumes "pool_inv h pool n ps ((m, k) # rs) ls cs base" "s \<in> in_use h rs ls base"
  shows "sep (m, k) s"
proof (cases "s \<in> set rs")
  case True
  then show ?thesis
    using coreD(9) [OF pool_invD(1) [OF assms(1)]] by simp
next
  case False
  note D = pool_invD [OF assms(1)]
  note o = in_use_other [OF assms False]
  have "(m, k) \<in> set ((m, k) # rs)"
    by simp
  from core_region [OF D(1) this] obtain p where "p \<in> set ps" "block_size h p = Some n" "unat p + hdr pool p \<le> unat m" "unat m + k \<le> unat p + n"
    by (metis fst_conv snd_conv)
  then show ?thesis
    using apart_sep [OF coreD(1) [OF D(1)], of p n "fst s" "snd s" "(m, k)" s] o by auto
qed

subsection \<open>The allocation routines\<close>

definition palloc_al :: "bool \<Rightarrow> addr \<Rightarrow> size_t \<Rightarrow> pool_heap \<Rightarrow> (addr \<times> pool_heap) option" where
  "palloc_al al pool k h = do {
     hd \<leftarrow> get_head h pool;
     if k \<le> p_max hd then nc_palloc_small pool k al h else nc_palloc_large pool k h
   }"

lemma palloc_al: "nc_palloc = palloc_al True" "nc_pnalloc = palloc_al False"
  by (simp_all add: fun_eq_iff nc_palloc_def nc_pnalloc_def palloc_al_def)

lemma small_size_iff:
  assumes "64 \<le> n" "n < 18446744073709551616"
  shows "k \<le> c_MIN (of_nat (n - 64)) NC_MAX_ALLOC_FROM_POOL \<longleftrightarrow> unat k + 64 \<le> n \<and> unat k \<le> 4095"
proof -
  have "unat (of_nat (n - 64) :: addr) = n - 64"
    using assms(2) by (intro unat_of_nat_ok) simp
  then show ?thesis
    using assms(1) by (auto simp: c_MIN_def NC_MAX_ALLOC_FROM_POOL_def word_le_nat_alt word_less_nat_alt)
qed

definition refused :: "size_t \<Rightarrow> nat \<Rightarrow> pool_heap \<Rightarrow> bool" where
  "refused k n h \<longleftrightarrow> fst (malloc k h) = NULL \<or> fst (malloc (of_nat n) h) = NULL \<or> fst (malloc (of_nat n) (snd (malloc k h))) = NULL"

text \<open>What the caller gets: the null pointer when the system refused, otherwise memory of its own.\<close>

definition handed :: "pool_heap \<Rightarrow> addr \<Rightarrow> nat \<Rightarrow> pool_heap \<Rightarrow> bool \<Rightarrow> (addr \<times> nat) list \<Rightarrow> (addr \<times> addr) list \<Rightarrow> (addr \<Rightarrow> nat option) \<Rightarrow> bool" where
  "handed h' m k h al rs ls base \<longleftrightarrow> record_ok h' m k \<and> (al \<longrightarrow> 8 dvd unat m) \<and> (\<forall>s \<in> in_use h rs ls base. sep (m, k) s)"

lemma in_use_mono:
  assumes "set rs \<subseteq> set rs'" "set (allocs ls) \<subseteq> set (allocs ls')" "\<And>x. x \<in> set (allocs ls) \<Longrightarrow> block_size h' x = block_size h x"
  shows "in_use h rs ls base \<subseteq> in_use h' rs' ls' base"
  using assms by (auto simp: in_use_def)

lemma palloc_al_ok:
  assumes "pool_inv h pool n ps rs ls cs base"
  obtains m h' ps' rs' ls' where "palloc_al al pool k h = Some (m, h')" "bytes h' = bytes h" "calls h' = calls h"
    "pool_inv h' pool n ps' rs' ls' cs base" "set rs \<subseteq> set rs'" "in_use h rs ls base \<subseteq> in_use h' rs' ls' base"
    "m = NULL \<Longrightarrow> refused k n h"
    "m \<noteq> NULL \<Longrightarrow> handed h' m (unat k) h al rs ls base \<and> (m, unat k) \<in> in_use h' rs' ls' base"
    "m \<noteq> NULL \<Longrightarrow> unat k + 64 \<le> n \<Longrightarrow> unat k \<le> 4095 \<Longrightarrow> rs' = (m, unat k) # rs"
proof -
  obtain H where H: "get_head h pool = Some H" "p_max H = c_MIN (of_nat (n - 64)) NC_MAX_ALLOC_FROM_POOL"
    using inv_head [OF assms] by metis
  have "unat pool + n < 18446744073709551616"
    using core_block [OF pool_invD(1) [OF assms] coreD(3) [OF pool_invD(1) [OF assms]]] by metis
  then have n: "64 \<le> n" "n < 18446744073709551616"
    using coreD(5) [OF pool_invD(1) [OF assms]] by linarith+
  show thesis
  proof (cases "unat k + 64 \<le> n \<and> unat k \<le> 4095")
    case True
    then have eq: "palloc_al al pool k h = nc_palloc_small pool k al h" and k: "unat k + 32 \<le> n"
      using H small_size_iff [OF n, of k] by (simp_all add: palloc_al_def)
    obtain m h' ps' where m: "nc_palloc_small pool k al h = Some (m, h')" "quiet h h'" "grown h h' n ps ps'"
      "pool_inv h' pool n ps' (if m = NULL then rs else (m, unat k) # rs) ls cs base"
      "m = NULL \<Longrightarrow> fst (malloc (of_nat n) h) = NULL" "al \<Longrightarrow> 8 dvd unat m"
      using inv_small [OF assms k, of al] by metis
    let ?rs = "if m = NULL then rs else (m, unat k) # rs"
    have use: "in_use h rs ls base \<subseteq> in_use h' ?rs ls base"
      using grown_owned(3) [OF m(3)] pool_invD(8) [OF assms] by (intro in_use_mono) auto
    have "handed h' m (unat k) h al rs ls base \<and> (m, unat k) \<in> in_use h' ?rs ls base" if "m \<noteq> NULL"
    proof -
      have I: "pool_inv h' pool n ps' ((m, unat k) # rs) ls cs base"
        using m(4) that by simp
      have "in_use h rs ls base \<subseteq> in_use h' rs ls base"
        using grown_owned(3) [OF m(3)] pool_invD(8) [OF assms] by (intro in_use_mono) auto
      then have "\<forall>s \<in> in_use h rs ls base. sep (m, unat k) s"
        using region_sep [OF I] by blast
      moreover have "(m, unat k) \<in> in_use h' ?rs ls base"
        using that by (simp add: in_use_def)
      ultimately show ?thesis
        using region_record [OF pool_invD(1) [OF I], of m "unat k"] m(6) by (simp add: handed_def)
    qed
    then show thesis
      by (intro that [of m h' ps' ?rs ls]) (use eq m(1,2,4,5) use in \<open>auto simp: quiet_def refused_def\<close>)
  next
    case False
    then have eq: "palloc_al al pool k h = nc_palloc_large pool k h"
      using H small_size_iff [OF n, of k] by (auto simp: palloc_al_def)
    obtain m h' ps' rs' ls' where m: "nc_palloc_large pool k h = Some (m, h')" "bytes h' = bytes h" "calls h' = calls h"
      "pool_inv h' pool n ps' rs' ls' cs base" "set rs \<subseteq> set rs'"
      "m = NULL \<Longrightarrow> set (allocs ls') = set (allocs ls) \<and> (fst (malloc k h) = NULL \<or> fst (malloc (of_nat n) (snd (malloc k h))) = NULL)"
      "m \<noteq> NULL \<Longrightarrow> set (allocs ls') = insert m (set (allocs ls)) \<and> block_size h m = None \<and> block_size h' m = Some (unat k)"
      "\<And>q. block_size h q \<noteq> None \<Longrightarrow> block_size h' q = block_size h q"
      using palloc_large_ok [OF assms, of k] by metis
    have use: "in_use h rs ls base \<subseteq> in_use h' rs' ls' base"
      using m(5-8) pool_invD(8) [OF assms] by (intro in_use_mono) (cases "m = NULL", auto)+
    have "handed h' m (unat k) h al rs ls base \<and> (m, unat k) \<in> in_use h' rs' ls' base" if m0: "m \<noteq> NULL"
    proof -
      have f: "block_size h m = None" "block_size h' m = Some (unat k)" "m \<in> set (allocs ls')"
        using m(7) m0 by auto
      have ok: "heap_ok h'"
        using coreD(1) [OF pool_invD(1) [OF m(4)]] .
      have "16 dvd unat m"
        using block_size_fits [OF ok f(2)] by (simp add: fits_def)
      then have "8 dvd unat m"
        by (rule dvd_trans [rotated]) simp
      moreover have "record_ok h' m (unat k)"
        using valid_range_block [OF f(2), of m] m0 by (simp add: record_ok_def)
      moreover have "sep (m, unat k) s" if "s \<in> in_use h rs ls base" for s
        by (rule fresh_sep [OF assms that ok f(1,2) m(8)])
      ultimately show ?thesis
        using f(2,3) by (simp add: handed_def in_use_def)
    qed
    then show thesis
      using that [of m h' ps' rs' ls'] eq m(1-6) use False by (auto simp: refused_def)
  qed
qed

lemma inv_bytes: "pool_inv h pool n ps rs ls cs base \<Longrightarrow> pool_inv (h\<lparr>bytes := f\<rparr>) pool n ps rs ls cs base"
proof -
  have "pchain (h\<lparr>bytes := f\<rparr>) p qs = pchain h p qs" for p qs
    by (rule pchain_cong) simp
  moreover have "lchain (h\<lparr>bytes := f\<rparr>) l ls = lchain h l ls" for l
    by (rule lchain_cong) simp
  moreover have "cchain (h\<lparr>bytes := f\<rparr>) c cs = cchain h c cs" for c
    by (rule cchain_cong) simp
  ultimately show "pool_inv h pool n ps rs ls cs base \<Longrightarrow> ?thesis"
    by (simp add: pool_inv_def core_def block_ok_def in_block_def heap_frame del: of_nat_diff)
qed

lemma in_use_bytes [simp]: "in_use (h\<lparr>bytes := f\<rparr>) rs ls base = in_use h rs ls base"
  by (simp add: in_use_def heap_frame)

lemma record_ok_bytes [simp]: "record_ok (h\<lparr>bytes := f\<rparr>) = record_ok h"
  by (simp add: record_ok_def fun_eq_iff heap_frame)

lemma pcalloc_ok:
  assumes "pool_inv h pool n ps rs ls cs base"
  obtains m h' ps' rs' ls' where "nc_pcalloc pool k h = Some (m, h')" "calls h' = calls h"
    "pool_inv h' pool n ps' rs' ls' cs base" "set rs \<subseteq> set rs'" "in_use h rs ls base \<subseteq> in_use h' rs' ls' base"
    "m = NULL \<Longrightarrow> refused k n h \<and> bytes h' = bytes h"
    "m \<noteq> NULL \<Longrightarrow> handed h' m (unat k) h True rs ls base \<and> (m, unat k) \<in> in_use h' rs' ls' base"
    "m \<noteq> NULL \<Longrightarrow> bytes h' = (\<lambda>x. if unat (x - m) < unat k then 0 else bytes h x)"
proof -
  obtain m h' ps' rs' ls' where m: "palloc_al True pool k h = Some (m, h')" "bytes h' = bytes h" "calls h' = calls h"
    "pool_inv h' pool n ps' rs' ls' cs base" "set rs \<subseteq> set rs'" "in_use h rs ls base \<subseteq> in_use h' rs' ls' base"
    "m = NULL \<Longrightarrow> refused k n h"
    "m \<noteq> NULL \<Longrightarrow> handed h' m (unat k) h True rs ls base \<and> (m, unat k) \<in> in_use h' rs' ls' base"
    using palloc_al_ok [OF assms, where al = True and k = k] by metis
  show thesis
  proof (cases "m = NULL")
    case True
    then show thesis
      using that [of m h' ps' rs' ls'] m by (simp add: nc_pcalloc_def palloc_al)
  next
    case False
    let ?h = "h'\<lparr>bytes := \<lambda>x. if unat (x - m) < unat k then 0 else bytes h x\<rparr>"
    have "valid_range h' m (unat k)"
      using m(8) [OF False] by (simp add: handed_def record_ok_def)
    then have "nc_pcalloc pool k h = Some (m, ?h)"
      using False m(1,2) by (simp add: nc_pcalloc_def palloc_al memset_def cong: if_cong)
    then show thesis
      using that [of m ?h ps' rs' ls'] m inv_bytes [OF m(4)] False by (simp add: handed_def)
  qed
qed

subsection \<open>Release of a large block\<close>

lemma pfree_loop_ok:
  assumes "pool_inv h pool n ps rs (us @ vs) cs base" "lchain h l vs"
  shows "p \<notin> snd ` set vs \<and> pfree_loop l p h = Some (NC_ERROR, h) \<or>
    (\<exists>us' a vs' r. us @ vs = us' @ (a, p) # vs' \<and> larges h a = Some r \<and> l_alloc r = p \<and>
      pfree_loop l p h = Option.bind (nc_free p h) (\<lambda>h. Option.bind (upd_large a (\<lambda>r. r\<lparr>l_alloc := NULL\<rparr>) h) (\<lambda>h. Some (NC_OK, h))))"
  using assms
proof (induction vs arbitrary: us l)
  case Nil
  then show ?case
    by (subst pfree_loop.simps) simp
next
  case (Cons v vs)
  obtain a x where v: "v = (a, x)"
    by fastforce
  obtain r where r: "get_large h a = Some r" "larges h a = Some r" "l_alloc r = x" "a \<noteq> NULL"
    using inv_large [OF Cons(2), of a x] v by auto
  have l: "l = a" "lchain h (l_next r) vs"
    using Cons(3) r(2) v by auto
  have "pool_inv h pool n ps rs ((us @ [v]) @ vs) cs base"
    using Cons(2) by simp
  note IH = Cons(1) [OF this l(2)]
  show ?case
  proof (cases "p = x")
    case True
    then have "pfree_loop l p h = Option.bind (nc_free p h) (\<lambda>h. Option.bind (upd_large a (\<lambda>r. r\<lparr>l_alloc := NULL\<rparr>) h) (\<lambda>h. Some (NC_OK, h)))"
      using r l(1) by (subst pfree_loop.simps) simp
    then show ?thesis
      using True v r(2,3) by blast
  next
    case False
    then have "pfree_loop l p h = pfree_loop (l_next r) p h"
      using r l(1) by (subst pfree_loop.simps) simp
    then show ?thesis
      using IH False v by simp
  qed
qed

lemma pfree_ok:
  assumes "pool_inv h pool n ps rs ls cs base"
  obtains r h' ls' where "nc_pfree pool p h = Some (r, h')" "bytes h' = bytes h" "calls h' = calls h"
    "pool_inv h' pool n ps rs ls' cs base"
    "p \<in> set (allocs ls) \<Longrightarrow> r = NC_OK \<and> set (allocs ls') = set (allocs ls) - {p} \<and> block_size h' = (block_size h)(p := None)"
    "p \<notin> set (allocs ls) \<Longrightarrow> h' = h \<and> ls' = ls \<and> (p \<noteq> NULL \<longrightarrow> r = NC_ERROR)"
proof -
  obtain H where H: "get_head h pool = Some H" "lchain h (p_large H) ls"
    using inv_head [OF assms] by metis
  have run: "nc_pfree pool p h = pfree_loop (p_large H) p h"
    using H(1) by (simp add: nc_pfree_def)
  have I0: "pool_inv h pool n ps rs ([] @ ls) cs base"
    using assms by simp
  consider (None) "p \<notin> snd ` set ls" "pfree_loop (p_large H) p h = Some (NC_ERROR, h)"
    | (Some) us a vs r where "ls = us @ (a, p) # vs" "larges h a = Some r" "l_alloc r = p"
      "pfree_loop (p_large H) p h = Option.bind (nc_free p h) (\<lambda>h. Option.bind (upd_large a (\<lambda>r. r\<lparr>l_alloc := NULL\<rparr>) h) (\<lambda>h. Some (NC_OK, h)))"
    using pfree_loop_ok [OF I0 H(2), of p] unfolding append_Nil by blast
  then show thesis
  proof cases
    case None
    then have "p \<notin> set (allocs ls)"
      by (auto simp: allocs_def)
    then show thesis
      using that [of NC_ERROR h ls] run None assms by simp
  next
    case Some
    have rec: "record_ok h a sizeof_large"
      using inv_large [OF assms, of a p] Some(1) by auto
    show thesis
    proof (cases "p = NULL")
      case True
      have "r\<lparr>l_alloc := NULL\<rparr> = r"
        using Some(3) True by simp
      then have "nc_pfree pool p h = Some (NC_OK, h)"
        using run Some(2,4) rec True
        by (simp add: nc_free_def free_def upd_large_def get_large_def put_large_def fun_upd_idem)
      then show thesis
        using that [of NC_OK h ls] assms True by simp
    next
      case False
      then have pa: "p \<in> set (allocs ls)"
        using Some(1) by simp
      obtain s where s: "block_size h p = Some s"
        using pool_invD(8) [OF assms pa] by auto
      let ?h1 = "h\<lparr>larges := (larges h)(a \<mapsto> r\<lparr>l_alloc := NULL\<rparr>)\<rparr>"
      let ?ls = "us @ (a, NULL) # vs"
      have al: "set (allocs ?ls) = set (allocs ls) - {p}"
        using pool_invD(7) [OF assms] Some(1) False by auto
      then have ow: "owned ps ?ls = owned ps ls - {p}"
        using pool_invD(9) [OF assms pa] by (auto simp: owned_def)
      have bp: "base p = None"
        using pool_invD(11) [OF assms, of p] pa by (simp add: owned_def)
      have "pool_inv ?h1 pool n ps rs ?ls cs (base(p \<mapsto> s))"
      proof (rule inv_entry)
        show "pool_inv h pool n ps rs (us @ (a, p) # vs) cs base"
          using assms Some(1) by simp
        show "block_size h b = (base(p \<mapsto> s)) b" if "b \<notin> owned ps ?ls" for b
          using pool_invD(10) [OF assms, of b] that s ow by auto
        show "(base(p \<mapsto> s)) b = None" if "b \<in> owned ps ?ls" for b
          using pool_invD(11) [OF assms, of b] that ow by auto
      qed (use Some(2) in simp_all)
      from inv_drop [OF this, of p] have I: "pool_inv (drop_block p ?h1) pool n ps rs ?ls cs base"
        using ow bp by (simp add: fun_upd_idem)
      have "drop_block p ?h1 = (drop_block p h)\<lparr>larges := (larges h)(a \<mapsto> r\<lparr>l_alloc := NULL\<rparr>)\<rparr>"
        by (simp add: drop_block_def)
      moreover have "record_ok (drop_block p h) a sizeof_large"
        using inv_large [OF I, of a NULL] unfolding calculation by auto
      ultimately have "nc_pfree pool p h = Some (NC_OK, drop_block p ?h1)"
        using run Some(2,4) s False by (simp add: nc_free_def free_def upd_large_def get_large_def put_large_def)
      moreover have "block_size (drop_block p ?h1) = (block_size h)(p := None)"
        by (simp add: fun_eq_iff block_size_drop)
      ultimately show thesis
        using that [of NC_OK "drop_block p ?h1" ?ls] I pa al by simp
    qed
  qed
qed

subsection \<open>Cleanup handlers\<close>

lemma inv_new_clean:
  assumes "pool_inv h pool n ps rs ls cs base" "phead h pool = Some H" "(c, 24) \<in> set rs" "c \<notin> fst ` set cs" "c_next r = p_cleanup H"
  shows "pool_inv (h\<lparr>cleans := (cleans h)(c \<mapsto> r), phead := (phead h)(pool \<mapsto> H\<lparr>p_cleanup := c\<rparr>)\<rparr>) pool n ps rs ls ((c, r) # cs) base"
    (is "pool_inv ?h pool n ps rs ls _ base")
proof -
  note D = pool_invD [OF assms(1)]
  have H: "lchain h (p_large H) ls" "cchain h (p_cleanup H) cs"
    using D(2) assms(2) by auto
  show ?thesis
  proof (rule pool_invI [where H = "H\<lparr>p_cleanup := c\<rparr>"])
    show "core ?h pool n ps rs"
      by (rule core_same [OF D(1) _ _ _ assms(2), where H' = "H\<lparr>p_cleanup := c\<rparr>"]) (use coreD(1) [OF D(1)] in simp_all)
    show "lchain ?h (p_large (H\<lparr>p_cleanup := c\<rparr>)) ls"
      using H(1) lchain_cong [of ls ?h h] by simp
    have "cchain ?h q cs = cchain h q cs" for q
      by (rule cchain_cong) (use assms(4) in auto)
    then show "cchain ?h (p_cleanup (H\<lparr>p_cleanup := c\<rparr>)) ((c, r) # cs)"
      using H(2) assms(5) by simp
    show "(a, 24) \<in> set rs" if "a \<in> fst ` set ((c, r) # cs)" for a
      using D(5) [of a] assms(3) that by auto
    show "distinct (map fst ((c, r) # cs))"
      using D(6) assms(4) by simp
    show "\<And>a. a \<in> fst ` set ls \<Longrightarrow> (a, 16) \<in> set rs" "distinct (map fst ls)" "distinct (allocs ls)"
      "\<And>x. x \<in> set (allocs ls) \<Longrightarrow> x \<notin> set ps" "\<And>a. a \<in> owned ps ls \<Longrightarrow> base a = None"
      by (fact D)+
  qed (use D(8,10) in simp_all)
qed

lemma clean_size: "(of_nat sizeof_cleanup :: addr) = 24" "unat (of_nat sizeof_cleanup :: addr) = 24"
  by (simp_all add: pool_sizes)

lemma cleanup_add_ok:
  assumes "pool_inv h pool n ps rs ls cs base" "96 \<le> n"
  obtains c h' ps' rs' ls' cs' where "nc_pool_cleanup_add pool k h = Some (c, h')" "bytes h' = bytes h" "calls h' = calls h"
    "pool_inv h' pool n ps' rs' ls' cs' base" "set rs \<subseteq> set rs'" "in_use h rs ls base \<subseteq> in_use h' rs' ls' base"
    "c = NULL \<Longrightarrow> cs' = cs"
    "c \<noteq> NULL \<Longrightarrow> \<exists>r. cs' = (c, r) # cs \<and> c_handler r = NULL \<and> (c, 24) \<in> set rs' - set rs \<and>
       (if k = 0 then c_data r = NULL else handed h' (c_data r) (unat k) h True rs ls base \<and> (c_data r, unat k) \<in> in_use h' rs' ls' base)"
proof -
  obtain c h1 ps1 rs1 ls1 where A: "palloc_al True pool (of_nat sizeof_cleanup) h = Some (c, h1)" "bytes h1 = bytes h" "calls h1 = calls h"
    "pool_inv h1 pool n ps1 rs1 ls1 cs base" "set rs \<subseteq> set rs1" "in_use h rs ls base \<subseteq> in_use h1 rs1 ls1 base"
    "c \<noteq> NULL \<Longrightarrow> 24 + 64 \<le> n \<Longrightarrow> rs1 = (c, 24) # rs"
    by (rule palloc_al_ok [OF assms(1), where al = True and k = "of_nat sizeof_cleanup"]) (simp add: clean_size(2))
  show thesis
  proof (cases "c = NULL")
    case True
    then have "nc_pool_cleanup_add pool k h = Some (NULL, h1)"
      using A(1) by (simp add: nc_pool_cleanup_add_def palloc_al)
    then show thesis
      using that [of NULL h1 ps1 rs1 ls1 cs] A(2-6) by simp
  next
    case False
    then have rs1: "rs1 = (c, 24) # rs"
      using A(7) assms(2) by simp
    have new: "(c, 24) \<notin> set rs"
      using region_fresh [of h1 pool n ps1 c 24 rs 24] pool_invD(1) [OF A(4)] rs1 by simp
    obtain dt h2 ps2 rs2 ls2 where B: "(if k \<noteq> 0 then nc_palloc pool k h1 else Some (NULL, h1)) = Some (dt, h2)"
      "bytes h2 = bytes h1" "calls h2 = calls h1"
      "pool_inv h2 pool n ps2 rs2 ls2 cs base" "set rs1 \<subseteq> set rs2" "in_use h1 rs1 ls1 base \<subseteq> in_use h2 rs2 ls2 base"
      "if k = 0 then dt = NULL else dt \<noteq> NULL \<longrightarrow> handed h2 dt (unat k) h1 True rs1 ls1 base \<and> (dt, unat k) \<in> in_use h2 rs2 ls2 base"
    proof (cases "k = 0")
      case True
      then show thesis
        using that [of NULL h1 ps1 rs1 ls1] A(4) by simp
    next
      case k0: False
      note res = that
      obtain m h' ps' rs' ls' where m: "palloc_al True pool k h1 = Some (m, h')" "bytes h' = bytes h1" "calls h' = calls h1"
        "pool_inv h' pool n ps' rs' ls' cs base" "set rs1 \<subseteq> set rs'" "in_use h1 rs1 ls1 base \<subseteq> in_use h' rs' ls' base"
        "m \<noteq> NULL \<Longrightarrow> handed h' m (unat k) h1 True rs1 ls1 base \<and> (m, unat k) \<in> in_use h' rs' ls' base"
        using palloc_al_ok [OF A(4), where al = True and k = k] by metis
      show thesis
        by (rule res [of m h' ps' rs' ls']) (use m k0 in \<open>simp_all add: palloc_al\<close>)
    qed
    have c: "(c, 24) \<in> set rs2" "c \<notin> fst ` set cs"
      using B(5) rs1 new pool_invD(5) [OF assms(1), of c] by auto
    then have rec: "record_ok h2 c sizeof_cleanup"
      using region_record(1) [OF pool_invD(1) [OF B(4)] c(1)] by (simp add: pool_sizes)
    show thesis
    proof (cases "k \<noteq> 0 \<and> dt = NULL")
      case True
      then have "nc_pool_cleanup_add pool k h = Some (NULL, h2)"
        using A(1) B(1) rec False by (simp add: nc_pool_cleanup_add_def palloc_al)
      then show thesis
        using that [of NULL h2 ps2 rs2 ls2 cs] A B(2-6) by auto
    next
      case dt: False
      obtain H where H: "get_head h2 pool = Some H" "phead h2 pool = Some H" "record_ok h2 pool sizeof_pool"
        using inv_head [OF B(4)] by metis
      let ?r = "\<lparr>c_handler = NULL, c_data = dt, c_next = p_cleanup H\<rparr>"
      let ?h = "h2\<lparr>cleans := (cleans h2)(c \<mapsto> ?r), phead := (phead h2)(pool \<mapsto> H\<lparr>p_cleanup := c\<rparr>)\<rparr>"
      have "nc_pool_cleanup_add pool k h = Some (c, ?h)"
        using A(1) B(1) rec False dt H
        by (auto simp: nc_pool_cleanup_add_def palloc_al put_clean_def upd_head_def put_head_def get_head_def)
      moreover have "pool_inv ?h pool n ps2 rs2 ls2 ((c, ?r) # cs) base"
        by (rule inv_new_clean [OF B(4) H(2) c]) simp
      moreover have "in_use ?h rs2 ls2 base = in_use h2 rs2 ls2 base"
        by (simp add: in_use_def)
      moreover have "handed ?h dt (unat k) h True rs ls base" if "k \<noteq> 0"
      proof -
        have "handed h2 dt (unat k) h1 True rs1 ls1 base"
          using B(7) dt that by auto
        then show ?thesis
          using A(6) by (auto simp: handed_def)
      qed
      ultimately show thesis
        using that [of c ?h ps2 rs2 ls2 "(c, ?r) # cs"] A B dt c new False by auto
    qed
  qed
qed

text \<open>The caller sets the handler of a record it has been given.\<close>

definition set_handler :: "addr \<Rightarrow> addr \<Rightarrow> pool_heap \<Rightarrow> pool_heap option" where
  "set_handler c f h = do { r \<leftarrow> get_clean h c; put_clean c (r\<lparr>c_handler := f\<rparr>) h }"

lemma set_handler_ok:
  assumes "pool_inv h pool n ps rs ls ((c, r) # cs) base"
  obtains h' where "set_handler c f h = Some h'" "bytes h' = bytes h" "calls h' = calls h" "block_size h' = block_size h"
    "pool_inv h' pool n ps rs ls ((c, r\<lparr>c_handler := f\<rparr>) # cs) base"
proof -
  note D = pool_invD [OF assms]
  let ?h = "h\<lparr>cleans := (cleans h)(c \<mapsto> r\<lparr>c_handler := f\<rparr>)\<rparr>"
  obtain H :: nc_pool where H: "phead h pool = Some H" "lchain h (p_large H) ls" "cchain h (p_cleanup H) ((c, r) # cs)"
    using D(2) by blast
  have "pool_inv ?h pool n ps rs ls ((c, r\<lparr>c_handler := f\<rparr>) # cs) base"
  proof (rule pool_invI [where H = H])
    show "core ?h pool n ps rs"
      by (rule core_same [OF D(1) _ _ _ H(1), where H' = H]) (use coreD(1) [OF D(1)] H(1) in simp_all)
    show "lchain ?h (p_large H) ls"
      using H(2) lchain_cong [of ls ?h h] by simp
    have "cchain ?h q cs = cchain h q cs" for q
      by (rule cchain_cong) (use D(6) in auto)
    then show "cchain ?h (p_cleanup H) ((c, r\<lparr>c_handler := f\<rparr>) # cs)"
      using H(3) by simp
  qed (use D H in simp_all)
  moreover have "set_handler c f h = Some ?h"
    using inv_clean [OF assms, of c r] by (simp add: set_handler_def put_clean_def get_clean_def split: if_splits)
  ultimately show thesis
    using that [of ?h] by simp
qed

definition handler_log :: "(addr \<times> nc_pool_cleanup) list \<Rightarrow> (addr \<times> addr) list" where
  "handler_log cs = map (\<lambda>(a, r). (c_handler r, c_data r)) (filter (\<lambda>(a, r). c_handler r \<noteq> NULL) cs)"

lemma handler_log_simps [simp]:
  "handler_log [] = []"
  "handler_log ((a, r) # cs) = (if c_handler r \<noteq> NULL then (c_handler r, c_data r) # handler_log cs else handler_log cs)"
  by (simp_all add: handler_log_def)

lemma cleanup_loop_ok:
  assumes "cchain h c cs" "\<forall>(a, r) \<in> set cs. record_ok h a sizeof_cleanup \<and> a \<noteq> NULL"
  shows "cleanup_loop c h = Some (h\<lparr>calls := calls h @ handler_log cs\<rparr>)"
  using assms
proof (induction cs arbitrary: c h)
  case Nil
  then show ?case
    by (subst cleanup_loop.simps) simp
next
  case (Cons v cs)
  obtain a r where v: "v = (a, r)"
    by fastforce
  have a: "get_clean h a = Some r" "c = a" "a \<noteq> NULL" "cchain h (c_next r) cs"
    using Cons(2,3) v by (auto simp: get_clean_def)
  let ?h = "call_handler r h"
  have "cchain ?h (c_next r) cs" "\<forall>(a, r) \<in> set cs. record_ok ?h a sizeof_cleanup \<and> a \<noteq> NULL"
    using a(4) Cons(3) cchain_cong [of cs ?h h] by (auto simp: call_handler_def)
  from Cons(1) [OF this] have "cleanup_loop (c_next r) ?h = Some (?h\<lparr>calls := calls ?h @ handler_log cs\<rparr>)" .
  then show ?case
    using a(1-3) v by (subst cleanup_loop.simps) (simp add: call_handler_def)
qed

subsection \<open>Blocks given back one after the other\<close>

abbreviation drop_all :: "addr list \<Rightarrow> pool_heap \<Rightarrow> pool_heap" where
  "drop_all xs h \<equiv> fold drop_block xs h"

lemma drop_all_simps [simp]:
  "pdata (drop_all xs h) = pdata h" "phead (drop_all xs h) = phead h" "larges (drop_all xs h) = larges h"
  "cleans (drop_all xs h) = cleans h" "calls (drop_all xs h) = calls h" "bytes (drop_all xs h) = bytes h"
  by (induction xs arbitrary: h) simp_all

lemma block_size_drop_all: "block_size (drop_all xs h) a = (if a \<in> set xs then None else block_size h a)"
  by (induction xs arbitrary: h) (simp_all add: block_size_drop)

lemma heap_ok_drop_all: "heap_ok h \<Longrightarrow> heap_ok (drop_all xs h)"
  by (induction xs arbitrary: h) (simp_all add: heap_ok_drop)

text \<open>The record of a region stays accessible while the blocks of the pool do.\<close>

lemma record_drop_all:
  assumes "core h pool n ps rs" "(a, k) \<in> set rs" "set xs \<inter> set ps = {}"
  shows "record_ok (drop_all xs h) a k"
proof -
  obtain p where p: "p \<in> set ps" "block_size h p = Some n" "unat p + hdr pool p \<le> unat a" "unat a + k \<le> unat p + n"
    using core_region [OF assms(1,2)] by (metis fst_conv snd_conv)
  have "block_size (drop_all xs h) p = Some n"
    using p(1,2) assms(3) by (auto simp: block_size_drop_all)
  then show ?thesis
    using p region_record(2) [OF assms(1,2)] valid_range_block [of "drop_all xs h" p n a k] by (simp add: record_ok_def)
qed

lemma drop_all_larges: "drop_all xs (h\<lparr>larges := L\<rparr>) = (drop_all xs h)\<lparr>larges := L\<rparr>"
proof (induction xs arbitrary: h)
  case (Cons x xs)
  have "drop_block x (h\<lparr>larges := L\<rparr>) = (drop_block x h)\<lparr>larges := L\<rparr>"
    by (simp add: drop_block_def)
  then show ?case
    using Cons by simp
qed simp

lemma free_larges_ok:
  assumes "core h pool n ps rs" "lchain h l ls" "\<forall>a \<in> fst ` set ls. (a, 16) \<in> set rs" "distinct (map fst ls)"
    "distinct (xs @ allocs ls)" "\<forall>x \<in> set (xs @ allocs ls). block_size h x \<noteq> None \<and> x \<notin> set ps"
    "\<forall>a \<in> fst ` set ls. L a = larges h a"
  shows "\<exists>L'. free_larges l ((drop_all xs h)\<lparr>larges := L\<rparr>) = Some ((drop_all (xs @ allocs ls) h)\<lparr>larges := L'\<rparr>)"
  using assms(2-)
proof (induction ls arbitrary: l xs L)
  case Nil
  then show ?case
    by (subst free_larges.simps) auto
next
  case (Cons v ls)
  obtain a x where v: "v = (a, x)"
    by fastforce
  obtain r where r: "larges h a = Some r" "l = a" "l_alloc r = x" "lchain h (l_next r) ls"
    using Cons(2) v by auto
  have ar: "(a, 16) \<in> set rs" and La: "L a = Some r"
    using Cons(3,7) v r(1) by simp_all
  note rec = record_drop_all [OF assms(1) ar]
  let ?ys = "if x = NULL then xs else xs @ [x]"
  let ?L = "if x = NULL then L else L(a \<mapsto> r\<lparr>l_alloc := NULL\<rparr>)"
  have ys: "set xs \<inter> set ps = {}" "set ?ys \<inter> set ps = {}"
    using Cons(6) v by auto
  have "\<exists>L'. free_larges (l_next r) ((drop_all ?ys h)\<lparr>larges := ?L\<rparr>) = Some ((drop_all (?ys @ allocs ls) h)\<lparr>larges := L'\<rparr>)"
  proof (rule Cons(1) [OF r(4)])
    show "\<forall>a \<in> fst ` set ls. ?L a = larges h a"
      using Cons(4,7) v by auto
  qed (use Cons(3-6) v in \<open>auto split: if_splits\<close>)
  then obtain L' where L': "free_larges (l_next r) ((drop_all ?ys h)\<lparr>larges := ?L\<rparr>) = Some ((drop_all (?ys @ allocs ls) h)\<lparr>larges := L'\<rparr>)"
    by blast
  have step: "(if l_alloc r \<noteq> NULL then Option.bind (nc_free (l_alloc r) ((drop_all xs h)\<lparr>larges := L\<rparr>)) (upd_large l (\<lambda>r. r\<lparr>l_alloc := NULL\<rparr>))
      else Some ((drop_all xs h)\<lparr>larges := L\<rparr>)) = Some ((drop_all ?ys h)\<lparr>larges := ?L\<rparr>)"
  proof (cases "x = NULL")
    case False
    then have "block_size (drop_all xs h) x \<noteq> None"
      using Cons(5,6) v by (auto simp: block_size_drop_all)
    moreover have "drop_block x ((drop_all xs h)\<lparr>larges := L\<rparr>) = (drop_all (xs @ [x]) h)\<lparr>larges := L\<rparr>"
      by (simp add: drop_block_def)
    moreover have "record_ok (drop_all (xs @ [x]) h) a sizeof_large"
      using rec [OF ys(2)] False by (simp add: pool_sizes)
    ultimately show ?thesis
      using r(2,3) La False by (auto simp: nc_free_def free_def upd_large_def get_large_def put_large_def simp del: fold_append)
  qed (use r(3) in simp)
  have get: "get_large ((drop_all xs h)\<lparr>larges := L\<rparr>) a = Some r"
    using rec [OF ys(1)] La by (simp add: get_large_def pool_sizes)
  have get2: "\<exists>r'. get_large ((drop_all ?ys h)\<lparr>larges := ?L\<rparr>) a = Some r' \<and> l_next r' = l_next r"
    using rec [OF ys(2)] La by (auto simp: get_large_def pool_sizes simp del: fold_append)
  have "free_larges l ((drop_all xs h)\<lparr>larges := L\<rparr>) = free_larges (l_next r) ((drop_all ?ys h)\<lparr>larges := ?L\<rparr>)"
    using get get2 step r(2) region_record(2) [OF assms(1) ar] by (subst free_larges.simps) (auto simp del: fold_append)
  then show ?case
    using L' v by (auto split: if_splits)
qed

lemma free_pools_ok:
  assumes "pdata h p = Some d" "pchain h (d_next d) qs" "distinct (xs @ p # qs)"
    "\<forall>q \<in> set (p # qs). q \<noteq> NULL \<and> block_size h q = Some n" "32 \<le> n"
  shows "free_pools p (d_next d) (drop_all xs h) = Some (drop_all (xs @ p # qs) h)"
  using assms
proof (induction qs arbitrary: p d xs)
  case Nil
  then show ?case
    by (subst free_pools.simps) (simp add: nc_free_def free_def block_size_drop_all)
next
  case (Cons q qs)
  obtain e where e: "d_next d = q" "pdata h q = Some e" "pchain h (d_next e) qs"
    using Cons(3) by auto
  have "block_size (drop_all (xs @ [p]) h) q = Some n"
    using Cons(4,5) by (auto simp: block_size_drop block_size_drop_all)
  from valid_range_block [OF this, of q 32] have "get_d (drop_all (xs @ [p]) h) q = Some e"
    using Cons(5,6) e(2) by (simp add: get_d_def record_ok_def pool_sizes)
  moreover have "free_pools q (d_next e) (drop_all (xs @ [p]) h) = Some (drop_all ((xs @ [p]) @ q # qs) h)"
    by (rule Cons(1) [OF e(2,3)]) (use Cons(4-6) in auto)
  moreover have "nc_free p (drop_all xs h) = Some (drop_all (xs @ [p]) h)"
    using Cons(4,5) by (simp add: nc_free_def free_def block_size_drop_all)
  ultimately show ?case
    using e(1) Cons(5) by (subst free_pools.simps) simp
qed

subsection \<open>Destruction\<close>

lemma pool_first:
  assumes "core h pool n ps rs"
  obtains d qs where "ps = pool # qs" "pdata h pool = Some d" "pchain h (d_next d) qs"
  using coreD(2,3) [OF assms] by (cases ps) auto

lemma inv_frees:
  assumes "pool_inv h pool n ps rs ls cs base" "phead h pool = Some H"
  obtains L where "free_larges (p_large H) h = Some ((drop_all (allocs ls) h)\<lparr>larges := L\<rparr>)" "set (allocs ls) \<inter> set ps = {}"
proof -
  note D = pool_invD [OF assms(1)]
  have "lchain h (p_large H) ls"
    using D(2) assms(2) by auto
  from free_larges_ok [OF D(1) this, of "[]" "larges h"] obtain L where "free_larges (p_large H) h = Some ((drop_all (allocs ls) h)\<lparr>larges := L\<rparr>)"
    using D(3,4,7-9) by auto
  moreover have "set (allocs ls) \<inter> set ps = {}"
    using D(9) by blast
  ultimately show thesis
    using that by blast
qed

lemma block_drop_all:
  assumes "core h pool n ps rs" "p \<in> set ps" "set xs \<inter> set ps = {}" "k \<le> n"
  shows "record_ok (drop_all xs h) p k"
proof -
  have p: "block_size h p = Some n" "p \<noteq> NULL"
    using core_block [OF assms(1,2)] by metis+
  have "block_size (drop_all xs h) p = Some n"
    using p assms(2,3) by (auto simp: block_size_drop_all)
  from valid_range_block [OF this, of p k] show ?thesis
    using p(2) assms(4) by (simp add: record_ok_def)
qed

lemma pool_destroy_ok:
  assumes "pool_inv h pool n ps rs ls cs base"
  obtains h' where "nc_pool_destroy pool h = Some h'" "block_size h' = base" "calls h' = calls h @ handler_log cs"
    "bytes h' = bytes h" "heap_ok h'"
proof -
  note D = pool_invD [OF assms]
  obtain H where H: "get_head h pool = Some H" "phead h pool = Some H" "cchain h (p_cleanup H) cs"
    using inv_head [OF assms] by metis
  have "\<forall>(a, r) \<in> set cs. record_ok h a sizeof_cleanup \<and> a \<noteq> NULL"
  proof clarify
    fix a r
    assume "(a, r) \<in> set cs"
    from inv_clean [OF assms this] show "record_ok h a sizeof_cleanup \<and> a \<noteq> NULL"
      by (simp add: get_clean_def split: if_splits)
  qed
  note c = cleanup_loop_ok [OF H(3) this]
  let ?h = "h\<lparr>calls := calls h @ handler_log cs\<rparr>"
  have I: "pool_inv ?h pool n ps rs ls cs base"
  proof (rule pool_invI [where H = H])
    show "core ?h pool n ps rs"
      by (rule core_same [OF D(1) _ _ _ H(2), where H' = H]) (use coreD(1) [OF D(1)] H(2) in simp_all)
    show "lchain ?h (p_large H) ls"
      using D(2) H(2) lchain_cong [of ls ?h h] by auto
    show "cchain ?h (p_cleanup H) cs"
      using H(3) cchain_cong [of cs ?h h] by simp
  qed (use D H(2) in simp_all)
  have H': "get_head ?h pool = Some H" "phead ?h pool = Some H"
    using H(1,2) by (simp_all add: get_head_def split: if_splits)
  obtain L where f: "free_larges (p_large H) ?h = Some ((drop_all (allocs ls) ?h)\<lparr>larges := L\<rparr>)" "set (allocs ls) \<inter> set ps = {}"
    using inv_frees [OF I H'(2)] by blast
  obtain d qs where d: "ps = pool # qs" "pdata ?h pool = Some d" "pchain ?h (d_next d) qs"
    using pool_first [OF pool_invD(1) [OF I]] by metis
  have blk: "\<forall>q \<in> set ps. q \<noteq> NULL \<and> block_size ?h q = Some n"
    using core_block [OF pool_invD(1) [OF I]] by metis
  let ?h' = "(drop_all (allocs ls @ ps) ?h)\<lparr>larges := L\<rparr>"
  have get: "get_d ((drop_all (allocs ls) ?h)\<lparr>larges := L\<rparr>) pool = Some d"
    using block_drop_all [OF pool_invD(1) [OF I] _ f(2), of pool 32] d(1,2) coreD(5) [OF D(1)]
    by (simp add: get_d_def pool_sizes)
  have "pdata (?h\<lparr>larges := L\<rparr>) pool = Some d" "pchain (?h\<lparr>larges := L\<rparr>) (d_next d) qs"
    using d(2,3) pchain_cong [of qs "?h\<lparr>larges := L\<rparr>" ?h] by simp_all
  from free_pools_ok [OF this, of "allocs ls" n] have "free_pools pool (d_next d) ((drop_all (allocs ls) ?h)\<lparr>larges := L\<rparr>) = Some ?h'"
    using coreD(4,5) [OF D(1)] D(7) f(2) blk d(1) by (auto simp: drop_all_larges simp del: fold_append)
  then have "nc_pool_destroy pool h = Some ?h'"
    using H(1) c H'(1) f(1) get by (simp add: nc_pool_destroy_def)
  moreover have "block_size ?h' = base"
    using D(10,11) by (auto simp: fun_eq_iff block_size_drop_all owned_def)
  moreover have "heap_ok ?h'"
    using heap_ok_drop_all [OF coreD(1) [OF pool_invD(1) [OF I]]] by (simp del: fold_append)
  ultimately show thesis
    using that [of ?h'] by simp
qed

subsection \<open>Reset and creation\<close>

definition rewound :: "addr list \<Rightarrow> pool_heap \<Rightarrow> addr \<Rightarrow> nc_pool_data option" where
  "rewound qs h = (\<lambda>x. if x \<in> set qs then map_option (\<lambda>d. d\<lparr>d_last := x + 64, d_failed := 0\<rparr>) (pdata h x) else pdata h x)"

lemma reset_loop_ok:
  assumes "pchain h p qs" "distinct qs" "\<forall>q \<in> set qs. q \<noteq> NULL \<and> record_ok h q sizeof_pool_data"
  shows "reset_loop p h = Some (h\<lparr>pdata := rewound qs h\<rparr>)"
  using assms
proof (induction qs arbitrary: p h)
  case Nil
  then show ?case
    by (subst reset_loop.simps) (simp add: rewound_def)
next
  case (Cons q qs)
  obtain d where d: "pdata h q = Some d" "p = q" "pchain h (d_next d) qs"
    using Cons(2) by auto
  let ?d = "d\<lparr>d_last := q + 64, d_failed := 0\<rparr>"
  let ?h = "h\<lparr>pdata := (pdata h)(q \<mapsto> ?d)\<rparr>"
  have "pchain ?h (d_next d) qs"
    using d(3) Cons(3) by (subst pchain_cong [of _ _ h]) auto
  from Cons(1) [OF this] have "reset_loop (d_next d) ?h = Some (?h\<lparr>pdata := rewound qs ?h\<rparr>)"
    using Cons(3,4) by simp
  moreover have "rewound qs ?h = rewound (q # qs) h"
    using Cons(3) d(1) by (auto simp: rewound_def fun_eq_iff)
  ultimately show ?case
    using d(1,2) Cons(4) by (subst reset_loop.simps) (simp add: upd_d_def put_d_def get_d_def pool_sizes)
qed

lemma reset_core:
  assumes "core h pool n ps rs" "heap_ok h'" "\<And>p. p \<in> set ps \<Longrightarrow> block_size h' p = block_size h p" "pdata h' = rewound ps h"
    "phead h pool = Some H" "phead h' pool = Some (H\<lparr>p_current := pool, p_large := NULL\<rparr>)"
  shows "core h' pool n ps []"
proof -
  have "\<forall>p \<in> set ps. map_option d_next (pdata h' p) = map_option d_next (pdata h p)"
    by (simp add: assms(4) rewound_def option.map_comp comp_def)
  from pchain_cong [OF this] have "pchain h' pool ps"
    using coreD(2) [OF assms(1)] by simp
  moreover have "block_ok h' pool n p" if p: "p \<in> set ps" for p
  proof -
    obtain d where d: "pdata h p = Some d" "block_size h p = Some n" "d_end d = p + of_nat n" "unat p + n < 18446744073709551616"
      using core_block [OF assms(1) p] by metis
    have "unat (p + 64) = unat p + 64"
      using d(4) coreD(5) [OF assms(1)] by (simp add: unat_add_ok)
    then show ?thesis
      using d coreD(5) [OF assms(1)] assms(3) [OF p] p by (auto simp: block_ok_def assms(4) rewound_def hdr_def)
  qed
  moreover have "p_max H = c_MIN (of_nat (n - 64)) NC_MAX_ALLOC_FROM_POOL"
    using core_head [OF assms(1)] assms(5) by (metis option.inject)
  ultimately show ?thesis
    using coreD(3-6) [OF assms(1)] assms(2,6) by (simp add: core_def)
qed

lemma pool_reset_ok:
  assumes "pool_inv h pool n ps rs ls [] base"
  obtains h' where "nc_pool_reset pool h = Some h'" "bytes h' = bytes h" "calls h' = calls h" "pool_inv h' pool n ps [] [] [] base"
proof -
  note D = pool_invD [OF assms]
  obtain H where H: "get_head h pool = Some H" "phead h pool = Some H" "cchain h (p_cleanup H) []"
    using inv_head [OF assms] by metis
  obtain L where f: "free_larges (p_large H) h = Some ((drop_all (allocs ls) h)\<lparr>larges := L\<rparr>)" "set (allocs ls) \<inter> set ps = {}"
    using inv_frees [OF assms H(2)] by blast
  let ?h1 = "(drop_all (allocs ls) h)\<lparr>larges := L\<rparr>"
  have rec: "record_ok ?h1 p k" if "p \<in> set ps" "k \<le> 64" for p k
    using block_drop_all [OF D(1) that(1) f(2), of k] coreD(5) [OF D(1)] that(2) by simp
  have ne: "\<forall>q \<in> set ps. q \<noteq> NULL"
    using core_block [OF D(1)] by metis
  have "pchain ?h1 pool ps"
    using coreD(2) [OF D(1)] by (subst pchain_cong [of _ _ h]) simp_all
  from reset_loop_ok [OF this coreD(4) [OF D(1)]] have r: "reset_loop pool ?h1 = Some (?h1\<lparr>pdata := rewound ps ?h1\<rparr>)"
    using rec ne by (simp add: pool_sizes)
  have rw: "rewound ps ?h1 = rewound ps h"
    by (simp add: rewound_def cong: if_cong)
  let ?H = "H\<lparr>p_current := pool, p_large := NULL\<rparr>"
  let ?h = "?h1\<lparr>pdata := rewound ps h, phead := (phead h)(pool \<mapsto> ?H)\<rparr>"
  have "nc_pool_reset pool h = Some ?h"
    using H(1,2) f(1) r rw rec [OF coreD(3) [OF D(1)]]
    by (simp add: nc_pool_reset_def upd_head_def put_head_def get_head_def pool_sizes)
  moreover have "pool_inv ?h pool n ps [] [] [] base"
  proof (rule pool_invI [where H = ?H])
    show "core ?h pool n ps []"
      by (rule reset_core [OF D(1) _ _ _ H(2)])
        (use heap_ok_drop_all [OF coreD(1) [OF D(1)]] f(2) in \<open>auto simp: block_size_drop_all\<close>)
    show "block_size ?h a = base a" if "a \<notin> owned ps []" for a
      using D(10,11) [of a] that by (auto simp: block_size_drop_all owned_def)
    show "base a = None" if "a \<in> owned ps []" for a
      using D(11) [of a] that by (simp add: owned_def)
  qed (use H(3) in simp_all)
  ultimately show thesis
    using that [of ?h] by simp
qed

lemma pool_create_ok:
  assumes "heap_ok h" "64 \<le> unat k" "8 dvd unat k"
  obtains p h' where "nc_pool_create k h = Some (p, h')" "bytes h' = bytes h" "calls h' = calls h"
    "p = NULL \<Longrightarrow> fst (malloc k h) = NULL \<and> block_size h' = block_size h"
    "p \<noteq> NULL \<Longrightarrow> pool_inv h' p (unat k) [p] [] [] [] (block_size h)" "same_mem (snd (malloc k h)) h'" "p = fst (malloc k h)"
proof (cases "malloc k h")
  case M: (Pair p h1)
  show thesis
  proof (cases "p = NULL")
    case True
    then have "bytes h1 = bytes h" "calls h1 = calls h" "block_size h1 = block_size h"
      using M by (auto simp: malloc_def block_size_def fun_eq_iff split: list.splits if_splits)
    then show thesis
      using that [of NULL h1] M True by (simp add: nc_pool_create_def nc_memalign_def nc_alloc_def same_mem_def)
  next
    case False
    have f: "block_size h p = None" "block_size h1 = (block_size h)(p \<mapsto> unat k)" "heap_ok h1" "bytes h1 = bytes h" "calls h1 = calls h"
      using M False malloc_live [OF M False] placement_ok_block_size [of p "unat k" h] heap_ok_malloc [OF assms(1) M]
      by (auto simp: malloc_def block_size_def fun_eq_iff split: list.splits if_splits)
    have up: "unat p + unat k < 18446744073709551616"
      using block_size_fits [OF f(3), of p "unat k"] f(2) assms(2) by (simp add: fits_def)
    let ?d = "\<lparr>d_last = p + 64, d_end = p + k, d_next = NULL, d_failed = 0\<rparr>"
    let ?H = "\<lparr>p_max = c_MIN (k - 64) NC_MAX_ALLOC_FROM_POOL, p_current = p, p_large = NULL, p_cleanup = NULL\<rparr>"
    let ?h = "h1\<lparr>pdata := (pdata h1)(p \<mapsto> ?d), phead := (phead h1)(p \<mapsto> ?H)\<rparr>"
    have rec: "record_ok h1 p 32" "record_ok h1 p 64"
      using valid_range_block [of h1 p "unat k" p] f(2) assms(2) False by (simp_all add: record_ok_def)
    have "nc_pool_create k h = Some (p, ?h)"
      using M False rec by (simp add: nc_pool_create_def nc_memalign_def nc_alloc_def put_d_def put_head_def pool_sizes)
    moreover have "pool_inv ?h p (unat k) [p] [] [] [] (block_size h)"
    proof (rule pool_invI [where H = ?H])
      have e: "(of_nat (unat k - 64) :: addr) = k - 64"
        using assms(2) by (simp add: word_unat_eq_iff unat_of_nat_ok unat_sub_ok unat_bound64 less_imp_diff_less)
      have "unat (p + 64) = unat p + 64"
        using up assms(2) by (simp add: unat_add_ok)
      then have "block_ok ?h p (unat k) p"
        using f(2) assms(2) by (simp add: block_ok_def hdr_def)
      then show "core ?h p (unat k) [p] []"
        using f(3) assms(2,3) e by (simp add: core_def del: of_nat_diff)
      show "block_size ?h a = block_size h a" if "a \<notin> owned [p] []" for a
        using that f(2) by (simp add: owned_def)
      show "block_size h a = None" if "a \<in> owned [p] []" for a
        using that f(1) by (simp add: owned_def)
    qed simp_all
    moreover have "same_mem (snd (malloc k h)) ?h" "p = fst (malloc k h)" "bytes ?h = bytes h" "calls ?h = calls h"
      using M f(4,5) by (simp_all add: same_mem_def)
    ultimately show thesis
      using False by (intro that [of p ?h]) (assumption | erule (1) notE)+
  qed
qed

end
