(* ===== verification/Nc_Palloc_Claims.thy ===== *)
theory Nc_Palloc_Claims
  imports Nc_Palloc_Ops
begin

text \<open>
  The properties of \<open>nc_palloc.c\<close>: what an allocation hands out, what \<open>nc_pfree\<close> gives back, the life
  of a pool from creation to destruction under any sequence of operations, and the two situations
  in which the code leaves its invariant.
\<close>

subsection \<open>When memory runs out\<close>

lemma refused_roomy: "roomy 2 h \<Longrightarrow> unat k \<le> slot_size \<Longrightarrow> n \<le> slot_size \<Longrightarrow> \<not> refused k n h"
proof -
  assume a: "roomy 2 h" "unat k \<le> slot_size" "n \<le> slot_size"
  have n: "unat (of_nat n :: size_t) \<le> slot_size"
    using a(3) by (subst unat_of_nat_ok) (simp_all add: slot_size_def)
  have "roomy (Suc 1) h" "roomy (Suc 0) (snd (malloc k h))"
    using a(1) malloc_roomy(2) [of 1 h k] a(2) by (simp_all add: numeral_2_eq_2)
  then show "\<not> refused k n h"
    using malloc_roomy(1) [of 1 h k] malloc_roomy(1) [of 1 h "of_nat n"] malloc_roomy(1) [of 0 "snd (malloc k h)" "of_nat n"] a(2) n
    by (simp add: refused_def)
qed

definition pool_start :: pool_heap where
  "pool_start = \<lparr>offers = spread 8, live = [], bytes = (\<lambda>_. 255), pdata = (\<lambda>_. None), phead = (\<lambda>_. None),
     larges = (\<lambda>_. None), cleans = (\<lambda>_. None), calls = []\<rparr>"

lemma pool_start: "roomy 8 pool_start" "heap_ok pool_start" "block_size pool_start a = None"
  using roomy_spread [of pool_start 8] by (simp_all add: pool_start_def heap_ok_def block_size_def)

lemma pool_start_create:
  assumes "unat k \<le> slot_size" "64 \<le> unat k" "8 dvd unat k"
  obtains p h where "nc_pool_create k pool_start = Some (p, h)" "p \<noteq> NULL" "pool_inv h p (unat k) [p] [] [] [] (block_size pool_start)"
    "roomy 7 h"
proof -
  obtain p h where p: "nc_pool_create k pool_start = Some (p, h)" "same_mem (snd (malloc k pool_start)) h" "p = fst (malloc k pool_start)"
    "p \<noteq> NULL \<Longrightarrow> pool_inv h p (unat k) [p] [] [] [] (block_size pool_start)"
    using pool_create_ok [OF pool_start(2) assms(2,3)] by metis
  have r: "roomy (Suc 7) pool_start"
    using pool_start(1) by simp
  have "roomy 7 h"
    using malloc_roomy(2) [OF r assms(1)] p(2) roomy_cong [of h "snd (malloc k pool_start)" 7] by (simp add: same_mem_def)
  then show thesis
    using that p malloc_roomy(1) [OF r assms(1)] by metis
qed

subsection \<open>Allocation\<close>

text \<open>
  (C7) An allocation from a pool, aligned (\<open>nc_palloc\<close>) or not (\<open>nc_pnalloc\<close>), runs to its
  end on every well-formed pool. It returns the null pointer only when the system may refuse
  memory; otherwise the bytes from the returned address on lie in a live block, the address is a
  multiple of 8 where alignment was asked for, and the range is apart from everything in use: all
  that the pool has handed out before, its own records, and every block of others, all of which
  stay in use. No byte of memory is written, and the pool is well formed again.
\<close>

theorem nc_palloc_spec:
  assumes "pool_inv h pool n ps rs ls cs base"
  shows "\<exists>m h' ps' rs' ls'. (if al then nc_palloc pool k h else nc_pnalloc pool k h) = Some (m, h') \<and>
    pool_inv h' pool n ps' rs' ls' cs base \<and> bytes h' = bytes h \<and> in_use h rs ls base \<subseteq> in_use h' rs' ls' base \<and>
    (if m = NULL then \<not> (roomy 2 h \<and> unat k \<le> slot_size \<and> n \<le> slot_size)
     else valid_range h' m (unat k) \<and> (al \<longrightarrow> 8 dvd unat m) \<and> (m, unat k) \<in> in_use h' rs' ls' base \<and>
       (\<forall>s \<in> in_use h rs ls base. sep (m, unat k) s))"
proof -
  obtain m h' ps' rs' ls' where m: "palloc_al al pool k h = Some (m, h')" "bytes h' = bytes h"
    "pool_inv h' pool n ps' rs' ls' cs base" "in_use h rs ls base \<subseteq> in_use h' rs' ls' base"
    "m = NULL \<Longrightarrow> refused k n h"
    "m \<noteq> NULL \<Longrightarrow> handed h' m (unat k) h al rs ls base \<and> (m, unat k) \<in> in_use h' rs' ls' base"
    using palloc_al_ok [OF assms, where al = al and k = k] by metis
  show ?thesis
    by (intro exI [of _ m] exI [of _ h'] exI [of _ ps'] exI [of _ rs'] exI [of _ ls'])
      (use m refused_roomy [of h k n] in \<open>auto simp: palloc_al handed_def record_ok_def\<close>)
qed

theorem nc_palloc_spec_witness:
  "\<exists>p h m h'. nc_pool_create 4096 pool_start = Some (p, h) \<and> nc_palloc p 100 h = Some (m, h') \<and> m \<noteq> NULL \<and>
     valid_range h' m 100 \<and> 8 dvd unat m"
proof -
  obtain p h where p: "nc_pool_create 4096 pool_start = Some (p, h)"
    "pool_inv h p (unat (4096 :: size_t)) [p] [] [] [] (block_size pool_start)" "roomy 7 h"
    by (rule pool_start_create [of 4096]) (simp_all add: slot_size_def)
  have "roomy 2 h"
    using roomy_mono [OF p(3)] by simp
  then show ?thesis
    using nc_palloc_spec [OF p(2), where al = True and k = 100] p(1) by (auto simp: slot_size_def split: if_splits)
qed

subsection \<open>Release\<close>

text \<open>
  (C37) \<open>nc_pfree\<close> of a large block that the pool holds returns \<open>NC_OK\<close>, gives exactly this
  block back to the system and forgets it; every other address but the null pointer (small memory, a
  block of others, one already released) yields \<open>NC_ERROR\<close> and leaves everything as it was.
\<close>

theorem nc_pfree_spec:
  assumes "pool_inv h pool n ps rs ls cs base" "p \<noteq> NULL"
  shows "\<exists>r h' ls'. nc_pfree pool p h = Some (r, h') \<and> pool_inv h' pool n ps rs ls' cs base \<and> bytes h' = bytes h \<and>
    (if p \<in> set (allocs ls)
     then r = NC_OK \<and> set (allocs ls') = set (allocs ls) - {p} \<and> block_size h' = (block_size h)(p := None)
     else r = NC_ERROR \<and> h' = h \<and> ls' = ls)"
proof -
  obtain r h' ls' where "nc_pfree pool p h = Some (r, h')" "bytes h' = bytes h" "pool_inv h' pool n ps rs ls' cs base"
    "p \<in> set (allocs ls) \<Longrightarrow> r = NC_OK \<and> set (allocs ls') = set (allocs ls) - {p} \<and> block_size h' = (block_size h)(p := None)"
    "p \<notin> set (allocs ls) \<Longrightarrow> h' = h \<and> ls' = ls \<and> (p \<noteq> NULL \<longrightarrow> r = NC_ERROR)"
    using pfree_ok [OF assms(1), of p] by metis
  then show ?thesis
    using assms(2) by (intro exI [of _ r] exI [of _ h'] exI [of _ ls']) simp
qed

theorem nc_pfree_spec_witness:
  "\<exists>p h m h1 h2. nc_pool_create 4096 pool_start = Some (p, h) \<and> nc_palloc_large p 5000 h = Some (m, h1) \<and>
     nc_pfree p m h1 = Some (NC_OK, h2) \<and> block_size h1 m = Some 5000 \<and> block_size h2 m = None"
proof -
  obtain p h where p: "nc_pool_create 4096 pool_start = Some (p, h)"
    "pool_inv h p (unat (4096 :: size_t)) [p] [] [] [] (block_size pool_start)" "roomy 7 h"
    by (rule pool_start_create [of 4096]) (simp_all add: slot_size_def)
  have r: "\<not> refused 5000 4096 h"
    using refused_roomy [of h 5000 4096] roomy_mono [OF p(3)] by (simp add: slot_size_def)
  obtain m h1 ps' rs' ls' where m: "nc_palloc_large p 5000 h = Some (m, h1)"
    "pool_inv h1 p (unat (4096 :: size_t)) ps' rs' ls' [] (block_size pool_start)"
    "m = NULL \<Longrightarrow> fst (malloc 5000 h) = NULL \<or> fst (malloc (of_nat (unat (4096 :: size_t))) (snd (malloc 5000 h))) = NULL"
    "m \<noteq> NULL \<Longrightarrow> set (allocs ls') = insert m (set (allocs [])) \<and> block_size h1 m = Some (unat (5000 :: size_t))"
    using palloc_large_ok [OF p(2), of 5000] by metis
  have m0: "m \<noteq> NULL"
    using m(3) r by (auto simp: refused_def)
  then have "m \<in> set (allocs ls')"
    using m(4) by simp
  then show ?thesis
    using nc_pfree_spec [OF m(2) m0] p(1) m(1,4) m0 by auto
qed

subsection \<open>The life of a pool\<close>

text \<open>The calls a client makes; after \<open>nc_pool_cleanup_add\<close> it sets the handler of the record it got.\<close>

datatype pool_op = Palloc size_t | Pnalloc size_t | Pcalloc size_t | Pfree addr | Cleanup_Add size_t addr | Reset

fun pool_step :: "addr \<Rightarrow> pool_op \<Rightarrow> (addr \<times> addr) list \<times> pool_heap \<Rightarrow> ((addr \<times> addr) list \<times> pool_heap) option" where
  "pool_step pool (Palloc k) (log, h) = do { (m, h) \<leftarrow> nc_palloc pool k h; Some (log, h) }"
| "pool_step pool (Pnalloc k) (log, h) = do { (m, h) \<leftarrow> nc_pnalloc pool k h; Some (log, h) }"
| "pool_step pool (Pcalloc k) (log, h) = do { (m, h) \<leftarrow> nc_pcalloc pool k h; Some (log, h) }"
| "pool_step pool (Pfree p) (log, h) = do { (r, h) \<leftarrow> nc_pfree pool p h; Some (log, h) }"
| "pool_step pool (Cleanup_Add k f) (log, h) = do {
     (c, h) \<leftarrow> nc_pool_cleanup_add pool k h;
     if c = NULL then Some (log, h)
     else do {
       h \<leftarrow> set_handler c f h;
       r \<leftarrow> get_clean h c;
       Some (if f \<noteq> NULL then (f, c_data r) # log else log, h)
     }
   }"
| "pool_step pool Reset (log, h) = do { h \<leftarrow> nc_pool_reset pool h; Some (log, h) }"

fun pool_run :: "addr \<Rightarrow> pool_op list \<Rightarrow> (addr \<times> addr) list \<times> pool_heap \<Rightarrow> ((addr \<times> addr) list \<times> pool_heap) option" where
  "pool_run pool [] s = Some s"
| "pool_run pool (c # cs) s = Option.bind (pool_step pool c s) (pool_run pool cs)"

definition pool_session :: "size_t \<Rightarrow> pool_op list \<Rightarrow> pool_heap \<Rightarrow> ((addr \<times> addr) list \<times> pool_heap) option" where
  "pool_session size0 ops h = do {
     (pool, h) \<leftarrow> nc_pool_create size0 h;
     if pool = NULL then Some ([], h)
     else do {
       (log, h) \<leftarrow> pool_run pool ops ([], h);
       h \<leftarrow> nc_pool_destroy pool h;
       Some (log, h)
     }
   }"

text \<open>No reset once a cleanup record exists: \<open>nc_pool_reset\<close> keeps the list of records but gives their memory away.\<close>

fun reset_safe :: "pool_op list \<Rightarrow> bool" where
  "reset_safe [] = True"
| "reset_safe (Cleanup_Add k f # ops) = (Reset \<notin> set ops)"
| "reset_safe (_ # ops) = reset_safe ops"

lemma reset_safe_tail: "Reset \<notin> set ops \<Longrightarrow> reset_safe ops"
  by (induction ops rule: reset_safe.induct) auto

text \<open>The bytes of the caller's own blocks.\<close>

definition keeps :: "(addr \<Rightarrow> nat option) \<Rightarrow> pool_heap \<Rightarrow> pool_heap \<Rightarrow> bool" where
  "keeps base h h' \<longleftrightarrow> (\<forall>a s x. base a = Some s \<longrightarrow> unat a \<le> unat x \<longrightarrow> unat x < unat a + s \<longrightarrow> bytes h' x = bytes h x)"

lemma keeps_same: "bytes h' = bytes h \<Longrightarrow> keeps base h h'"
  by (simp add: keeps_def)

lemma keeps_trans: "keeps base h h' \<Longrightarrow> keeps base h' h'' \<Longrightarrow> keeps base h h''"
  by (simp add: keeps_def)

lemma keeps_fill:
  assumes "valid_range h' m k" "heap_ok h'" "\<forall>a s. base a = Some s \<longrightarrow> sep (m, k) (a, s)"
    "bytes h' = (\<lambda>x. if unat (x - m) < k then v else bytes h x)"
  shows "keeps base h h'"
  unfolding keeps_def
proof (intro allI impI)
  fix a :: addr and s and x :: addr
  assume x: "base a = Some s" "unat a \<le> unat x" "unat x < unat a + s"
  have "\<not> unat (x - m) < k"
  proof
    assume l: "unat (x - m) < k"
    obtain b i where b: "(b, i) \<in> set (live h')" "unat b \<le> unat m" "unat m + k \<le> unat b + i"
      using assms(1) by (auto simp: valid_range_def list_ex_iff)
    have "fits b i"
      using assms(2) b(1) by (auto simp: heap_ok_def intro: blocks_ok_fits)
    then have up: "unat m + k < 18446744073709551616"
      using b l by (cases "i = 0") (auto simp: fits_def)
    have "unat (m + (x - m)) = unat m + unat (x - m)"
      using l up by (intro unat_add_ok) simp
    then have "unat m \<le> unat x" "unat x < unat m + k"
      using l by simp_all
    moreover have "sep (m, k) (a, s)"
      using assms(3) l x(1) by auto
    ultimately show False
      using x by (auto simp: sep_def)
  qed
  then show "bytes h' x = bytes h x"
    using assms(4) by simp
qed

definition alive :: "(addr \<Rightarrow> nat option) \<Rightarrow> addr \<Rightarrow> nat \<Rightarrow> (addr \<times> addr) list \<times> pool_heap \<Rightarrow> bool" where
  "alive base pool n s \<longleftrightarrow> (\<exists>ps rs ls cs. pool_inv (snd s) pool n ps rs ls cs base \<and> fst s = handler_log cs)"

definition calm :: "(addr \<Rightarrow> nat option) \<Rightarrow> addr \<Rightarrow> nat \<Rightarrow> pool_op \<Rightarrow> (addr \<times> addr) list \<times> pool_heap \<Rightarrow> bool" where
  "calm base pool n c s \<longleftrightarrow> (\<exists>ps rs ls cs. pool_inv (snd s) pool n ps rs ls cs base \<and> fst s = handler_log cs \<and> (c = Reset \<longrightarrow> cs = []))"

lemma pcalloc_keeps:
  assumes "pool_inv h pool n ps rs ls cs base"
  obtains m h' ps' rs' ls' where "nc_pcalloc pool k h = Some (m, h')" "calls h' = calls h"
    "pool_inv h' pool n ps' rs' ls' cs base" "keeps base h h'"
proof (rule pcalloc_ok [OF assms, of k])
  fix m h' ps' rs' ls'
  assume m: "nc_pcalloc pool k h = Some (m, h')" "calls h' = calls h"
    "pool_inv h' pool n ps' rs' ls' cs base" "m = NULL \<Longrightarrow> refused k n h \<and> bytes h' = bytes h"
    "m \<noteq> NULL \<Longrightarrow> handed h' m (unat k) h True rs ls base \<and> (m, unat k) \<in> in_use h' rs' ls' base"
    "m \<noteq> NULL \<Longrightarrow> bytes h' = (\<lambda>x. if unat (x - m) < unat k then 0 else bytes h x)"
  have "keeps base h h'"
  proof (cases "m = NULL")
    case True
    then show ?thesis
      using m(4) keeps_same by simp
  next
    case False
    note f = m(5) [OF False]
    have "valid_range h' m (unat k)" "heap_ok h'" "\<forall>a s. base a = Some s \<longrightarrow> sep (m, unat k) (a, s)"
      using f coreD(1) [OF pool_invD(1) [OF m(3)]] by (auto simp: handed_def record_ok_def in_use_def)
    then show ?thesis
      using keeps_fill [OF _ _ _ m(6) [OF False]] by blast
  qed
  then show thesis
    using that m(1-3) by blast
qed

lemma step_ok:
  assumes I: "pool_inv h pool n ps rs ls cs base" and n: "96 \<le> n" and c: "c = Reset \<longrightarrow> cs = []"
  obtains h' ps' rs' ls' cs' where "pool_step pool c (handler_log cs, h) = Some (handler_log cs', h')"
    "pool_inv h' pool n ps' rs' ls' cs' base" "calls h' = calls h" "keeps base h h'"
    "(\<forall>k f. c \<noteq> Cleanup_Add k f) \<Longrightarrow> cs' = cs"
proof (cases c)
  case (Palloc k)
  obtain m h' ps' rs' ls' where "palloc_al True pool k h = Some (m, h')" "bytes h' = bytes h" "calls h' = calls h"
    "pool_inv h' pool n ps' rs' ls' cs base"
    using palloc_al_ok [OF I, where al = True and k = k] by metis
  then show thesis
    using that [of cs h'] Palloc keeps_same by (simp add: palloc_al)
next
  case (Pnalloc k)
  obtain m h' ps' rs' ls' where "palloc_al False pool k h = Some (m, h')" "bytes h' = bytes h" "calls h' = calls h"
    "pool_inv h' pool n ps' rs' ls' cs base"
    using palloc_al_ok [OF I, where al = False and k = k] by metis
  then show thesis
    using that [of cs h'] Pnalloc keeps_same by (simp add: palloc_al)
next
  case (Pcalloc k)
  obtain m h' ps' rs' ls' where "nc_pcalloc pool k h = Some (m, h')" "calls h' = calls h"
    "pool_inv h' pool n ps' rs' ls' cs base" "keeps base h h'"
    using pcalloc_keeps [OF I, of k] by metis
  then show thesis
    using that [of cs h'] Pcalloc by simp
next
  case (Pfree p)
  obtain r h' ls' where "nc_pfree pool p h = Some (r, h')" "bytes h' = bytes h" "calls h' = calls h"
    "pool_inv h' pool n ps rs ls' cs base"
    using pfree_ok [OF I, of p] by metis
  then show thesis
    using that [of cs h'] Pfree keeps_same by simp
next
  case (Cleanup_Add k f)
  obtain a h' ps' rs' ls' cs' where A: "nc_pool_cleanup_add pool k h = Some (a, h')" "bytes h' = bytes h" "calls h' = calls h"
    "pool_inv h' pool n ps' rs' ls' cs' base" "a = NULL \<Longrightarrow> cs' = cs"
    "a \<noteq> NULL \<Longrightarrow> \<exists>r. cs' = (a, r) # cs"
    by (rule cleanup_add_ok [OF I n, of k]) blast
  show thesis
  proof (cases "a = NULL")
    case True
    then show thesis
      using that [of cs h'] A Cleanup_Add keeps_same by simp
  next
    case False
    then obtain r where "pool_inv h' pool n ps' rs' ls' ((a, r) # cs) base"
      using A(4,6) by auto
    from set_handler_ok [OF this, of f] obtain h2 where B: "set_handler a f h' = Some h2" "bytes h2 = bytes h'" "calls h2 = calls h'"
      "pool_inv h2 pool n ps' rs' ls' ((a, r\<lparr>c_handler := f\<rparr>) # cs) base"
      by metis
    have "get_clean h2 a = Some (r\<lparr>c_handler := f\<rparr>)"
      using inv_clean(1) [OF B(4), of a] by simp
    then show thesis
      using that [of "(a, r\<lparr>c_handler := f\<rparr>) # cs" h2] A(1-3) B Cleanup_Add False keeps_same by simp
  qed
next
  case Reset
  then obtain h' where "nc_pool_reset pool h = Some h'" "bytes h' = bytes h" "calls h' = calls h" "pool_inv h' pool n ps [] [] [] base"
    using pool_reset_ok [of h pool n ps rs ls base] I c by auto
  then show thesis
    using that [of "[]" h'] Reset c keeps_same by simp
qed

lemma run_ok:
  assumes "pool_inv h pool n ps rs ls cs base" "96 \<le> n" "cs = [] \<and> reset_safe ops \<or> Reset \<notin> set ops"
  shows "\<exists>h' ps' rs' ls' cs'. pool_run pool ops (handler_log cs, h) = Some (handler_log cs', h') \<and>
    pool_inv h' pool n ps' rs' ls' cs' base \<and> calls h' = calls h \<and> keeps base h h'"
  using assms
proof (induction ops arbitrary: h ps rs ls cs)
  case Nil
  then show ?case
    using keeps_same [of h h base] by auto
next
  case (Cons c ops)
  have "c = Reset \<longrightarrow> cs = []"
    using Cons(4) by auto
  from step_ok [OF Cons(2,3) this] obtain h1 ps1 rs1 ls1 cs1 where A: "pool_step pool c (handler_log cs, h) = Some (handler_log cs1, h1)"
    "pool_inv h1 pool n ps1 rs1 ls1 cs1 base" "calls h1 = calls h" "keeps base h h1"
    "(\<forall>k f. c \<noteq> Cleanup_Add k f) \<Longrightarrow> cs1 = cs"
    by metis
  have "cs1 = [] \<and> reset_safe ops \<or> Reset \<notin> set ops"
    using Cons(4) A(5) by (cases c) auto
  from Cons(1) [OF A(2) Cons(3) this] show ?case
    using A(1,3,4) keeps_trans by fastforce
qed

text \<open>
  (C6) The life of a pool. From any well-formed heap: create a pool whose size is a
  multiple of 8 and at least 96 (one header and two records for large blocks, the size that
  \<open>NC_MIN_POOL_SIZE\<close> asks for), make any sequence of calls on it (allocations of any
  size and kind, releases of any address, cleanup handlers; resets only before the first handler, \<open>reset_safe\<close>), and
  destroy it. The lemmas \<open>pool_overrun\<close> and \<open>reset_dangling_cleanup\<close> below are what happens to other sizes and resets. Nothing is undefined on the way, whether or not the system refuses memory: afterwards
  exactly the blocks from before are live again (no leak, no double release), the handlers that were
  registered have been called once each with their data, the last one first, and no byte in the
  caller's own blocks has changed.
\<close>

theorem pool_session_ok:
  assumes "heap_ok h" "96 \<le> unat size0" "8 dvd unat size0" "reset_safe ops"
  shows "\<exists>log h'. pool_session size0 ops h = Some (log, h') \<and> block_size h' = block_size h \<and> heap_ok h' \<and>
    calls h' = calls h @ log \<and> keeps (block_size h) h h'"
proof -
  note n = assms(2)
  have n64: "64 \<le> unat size0"
    using n by simp
  obtain p h1 where p: "nc_pool_create size0 h = Some (p, h1)" "bytes h1 = bytes h" "calls h1 = calls h"
    "p = NULL \<Longrightarrow> block_size h1 = block_size h" "p \<noteq> NULL \<Longrightarrow> pool_inv h1 p (unat size0) [p] [] [] [] (block_size h)"
    "same_mem (snd (malloc size0 h)) h1"
    using pool_create_ok [OF assms(1) n64 assms(3)] by metis
  show ?thesis
  proof (cases "p = NULL")
    case True
    have "heap_ok h1"
      using same_memD [OF p(6)] heap_ok_malloc [OF assms(1), of size0] by (metis prod.collapse)
    then show ?thesis
      using p True keeps_same [of h1 h "block_size h"] by (simp add: pool_session_def)
  next
    case False
    from run_ok [OF p(5) [OF False] n, of ops] assms(4) obtain h2 ps rs ls cs where R: "pool_run p ops ([], h1) = Some (handler_log cs, h2)"
      "pool_inv h2 p (unat size0) ps rs ls cs (block_size h)" "calls h2 = calls h1" "keeps (block_size h) h1 h2"
      by auto
    obtain h3 where D: "nc_pool_destroy p h2 = Some h3" "block_size h3 = block_size h" "calls h3 = calls h2 @ handler_log cs"
      "bytes h3 = bytes h2" "heap_ok h3"
      using pool_destroy_ok [OF R(2)] by metis
    have "keeps (block_size h) h h3"
      using R(4) p(2) D(4) by (simp add: keeps_def)
    then show ?thesis
      using p(1,3) R(1,3) D False by (simp add: pool_session_def)
  qed
qed

theorem pool_session_ok_witness:
  "\<exists>log h'. pool_session 96 [Palloc 30, Palloc 7, Reset, Pnalloc 5, Pcalloc 5000, Cleanup_Add 8 77, Cleanup_Add 0 78, Pfree 12345] pool_start
     = Some (log, h') \<and> live h' = [] \<and> calls h' = log"
proof -
  let ?ops = "[Palloc 30, Palloc 7, Reset, Pnalloc 5, Pcalloc 5000, Cleanup_Add 8 77, Cleanup_Add 0 78, Pfree 12345]"
  have "reset_safe ?ops" "96 \<le> unat (96 :: size_t)" "8 dvd unat (96 :: size_t)"
    by simp_all
  from pool_session_ok [OF pool_start(2) this(2,3,1)] obtain log h' where s: "pool_session 96 ?ops pool_start = Some (log, h')"
    "block_size h' = block_size pool_start" "calls h' = calls pool_start @ log"
    by auto
  have "live h' = []"
  proof (cases "live h'")
    case (Cons b bs)
    then have "block_size h' (fst b) = Some (snd b)"
      by (cases b) (simp add: block_size_def)
    then show ?thesis
      using s(2) pool_start(3) by simp
  qed simp
  then show ?thesis
    using s(1,3) by (simp add: pool_start_def)
qed

subsection \<open>Where the code leaves the invariant\<close>

text \<open>
  A size that is not a multiple of 8: the aligned \<open>last\<close> pointer can pass \<open>end\<close>, the unsigned difference
  of the two is huge, and the pool hands out memory behind its block.
\<close>

lemmas pool_eval = nc_palloc_def nc_palloc_small_def small_loop.simps upd_d_def put_d_def get_d_def get_head_def put_head_def upd_head_def
  nc_pool_create_def nc_memalign_def nc_alloc_def pool_sizes record_ok_def valid_range_def
  c_MIN_def NC_MAX_ALLOC_FROM_POOL_def NC_ALIGN_PTR_def NC_ALIGNMENT_def

lemma pool_overrun:
  "\<exists>p h1 m1 h2 m2 h3. nc_pool_create 65 pool_start = Some (p, h1) \<and> nc_palloc p 1 h1 = Some (m1, h2) \<and>
     nc_palloc p 1 h2 = Some (m2, h3) \<and> m2 \<noteq> NULL \<and> \<not> valid_range h3 m2 1"
proof -
  have m: "malloc 65 pool_start = (8589934592, pool_start\<lparr>offers := tl (spread 8), live := [(8589934592, 65)]\<rparr>)"
    by (simp add: malloc_def pool_start_def spread_def upt_rec placement_ok_def fits_def extent_def)
  have "(1 :: 64 word) \<le> - 7"
    by (simp add: word_le_nat_alt)
  then show ?thesis
    by (simp add: pool_eval m Let_def)
qed

text \<open>
  A reset keeps the list of cleanup records, but their memory is free again: the next allocation
  returns the record that \<open>nc_pool_destroy\<close> will still follow.
\<close>

lemma reset_dangling_cleanup:
  "\<exists>p h1 c h2 h3 m h4 H. nc_pool_create 96 pool_start = Some (p, h1) \<and> nc_pool_cleanup_add p 0 h1 = Some (c, h2) \<and> c \<noteq> NULL \<and>
     nc_pool_reset p h2 = Some h3 \<and> nc_palloc p 24 h3 = Some (m, h4) \<and> m = c \<and> get_head h4 p = Some H \<and> p_cleanup H = c"
proof -
  have m: "malloc 96 pool_start = (8589934592, pool_start\<lparr>offers := tl (spread 8), live := [(8589934592, 96)]\<rparr>)"
    by (simp add: malloc_def pool_start_def spread_def upt_rec placement_ok_def fits_def extent_def)
  show ?thesis
    by (simp add: pool_eval m Let_def nc_pool_cleanup_add_def put_clean_def nc_pool_reset_def reset_loop.simps free_larges.simps)
qed

text \<open>A size below that of the header: creation writes behind the block.\<close>

lemma pool_create_small: "unat k < 64 \<Longrightarrow> live h = [] \<Longrightarrow> malloc k h = (p, h1) \<Longrightarrow> p \<noteq> NULL \<Longrightarrow> nc_pool_create k h = None"
  using malloc_live [of k h p h1]
  by (auto simp: nc_pool_create_def nc_memalign_def nc_alloc_def put_d_def put_head_def record_ok_def valid_range_def pool_sizes)

end
