(* ===== verification/Nc_Queue.thy ===== *)
theory Nc_Queue
  imports Prelude
begin

text \<open>
  \<open>nc_sys_queue.h\<close>: the BSD macros for singly linked lists (\<open>SLIST\<close>), singly linked tail queues
  (\<open>STAILQ\<close>), lists (\<open>LIST\<close>), tail queues (\<open>TAILQ\<close>) and circular queues (\<open>CIRCLEQ\<close>). The macros work on
  the addresses of pointers (\<open>le_prev\<close>, \<open>tqh_last\<close> point to a pointer inside the previous element or the
  head), so memory is a store of pointer cells under their addresses. A head lies at \<open>head\<close>, its
  second member at \<open>head + 8\<close>; the links of an element lie at the offset \<open>field\<close> of the element,
  the second link at \<open>field + 8\<close>. The offset is an argument, as it is of the macros. A member of the
  null pointer and a cell that is not there are undefined (\<open>None\<close>).

  \<open>QUEUE_MACRO_SCRUB\<close> is on: removed links are cleared (\<open>TRASHIT\<close>). The checks \<open>QMD_..._CHECK_...\<close> exist
  when \<open>NC_ASSERT_PANIC\<close> is defined; the flag \<open>pa\<close> of the macros that contain them says whether it is, and
  a failed check is \<open>None\<close>. It calls \<open>log_panic\<close>, which is meant to end the program but expands to nothing in
  \<open>nc_macros.h\<close>: the model is stricter than the code there, and what is defined in it is what the code does. The trace buffers of that build are in
  \<open>Nc_Queue_Trace\<close>.
\<close>

subsection \<open>Pointer cells\<close>

type_synonym cells = "addr \<Rightarrow> addr option"

definition load :: "addr \<Rightarrow> cells \<Rightarrow> addr option" where
  "load p m = (if p = NULL then None else m p)"

definition store :: "addr \<Rightarrow> addr \<Rightarrow> cells \<Rightarrow> cells option" where
  "store p v m = (if p = NULL \<or> m p = None then None else Some (m(p \<mapsto> v)))"

definition fld :: "addr \<Rightarrow> addr \<Rightarrow> addr option" where
  "fld e off = (if e = NULL then None else Some (e + off))"

definition get_mem :: "addr \<Rightarrow> addr \<Rightarrow> cells \<Rightarrow> addr option" where
  "get_mem e off m = do { p \<leftarrow> fld e off; load p m }"

definition set_mem :: "addr \<Rightarrow> addr \<Rightarrow> addr \<Rightarrow> cells \<Rightarrow> cells option" where
  "set_mem e off v m = do { p \<leftarrow> fld e off; store p v m }"

definition TRASHIT :: "addr \<Rightarrow> cells \<Rightarrow> cells option" where
  "TRASHIT p m = store p NULL m"

definition checked :: "bool \<Rightarrow> bool option \<Rightarrow> unit option" where
  "checked pa c = (if pa then do { b \<leftarrow> c; require b } else Some ())"

text \<open>The loops of the \<open>FOREACH\<close> macros; the body is a command on a state of its own and the cells.\<close>

type_synonym 's body = "addr \<Rightarrow> 's \<times> cells \<Rightarrow> ('s \<times> cells) option"

partial_function (option) foreach_loop :: "addr \<Rightarrow> 's body \<Rightarrow> addr \<Rightarrow> 's \<times> cells \<Rightarrow> ('s \<times> cells) option" where
  "foreach_loop field body var s =
     (if var = NULL then Some s
      else Option.bind (body var s) (\<lambda>s.
        Option.bind (get_mem var field (snd s)) (\<lambda>next. foreach_loop field body next s)))"

partial_function (option) foreach_safe_loop :: "addr \<Rightarrow> 's body \<Rightarrow> addr \<Rightarrow> 's \<times> cells \<Rightarrow> ('s \<times> cells) option" where
  "foreach_safe_loop field body var s =
     (if var = NULL then Some s
      else Option.bind (get_mem var field (snd s)) (\<lambda>tvar.
        Option.bind (body var s) (\<lambda>s. foreach_safe_loop field body tvar s)))"

subsection \<open>Singly linked lists\<close>

definition SLIST_HEAD_INITIALIZER :: "addr" where "SLIST_HEAD_INITIALIZER = NULL"

definition SLIST_FIRST :: "addr \<Rightarrow> cells \<Rightarrow> addr option" where
  "SLIST_FIRST head m = load head m"

definition SLIST_EMPTY :: "addr \<Rightarrow> cells \<Rightarrow> bool option" where
  "SLIST_EMPTY head m = do { x \<leftarrow> SLIST_FIRST head m; Some (x = NULL) }"

definition SLIST_NEXT :: "addr \<Rightarrow> addr \<Rightarrow> cells \<Rightarrow> addr option" where
  "SLIST_NEXT elm field m = get_mem elm field m"

definition SLIST_FOREACH :: "addr \<Rightarrow> addr \<Rightarrow> 's body \<Rightarrow> 's \<times> cells \<Rightarrow> ('s \<times> cells) option" where
  "SLIST_FOREACH head field body s = do { var \<leftarrow> SLIST_FIRST head (snd s); foreach_loop field body var s }"

definition SLIST_FOREACH_SAFE :: "addr \<Rightarrow> addr \<Rightarrow> 's body \<Rightarrow> 's \<times> cells \<Rightarrow> ('s \<times> cells) option" where
  "SLIST_FOREACH_SAFE head field body s = do { var \<leftarrow> SLIST_FIRST head (snd s); foreach_safe_loop field body var s }"

text \<open>The body also gets the address of the pointer to the element.\<close>

partial_function (option) prevptr_loop :: "addr \<Rightarrow> (addr \<Rightarrow> 's body) \<Rightarrow> addr \<Rightarrow> 's \<times> cells \<Rightarrow> ('s \<times> cells) option" where
  "prevptr_loop field body varp s =
     Option.bind (load varp (snd s)) (\<lambda>var.
       if var = NULL then Some s
       else Option.bind (body varp var s) (\<lambda>s. Option.bind (fld var field) (\<lambda>varp. prevptr_loop field body varp s)))"

definition SLIST_FOREACH_PREVPTR :: "addr \<Rightarrow> addr \<Rightarrow> (addr \<Rightarrow> 's body) \<Rightarrow> 's \<times> cells \<Rightarrow> ('s \<times> cells) option" where
  "SLIST_FOREACH_PREVPTR head field body s = prevptr_loop field body head s"

definition SLIST_INIT :: "addr \<Rightarrow> cells \<Rightarrow> cells option" where
  "SLIST_INIT head m = store head NULL m"

definition SLIST_INSERT_AFTER :: "addr \<Rightarrow> addr \<Rightarrow> addr \<Rightarrow> cells \<Rightarrow> cells option" where
  "SLIST_INSERT_AFTER slistelm elm field m = do {
     x \<leftarrow> SLIST_NEXT slistelm field m;
     m \<leftarrow> set_mem elm field x m;
     set_mem slistelm field elm m
   }"

definition SLIST_INSERT_HEAD :: "addr \<Rightarrow> addr \<Rightarrow> addr \<Rightarrow> cells \<Rightarrow> cells option" where
  "SLIST_INSERT_HEAD head elm field m = do {
     x \<leftarrow> SLIST_FIRST head m;
     m \<leftarrow> set_mem elm field x m;
     store head elm m
   }"

definition SLIST_REMOVE_AFTER :: "addr \<Rightarrow> addr \<Rightarrow> cells \<Rightarrow> cells option" where
  "SLIST_REMOVE_AFTER elm field m = do {
     x \<leftarrow> SLIST_NEXT elm field m;
     oldnext \<leftarrow> fld x field;
     y \<leftarrow> SLIST_NEXT x field m;
     m \<leftarrow> set_mem elm field y m;
     TRASHIT oldnext m
   }"

definition SLIST_REMOVE_HEAD :: "addr \<Rightarrow> addr \<Rightarrow> cells \<Rightarrow> cells option" where
  "SLIST_REMOVE_HEAD head field m = do {
     x \<leftarrow> SLIST_FIRST head m;
     oldnext \<leftarrow> fld x field;
     y \<leftarrow> SLIST_NEXT x field m;
     m \<leftarrow> store head y m;
     TRASHIT oldnext m
   }"

text \<open>The search for the predecessor, the same loop in \<open>SLIST_REMOVE\<close> and \<open>STAILQ_REMOVE\<close>.\<close>

partial_function (option) pred_loop :: "addr \<Rightarrow> addr \<Rightarrow> addr \<Rightarrow> cells \<Rightarrow> addr option" where
  "pred_loop elm field curelm m =
     Option.bind (get_mem curelm field m) (\<lambda>x. if x \<noteq> elm then pred_loop elm field x m else Some curelm)"

definition SLIST_REMOVE :: "addr \<Rightarrow> addr \<Rightarrow> addr \<Rightarrow> cells \<Rightarrow> cells option" where
  "SLIST_REMOVE head elm field m = do {
     x \<leftarrow> SLIST_FIRST head m;
     if x = elm then SLIST_REMOVE_HEAD head field m
     else do {
       curelm \<leftarrow> pred_loop elm field x m;
       SLIST_REMOVE_AFTER curelm field m
     }
   }"

subsection \<open>Singly linked tail queues\<close>

definition STAILQ_HEAD_INITIALIZER :: "addr \<Rightarrow> addr \<times> addr" where
  "STAILQ_HEAD_INITIALIZER head = (NULL, head)"

definition STAILQ_FIRST :: "addr \<Rightarrow> cells \<Rightarrow> addr option" where
  "STAILQ_FIRST head m = load head m"

definition STAILQ_EMPTY :: "addr \<Rightarrow> cells \<Rightarrow> bool option" where
  "STAILQ_EMPTY head m = do { x \<leftarrow> STAILQ_FIRST head m; Some (x = NULL) }"

definition STAILQ_NEXT :: "addr \<Rightarrow> addr \<Rightarrow> cells \<Rightarrow> addr option" where
  "STAILQ_NEXT elm field m = get_mem elm field m"

definition STAILQ_FOREACH :: "addr \<Rightarrow> addr \<Rightarrow> 's body \<Rightarrow> 's \<times> cells \<Rightarrow> ('s \<times> cells) option" where
  "STAILQ_FOREACH head field body s = do { var \<leftarrow> STAILQ_FIRST head (snd s); foreach_loop field body var s }"

definition STAILQ_FOREACH_SAFE :: "addr \<Rightarrow> addr \<Rightarrow> 's body \<Rightarrow> 's \<times> cells \<Rightarrow> ('s \<times> cells) option" where
  "STAILQ_FOREACH_SAFE head field body s = do { var \<leftarrow> STAILQ_FIRST head (snd s); foreach_safe_loop field body var s }"

definition STAILQ_INIT :: "addr \<Rightarrow> cells \<Rightarrow> cells option" where
  "STAILQ_INIT head m = do { m \<leftarrow> store head NULL m; set_mem head 8 head m }"

definition STAILQ_CONCAT :: "addr \<Rightarrow> addr \<Rightarrow> cells \<Rightarrow> cells option" where
  "STAILQ_CONCAT head1 head2 m = do {
     empty \<leftarrow> STAILQ_EMPTY head2 m;
     if \<not> empty then do {
       last1 \<leftarrow> get_mem head1 8 m;
       first2 \<leftarrow> STAILQ_FIRST head2 m;
       m \<leftarrow> store last1 first2 m;
       last2 \<leftarrow> get_mem head2 8 m;
       m \<leftarrow> set_mem head1 8 last2 m;
       STAILQ_INIT head2 m
     }
     else Some m
   }"

definition STAILQ_INSERT_AFTER :: "addr \<Rightarrow> addr \<Rightarrow> addr \<Rightarrow> addr \<Rightarrow> cells \<Rightarrow> cells option" where
  "STAILQ_INSERT_AFTER head tqelm elm field m = do {
     x \<leftarrow> STAILQ_NEXT tqelm field m;
     m \<leftarrow> set_mem elm field x m;
     m \<leftarrow> (if x = NULL then set_mem head 8 (elm + field) m else Some m);
     set_mem tqelm field elm m
   }"

definition STAILQ_INSERT_HEAD :: "addr \<Rightarrow> addr \<Rightarrow> addr \<Rightarrow> cells \<Rightarrow> cells option" where
  "STAILQ_INSERT_HEAD head elm field m = do {
     x \<leftarrow> STAILQ_FIRST head m;
     m \<leftarrow> set_mem elm field x m;
     m \<leftarrow> (if x = NULL then set_mem head 8 (elm + field) m else Some m);
     store head elm m
   }"

definition STAILQ_INSERT_TAIL :: "addr \<Rightarrow> addr \<Rightarrow> addr \<Rightarrow> cells \<Rightarrow> cells option" where
  "STAILQ_INSERT_TAIL head elm field m = do {
     m \<leftarrow> set_mem elm field NULL m;
     l \<leftarrow> get_mem head 8 m;
     m \<leftarrow> store l elm m;
     set_mem head 8 (elm + field) m
   }"

definition STAILQ_LAST :: "addr \<Rightarrow> addr \<Rightarrow> cells \<Rightarrow> addr option" where
  "STAILQ_LAST head field m = do {
     empty \<leftarrow> STAILQ_EMPTY head m;
     if empty then Some NULL
     else do { l \<leftarrow> get_mem head 8 m; Some (l - field) }
   }"

definition STAILQ_REMOVE_HEAD :: "addr \<Rightarrow> addr \<Rightarrow> cells \<Rightarrow> cells option" where
  "STAILQ_REMOVE_HEAD head field m = do {
     x \<leftarrow> STAILQ_FIRST head m;
     oldnext \<leftarrow> fld x field;
     y \<leftarrow> STAILQ_NEXT x field m;
     m \<leftarrow> store head y m;
     m \<leftarrow> (if y = NULL then set_mem head 8 head m else Some m);
     TRASHIT oldnext m
   }"

definition STAILQ_REMOVE_AFTER :: "addr \<Rightarrow> addr \<Rightarrow> addr \<Rightarrow> cells \<Rightarrow> cells option" where
  "STAILQ_REMOVE_AFTER head elm field m = do {
     x \<leftarrow> STAILQ_NEXT elm field m;
     oldnext \<leftarrow> fld x field;
     y \<leftarrow> STAILQ_NEXT x field m;
     m \<leftarrow> set_mem elm field y m;
     m \<leftarrow> (if y = NULL then set_mem head 8 (elm + field) m else Some m);
     TRASHIT oldnext m
   }"

definition STAILQ_REMOVE :: "addr \<Rightarrow> addr \<Rightarrow> addr \<Rightarrow> cells \<Rightarrow> cells option" where
  "STAILQ_REMOVE head elm field m = do {
     x \<leftarrow> STAILQ_FIRST head m;
     if x = elm then STAILQ_REMOVE_HEAD head field m
     else do {
       curelm \<leftarrow> pred_loop elm field x m;
       STAILQ_REMOVE_AFTER head curelm field m
     }
   }"

definition STAILQ_SWAP :: "addr \<Rightarrow> addr \<Rightarrow> cells \<Rightarrow> cells option" where
  "STAILQ_SWAP head1 head2 m = do {
     swap_first \<leftarrow> STAILQ_FIRST head1 m;
     swap_last \<leftarrow> get_mem head1 8 m;
     x \<leftarrow> STAILQ_FIRST head2 m;
     m \<leftarrow> store head1 x m;
     l \<leftarrow> get_mem head2 8 m;
     m \<leftarrow> set_mem head1 8 l m;
     m \<leftarrow> store head2 swap_first m;
     m \<leftarrow> set_mem head2 8 swap_last m;
     empty \<leftarrow> STAILQ_EMPTY head1 m;
     m \<leftarrow> (if empty then set_mem head1 8 head1 m else Some m);
     empty \<leftarrow> STAILQ_EMPTY head2 m;
     if empty then set_mem head2 8 head2 m else Some m
   }"

subsection \<open>Lists\<close>

definition LIST_HEAD_INITIALIZER :: "addr" where "LIST_HEAD_INITIALIZER = NULL"

definition LIST_FIRST :: "addr \<Rightarrow> cells \<Rightarrow> addr option" where
  "LIST_FIRST head m = load head m"

definition LIST_EMPTY :: "addr \<Rightarrow> cells \<Rightarrow> bool option" where
  "LIST_EMPTY head m = do { x \<leftarrow> LIST_FIRST head m; Some (x = NULL) }"

definition LIST_NEXT :: "addr \<Rightarrow> addr \<Rightarrow> cells \<Rightarrow> addr option" where
  "LIST_NEXT elm field m = get_mem elm field m"

text \<open>The checks: whether the condition of the \<open>log_panic\<close> is false.\<close>

definition QMD_LIST_CHECK_HEAD :: "addr \<Rightarrow> addr \<Rightarrow> cells \<Rightarrow> bool option" where
  "QMD_LIST_CHECK_HEAD head field m = do {
     x \<leftarrow> LIST_FIRST head m;
     if x \<noteq> NULL then do { p \<leftarrow> get_mem x (field + 8) m; Some (p = head) } else Some True
   }"

definition QMD_LIST_CHECK_NEXT :: "addr \<Rightarrow> addr \<Rightarrow> cells \<Rightarrow> bool option" where
  "QMD_LIST_CHECK_NEXT elm field m = do {
     x \<leftarrow> LIST_NEXT elm field m;
     if x \<noteq> NULL then do { p \<leftarrow> get_mem x (field + 8) m; Some (p = elm + field) } else Some True
   }"

definition QMD_LIST_CHECK_PREV :: "addr \<Rightarrow> addr \<Rightarrow> cells \<Rightarrow> bool option" where
  "QMD_LIST_CHECK_PREV elm field m = do { p \<leftarrow> get_mem elm (field + 8) m; x \<leftarrow> load p m; Some (x = elm) }"

definition LIST_FOREACH :: "addr \<Rightarrow> addr \<Rightarrow> 's body \<Rightarrow> 's \<times> cells \<Rightarrow> ('s \<times> cells) option" where
  "LIST_FOREACH head field body s = do { var \<leftarrow> LIST_FIRST head (snd s); foreach_loop field body var s }"

definition LIST_FOREACH_SAFE :: "addr \<Rightarrow> addr \<Rightarrow> 's body \<Rightarrow> 's \<times> cells \<Rightarrow> ('s \<times> cells) option" where
  "LIST_FOREACH_SAFE head field body s = do { var \<leftarrow> LIST_FIRST head (snd s); foreach_safe_loop field body var s }"

definition LIST_INIT :: "addr \<Rightarrow> cells \<Rightarrow> cells option" where
  "LIST_INIT head m = store head NULL m"

definition LIST_INSERT_AFTER :: "bool \<Rightarrow> addr \<Rightarrow> addr \<Rightarrow> addr \<Rightarrow> cells \<Rightarrow> cells option" where
  "LIST_INSERT_AFTER pa listelm elm field m = do {
     checked pa (QMD_LIST_CHECK_NEXT listelm field m);
     x \<leftarrow> LIST_NEXT listelm field m;
     m \<leftarrow> set_mem elm field x m;
     m \<leftarrow> (if x \<noteq> NULL then do { y \<leftarrow> LIST_NEXT listelm field m; set_mem y (field + 8) (elm + field) m } else Some m);
     m \<leftarrow> set_mem listelm field elm m;
     set_mem elm (field + 8) (listelm + field) m
   }"

definition LIST_INSERT_BEFORE :: "bool \<Rightarrow> addr \<Rightarrow> addr \<Rightarrow> addr \<Rightarrow> cells \<Rightarrow> cells option" where
  "LIST_INSERT_BEFORE pa listelm elm field m = do {
     checked pa (QMD_LIST_CHECK_PREV listelm field m);
     p \<leftarrow> get_mem listelm (field + 8) m;
     m \<leftarrow> set_mem elm (field + 8) p m;
     m \<leftarrow> set_mem elm field listelm m;
     p \<leftarrow> get_mem listelm (field + 8) m;
     m \<leftarrow> store p elm m;
     set_mem listelm (field + 8) (elm + field) m
   }"

definition LIST_INSERT_HEAD :: "bool \<Rightarrow> addr \<Rightarrow> addr \<Rightarrow> addr \<Rightarrow> cells \<Rightarrow> cells option" where
  "LIST_INSERT_HEAD pa head elm field m = do {
     checked pa (QMD_LIST_CHECK_HEAD head field m);
     x \<leftarrow> LIST_FIRST head m;
     m \<leftarrow> set_mem elm field x m;
     m \<leftarrow> (if x \<noteq> NULL then do { y \<leftarrow> LIST_FIRST head m; set_mem y (field + 8) (elm + field) m } else Some m);
     m \<leftarrow> store head elm m;
     set_mem elm (field + 8) head m
   }"

definition LIST_REMOVE :: "bool \<Rightarrow> addr \<Rightarrow> addr \<Rightarrow> cells \<Rightarrow> cells option" where
  "LIST_REMOVE pa elm field m = do {
     oldnext \<leftarrow> fld elm field;
     oldprev \<leftarrow> fld elm (field + 8);
     checked pa (QMD_LIST_CHECK_NEXT elm field m);
     checked pa (QMD_LIST_CHECK_PREV elm field m);
     x \<leftarrow> LIST_NEXT elm field m;
     m \<leftarrow> (if x \<noteq> NULL then do { p \<leftarrow> get_mem elm (field + 8) m; set_mem x (field + 8) p m } else Some m);
     p \<leftarrow> get_mem elm (field + 8) m;
     x \<leftarrow> LIST_NEXT elm field m;
     m \<leftarrow> store p x m;
     m \<leftarrow> TRASHIT oldnext m;
     TRASHIT oldprev m
   }"

definition LIST_SWAP :: "addr \<Rightarrow> addr \<Rightarrow> addr \<Rightarrow> cells \<Rightarrow> cells option" where
  "LIST_SWAP head1 head2 field m = do {
     swap_tmp \<leftarrow> LIST_FIRST head1 m;
     x \<leftarrow> LIST_FIRST head2 m;
     m \<leftarrow> store head1 x m;
     m \<leftarrow> store head2 swap_tmp m;
     swap_tmp \<leftarrow> LIST_FIRST head1 m;
     m \<leftarrow> (if swap_tmp \<noteq> NULL then set_mem swap_tmp (field + 8) head1 m else Some m);
     swap_tmp \<leftarrow> LIST_FIRST head2 m;
     if swap_tmp \<noteq> NULL then set_mem swap_tmp (field + 8) head2 m else Some m
   }"

subsection \<open>Tail queues\<close>

definition TAILQ_HEAD_INITIALIZER :: "addr \<Rightarrow> addr \<times> addr" where
  "TAILQ_HEAD_INITIALIZER head = (NULL, head)"

definition TAILQ_FIRST :: "addr \<Rightarrow> cells \<Rightarrow> addr option" where
  "TAILQ_FIRST head m = load head m"

definition TAILQ_EMPTY :: "addr \<Rightarrow> cells \<Rightarrow> bool option" where
  "TAILQ_EMPTY head m = do { x \<leftarrow> TAILQ_FIRST head m; Some (x = NULL) }"

definition TAILQ_NEXT :: "addr \<Rightarrow> addr \<Rightarrow> cells \<Rightarrow> addr option" where
  "TAILQ_NEXT elm field m = get_mem elm field m"

text \<open>
  The previous element: \<open>tqe_prev\<close> and \<open>tqh_last\<close> are read as pointers to a head, whose two members lie
  like the two links of an element.
\<close>

definition TAILQ_LAST :: "addr \<Rightarrow> cells \<Rightarrow> addr option" where
  "TAILQ_LAST head m = do { p \<leftarrow> get_mem head 8 m; q \<leftarrow> get_mem p 8 m; load q m }"

definition TAILQ_PREV :: "addr \<Rightarrow> addr \<Rightarrow> cells \<Rightarrow> addr option" where
  "TAILQ_PREV elm field m = do { p \<leftarrow> get_mem elm (field + 8) m; q \<leftarrow> get_mem p 8 m; load q m }"

definition QMD_TAILQ_CHECK_HEAD :: "addr \<Rightarrow> addr \<Rightarrow> cells \<Rightarrow> bool option" where
  "QMD_TAILQ_CHECK_HEAD head field m = do {
     empty \<leftarrow> TAILQ_EMPTY head m;
     if \<not> empty then do { x \<leftarrow> TAILQ_FIRST head m; p \<leftarrow> get_mem x (field + 8) m; Some (p = head) } else Some True
   }"

definition QMD_TAILQ_CHECK_TAIL :: "addr \<Rightarrow> addr \<Rightarrow> cells \<Rightarrow> bool option" where
  "QMD_TAILQ_CHECK_TAIL head field m = do { p \<leftarrow> get_mem head 8 m; x \<leftarrow> load p m; Some (x = NULL) }"

definition QMD_TAILQ_CHECK_NEXT :: "addr \<Rightarrow> addr \<Rightarrow> cells \<Rightarrow> bool option" where
  "QMD_TAILQ_CHECK_NEXT elm field m = do {
     x \<leftarrow> TAILQ_NEXT elm field m;
     if x \<noteq> NULL then do { p \<leftarrow> get_mem x (field + 8) m; Some (p = elm + field) } else Some True
   }"

definition QMD_TAILQ_CHECK_PREV :: "addr \<Rightarrow> addr \<Rightarrow> cells \<Rightarrow> bool option" where
  "QMD_TAILQ_CHECK_PREV elm field m = do { p \<leftarrow> get_mem elm (field + 8) m; x \<leftarrow> load p m; Some (x = elm) }"

definition TAILQ_FOREACH :: "addr \<Rightarrow> addr \<Rightarrow> 's body \<Rightarrow> 's \<times> cells \<Rightarrow> ('s \<times> cells) option" where
  "TAILQ_FOREACH head field body s = do { var \<leftarrow> TAILQ_FIRST head (snd s); foreach_loop field body var s }"

definition TAILQ_FOREACH_SAFE :: "addr \<Rightarrow> addr \<Rightarrow> 's body \<Rightarrow> 's \<times> cells \<Rightarrow> ('s \<times> cells) option" where
  "TAILQ_FOREACH_SAFE head field body s = do { var \<leftarrow> TAILQ_FIRST head (snd s); foreach_safe_loop field body var s }"

partial_function (option) tailq_reverse_loop :: "addr \<Rightarrow> 's body \<Rightarrow> addr \<Rightarrow> 's \<times> cells \<Rightarrow> ('s \<times> cells) option" where
  "tailq_reverse_loop field body var s =
     (if var = NULL then Some s
      else Option.bind (body var s) (\<lambda>s.
        Option.bind (TAILQ_PREV var field (snd s)) (\<lambda>prev. tailq_reverse_loop field body prev s)))"

definition TAILQ_FOREACH_REVERSE :: "addr \<Rightarrow> addr \<Rightarrow> 's body \<Rightarrow> 's \<times> cells \<Rightarrow> ('s \<times> cells) option" where
  "TAILQ_FOREACH_REVERSE head field body s = do { var \<leftarrow> TAILQ_LAST head (snd s); tailq_reverse_loop field body var s }"

partial_function (option) tailq_reverse_safe_loop :: "addr \<Rightarrow> 's body \<Rightarrow> addr \<Rightarrow> 's \<times> cells \<Rightarrow> ('s \<times> cells) option" where
  "tailq_reverse_safe_loop field body var s =
     (if var = NULL then Some s
      else Option.bind (TAILQ_PREV var field (snd s)) (\<lambda>tvar.
        Option.bind (body var s) (\<lambda>s. tailq_reverse_safe_loop field body tvar s)))"

definition TAILQ_FOREACH_REVERSE_SAFE :: "addr \<Rightarrow> addr \<Rightarrow> 's body \<Rightarrow> 's \<times> cells \<Rightarrow> ('s \<times> cells) option" where
  "TAILQ_FOREACH_REVERSE_SAFE head field body s = do { var \<leftarrow> TAILQ_LAST head (snd s); tailq_reverse_safe_loop field body var s }"

definition TAILQ_INIT :: "addr \<Rightarrow> cells \<Rightarrow> cells option" where
  "TAILQ_INIT head m = do { m \<leftarrow> store head NULL m; set_mem head 8 head m }"

definition TAILQ_CONCAT :: "addr \<Rightarrow> addr \<Rightarrow> addr \<Rightarrow> cells \<Rightarrow> cells option" where
  "TAILQ_CONCAT head1 head2 field m = do {
     empty \<leftarrow> TAILQ_EMPTY head2 m;
     if \<not> empty then do {
       last1 \<leftarrow> get_mem head1 8 m;
       first2 \<leftarrow> TAILQ_FIRST head2 m;
       m \<leftarrow> store last1 first2 m;
       first2 \<leftarrow> TAILQ_FIRST head2 m;
       last1 \<leftarrow> get_mem head1 8 m;
       m \<leftarrow> set_mem first2 (field + 8) last1 m;
       last2 \<leftarrow> get_mem head2 8 m;
       m \<leftarrow> set_mem head1 8 last2 m;
       TAILQ_INIT head2 m
     }
     else Some m
   }"

definition TAILQ_INSERT_AFTER :: "bool \<Rightarrow> addr \<Rightarrow> addr \<Rightarrow> addr \<Rightarrow> addr \<Rightarrow> cells \<Rightarrow> cells option" where
  "TAILQ_INSERT_AFTER pa head listelm elm field m = do {
     checked pa (QMD_TAILQ_CHECK_NEXT listelm field m);
     x \<leftarrow> TAILQ_NEXT listelm field m;
     m \<leftarrow> set_mem elm field x m;
     m \<leftarrow> (if x \<noteq> NULL then do { y \<leftarrow> TAILQ_NEXT elm field m; set_mem y (field + 8) (elm + field) m }
           else set_mem head 8 (elm + field) m);
     m \<leftarrow> set_mem listelm field elm m;
     set_mem elm (field + 8) (listelm + field) m
   }"

definition TAILQ_INSERT_BEFORE :: "bool \<Rightarrow> addr \<Rightarrow> addr \<Rightarrow> addr \<Rightarrow> cells \<Rightarrow> cells option" where
  "TAILQ_INSERT_BEFORE pa listelm elm field m = do {
     checked pa (QMD_TAILQ_CHECK_PREV listelm field m);
     p \<leftarrow> get_mem listelm (field + 8) m;
     m \<leftarrow> set_mem elm (field + 8) p m;
     m \<leftarrow> set_mem elm field listelm m;
     p \<leftarrow> get_mem listelm (field + 8) m;
     m \<leftarrow> store p elm m;
     set_mem listelm (field + 8) (elm + field) m
   }"

definition TAILQ_INSERT_HEAD :: "bool \<Rightarrow> addr \<Rightarrow> addr \<Rightarrow> addr \<Rightarrow> cells \<Rightarrow> cells option" where
  "TAILQ_INSERT_HEAD pa head elm field m = do {
     checked pa (QMD_TAILQ_CHECK_HEAD head field m);
     x \<leftarrow> TAILQ_FIRST head m;
     m \<leftarrow> set_mem elm field x m;
     m \<leftarrow> (if x \<noteq> NULL then do { y \<leftarrow> TAILQ_FIRST head m; set_mem y (field + 8) (elm + field) m }
           else set_mem head 8 (elm + field) m);
     m \<leftarrow> store head elm m;
     set_mem elm (field + 8) head m
   }"

definition TAILQ_INSERT_TAIL :: "bool \<Rightarrow> addr \<Rightarrow> addr \<Rightarrow> addr \<Rightarrow> cells \<Rightarrow> cells option" where
  "TAILQ_INSERT_TAIL pa head elm field m = do {
     checked pa (QMD_TAILQ_CHECK_TAIL head field m);
     m \<leftarrow> set_mem elm field NULL m;
     l \<leftarrow> get_mem head 8 m;
     m \<leftarrow> set_mem elm (field + 8) l m;
     l \<leftarrow> get_mem head 8 m;
     m \<leftarrow> store l elm m;
     set_mem head 8 (elm + field) m
   }"

definition TAILQ_REMOVE :: "bool \<Rightarrow> addr \<Rightarrow> addr \<Rightarrow> addr \<Rightarrow> cells \<Rightarrow> cells option" where
  "TAILQ_REMOVE pa head elm field m = do {
     oldnext \<leftarrow> fld elm field;
     oldprev \<leftarrow> fld elm (field + 8);
     checked pa (QMD_TAILQ_CHECK_NEXT elm field m);
     checked pa (QMD_TAILQ_CHECK_PREV elm field m);
     x \<leftarrow> TAILQ_NEXT elm field m;
     p \<leftarrow> get_mem elm (field + 8) m;
     m \<leftarrow> (if x \<noteq> NULL then set_mem x (field + 8) p m else set_mem head 8 p m);
     p \<leftarrow> get_mem elm (field + 8) m;
     x \<leftarrow> TAILQ_NEXT elm field m;
     m \<leftarrow> store p x m;
     m \<leftarrow> TRASHIT oldnext m;
     TRASHIT oldprev m
   }"

definition TAILQ_SWAP :: "addr \<Rightarrow> addr \<Rightarrow> addr \<Rightarrow> cells \<Rightarrow> cells option" where
  "TAILQ_SWAP head1 head2 field m = do {
     swap_first \<leftarrow> TAILQ_FIRST head1 m;
     swap_last \<leftarrow> get_mem head1 8 m;
     x \<leftarrow> TAILQ_FIRST head2 m;
     m \<leftarrow> store head1 x m;
     l \<leftarrow> get_mem head2 8 m;
     m \<leftarrow> set_mem head1 8 l m;
     m \<leftarrow> store head2 swap_first m;
     m \<leftarrow> set_mem head2 8 swap_last m;
     swap_first \<leftarrow> TAILQ_FIRST head1 m;
     m \<leftarrow> (if swap_first \<noteq> NULL then set_mem swap_first (field + 8) head1 m else set_mem head1 8 head1 m);
     swap_first \<leftarrow> TAILQ_FIRST head2 m;
     if swap_first \<noteq> NULL then set_mem swap_first (field + 8) head2 m else set_mem head2 8 head2 m
   }"

subsection \<open>Circular queues\<close>

definition CIRCLEQ_HEAD_INITIALIZER :: "addr \<Rightarrow> addr \<times> addr" where
  "CIRCLEQ_HEAD_INITIALIZER head = (head, head)"

definition CIRCLEQ_FIRST :: "addr \<Rightarrow> cells \<Rightarrow> addr option" where
  "CIRCLEQ_FIRST head m = load head m"

definition CIRCLEQ_LAST :: "addr \<Rightarrow> cells \<Rightarrow> addr option" where
  "CIRCLEQ_LAST head m = get_mem head 8 m"

definition CIRCLEQ_NEXT :: "addr \<Rightarrow> addr \<Rightarrow> cells \<Rightarrow> addr option" where
  "CIRCLEQ_NEXT elm field m = get_mem elm field m"

definition CIRCLEQ_PREV :: "addr \<Rightarrow> addr \<Rightarrow> cells \<Rightarrow> addr option" where
  "CIRCLEQ_PREV elm field m = get_mem elm (field + 8) m"

definition CIRCLEQ_EMPTY :: "addr \<Rightarrow> cells \<Rightarrow> bool option" where
  "CIRCLEQ_EMPTY head m = do { x \<leftarrow> CIRCLEQ_FIRST head m; Some (x = head) }"

partial_function (option) circleq_loop :: "addr \<Rightarrow> addr \<Rightarrow> 's body \<Rightarrow> addr \<Rightarrow> 's \<times> cells \<Rightarrow> ('s \<times> cells) option" where
  "circleq_loop head field body var s =
     (if var = head then Some s
      else Option.bind (body var s) (\<lambda>s.
        Option.bind (CIRCLEQ_NEXT var field (snd s)) (\<lambda>next. circleq_loop head field body next s)))"

definition CIRCLEQ_FOREACH :: "addr \<Rightarrow> addr \<Rightarrow> 's body \<Rightarrow> 's \<times> cells \<Rightarrow> ('s \<times> cells) option" where
  "CIRCLEQ_FOREACH head field body s = do { var \<leftarrow> CIRCLEQ_FIRST head (snd s); circleq_loop head field body var s }"

partial_function (option) circleq_reverse_loop :: "addr \<Rightarrow> addr \<Rightarrow> 's body \<Rightarrow> addr \<Rightarrow> 's \<times> cells \<Rightarrow> ('s \<times> cells) option" where
  "circleq_reverse_loop head field body var s =
     (if var = head then Some s
      else Option.bind (body var s) (\<lambda>s.
        Option.bind (CIRCLEQ_PREV var field (snd s)) (\<lambda>prev. circleq_reverse_loop head field body prev s)))"

definition CIRCLEQ_FOREACH_REVERSE :: "addr \<Rightarrow> addr \<Rightarrow> 's body \<Rightarrow> 's \<times> cells \<Rightarrow> ('s \<times> cells) option" where
  "CIRCLEQ_FOREACH_REVERSE head field body s = do { var \<leftarrow> CIRCLEQ_LAST head (snd s); circleq_reverse_loop head field body var s }"

definition CIRCLEQ_INIT :: "addr \<Rightarrow> cells \<Rightarrow> cells option" where
  "CIRCLEQ_INIT head m = do { m \<leftarrow> store head head m; set_mem head 8 head m }"

definition CIRCLEQ_INSERT_AFTER :: "addr \<Rightarrow> addr \<Rightarrow> addr \<Rightarrow> addr \<Rightarrow> cells \<Rightarrow> cells option" where
  "CIRCLEQ_INSERT_AFTER head listelm elm field m = do {
     x \<leftarrow> CIRCLEQ_NEXT listelm field m;
     m \<leftarrow> set_mem elm field x m;
     m \<leftarrow> set_mem elm (field + 8) listelm m;
     x \<leftarrow> CIRCLEQ_NEXT listelm field m;
     m \<leftarrow> (if x = head then set_mem head 8 elm m else set_mem x (field + 8) elm m);
     set_mem listelm field elm m
   }"

definition CIRCLEQ_INSERT_BEFORE :: "addr \<Rightarrow> addr \<Rightarrow> addr \<Rightarrow> addr \<Rightarrow> cells \<Rightarrow> cells option" where
  "CIRCLEQ_INSERT_BEFORE head listelm elm field m = do {
     m \<leftarrow> set_mem elm field listelm m;
     p \<leftarrow> CIRCLEQ_PREV listelm field m;
     m \<leftarrow> set_mem elm (field + 8) p m;
     p \<leftarrow> CIRCLEQ_PREV listelm field m;
     m \<leftarrow> (if p = head then store head elm m else set_mem p field elm m);
     set_mem listelm (field + 8) elm m
   }"

definition CIRCLEQ_INSERT_HEAD :: "addr \<Rightarrow> addr \<Rightarrow> addr \<Rightarrow> cells \<Rightarrow> cells option" where
  "CIRCLEQ_INSERT_HEAD head elm field m = do {
     x \<leftarrow> CIRCLEQ_FIRST head m;
     m \<leftarrow> set_mem elm field x m;
     m \<leftarrow> set_mem elm (field + 8) head m;
     l \<leftarrow> CIRCLEQ_LAST head m;
     m \<leftarrow> (if l = head then set_mem head 8 elm m
           else do { x \<leftarrow> CIRCLEQ_FIRST head m; set_mem x (field + 8) elm m });
     store head elm m
   }"

definition CIRCLEQ_INSERT_TAIL :: "addr \<Rightarrow> addr \<Rightarrow> addr \<Rightarrow> cells \<Rightarrow> cells option" where
  "CIRCLEQ_INSERT_TAIL head elm field m = do {
     m \<leftarrow> set_mem elm field head m;
     l \<leftarrow> CIRCLEQ_LAST head m;
     m \<leftarrow> set_mem elm (field + 8) l m;
     x \<leftarrow> CIRCLEQ_FIRST head m;
     m \<leftarrow> (if x = head then store head elm m
           else do { l \<leftarrow> CIRCLEQ_LAST head m; set_mem l field elm m });
     set_mem head 8 elm m
   }"

definition CIRCLEQ_REMOVE :: "addr \<Rightarrow> addr \<Rightarrow> addr \<Rightarrow> cells \<Rightarrow> cells option" where
  "CIRCLEQ_REMOVE head elm field m = do {
     x \<leftarrow> CIRCLEQ_NEXT elm field m;
     p \<leftarrow> CIRCLEQ_PREV elm field m;
     m \<leftarrow> (if x = head then set_mem head 8 p m else set_mem x (field + 8) p m);
     p \<leftarrow> CIRCLEQ_PREV elm field m;
     x \<leftarrow> CIRCLEQ_NEXT elm field m;
     if p = head then store head x m else set_mem p field x m
   }"

end
