(* ===== verification/Nc_Queue_Cells.thy ===== *)
theory Nc_Queue_Cells
  imports Nc_Queue "HOL-Library.Multiset"
begin

text \<open>
  Footprints: the cells that make up a queue, as a list of addresses with their contents. \<open>holds m L\<close>
  says that the cells of \<open>L\<close> are pairwise different and that the store contains them; what else is
  there (other queues, the links of other elements) is part of the list, so a statement about a
  footprint followed by any \<open>R\<close> says that an operation leaves everything else alone.
\<close>

subsection \<open>Cells\<close>

definition holds :: "cells \<Rightarrow> (addr \<times> addr) list \<Rightarrow> bool" where
  "holds m L \<longleftrightarrow> distinct (map fst L) \<and> (\<forall>(p, v) \<in> set L. p \<noteq> NULL \<and> m p = Some v)"

lemma holds_perm: "holds m L \<Longrightarrow> mset L = mset L' \<Longrightarrow> holds m L'"
  using mset_eq_setD [of L L'] mset_eq_imp_distinct_iff [of "map fst L" "map fst L'"] by (simp add: holds_def)

lemma holds_at: "holds m L \<Longrightarrow> (p, v) \<in> set L \<Longrightarrow> p \<noteq> NULL \<and> m p = Some v"
  by (auto simp: holds_def)

lemma holds_head: "holds m ((p, v) # L) \<Longrightarrow> p \<noteq> NULL \<and> m p = Some v"
  by (simp add: holds_def)

text \<open>
  One operation on the cells \<open>C\<close>, which become \<open>C'\<close>: it is enough to run it knowing these cells (and
  whatever \<open>Q\<close> says about the addresses involved).
\<close>

lemma holds_step:
  assumes "holds m L" "Q" "mset L = mset (C @ R)" "mset (map fst C') = mset (map fst C)"
    and run: "Q \<Longrightarrow> distinct (map fst C) \<Longrightarrow> \<forall>(p, v) \<in> set C. p \<noteq> NULL \<and> m p = Some v \<Longrightarrow>
      \<exists>m'. r = Some m' \<and> (\<forall>(p, v) \<in> set C'. m' p = Some v) \<and> (\<forall>p. p \<notin> set (map fst C) \<longrightarrow> m' p = m p)"
    and "mset (C' @ R) = mset L'"
  shows "\<exists>m'. r = Some m' \<and> holds m' L'"
proof -
  have h: "holds m (C @ R)"
    by (rule holds_perm [OF assms(1,3)])
  then have "distinct (map fst C)" "\<forall>(p, v) \<in> set C. p \<noteq> NULL \<and> m p = Some v"
    by (auto simp: holds_def)
  from run [OF assms(2) this] obtain m' where m': "r = Some m'" "\<forall>(p, v) \<in> set C'. m' p = Some v" "\<forall>p. p \<notin> set (map fst C) \<longrightarrow> m' p = m p"
    by blast
  have keys: "set (map fst C') = set (map fst C)" "distinct (map fst C')"
    using mset_eq_setD [OF assms(4)] mset_eq_imp_distinct_iff [OF assms(4)] h by (simp_all add: holds_def)
  have r: "m' p = Some v \<and> p \<noteq> NULL" if "(p, v) \<in> set R" for p v
  proof -
    have "p \<notin> set (map fst C)" "p \<noteq> NULL" "m p = Some v"
      using h that by (force simp: holds_def)+
    then show ?thesis
      using m'(3) by simp
  qed
  have c: "m' p = Some v \<and> p \<noteq> NULL" if "(p, v) \<in> set C'" for p v
  proof -
    have "p \<in> set (map fst C)"
      using keys(1) that by force
    then show ?thesis
      using h m'(2) that by (auto simp: holds_def)
  qed
  have "\<forall>(p, v) \<in> set (C' @ R). p \<noteq> NULL \<and> m' p = Some v"
  proof clarify
    fix p v
    assume "(p, v) \<in> set (C' @ R)"
    then show "p \<noteq> NULL \<and> m' p = Some v"
      using r [of p v] c [of p v] by auto
  qed
  moreover have "distinct (map fst (C' @ R))"
    using h keys by (auto simp: holds_def)
  ultimately have "holds m' (C' @ R)"
    by (simp add: holds_def)
  then show ?thesis
    using m'(1) holds_perm [OF _ assms(6)] by blast
qed

subsection \<open>Paths of links\<close>

text \<open>The cell that follows the elements \<open>as\<close> on a path that starts with the cell \<open>p\<close>.\<close>

definition slot :: "addr \<Rightarrow> addr \<Rightarrow> addr list \<Rightarrow> addr" where
  "slot f p as = last (p # map (\<lambda>e. e + f) as)"

lemma slot_simps [simp]: "slot f p [] = p" "slot f p (a # as) = slot f (a + f) as" "slot f p (as @ bs) = slot f (slot f p as) bs"
  by (simp_all add: slot_def last_append)

fun path :: "addr \<Rightarrow> addr \<Rightarrow> addr list \<Rightarrow> (addr \<times> addr) list" where
  "path f p [] = []"
| "path f p (e # es) = (p, e) # path f (e + f) es"

fun dpath :: "addr \<Rightarrow> addr \<Rightarrow> addr list \<Rightarrow> (addr \<times> addr) list" where
  "dpath f p [] = []"
| "dpath f p (e # es) = (p, e) # (e + (f + 8), p) # dpath f (e + f) es"

lemma path_append [simp]: "path f p (as @ bs) = path f p as @ path f (slot f p as) bs"
  by (induction as arbitrary: p) simp_all

lemma dpath_append [simp]: "dpath f p (as @ bs) = dpath f p as @ dpath f (slot f p as) bs"
  by (induction as arbitrary: p) simp_all

definition slist :: "addr \<Rightarrow> addr \<Rightarrow> addr list \<Rightarrow> (addr \<times> addr) list" where
  "slist f h es = path f h es @ [(slot f h es, NULL)]"

definition stailq :: "addr \<Rightarrow> addr \<Rightarrow> addr list \<Rightarrow> (addr \<times> addr) list" where
  "stailq f h es = path f h es @ [(slot f h es, NULL), (h + 8, slot f h es)]"

definition dlist :: "addr \<Rightarrow> addr \<Rightarrow> addr list \<Rightarrow> (addr \<times> addr) list" where
  "dlist f h es = dpath f h es @ [(slot f h es, NULL)]"

definition tailq :: "addr \<Rightarrow> addr \<Rightarrow> addr list \<Rightarrow> (addr \<times> addr) list" where
  "tailq f h es = dpath f h es @ [(slot f h es, NULL), (h + 8, slot f h es)]"

text \<open>The links of an element that is in no queue.\<close>

definition free1 :: "addr \<Rightarrow> addr \<Rightarrow> addr \<Rightarrow> (addr \<times> addr) list" where
  "free1 f e v = [(e + f, v)]"

definition free2 :: "addr \<Rightarrow> addr \<Rightarrow> addr \<times> addr \<Rightarrow> (addr \<times> addr) list" where
  "free2 f e vs = [(e + f, fst vs), (e + (f + 8), snd vs)]"

text \<open>A circular queue: the head counts as an element whose links are its two members.\<close>

definition nx :: "addr \<Rightarrow> addr \<Rightarrow> addr \<Rightarrow> addr" where
  "nx f h x = (if x = h then h else x + f)"

definition pv :: "addr \<Rightarrow> addr \<Rightarrow> addr \<Rightarrow> addr" where
  "pv f h x = (if x = h then h + 8 else x + (f + 8))"

definition lst :: "addr \<Rightarrow> addr list \<Rightarrow> addr" where
  "lst x es = last (x # es)"

lemma lst_simps [simp]: "lst x [] = x" "lst x (a # as) = lst a as" "lst x (as @ bs) = lst (lst x as) bs"
  by (simp_all add: lst_def last_append)

lemma lst_in: "lst x es = x \<or> lst x es \<in> set es"
  by (simp add: lst_def)

fun cpath :: "addr \<Rightarrow> addr \<Rightarrow> addr \<Rightarrow> addr list \<Rightarrow> (addr \<times> addr) list" where
  "cpath f h x [] = []"
| "cpath f h x (e # es) = (nx f h x, e) # (pv f h e, x) # cpath f h e es"

lemma cpath_append [simp]: "cpath f h x (as @ bs) = cpath f h x as @ cpath f h (lst x as) bs"
  by (induction as arbitrary: x) simp_all

definition circleq :: "addr \<Rightarrow> addr \<Rightarrow> addr list \<Rightarrow> (addr \<times> addr) list" where
  "circleq f h es = cpath f h h es @ [(nx f h (lst h es), h), (h + 8, lst h es)]"

lemmas cell_ops = load_def store_def fld_def get_mem_def set_mem_def TRASHIT_def

end
