(* ===== verification/Nc_Queue_Correct.thy ===== *)
theory Nc_Queue_Correct
  imports Nc_Queue_Cells
begin

text \<open>
  What each macro of \<open>nc_sys_queue.h\<close> does to the footprint of its queue. Every statement has the form:
  the cells before (with any further cells \<open>R\<close>), the macro runs to its end, the cells after.
\<close>

subsection \<open>Singly linked lists\<close>

lemmas slist_ops = SLIST_FIRST_def SLIST_EMPTY_def SLIST_NEXT_def SLIST_INIT_def SLIST_INSERT_AFTER_def
  SLIST_INSERT_HEAD_def SLIST_REMOVE_AFTER_def SLIST_REMOVE_HEAD_def

lemma slist_init:
  assumes "holds m ([(h, v)] @ R)" "NULL \<notin> {h} \<union> set ([])"
  shows "\<exists>m'. SLIST_INIT h m = Some m' \<and> holds m' (slist f h [] @ R)"
  by (rule holds_step [OF assms, where C = "[(h, v)]" and C' = "[(h, NULL)]" and R = "R"],
    simp add: slist_def free1_def, simp, simp, (elim conjE)?, simp only: slist_ops cell_ops, simp cong: if_weak_cong, simp add: slist_def free1_def)

lemma slist_insert_head:
  assumes "holds m (slist f h es @ free1 f e v @ R)" "NULL \<notin> {h} \<union> set (e # es)"
  shows "\<exists>m'. SLIST_INSERT_HEAD h e f m = Some m' \<and> holds m' (slist f h (e # es) @ R)"
proof (cases es)
  case Nil
  show ?thesis
    unfolding Nil
    by (rule holds_step [OF assms [unfolded Nil], where C = "[(h, NULL), (e + f, v)]" and C' = "[(h, e), (e + f, NULL)]" and R = "R"],
      simp add: slist_def free1_def, simp, simp, (elim conjE)?, simp only: slist_ops cell_ops, simp cong: if_weak_cong, simp add: slist_def free1_def)
next
  case (Cons y ys)
  show ?thesis
    unfolding Cons
    by (rule holds_step [OF assms [unfolded Cons], where C = "[(h, y), (e + f, v)]" and C' = "[(h, e), (e + f, y)]" and R = "slist f (y + f) ys @ R"],
      simp add: slist_def free1_def, simp, simp, (elim conjE)?, simp only: slist_ops cell_ops, simp cong: if_weak_cong, simp add: slist_def free1_def)
qed

lemma slist_insert_after:
  assumes "holds m (slist f h (as @ x # bs) @ free1 f e v @ R)" "NULL \<notin> {h} \<union> set (e # as @ x # bs)"
  shows "\<exists>m'. SLIST_INSERT_AFTER x e f m = Some m' \<and> holds m' (slist f h (as @ x # e # bs) @ R)"
proof (cases bs)
  case Nil
  show ?thesis
    unfolding Nil
    by (rule holds_step [OF assms [unfolded Nil], where C = "[(x + f, NULL), (e + f, v)]" and C' = "[(x + f, e), (e + f, NULL)]" and R = "path f h (as @ [x]) @ R"],
      simp add: slist_def free1_def, simp, simp, (elim conjE)?, simp only: slist_ops cell_ops, simp cong: if_weak_cong, simp add: slist_def free1_def)
next
  case (Cons y ys)
  show ?thesis
    unfolding Cons
    by (rule holds_step [OF assms [unfolded Cons], where C = "[(x + f, y), (e + f, v)]" and C' = "[(x + f, e), (e + f, y)]" and R = "path f h (as @ [x]) @ slist f (y + f) ys @ R"],
      simp add: slist_def free1_def, simp, simp, (elim conjE)?, simp only: slist_ops cell_ops, simp cong: if_weak_cong, simp add: slist_def free1_def)
qed

lemma slist_remove_head:
  assumes "holds m (slist f h (x # bs) @ R)" "NULL \<notin> {h} \<union> set (x # bs)"
  shows "\<exists>m'. SLIST_REMOVE_HEAD h f m = Some m' \<and> holds m' (slist f h bs @ free1 f x NULL @ R)"
proof (cases bs)
  case Nil
  show ?thesis
    unfolding Nil
    by (rule holds_step [OF assms [unfolded Nil], where C = "[(h, x), (x + f, NULL)]" and C' = "[(h, NULL), (x + f, NULL)]" and R = "R"],
      simp add: slist_def free1_def, simp, simp, (elim conjE)?, simp only: slist_ops cell_ops, simp cong: if_weak_cong, simp add: slist_def free1_def)
next
  case (Cons y ys)
  show ?thesis
    unfolding Cons
    by (rule holds_step [OF assms [unfolded Cons], where C = "[(h, x), (x + f, y)]" and C' = "[(h, y), (x + f, NULL)]" and R = "slist f (y + f) ys @ R"],
      simp add: slist_def free1_def, simp, simp, (elim conjE)?, simp only: slist_ops cell_ops, simp cong: if_weak_cong, simp add: slist_def free1_def)
qed

lemma slist_remove_after:
  assumes "holds m (slist f h (as @ a # x # bs) @ R)" "NULL \<notin> {h} \<union> set (as @ a # x # bs)"
  shows "\<exists>m'. SLIST_REMOVE_AFTER a f m = Some m' \<and> holds m' (slist f h (as @ a # bs) @ free1 f x NULL @ R)"
proof (cases bs)
  case Nil
  show ?thesis
    unfolding Nil
    by (rule holds_step [OF assms [unfolded Nil], where C = "[(a + f, x), (x + f, NULL)]" and C' = "[(a + f, NULL), (x + f, NULL)]" and R = "path f h (as @ [a]) @ R"],
      simp add: slist_def free1_def, simp, simp, (elim conjE)?, simp only: slist_ops cell_ops, simp cong: if_weak_cong, simp add: slist_def free1_def)
next
  case (Cons y ys)
  show ?thesis
    unfolding Cons
    by (rule holds_step [OF assms [unfolded Cons], where C = "[(a + f, x), (x + f, y)]" and C' = "[(a + f, y), (x + f, NULL)]" and R = "path f h (as @ [a]) @ slist f (y + f) ys @ R"],
      simp add: slist_def free1_def, simp, simp, (elim conjE)?, simp only: slist_ops cell_ops, simp cong: if_weak_cong, simp add: slist_def free1_def)
qed


text \<open>The search finds the predecessor.\<close>

lemma pred_loop_ok:
  assumes "\<forall>(p, v) \<in> set (path f (y + f) (zs @ [x])). p \<noteq> NULL \<and> m p = Some v" "NULL \<notin> set (y # zs)" "x \<notin> set zs"
  shows "pred_loop x f y m = Some (lst y zs)"
  using assms
proof (induction zs arbitrary: y)
  case Nil
  then show ?case
    by (subst pred_loop.simps) (simp add: cell_ops)
next
  case (Cons z zs)
  then have "pred_loop x f z m = Some (lst z zs)"
    by simp
  then show ?case
    using Cons(2-) by (subst pred_loop.simps) (auto simp: cell_ops)
qed

lemma slist_remove:
  assumes "holds m (slist f h (as @ x # bs) @ R)" "NULL \<notin> {h} \<union> set (as @ x # bs)" "x \<notin> set as"
  shows "\<exists>m'. SLIST_REMOVE h x f m = Some m' \<and> holds m' (slist f h (as @ bs) @ free1 f x NULL @ R)"
proof (cases as)
  case Nil
  have "m h = Some x"
    using holds_at [OF assms(1), of h x] Nil by (simp add: slist_def)
  then have "SLIST_REMOVE h x f m = SLIST_REMOVE_HEAD h f m"
    using assms(2) by (simp add: SLIST_REMOVE_def SLIST_FIRST_def load_def)
  then show ?thesis
    using slist_remove_head [of m f h x bs R] assms Nil by simp
next
  case (Cons a zs)
  have at: "p \<noteq> NULL \<and> m p = Some v" if "(p, v) \<in> set (slist f h (as @ x # bs))" for p v
    using holds_at [OF assms(1), of p v] that by simp
  have "m h = Some a"
    using at [of h a] Cons by (simp add: slist_def)
  moreover have "pred_loop x f a m = Some (lst a zs)"
  proof (rule pred_loop_ok)
    show "\<forall>(p, v) \<in> set (path f (a + f) (zs @ [x])). p \<noteq> NULL \<and> m p = Some v"
      using at Cons by (auto simp: slist_def)
  qed (use assms(2,3) Cons in auto)
  ultimately have r: "SLIST_REMOVE h x f m = SLIST_REMOVE_AFTER (lst a zs) f m"
    using assms(2,3) Cons by (auto simp: SLIST_REMOVE_def SLIST_FIRST_def load_def)
  have as: "as = butlast as @ [lst a zs]"
    using Cons append_butlast_last_id [of as] by (simp add: lst_def)
  show ?thesis
    using slist_remove_after [of m f h "butlast as" "lst a zs" x bs R] assms(1,2) as unfolding r by (metis append.assoc append_Cons append_Nil)
qed

subsection \<open>Singly linked tail queues\<close>

lemmas stailq_ops = STAILQ_FIRST_def STAILQ_EMPTY_def STAILQ_NEXT_def STAILQ_INIT_def STAILQ_CONCAT_def STAILQ_INSERT_AFTER_def
  STAILQ_INSERT_HEAD_def STAILQ_INSERT_TAIL_def STAILQ_REMOVE_AFTER_def STAILQ_REMOVE_HEAD_def STAILQ_SWAP_def

lemma stailq_init:
  assumes "holds m ([(h, v), (h + 8, w)] @ R)" "NULL \<notin> {h} \<union> set ([])"
  shows "\<exists>m'. STAILQ_INIT h m = Some m' \<and> holds m' (stailq f h [] @ R)"
  by (rule holds_step [OF assms, where C = "[(h, v), (h + 8, w)]" and C' = "[(h, NULL), (h + 8, h)]" and R = "R"],
    simp add: stailq_def free1_def, simp, simp, (elim conjE)?, simp only: stailq_ops cell_ops, simp cong: if_weak_cong, simp add: stailq_def free1_def)

lemma stailq_insert_head:
  assumes "holds m (stailq f h es @ free1 f e v @ R)" "NULL \<notin> {h} \<union> set (e # es)"
  shows "\<exists>m'. STAILQ_INSERT_HEAD h e f m = Some m' \<and> holds m' (stailq f h (e # es) @ R)"
proof (cases es)
  case Nil
  show ?thesis
    unfolding Nil
    by (rule holds_step [OF assms [unfolded Nil], where C = "[(h, NULL), (e + f, v), (h + 8, h)]" and C' = "[(h, e), (e + f, NULL), (h + 8, e + f)]" and R = "R"],
      simp add: stailq_def free1_def, simp, simp, (elim conjE)?, simp only: stailq_ops cell_ops, simp cong: if_weak_cong, simp add: stailq_def free1_def)
next
  case (Cons y ys)
  show ?thesis
    unfolding Cons
    by (rule holds_step [OF assms [unfolded Cons], where C = "[(h, y), (e + f, v)]" and C' = "[(h, e), (e + f, y)]" and R = "path f (y + f) ys @ [(slot f (y + f) ys, NULL), (h + 8, slot f (y + f) ys)] @ R"],
      simp add: stailq_def free1_def, simp, simp, (elim conjE)?, simp only: stailq_ops cell_ops, simp cong: if_weak_cong, simp add: stailq_def free1_def)
qed

lemma stailq_insert_tail:
  assumes "holds m (stailq f h es @ free1 f e v @ R)" "NULL \<notin> {h} \<union> set (e # es)"
  shows "\<exists>m'. STAILQ_INSERT_TAIL h e f m = Some m' \<and> holds m' (stailq f h (es @ [e]) @ R)"
  by (rule holds_step [OF assms, where C = "[(slot f h es, NULL), (h + 8, slot f h es), (e + f, v)]" and C' = "[(slot f h es, e), (h + 8, e + f), (e + f, NULL)]" and R = "path f h es @ R"],
    simp add: stailq_def free1_def, simp, simp, (elim conjE)?, simp only: stailq_ops cell_ops, simp cong: if_weak_cong, simp add: stailq_def free1_def)

lemma stailq_insert_after:
  assumes "holds m (stailq f h (as @ x # bs) @ free1 f e v @ R)" "NULL \<notin> {h} \<union> set (e # as @ x # bs)"
  shows "\<exists>m'. STAILQ_INSERT_AFTER h x e f m = Some m' \<and> holds m' (stailq f h (as @ x # e # bs) @ R)"
proof (cases bs)
  case Nil
  show ?thesis
    unfolding Nil
    by (rule holds_step [OF assms [unfolded Nil], where C = "[(x + f, NULL), (e + f, v), (h + 8, x + f)]" and C' = "[(x + f, e), (e + f, NULL), (h + 8, e + f)]" and R = "path f h (as @ [x]) @ R"],
      simp add: stailq_def free1_def, simp, simp, (elim conjE)?, simp only: stailq_ops cell_ops, simp cong: if_weak_cong, simp add: stailq_def free1_def)
next
  case (Cons y ys)
  show ?thesis
    unfolding Cons
    by (rule holds_step [OF assms [unfolded Cons], where C = "[(x + f, y), (e + f, v)]" and C' = "[(x + f, e), (e + f, y)]" and R = "path f h (as @ [x]) @ path f (y + f) ys @ [(slot f (y + f) ys, NULL), (h + 8, slot f (y + f) ys)] @ R"],
      simp add: stailq_def free1_def, simp, simp, (elim conjE)?, simp only: stailq_ops cell_ops, simp cong: if_weak_cong, simp add: stailq_def free1_def)
qed

lemma stailq_remove_head:
  assumes "holds m (stailq f h (x # bs) @ R)" "NULL \<notin> {h} \<union> set (x # bs)"
  shows "\<exists>m'. STAILQ_REMOVE_HEAD h f m = Some m' \<and> holds m' (stailq f h bs @ free1 f x NULL @ R)"
proof (cases bs)
  case Nil
  show ?thesis
    unfolding Nil
    by (rule holds_step [OF assms [unfolded Nil], where C = "[(h, x), (x + f, NULL), (h + 8, x + f)]" and C' = "[(h, NULL), (x + f, NULL), (h + 8, h)]" and R = "R"],
      simp add: stailq_def free1_def, simp, simp, (elim conjE)?, simp only: stailq_ops cell_ops, simp cong: if_weak_cong, simp add: stailq_def free1_def)
next
  case (Cons y ys)
  show ?thesis
    unfolding Cons
    by (rule holds_step [OF assms [unfolded Cons], where C = "[(h, x), (x + f, y)]" and C' = "[(h, y), (x + f, NULL)]" and R = "path f (y + f) ys @ [(slot f (y + f) ys, NULL), (h + 8, slot f (y + f) ys)] @ R"],
      simp add: stailq_def free1_def, simp, simp, (elim conjE)?, simp only: stailq_ops cell_ops, simp cong: if_weak_cong, simp add: stailq_def free1_def)
qed

lemma stailq_remove_after:
  assumes "holds m (stailq f h (as @ a # x # bs) @ R)" "NULL \<notin> {h} \<union> set (as @ a # x # bs)"
  shows "\<exists>m'. STAILQ_REMOVE_AFTER h a f m = Some m' \<and> holds m' (stailq f h (as @ a # bs) @ free1 f x NULL @ R)"
proof (cases bs)
  case Nil
  show ?thesis
    unfolding Nil
    by (rule holds_step [OF assms [unfolded Nil], where C = "[(a + f, x), (x + f, NULL), (h + 8, x + f)]" and C' = "[(a + f, NULL), (x + f, NULL), (h + 8, a + f)]" and R = "path f h (as @ [a]) @ R"],
      simp add: stailq_def free1_def, simp, simp, (elim conjE)?, simp only: stailq_ops cell_ops, simp cong: if_weak_cong, simp add: stailq_def free1_def)
next
  case (Cons y ys)
  show ?thesis
    unfolding Cons
    by (rule holds_step [OF assms [unfolded Cons], where C = "[(a + f, x), (x + f, y)]" and C' = "[(a + f, y), (x + f, NULL)]" and R = "path f h (as @ [a]) @ path f (y + f) ys @ [(slot f (y + f) ys, NULL), (h + 8, slot f (y + f) ys)] @ R"],
      simp add: stailq_def free1_def, simp, simp, (elim conjE)?, simp only: stailq_ops cell_ops, simp cong: if_weak_cong, simp add: stailq_def free1_def)
qed

lemma stailq_concat:
  assumes "holds m (stailq f h xs @ stailq f k bs @ R)" "NULL \<notin> {h, k} \<union> set (xs @ bs)"
  shows "\<exists>m'. STAILQ_CONCAT h k m = Some m' \<and> holds m' (stailq f h (xs @ bs) @ stailq f k [] @ R)"
proof (cases bs)
  case Nil
  show ?thesis
    unfolding Nil
    by (rule holds_step [OF assms [unfolded Nil], where C = "[(k, NULL)]" and C' = "[(k, NULL)]" and R = "stailq f h xs @ [(k + 8, k)] @ R"],
      simp add: stailq_def free1_def, simp, simp, (elim conjE)?, simp only: stailq_ops cell_ops, simp cong: if_weak_cong, simp add: stailq_def free1_def)
next
  case (Cons y ys)
  show ?thesis
    unfolding Cons
    by (rule holds_step [OF assms [unfolded Cons], where C = "[(slot f h xs, NULL), (h + 8, slot f h xs), (k, y), (k + 8, slot f (y + f) ys)]" and C' = "[(slot f h xs, y), (h + 8, slot f (y + f) ys), (k, NULL), (k + 8, k)]" and R = "path f h xs @ path f (y + f) ys @ [(slot f (y + f) ys, NULL)] @ R"],
      simp add: stailq_def free1_def, simp, simp, (elim conjE)?, simp only: stailq_ops cell_ops, simp cong: if_weak_cong, simp add: stailq_def free1_def)
qed

lemma stailq_swap:
  assumes "holds m (stailq f h xs @ stailq f k bs @ R)" "NULL \<notin> {h, k} \<union> set (xs @ bs)"
  shows "\<exists>m'. STAILQ_SWAP h k m = Some m' \<and> holds m' (stailq f h bs @ stailq f k xs @ R)"
proof (cases xs; cases bs)
  assume c: "xs = []" "bs = []"
  show ?thesis
    unfolding c
    by (rule holds_step [OF assms [unfolded c], where C = "[(h, NULL), (k, NULL), (h + 8, h), (k + 8, k)]" and C' = "[(h, NULL), (k, NULL), (h + 8, h), (k + 8, k)]" and R = "R"],
      simp add: stailq_def, simp, simp, (elim conjE)?, simp only: stailq_ops cell_ops, simp cong: if_weak_cong, simp add: stailq_def)
next
  fix y ys
  assume c: "xs = []" "bs = y # ys"
  show ?thesis
    unfolding c
    by (rule holds_step [OF assms [unfolded c], where C = "[(h, NULL), (k, y), (h + 8, h), (k + 8, slot f (y + f) ys)]" and C' = "[(h, y), (k, NULL), (h + 8, slot f (y + f) ys), (k + 8, k)]" and R = "path f (y + f) ys @ [(slot f (y + f) ys, NULL)] @ R"],
      simp add: stailq_def, simp, simp, (elim conjE)?, simp only: stailq_ops cell_ops, simp cong: if_weak_cong, simp add: stailq_def)
next
  fix x as
  assume c: "xs = x # as" "bs = []"
  show ?thesis
    unfolding c
    by (rule holds_step [OF assms [unfolded c], where C = "[(h, x), (k, NULL), (h + 8, slot f (x + f) as), (k + 8, k)]" and C' = "[(h, NULL), (k, x), (h + 8, h), (k + 8, slot f (x + f) as)]" and R = "path f (x + f) as @ [(slot f (x + f) as, NULL)] @ R"],
      simp add: stailq_def, simp, simp, (elim conjE)?, simp only: stailq_ops cell_ops, simp cong: if_weak_cong, simp add: stailq_def)
next
  fix x as y ys
  assume c: "xs = x # as" "bs = y # ys"
  show ?thesis
    unfolding c
    by (rule holds_step [OF assms [unfolded c], where C = "[(h, x), (k, y), (h + 8, slot f (x + f) as), (k + 8, slot f (y + f) ys)]" and C' = "[(h, y), (k, x), (h + 8, slot f (y + f) ys), (k + 8, slot f (x + f) as)]" and R = "path f (x + f) as @ [(slot f (x + f) as, NULL)] @ path f (y + f) ys @ [(slot f (y + f) ys, NULL)] @ R"],
      simp add: stailq_def, simp, simp, (elim conjE)?, simp only: stailq_ops cell_ops, simp cong: if_weak_cong, simp add: stailq_def)
qed

lemma stailq_remove:
  assumes "holds m (stailq f h (as @ x # bs) @ R)" "NULL \<notin> {h} \<union> set (as @ x # bs)" "x \<notin> set as"
  shows "\<exists>m'. STAILQ_REMOVE h x f m = Some m' \<and> holds m' (stailq f h (as @ bs) @ free1 f x NULL @ R)"
proof (cases as)
  case Nil
  have "m h = Some x"
    using holds_at [OF assms(1), of h x] Nil by (simp add: stailq_def)
  then have "STAILQ_REMOVE h x f m = STAILQ_REMOVE_HEAD h f m"
    using assms(2) by (simp add: STAILQ_REMOVE_def STAILQ_FIRST_def load_def)
  then show ?thesis
    using stailq_remove_head [of m f h x bs R] assms Nil by simp
next
  case (Cons a zs)
  have at: "p \<noteq> NULL \<and> m p = Some v" if "(p, v) \<in> set (stailq f h (as @ x # bs))" for p v
    using holds_at [OF assms(1), of p v] that by simp
  have "m h = Some a"
    using at [of h a] Cons by (simp add: stailq_def)
  moreover have "pred_loop x f a m = Some (lst a zs)"
  proof (rule pred_loop_ok)
    show "\<forall>(p, v) \<in> set (path f (a + f) (zs @ [x])). p \<noteq> NULL \<and> m p = Some v"
      using at Cons by (auto simp: stailq_def)
  qed (use assms(2,3) Cons in auto)
  ultimately have r: "STAILQ_REMOVE h x f m = STAILQ_REMOVE_AFTER h (lst a zs) f m"
    using assms(2,3) Cons by (auto simp: STAILQ_REMOVE_def STAILQ_FIRST_def load_def)
  have as: "as = butlast as @ [lst a zs]"
    using Cons append_butlast_last_id [of as] by (simp add: lst_def)
  show ?thesis
    using stailq_remove_after [of m f h "butlast as" "lst a zs" x bs R] assms(1,2) as unfolding r by (metis append.assoc append_Cons append_Nil)
qed

subsection \<open>Lists\<close>

lemmas dlist_ops = LIST_FIRST_def LIST_EMPTY_def LIST_NEXT_def LIST_INIT_def LIST_INSERT_AFTER_def LIST_INSERT_BEFORE_def
  LIST_INSERT_HEAD_def LIST_REMOVE_def LIST_SWAP_def checked_def QMD_LIST_CHECK_HEAD_def QMD_LIST_CHECK_NEXT_def QMD_LIST_CHECK_PREV_def

lemma dlist_init:
  assumes "holds m ([(h, v)] @ R)" "NULL \<notin> {h} \<union> set ([])"
  shows "\<exists>m'. LIST_INIT h m = Some m' \<and> holds m' (dlist f h [] @ R)"
  by (rule holds_step [OF assms, where C = "[(h, v)]" and C' = "[(h, NULL)]" and R = "R"],
    simp add: dlist_def free2_def, simp, simp, (elim conjE)?, simp only: dlist_ops cell_ops, simp cong: if_weak_cong, simp add: dlist_def free2_def)

lemma dlist_insert_head:
  assumes "holds m (dlist f h es @ free2 f e vs @ R)" "NULL \<notin> {h} \<union> set (e # es)"
  shows "\<exists>m'. LIST_INSERT_HEAD pa h e f m = Some m' \<and> holds m' (dlist f h (e # es) @ R)"
proof (cases es)
  case Nil
  show ?thesis
    unfolding Nil
    by (rule holds_step [OF assms [unfolded Nil], where C = "[(h, NULL), (e + f, fst vs), (e + (f + 8), snd vs)]" and C' = "[(h, e), (e + f, NULL), (e + (f + 8), h)]" and R = "R"],
      simp add: dlist_def free2_def, simp, simp, (elim conjE)?, simp only: dlist_ops cell_ops, simp cong: if_weak_cong, simp add: dlist_def free2_def)
next
  case (Cons y ys)
  show ?thesis
    unfolding Cons
    by (rule holds_step [OF assms [unfolded Cons], where C = "[(h, y), (y + (f + 8), h), (e + f, fst vs), (e + (f + 8), snd vs)]" and C' = "[(h, e), (y + (f + 8), e + f), (e + f, y), (e + (f + 8), h)]" and R = "dpath f (y + f) ys @ [(slot f (y + f) ys, NULL)] @ R"],
      simp add: dlist_def free2_def, simp, simp, (elim conjE)?, simp only: dlist_ops cell_ops, simp cong: if_weak_cong, simp add: dlist_def free2_def)
qed

lemma dlist_insert_after:
  assumes "holds m (dlist f h (as @ x # bs) @ free2 f e vs @ R)" "NULL \<notin> {h} \<union> set (e # as @ x # bs)"
  shows "\<exists>m'. LIST_INSERT_AFTER pa x e f m = Some m' \<and> holds m' (dlist f h (as @ x # e # bs) @ R)"
proof (cases bs)
  case Nil
  show ?thesis
    unfolding Nil
    by (rule holds_step [OF assms [unfolded Nil], where C = "[(x + f, NULL), (e + f, fst vs), (e + (f + 8), snd vs)]" and C' = "[(x + f, e), (e + f, NULL), (e + (f + 8), x + f)]" and R = "dpath f h (as @ [x]) @ R"],
      simp add: dlist_def free2_def, simp, simp, (elim conjE)?, simp only: dlist_ops cell_ops, simp cong: if_weak_cong, simp add: dlist_def free2_def)
next
  case (Cons y ys)
  show ?thesis
    unfolding Cons
    by (rule holds_step [OF assms [unfolded Cons], where C = "[(x + f, y), (y + (f + 8), x + f), (e + f, fst vs), (e + (f + 8), snd vs)]" and C' = "[(x + f, e), (y + (f + 8), e + f), (e + f, y), (e + (f + 8), x + f)]" and R = "dpath f h (as @ [x]) @ dpath f (y + f) ys @ [(slot f (y + f) ys, NULL)] @ R"],
      simp add: dlist_def free2_def, simp, simp, (elim conjE)?, simp only: dlist_ops cell_ops, simp cong: if_weak_cong, simp add: dlist_def free2_def)
qed

lemma dlist_insert_before:
  assumes "holds m (dlist f h (as @ x # bs) @ free2 f e vs @ R)" "NULL \<notin> {h} \<union> set (e # as @ x # bs)"
  shows "\<exists>m'. LIST_INSERT_BEFORE pa x e f m = Some m' \<and> holds m' (dlist f h (as @ e # x # bs) @ R)"
  by (rule holds_step [OF assms, where C = "[(slot f h as, x), (x + (f + 8), slot f h as), (e + f, fst vs), (e + (f + 8), snd vs)]" and C' = "[(slot f h as, e), (x + (f + 8), e + f), (e + f, x), (e + (f + 8), slot f h as)]" and R = "dpath f h as @ dpath f (x + f) bs @ [(slot f (x + f) bs, NULL)] @ R"],
    simp add: dlist_def free2_def, simp, simp, (elim conjE)?, simp only: dlist_ops cell_ops, simp cong: if_weak_cong, simp add: dlist_def free2_def)

lemma dlist_remove:
  assumes "holds m (dlist f h (as @ x # bs) @ R)" "NULL \<notin> {h} \<union> set (as @ x # bs)"
  shows "\<exists>m'. LIST_REMOVE pa x f m = Some m' \<and> holds m' (dlist f h (as @ bs) @ free2 f x (NULL, NULL) @ R)"
proof (cases bs)
  case Nil
  show ?thesis
    unfolding Nil
    by (rule holds_step [OF assms [unfolded Nil], where C = "[(slot f h as, x), (x + (f + 8), slot f h as), (x + f, NULL)]" and C' = "[(slot f h as, NULL), (x + (f + 8), NULL), (x + f, NULL)]" and R = "dpath f h as @ R"],
      simp add: dlist_def free2_def, simp, simp, (elim conjE)?, simp only: dlist_ops cell_ops, simp cong: if_weak_cong, simp add: dlist_def free2_def)
next
  case (Cons y ys)
  show ?thesis
    unfolding Cons
    by (rule holds_step [OF assms [unfolded Cons], where C = "[(slot f h as, x), (x + (f + 8), slot f h as), (x + f, y), (y + (f + 8), x + f)]" and C' = "[(slot f h as, y), (x + (f + 8), NULL), (x + f, NULL), (y + (f + 8), slot f h as)]" and R = "dpath f h as @ dpath f (y + f) ys @ [(slot f (y + f) ys, NULL)] @ R"],
      simp add: dlist_def free2_def, simp, simp, (elim conjE)?, simp only: dlist_ops cell_ops, simp cong: if_weak_cong, simp add: dlist_def free2_def)
qed

lemma dlist_swap:
  assumes "holds m (dlist f h xs @ dlist f k bs @ R)" "NULL \<notin> {h, k} \<union> set (xs @ bs)"
  shows "\<exists>m'. LIST_SWAP h k f m = Some m' \<and> holds m' (dlist f h bs @ dlist f k xs @ R)"
proof (cases xs; cases bs)
  assume c: "xs = []" "bs = []"
  show ?thesis
    unfolding c
    by (rule holds_step [OF assms [unfolded c], where C = "[(h, NULL), (k, NULL)]" and C' = "[(h, NULL), (k, NULL)]" and R = "R"],
      simp add: dlist_def, simp, simp, (elim conjE)?, simp only: dlist_ops cell_ops, simp cong: if_weak_cong, simp add: dlist_def)
next
  fix y ys
  assume c: "xs = []" "bs = y # ys"
  show ?thesis
    unfolding c
    by (rule holds_step [OF assms [unfolded c], where C = "[(h, NULL), (k, y), (y + (f + 8), k)]" and C' = "[(h, y), (k, NULL), (y + (f + 8), h)]" and R = "dpath f (y + f) ys @ [(slot f (y + f) ys, NULL)] @ R"],
      simp add: dlist_def, simp, simp, (elim conjE)?, simp only: dlist_ops cell_ops, simp cong: if_weak_cong, simp add: dlist_def)
next
  fix x as
  assume c: "xs = x # as" "bs = []"
  show ?thesis
    unfolding c
    by (rule holds_step [OF assms [unfolded c], where C = "[(h, x), (k, NULL), (x + (f + 8), h)]" and C' = "[(h, NULL), (k, x), (x + (f + 8), k)]" and R = "dpath f (x + f) as @ [(slot f (x + f) as, NULL)] @ R"],
      simp add: dlist_def, simp, simp, (elim conjE)?, simp only: dlist_ops cell_ops, simp cong: if_weak_cong, simp add: dlist_def)
next
  fix x as y ys
  assume c: "xs = x # as" "bs = y # ys"
  show ?thesis
    unfolding c
    by (rule holds_step [OF assms [unfolded c], where C = "[(h, x), (k, y), (x + (f + 8), h), (y + (f + 8), k)]" and C' = "[(h, y), (k, x), (x + (f + 8), k), (y + (f + 8), h)]" and R = "dpath f (x + f) as @ [(slot f (x + f) as, NULL)] @ dpath f (y + f) ys @ [(slot f (y + f) ys, NULL)] @ R"],
      simp add: dlist_def, simp, simp, (elim conjE)?, simp only: dlist_ops cell_ops, simp cong: if_weak_cong, simp add: dlist_def)
qed

subsection \<open>Tail queues\<close>

lemmas tailq_ops = TAILQ_FIRST_def TAILQ_EMPTY_def TAILQ_NEXT_def TAILQ_INIT_def TAILQ_CONCAT_def TAILQ_INSERT_AFTER_def TAILQ_INSERT_BEFORE_def
  TAILQ_INSERT_HEAD_def TAILQ_INSERT_TAIL_def TAILQ_REMOVE_def TAILQ_SWAP_def checked_def QMD_TAILQ_CHECK_HEAD_def QMD_TAILQ_CHECK_TAIL_def
  QMD_TAILQ_CHECK_NEXT_def QMD_TAILQ_CHECK_PREV_def

lemma tailq_init:
  assumes "holds m ([(h, v), (h + 8, w)] @ R)" "NULL \<notin> {h} \<union> set ([])"
  shows "\<exists>m'. TAILQ_INIT h m = Some m' \<and> holds m' (tailq f h [] @ R)"
  by (rule holds_step [OF assms, where C = "[(h, v), (h + 8, w)]" and C' = "[(h, NULL), (h + 8, h)]" and R = "R"],
    simp add: tailq_def free2_def, simp, simp, (elim conjE)?, simp only: tailq_ops cell_ops, simp cong: if_weak_cong, simp add: tailq_def free2_def)

lemma tailq_insert_head:
  assumes "holds m (tailq f h es @ free2 f e vs @ R)" "NULL \<notin> {h} \<union> set (e # es)"
  shows "\<exists>m'. TAILQ_INSERT_HEAD pa h e f m = Some m' \<and> holds m' (tailq f h (e # es) @ R)"
proof (cases es)
  case Nil
  show ?thesis
    unfolding Nil
    by (rule holds_step [OF assms [unfolded Nil], where C = "[(h, NULL), (h + 8, h), (e + f, fst vs), (e + (f + 8), snd vs)]" and C' = "[(h, e), (h + 8, e + f), (e + f, NULL), (e + (f + 8), h)]" and R = "R"],
      simp add: tailq_def free2_def, simp, simp, (elim conjE)?, simp only: tailq_ops cell_ops, simp cong: if_weak_cong, simp add: tailq_def free2_def)
next
  case (Cons y ys)
  show ?thesis
    unfolding Cons
    by (rule holds_step [OF assms [unfolded Cons], where C = "[(h, y), (y + (f + 8), h), (e + f, fst vs), (e + (f + 8), snd vs)]" and C' = "[(h, e), (y + (f + 8), e + f), (e + f, y), (e + (f + 8), h)]" and R = "dpath f (y + f) ys @ [(slot f (y + f) ys, NULL), (h + 8, slot f (y + f) ys)] @ R"],
      simp add: tailq_def free2_def, simp, simp, (elim conjE)?, simp only: tailq_ops cell_ops, simp cong: if_weak_cong, simp add: tailq_def free2_def)
qed

lemma tailq_insert_tail:
  assumes "holds m (tailq f h es @ free2 f e vs @ R)" "NULL \<notin> {h} \<union> set (e # es)"
  shows "\<exists>m'. TAILQ_INSERT_TAIL pa h e f m = Some m' \<and> holds m' (tailq f h (es @ [e]) @ R)"
  by (rule holds_step [OF assms, where C = "[(slot f h es, NULL), (h + 8, slot f h es), (e + f, fst vs), (e + (f + 8), snd vs)]" and C' = "[(slot f h es, e), (h + 8, e + f), (e + f, NULL), (e + (f + 8), slot f h es)]" and R = "dpath f h es @ R"],
    simp add: tailq_def free2_def, simp, simp, (elim conjE)?, simp only: tailq_ops cell_ops, simp cong: if_weak_cong, simp add: tailq_def free2_def)

lemma tailq_insert_after:
  assumes "holds m (tailq f h (as @ x # bs) @ free2 f e vs @ R)" "NULL \<notin> {h} \<union> set (e # as @ x # bs)"
  shows "\<exists>m'. TAILQ_INSERT_AFTER pa h x e f m = Some m' \<and> holds m' (tailq f h (as @ x # e # bs) @ R)"
proof (cases bs)
  case Nil
  show ?thesis
    unfolding Nil
    by (rule holds_step [OF assms [unfolded Nil], where C = "[(x + f, NULL), (h + 8, x + f), (e + f, fst vs), (e + (f + 8), snd vs)]" and C' = "[(x + f, e), (h + 8, e + f), (e + f, NULL), (e + (f + 8), x + f)]" and R = "dpath f h (as @ [x]) @ R"],
      simp add: tailq_def free2_def, simp, simp, (elim conjE)?, simp only: tailq_ops cell_ops, simp cong: if_weak_cong, simp add: tailq_def free2_def)
next
  case (Cons y ys)
  show ?thesis
    unfolding Cons
    by (rule holds_step [OF assms [unfolded Cons], where C = "[(x + f, y), (y + (f + 8), x + f), (e + f, fst vs), (e + (f + 8), snd vs)]" and C' = "[(x + f, e), (y + (f + 8), e + f), (e + f, y), (e + (f + 8), x + f)]" and R = "dpath f h (as @ [x]) @ dpath f (y + f) ys @ [(slot f (y + f) ys, NULL), (h + 8, slot f (y + f) ys)] @ R"],
      simp add: tailq_def free2_def, simp, simp, (elim conjE)?, simp only: tailq_ops cell_ops, simp cong: if_weak_cong, simp add: tailq_def free2_def)
qed

lemma tailq_insert_before:
  assumes "holds m (tailq f h (as @ x # bs) @ free2 f e vs @ R)" "NULL \<notin> {h} \<union> set (e # as @ x # bs)"
  shows "\<exists>m'. TAILQ_INSERT_BEFORE pa x e f m = Some m' \<and> holds m' (tailq f h (as @ e # x # bs) @ R)"
  by (rule holds_step [OF assms, where C = "[(slot f h as, x), (x + (f + 8), slot f h as), (e + f, fst vs), (e + (f + 8), snd vs)]" and C' = "[(slot f h as, e), (x + (f + 8), e + f), (e + f, x), (e + (f + 8), slot f h as)]" and R = "dpath f h as @ dpath f (x + f) bs @ [(slot f (x + f) bs, NULL), (h + 8, slot f (x + f) bs)] @ R"],
    simp add: tailq_def free2_def, simp, simp, (elim conjE)?, simp only: tailq_ops cell_ops, simp cong: if_weak_cong, simp add: tailq_def free2_def)

lemma tailq_remove:
  assumes "holds m (tailq f h (as @ x # bs) @ R)" "NULL \<notin> {h} \<union> set (as @ x # bs)"
  shows "\<exists>m'. TAILQ_REMOVE pa h x f m = Some m' \<and> holds m' (tailq f h (as @ bs) @ free2 f x (NULL, NULL) @ R)"
proof (cases bs)
  case Nil
  show ?thesis
    unfolding Nil
    by (rule holds_step [OF assms [unfolded Nil], where C = "[(slot f h as, x), (x + (f + 8), slot f h as), (x + f, NULL), (h + 8, x + f)]" and C' = "[(slot f h as, NULL), (x + (f + 8), NULL), (x + f, NULL), (h + 8, slot f h as)]" and R = "dpath f h as @ R"],
      simp add: tailq_def free2_def, simp, simp, (elim conjE)?, simp only: tailq_ops cell_ops, simp cong: if_weak_cong, simp add: tailq_def free2_def)
next
  case (Cons y ys)
  show ?thesis
    unfolding Cons
    by (rule holds_step [OF assms [unfolded Cons], where C = "[(slot f h as, x), (x + (f + 8), slot f h as), (x + f, y), (y + (f + 8), x + f)]" and C' = "[(slot f h as, y), (x + (f + 8), NULL), (x + f, NULL), (y + (f + 8), slot f h as)]" and R = "dpath f h as @ dpath f (y + f) ys @ [(slot f (y + f) ys, NULL), (h + 8, slot f (y + f) ys)] @ R"],
      simp add: tailq_def free2_def, simp, simp, (elim conjE)?, simp only: tailq_ops cell_ops, simp cong: if_weak_cong, simp add: tailq_def free2_def)
qed

lemma tailq_concat:
  assumes "holds m (tailq f h xs @ tailq f k bs @ R)" "NULL \<notin> {h, k} \<union> set (xs @ bs)"
  shows "\<exists>m'. TAILQ_CONCAT h k f m = Some m' \<and> holds m' (tailq f h (xs @ bs) @ tailq f k [] @ R)"
proof (cases bs)
  case Nil
  show ?thesis
    unfolding Nil
    by (rule holds_step [OF assms [unfolded Nil], where C = "[(k, NULL)]" and C' = "[(k, NULL)]" and R = "tailq f h xs @ [(k + 8, k)] @ R"],
      simp add: tailq_def free2_def, simp, simp, (elim conjE)?, simp only: tailq_ops cell_ops, simp cong: if_weak_cong, simp add: tailq_def free2_def)
next
  case (Cons y ys)
  show ?thesis
    unfolding Cons
    by (rule holds_step [OF assms [unfolded Cons], where C = "[(slot f h xs, NULL), (h + 8, slot f h xs), (k, y), (k + 8, slot f (y + f) ys), (y + (f + 8), k)]" and C' = "[(slot f h xs, y), (h + 8, slot f (y + f) ys), (k, NULL), (k + 8, k), (y + (f + 8), slot f h xs)]" and R = "dpath f h xs @ dpath f (y + f) ys @ [(slot f (y + f) ys, NULL)] @ R"],
      simp add: tailq_def free2_def, simp, simp, (elim conjE)?, simp only: tailq_ops cell_ops, simp cong: if_weak_cong, simp add: tailq_def free2_def)
qed

lemma tailq_swap:
  assumes "holds m (tailq f h xs @ tailq f k bs @ R)" "NULL \<notin> {h, k} \<union> set (xs @ bs)"
  shows "\<exists>m'. TAILQ_SWAP h k f m = Some m' \<and> holds m' (tailq f h bs @ tailq f k xs @ R)"
proof (cases xs; cases bs)
  assume c: "xs = []" "bs = []"
  show ?thesis
    unfolding c
    by (rule holds_step [OF assms [unfolded c], where C = "[(h, NULL), (k, NULL), (h + 8, h), (k + 8, k)]" and C' = "[(h, NULL), (k, NULL), (h + 8, h), (k + 8, k)]" and R = "R"],
      simp add: tailq_def, simp, simp, (elim conjE)?, simp only: tailq_ops cell_ops, simp cong: if_weak_cong, simp add: tailq_def)
next
  fix y ys
  assume c: "xs = []" "bs = y # ys"
  show ?thesis
    unfolding c
    by (rule holds_step [OF assms [unfolded c], where C = "[(h, NULL), (k, y), (h + 8, h), (k + 8, slot f (y + f) ys), (y + (f + 8), k)]" and C' = "[(h, y), (k, NULL), (h + 8, slot f (y + f) ys), (k + 8, k), (y + (f + 8), h)]" and R = "dpath f (y + f) ys @ [(slot f (y + f) ys, NULL)] @ R"],
      simp add: tailq_def, simp, simp, (elim conjE)?, simp only: tailq_ops cell_ops, simp cong: if_weak_cong, simp add: tailq_def)
next
  fix x as
  assume c: "xs = x # as" "bs = []"
  show ?thesis
    unfolding c
    by (rule holds_step [OF assms [unfolded c], where C = "[(h, x), (k, NULL), (h + 8, slot f (x + f) as), (k + 8, k), (x + (f + 8), h)]" and C' = "[(h, NULL), (k, x), (h + 8, h), (k + 8, slot f (x + f) as), (x + (f + 8), k)]" and R = "dpath f (x + f) as @ [(slot f (x + f) as, NULL)] @ R"],
      simp add: tailq_def, simp, simp, (elim conjE)?, simp only: tailq_ops cell_ops, simp cong: if_weak_cong, simp add: tailq_def)
next
  fix x as y ys
  assume c: "xs = x # as" "bs = y # ys"
  show ?thesis
    unfolding c
    by (rule holds_step [OF assms [unfolded c], where C = "[(h, x), (k, y), (h + 8, slot f (x + f) as), (k + 8, slot f (y + f) ys), (x + (f + 8), h), (y + (f + 8), k)]" and C' = "[(h, y), (k, x), (h + 8, slot f (y + f) ys), (k + 8, slot f (x + f) as), (x + (f + 8), k), (y + (f + 8), h)]" and R = "dpath f (x + f) as @ [(slot f (x + f) as, NULL)] @ dpath f (y + f) ys @ [(slot f (y + f) ys, NULL)] @ R"],
      simp add: tailq_def, simp, simp, (elim conjE)?, simp only: tailq_ops cell_ops, simp cong: if_weak_cong, simp add: tailq_def)
qed

subsection \<open>Circular queues\<close>

lemmas circleq_ops = CIRCLEQ_FIRST_def CIRCLEQ_LAST_def CIRCLEQ_NEXT_def CIRCLEQ_PREV_def CIRCLEQ_INIT_def CIRCLEQ_INSERT_AFTER_def
  CIRCLEQ_INSERT_BEFORE_def CIRCLEQ_INSERT_HEAD_def CIRCLEQ_INSERT_TAIL_def CIRCLEQ_REMOVE_def

lemma circleq_init:
  assumes "holds m ([(h, v), (h + 8, w)] @ R)" "NULL \<notin> {h} \<union> set ([])"
  shows "\<exists>m'. CIRCLEQ_INIT h m = Some m' \<and> holds m' (circleq f h [] @ R)"
  by (rule holds_step [OF assms, where C = "[(h, v), (h + 8, w)]" and C' = "[(h, h), (h + 8, h)]" and R = "R"],
    simp add: circleq_def nx_def pv_def free2_def, simp, simp, (elim conjE)?, simp only: circleq_ops cell_ops, simp cong: if_weak_cong, simp add: circleq_def nx_def pv_def free2_def)

text \<open>
  An insertion puts the element between two neighbours \<open>p\<close> and \<open>y\<close>, each of which may be the head; a
  removal takes it out from there.
\<close>

definition fst_or :: "addr \<Rightarrow> addr list \<Rightarrow> addr" where
  "fst_or h es = hd (es @ [h])"

definition crest :: "addr \<Rightarrow> addr \<Rightarrow> addr list \<Rightarrow> addr list \<Rightarrow> (addr \<times> addr) list" where
  "crest f h as bs = cpath f h h as @ (case bs of [] \<Rightarrow> [] | b # bs' \<Rightarrow> cpath f h b bs' @ [(nx f h (lst b bs'), h), (h + 8, lst b bs')])"

lemma pv_head: "pv f h h = h + 8"
  by (simp add: pv_def)

lemma circleq_split:
  "mset (circleq f h (as @ bs)) = mset ([(nx f h (lst h as), fst_or h bs), (pv f h (fst_or h bs), lst h as)] @ crest f h as bs)"
  by (cases bs) (simp_all add: circleq_def crest_def fst_or_def pv_head)

lemma circleq_split_elem:
  "mset (circleq f h (as @ e # bs)) = mset ([(nx f h (lst h as), e), (pv f h (fst_or h bs), e), (nx f h e, fst_or h bs), (pv f h e, lst h as)] @ crest f h as bs)"
  by (cases bs) (simp_all add: circleq_def crest_def fst_or_def pv_head)

lemma free2_nx: "e \<noteq> h \<Longrightarrow> free2 f e vs = [(nx f h e, fst vs), (pv f h e, snd vs)]"
  by (simp add: free2_def nx_def pv_def)

lemma circleq_head: "(h, fst_or h es) \<in> set (circleq f h es)" "(h + 8, lst h es) \<in> set (circleq f h es)"
  by (cases es; simp add: circleq_def fst_or_def nx_def)+

lemma circleq_insert:
  assumes "holds m (circleq f h (as @ bs) @ free2 f e vs @ R)" "NULL \<notin> {h} \<union> set (e # as @ bs) \<and> h \<notin> set (e # as @ bs)"
    and p: "lst h as = p" and y: "fst_or h bs = y"
    and run: "\<And>C. C = [(nx f h p, y), (pv f h y, p), (e + f, fst vs), (e + (f + 8), snd vs)] \<Longrightarrow>
      distinct (map fst C) \<Longrightarrow> \<forall>(p, v) \<in> set C. p \<noteq> NULL \<and> m p = Some v \<Longrightarrow>
      p \<noteq> NULL \<Longrightarrow> y \<noteq> NULL \<Longrightarrow> h \<notin> {e + f, e + (f + 8)} \<Longrightarrow> h + 8 \<notin> {NULL, e + f, e + (f + 8)} \<Longrightarrow>
      m h = Some (fst_or h (as @ bs)) \<Longrightarrow> m (h + 8) = Some (lst h (as @ bs)) \<Longrightarrow>
      \<exists>m'. r = Some m' \<and> (\<forall>(p, v) \<in> set [(nx f h p, e), (pv f h y, e), (e + f, y), (e + (f + 8), p)]. m' p = Some v) \<and>
        (\<forall>p. p \<notin> set (map fst C) \<longrightarrow> m' p = m p)"
  shows "\<exists>m'. r = Some m' \<and> holds m' (circleq f h (as @ e # bs) @ R)"
proof (rule holds_step [OF assms(1) TrueI, where C = "[(nx f h p, y), (pv f h y, p), (e + f, fst vs), (e + (f + 8), snd vs)]"
    and C' = "[(nx f h p, e), (pv f h y, e), (e + f, y), (e + (f + 8), p)]" and R = "crest f h as bs @ R"])
  let ?C = "[(nx f h p, y), (pv f h y, p), (e + f, fst vs), (e + (f + 8), snd vs)]"
  have eh: "e \<noteq> h"
    using assms(2) by auto
  then have n: "nx f h e = e + f" "pv f h e = e + (f + 8)"
    by (simp_all add: nx_def pv_def)
  show "mset (circleq f h (as @ bs) @ free2 f e vs @ R) = mset (?C @ crest f h as bs @ R)"
    using circleq_split [of f h as bs] p y by (simp add: free2_def)
  show "mset ([(nx f h p, e), (pv f h y, e), (e + f, y), (e + (f + 8), p)] @ crest f h as bs @ R) = mset (circleq f h (as @ e # bs) @ R)"
    using circleq_split_elem [of f h as e bs] p y n by simp
  show "mset (map fst [(nx f h p, e), (pv f h y, e), (e + f, y), (e + (f + 8), p)]) = mset (map fst ?C)"
    by simp
  assume C: "distinct (map fst ?C)" "\<forall>(p, v) \<in> set ?C. p \<noteq> NULL \<and> m p = Some v"
  have "p \<in> {h} \<union> set as" "y \<in> {h} \<union> set bs"
    using lst_in [of h as] p y by (auto simp: fst_or_def hd_append hd_in_set)
  then have nn: "p \<noteq> NULL" "y \<noteq> NULL"
    using assms(2) by auto
  note H = circleq_head [of h "as @ bs" f]
  have at: "m h = Some (fst_or h (as @ bs))" "m (h + 8) = Some (lst h (as @ bs))" "h + 8 \<noteq> NULL"
    using holds_at [OF assms(1), of h] holds_at [OF assms(1), of "h + 8"] H by auto
  have "e + f \<notin> fst ` set (circleq f h (as @ bs))" "e + (f + 8) \<notin> fst ` set (circleq f h (as @ bs))"
    using assms(1) by (auto simp: holds_def free2_def)
  moreover have "h \<in> fst ` set (circleq f h (as @ bs))" "h + 8 \<in> fst ` set (circleq f h (as @ bs))"
    using H by force+
  ultimately have "h \<notin> {e + f, e + (f + 8)}" "h + 8 \<notin> {e + f, e + (f + 8)}"
    by (metis insertE singletonD)+
  then show "\<exists>m'. r = Some m' \<and> (\<forall>(p, v) \<in> set [(nx f h p, e), (pv f h y, e), (e + f, y), (e + (f + 8), p)]. m' p = Some v) \<and>
      (\<forall>p. p \<notin> set (map fst ?C) \<longrightarrow> m' p = m p)"
    using run [OF refl C nn] at by simp
qed

lemma head_iff: "h \<notin> set es \<Longrightarrow> fst_or h es = h \<longleftrightarrow> es = []" "h \<notin> set es \<Longrightarrow> lst h es = h \<longleftrightarrow> es = []"
  by (cases es; auto simp: fst_or_def) (cases es rule: rev_cases; auto)

lemma fst_or_in: "fst_or h es = h \<or> fst_or h es \<in> set es"
  by (cases es) (simp_all add: fst_or_def)

lemma circleq_insert_head:
  assumes "holds m (circleq f h (es) @ free2 f e vs @ R)" "NULL \<notin> {h} \<union> set (e # es) \<and> h \<notin> set (e # es)"
  shows "\<exists>m'. CIRCLEQ_INSERT_HEAD h e f m = Some m' \<and> holds m' (circleq f h (e # es) @ R)"
proof -
  have "\<exists>m'. CIRCLEQ_INSERT_HEAD h e f m = Some m' \<and> holds m' (circleq f h ([] @ e # es) @ R)"
  proof (rule circleq_insert [where p = "h" and y = "fst_or h es"])
    fix C
    assume "C = [(nx f h (h), fst_or h es), (pv f h (fst_or h es), h), (e + f, fst vs), (e + (f + 8), snd vs)]"
      "distinct (map fst C)" "\<forall>(p, v) \<in> set C. p \<noteq> NULL \<and> m p = Some v" "h \<noteq> NULL" "fst_or h es \<noteq> NULL"
      "h \<notin> {e + f, e + (f + 8)}" "h + 8 \<notin> {NULL, e + f, e + (f + 8)}"
      "m h = Some (fst_or h ([] @ es))" "m (h + 8) = Some (lst h ([] @ es))"
    then show "\<exists>m'. CIRCLEQ_INSERT_HEAD h e f m = Some m' \<and>
      (\<forall>(p, v) \<in> set [(nx f h (h), e), (pv f h (fst_or h es), e), (e + f, fst_or h es), (e + (f + 8), h)]. m' p = Some v) \<and>
      (\<forall>p. p \<notin> set (map fst C) \<longrightarrow> m' p = m p)"
      using assms(2) head_iff [of h es] lst_in [of h as]
      apply (cases "es = []")
       apply (simp add: nx_def pv_def, elim conjE, simp only: circleq_ops cell_ops, simp cong: if_weak_cong)+
      done
  qed (use assms in \<open>simp_all add: fst_or_def\<close>)
  then show ?thesis
    by simp
qed

lemma circleq_insert_tail:
  assumes "holds m (circleq f h (es) @ free2 f e vs @ R)" "NULL \<notin> {h} \<union> set (e # es) \<and> h \<notin> set (e # es)"
  shows "\<exists>m'. CIRCLEQ_INSERT_TAIL h e f m = Some m' \<and> holds m' (circleq f h (es @ [e]) @ R)"
proof -
  have "\<exists>m'. CIRCLEQ_INSERT_TAIL h e f m = Some m' \<and> holds m' (circleq f h (es @ e # []) @ R)"
  proof (rule circleq_insert [where p = "lst h es" and y = "h"])
    fix C
    assume "C = [(nx f h (lst h es), h), (pv f h (h), lst h es), (e + f, fst vs), (e + (f + 8), snd vs)]"
      "distinct (map fst C)" "\<forall>(p, v) \<in> set C. p \<noteq> NULL \<and> m p = Some v" "lst h es \<noteq> NULL" "h \<noteq> NULL"
      "h \<notin> {e + f, e + (f + 8)}" "h + 8 \<notin> {NULL, e + f, e + (f + 8)}"
      "m h = Some (fst_or h (es @ []))" "m (h + 8) = Some (lst h (es @ []))"
    then show "\<exists>m'. CIRCLEQ_INSERT_TAIL h e f m = Some m' \<and>
      (\<forall>(p, v) \<in> set [(nx f h (lst h es), e), (pv f h (h), e), (e + f, h), (e + (f + 8), lst h es)]. m' p = Some v) \<and>
      (\<forall>p. p \<notin> set (map fst C) \<longrightarrow> m' p = m p)"
      using assms(2) head_iff [of h es] lst_in [of h as]
      apply (cases "es = []")
       apply (simp add: nx_def pv_def, elim conjE, simp only: circleq_ops cell_ops, simp cong: if_weak_cong)+
      done
  qed (use assms in \<open>simp_all add: fst_or_def\<close>)
  then show ?thesis
    by simp
qed

lemma circleq_insert_after:
  assumes "holds m (circleq f h (as @ x # es) @ free2 f e vs @ R)" "NULL \<notin> {h} \<union> set (e # as @ x # es) \<and> h \<notin> set (e # as @ x # es)"
  shows "\<exists>m'. CIRCLEQ_INSERT_AFTER h x e f m = Some m' \<and> holds m' (circleq f h (as @ x # e # es) @ R)"
proof -
  have "\<exists>m'. CIRCLEQ_INSERT_AFTER h x e f m = Some m' \<and> holds m' (circleq f h ((as @ [x]) @ e # es) @ R)"
  proof (rule circleq_insert [where p = "x" and y = "fst_or h es"])
    fix C
    assume "C = [(nx f h (x), fst_or h es), (pv f h (fst_or h es), x), (e + f, fst vs), (e + (f + 8), snd vs)]"
      "distinct (map fst C)" "\<forall>(p, v) \<in> set C. p \<noteq> NULL \<and> m p = Some v" "x \<noteq> NULL" "fst_or h es \<noteq> NULL"
    then show "\<exists>m'. CIRCLEQ_INSERT_AFTER h x e f m = Some m' \<and>
      (\<forall>(p, v) \<in> set [(nx f h (x), e), (pv f h (fst_or h es), e), (e + f, fst_or h es), (e + (f + 8), x)]. m' p = Some v) \<and>
      (\<forall>p. p \<notin> set (map fst C) \<longrightarrow> m' p = m p)"
      using assms(2) head_iff [of h es]
      apply (cases "es = []")
       apply (simp add: nx_def pv_def, elim conjE, simp only: circleq_ops cell_ops, simp cong: if_weak_cong)+
      done
  qed (use assms in \<open>simp_all add: fst_or_def\<close>)
  then show ?thesis
    by simp
qed

lemma circleq_insert_before:
  assumes "holds m (circleq f h (es @ x # bs) @ free2 f e vs @ R)" "NULL \<notin> {h} \<union> set (e # es @ x # bs) \<and> h \<notin> set (e # es @ x # bs)"
  shows "\<exists>m'. CIRCLEQ_INSERT_BEFORE h x e f m = Some m' \<and> holds m' (circleq f h (es @ e # x # bs) @ R)"
proof -
  have "\<exists>m'. CIRCLEQ_INSERT_BEFORE h x e f m = Some m' \<and> holds m' (circleq f h (es @ e # (x # bs)) @ R)"
  proof (rule circleq_insert [where p = "lst h es" and y = "x"])
    fix C
    assume "C = [(nx f h (lst h es), x), (pv f h (x), lst h es), (e + f, fst vs), (e + (f + 8), snd vs)]"
      "distinct (map fst C)" "\<forall>(p, v) \<in> set C. p \<noteq> NULL \<and> m p = Some v" "lst h es \<noteq> NULL" "x \<noteq> NULL"
    then show "\<exists>m'. CIRCLEQ_INSERT_BEFORE h x e f m = Some m' \<and>
      (\<forall>(p, v) \<in> set [(nx f h (lst h es), e), (pv f h (x), e), (e + f, x), (e + (f + 8), lst h es)]. m' p = Some v) \<and>
      (\<forall>p. p \<notin> set (map fst C) \<longrightarrow> m' p = m p)"
      using assms(2) head_iff [of h es]
      apply (cases "es = []")
       apply (simp add: nx_def pv_def, elim conjE, simp only: circleq_ops cell_ops, simp cong: if_weak_cong)+
      done
  qed (use assms in \<open>simp_all add: fst_or_def\<close>)
  then show ?thesis
    by simp
qed

lemma circleq_remove:
  assumes "holds m (circleq f h (as @ x # bs) @ R)" "NULL \<notin> {h} \<union> set (as @ x # bs) \<and> h \<notin> set (as @ x # bs)"
  shows "\<exists>m'. CIRCLEQ_REMOVE h x f m = Some m' \<and> holds m' (circleq f h (as @ bs) @ free2 f x (fst_or h bs, lst h as) @ R)"
proof (rule holds_step [OF assms,
    where C = "[(nx f h (lst h as), x), (pv f h (fst_or h bs), x), (x + f, fst_or h bs), (x + (f + 8), lst h as)]"
    and C' = "[(nx f h (lst h as), fst_or h bs), (pv f h (fst_or h bs), lst h as), (x + f, fst_or h bs), (x + (f + 8), lst h as)]"
    and R = "crest f h as bs @ R"])
  let ?C = "[(nx f h (lst h as), x), (pv f h (fst_or h bs), x), (x + f, fst_or h bs), (x + (f + 8), lst h as)]"
  have "x \<noteq> h"
    using assms(2) by auto
  then have n: "nx f h x = x + f" "pv f h x = x + (f + 8)"
    by (simp_all add: nx_def pv_def)
  show "mset (circleq f h (as @ x # bs) @ R) = mset (?C @ crest f h as bs @ R)"
    using circleq_split_elem [of f h as x bs] n by simp
  show "mset ([(nx f h (lst h as), fst_or h bs), (pv f h (fst_or h bs), lst h as), (x + f, fst_or h bs), (x + (f + 8), lst h as)] @ crest f h as bs @ R)
    = mset (circleq f h (as @ bs) @ free2 f x (fst_or h bs, lst h as) @ R)"
    using circleq_split [of f h as bs] by (simp add: free2_def)
  assume "NULL \<notin> {h} \<union> set (as @ x # bs) \<and> h \<notin> set (as @ x # bs)" "distinct (map fst ?C)" "\<forall>(p, v) \<in> set ?C. p \<noteq> NULL \<and> m p = Some v"
  then show "\<exists>m'. CIRCLEQ_REMOVE h x f m = Some m' \<and>
      (\<forall>(p, v) \<in> set [(nx f h (lst h as), fst_or h bs), (pv f h (fst_or h bs), lst h as), (x + f, fst_or h bs), (x + (f + 8), lst h as)]. m' p = Some v) \<and>
      (\<forall>p. p \<notin> set (map fst ?C) \<longrightarrow> m' p = m p)"
    using head_iff [of h bs] head_iff [of h as] fst_or_in [of h bs] lst_in [of h as]
    by (cases "as = []"; cases "bs = []"; simp add: nx_def pv_def; elim conjE; simp only: circleq_ops cell_ops; auto cong: if_weak_cong)
qed simp

end
