(* ===== verification/Nc_Queue_Session.thy ===== *)
theory Nc_Queue_Session
  imports Nc_Queue_Correct
begin

text \<open>
  The interface that the five families of macros share, over two queues and a stock of elements that
  are in neither, with the list operation each macro stands for. A client of the interface (any
  sequence of operations) is verified once, in the locale, and holds for every family by the
  interpretation on the models of the macros.
\<close>

subsection \<open>Operations and their meaning on lists\<close>

datatype queue_op =
    Ins_Head bool addr | Ins_Tail bool addr | Ins_After bool addr addr | Ins_Before bool addr addr
  | Rem bool addr | Rem_Head bool | Concat bool | Swap

text \<open>The contents of the queues and the elements outside.\<close>

type_synonym queues = "(bool \<Rightarrow> addr list) \<times> addr list"

fun ins_after :: "addr \<Rightarrow> addr \<Rightarrow> addr list \<Rightarrow> addr list" where
  "ins_after x e [] = []"
| "ins_after x e (y # ys) = (if y = x then y # e # ys else y # ins_after x e ys)"

fun ins_before :: "addr \<Rightarrow> addr \<Rightarrow> addr list \<Rightarrow> addr list" where
  "ins_before x e [] = []"
| "ins_before x e (y # ys) = (if y = x then e # y # ys else y # ins_before x e ys)"

definition move_in :: "addr \<Rightarrow> bool \<Rightarrow> (addr list \<Rightarrow> addr list) \<Rightarrow> queues \<Rightarrow> queues option" where
  "move_in e b g s = (case s of (q, ls) \<Rightarrow> if e \<in> set ls then Some (q(b := g (q b)), remove1 e ls) else None)"

fun list_step :: "queue_op \<Rightarrow> queues \<Rightarrow> queues option" where
  "list_step (Ins_Head b e) s = move_in e b (\<lambda>es. e # es) s"
| "list_step (Ins_Tail b e) s = move_in e b (\<lambda>es. es @ [e]) s"
| "list_step (Ins_After b x e) s = (if x \<in> set (fst s b) then move_in e b (ins_after x e) s else None)"
| "list_step (Ins_Before b x e) s = (if x \<in> set (fst s b) then move_in e b (ins_before x e) s else None)"
| "list_step (Rem b x) (q, ls) = (if x \<in> set (q b) then Some (q(b := remove1 x (q b)), x # ls) else None)"
| "list_step (Rem_Head b) (q, ls) = (if q b \<noteq> [] then Some (q(b := tl (q b)), hd (q b) # ls) else None)"
| "list_step (Concat b) (q, ls) = Some (q(b := q b @ q (\<not> b), \<not> b := []), ls)"
| "list_step Swap (q, ls) = Some (\<lambda>b. q (\<not> b), ls)"

fun list_run :: "queue_op list \<Rightarrow> queues \<Rightarrow> queues option" where
  "list_run [] s = Some s"
| "list_run (c # cs) s = Option.bind (list_step c s) (list_run cs)"

lemma ins_after_split: "x \<notin> set as \<Longrightarrow> ins_after x e (as @ x # bs) = as @ x # e # bs"
  by (induction as) auto

lemma ins_before_split: "x \<notin> set as \<Longrightarrow> ins_before x e (as @ x # bs) = as @ e # x # bs"
  by (induction as) auto

subsection \<open>The interface\<close>

text \<open>Heads and elements are not null, and no element is the head of its queue.\<close>

definition sound :: "addr \<Rightarrow> addr list \<Rightarrow> bool" where
  "sound h es \<longleftrightarrow> NULL \<notin> {h} \<union> set es \<and> h \<notin> set es"

type_synonym footprint = "(addr \<times> addr) list"

text \<open>
  The two queues, with a footprint \<open>Q\<close> each, the elements outside with their links (\<open>F\<close>, whatever these
  contain), and any further cells \<open>R\<close>.
\<close>

definition loose :: "(addr \<Rightarrow> addr \<times> addr \<Rightarrow> footprint) \<Rightarrow> (addr \<times> addr \<times> addr) list \<Rightarrow> footprint" where
  "loose F lw = concat (map (\<lambda>(e, vs). F e vs) lw)"

lemma loose_simps [simp]: "loose F [] = []" "loose F ((e, vs) # lw) = F e vs @ loose F lw" "loose F (xs @ ys) = loose F xs @ loose F ys"
  by (simp_all add: loose_def)

definition world :: "(addr \<Rightarrow> addr list \<Rightarrow> footprint) \<Rightarrow> (addr \<Rightarrow> addr \<times> addr \<Rightarrow> footprint) \<Rightarrow> (bool \<Rightarrow> addr) \<Rightarrow> queues \<Rightarrow> footprint \<Rightarrow> cells \<Rightarrow> bool" where
  "world Q F h s R m \<longleftrightarrow> (\<exists>lw. map fst lw = snd s \<and> holds m (Q (h True) (fst s True) @ Q (h False) (fst s False) @ loose F lw @ R)) \<and>
     (\<forall>b. NULL \<noteq> h b \<and> h b \<notin> set (fst s True) \<union> set (fst s False) \<union> set (snd s)) \<and>
     NULL \<notin> set (fst s True) \<union> set (fst s False) \<union> set (snd s)"

fun ops_run :: "(queue_op \<Rightarrow> cells \<Rightarrow> cells option) \<Rightarrow> queue_op list \<Rightarrow> cells \<Rightarrow> cells option" where
  "ops_run ex [] m = Some m"
| "ops_run ex (c # cs) m = Option.bind (ex c m) (ops_run ex cs)"

locale queue_family =
  fixes Q :: "addr \<Rightarrow> addr list \<Rightarrow> footprint" and F :: "addr \<Rightarrow> addr \<times> addr \<Rightarrow> footprint"
    and has :: "queue_op \<Rightarrow> bool" and exec :: "(bool \<Rightarrow> addr) \<Rightarrow> queue_op \<Rightarrow> cells \<Rightarrow> cells option"
  assumes ins_head: "has (Ins_Head b e) \<Longrightarrow> holds m (Q (h b) es @ F e vs @ R) \<Longrightarrow> sound (h b) (e # es) \<Longrightarrow>
      \<exists>m'. exec h (Ins_Head b e) m = Some m' \<and> holds m' (Q (h b) (e # es) @ R)"
    and ins_tail: "has (Ins_Tail b e) \<Longrightarrow> holds m (Q (h b) es @ F e vs @ R) \<Longrightarrow> sound (h b) (e # es) \<Longrightarrow>
      \<exists>m'. exec h (Ins_Tail b e) m = Some m' \<and> holds m' (Q (h b) (es @ [e]) @ R)"
    and ins_after: "has (Ins_After b x e) \<Longrightarrow> holds m (Q (h b) (as @ x # bs) @ F e vs @ R) \<Longrightarrow> sound (h b) (e # as @ x # bs) \<Longrightarrow>
      \<exists>m'. exec h (Ins_After b x e) m = Some m' \<and> holds m' (Q (h b) (as @ x # e # bs) @ R)"
    and ins_before: "has (Ins_Before b x e) \<Longrightarrow> holds m (Q (h b) (as @ x # bs) @ F e vs @ R) \<Longrightarrow> sound (h b) (e # as @ x # bs) \<Longrightarrow>
      \<exists>m'. exec h (Ins_Before b x e) m = Some m' \<and> holds m' (Q (h b) (as @ e # x # bs) @ R)"
    and rem: "has (Rem b x) \<Longrightarrow> holds m (Q (h b) (as @ x # bs) @ R) \<Longrightarrow> sound (h b) (as @ x # bs) \<Longrightarrow> x \<notin> set as \<Longrightarrow>
      \<exists>m' vs. exec h (Rem b x) m = Some m' \<and> holds m' (Q (h b) (as @ bs) @ F x vs @ R)"
    and rem_head: "has (Rem_Head b) \<Longrightarrow> holds m (Q (h b) (x # bs) @ R) \<Longrightarrow> sound (h b) (x # bs) \<Longrightarrow>
      \<exists>m' vs. exec h (Rem_Head b) m = Some m' \<and> holds m' (Q (h b) bs @ F x vs @ R)"
    and concat_ok: "has (Concat b) \<Longrightarrow> holds m (Q (h b) xs @ Q (h (\<not> b)) ys @ R) \<Longrightarrow> sound (h b) (xs @ ys) \<Longrightarrow> h (\<not> b) \<noteq> NULL \<Longrightarrow>
      \<exists>m'. exec h (Concat b) m = Some m' \<and> holds m' (Q (h b) (xs @ ys) @ Q (h (\<not> b)) [] @ R)"
    and swap: "has Swap \<Longrightarrow> holds m (Q (h True) xs @ Q (h False) ys @ R) \<Longrightarrow> sound (h True) (xs @ ys) \<Longrightarrow> h False \<noteq> NULL \<Longrightarrow>
      \<exists>m'. exec h Swap m = Some m' \<and> holds m' (Q (h True) ys @ Q (h False) xs @ R)"
begin

lemma worldE:
  assumes "world Q F h (q, ls) R m"
  obtains lw where "map fst lw = ls" "holds m (Q (h b) (q b) @ Q (h (\<not> b)) (q (\<not> b)) @ loose F lw @ R)"
    "\<And>c. h c \<noteq> NULL" "\<And>c d. h c \<notin> set (q d)" "\<And>c. h c \<notin> set ls" "\<And>d. NULL \<notin> set (q d)" "NULL \<notin> set ls"
proof -
  obtain lw where lw: "map fst lw = ls" "holds m (Q (h True) (q True) @ Q (h False) (q False) @ loose F lw @ R)"
    using assms by (auto simp: world_def)
  have "holds m (Q (h b) (q b) @ Q (h (\<not> b)) (q (\<not> b)) @ loose F lw @ R)"
    by (rule holds_perm [OF lw(2)]) (cases b; simp)
  moreover have "h c \<notin> set (q d)" "NULL \<notin> set (q d)" for c d
    using assms by (cases d; auto simp: world_def)+
  ultimately show thesis
    using that [OF lw(1)] assms by (auto simp: world_def)
qed

lemma worldI:
  assumes "holds m (Q (h b) (q b) @ Q (h (\<not> b)) (q (\<not> b)) @ loose F lw @ R)" "map fst lw = ls"
    "\<And>c. h c \<noteq> NULL" "\<And>c d. h c \<notin> set (q d)" "\<And>c. h c \<notin> set ls" "\<And>d. NULL \<notin> set (q d)" "NULL \<notin> set ls"
  shows "world Q F h (q, ls) R m"
proof -
  have "holds m (Q (h True) (q True) @ Q (h False) (q False) @ loose F lw @ R)"
    by (rule holds_perm [OF assms(1)]) (cases b; simp)
  then show ?thesis
    using assms(2-) by (auto simp: world_def)
qed

text \<open>An insertion takes an element from outside.\<close>

lemma move_in_ok:
  assumes "world Q F h (q, ls) R m" "move_in e b g (q, ls) = Some (q', ls')" "set (g (q b)) \<subseteq> insert e (set (q b))"
    and run: "\<And>vs R. holds m (Q (h b) (q b) @ F e vs @ R) \<Longrightarrow> sound (h b) (e # q b) \<Longrightarrow>
      \<exists>m'. r = Some m' \<and> holds m' (Q (h b) (g (q b)) @ R)"
  shows "\<exists>m'. r = Some m' \<and> world Q F h (q', ls') R m'"
proof -
  obtain lw where W: "map fst lw = ls" "holds m (Q (h b) (q b) @ Q (h (\<not> b)) (q (\<not> b)) @ loose F lw @ R)"
    "\<And>c. h c \<noteq> NULL" "\<And>c d. h c \<notin> set (q d)" "\<And>c. h c \<notin> set ls" "\<And>d. NULL \<notin> set (q d)" "NULL \<notin> set ls"
    by (rule worldE [OF assms(1), of b]) blast
  have e: "e \<in> set ls" "q' = q(b := g (q b))" "ls' = remove1 e ls"
    using assms(2) by (auto simp: move_in_def split: if_splits)
  obtain us vs where s: "ls = us @ e # vs" "e \<notin> set us"
    using split_list_first [OF e(1)] by blast
  then obtain uw w vw where lw: "lw = uw @ (e, w) # vw" "map fst uw = us" "map fst vw = vs"
    using W(1) by (auto simp: map_eq_append_conv map_eq_Cons_conv)
  have "holds m (Q (h b) (q b) @ F e w @ (Q (h (\<not> b)) (q (\<not> b)) @ loose F (uw @ vw) @ R))"
    by (rule holds_perm [OF W(2)]) (simp add: lw(1))
  moreover have "sound (h b) (e # q b)"
    using W(3-7) e(1) by (auto simp: sound_def)
  ultimately obtain m' where m': "r = Some m'" "holds m' (Q (h b) (g (q b)) @ Q (h (\<not> b)) (q (\<not> b)) @ loose F (uw @ vw) @ R)"
    using run by blast
  have l: "map fst (uw @ vw) = ls'" "set ls' \<subseteq> set ls"
    using e(3) s lw by (auto simp: remove1_append)
  have "world Q F h (q', ls') R m'"
  proof (rule worldI [where b = b])
    show "holds m' (Q (h b) (q' b) @ Q (h (\<not> b)) (q' (\<not> b)) @ loose F (uw @ vw) @ R)"
      using m'(2) e(2) by simp
    have "set (q' d) \<subseteq> insert e (set (q d))" for d
      using assms(3) e(2) by (cases "d = b") auto
    moreover have "h c \<noteq> e" "NULL \<noteq> e" for c
      using W(5) [of c] W(7) e(1) by auto
    ultimately show "h c \<notin> set (q' d)" "NULL \<notin> set (q' d)" for c d
      using W(4) [of c d] W(6) [of d] by blast+
    show "h c \<notin> set ls'" "NULL \<notin> set ls'" for c
      using W(5) [of c] W(7) l(2) by blast+
  qed (use W(3) l(1) in simp_all)
  then show ?thesis
    using m'(1) by blast
qed

text \<open>A removal puts one outside.\<close>

lemma move_out_ok:
  assumes "world Q F h (q, ls) R m" "q b = as @ x # bs"
    and run: "\<And>R. holds m (Q (h b) (as @ x # bs) @ R) \<Longrightarrow> sound (h b) (as @ x # bs) \<Longrightarrow>
      \<exists>m' vs. r = Some m' \<and> holds m' (Q (h b) (as @ bs) @ F x vs @ R)"
  shows "\<exists>m'. r = Some m' \<and> world Q F h (q(b := as @ bs), x # ls) R m'"
proof -
  obtain lw where W: "map fst lw = ls" "holds m (Q (h b) (q b) @ Q (h (\<not> b)) (q (\<not> b)) @ loose F lw @ R)"
    "\<And>c. h c \<noteq> NULL" "\<And>c d. h c \<notin> set (q d)" "\<And>c. h c \<notin> set ls" "\<And>d. NULL \<notin> set (q d)" "NULL \<notin> set ls"
    by (rule worldE [OF assms(1), of b]) blast
  have "sound (h b) (as @ x # bs)"
    using W(3) W(4) [of b b] W(6) [of b] assms(2) by (auto simp: sound_def)
  then obtain m' vs where m': "r = Some m'" "holds m' (Q (h b) (as @ bs) @ F x vs @ Q (h (\<not> b)) (q (\<not> b)) @ loose F lw @ R)"
    using run W(2) assms(2) by fastforce
  have "world Q F h (q(b := as @ bs), x # ls) R m'"
  proof (rule worldI [where b = b])
    show "holds m' (Q (h b) ((q(b := as @ bs)) b) @ Q (h (\<not> b)) ((q(b := as @ bs)) (\<not> b)) @ loose F ((x, vs) # lw) @ R)"
      by (rule holds_perm [OF m'(2)]) simp
    show "h c \<notin> set ((q(b := as @ bs)) d)" "NULL \<notin> set ((q(b := as @ bs)) d)" for c d
      using W(4) [of c d] W(6) [of d] assms(2) by auto
    show "h c \<notin> set (x # ls)" "NULL \<notin> set (x # ls)" for c
      using W(4) [of c b] W(5) [of c] W(6) [of b] W(7) assms(2) by auto
  qed (use W(1,3) in simp_all)
  then show ?thesis
    using m'(1) by blast
qed

text \<open>Concatenation leaves the second queue empty; a swap exchanges the two.\<close>

lemma concat_world:
  assumes "world Q F h (q, ls) R m" "has (Concat b)"
  shows "\<exists>m'. exec h (Concat b) m = Some m' \<and> world Q F h (q(b := q b @ q (\<not> b), \<not> b := []), ls) R m'"
proof -
  obtain lw where W: "map fst lw = ls" "holds m (Q (h b) (q b) @ Q (h (\<not> b)) (q (\<not> b)) @ loose F lw @ R)"
    "\<And>c. h c \<noteq> NULL" "\<And>c d. h c \<notin> set (q d)" "\<And>c. h c \<notin> set ls" "\<And>d. NULL \<notin> set (q d)" "NULL \<notin> set ls"
    by (rule worldE [OF assms(1), of b]) blast
  have "sound (h b) (q b @ q (\<not> b))"
    using W(3) [of b] W(4) [of b b] W(4) [of b "\<not> b"] W(6) [of b] W(6) [of "\<not> b"] by (simp add: sound_def)
  then obtain m' where m': "exec h (Concat b) m = Some m'" "holds m' (Q (h b) (q b @ q (\<not> b)) @ Q (h (\<not> b)) [] @ loose F lw @ R)"
    using concat_ok [OF _ W(2)] assms(2) W(3) by blast
  have "world Q F h (q(b := q b @ q (\<not> b), \<not> b := []), ls) R m'" (is "world Q F h (?q, ls) R m'")
  proof (rule worldI [where b = b])
    show "holds m' (Q (h b) (?q b) @ Q (h (\<not> b)) (?q (\<not> b)) @ loose F lw @ R)"
      using m'(2) by simp
    show "h c \<notin> set (?q d)" "NULL \<notin> set (?q d)" for c d
      using W(4) [of c d] W(4) [of c b] W(4) [of c "\<not> b"] W(6) [of d] W(6) [of b] W(6) [of "\<not> b"] by simp_all
  qed (use W(1,3,5,7) in simp_all)
  then show ?thesis
    using m'(1) by blast
qed

lemma swap_world:
  assumes "world Q F h (q, ls) R m" "has Swap"
  shows "\<exists>m'. exec h Swap m = Some m' \<and> world Q F h (\<lambda>b. q (\<not> b), ls) R m'"
proof -
  obtain lw where W: "map fst lw = ls" "holds m (Q (h True) (q True) @ Q (h (\<not> True)) (q (\<not> True)) @ loose F lw @ R)"
    "\<And>c. h c \<noteq> NULL" "\<And>c d. h c \<notin> set (q d)" "\<And>c. h c \<notin> set ls" "\<And>d. NULL \<notin> set (q d)" "NULL \<notin> set ls"
    by (rule worldE [OF assms(1), of True]) blast
  have "sound (h True) (q True @ q False)"
    using W(3) [of True] W(4) [of True] W(6) by (simp add: sound_def)
  then obtain m' where m': "exec h Swap m = Some m'" "holds m' (Q (h True) (q False) @ Q (h False) (q True) @ loose F lw @ R)"
    using swap [of m h "q True" "q False" "loose F lw @ R"] W(2,3) assms(2) by auto
  have "world Q F h (\<lambda>b. q (\<not> b), ls) R m'"
    by (rule worldI [where b = True and lw = lw]) (use m'(2) W in simp_all)
  then show ?thesis
    using m'(1) by blast
qed

lemma world_step:
  assumes "world Q F h (q, ls) R m" "has c" "list_step c (q, ls) = Some (q', ls')"
  shows "\<exists>m'. exec h c m = Some m' \<and> world Q F h (q', ls') R m'"
proof (cases c)
  case (Ins_Head b e)
  show ?thesis
    by (rule move_in_ok [OF assms(1), where e = e and b = b and g = "\<lambda>es. e # es"])
      (use assms(2,3) Ins_Head ins_head in auto)
next
  case (Ins_Tail b e)
  show ?thesis
    by (rule move_in_ok [OF assms(1), where e = e and b = b and g = "\<lambda>es. es @ [e]"])
      (use assms(2,3) Ins_Tail ins_tail in auto)
next
  case (Ins_After b x e)
  then have "x \<in> set (q b)" "move_in e b (ins_after x e) (q, ls) = Some (q', ls')"
    using assms(3) by (auto split: if_splits)
  note mv = this(2)
  obtain as bs where s: "q b = as @ x # bs" "x \<notin> set as"
    using split_list_first [OF \<open>x \<in> set (q b)\<close>] by blast
  show ?thesis
    by (rule move_in_ok [OF assms(1) mv])
      (use ins_after [of b x e] assms(2) s Ins_After in \<open>auto simp: ins_after_split\<close>)
next
  case (Ins_Before b x e)
  then have "x \<in> set (q b)" "move_in e b (ins_before x e) (q, ls) = Some (q', ls')"
    using assms(3) by (auto split: if_splits)
  note mv = this(2)
  obtain as bs where s: "q b = as @ x # bs" "x \<notin> set as"
    using split_list_first [OF \<open>x \<in> set (q b)\<close>] by blast
  show ?thesis
    by (rule move_in_ok [OF assms(1) mv])
      (use ins_before [of b x e] assms(2) s Ins_Before in \<open>auto simp: ins_before_split\<close>)
next
  case (Rem b x)
  then have x: "x \<in> set (q b)" "q' = q(b := remove1 x (q b))" "ls' = x # ls"
    using assms(3) by (auto split: if_splits)
  obtain as bs where s: "q b = as @ x # bs" "x \<notin> set as"
    using split_list_first [OF x(1)] by blast
  have "\<exists>m'. exec h c m = Some m' \<and> world Q F h (q(b := as @ bs), x # ls) R m'"
    by (rule move_out_ok [OF assms(1) s(1)]) (use rem [of b x] assms(2) s(2) Rem in auto)
  then show ?thesis
    using x s by (simp add: remove1_append)
next
  case (Rem_Head b)
  then obtain x bs where s: "q b = [] @ x # bs" "q' = q(b := bs)" "ls' = x # ls"
    using assms(3) by (cases "q b") auto
  have "\<exists>m'. exec h c m = Some m' \<and> world Q F h (q(b := [] @ bs), x # ls) R m'"
    by (rule move_out_ok [OF assms(1) s(1)]) (use rem_head [of b] assms(2) Rem_Head in auto)
  then show ?thesis
    using s by simp
next
  case (Concat b)
  then show ?thesis
    using concat_world [OF assms(1), of b] assms(2,3) by simp
next
  case Swap
  then show ?thesis
    using swap_world [OF assms(1)] assms(2,3) by simp
qed

lemma world_run:
  assumes "world Q F h s R m" "list_all has cs" "list_run cs s = Some s'"
  shows "\<exists>m'. ops_run (exec h) cs m = Some m' \<and> world Q F h s' R m'"
  using assms
proof (induction cs arbitrary: s m)
  case (Cons c cs)
  obtain q ls q1 ls1 where s: "s = (q, ls)" "list_step c s = Some (q1, ls1)" "list_run cs (q1, ls1) = Some s'"
    using Cons(4) by (cases s) (auto simp: bind_eq_Some_conv)
  obtain m1 where m1: "exec h c m = Some m1" "world Q F h (q1, ls1) R m1"
    using world_step [of h q ls R m c q1 ls1] Cons(2,3) s(1,2) by auto
  obtain m' where "ops_run (exec h) cs m1 = Some m'" "world Q F h s' R m'"
    using Cons(1) [OF m1(2) _ s(3)] Cons(3) by auto
  then show ?case
    using m1(1) by simp
qed simp

end

end
