(* ===== verification/Nc_Queue_Claims.thy ===== *)
theory Nc_Queue_Claims
  imports Nc_Queue_Session
begin

text \<open>
  The five families of macros as instances of the interface of \<open>Nc_Queue_Session\<close>, and the properties of
  \<open>nc_sys_queue.h\<close>: sessions on two queues, traversals, and the removal of elements during a traversal.
\<close>

subsection \<open>The families\<close>

datatype queue_kind = Slist | Stailq | Dlist | Tailq | Circleq

fun queue_cells :: "queue_kind \<Rightarrow> addr \<Rightarrow> addr \<Rightarrow> addr list \<Rightarrow> footprint" where
  "queue_cells Slist f h es = slist f h es"
| "queue_cells Stailq f h es = stailq f h es"
| "queue_cells Dlist f h es = dlist f h es"
| "queue_cells Tailq f h es = tailq f h es"
| "queue_cells Circleq f h es = circleq f h es"

text \<open>The links of an element, and the members of a head, with any contents.\<close>

definition free_cells :: "queue_kind \<Rightarrow> addr \<Rightarrow> addr \<Rightarrow> addr \<times> addr \<Rightarrow> footprint" where
  "free_cells k f e vs = (if k \<in> {Slist, Stailq} then free1 f e (fst vs) else free2 f e vs)"

definition head_cells :: "queue_kind \<Rightarrow> addr \<Rightarrow> addr \<times> addr \<Rightarrow> footprint" where
  "head_cells k h vs = (if k \<in> {Slist, Dlist} then [(h, fst vs)] else [(h, fst vs), (h + 8, snd vs)])"

text \<open>Which operations a family provides.\<close>

fun provides :: "queue_kind \<Rightarrow> queue_op \<Rightarrow> bool" where
  "provides k (Ins_Head b e) = True"
| "provides k (Ins_Tail b e) = (k \<in> {Stailq, Tailq, Circleq})"
| "provides k (Ins_After b x e) = True"
| "provides k (Ins_Before b x e) = (k \<in> {Dlist, Tailq, Circleq})"
| "provides k (Rem b x) = True"
| "provides k (Rem_Head b) = (k \<in> {Slist, Stailq})"
| "provides k (Concat b) = (k \<in> {Stailq, Tailq})"
| "provides k Swap = (k \<in> {Stailq, Dlist, Tailq})"

fun queue_init :: "queue_kind \<Rightarrow> addr \<Rightarrow> cells \<Rightarrow> cells option" where
  "queue_init Slist h m = SLIST_INIT h m"
| "queue_init Stailq h m = STAILQ_INIT h m"
| "queue_init Dlist h m = LIST_INIT h m"
| "queue_init Tailq h m = TAILQ_INIT h m"
| "queue_init Circleq h m = CIRCLEQ_INIT h m"

fun queue_exec :: "queue_kind \<Rightarrow> bool \<Rightarrow> addr \<Rightarrow> (bool \<Rightarrow> addr) \<Rightarrow> queue_op \<Rightarrow> cells \<Rightarrow> cells option" where
  "queue_exec Slist pa f h (Ins_Head b e) m = SLIST_INSERT_HEAD (h b) e f m"
| "queue_exec Slist pa f h (Ins_After b x e) m = SLIST_INSERT_AFTER x e f m"
| "queue_exec Slist pa f h (Rem b x) m = SLIST_REMOVE (h b) x f m"
| "queue_exec Slist pa f h (Rem_Head b) m = SLIST_REMOVE_HEAD (h b) f m"
| "queue_exec Stailq pa f h (Ins_Head b e) m = STAILQ_INSERT_HEAD (h b) e f m"
| "queue_exec Stailq pa f h (Ins_Tail b e) m = STAILQ_INSERT_TAIL (h b) e f m"
| "queue_exec Stailq pa f h (Ins_After b x e) m = STAILQ_INSERT_AFTER (h b) x e f m"
| "queue_exec Stailq pa f h (Rem b x) m = STAILQ_REMOVE (h b) x f m"
| "queue_exec Stailq pa f h (Rem_Head b) m = STAILQ_REMOVE_HEAD (h b) f m"
| "queue_exec Stailq pa f h (Concat b) m = STAILQ_CONCAT (h b) (h (\<not> b)) m"
| "queue_exec Stailq pa f h Swap m = STAILQ_SWAP (h True) (h False) m"
| "queue_exec Dlist pa f h (Ins_Head b e) m = LIST_INSERT_HEAD pa (h b) e f m"
| "queue_exec Dlist pa f h (Ins_After b x e) m = LIST_INSERT_AFTER pa x e f m"
| "queue_exec Dlist pa f h (Ins_Before b x e) m = LIST_INSERT_BEFORE pa x e f m"
| "queue_exec Dlist pa f h (Rem b x) m = LIST_REMOVE pa x f m"
| "queue_exec Dlist pa f h Swap m = LIST_SWAP (h True) (h False) f m"
| "queue_exec Tailq pa f h (Ins_Head b e) m = TAILQ_INSERT_HEAD pa (h b) e f m"
| "queue_exec Tailq pa f h (Ins_Tail b e) m = TAILQ_INSERT_TAIL pa (h b) e f m"
| "queue_exec Tailq pa f h (Ins_After b x e) m = TAILQ_INSERT_AFTER pa (h b) x e f m"
| "queue_exec Tailq pa f h (Ins_Before b x e) m = TAILQ_INSERT_BEFORE pa x e f m"
| "queue_exec Tailq pa f h (Rem b x) m = TAILQ_REMOVE pa (h b) x f m"
| "queue_exec Tailq pa f h (Concat b) m = TAILQ_CONCAT (h b) (h (\<not> b)) f m"
| "queue_exec Tailq pa f h Swap m = TAILQ_SWAP (h True) (h False) f m"
| "queue_exec Circleq pa f h (Ins_Head b e) m = CIRCLEQ_INSERT_HEAD (h b) e f m"
| "queue_exec Circleq pa f h (Ins_Tail b e) m = CIRCLEQ_INSERT_TAIL (h b) e f m"
| "queue_exec Circleq pa f h (Ins_After b x e) m = CIRCLEQ_INSERT_AFTER (h b) x e f m"
| "queue_exec Circleq pa f h (Ins_Before b x e) m = CIRCLEQ_INSERT_BEFORE (h b) x e f m"
| "queue_exec Circleq pa f h (Rem b x) m = CIRCLEQ_REMOVE (h b) x f m"
| "queue_exec k pa f h c m = None"

lemma queue_init_ok:
  assumes "holds m (head_cells k h vs @ R)" "h \<noteq> NULL"
  shows "\<exists>m'. queue_init k h m = Some m' \<and> holds m' (queue_cells k f h [] @ R)"
  using assms slist_init [of m h "fst vs" R f] stailq_init [of m h "fst vs" "snd vs" R f] dlist_init [of m h "fst vs" R f]
    tailq_init [of m h "fst vs" "snd vs" R f] circleq_init [of m h "fst vs" "snd vs" R f]
  by (cases k) (simp_all add: head_cells_def)

interpretation qf: queue_family "queue_cells k f" "free_cells k f" "provides k" "queue_exec k pa f" for k pa f
proof unfold_locales
  fix h :: "bool \<Rightarrow> addr" and b e m es vs R
  assume a: "holds m (queue_cells k f (h b) es @ free_cells k f e vs @ R)" "sound (h b) (e # es)"
  show "\<exists>m'. queue_exec k pa f h (Ins_Head b e) m = Some m' \<and> holds m' (queue_cells k f (h b) (e # es) @ R)"
    using a slist_insert_head [of m f "h b" es e "fst vs" R] stailq_insert_head [of m f "h b" es e "fst vs" R]
      dlist_insert_head [of m f "h b" es e vs R pa] tailq_insert_head [of m f "h b" es e vs R pa] circleq_insert_head [of m f "h b" es e vs R]
    by (cases k) (simp_all add: free_cells_def sound_def)
  show "\<exists>m'. queue_exec k pa f h (Ins_Tail b e) m = Some m' \<and> holds m' (queue_cells k f (h b) (es @ [e]) @ R)" if "provides k (Ins_Tail b e)"
    using that a stailq_insert_tail [of m f "h b" es e "fst vs" R] tailq_insert_tail [of m f "h b" es e vs R pa] circleq_insert_tail [of m f "h b" es e vs R]
    by (cases k) (simp_all add: free_cells_def sound_def)
next
  fix h :: "bool \<Rightarrow> addr" and b x e m as bs vs R
  assume a: "holds m (queue_cells k f (h b) (as @ x # bs) @ free_cells k f e vs @ R)" "sound (h b) (e # as @ x # bs)"
  show "\<exists>m'. queue_exec k pa f h (Ins_After b x e) m = Some m' \<and> holds m' (queue_cells k f (h b) (as @ x # e # bs) @ R)"
    using a slist_insert_after [of m f "h b" as x bs e "fst vs" R] stailq_insert_after [of m f "h b" as x bs e "fst vs" R]
      dlist_insert_after [of m f "h b" as x bs e vs R pa] tailq_insert_after [of m f "h b" as x bs e vs R pa] circleq_insert_after [of m f "h b" as x bs e vs R]
    by (cases k) (simp_all add: free_cells_def sound_def)
  show "\<exists>m'. queue_exec k pa f h (Ins_Before b x e) m = Some m' \<and> holds m' (queue_cells k f (h b) (as @ e # x # bs) @ R)" if "provides k (Ins_Before b x e)"
    using that a dlist_insert_before [of m f "h b" as x bs e vs R pa] tailq_insert_before [of m f "h b" as x bs e vs R pa] circleq_insert_before [of m f "h b" as x bs e vs R]
    by (cases k) (simp_all add: free_cells_def sound_def)
next
  fix h :: "bool \<Rightarrow> addr" and b x m as bs R
  assume a: "holds m (queue_cells k f (h b) (as @ x # bs) @ R)" "sound (h b) (as @ x # bs)" "x \<notin> set as"
  show "\<exists>m' vs. queue_exec k pa f h (Rem b x) m = Some m' \<and> holds m' (queue_cells k f (h b) (as @ bs) @ free_cells k f x vs @ R)"
    using a slist_remove [of m f "h b" as x bs R] stailq_remove [of m f "h b" as x bs R] dlist_remove [of m f "h b" as x bs R pa]
      tailq_remove [of m f "h b" as x bs R pa] circleq_remove [of m f "h b" as x bs R]
    by (cases k) (auto simp: free_cells_def sound_def)
next
  fix h :: "bool \<Rightarrow> addr" and b x m bs R
  assume a: "provides k (Rem_Head b)" "holds m (queue_cells k f (h b) (x # bs) @ R)" "sound (h b) (x # bs)"
  show "\<exists>m' vs. queue_exec k pa f h (Rem_Head b) m = Some m' \<and> holds m' (queue_cells k f (h b) bs @ free_cells k f x vs @ R)"
    using a slist_remove_head [of m f "h b" x bs R] stailq_remove_head [of m f "h b" x bs R]
    by (cases k) (auto simp: free_cells_def sound_def)
next
  fix h :: "bool \<Rightarrow> addr" and b m xs ys R
  assume a: "provides k (Concat b)" "holds m (queue_cells k f (h b) xs @ queue_cells k f (h (\<not> b)) ys @ R)" "sound (h b) (xs @ ys)" "h (\<not> b) \<noteq> NULL"
  show "\<exists>m'. queue_exec k pa f h (Concat b) m = Some m' \<and> holds m' (queue_cells k f (h b) (xs @ ys) @ queue_cells k f (h (\<not> b)) [] @ R)"
    using a stailq_concat [of m f "h b" xs "h (\<not> b)" ys R] tailq_concat [of m f "h b" xs "h (\<not> b)" ys R]
    by (cases k) (simp_all add: sound_def)
next
  fix h :: "bool \<Rightarrow> addr" and m xs ys R
  assume a: "provides k Swap" "holds m (queue_cells k f (h True) xs @ queue_cells k f (h False) ys @ R)" "sound (h True) (xs @ ys)" "h False \<noteq> NULL"
  show "\<exists>m'. queue_exec k pa f h Swap m = Some m' \<and> holds m' (queue_cells k f (h True) ys @ queue_cells k f (h False) xs @ R)"
    using a stailq_swap [of m f "h True" xs "h False" ys R] dlist_swap [of m f "h True" xs "h False" ys R] tailq_swap [of m f "h True" xs "h False" ys R]
    by (cases k) (simp_all add: sound_def)
qed

subsection \<open>Sessions\<close>

text \<open>
  (C8) Every family of macros, with the integrity checks compiled in or not: initialise
  two heads and run any sequence of the operations the family provides that makes sense on lists
  (what is inserted is in no queue, reference elements are in theirs). The macros run to their end,
  no check panics, and the cells are those of the two lists that the list operations yield; elements
  outside keep their (unspecified) links, and no other cell changes.
\<close>

theorem queue_session_ok:
  assumes "holds m (head_cells k (h True) v @ head_cells k (h False) w @ loose (free_cells k f) lw @ R)"
    and "NULL \<notin> {h True, h False} \<union> set (map fst lw)" "{h True, h False} \<inter> set (map fst lw) = {}"
    and "list_all (provides k) ops" "list_run ops (\<lambda>_. [], map fst lw) = Some s"
  shows "\<exists>m'. do { m \<leftarrow> queue_init k (h True) m; m \<leftarrow> queue_init k (h False) m; ops_run (queue_exec k pa f h) ops m } = Some m' \<and>
    world (queue_cells k f) (free_cells k f) h s R m'"
proof -
  obtain m1 where m1: "queue_init k (h True) m = Some m1"
    "holds m1 (queue_cells k f (h True) [] @ head_cells k (h False) w @ loose (free_cells k f) lw @ R)"
    using queue_init_ok [OF assms(1), of f] assms(2) by auto
  have "holds m1 (head_cells k (h False) w @ queue_cells k f (h True) [] @ loose (free_cells k f) lw @ R)"
    by (rule holds_perm [OF m1(2)]) simp
  from queue_init_ok [OF this, of f] obtain m2 where m2: "queue_init k (h False) m1 = Some m2"
    "holds m2 (queue_cells k f (h False) [] @ queue_cells k f (h True) [] @ loose (free_cells k f) lw @ R)"
    using assms(2) by auto
  have "world (queue_cells k f) (free_cells k f) h (\<lambda>_. [], map fst lw) R m2"
  proof (rule qf.worldI [where b = False])
    show "holds m2 (queue_cells k f (h False) ((\<lambda>_. []) False) @ queue_cells k f (h (\<not> False)) ((\<lambda>_. []) (\<not> False)) @ loose (free_cells k f) lw @ R)"
      using m2(2) by simp
    show "h c \<noteq> NULL" "h c \<notin> set (map fst lw)" for c
      using assms(2,3) by (cases c; auto)+
  qed (use assms(2) in simp_all)
  from qf.world_run [OF this assms(4,5)] show ?thesis
    using m1(1) m2(1) by auto
qed

definition queue_start :: cells where
  "queue_start = (\<lambda>p. if p < 1024 then Some 7 else None)"

lemma queue_start_holds: "distinct (map fst L) \<Longrightarrow> \<forall>(p, v) \<in> set L. p \<noteq> NULL \<and> p < 1024 \<and> v = 7 \<Longrightarrow> holds queue_start L"
  by (auto simp: holds_def queue_start_def)

theorem queue_session_ok_witness:
  "\<exists>m'. do { m \<leftarrow> TAILQ_INIT 16 queue_start; m \<leftarrow> TAILQ_INIT 32 m; m \<leftarrow> TAILQ_INSERT_TAIL True 16 64 8 m;
      m \<leftarrow> TAILQ_INSERT_HEAD True 16 96 8 m; m \<leftarrow> TAILQ_INSERT_BEFORE True 64 128 8 m; m \<leftarrow> TAILQ_CONCAT 32 16 8 m;
      m \<leftarrow> TAILQ_REMOVE True 32 64 8 m; Some m } = Some m' \<and>
    TAILQ_FIRST 32 m' = Some 96 \<and> TAILQ_NEXT 96 8 m' = Some 128 \<and> TAILQ_LAST 32 m' = Some 128 \<and> TAILQ_EMPTY 16 m' = Some True"
proof -
  let ?h = "\<lambda>b. if b then 16 else 32 :: addr"
  let ?ops = "[Ins_Tail True 64, Ins_Head True 96, Ins_Before True 64 128, Concat False, Rem False 64]"
  let ?lw = "[(64, 7, 7), (96, 7, 7), (128, 7, 7)] :: (addr \<times> addr \<times> addr) list"
  have "list_run ?ops (\<lambda>_. [], map fst ?lw) = Some ((\<lambda>_. [])(False := [96, 128]), [64])"
    by (simp add: move_in_def fun_eq_iff)
  moreover have "holds queue_start (head_cells Tailq (?h True) (7, 7) @ head_cells Tailq (?h False) (7, 7) @ loose (free_cells Tailq 8) ?lw @ [])"
    by (rule queue_start_holds) (simp_all add: head_cells_def free_cells_def free2_def)
  ultimately obtain m' where r: "do { m \<leftarrow> queue_init Tailq (?h True) queue_start; m \<leftarrow> queue_init Tailq (?h False) m; ops_run (queue_exec Tailq True 8 ?h) ?ops m } = Some m'"
    and w: "world (queue_cells Tailq 8) (free_cells Tailq 8) ?h ((\<lambda>_. [])(False := [96, 128]), [64]) [] m'"
    using queue_session_ok [where h = ?h and k = Tailq and lw = ?lw and ops = ?ops and m = queue_start and R = "[]" and f = 8 and pa = True]
    by fastforce
  obtain lw where "holds m' (tailq 8 16 [] @ tailq 8 32 [96, 128] @ loose (free_cells Tailq 8) lw @ [])"
    using w by (auto simp: world_def)
  then have "m' 16 = Some 0" "m' 32 = Some 96" "m' 104 = Some 128" "m' 40 = Some 136" "m' 144 = Some 104"
    by (simp_all add: holds_def tailq_def)
  then have "TAILQ_FIRST 32 m' = Some 96 \<and> TAILQ_NEXT 96 8 m' = Some 128 \<and> TAILQ_LAST 32 m' = Some 128 \<and> TAILQ_EMPTY 16 m' = Some True"
    by (simp add: TAILQ_FIRST_def TAILQ_NEXT_def TAILQ_LAST_def TAILQ_EMPTY_def cell_ops)
  moreover have "ops_run ex [] = Some" "ops_run ex (c # cs) = (\<lambda>m. Option.bind (ex c m) (ops_run ex cs))" for ex c cs
    by (simp_all add: fun_eq_iff)
  note runs = this
  have "do { m \<leftarrow> TAILQ_INIT 16 queue_start; m \<leftarrow> TAILQ_INIT 32 m; m \<leftarrow> TAILQ_INSERT_TAIL True 16 64 8 m;
      m \<leftarrow> TAILQ_INSERT_HEAD True 16 96 8 m; m \<leftarrow> TAILQ_INSERT_BEFORE True 64 128 8 m; m \<leftarrow> TAILQ_CONCAT 32 16 8 m;
      m \<leftarrow> TAILQ_REMOVE True 32 64 8 m; Some m } = Some m'"
    using r by (simp add: runs)
  ultimately show ?thesis
    by blast
qed

subsection \<open>Traversals\<close>

text \<open>\<open>follows N es z\<close>: the link function leads from each element to the next one and from the last one to \<open>z\<close>.\<close>

fun follows :: "(addr \<Rightarrow> addr option) \<Rightarrow> addr list \<Rightarrow> addr \<Rightarrow> bool" where
  "follows N [] z = True"
| "follows N (e # es) z = (N e = Some (fst_or z es) \<and> follows N es z)"

lemma fst_or_simps [simp]: "fst_or z [] = z" "fst_or z (e # es) = e"
  by (simp_all add: fst_or_def)

lemma fst_or_append: "fst_or z (as @ bs) = fst_or (fst_or z bs) as"
  by (cases as) simp_all

lemma lst_rev: "lst z as = fst_or z (rev as)"
  by (simp add: lst_def fst_or_def last_conv_nth hd_append hd_rev)

lemma followsI: "(\<And>as x bs. es = as @ x # bs \<Longrightarrow> N x = Some (fst_or z bs)) \<Longrightarrow> follows N es z"
proof (induction es)
  case (Cons e es)
  have "follows N es z"
    by (rule Cons(1)) (use Cons(2) in \<open>metis append_Cons\<close>)
  then show ?case
    using Cons(2) [of "[]"] by simp
qed simp

lemma follows_rev:
  assumes "\<And>as x bs. es = as @ x # bs \<Longrightarrow> N x = Some (lst z as)"
  shows "follows N (rev es) z"
proof (rule followsI)
  fix as x bs
  assume "rev es = as @ x # bs"
  then have "es = rev bs @ x # rev as"
    by (metis append.assoc append_Cons append_Nil rev.simps(2) rev_append rev_rev_ident)
  from assms [OF this] show "N x = Some (fst_or z bs)"
    by (simp add: lst_rev)
qed

text \<open>A body that only computes.\<close>

definition pure :: "(addr \<Rightarrow> 's \<Rightarrow> 's) \<Rightarrow> 's body" where
  "pure g = (\<lambda>v (a, m). Some (g v a, m))"

lemma foreach_loop_ok:
  "follows (\<lambda>e. get_mem e f m) es NULL \<Longrightarrow> NULL \<notin> set es \<Longrightarrow> foreach_loop f (pure g) (fst_or NULL es) (a, m) = Some (fold g es a, m)"
  by (induction es arbitrary: a; subst foreach_loop.simps) (simp_all add: pure_def)

lemma tailq_reverse_loop_ok:
  "follows (\<lambda>e. TAILQ_PREV e f m) es NULL \<Longrightarrow> NULL \<notin> set es \<Longrightarrow> tailq_reverse_loop f (pure g) (fst_or NULL es) (a, m) = Some (fold g es a, m)"
  by (induction es arbitrary: a; subst tailq_reverse_loop.simps) (simp_all add: pure_def)

lemma circleq_loop_ok:
  "follows (\<lambda>e. CIRCLEQ_NEXT e f m) es h \<Longrightarrow> h \<notin> set es \<Longrightarrow> circleq_loop h f (pure g) (fst_or h es) (a, m) = Some (fold g es a, m)"
  by (induction es arbitrary: a; subst circleq_loop.simps) (auto simp add: pure_def)

lemma circleq_reverse_loop_ok:
  "follows (\<lambda>e. CIRCLEQ_PREV e f m) es h \<Longrightarrow> h \<notin> set es \<Longrightarrow> circleq_reverse_loop h f (pure g) (fst_or h es) (a, m) = Some (fold g es a, m)"
  by (induction es arbitrary: a; subst circleq_reverse_loop.simps) (auto simp add: pure_def)

fun queue_foreach :: "queue_kind \<Rightarrow> addr \<Rightarrow> addr \<Rightarrow> 's body \<Rightarrow> 's \<times> cells \<Rightarrow> ('s \<times> cells) option" where
  "queue_foreach Slist h f body s = SLIST_FOREACH h f body s"
| "queue_foreach Stailq h f body s = STAILQ_FOREACH h f body s"
| "queue_foreach Dlist h f body s = LIST_FOREACH h f body s"
| "queue_foreach Tailq h f body s = TAILQ_FOREACH h f body s"
| "queue_foreach Circleq h f body s = CIRCLEQ_FOREACH h f body s"

fun queue_empty :: "queue_kind \<Rightarrow> addr \<Rightarrow> cells \<Rightarrow> bool option" where
  "queue_empty Slist h m = SLIST_EMPTY h m"
| "queue_empty Stailq h m = STAILQ_EMPTY h m"
| "queue_empty Dlist h m = LIST_EMPTY h m"
| "queue_empty Tailq h m = TAILQ_EMPTY h m"
| "queue_empty Circleq h m = CIRCLEQ_EMPTY h m"

text \<open>What a link past the end yields: the null pointer, or the head of a circular queue.\<close>

definition queue_end :: "queue_kind \<Rightarrow> addr \<Rightarrow> addr" where
  "queue_end k h = (if k = Circleq then h else NULL)"

lemma queue_first_cell: "(h, fst_or (queue_end k h) es) \<in> set (queue_cells k f h es)"
  by (cases k; cases es; simp add: queue_end_def slist_def stailq_def dlist_def tailq_def circleq_def nx_def)

lemma queue_next_cell:
  assumes "sound h (as @ x # bs)"
  shows "(x + f, fst_or (queue_end k h) bs) \<in> set (queue_cells k f h (as @ x # bs))"
  using assms by (cases k; cases bs; auto simp: queue_end_def slist_def stailq_def dlist_def tailq_def circleq_def nx_def sound_def)

lemma queue_follows:
  assumes "holds m (queue_cells k f h es @ R)" "sound h es"
  shows "follows (\<lambda>e. get_mem e f m) es (queue_end k h)" "load h m = Some (fst_or (queue_end k h) es)"
proof -
  show "follows (\<lambda>e. get_mem e f m) es (queue_end k h)"
  proof (rule followsI)
    fix as x bs
    assume es: "es = as @ x # bs"
    have "x + f \<noteq> NULL \<and> m (x + f) = Some (fst_or (queue_end k h) bs)"
      using holds_at [OF assms(1), of "x + f" "fst_or (queue_end k h) bs"] queue_next_cell [of h as x bs f k] assms(2) es by simp
    moreover have "x \<noteq> NULL"
      using assms(2) es by (auto simp: sound_def)
    ultimately show "get_mem x f m = Some (fst_or (queue_end k h) bs)"
      by (simp add: cell_ops)
  qed
  show "load h m = Some (fst_or (queue_end k h) es)"
    using holds_at [OF assms(1), of h "fst_or (queue_end k h) es"] queue_first_cell [of h k es f] by (simp add: load_def)
qed

text \<open>Backwards in a tail queue.\<close>

lemma tailq_last_prev:
  assumes "holds m (tailq f h es @ R)" "sound h es"
  shows "TAILQ_LAST h m = Some (lst NULL es)" "follows (\<lambda>e. TAILQ_PREV e f m) (rev es) NULL"
proof -
  have at: "p \<noteq> NULL \<and> m p = Some v" if "(p, v) \<in> set (tailq f h es)" for p v
    using holds_at [OF assms(1), of p v] that by simp
  have bwd: "get_mem (slot f h us) 8 m = Some (if us = [] then slot f h es else slot f h (butlast us))
      \<and> load (slot f h us) m = Some (fst_or NULL bs) \<and> slot f h us \<noteq> NULL" if "es = us @ bs" for us bs
  proof -
    have s: "(slot f h us, fst_or NULL bs) \<in> set (tailq f h es)"
      using that by (cases bs) (simp_all add: tailq_def)
    have "(slot f h us + 8, if us = [] then slot f h es else slot f h (butlast us)) \<in> set (tailq f h es)"
      using that by (cases us rule: rev_cases) (simp_all add: tailq_def add.assoc)
    then show ?thesis
      using at [OF s] at [of "slot f h us + 8"] by (auto simp: cell_ops)
  qed
  have h0: "h \<noteq> NULL"
    using assms(2) by (auto simp: sound_def)
  show "TAILQ_LAST h m = Some (lst NULL es)"
  proof (cases es rule: rev_cases)
    case Nil
    then show ?thesis
      using bwd [of "[]" "[]"] h0 by (simp add: TAILQ_LAST_def)
  next
    case (snoc as x)
    have "get_mem h 8 m = Some (slot f h es)"
      using bwd [of "[]" es] by simp
    then show ?thesis
      using bwd [of es "[]"] bwd [of as "[x]"] snoc by (simp add: TAILQ_LAST_def)
  qed
  show "follows (\<lambda>e. TAILQ_PREV e f m) (rev es) NULL"
  proof (rule follows_rev)
    fix as x bs
    assume es: "es = as @ x # bs"
    have "x \<noteq> NULL"
      using assms(2) es by (auto simp: sound_def)
    moreover have "(x + (f + 8), slot f h as) \<in> set (tailq f h es)"
      using es by (simp add: tailq_def)
    ultimately have p: "get_mem x (f + 8) m = Some (slot f h as)"
      using at by (simp add: cell_ops)
    show "TAILQ_PREV x f m = Some (lst NULL as)"
    proof (cases as rule: rev_cases)
      case Nil
      then show ?thesis
        using p bwd [of "[]" es] bwd [of es "[]"] es by (simp add: TAILQ_PREV_def)
    next
      case (snoc cs c)
      then show ?thesis
        using p bwd [of as "x # bs"] bwd [of cs "c # x # bs"] es by (simp add: TAILQ_PREV_def)
    qed
  qed
qed

lemma circleq_last_prev:
  assumes "holds m (circleq f h es @ R)" "sound h es"
  shows "CIRCLEQ_LAST h m = Some (lst h es)" "follows (\<lambda>e. CIRCLEQ_PREV e f m) (rev es) h"
proof -
  have at: "p \<noteq> NULL \<and> m p = Some v" if "(p, v) \<in> set (circleq f h es)" for p v
    using holds_at [OF assms(1), of p v] that by simp
  show "CIRCLEQ_LAST h m = Some (lst h es)"
    using at [OF circleq_head(2)] assms(2) by (auto simp: CIRCLEQ_LAST_def cell_ops sound_def)
  show "follows (\<lambda>e. CIRCLEQ_PREV e f m) (rev es) h"
  proof (rule follows_rev)
    fix as x bs
    assume es: "es = as @ x # bs"
    have "x \<noteq> NULL" "x \<noteq> h"
      using assms(2) es by (auto simp: sound_def)
    moreover have "(pv f h x, lst h as) \<in> set (circleq f h es)"
      using es by (simp add: circleq_def)
    ultimately show "CIRCLEQ_PREV x f m = Some (lst h as)"
      using at by (simp add: CIRCLEQ_PREV_def cell_ops pv_def)
  qed
qed

text \<open>
  (C38) In every family, \<open>FOREACH\<close> runs its body on the elements in order and ends, and \<open>EMPTY\<close>
  tells whether there are any; in tail queues and circular queues \<open>FOREACH_REVERSE\<close> runs it in the
  opposite order. For a body that computes \<open>g\<close> on a state of its own, the results are the folds of \<open>g\<close>
  over the list and over the reversed list.
\<close>

theorem queue_traversal:
  assumes "holds m (queue_cells k f h es @ R)" "sound h es"
  shows "queue_foreach k h f (pure g) (a, m) = Some (fold g es a, m) \<and> queue_empty k h m = Some (es = []) \<and>
    (k = Tailq \<longrightarrow> TAILQ_FOREACH_REVERSE h f (pure g) (a, m) = Some (fold g (rev es) a, m)) \<and>
    (k = Circleq \<longrightarrow> CIRCLEQ_FOREACH_REVERSE h f (pure g) (a, m) = Some (fold g (rev es) a, m))"
proof (intro conjI impI)
  note F = queue_follows [OF assms]
  have ok: "NULL \<notin> set es" "h \<notin> set es" "fst_or NULL es = NULL \<longleftrightarrow> es = []" "fst_or h es = h \<longleftrightarrow> es = []"
    using assms(2) by (cases es; auto simp: sound_def)+
  show "queue_foreach k h f (pure g) (a, m) = Some (fold g es a, m)"
    using F ok foreach_loop_ok [of f m es g a] circleq_loop_ok [of f m es h g a]
    by (cases k) (simp_all add: queue_end_def SLIST_FOREACH_def SLIST_FIRST_def STAILQ_FOREACH_def STAILQ_FIRST_def LIST_FOREACH_def
        LIST_FIRST_def TAILQ_FOREACH_def TAILQ_FIRST_def CIRCLEQ_FOREACH_def CIRCLEQ_FIRST_def CIRCLEQ_NEXT_def)
  show "queue_empty k h m = Some (es = [])"
    using F(2) ok by (cases k) (simp_all add: queue_end_def SLIST_EMPTY_def SLIST_FIRST_def STAILQ_EMPTY_def STAILQ_FIRST_def LIST_EMPTY_def
        LIST_FIRST_def TAILQ_EMPTY_def TAILQ_FIRST_def CIRCLEQ_EMPTY_def CIRCLEQ_FIRST_def)
  show "TAILQ_FOREACH_REVERSE h f (pure g) (a, m) = Some (fold g (rev es) a, m)" if "k = Tailq"
    using tailq_last_prev [of m f h es R] assms that ok tailq_reverse_loop_ok [of f m "rev es" g a]
    by (simp add: TAILQ_FOREACH_REVERSE_def lst_rev)
  show "CIRCLEQ_FOREACH_REVERSE h f (pure g) (a, m) = Some (fold g (rev es) a, m)" if "k = Circleq"
    using circleq_last_prev [of m f h es R] assms that ok circleq_reverse_loop_ok [of f m "rev es" h g a]
    by (simp add: CIRCLEQ_FOREACH_REVERSE_def lst_rev)
qed

lemma holds_map_of: "distinct (map fst L) \<Longrightarrow> NULL \<notin> fst ` set L \<Longrightarrow> holds (map_of L) L"
  by (force simp: holds_def)

theorem queue_traversal_witness:
  "TAILQ_FOREACH 16 8 (pure (\<lambda>v vs. v # vs)) ([], map_of (tailq 8 16 [64, 96])) = Some ([96, 64], map_of (tailq 8 16 [64, 96])) \<and>
   TAILQ_FOREACH_REVERSE 16 8 (pure (\<lambda>v vs. v # vs)) ([], map_of (tailq 8 16 [64, 96])) = Some ([64, 96], map_of (tailq 8 16 [64, 96]))"
proof -
  have "holds (map_of (tailq 8 16 [64, 96])) (queue_cells Tailq 8 16 [64, 96] @ [])" "sound 16 [64, 96]"
    using holds_map_of [of "tailq 8 16 [64, 96]"] by (simp_all add: tailq_def sound_def)
  from queue_traversal [OF this, where g = "\<lambda>v vs. v # vs" and a = "[]"] show ?thesis
    by simp
qed

subsection \<open>Removal during a traversal\<close>

lemma foreach_safe_loop_ok:
  assumes "I zs s"
    and link: "\<And>v zs s. I (v # zs) s \<Longrightarrow> v \<noteq> NULL \<and> get_mem v f (snd s) = Some (fst_or NULL zs)"
    and step: "\<And>v zs s. I (v # zs) s \<Longrightarrow> \<exists>s'. body v s = Some s' \<and> I zs s'"
  shows "\<exists>s'. foreach_safe_loop f body (fst_or NULL zs) s = Some s' \<and> I [] s'"
  using assms(1)
proof (induction zs arbitrary: s)
  case Nil
  then show ?case
    by (subst foreach_safe_loop.simps) simp
next
  case (Cons v zs)
  obtain s' where "body v s = Some s'" "I zs s'"
    using step [OF Cons(2)] by blast
  then show ?case
    using Cons(1) [of s'] link [OF Cons(2)] by (subst foreach_safe_loop.simps) simp
qed

fun queue_foreach_safe :: "queue_kind \<Rightarrow> addr \<Rightarrow> addr \<Rightarrow> 's body \<Rightarrow> 's \<times> cells \<Rightarrow> ('s \<times> cells) option" where
  "queue_foreach_safe Slist h f body s = SLIST_FOREACH_SAFE h f body s"
| "queue_foreach_safe Stailq h f body s = STAILQ_FOREACH_SAFE h f body s"
| "queue_foreach_safe Dlist h f body s = LIST_FOREACH_SAFE h f body s"
| "queue_foreach_safe Tailq h f body s = TAILQ_FOREACH_SAFE h f body s"
| "queue_foreach_safe Circleq h f body s = None"

text \<open>A body that removes the element from the queue and notes it.\<close>

definition take_out :: "queue_kind \<Rightarrow> bool \<Rightarrow> addr \<Rightarrow> addr \<Rightarrow> addr list body" where
  "take_out k pa f h = (\<lambda>v (vs, m). do { m \<leftarrow> queue_exec k pa f (\<lambda>_. h) (Rem True v) m; Some (vs @ [v], m) })"

text \<open>
  (C39) \<open>FOREACH_SAFE\<close> allows its body to remove the element it is given: with the removal macro of
  the family as body, the loop visits every element once, in order, and leaves an empty queue, the
  elements outside (free to be released), and all other cells untouched.
\<close>

theorem queue_drain:
  assumes "holds m (queue_cells k f h es @ R)" "sound h es" "k \<noteq> Circleq"
  shows "\<exists>m' lw. queue_foreach_safe k h f (take_out k pa f h) ([], m) = Some (es, m') \<and> map fst lw = rev es \<and>
    holds m' (queue_cells k f h [] @ loose (free_cells k f) lw @ R)"
proof -
  define I where "I = (\<lambda>zs (s :: addr list \<times> cells). fst s @ zs = es \<and>
    (\<exists>lw. map fst lw = rev (fst s) \<and> holds (snd s) (queue_cells k f h zs @ loose (free_cells k f) lw @ R)))"
  have sub: "sound h zs" if "I zs s" for zs s
    using assms(2) that by (auto simp: I_def sound_def)
  have "I es ([], m)"
    using assms(1) by (auto simp: I_def intro: exI [of _ "[]"])
  then have "\<exists>s'. foreach_safe_loop f (take_out k pa f h) (fst_or NULL es) ([], m) = Some s' \<and> I [] s'"
  proof (rule foreach_safe_loop_ok)
    fix v zs s
    assume i: "I (v # zs) s"
    obtain lw where lw: "map fst lw = rev (fst s)" "holds (snd s) (queue_cells k f h ([] @ v # zs) @ loose (free_cells k f) lw @ R)" "fst s @ v # zs = es"
      using i by (auto simp: I_def)
    show "v \<noteq> NULL \<and> get_mem v f (snd s) = Some (fst_or NULL zs)"
      using queue_follows(1) [OF lw(2)] sub [OF i] assms(3) by (auto simp: queue_end_def sound_def)
    obtain m' vs where "queue_exec k pa f (\<lambda>_. h) (Rem True v) (snd s) = Some m'"
      "holds m' (queue_cells k f h ([] @ zs) @ free_cells k f v vs @ loose (free_cells k f) lw @ R)"
      using qf.rem [of k True v "snd s" f "\<lambda>_. h" "[]" zs "loose (free_cells k f) lw @ R" pa] lw(2) sub [OF i] by auto
    then show "\<exists>s'. take_out k pa f h v s = Some s' \<and> I zs s'"
      using lw(1,3) by (cases s) (auto simp: take_out_def I_def intro!: exI [of _ "(v, vs) # lw"])
  qed
  then obtain s' where "foreach_safe_loop f (take_out k pa f h) (fst_or NULL es) ([], m) = Some s'" "I [] s'"
    by blast
  moreover have "load h m = Some (fst_or NULL es)"
    using queue_follows(2) [OF assms(1,2)] assms(3) by (simp add: queue_end_def)
  ultimately show ?thesis
    using assms(3) by (cases s'; cases k) (auto simp: I_def SLIST_FOREACH_SAFE_def SLIST_FIRST_def STAILQ_FOREACH_SAFE_def STAILQ_FIRST_def
        LIST_FOREACH_SAFE_def LIST_FIRST_def TAILQ_FOREACH_SAFE_def TAILQ_FIRST_def)
qed

theorem queue_drain_witness:
  "\<exists>m'. LIST_FOREACH_SAFE 16 8 (take_out Dlist True 8 16) ([], map_of (dlist 8 16 [64, 96])) = Some ([64, 96], m') \<and>
    LIST_EMPTY 16 m' = Some True \<and> LIST_NEXT 64 8 m' \<noteq> None"
proof -
  have "holds (map_of (dlist 8 16 [64, 96])) (queue_cells Dlist 8 16 [64, 96] @ [])" "sound 16 [64, 96]"
    using holds_map_of [of "dlist 8 16 [64, 96]"] by (simp_all add: dlist_def sound_def)
  from queue_drain [OF this, of True] obtain m' lw where q: "LIST_FOREACH_SAFE 16 8 (take_out Dlist True 8 16) ([], map_of (dlist 8 16 [64, 96])) = Some ([64, 96], m')"
    "map fst lw = rev [64, 96]" "holds m' (queue_cells Dlist 8 16 [] @ loose (free_cells Dlist 8) lw @ [])"
    unfolding queue_foreach_safe.simps by blast
  obtain v w where lw: "lw = [(96, v), (64, w)]"
    using q(2) by (auto simp: map_eq_Cons_conv)
  have "m' 16 = Some NULL" "m' 72 = Some (fst w)"
    using q(3) by (simp_all add: lw holds_def dlist_def free_cells_def free2_def)
  then show ?thesis
    using q(1) by (simp add: LIST_EMPTY_def LIST_FIRST_def LIST_NEXT_def cell_ops)
qed

end
