(* ===== verification/Nc_Queue_Trace.thy ===== *)
theory Nc_Queue_Trace
  imports Nc_Queue_Claims
begin

text \<open>
  The struct declarations of \<open>nc_sys_queue.h\<close>, and its debugging build: with \<open>NC_ASSERT_PANIC\<close> the integrity checks are
  compiled in and \<open>QUEUE_MACRO_TRACE\<close> is on, so the heads and the links of tail queues carry a trace buffer (\<open>TRACEBUF\<close>)
  behind their two pointers, and the macros record there the last two places of the program that altered them.
  \<open>traces\<close> is the store of the trace buffers under their addresses; a macro gets the place \<open>pl\<close> of its expansion
  (\<open>__FILE__\<close>, \<open>__LINE__\<close>). The theory shows that tracing does not change what the macros do to the queues, and
  what the buffers hold.
\<close>

subsection \<open>The structs\<close>

text \<open>The members of the heads and of the links of an element, with their offsets.\<close>

definition SLIST_HEAD :: "(string \<times> addr) list" where "SLIST_HEAD = [(''slh_first'', 0)]"

definition SLIST_ENTRY :: "(string \<times> addr) list" where "SLIST_ENTRY = [(''sle_next'', 0)]"

definition STAILQ_HEAD :: "(string \<times> addr) list" where "STAILQ_HEAD = [(''stqh_first'', 0), (''stqh_last'', 8)]"

definition STAILQ_ENTRY :: "(string \<times> addr) list" where "STAILQ_ENTRY = [(''stqe_next'', 0)]"

definition LIST_HEAD :: "(string \<times> addr) list" where "LIST_HEAD = [(''lh_first'', 0)]"

definition LIST_ENTRY :: "(string \<times> addr) list" where "LIST_ENTRY = [(''le_next'', 0), (''le_prev'', 8)]"

definition TAILQ_HEAD :: "(string \<times> addr) list" where
  "TAILQ_HEAD = [(''tqh_first'', 0), (''tqh_last'', 8), (''trace'', 16)]"

definition TAILQ_ENTRY :: "(string \<times> addr) list" where
  "TAILQ_ENTRY = [(''tqe_next'', 0), (''tqe_prev'', 8), (''trace'', 16)]"

definition CIRCLEQ_HEAD :: "(string \<times> addr) list" where "CIRCLEQ_HEAD = [(''cqh_first'', 0), (''cqh_last'', 8)]"

definition CIRCLEQ_ENTRY :: "(string \<times> addr) list" where "CIRCLEQ_ENTRY = [(''cqe_next'', 0), (''cqe_prev'', 8)]"

fun head_members :: "queue_kind \<Rightarrow> (string \<times> addr) list" where
  "head_members Slist = SLIST_HEAD"
| "head_members Stailq = STAILQ_HEAD"
| "head_members Dlist = LIST_HEAD"
| "head_members Tailq = TAILQ_HEAD"
| "head_members Circleq = CIRCLEQ_HEAD"

fun entry_members :: "queue_kind \<Rightarrow> (string \<times> addr) list" where
  "entry_members Slist = SLIST_ENTRY"
| "entry_members Stailq = STAILQ_ENTRY"
| "entry_members Dlist = LIST_ENTRY"
| "entry_members Tailq = TAILQ_ENTRY"
| "entry_members Circleq = CIRCLEQ_ENTRY"

lemmas queue_structs = SLIST_HEAD_def SLIST_ENTRY_def STAILQ_HEAD_def STAILQ_ENTRY_def LIST_HEAD_def LIST_ENTRY_def
  TAILQ_HEAD_def TAILQ_ENTRY_def CIRCLEQ_HEAD_def CIRCLEQ_ENTRY_def

text \<open>
  The cells that a session needs are the pointer members of its structs, and \<open>TAILQ_LAST\<close> and \<open>TAILQ_PREV\<close> may
  read the links of an element as a head, since the members lie at the same offsets.
\<close>

lemma queue_members:
  "map fst (head_cells k h vs) = map (\<lambda>(_, off). h + off) (filter (\<lambda>(n, _). n \<noteq> ''trace'') (head_members k))"
  "map fst (free_cells k f e vs) = map (\<lambda>(_, off). e + (f + off)) (filter (\<lambda>(n, _). n \<noteq> ''trace'') (entry_members k))"
  by (cases k; simp add: head_cells_def free_cells_def free1_def free2_def queue_structs)+

lemma tailq_cast: "map snd TAILQ_HEAD = map snd TAILQ_ENTRY"
  by (simp add: queue_structs)

subsection \<open>Trace buffers\<close>

record qm_trace =
  lastfile :: string
  lastline :: int
  prevfile :: string
  prevline :: int

type_synonym traces = "addr \<Rightarrow> qm_trace option"

type_synonym place = "string \<times> int"

definition TRACEBUF :: addr where
  "TRACEBUF = the (map_of TAILQ_ENTRY ''trace'')"

definition QMD_TRACE_HEAD :: "place \<Rightarrow> addr \<Rightarrow> traces \<Rightarrow> traces option" where
  "QMD_TRACE_HEAD pl head T = do {
     p \<leftarrow> fld head TRACEBUF;
     t \<leftarrow> T p;
     let t = t\<lparr>prevline := lastline t\<rparr>;
     let t = t\<lparr>prevfile := lastfile t\<rparr>;
     let t = t\<lparr>lastline := snd pl\<rparr>;
     let t = t\<lparr>lastfile := fst pl\<rparr>;
     Some (T(p \<mapsto> t))
   }"

definition QMD_TRACE_ELEM :: "place \<Rightarrow> addr \<Rightarrow> traces \<Rightarrow> traces option" where
  "QMD_TRACE_ELEM pl elem T = do {
     p \<leftarrow> fld elem TRACEBUF;
     t \<leftarrow> T p;
     let t = t\<lparr>prevline := lastline t\<rparr>;
     let t = t\<lparr>prevfile := lastfile t\<rparr>;
     let t = t\<lparr>lastline := snd pl\<rparr>;
     let t = t\<lparr>lastfile := fst pl\<rparr>;
     Some (T(p \<mapsto> t))
   }"

subsection \<open>The macros with tracing\<close>

definition TAILQ_INIT_tr :: "place \<Rightarrow> addr \<Rightarrow> cells \<times> traces \<Rightarrow> (cells \<times> traces) option" where
  "TAILQ_INIT_tr pl head s = do {
     let (m, T) = s;
     m \<leftarrow> store head NULL m;
     m \<leftarrow> set_mem head 8 head m;
     T \<leftarrow> QMD_TRACE_HEAD pl head T;
     Some (m, T)
   }"

definition TAILQ_CONCAT_tr :: "place \<Rightarrow> addr \<Rightarrow> addr \<Rightarrow> addr \<Rightarrow> cells \<times> traces \<Rightarrow> (cells \<times> traces) option" where
  "TAILQ_CONCAT_tr pl head1 head2 field s = do {
     let (m, T) = s;
     empty \<leftarrow> TAILQ_EMPTY head2 m;
     if \<not> empty then do {
       last1 \<leftarrow> get_mem head1 8 m;
       first2 \<leftarrow> TAILQ_FIRST head2 m;
       m \<leftarrow> store last1 first2 m;
       first2 \<leftarrow> TAILQ_FIRST head2 m;
       last1 \<leftarrow> get_mem head1 8 m;
       m \<leftarrow> set_mem first2 (field + 8) last1 m;
       last2 \<leftarrow> get_mem head2 8 m;
       m \<leftarrow> set_mem head1 8 last2 m;
       (m, T) \<leftarrow> TAILQ_INIT_tr pl head2 (m, T);
       T \<leftarrow> QMD_TRACE_HEAD pl head1 T;
       T \<leftarrow> QMD_TRACE_HEAD pl head2 T;
       Some (m, T)
     }
     else Some (m, T)
   }"

definition TAILQ_INSERT_AFTER_tr :: "place \<Rightarrow> addr \<Rightarrow> addr \<Rightarrow> addr \<Rightarrow> addr \<Rightarrow> cells \<times> traces \<Rightarrow> (cells \<times> traces) option" where
  "TAILQ_INSERT_AFTER_tr pl head listelm elm field s = do {
     let (m, T) = s;
     checked True (QMD_TAILQ_CHECK_NEXT listelm field m);
     x \<leftarrow> TAILQ_NEXT listelm field m;
     m \<leftarrow> set_mem elm field x m;
     (m, T) \<leftarrow> (if x \<noteq> NULL then do { y \<leftarrow> TAILQ_NEXT elm field m; m \<leftarrow> set_mem y (field + 8) (elm + field) m; Some (m, T) }
           else do { m \<leftarrow> set_mem head 8 (elm + field) m; T \<leftarrow> QMD_TRACE_HEAD pl head T; Some (m, T) });
     m \<leftarrow> set_mem listelm field elm m;
     m \<leftarrow> set_mem elm (field + 8) (listelm + field) m;
     T \<leftarrow> QMD_TRACE_ELEM pl (elm + field) T;
     T \<leftarrow> QMD_TRACE_ELEM pl (listelm + field) T;
     Some (m, T)
   }"

definition TAILQ_INSERT_BEFORE_tr :: "place \<Rightarrow> addr \<Rightarrow> addr \<Rightarrow> addr \<Rightarrow> cells \<times> traces \<Rightarrow> (cells \<times> traces) option" where
  "TAILQ_INSERT_BEFORE_tr pl listelm elm field s = do {
     let (m, T) = s;
     checked True (QMD_TAILQ_CHECK_PREV listelm field m);
     p \<leftarrow> get_mem listelm (field + 8) m;
     m \<leftarrow> set_mem elm (field + 8) p m;
     m \<leftarrow> set_mem elm field listelm m;
     p \<leftarrow> get_mem listelm (field + 8) m;
     m \<leftarrow> store p elm m;
     m \<leftarrow> set_mem listelm (field + 8) (elm + field) m;
     T \<leftarrow> QMD_TRACE_ELEM pl (elm + field) T;
     T \<leftarrow> QMD_TRACE_ELEM pl (listelm + field) T;
     Some (m, T)
   }"

definition TAILQ_INSERT_HEAD_tr :: "place \<Rightarrow> addr \<Rightarrow> addr \<Rightarrow> addr \<Rightarrow> cells \<times> traces \<Rightarrow> (cells \<times> traces) option" where
  "TAILQ_INSERT_HEAD_tr pl head elm field s = do {
     let (m, T) = s;
     checked True (QMD_TAILQ_CHECK_HEAD head field m);
     x \<leftarrow> TAILQ_FIRST head m;
     m \<leftarrow> set_mem elm field x m;
     m \<leftarrow> (if x \<noteq> NULL then do { y \<leftarrow> TAILQ_FIRST head m; set_mem y (field + 8) (elm + field) m }
           else set_mem head 8 (elm + field) m);
     m \<leftarrow> store head elm m;
     m \<leftarrow> set_mem elm (field + 8) head m;
     T \<leftarrow> QMD_TRACE_HEAD pl head T;
     T \<leftarrow> QMD_TRACE_ELEM pl (elm + field) T;
     Some (m, T)
   }"

definition TAILQ_INSERT_TAIL_tr :: "place \<Rightarrow> addr \<Rightarrow> addr \<Rightarrow> addr \<Rightarrow> cells \<times> traces \<Rightarrow> (cells \<times> traces) option" where
  "TAILQ_INSERT_TAIL_tr pl head elm field s = do {
     let (m, T) = s;
     checked True (QMD_TAILQ_CHECK_TAIL head field m);
     m \<leftarrow> set_mem elm field NULL m;
     l \<leftarrow> get_mem head 8 m;
     m \<leftarrow> set_mem elm (field + 8) l m;
     l \<leftarrow> get_mem head 8 m;
     m \<leftarrow> store l elm m;
     m \<leftarrow> set_mem head 8 (elm + field) m;
     T \<leftarrow> QMD_TRACE_HEAD pl head T;
     T \<leftarrow> QMD_TRACE_ELEM pl (elm + field) T;
     Some (m, T)
   }"

definition TAILQ_REMOVE_tr :: "place \<Rightarrow> addr \<Rightarrow> addr \<Rightarrow> addr \<Rightarrow> cells \<times> traces \<Rightarrow> (cells \<times> traces) option" where
  "TAILQ_REMOVE_tr pl head elm field s = do {
     let (m, T) = s;
     oldnext \<leftarrow> fld elm field;
     oldprev \<leftarrow> fld elm (field + 8);
     checked True (QMD_TAILQ_CHECK_NEXT elm field m);
     checked True (QMD_TAILQ_CHECK_PREV elm field m);
     x \<leftarrow> TAILQ_NEXT elm field m;
     p \<leftarrow> get_mem elm (field + 8) m;
     (m, T) \<leftarrow> (if x \<noteq> NULL then do { m \<leftarrow> set_mem x (field + 8) p m; Some (m, T) }
           else do { m \<leftarrow> set_mem head 8 p m; T \<leftarrow> QMD_TRACE_HEAD pl head T; Some (m, T) });
     p \<leftarrow> get_mem elm (field + 8) m;
     x \<leftarrow> TAILQ_NEXT elm field m;
     m \<leftarrow> store p x m;
     m \<leftarrow> TRASHIT oldnext m;
     m \<leftarrow> TRASHIT oldprev m;
     T \<leftarrow> QMD_TRACE_ELEM pl (elm + field) T;
     Some (m, T)
   }"

text \<open>The operations of sessions; \<open>TAILQ_SWAP\<close> leaves no trace.\<close>

fun tailq_exec_tr :: "place \<Rightarrow> addr \<Rightarrow> (bool \<Rightarrow> addr) \<Rightarrow> queue_op \<Rightarrow> cells \<times> traces \<Rightarrow> (cells \<times> traces) option" where
  "tailq_exec_tr pl f h (Ins_Head b e) s = TAILQ_INSERT_HEAD_tr pl (h b) e f s"
| "tailq_exec_tr pl f h (Ins_Tail b e) s = TAILQ_INSERT_TAIL_tr pl (h b) e f s"
| "tailq_exec_tr pl f h (Ins_After b x e) s = TAILQ_INSERT_AFTER_tr pl (h b) x e f s"
| "tailq_exec_tr pl f h (Ins_Before b x e) s = TAILQ_INSERT_BEFORE_tr pl x e f s"
| "tailq_exec_tr pl f h (Rem b x) s = TAILQ_REMOVE_tr pl (h b) x f s"
| "tailq_exec_tr pl f h (Concat b) s = TAILQ_CONCAT_tr pl (h b) (h (\<not> b)) f s"
| "tailq_exec_tr pl f h Swap (m, T) = do { m \<leftarrow> TAILQ_SWAP (h True) (h False) f m; Some (m, T) }"
| "tailq_exec_tr pl f h (Rem_Head b) s = None"

fun tailq_run_tr :: "addr \<Rightarrow> (bool \<Rightarrow> addr) \<Rightarrow> (place \<times> queue_op) list \<Rightarrow> cells \<times> traces \<Rightarrow> (cells \<times> traces) option" where
  "tailq_run_tr f h [] s = Some s"
| "tailq_run_tr f h ((pl, c) # cs) s = do { s \<leftarrow> tailq_exec_tr pl f h c s; tailq_run_tr f h cs s }"

subsection \<open>What is traced\<close>

text \<open>The buffers that an operation writes, in its order, by the lists it works on.\<close>

fun traced :: "addr \<Rightarrow> (bool \<Rightarrow> addr) \<Rightarrow> queue_op \<Rightarrow> queues \<Rightarrow> addr list" where
  "traced f h (Ins_Head b e) s = [h b, e + f]"
| "traced f h (Ins_Tail b e) s = [h b, e + f]"
| "traced f h (Ins_After b x e) s = (if last (fst s b) = x then [h b] else []) @ [e + f, x + f]"
| "traced f h (Ins_Before b x e) s = [e + f, x + f]"
| "traced f h (Rem b x) s = (if last (fst s b) = x then [h b] else []) @ [x + f]"
| "traced f h (Concat b) s = (if fst s (\<not> b) = [] then [] else [h (\<not> b), h b, h (\<not> b)])"
| "traced f h c s = []"

definition note_place :: "place \<Rightarrow> addr \<Rightarrow> traces \<Rightarrow> traces" where
  "note_place pl p T = T(p + 16 := map_option (\<lambda>t. \<lparr>lastfile = fst pl, lastline = snd pl, prevfile = lastfile t, prevline = lastline t\<rparr>) (T (p + 16)))"

text \<open>The trace buffers after a run.\<close>

fun trace_run :: "addr \<Rightarrow> (bool \<Rightarrow> addr) \<Rightarrow> (place \<times> queue_op) list \<Rightarrow> queues \<Rightarrow> traces \<Rightarrow> traces" where
  "trace_run f h [] s T = T"
| "trace_run f h ((pl, c) # cs) s T = trace_run f h cs (the (list_step c s)) (fold (note_place pl) (traced f h c s) T)"

text \<open>Heads and elements have their buffers.\<close>

definition buffers :: "addr \<Rightarrow> (bool \<Rightarrow> addr) \<Rightarrow> queues \<Rightarrow> traces \<Rightarrow> bool" where
  "buffers f h s T \<longleftrightarrow> (\<forall>b. T (h b + 16) \<noteq> None \<and> h b \<noteq> NULL) \<and>
     (\<forall>e \<in> set (fst s True) \<union> set (fst s False) \<union> set (snd s). T (e + f + 16) \<noteq> None \<and> e + f \<noteq> NULL)"

lemma trace_at:
  assumes "p \<noteq> NULL" "T (p + 16) \<noteq> None"
  shows "QMD_TRACE_HEAD pl p T = Some (note_place pl p T)" "QMD_TRACE_ELEM pl p T = Some (note_place pl p T)"
  using assms by (auto simp: QMD_TRACE_HEAD_def QMD_TRACE_ELEM_def note_place_def fld_def TRACEBUF_def TAILQ_ENTRY_def fun_eq_iff)

lemma note_place_dom [simp]: "note_place pl p T q = None \<longleftrightarrow> T q = None"
  by (simp add: note_place_def)
subsection \<open>Tracing and the queues\<close>

text \<open>A macro with tracing does to the cells what the macro without it does.\<close>

lemma init_tr:
  assumes "TAILQ_INIT h m = Some m'" "h \<noteq> NULL" "T (h + 16) \<noteq> None"
  shows "TAILQ_INIT_tr pl h (m, T) = Some (m', note_place pl h T)"
  using assms trace_at [of h T pl] by (auto simp: TAILQ_INIT_def TAILQ_INIT_tr_def Option.bind_eq_Some_conv)

lemma insert_head_tr:
  assumes "TAILQ_INSERT_HEAD True h e f m = Some m'" "h \<noteq> NULL" "T (h + 16) \<noteq> None" "e + f \<noteq> NULL" "T (e + f + 16) \<noteq> None"
  shows "TAILQ_INSERT_HEAD_tr pl h e f (m, T) = Some (m', fold (note_place pl) [h, e + f] T)"
proof -
  have "TAILQ_INSERT_HEAD_tr pl h e f (m, T) = do {
     m \<leftarrow> TAILQ_INSERT_HEAD True h e f m; T \<leftarrow> QMD_TRACE_HEAD pl h T; T \<leftarrow> QMD_TRACE_ELEM pl (e + f) T; Some (m, T) }"
    by (simp add: TAILQ_INSERT_HEAD_tr_def TAILQ_INSERT_HEAD_def)
  then show ?thesis
    using assms by (simp add: trace_at)
qed

lemma insert_tail_tr:
  assumes "TAILQ_INSERT_TAIL True h e f m = Some m'" "h \<noteq> NULL" "T (h + 16) \<noteq> None" "e + f \<noteq> NULL" "T (e + f + 16) \<noteq> None"
  shows "TAILQ_INSERT_TAIL_tr pl h e f (m, T) = Some (m', fold (note_place pl) [h, e + f] T)"
proof -
  have "TAILQ_INSERT_TAIL_tr pl h e f (m, T) = do {
     m \<leftarrow> TAILQ_INSERT_TAIL True h e f m; T \<leftarrow> QMD_TRACE_HEAD pl h T; T \<leftarrow> QMD_TRACE_ELEM pl (e + f) T; Some (m, T) }"
    by (simp add: TAILQ_INSERT_TAIL_tr_def TAILQ_INSERT_TAIL_def)
  then show ?thesis
    using assms by (simp add: trace_at)
qed

lemma insert_before_tr:
  assumes "TAILQ_INSERT_BEFORE True x e f m = Some m'" "e + f \<noteq> NULL" "T (e + f + 16) \<noteq> None" "x + f \<noteq> NULL" "T (x + f + 16) \<noteq> None"
  shows "TAILQ_INSERT_BEFORE_tr pl x e f (m, T) = Some (m', fold (note_place pl) [e + f, x + f] T)"
proof -
  have "TAILQ_INSERT_BEFORE_tr pl x e f (m, T) = do {
     m \<leftarrow> TAILQ_INSERT_BEFORE True x e f m; T \<leftarrow> QMD_TRACE_ELEM pl (e + f) T; T \<leftarrow> QMD_TRACE_ELEM pl (x + f) T; Some (m, T) }"
    by (simp add: TAILQ_INSERT_BEFORE_tr_def TAILQ_INSERT_BEFORE_def)
  then show ?thesis
    using assms by (simp add: trace_at)
qed

text \<open>Two macros trace the head only when the last element is concerned.\<close>

lemma insert_after_tr:
  assumes "TAILQ_INSERT_AFTER True h x e f m = Some m'" "h \<noteq> NULL" "T (h + 16) \<noteq> None"
    and "e + f \<noteq> NULL" "T (e + f + 16) \<noteq> None" "x + f \<noteq> NULL" "T (x + f + 16) \<noteq> None" "TAILQ_NEXT x f m = Some y"
  shows "TAILQ_INSERT_AFTER_tr pl h x e f (m, T) =
    Some (m', fold (note_place pl) ((if y = NULL then [h] else []) @ [e + f, x + f]) T)"
proof -
  have "TAILQ_INSERT_AFTER_tr pl h x e f (m, T) = do {
     m \<leftarrow> TAILQ_INSERT_AFTER True h x e f m; T \<leftarrow> (if y = NULL then QMD_TRACE_HEAD pl h T else Some T);
     T \<leftarrow> QMD_TRACE_ELEM pl (e + f) T; T \<leftarrow> QMD_TRACE_ELEM pl (x + f) T; Some (m, T) }"
    using assms(2-) by (cases "y = NULL") (simp_all add: TAILQ_INSERT_AFTER_tr_def TAILQ_INSERT_AFTER_def trace_at)
  then show ?thesis
    using assms by (simp add: trace_at)
qed

lemma remove_tr:
  assumes "TAILQ_REMOVE True h x f m = Some m'" "h \<noteq> NULL" "T (h + 16) \<noteq> None" "x + f \<noteq> NULL" "T (x + f + 16) \<noteq> None"
    and "TAILQ_NEXT x f m = Some y"
  shows "TAILQ_REMOVE_tr pl h x f (m, T) = Some (m', fold (note_place pl) ((if y = NULL then [h] else []) @ [x + f]) T)"
proof -
  have "TAILQ_REMOVE_tr pl h x f (m, T) = do {
     m \<leftarrow> TAILQ_REMOVE True h x f m; T \<leftarrow> (if y = NULL then QMD_TRACE_HEAD pl h T else Some T);
     T \<leftarrow> QMD_TRACE_ELEM pl (x + f) T; Some (m, T) }"
    using assms(2-) by (cases "y = NULL") (simp_all add: TAILQ_REMOVE_tr_def TAILQ_REMOVE_def trace_at)
  then show ?thesis
    using assms by (simp add: trace_at)
qed

lemma concat_tr:
  assumes "TAILQ_CONCAT h1 h2 f m = Some m'" "h1 \<noteq> NULL" "T (h1 + 16) \<noteq> None" "h2 \<noteq> NULL" "T (h2 + 16) \<noteq> None"
    and "TAILQ_EMPTY h2 m = Some b"
  shows "TAILQ_CONCAT_tr pl h1 h2 f (m, T) = Some (m', fold (note_place pl) (if b then [] else [h2, h1, h2]) T)"
proof (cases b)
  case False
  have "TAILQ_INIT_tr pl h2 (m, T) = do { m \<leftarrow> TAILQ_INIT h2 m; Some (m, note_place pl h2 T) }" for m
    using assms(4,5) by (simp add: TAILQ_INIT_tr_def TAILQ_INIT_def trace_at)
  then have "TAILQ_CONCAT_tr pl h1 h2 f (m, T) = do {
     m \<leftarrow> TAILQ_CONCAT h1 h2 f m; T \<leftarrow> Some (note_place pl h2 T);
     T \<leftarrow> QMD_TRACE_HEAD pl h1 T; T \<leftarrow> QMD_TRACE_HEAD pl h2 T; Some (m, T) }"
    using assms(6) False by (simp add: TAILQ_CONCAT_tr_def TAILQ_CONCAT_def)
  then show ?thesis
    using assms False by (simp add: trace_at)
qed (use assms in \<open>simp add: TAILQ_CONCAT_tr_def TAILQ_CONCAT_def\<close>)
subsection \<open>Sessions with tracing\<close>

lemma dpath_prev: "e \<in> set es \<Longrightarrow> e + (f + 8) \<in> fst ` set (dpath f p es)"
  by (induction es arbitrary: p) (auto simp: image_Un)

lemma dpath_distinct: "distinct (map fst (dpath f p es)) \<Longrightarrow> distinct es"
proof (induction es arbitrary: p)
  case (Cons e es)
  have "e \<notin> set es"
    using dpath_prev [of e es f "e + f"] Cons.prems by auto
  then show ?case
    using Cons.IH [of "e + f"] Cons.prems by simp
qed simp

lemma followsD: "follows N (as @ x # bs) z \<Longrightarrow> N x = Some (fst_or z bs)"
  by (induction as) simp_all

abbreviation tailqs :: "addr \<Rightarrow> (bool \<Rightarrow> addr) \<Rightarrow> queues \<Rightarrow> footprint \<Rightarrow> cells \<Rightarrow> bool" where
  "tailqs f \<equiv> world (queue_cells Tailq f) (free_cells Tailq f)"

lemma tailq_links:
  assumes "tailqs f h (q, ls) R m"
  shows "TAILQ_EMPTY (h b) m = Some (q b = [])"
    and "x \<in> set (q b) \<Longrightarrow> \<exists>y. TAILQ_NEXT x f m = Some y \<and> (y = NULL \<longleftrightarrow> last (q b) = x)"
proof -
  obtain lw where W: "map fst lw = ls"
    "holds m (queue_cells Tailq f (h b) (q b) @ queue_cells Tailq f (h (\<not> b)) (q (\<not> b)) @ loose (free_cells Tailq f) lw @ R)"
    "\<And>c. h c \<noteq> NULL" "\<And>c d. h c \<notin> set (q d)" "\<And>c. h c \<notin> set ls" "\<And>d. NULL \<notin> set (q d)" "NULL \<notin> set ls"
    by (rule qf.worldE [OF assms, of b]) blast
  have "sound (h b) (q b)"
    using W(3) [of b] W(4) [of b b] W(6) [of b] by (simp add: sound_def)
  note F = queue_follows [OF W(2) this]
  show "TAILQ_EMPTY (h b) m = Some (q b = [])"
    using F(2) W(6) [of b] by (cases "q b") (auto simp: TAILQ_EMPTY_def TAILQ_FIRST_def queue_end_def)
  show "\<exists>y. TAILQ_NEXT x f m = Some y \<and> (y = NULL \<longleftrightarrow> last (q b) = x)" if x: "x \<in> set (q b)"
  proof -
    obtain as bs where s: "q b = as @ x # bs"
      using split_list [OF x] by blast
    have "distinct (map fst (queue_cells Tailq f (h b) (q b)))"
      using W(2) unfolding holds_def map_append distinct_append by blast
    then have "distinct (q b)"
      using dpath_distinct [of f "h b" "q b"] by (simp add: tailq_def)
    moreover have "fst_or NULL bs = NULL \<longleftrightarrow> bs = []"
      using W(6) [of b] s by (cases bs) auto
    moreover have "TAILQ_NEXT x f m = Some (fst_or NULL bs)"
      using followsD [of _ as x bs] F(1) s by (simp add: TAILQ_NEXT_def queue_end_def)
    ultimately show ?thesis
      using s by auto
  qed
qed

lemma fold_note_dom [simp]: "fold (note_place pl) ps T q = None \<longleftrightarrow> T q = None"
  by (induction ps arbitrary: T) simp_all

lemma list_step_elems:
  assumes "list_step c (q, ls) = Some (q', ls')"
  shows "set (q' True) \<union> set (q' False) \<union> set ls' \<subseteq> set (q True) \<union> set (q False) \<union> set ls"
proof -
  have ins: "set (ins_after x e es) \<subseteq> insert e (set es)" "set (ins_before x e es) \<subseteq> insert e (set es)" for x e es
    by (induction es) auto
  have mv: ?thesis if "move_in e b g (q, ls) = Some (q', ls')" "\<And>es. set (g es) \<subseteq> insert e (set es)" for e b g
    using that(1) that(2) [of "q b"] set_remove1_subset [of e ls] by (cases b) (auto simp: move_in_def split: if_splits)
  have "set (tl es) \<subseteq> set es" "es \<noteq> [] \<Longrightarrow> hd es \<in> set es" for es :: "addr list"
    by (cases es; auto)+
  note tl = this
  show ?thesis
  proof (cases c)
    case (Rem_Head b)
    then show ?thesis
      using assms tl [of "q b"] by (cases b) (auto split: if_splits)
  next
    case (Rem b x)
    then show ?thesis
      using assms set_remove1_subset [of x "q b"] by (cases b) (auto split: if_splits)
  next
    case (Concat b)
    then show ?thesis
      using assms by (cases b) auto
  next
    case (Ins_Head b e)
    then show ?thesis
      using assms by (intro mv [of e b "\<lambda>es. e # es"]) auto
  next
    case (Ins_Tail b e)
    then show ?thesis
      using assms by (intro mv [of e b "\<lambda>es. es @ [e]"]) auto
  next
    case (Ins_After b x e)
    then show ?thesis
      using assms ins(1) by (intro mv [of e b "ins_after x e"]) (auto split: if_splits)
  next
    case (Ins_Before b x e)
    then show ?thesis
      using assms ins(2) by (intro mv [of e b "ins_before x e"]) (auto split: if_splits)
  qed (use assms in auto)
qed

lemma buffers_step:
  assumes "buffers f h s T" "list_step c s = Some s'"
  shows "buffers f h s' (fold (note_place pl) ps T)"
  using assms list_step_elems [of c "fst s" "snd s" "fst s'" "snd s'"] unfolding buffers_def by auto

lemma tailq_step_tr:
  assumes "tailqs f h (q, ls) R m" "provides Tailq c" "list_step c (q, ls) = Some (q', ls')" "buffers f h (q, ls) T"
  shows "\<exists>m'. tailq_exec_tr pl f h c (m, T) = Some (m', fold (note_place pl) (traced f h c (q, ls)) T) \<and>
    queue_exec Tailq True f h c m = Some m' \<and> tailqs f h (q', ls') R m'"
proof -
  obtain m' where m': "queue_exec Tailq True f h c m = Some m'" "tailqs f h (q', ls') R m'"
    using qf.world_step [OF assms(1-3)] by blast
  have hb: "h b \<noteq> NULL" "T (h b + 16) \<noteq> None" for b
    using assms(4) by (simp_all add: buffers_def)
  have el: "e + f \<noteq> NULL" "T (e + f + 16) \<noteq> None" if "e \<in> set (q True) \<union> set (q False) \<union> set ls" for e
    using assms(4) that by (auto simp: buffers_def)
  have inq: "x \<in> set (q b) \<Longrightarrow> x \<in> set (q True) \<union> set (q False) \<union> set ls" for x b
    by (cases b) auto
  have "tailq_exec_tr pl f h c (m, T) = Some (m', fold (note_place pl) (traced f h c (q, ls)) T)"
  proof (cases c)
    case (Ins_Head b e)
    then show ?thesis
      using insert_head_tr [of "h b" e f m m' T pl] m'(1) hb el [of e] assms(3) by (auto simp: move_in_def split: if_splits)
  next
    case (Ins_Tail b e)
    then show ?thesis
      using insert_tail_tr [of "h b" e f m m' T pl] m'(1) hb el [of e] assms(3) by (auto simp: move_in_def split: if_splits)
  next
    case (Ins_After b x e)
    then have x: "x \<in> set (q b)" "e \<in> set ls"
      using assms(3) by (auto simp: move_in_def split: if_splits)
    obtain y where "TAILQ_NEXT x f m = Some y" "y = NULL \<longleftrightarrow> last (q b) = x"
      using tailq_links(2) [OF assms(1) x(1)] by blast
    then show ?thesis
      using insert_after_tr [of "h b" x e f m m' T y pl] m'(1) hb el [of e] el [OF inq [OF x(1)]] x(2) Ins_After by simp
  next
    case (Ins_Before b x e)
    then have x: "x \<in> set (q b)" "e \<in> set ls"
      using assms(3) by (auto simp: move_in_def split: if_splits)
    then show ?thesis
      using insert_before_tr [of x e f m m' T pl] m'(1) el [of e] el [OF inq [OF x(1)]] Ins_Before by simp
  next
    case (Rem b x)
    then have x: "x \<in> set (q b)"
      using assms(3) by (auto split: if_splits)
    obtain y where "TAILQ_NEXT x f m = Some y" "y = NULL \<longleftrightarrow> last (q b) = x"
      using tailq_links(2) [OF assms(1) x] by blast
    then show ?thesis
      using remove_tr [of "h b" x f m m' T y pl] m'(1) hb el [OF inq [OF x]] Rem by simp
  next
    case (Concat b)
    then show ?thesis
      using concat_tr [of "h b" "h (\<not> b)" f m m' T "q (\<not> b) = []" pl] m'(1) hb tailq_links(1) [OF assms(1), of "\<not> b"] by simp
  qed (use m'(1) assms(2) in simp_all)
  then show ?thesis
    using m' by blast
qed

lemma tailq_run_tr:
  assumes "tailqs f h s R m" "list_all (provides Tailq) (map snd cs)" "list_run (map snd cs) s = Some s'" "buffers f h s T"
  shows "\<exists>m'. tailq_run_tr f h cs (m, T) = Some (m', trace_run f h cs s T) \<and> tailqs f h s' R m' \<and>
    ops_run (queue_exec Tailq True f h) (map snd cs) m = Some m'"
  using assms
proof (induction cs arbitrary: s m T)
  case (Cons pc cs)
  obtain pl c q ls where pc: "pc = (pl, c)" "s = (q, ls)"
    by (cases pc; cases s)
  obtain q1 ls1 where s1: "list_step c (q, ls) = Some (q1, ls1)" "list_run (map snd cs) (q1, ls1) = Some s'"
    using Cons.prems(3) pc by (auto simp: bind_eq_Some_conv)
  have w: "tailqs f h (q, ls) R m" and b: "buffers f h (q, ls) T"
    using Cons.prems(1,4) by (simp_all only: pc(2))
  obtain m1 where m1: "tailq_exec_tr pl f h c (m, T) = Some (m1, fold (note_place pl) (traced f h c (q, ls)) T)" "tailqs f h (q1, ls1) R m1"
    "queue_exec Tailq True f h c m = Some m1"
    using tailq_step_tr [OF w _ s1(1) b, of pl] Cons.prems(2) pc(1) by auto
  have "buffers f h (q1, ls1) (fold (note_place pl) (traced f h c (q, ls)) T)"
    by (rule buffers_step [OF b s1(1)])
  then show ?case
    using Cons.IH [OF m1(2) _ s1(2)] Cons.prems(2) m1(1,3) s1(1) pc by (auto simp del: fold_append)
qed simp
text \<open>Without the checks and the traces the macros do the same.\<close>

lemma tailq_release:
  assumes "queue_exec Tailq True f h c m = Some m'"
  shows "queue_exec Tailq False f h c m = Some m'"
proof -
  have off: "checked False d = Some ()" for d
    by (simp add: checked_def)
  have on: "checked True d = Some ()" if "Option.bind (checked True d) g = Some m'" for d and g :: "unit \<Rightarrow> cells option"
    using that by (cases "checked True d") simp_all
  note defs = TAILQ_INSERT_HEAD_def TAILQ_INSERT_TAIL_def TAILQ_INSERT_AFTER_def TAILQ_INSERT_BEFORE_def
  show ?thesis
  proof (cases c)
    case (Rem b x)
    then have "checked True (QMD_TAILQ_CHECK_NEXT x f m) = Some ()" "checked True (QMD_TAILQ_CHECK_PREV x f m) = Some ()"
      using assms by (auto simp: TAILQ_REMOVE_def Option.bind_eq_Some_conv)
    then show ?thesis
      using assms Rem by (simp add: TAILQ_REMOVE_def off)
  qed (use assms in \<open>simp_all add: defs off\<close>, (frule on, simp)+)
qed

lemma tailq_run_release:
  "ops_run (queue_exec Tailq True f h) cs m = Some m' \<Longrightarrow> ops_run (queue_exec Tailq pa f h) cs m = Some m'"
proof (cases pa)
  case False
  then show "ops_run (queue_exec Tailq True f h) cs m = Some m' \<Longrightarrow> ?thesis"
    by (induction cs arbitrary: m) (auto simp: Option.bind_eq_Some_conv dest: tailq_release)
qed simp

text \<open>The places where the buffer at \<open>p\<close> was written, the oldest first.\<close>

fun place_log :: "addr \<Rightarrow> (bool \<Rightarrow> addr) \<Rightarrow> (place \<times> queue_op) list \<Rightarrow> queues \<Rightarrow> addr \<Rightarrow> place list" where
  "place_log f h [] s p = []"
| "place_log f h ((pl, c) # cs) s p =
     map (\<lambda>_. pl) (filter (\<lambda>q. q = p) (traced f h c s)) @ place_log f h cs (the (list_step c s)) p"

definition note1 :: "place \<Rightarrow> qm_trace \<Rightarrow> qm_trace" where
  "note1 pl t = \<lparr>lastfile = fst pl, lastline = snd pl, prevfile = lastfile t, prevline = lastline t\<rparr>"

lemma note_place_at: "note_place pl q T (p + 16) = (if q = p then map_option (note1 pl) (T (p + 16)) else T (p + 16))"
  by (auto simp: note_place_def note1_def [abs_def])

lemma fold_note_at:
  "fold (note_place pl) qs T (p + 16) = map_option (fold note1 (map (\<lambda>_. pl) (filter (\<lambda>q. q = p) qs))) (T (p + 16))"
proof (induction qs arbitrary: T)
  case (Cons q qs)
  then show ?case
    by (cases "T (p + 16)") (simp_all add: note_place_at)
qed (simp add: option.map_id)

lemma trace_run_at: "trace_run f h cs s T (p + 16) = map_option (fold note1 (place_log f h cs s p)) (T (p + 16))"
proof (induction cs arbitrary: s T)
  case (Cons pc cs)
  then show ?case
    by (cases pc; cases "T (p + 16)") (simp_all add: fold_note_at)
qed (simp add: option.map_id)

lemma note1_last_two:
  "fold note1 (ls @ [a, b]) t = \<lparr>lastfile = fst b, lastline = snd b, prevfile = fst a, prevline = snd a\<rparr>"
  by (simp add: note1_def)

text \<open>
  Property (C40): the debugging build (integrity checks and trace buffers compiled in) of the tail queues. A session
  that initialises two heads and runs any legal sequence of operations ends without undefined behaviour and without a
  panic, and does to the pointers exactly what the same session does in any other build, so it stands for the same lists.
  The buffer of a head or an element tells the last two places of the program whose macro recorded it (\<open>place_log\<close>).
\<close>

theorem queue_trace:
  assumes "holds m (head_cells Tailq (h True) v @ head_cells Tailq (h False) w @ loose (free_cells Tailq f) lw @ R)"
    and "NULL \<notin> {h True, h False} \<union> set (map fst lw)" "{h True, h False} \<inter> set (map fst lw) = {}"
    and "list_all (provides Tailq) (map snd cs)" "list_run (map snd cs) (\<lambda>_. [], map fst lw) = Some s"
    and "buffers f h (\<lambda>_. [], map fst lw) T"
  shows "\<exists>m' T'. do { s \<leftarrow> TAILQ_INIT_tr p1 (h True) (m, T); s \<leftarrow> TAILQ_INIT_tr p2 (h False) s; tailq_run_tr f h cs s } = Some (m', T') \<and>
    (\<forall>pa. do { m \<leftarrow> TAILQ_INIT (h True) m; m \<leftarrow> TAILQ_INIT (h False) m; ops_run (queue_exec Tailq pa f h) (map snd cs) m } = Some m') \<and>
    world (queue_cells Tailq f) (free_cells Tailq f) h s R m' \<and>
    (\<forall>p ls a b. T (p + 16) \<noteq> None \<longrightarrow>
      (if p = h True then [p1] else []) @ (if p = h False then [p2] else []) @ place_log f h cs (\<lambda>_. [], map fst lw) p = ls @ [a, b] \<longrightarrow>
      T' (p + 16) = Some \<lparr>lastfile = fst b, lastline = snd b, prevfile = fst a, prevline = snd a\<rparr>)"
proof -
  let ?s0 = "(\<lambda>_. [], map fst lw) :: queues"
  obtain m1 m2 where i: "TAILQ_INIT (h True) m = Some m1" "TAILQ_INIT (h False) m1 = Some m2" "tailqs f h ?s0 R m2"
  proof -
    have "list_all (provides Tailq) []" "list_run [] ?s0 = Some ?s0"
      by simp_all
    from queue_session_ok [OF assms(1-3) this] show thesis
      using that by (auto simp: Option.bind_eq_Some_conv)
  qed
  define T2 where "T2 = note_place p2 (h False) (note_place p1 (h True) T)"
  have hb: "h b \<noteq> NULL" "T (h b + 16) \<noteq> None" for b
    using assms(6) by (simp_all add: buffers_def)
  have t: "TAILQ_INIT_tr p1 (h True) (m, T) = Some (m1, note_place p1 (h True) T)"
    "TAILQ_INIT_tr p2 (h False) (m1, note_place p1 (h True) T) = Some (m2, T2)"
    using init_tr [OF i(1) hb(1) [of True], of T p1] init_tr [OF i(2) hb(1) [of False], of "note_place p1 (h True) T" p2] hb(2) by (simp_all add: T2_def)
  have "buffers f h ?s0 T2"
    using assms(6) by (simp add: buffers_def T2_def)
  then obtain m' where r: "tailq_run_tr f h cs (m2, T2) = Some (m', trace_run f h cs ?s0 T2)" "tailqs f h s R m'"
    "ops_run (queue_exec Tailq True f h) (map snd cs) m2 = Some m'"
    using tailq_run_tr [OF i(3) assms(4,5)] by blast
  have "trace_run f h cs ?s0 T2 (p + 16) = Some \<lparr>lastfile = fst b, lastline = snd b, prevfile = fst a, prevline = snd a\<rparr>"
    if "T (p + 16) \<noteq> None"
      "(if p = h True then [p1] else []) @ (if p = h False then [p2] else []) @ place_log f h cs ?s0 p = ls @ [a, b]" for p ls a b
  proof -
    have "T2 (p + 16) = map_option (fold note1 ((if p = h True then [p1] else []) @ (if p = h False then [p2] else []))) (T (p + 16))"
      using that(1) by (auto simp: T2_def note_place_at)
    then have "trace_run f h cs ?s0 T2 (p + 16) = map_option (fold note1 (ls @ [a, b])) (T (p + 16))"
      unfolding that(2) [symmetric] by (cases "T (p + 16)") (simp_all add: trace_run_at)
    then show ?thesis
      using that(1) note1_last_two [of ls a b] by auto
  qed
  then show ?thesis
    using t r i(1,2) tailq_run_release [OF r(3)] by auto
qed
definition trace_start :: traces where
  "trace_start = (\<lambda>p. Some \<lparr>lastfile = '''', lastline = 0, prevfile = '''', prevline = 0\<rparr>)"

theorem queue_trace_witness:
  "\<exists>m' T'. do { s \<leftarrow> TAILQ_INIT_tr (''a.c'', 1) 16 (queue_start, trace_start); s \<leftarrow> TAILQ_INIT_tr (''a.c'', 2) 48 s;
      s \<leftarrow> TAILQ_INSERT_TAIL_tr (''a.c'', 3) 16 96 8 s; s \<leftarrow> TAILQ_INSERT_HEAD_tr (''a.c'', 4) 16 160 8 s;
      TAILQ_REMOVE_tr (''a.c'', 5) 16 160 8 s } = Some (m', T') \<and>
    T' 32 = Some \<lparr>lastfile = ''a.c'', lastline = 4, prevfile = ''a.c'', prevline = 3\<rparr> \<and>
    T' 184 = Some \<lparr>lastfile = ''a.c'', lastline = 5, prevfile = ''a.c'', prevline = 4\<rparr>"
proof -
  let ?h = "\<lambda>b. if b then 16 else 48 :: addr"
  let ?cs = "[((''a.c'', 3), Ins_Tail True 96), ((''a.c'', 4), Ins_Head True 160), ((''a.c'', 5), Rem True 160)]"
  let ?lw = "[(96, 7, 7), (160, 7, 7)] :: (addr \<times> addr \<times> addr) list"
  have l: "list_run (map snd ?cs) (\<lambda>_. [], map fst ?lw) = Some ((\<lambda>_. [])(True := [96]), [160])"
    by (simp add: move_in_def fun_eq_iff)
  have h: "holds queue_start (head_cells Tailq (?h True) (7, 7) @ head_cells Tailq (?h False) (7, 7) @ loose (free_cells Tailq 8) ?lw @ [])"
    by (rule queue_start_holds) (simp_all add: head_cells_def free_cells_def free2_def)
  have b: "buffers 8 ?h (\<lambda>_. [], map fst ?lw) trace_start"
    by (simp add: buffers_def trace_start_def)
  obtain m' T' where r: "do { s \<leftarrow> TAILQ_INIT_tr (''a.c'', 1) (?h True) (queue_start, trace_start); s \<leftarrow> TAILQ_INIT_tr (''a.c'', 2) (?h False) s;
      tailq_run_tr 8 ?h ?cs s } = Some (m', T')"
    and T: "\<And>p ls a b. trace_start (p + 16) \<noteq> None \<Longrightarrow>
      (if p = ?h True then [(''a.c'', 1)] else []) @ (if p = ?h False then [(''a.c'', 2)] else []) @
        place_log 8 ?h ?cs (\<lambda>_. [], map fst ?lw) p = ls @ [a, b] \<Longrightarrow>
      T' (p + 16) = Some \<lparr>lastfile = fst b, lastline = snd b, prevfile = fst a, prevline = snd a\<rparr>"
    using queue_trace [OF h _ _ _ l b, of "(''a.c'', 1)" "(''a.c'', 2)"] by auto
  have "T' (16 + 16) = Some \<lparr>lastfile = ''a.c'', lastline = 4, prevfile = ''a.c'', prevline = 3\<rparr>"
    using T [of 16 "[(''a.c'', 1)]" "(''a.c'', 3)" "(''a.c'', 4)"] by (simp add: trace_start_def move_in_def)
  moreover have "T' (168 + 16) = Some \<lparr>lastfile = ''a.c'', lastline = 5, prevfile = ''a.c'', prevline = 4\<rparr>"
    using T [of 168 "[]" "(''a.c'', 4)" "(''a.c'', 5)"] by (simp add: trace_start_def move_in_def)
  moreover have "tailq_run_tr f h [] = Some"
    "tailq_run_tr f h ((pl, c) # cs) = (\<lambda>s. Option.bind (tailq_exec_tr pl f h c s) (tailq_run_tr f h cs))" for f h pl c cs
    by (simp_all add: fun_eq_iff)
  ultimately show ?thesis
    using r by (intro exI [of _ m'] exI [of _ T']) simp
qed

end
