(* ===== verification/Spec2Isabelle.thy ===== *)
theory Spec2Isabelle
  imports Nc_Array_Session Nc_Hashtable_Claims Nc_Sds_Roundtrips Nc_Sds_Test Nc_Rbtree_Claims Nc_Palloc_Claims Nc_Queue_Trace
begin

text \<open>
  A verification development for libnc, a C library of containers and memory helpers.

  \<^bold>\<open>The program.\<close> libnc has six parts, all under \<open>src/src/\<close>. \<open>nc_macros\<close> wraps \<open>malloc\<close> and its relatives
  and defines return codes, alignment and assertions. On top of it there are the growable array
  (\<open>nc_array\<close>), the chained hash table (\<open>nc_hashtable\<close>) and the memory pool (\<open>nc_palloc\<close>). The dynamic
  strings (\<open>nc_sds\<close>) call the C library directly. The red-black tree (\<open>nc_rbtree\<close>) and the BSD lists and
  queues (\<open>nc_sys_queue.h\<close>) are intrusive: they allocate nothing and link nodes that the caller owns.
  The parts share no state; the ones that allocate meet in the heap, so every statement about an
  operation also says what it leaves alone (other blocks, other strings, other cells).

  \<^bold>\<open>The platform.\<close> The models are for LP64: \<open>size_t\<close> and pointers are \<open>64 word\<close> and wrap around, \<open>int\<close> and
  \<open>long long\<close> are mathematical integers with a range check where C leaves overflow undefined
  (\<open>int_chk\<close>). Undefined behaviour and a loop that does not end are \<open>None\<close> of the option monad, so a
  theorem of the form \<open>f x = Some y \<and> ...\<close> says that the code runs to its end without undefined
  behaviour. A null pointer or an error code that the code returns on purpose is an ordinary value;
  an \<open>assert\<close> that fails is the value \<open>Aborts\<close> in the strings and \<open>None\<close> elsewhere.

  \<^bold>\<open>Memory.\<close> \<open>C_Heap\<close> holds the live blocks with their sizes, the bytes, and a list of addresses that the
  system will offer (\<open>offers\<close>). A request succeeds when the next offer is a legal place for it and fails
  otherwise, so every placement and every failure that C allows occurs for some list, and a theorem
  without a hypothesis on \<open>offers\<close> covers all of them. \<open>roomy k h\<close> says that the next \<open>k\<close> requests of up to
  4 GiB (\<open>slot_size\<close>) succeed; theorems that promise success assume it and name \<open>k\<close>. Each component extends
  the heap record by typed stores for its structs, under the addresses that the code uses, and a
  component whose structs lie in blocks makes the access depend on the block.

  \<^bold>\<open>The theories.\<close>

  \<^item> \<open>Prelude\<close>: machine types, conversions, generic lemmas. \<open>C_Heap\<close>: \<open>malloc\<close>, \<open>realloc\<close>, \<open>free\<close>, \<open>memset\<close>.

  \<^item> \<open>Nc_Macros\<close>: \<open>nc_alloc\<close> to \<open>nc_free\<close>, \<open>nc_assert\<close> and the builds of \<open>NC_ASSERT\<close>, the constants. The locale
  \<open>block_allocator\<close> states what the other components need of an allocator; its interpretation on
  \<open>nc_alloc\<close> and \<open>nc_free\<close> is \<open>nc\<close>.

  \<^item> \<open>Buffer_Spec\<close> and \<open>Keyed_Map_Spec\<close>: the contracts \<open>append_buffer\<close> (arrays and strings), its
  extension \<open>owned_buffer\<close> with the release of the buffer (both again), \<open>keyed_map\<close> and
  its extension \<open>owned_map\<close> with what the container owes and its destruction (the hash table), with
  their clients: a run of appends, a run of appends up to the release, a run of stores and deletions, the same up to
  the destruction.

  \<^item> \<open>Nc_Array\<close>: \<open>nc_array.c\<close> and \<open>nc_array.h\<close>. The elements are the bytes of the block; the abstraction is
  the list of byte strings \<open>contents\<close>. \<open>Nc_Array_Session\<close> follows one array among others (\<open>array_alone\<close>) from
  its creation through a run of appends to its destruction.

  \<^item> \<open>Nc_Hashtable\<close> has the operations of \<open>nc_hashtable.c\<close> on list nodes, pairs, bucket arrays and tables.
  \<open>Ring\<close> is the theory of doubly linked rings and of contiguous classes in them.
  \<open>Nc_Hashtable_Correct\<close> has the invariant \<open>ht_inv\<close> (one ring, buckets as segments of it, every block
  owned), the map that a table stands for (\<open>table_map\<close>) and the operations against both;
  \<open>Nc_Hashtable_Claims\<close> the properties.

  \<^item> \<open>Nc_Sds\<close> has all functions of \<open>nc_sds.c\<close> and \<open>nc_sds.h\<close>. \<open>Nc_Sds_Correct\<close> has the invariant \<open>sds_wf\<close>, the
  text of a string (\<open>sds_text\<close>) and the predicates \<open>unchanged\<close>, \<open>created\<close> and \<open>moved\<close> in which the effect
  of an operation on the whole store is stated; \<open>Nc_Sds_Edit\<close> and \<open>Nc_Sds_Text\<close> go through the operations;
  \<open>Nc_Sds_Session\<close> treats sequences of them. \<open>Nc_Sds_Parse\<close> defines splitting, joining and the reading
  of quoted lines on lists; \<open>Nc_Sds_Grammar\<close> has the grammar of these lines as inductive relations (\<open>line_args\<close>),
  written from the comment of \<open>sdssplitargs\<close>, and shows that the reader follows it; \<open>Nc_Sds_Split\<close> and \<open>Nc_Sds_Args\<close> show that \<open>sdssplitlen\<close> and \<open>sdssplitargs\<close>
  compute them and leak nothing. \<open>Nc_Sds_Claims\<close> and \<open>Nc_Sds_Roundtrips\<close> have the properties.
  \<open>Nc_Sds_Store\<close> has programs on many strings: variables, commands, the stores that they reach
  (\<open>sds_reach\<close>), with progress and preservation of \<open>store_inv\<close>. \<open>Nc_Sds_Test\<close> has the test program of the strings,
  \<open>main\<close> under \<open>SDS_TEST_MAIN\<close>, run on that invariant.

  \<^item> \<open>Nc_Rbtree\<close> has the operations of \<open>nc_rbtree.c\<close> on a store of nodes. \<open>Rb_Tree\<close> has red-black trees as
  values, with positions (zippers) and the rebalancing loops on them; \<open>Nc_Rbtree_Layout\<close> places such a
  tree in memory (\<open>lay\<close>); \<open>Nc_Rbtree_Fixups\<close> and \<open>Nc_Rbtree_Correct\<close> show that the code run on the layout
  of a tree gives the layout of the rebalanced tree; \<open>Nc_Rbtree_Claims\<close> states this for callers, on
  the sorted list of entries (\<open>rb_holds\<close>), and has the locale \<open>ordered_index\<close> with its client, draining by
  the minimum.

  \<^item> \<open>Nc_Palloc\<close> has the operations of \<open>nc_palloc.c\<close>, whose records lie in the memory that the pool manages.
  \<open>Nc_Palloc_Correct\<close> has the invariant of the chain of blocks (\<open>core\<close>), \<open>Nc_Palloc_Inv\<close> that of the whole
  pool (\<open>pool_inv\<close>), \<open>Nc_Palloc_Ops\<close> every operation, \<open>Nc_Palloc_Claims\<close> the properties.

  \<^item> \<open>Nc_Queue\<close> has the macros of \<open>nc_sys_queue.h\<close> (\<open>SLIST\<close>, \<open>STAILQ\<close>, \<open>LIST\<close>, \<open>TAILQ\<close>, \<open>CIRCLEQ\<close>) on a store of
  pointer cells. \<open>Nc_Queue_Cells\<close> describes queues by the cells they occupy, \<open>Nc_Queue_Correct\<close> has a rule
  per macro, \<open>Nc_Queue_Session\<close> the locale \<open>queue_family\<close> that all five families satisfy, and
  \<open>Nc_Queue_Claims\<close> its interpretation \<open>qf\<close> and the properties. \<open>Nc_Queue_Trace\<close> has the struct declarations, and the
  tail queue macros of the debugging build with their trace buffers, with a simulation by the macros without them.

  \<^bold>\<open>What is shown.\<close>

  \<^item> Array: a push stores behind the old elements, which keep their bytes across the move, below
  \<open>2 ^ 30\<close> elements; a failure changes nothing; creation, any run of appends and destruction balance and leave every other
  array as it was. A theorem and the lemma \<open>nc_array_push_overflow\<close> give
  the overflow of \<open>n * size\<close> in the creation and of \<open>nalloc\<close> in the push.

  \<^item> Hash table: every public function keeps the invariant, acts on the map as documented, balances
  callbacks and blocks, below the last prime (1610612741 entries). The exception is a rehash that
  runs out of memory, which loses the bucket array and nothing else (\<open>bucketless\<close>): that every later access is
  undefined is a theorem too, and so is that destroying such a table still gives everything back. Iteration
  enumerates the map.

  \<^item> Strings: any sequence of edits computes on the text what the list functions do, or returns null
  with everything unchanged; doubling in \<open>sdscatprintf\<close> ends; splitting and joining, quoting and
  parsing, printing and reading a number are inverse to each other; \<open>sdssplitargs\<close> reads exactly the lines of its grammar; \<open>sdscmp\<close> is the
  linear order of \<open>byte_string\<close>, lexicographic by unsigned bytes; failing
  functions leak nothing. Whatever legal calls a program makes on its strings, the store stays well typed and
  every variable shows its text; every check of the test program succeeds.

  \<^item> Red-black tree: any legal sequence of insertions and deletions ends without undefined behaviour,
  acts on the sorted list of entries, and keeps the tree balanced; inserting and draining is a
  stable sort.

  \<^item> Pool: memory that is handed out lies in a live block, aligned where asked, apart from all that is
  in use; a session from creation to destruction frees every block once and calls every handler once.

  \<^item> Queues: any legal sequence of operations on two queues acts as the list operations, in all
  families and in the build with integrity checks and trace buffers; traversals visit every element, also when the
  body removes the current one.

  \<^bold>\<open>Bounds.\<close> Texts and edits stay within \<open>sds_limit = 2 ^ 30\<close>, which keeps every \<open>int\<close> computation of the
  strings in range; lines that are split or parsed stay below \<open>2 ^ 27\<close>, so that the array of results is
  smaller than a slot. One edit makes at most \<open>op_allocs = 29\<close> requests: the doubling in \<open>sdscatprintf\<close>
  starts at 16 bytes and passes \<open>2 ^ 30\<close> after 27 rounds. The size of a pool is divisible by 8 and at least 64,
  the size of its header, and in sessions at least 96, so that its own records come from its blocks; what
  happens otherwise are the lemmas \<open>pool_overrun\<close> and \<open>pool_create_small\<close>. A session resets a pool only before the
  first cleanup handler (\<open>reset_safe\<close>); the lemma \<open>reset_dangling_cleanup\<close> shows why. A life of a hash table has at most as many
  operations as the last bucket count, 1610612741. Loops whose end depends on memory are \<open>partial_function (option)\<close>, and the theorems
  show the value \<open>Some\<close>; the only fuel is that of the client \<open>iter_walk\<close>, the loop over an iterator,
  for which the number of entries and one is shown to be enough. The bound on the depth of the tree is
  stated by \<open>climb\<close>: some \<open>k\<close> parent links lead from a node to the root, with \<open>2 ^ k \<le> (n + 1) ^ 2\<close> for \<open>n\<close> entries.

  \<^bold>\<open>Not modelled.\<close> The release build defines \<open>NDEBUG\<close>, under which \<open>assert\<close> is nothing; the models of \<open>sdsIncrLen\<close> and of the
  test program are those of the debugging build. The log macros expand to nothing, \<open>log_panic\<close> too: a failed integrity
  check of the queues, which it should report, is undefined in the model, so the theorems show that none fails. The branches of \<open>NC_DEBUG_PALLOC\<close> are not
  compiled. \<open>vsnprintf\<close> belongs to the C library: the text it makes is an argument. \<open>posix_memalign\<close> is an
  argument of \<open>nc_memalign_posix\<close>. \<open>NC_MIN_POOL_SIZE\<close> refers to an undeclared function, and \<open>nc_pmemalign\<close>
  has no definition. The macros that the test program of the strings takes from \<open>testhelp.h\<close>, a file that
  the repository does not have, are arguments of its model. The test of the array, with its framework,
  and the build scripts are not part of the library.
\<close>

end
